(* ===== verification/Prelude.thy ===== *)
theory Prelude
  imports
    Main
    "HOL-Library.List_Lexorder"
    "HOL-Library.Char_ord"
    "HOL-Library.Product_Lexorder"
    "HOL-Library.Option_ord"
    "HOL-Library.Word"
begin

text \<open>
  What every component of the development shares.

  \<^item> The 64-bit casts of the code: a \<open>u64\<close> is a \<^typ>\<open>nat\<close> below \<open>2 ^ 64\<close>, an SQL
    integer an \<^typ>\<open>int\<close>; \<open>as_i64\<close> and \<open>as_u64\<close> are Rust's \<open>as i64\<close> and \<open>as u64\<close>, and
    \<open>u64_add\<close> and \<open>u64_sub\<close> the wrapping \<open>+\<close> and \<open>-\<close> of a release build.
  \<^item> Fallible computations over a state, \<open>('s, 'e, 'a) io\<close>: a function of the state that
    returns an error (\<open>Inl\<close>) or a value (\<open>Inr\<close>) and the new state. \<open>bind_io\<close> is Rust's
    \<open>?\<close> followed by the rest of the function.
  \<^item> An SQL database behind such computations. Every statement consumes one entry of the
    schedule \<open>faults\<close>: \<open>Some e\<close> makes it fail with \<open>e\<close>, \<open>None\<close> (or an empty schedule)
    lets it run. A failed statement inside \<open>transaction\<close> rolls the tables back, as
    dropping an uncommitted \<open>sqlx\<close> transaction does. Theorems that quantify over the
    schedule hold for a failure at any statement.
  \<^item> Generic lemmas on sorted lists, association lists and filters.
\<close>

named_theorems io_simps \<open>evaluation of fallible computations\<close>

type_synonym byte = "8 word"
type_synonym bytes = "byte list"
type_synonym uuid = "128 word"

section \<open>64-bit integers\<close>

definition as_i64 :: "nat \<Rightarrow> int" where
  "as_i64 n = (if n mod 2 ^ 64 < 2 ^ 63 then int (n mod 2 ^ 64) else int (n mod 2 ^ 64) - 2 ^ 64)"

definition as_u64 :: "int \<Rightarrow> nat" where
  "as_u64 i = nat (i mod 2 ^ 64)"

definition u64_add :: "nat \<Rightarrow> nat \<Rightarrow> nat" where
  "u64_add a b = (a + b) mod 2 ^ 64"

definition u64_sub :: "nat \<Rightarrow> nat \<Rightarrow> nat" where
  "u64_sub a b = nat ((int a - int b) mod 2 ^ 64)"

abbreviation i64_range :: "nat \<Rightarrow> bool" where
  "i64_range n \<equiv> n < 2 ^ 63"

lemma as_i64_small [simp]: "i64_range n \<Longrightarrow> as_i64 n = int n"
  by (simp add: as_i64_def)

lemma as_u64_of_nat [simp]: "n < 2 ^ 64 \<Longrightarrow> as_u64 (int n) = n"
  by (simp add: as_u64_def nat_mod_as_int)

lemma as_u64_as_i64 [simp]: "n < 2 ^ 64 \<Longrightarrow> as_u64 (as_i64 n) = n"
  by (auto simp: as_i64_def as_u64_def nat_mod_as_int)

lemma as_i64_as_u64: "- (2 ^ 63) \<le> i \<Longrightarrow> i < 2 ^ 63 \<Longrightarrow> as_i64 (as_u64 i) = i"
proof -
  assume b: "- (2 ^ 63) \<le> i" "i < 2 ^ 63"
  show ?thesis
  proof (cases "0 \<le> i")
    case True
    with b show ?thesis by (simp add: as_u64_def as_i64_def)
  next
    case False
    have "i mod 2 ^ 64 = (i + 2 ^ 64) mod 2 ^ 64" by simp
    also have "\<dots> = i + 2 ^ 64" using b False by (intro mod_pos_pos_trivial) auto
    finally have "i mod 2 ^ 64 = i + 2 ^ 64" .
    with False b show ?thesis by (simp add: as_u64_def as_i64_def)
  qed
qed

lemma u64_add_small [simp]: "a + b < 2 ^ 64 \<Longrightarrow> u64_add a b = a + b"
  by (simp add: u64_add_def)

lemma u64_sub_small [simp]: "b \<le> a \<Longrightarrow> a < 2 ^ 64 \<Longrightarrow> u64_sub a b = a - b"
  by (simp add: u64_sub_def nat_diff_distrib' of_nat_diff [symmetric] del: of_nat_diff)

lemma u64_add_less [simp]: "u64_add a b < 2 ^ 64"
  by (simp add: u64_add_def)

section \<open>Fallible computations\<close>

type_synonym ('s, 'e, 'a) io = "'s \<Rightarrow> ('e + 'a) \<times> 's"

definition ok_io :: "'a \<Rightarrow> ('s, 'e, 'a) io" where
  "ok_io a = (\<lambda>s. (Inr a, s))"

definition fail_io :: "'e \<Rightarrow> ('s, 'e, 'a) io" where
  "fail_io e = (\<lambda>s. (Inl e, s))"

definition bind_io :: "('s, 'e, 'a) io \<Rightarrow> ('a \<Rightarrow> ('s, 'e, 'b) io) \<Rightarrow> ('s, 'e, 'b) io" where
  "bind_io m f = (\<lambda>s. case m s of (Inl e, s') \<Rightarrow> (Inl e, s') | (Inr a, s') \<Rightarrow> f a s')"

definition map_err :: "('e \<Rightarrow> 'f) \<Rightarrow> ('s, 'e, 'a) io \<Rightarrow> ('s, 'f, 'a) io" where
  "map_err h m = (\<lambda>s. case m s of (Inl e, s') \<Rightarrow> (Inl (h e), s') | (Inr a, s') \<Rightarrow> (Inr a, s'))"

definition lift_result :: "'e + 'a \<Rightarrow> ('s, 'e, 'a) io" where
  "lift_result r = (\<lambda>s. (r, s))"

primrec for_each :: "('a \<Rightarrow> ('s, 'e, unit) io) \<Rightarrow> 'a list \<Rightarrow> ('s, 'e, unit) io" where
  "for_each f [] = ok_io ()"
| "for_each f (x # xs) = bind_io (f x) (\<lambda>_. for_each f xs)"

text \<open>\<open>collect\<close> of an iterator of results: the first error, or all the values.\<close>

fun collect_results :: "('e + 'a) list \<Rightarrow> 'e + 'a list" where
  "collect_results [] = Inr []"
| "collect_results (Inl e # _) = Inl e"
| "collect_results (Inr a # rs) = (case collect_results rs of Inl e \<Rightarrow> Inl e | Inr xs \<Rightarrow> Inr (a # xs))"

lemma collect_results_map_Inr [simp]: "collect_results (map (\<lambda>x. Inr (f x)) xs) = Inr (map f xs)"
  by (induction xs) auto

lemma collect_results_InrD: "collect_results rs = Inr xs \<Longrightarrow> rs = map Inr xs"
  by (induction rs arbitrary: xs rule: collect_results.induct) (auto split: sum.splits)

lemma collect_results_ok: "(\<exists>xs. collect_results rs = Inr xs) \<longleftrightarrow> (\<forall>r \<in> set rs. \<exists>a. r = Inr a)"
  by (induction rs rule: collect_results.induct) (auto split: sum.splits)

lemma collect_results_fails:
  assumes "x \<in> set xs" "f x = Inl c"
  shows "\<exists>e. collect_results (map f xs) = Inl e"
  using assms collect_results_ok [of "map f xs"]
  by (cases "collect_results (map f xs)") (auto dest: bspec [of _ _ x])

text \<open>A computation on one part of a state, run on the whole.\<close>

definition zoom :: "('w \<Rightarrow> 's) \<Rightarrow> ('s \<Rightarrow> 'w \<Rightarrow> 'w) \<Rightarrow> ('s, 'e, 'a) io \<Rightarrow> ('w, 'e, 'a) io" where
  "zoom get put m = (\<lambda>w. case m (get w) of (r, s) \<Rightarrow> (r, put s w))"

lemma ok_io_apply [simp]: "ok_io a s = (Inr a, s)"
  by (simp add: ok_io_def)

lemma fail_io_apply [simp]: "fail_io e s = (Inl e, s)"
  by (simp add: fail_io_def)

lemma lift_result_apply [simp]: "lift_result r s = (r, s)"
  by (simp add: lift_result_def)

lemma bind_io_Inr [io_simps]: "m s = (Inr a, s') \<Longrightarrow> bind_io m f s = f a s'"
  by (simp add: bind_io_def)

lemma bind_io_Inl [io_simps]: "m s = (Inl e, s') \<Longrightarrow> bind_io m f s = (Inl e, s')"
  by (simp add: bind_io_def)

lemma map_err_Inr [io_simps]: "m s = (Inr a, s') \<Longrightarrow> map_err h m s = (Inr a, s')"
  by (simp add: map_err_def)

lemma map_err_Inl [io_simps]: "m s = (Inl e, s') \<Longrightarrow> map_err h m s = (Inl (h e), s')"
  by (simp add: map_err_def)

lemma zoom_apply [io_simps]: "m (get w) = (r, s) \<Longrightarrow> zoom get put m w = (r, put s w)"
  by (simp add: zoom_def)

lemma bind_io_InrE:
  assumes "bind_io m f s = (Inr b, s'')"
  obtains a s' where "m s = (Inr a, s')" "f a s' = (Inr b, s'')"
  using assms by (auto simp: bind_io_def split: prod.splits sum.splits)

section \<open>SQL databases with a schedule of faults\<close>

record 't db =
  tables :: 't
  faults :: "string option list"

definition sql :: "('t \<Rightarrow> 'a \<times> 't) \<Rightarrow> ('t db, string, 'a) io" where
  "sql f d =
     (case faults d of
        Some e # fs \<Rightarrow> (Inl e, d\<lparr>faults := fs\<rparr>)
      | _ \<Rightarrow> (case f (tables d) of (a, t) \<Rightarrow> (Inr a, d\<lparr>tables := t, faults := tl (faults d)\<rparr>)))"

definition sql_query :: "('t \<Rightarrow> 'a) \<Rightarrow> ('t db, string, 'a) io" where
  "sql_query q = sql (\<lambda>t. (q t, t))"

definition sql_exec :: "('t \<Rightarrow> 't) \<Rightarrow> ('t db, string, unit) io" where
  "sql_exec f = sql (\<lambda>t. ((), f t))"

definition transaction :: "('t db, string, 'a) io \<Rightarrow> ('t db, string, 'a) io" where
  "transaction body d =
     (case bind_io (sql_exec (\<lambda>t. t)) (\<lambda>_. bind_io body (\<lambda>a. bind_io (sql_exec (\<lambda>t. t)) (\<lambda>_. ok_io a))) d of
        (Inl e, d') \<Rightarrow> (Inl e, d'\<lparr>tables := tables d\<rparr>)
      | (Inr a, d') \<Rightarrow> (Inr a, d'))"

abbreviation healthy :: "'t db \<Rightarrow> bool" where
  "healthy d \<equiv> faults d = []"

lemma sql_healthy [io_simps]:
  "healthy d \<Longrightarrow> sql f d = (Inr (fst (f (tables d))), d\<lparr>tables := snd (f (tables d))\<rparr>)"
  by (simp add: sql_def split: prod.splits)

lemma sql_query_healthy [io_simps]: "healthy d \<Longrightarrow> sql_query q d = (Inr (q (tables d)), d)"
  by (simp add: sql_query_def sql_healthy)

lemma sql_exec_healthy [io_simps]: "healthy d \<Longrightarrow> sql_exec f d = (Inr (), d\<lparr>tables := f (tables d)\<rparr>)"
  by (simp add: sql_exec_def sql_healthy)

lemma sql_query_tables: "tables (snd (sql_query q d)) = tables d"
  by (auto simp: sql_query_def sql_def split: list.splits option.splits)

lemma sql_query_Inr: "fst (sql_query q d) = Inr a \<Longrightarrow> a = q (tables d)"
  by (auto simp: sql_query_def sql_def split: list.splits option.splits)

lemma sql_exec_cases:
  obtains e where "fst (sql_exec f d) = Inl e" "tables (snd (sql_exec f d)) = tables d"
  | "fst (sql_exec f d) = Inr ()" "tables (snd (sql_exec f d)) = f (tables d)"
proof (cases "\<exists>e fs. faults d = Some e # fs")
  case True
  then obtain e fs where "faults d = Some e # fs" by blast
  then show ?thesis by (intro that(1) [of e]) (auto simp: sql_exec_def sql_def)
next
  case False
  then show ?thesis
    by (intro that(2)) (auto simp: sql_exec_def sql_def split: list.splits option.splits)
qed

lemma transaction_healthy [io_simps]:
  assumes "healthy d" "body d = (Inr a, d')" "healthy d'"
  shows "transaction body d = (Inr a, d')"
  using assms by (simp add: transaction_def bind_io_def sql_exec_healthy)

lemma transaction_rollback:
  "fst (transaction body d) = Inl e \<Longrightarrow> tables (snd (transaction body d)) = tables d"
  by (auto simp: transaction_def split: prod.splits sum.splits)

lemma sql_exec_id_tables: "sql_exec (\<lambda>t. t) d = (r, d') \<Longrightarrow> tables d' = tables d"
  by (auto simp: sql_exec_def sql_def split: list.splits option.splits)

lemma transaction_commit:
  assumes "transaction body d = (Inr a, d')"
  obtains d1 d2 where "tables d1 = tables d" "body d1 = (Inr a, d2)" "tables d' = tables d2"
proof -
  from assms have run: "bind_io (sql_exec (\<lambda>t. t)) (\<lambda>_. bind_io body
      (\<lambda>a. bind_io (sql_exec (\<lambda>t. t)) (\<lambda>_. ok_io a))) d = (Inr a, d')"
    by (auto simp: transaction_def split: prod.splits sum.splits)
  then obtain u1 d1 b d2 u2 d3 where steps: "sql_exec (\<lambda>t. t) d = (Inr u1, d1)"
      "body d1 = (Inr b, d2)" "sql_exec (\<lambda>t. t) d2 = (Inr u2, d3)" "b = a" "d3 = d'"
    by (elim bind_io_InrE) (simp add: that)
  then show ?thesis
    by (intro that [of d1 d2]) (auto dest: sql_exec_id_tables)
qed

text \<open>
  A computation whose successful runs do not depend on the schedule: what it returns and leaves
  when no statement fails on the way is what it returns and leaves without any schedule. All
  code that only propagates errors is of this kind, so what is shown of healthy runs holds of
  every successful one.
\<close>

definition oblivious :: "('t db, 'e, 'a) io \<Rightarrow> bool" where
  "oblivious m \<longleftrightarrow> (\<forall>d a d'. m d = (Inr a, d') \<longrightarrow> m (d\<lparr>faults := []\<rparr>) = (Inr a, d'\<lparr>faults := []\<rparr>))"

named_theorems oblivious_intros \<open>closure of schedule-independent computations\<close>

lemma obliviousD: "oblivious m \<Longrightarrow> m d = (Inr a, d') \<Longrightarrow> m (d\<lparr>faults := []\<rparr>) = (Inr a, d'\<lparr>faults := []\<rparr>)"
  by (simp add: oblivious_def)

lemma oblivious_sql [oblivious_intros]: "oblivious (sql f)"
  by (auto simp: oblivious_def sql_def split: list.splits option.splits prod.splits)

lemma oblivious_sql_exec [oblivious_intros]: "oblivious (sql_exec f)"
  by (simp add: sql_exec_def oblivious_sql)

lemma oblivious_sql_query [oblivious_intros]: "oblivious (sql_query f)"
  by (simp add: sql_query_def oblivious_sql)

lemma oblivious_ok [oblivious_intros]: "oblivious (ok_io a)"
  by (simp add: oblivious_def)

lemma oblivious_fail [oblivious_intros]: "oblivious (fail_io e)"
  by (simp add: oblivious_def)

lemma oblivious_bind [oblivious_intros]: "oblivious m \<Longrightarrow> (\<And>a. oblivious (f a)) \<Longrightarrow> oblivious (bind_io m f)"
  unfolding oblivious_def by (intro allI impI, elim bind_io_InrE) (metis bind_io_Inr)

lemma oblivious_map_err [oblivious_intros]: "oblivious m \<Longrightarrow> oblivious (map_err h m)"
  by (fastforce simp: oblivious_def map_err_def split: prod.splits sum.splits)

lemma oblivious_for_each [oblivious_intros]: "(\<And>x. oblivious (f x)) \<Longrightarrow> oblivious (for_each f xs)"
  by (induction xs) (auto intro: oblivious_intros)

lemma oblivious_transaction [oblivious_intros]:
  assumes "oblivious body"
  shows "oblivious (transaction body)"
proof -
  let ?m = "bind_io (sql_exec (\<lambda>t. t)) (\<lambda>_. bind_io body (\<lambda>a. bind_io (sql_exec (\<lambda>t. t)) (\<lambda>_. ok_io a)))"
  have "oblivious ?m" using assms by (intro oblivious_intros)
  moreover have "transaction body d = (Inr a, d') \<longleftrightarrow> ?m d = (Inr a, d')" for d a d'
    by (auto simp: transaction_def split: prod.splits sum.splits)
  ultimately show ?thesis by (simp add: oblivious_def)
qed

text \<open>A transaction under any schedule: undone, or as without a schedule.\<close>

lemma transaction_cases:
  assumes "oblivious body"
  obtains e where "fst (map_err h (transaction body) d) = Inl e" "tables (snd (map_err h (transaction body) d)) = tables d"
  | a where "fst (map_err h (transaction body) d) = Inr a" "fst (map_err h (transaction body) (d\<lparr>faults := []\<rparr>)) = Inr a"
      "tables (snd (map_err h (transaction body) d)) = tables (snd (map_err h (transaction body) (d\<lparr>faults := []\<rparr>)))"
proof (cases "transaction body d")
  case (Pair r d')
  show ?thesis
  proof (cases r)
    case (Inl e)
    with Pair transaction_rollback [of body d e] show ?thesis by (intro that(1) [of "h e"]) (simp_all add: map_err_def)
  next
    case (Inr a)
    with Pair obliviousD [OF oblivious_transaction [OF assms], of d a d'] show ?thesis
      by (intro that(2) [of a]) (simp_all add: map_err_def)
  qed
qed

section \<open>Options\<close>

lemma max_None [simp]: "max x None = x" "max None x = x" for x :: "'a :: linorder option"
  by (cases x; simp add: max_def)+

section \<open>Lists\<close>

text \<open>\<open>str::split_once\<close> at a character.\<close>

fun split_once :: "'a \<Rightarrow> 'a list \<Rightarrow> ('a list \<times> 'a list) option" where
  "split_once c [] = None"
| "split_once c (x # xs) =
     (if x = c then Some ([], xs)
      else (case split_once c xs of None \<Rightarrow> None | Some (a, b) \<Rightarrow> Some (x # a, b)))"

lemma split_once_append [simp]: "c \<notin> set a \<Longrightarrow> split_once c (a @ c # b) = Some (a, b)"
  by (induction a) auto

lemma split_once_SomeD: "split_once c xs = Some (a, b) \<Longrightarrow> c \<notin> set a \<and> xs = a @ c # b"
  by (induction xs arbitrary: a) (auto split: option.splits if_splits)

lemma distinct_of_map: "distinct (map f xs) \<Longrightarrow> distinct xs"
  by (simp add: distinct_map)

lemma distinct_concat_map:
  assumes "distinct xs" "\<And>x. x \<in> set xs \<Longrightarrow> distinct (f x)"
    and "\<And>x y. x \<in> set xs \<Longrightarrow> y \<in> set xs \<Longrightarrow> x \<noteq> y \<Longrightarrow> set (f x) \<inter> set (f y) = {}"
  shows "distinct (concat (map f xs))"
  using assms by (induction xs) (auto simp: disjoint_iff)

end
