(* ===== verification/Rust_String.thy ===== *)
theory Rust_String
  imports Prelude
begin

text \<open>
  Strings as Rust has them: a string is its UTF-8 bytes, and its characters are the code points,
  each one byte or a leading byte with the continuation bytes that follow it. White space is what
  Unicode calls so. \<open>normalize_optional_string\<close> of \<open>atuin-common/src/utils.rs\<close> is here too.
\<close>

section \<open>Characters\<close>

definition continues :: "char \<Rightarrow> bool" where
  "continues c \<longleftrightarrow> of_char c div (64 :: nat) = 2"

definition code_point :: "char \<Rightarrow> string \<Rightarrow> nat" where
  "code_point c cs =
     (if of_char c < (128 :: nat) then of_char c
      else foldl (\<lambda>n b. n * 64 + of_char b mod 64) (of_char c mod (2 ^ (6 - length cs))) cs)"

text \<open>The bytes of the characters, one group for each.\<close>

function char_bytes :: "string \<Rightarrow> (char \<times> string) list" where
  "char_bytes [] = []"
| "char_bytes (c # cs) = (c, takeWhile continues cs) # char_bytes (dropWhile continues cs)"
  by pat_completeness auto

termination
  by (relation "measure length") (auto simp: le_imp_less_Suc length_dropWhile_le)

definition chars :: "string \<Rightarrow> nat list" where
  "chars s = map (\<lambda>g. code_point (fst g) (snd g)) (char_bytes s)"

definition of_bytes :: "(char \<times> string) list \<Rightarrow> string" where
  "of_bytes gs = concat (map (\<lambda>g. fst g # snd g) gs)"

lemma of_bytes_char_bytes [simp]: "of_bytes (char_bytes s) = s"
  by (induction s rule: char_bytes.induct) (simp_all add: of_bytes_def)

lemma ascii_in_chars: "c \<in> set s \<Longrightarrow> of_char c < (128 :: nat) \<Longrightarrow> of_char c \<in> set (chars s)"
proof (induction s rule: char_bytes.induct)
  case (2 d ds)
  have "\<not> continues c" using 2(3) by (auto simp: continues_def)
  then have "c \<notin> set (takeWhile continues ds)" using set_takeWhileD by metis
  then have "c \<in> set ds \<Longrightarrow> c \<in> set (dropWhile continues ds)"
    by (metis Un_iff set_append takeWhile_dropWhile_id)
  with 2 show ?case by (auto simp: code_point_def chars_def)
qed simp

section \<open>White space\<close>

definition white_space :: "nat \<Rightarrow> bool" where
  "white_space n \<longleftrightarrow> 0x09 \<le> n \<and> n \<le> 0x0D \<or> 0x2000 \<le> n \<and> n \<le> 0x200A
     \<or> n \<in> {0x20, 0x85, 0xA0, 0x1680, 0x2028, 0x2029, 0x202F, 0x205F, 0x3000}"

abbreviation white_group :: "char \<times> string \<Rightarrow> bool" where
  "white_group g \<equiv> white_space (code_point (fst g) (snd g))"

definition trim_start :: "string \<Rightarrow> string" where
  "trim_start s = of_bytes (dropWhile white_group (char_bytes s))"

definition trim_end :: "string \<Rightarrow> string" where
  "trim_end s = of_bytes (rev (dropWhile white_group (rev (char_bytes s))))"

text \<open>\<open>s.trim().is_empty()\<close>\<close>

definition blank :: "string \<Rightarrow> bool" where
  "blank s \<longleftrightarrow> list_all white_space (chars s)"

definition normalize_optional_string :: "string option \<Rightarrow> string option" where
  "normalize_optional_string v =
     (case v of
        None \<Rightarrow> None
      | Some s \<Rightarrow> (let s = trim_start (trim_end s) in if s = [] then None else Some s))"

text \<open>A string that was normalised is its own normal form.\<close>

definition groups :: "(char \<times> string) list \<Rightarrow> bool" where
  "groups gs \<longleftrightarrow> (\<forall>g \<in> set gs. \<forall>c \<in> set (snd g). continues c) \<and> (\<forall>g \<in> set (tl gs). \<not> continues (fst g))"

lemma groups_char_bytes: "groups (char_bytes s)"
proof (induction s rule: char_bytes.induct)
  case (2 c cs)
  have "\<not> continues (fst g)" if "g \<in> set (char_bytes (dropWhile continues cs))" for g
  proof (cases "dropWhile continues cs")
    case (Cons d ds)
    have "\<not> continues (hd (dropWhile continues cs))" by (rule hd_dropWhile) (simp add: Cons)
    then have "\<not> continues d" by (simp add: Cons)
    moreover have "\<forall>g \<in> set (tl (char_bytes (d # ds))). \<not> continues (fst g)" using 2 Cons unfolding groups_def by simp
    moreover have "g = (d, takeWhile continues ds) \<or> g \<in> set (tl (char_bytes (d # ds)))" using that Cons by simp
    ultimately show ?thesis by auto
  next
    case Nil
    with that show ?thesis by (simp only: Nil char_bytes.simps list.set empty_iff)
  qed
  moreover have "\<forall>g \<in> set (char_bytes (c # cs)). \<forall>c \<in> set (snd g). continues c"
  proof -
    have "\<forall>c \<in> set (takeWhile continues cs). continues c" by (auto dest: set_takeWhileD)
    with 2 show ?thesis unfolding groups_def by simp
  qed
  ultimately show ?case by (simp only: groups_def char_bytes.simps list.sel) blast
qed (simp add: groups_def)

lemma char_bytes_of_bytes: "groups gs \<Longrightarrow> char_bytes (of_bytes gs) = gs"
proof (induction gs)
  case (Cons g gs)
  have cont: "\<forall>c \<in> set (snd g). continues c" and tail: "\<forall>g \<in> set gs. \<not> continues (fst g)"
    using Cons.prems by (auto simp: groups_def)
  have "takeWhile continues (of_bytes gs) = []" "dropWhile continues (of_bytes gs) = of_bytes gs"
    using tail by (cases gs; simp add: of_bytes_def)+
  then have "takeWhile continues (snd g @ of_bytes gs) = snd g" "dropWhile continues (snd g @ of_bytes gs) = of_bytes gs"
    using cont by simp_all
  moreover have "groups gs" using Cons.prems tail by (cases gs) (auto simp: groups_def)
  ultimately show ?case using Cons.IH by (simp add: of_bytes_def)
qed (simp add: of_bytes_def)

lemma groups_append: "groups (xs @ ys) \<Longrightarrow> groups xs \<and> groups ys"
  by (cases xs; cases ys) (auto simp: groups_def)

lemma normalize_idem:
  assumes "normalize_optional_string v = Some s"
  shows "normalize_optional_string (Some s) = Some s"
proof -
  obtain u where v: "v = Some u" and s: "s = trim_start (trim_end u)" "s \<noteq> []"
    using assms by (auto simp: normalize_optional_string_def Let_def split: option.splits if_splits)
  define es where "es = rev (dropWhile white_group (rev (char_bytes u)))"
  define ss where "ss = dropWhile white_group es"
  have "char_bytes u = es @ rev (takeWhile white_group (rev (char_bytes u)))"
    unfolding es_def by (metis rev_append rev_rev_ident takeWhile_dropWhile_id)
  then have es: "groups es" using groups_char_bytes [of u] groups_append by metis
  have split: "es = takeWhile white_group es @ ss" by (simp add: ss_def)
  then have ss: "groups ss" using es groups_append by metis
  have s': "s = of_bytes ss" using s(1) es by (simp add: trim_start_def trim_end_def es_def [symmetric] char_bytes_of_bytes ss_def)
  then have bytes: "char_bytes s = ss" using ss by (simp add: char_bytes_of_bytes)
  have ne: "ss \<noteq> []" using s(2) s' by (auto simp: of_bytes_def)
  then have first: "\<not> white_group (hd ss)" unfolding ss_def by (rule hd_dropWhile)
  have "es \<noteq> []" using ne split by auto
  then have "\<not> white_group (last es)" unfolding es_def by (metis hd_dropWhile last_rev rev_is_Nil_conv)
  then have "\<not> white_group (last ss)" using split ne by (metis last_appendR)
  then have "dropWhile white_group (rev ss) = rev ss" using ne by (metis dropWhile_eq_self_iff hd_rev)
  then have "trim_end s = s" unfolding trim_end_def bytes by (simp add: s')
  moreover have "trim_start s = s" unfolding trim_start_def bytes using arg_cong [of _ _ of_bytes, OF dropWhile_eq_self_iff [THEN iffD2, of ss white_group]] first s' by blast
  ultimately show ?thesis using s(2) by (simp add: normalize_optional_string_def)
qed

section \<open>Decimal numbers\<close>

fun show_nat :: "nat \<Rightarrow> string" where
  "show_nat n = (if n < 10 then [char_of (48 + n)] else show_nat (n div 10) @ [char_of (48 + n mod 10)])"

definition show_int :: "int \<Rightarrow> string" where
  "show_int i = (if i < 0 then CHR ''-'' # show_nat (nat (- i)) else show_nat (nat i))"

end
