(* ===== verification/Tui_Cursor.thy ===== *)
theory Tui_Cursor
  imports Rust_String
begin

text \<open>
  The input line of the interactive search, \<open>atuin/src/command/client/search/cursor.rs\<close>: a string with a byte position, movement by
  characters and words, insertion and removal.

  A string is its UTF-8 bytes. Slicing a string off a character boundary panics, so that an operation that slices returns an option, \<open>None\<close> for the
  panic. The position is a byte index; \<open>cursor_ok\<close> says that it is a boundary.

  Shown: no operation panics on a cursor that is on a boundary and every one leaves it on a boundary; the operations refine those of a pair of
  character lists, the characters before and after the cursor; words are removed exactly from the cursor to where the movement goes.
\<close>

section \<open>Boundaries\<close>

type_synonym rchar = "char \<times> string"

definition is_char_boundary :: "string \<Rightarrow> nat \<Rightarrow> bool" where
  "is_char_boundary s i \<longleftrightarrow> i = 0 \<or> i = length s \<or> i < length s \<and> \<not> continues (s ! i)"

definition ceil_char_boundary :: "string \<Rightarrow> nat \<Rightarrow> nat" where
  "ceil_char_boundary s i = (if length s \<le> i then length s else if i = 0 then 0 else i + length (takeWhile continues (drop i s)))"

definition char_len :: "rchar \<Rightarrow> nat" where
  "char_len c = Suc (length (snd c))"

definition code :: "rchar \<Rightarrow> nat" where
  "code c = code_point (fst c) (snd c)"

fun indices_from :: "nat \<Rightarrow> rchar list \<Rightarrow> (nat \<times> rchar) list" where
  "indices_from i [] = []"
| "indices_from i (c # cs) = (i, c) # indices_from (i + char_len c) cs"

definition char_indices :: "string \<Rightarrow> (nat \<times> rchar) list" where
  "char_indices s = indices_from 0 (char_bytes s)"

definition chars_within :: "string \<Rightarrow> nat \<Rightarrow> nat \<Rightarrow> (nat \<times> rchar) list" where
  "chars_within s a b =
     (let start = ceil_char_boundary s a; stop = max (ceil_char_boundary s b) start
      in map (\<lambda>(i, c). (start + i, c)) (char_indices (take (stop - start) (drop start s))))"

section \<open>Word movement\<close>

datatype WordJumpMode = Emacs | Subl

record WordJumper =
  word_chars :: string
  word_jump_mode :: WordJumpMode

definition jumper_word_char :: "string \<Rightarrow> rchar \<Rightarrow> bool" where
  "jumper_word_char w c \<longleftrightarrow> List.member (chars w) (code c)"

definition is_whitespace :: "rchar \<Rightarrow> bool" where
  "is_whitespace c = white_space (code c)"

definition is_word_boundary :: "string \<Rightarrow> rchar \<Rightarrow> rchar \<Rightarrow> bool" where
  "is_word_boundary w c next_c \<longleftrightarrow>
     is_whitespace c \<and> \<not> is_whitespace next_c \<or> \<not> is_whitespace c \<and> is_whitespace next_c
     \<or> jumper_word_char w c \<and> \<not> jumper_word_char w next_c \<or> \<not> jumper_word_char w c \<and> jumper_word_char w next_c"

definition find_pos :: "('a \<Rightarrow> bool) \<Rightarrow> ('a \<Rightarrow> nat) \<Rightarrow> nat \<Rightarrow> 'a list \<Rightarrow> nat" where
  "find_pos P f d xs = (case find P xs of None \<Rightarrow> d | Some x \<Rightarrow> f x)"

definition emacs_get_next_word_pos :: "string \<Rightarrow> string \<Rightarrow> nat \<Rightarrow> nat" where
  "emacs_get_next_word_pos w s index =
     (let stop = length s - 1;
          index = find_pos (\<lambda>(_, c). jumper_word_char w c) fst (length s) (chars_within s (index + 1) stop)
      in find_pos (\<lambda>(_, c). \<not> jumper_word_char w c) fst (length s) (chars_within s (index + 1) stop))"

definition emacs_get_prev_word_pos :: "string \<Rightarrow> string \<Rightarrow> nat \<Rightarrow> nat" where
  "emacs_get_prev_word_pos w s index =
     (let index = find_pos (\<lambda>(_, c). jumper_word_char w c) fst 0 (rev (chars_within s 1 index))
      in find_pos (\<lambda>(_, c). \<not> jumper_word_char w c) (\<lambda>(i, c). i + char_len c) 0 (rev (chars_within s 1 index)))"

definition tuple_windows :: "'a list \<Rightarrow> ('a \<times> 'a) list" where
  "tuple_windows xs = zip xs (tl xs)"

definition subl_get_next_word_pos :: "string \<Rightarrow> string \<Rightarrow> nat \<Rightarrow> nat" where
  "subl_get_next_word_pos w s index =
     (case find (\<lambda>((_, c1), (_, c2)). is_word_boundary w c1 c2) (tuple_windows (chars_within s index (length s))) of
        None \<Rightarrow> length s
      | Some ((index, _), _) \<Rightarrow> find_pos (\<lambda>(_, c). \<not> is_whitespace c) fst (length s) (chars_within s (index + 1) (length s)))"

definition subl_get_prev_word_pos :: "string \<Rightarrow> string \<Rightarrow> nat \<Rightarrow> nat" where
  "subl_get_prev_word_pos w s index =
     (case find (\<lambda>(_, c). \<not> is_whitespace c) (rev (chars_within s 1 index)) of
        None \<Rightarrow> 0
      | Some (index, _) \<Rightarrow>
          find_pos (\<lambda>((_, c1), (_, c2)). is_word_boundary w c2 c1) (\<lambda>((i1, _), _). i1) 0 (tuple_windows (rev (chars_within s 0 index))))"

definition get_next_word_pos :: "WordJumper \<Rightarrow> string \<Rightarrow> nat \<Rightarrow> nat" where
  "get_next_word_pos j s index =
     (case word_jump_mode j of Emacs \<Rightarrow> emacs_get_next_word_pos (word_chars j) s index | Subl \<Rightarrow> subl_get_next_word_pos (word_chars j) s index)"

definition get_prev_word_pos :: "WordJumper \<Rightarrow> string \<Rightarrow> nat \<Rightarrow> nat" where
  "get_prev_word_pos j s index =
     (case word_jump_mode j of Emacs \<Rightarrow> emacs_get_prev_word_pos (word_chars j) s index | Subl \<Rightarrow> subl_get_prev_word_pos (word_chars j) s index)"

section \<open>The cursor\<close>

record Cursor =
  csource :: string
  cindex :: nat

definition Cursor_from :: "string \<Rightarrow> Cursor" where
  "Cursor_from s = \<lparr>csource = s, cindex = 0\<rparr>"

definition cursor_substring :: "Cursor \<Rightarrow> string option" where
  "cursor_substring c = (if is_char_boundary (csource c) (cindex c) then Some (take (cindex c) (csource c)) else None)"

text \<open>The outer option is the panic.\<close>

definition cursor_char :: "Cursor \<Rightarrow> rchar option option" where
  "cursor_char c =
     (if is_char_boundary (csource c) (cindex c)
      then Some (case char_bytes (drop (cindex c) (csource c)) of [] \<Rightarrow> None | g # _ \<Rightarrow> Some g) else None)"

function next_boundary :: "string \<Rightarrow> nat \<Rightarrow> nat" where
  "next_boundary s i = (if length s \<le> i + 1 \<or> is_char_boundary s (i + 1) then i + 1 else next_boundary s (i + 1))"
  by pat_completeness auto

termination
  by (relation "measure (\<lambda>(s, i). length s - i)") auto

declare next_boundary.simps [simp del]

primrec prev_boundary :: "string \<Rightarrow> nat \<Rightarrow> nat" where
  "prev_boundary s 0 = 0"
| "prev_boundary s (Suc i) = (if is_char_boundary s i then i else prev_boundary s i)"

definition cursor_right :: "Cursor \<Rightarrow> Cursor" where
  "cursor_right c = (if cindex c < length (csource c) then c\<lparr>cindex := next_boundary (csource c) (cindex c)\<rparr> else c)"

definition cursor_left :: "Cursor \<Rightarrow> bool \<times> Cursor" where
  "cursor_left c = (if cindex c > 0 then (True, c\<lparr>cindex := prev_boundary (csource c) (cindex c)\<rparr>) else (False, c))"

definition next_word :: "WordJumper \<Rightarrow> Cursor \<Rightarrow> Cursor" where
  "next_word j c = c\<lparr>cindex := get_next_word_pos j (csource c) (cindex c)\<rparr>"

definition prev_word :: "WordJumper \<Rightarrow> Cursor \<Rightarrow> Cursor" where
  "prev_word j c = c\<lparr>cindex := get_prev_word_pos j (csource c) (cindex c)\<rparr>"

text \<open>The loops of \<open>word_end\<close> count characters; the characters from the current one on are the argument.\<close>

fun skip_white :: "nat \<Rightarrow> rchar list \<Rightarrow> nat" where
  "skip_white k [] = k"
| "skip_white k (c # cs) = (if is_whitespace c then skip_white (k + 1) cs else k)"

fun word_stop :: "string \<Rightarrow> bool \<Rightarrow> nat \<Rightarrow> rchar list \<Rightarrow> nat" where
  "word_stop w b k [] = k"
| "word_stop w b k [c] = k + 1"
| "word_stop w b k (c # d # cs) = (if is_whitespace d \<or> jumper_word_char w d \<noteq> b then k + 1 else word_stop w b (k + 1) (d # cs))"

definition at_word_boundary :: "string \<Rightarrow> rchar list \<Rightarrow> nat \<Rightarrow> bool" where
  "at_word_boundary w cs k \<longleftrightarrow>
     is_whitespace (cs ! k) \<or> k + 1 \<ge> length cs \<or> is_whitespace (cs ! (k + 1)) \<or> jumper_word_char w (cs ! k) \<noteq> jumper_word_char w (cs ! (k + 1))"

definition word_end :: "string \<Rightarrow> Cursor \<Rightarrow> Cursor option" where
  "word_end w c =
     (if cindex c \<ge> length (csource c) then Some c
      else if \<not> is_char_boundary (csource c) (cindex c) then None
      else
        (let cs = char_bytes (csource c); k = length (char_bytes (take (cindex c) (csource c)))
         in if k \<ge> length cs then Some c
            else
              (let k = (if at_word_boundary w cs k then skip_white (k + 1) (drop (k + 1) cs) else k)
               in if k \<ge> length cs then Some (c\<lparr>cindex := length (csource c)\<rparr>)
                  else (let k = word_stop w (jumper_word_char w (cs ! k)) k (drop k cs) in Some (c\<lparr>cindex := sum_list (map char_len (take k cs))\<rparr>)))))"

definition cursor_insert :: "rchar \<Rightarrow> Cursor \<Rightarrow> Cursor option" where
  "cursor_insert g c =
     (if is_char_boundary (csource c) (cindex c)
      then Some \<lparr>csource = take (cindex c) (csource c) @ fst g # snd g @ drop (cindex c) (csource c), cindex = cindex c + char_len g\<rparr>
      else None)"

definition cursor_remove :: "Cursor \<Rightarrow> (rchar option \<times> Cursor) option" where
  "cursor_remove c =
     (if cindex c < length (csource c) then
        (if is_char_boundary (csource c) (cindex c)
         then (case char_bytes (drop (cindex c) (csource c)) of
                 [] \<Rightarrow> None
               | g # _ \<Rightarrow> Some (Some g, c\<lparr>csource := take (cindex c) (csource c) @ drop (cindex c + char_len g) (csource c)\<rparr>))
         else None)
      else Some (None, c))"

definition replace_range :: "nat \<Rightarrow> nat \<Rightarrow> string \<Rightarrow> string option" where
  "replace_range a b s =
     (if a \<le> b \<and> b \<le> length s \<and> is_char_boundary s a \<and> is_char_boundary s b then Some (take a s @ drop b s) else None)"

definition remove_next_word :: "WordJumper \<Rightarrow> Cursor \<Rightarrow> Cursor option" where
  "remove_next_word j c =
     map_option (\<lambda>s. c\<lparr>csource := s\<rparr>) (replace_range (cindex c) (get_next_word_pos j (csource c) (cindex c)) (csource c))"

definition remove_prev_word :: "WordJumper \<Rightarrow> Cursor \<Rightarrow> Cursor option" where
  "remove_prev_word j c =
     (let i = get_prev_word_pos j (csource c) (cindex c)
      in map_option (\<lambda>s. \<lparr>csource = s, cindex = i\<rparr>) (replace_range i (cindex c) (csource c)))"

definition cursor_back :: "Cursor \<Rightarrow> (rchar option \<times> Cursor) option" where
  "cursor_back c = (case cursor_left c of (True, c) \<Rightarrow> cursor_remove c | (False, c) \<Rightarrow> Some (None, c))"

definition cursor_clear :: "Cursor \<Rightarrow> Cursor" where
  "cursor_clear c = \<lparr>csource = [], cindex = 0\<rparr>"

definition clear_to_start :: "Cursor \<Rightarrow> Cursor option" where
  "clear_to_start c = map_option (\<lambda>s. \<lparr>csource = s, cindex = 0\<rparr>) (replace_range 0 (cindex c) (csource c))"

definition clear_to_end :: "Cursor \<Rightarrow> Cursor option" where
  "clear_to_end c = map_option (\<lambda>s. \<lparr>csource = s, cindex = length s\<rparr>) (replace_range (cindex c) (length (csource c)) (csource c))"

definition cursor_end :: "Cursor \<Rightarrow> Cursor" where
  "cursor_end c = c\<lparr>cindex := length (csource c)\<rparr>"

definition cursor_start :: "Cursor \<Rightarrow> Cursor" where
  "cursor_start c = c\<lparr>cindex := 0\<rparr>"

section \<open>Boundaries split the characters\<close>

definition valid_char :: "rchar \<Rightarrow> bool" where
  "valid_char g \<longleftrightarrow> \<not> continues (fst g) \<and> list_all continues (snd g)"

abbreviation valid_chars :: "rchar list \<Rightarrow> bool" where
  "valid_chars \<equiv> list_all valid_char"

definition bytes_len :: "rchar list \<Rightarrow> nat" where
  "bytes_len gs = length (of_bytes gs)"

lemma of_bytes_simps [simp]: "of_bytes [] = []" "of_bytes (g # gs) = fst g # snd g @ of_bytes gs" "of_bytes (xs @ ys) = of_bytes xs @ of_bytes ys"
  by (simp_all add: of_bytes_def)

lemma bytes_len_simps [simp]: "bytes_len [] = 0" "bytes_len (g # gs) = char_len g + bytes_len gs" "bytes_len (xs @ ys) = bytes_len xs + bytes_len ys"
  by (simp_all add: bytes_len_def char_len_def)

lemma length_of_bytes [simp]: "length (of_bytes gs) = bytes_len gs"
  by (simp add: bytes_len_def)

lemma char_len_pos [simp]: "0 < char_len g" "char_len g \<noteq> 0"
  by (simp_all add: char_len_def)

lemma char_bytes_valid [simp]: "valid_chars gs \<Longrightarrow> char_bytes (of_bytes gs) = gs"
  by (rule char_bytes_of_bytes) (cases gs, auto simp: valid_char_def groups_def list_all_iff)

lemma bytes_len_sum: "sum_list (map char_len gs) = bytes_len gs"
  by (induction gs) simp_all

lemma boundary_at: "valid_chars (ls @ rs) \<Longrightarrow> is_char_boundary (of_bytes (ls @ rs)) (bytes_len ls)"
  by (cases rs) (auto simp: is_char_boundary_def nth_append valid_char_def)

lemma inside_char:
  assumes "valid_chars (ls @ g # rs)" "0 < k" "k < char_len g"
  shows "\<not> is_char_boundary (of_bytes (ls @ g # rs)) (bytes_len ls + k)" "bytes_len ls + k < bytes_len (ls @ g # rs)"
proof -
  have "of_bytes (ls @ g # rs) ! (bytes_len ls + k) = snd g ! (k - 1)"
    using assms by (cases k) (simp_all add: nth_append char_len_def)
  moreover have "continues (snd g ! (k - 1))" using assms by (simp add: valid_char_def char_len_def list_all_iff)
  ultimately show "\<not> is_char_boundary (of_bytes (ls @ g # rs)) (bytes_len ls + k)" using assms by (auto simp: is_char_boundary_def char_len_def)
  show "bytes_len ls + k < bytes_len (ls @ g # rs)" using assms by simp
qed

lemma locate: "i < bytes_len gs \<Longrightarrow> \<exists>ls g rs k. gs = ls @ g # rs \<and> i = bytes_len ls + k \<and> k < char_len g"
proof (induction gs arbitrary: i)
  case (Cons g gs)
  show ?case
  proof (cases "i < char_len g")
    case True
    then show ?thesis by (intro exI [of _ "[]"] exI [of _ g] exI [of _ gs] exI [of _ i]) simp
  next
    case False
    then have "i - char_len g < bytes_len gs" using Cons.prems by simp
    from Cons.IH [OF this] obtain ls h rs k where h: "gs = ls @ h # rs" "i - char_len g = bytes_len ls + k" "k < char_len h" by blast
    then show ?thesis using False by (intro exI [of _ "g # ls"] exI [of _ h] exI [of _ rs] exI [of _ k]) simp
  qed
qed simp

lemma boundary_splits:
  assumes "valid_chars gs" "is_char_boundary (of_bytes gs) i" "i \<le> bytes_len gs"
  shows "\<exists>ls rs. gs = ls @ rs \<and> i = bytes_len ls"
proof (cases "i < bytes_len gs")
  case True
  then obtain ls g rs k where g: "gs = ls @ g # rs" "i = bytes_len ls + k" "k < char_len g" using locate by blast
  then have "k = 0" using inside_char(1) [of ls g rs k] assms(1,2) by auto
  with g show ?thesis by (intro exI [of _ ls] exI [of _ "g # rs"]) simp
next
  case False
  then show ?thesis using assms(3) by (intro exI [of _ gs] exI [of _ "[]"]) simp
qed

lemma next_boundary_char:
  assumes "valid_chars (ls @ g # rs)"
  shows "k < char_len g \<Longrightarrow> next_boundary (of_bytes (ls @ g # rs)) (bytes_len ls + k) = bytes_len (ls @ [g])"
proof (induction "char_len g - k" arbitrary: k rule: less_induct)
  case less
  show ?case
  proof (cases "Suc k < char_len g")
    case True
    then show ?thesis
      using less.hyps [of "Suc k"] inside_char [OF assms, of "Suc k"] by (subst next_boundary.simps) (simp add: char_len_def)
  next
    case False
    then have k: "Suc (bytes_len ls + k) = bytes_len (ls @ [g])" using less.prems by simp
    have "is_char_boundary (of_bytes (ls @ g # rs)) (bytes_len (ls @ [g]))" using boundary_at [of "ls @ [g]" rs] assms by simp
    then show ?thesis by (subst next_boundary.simps) (simp only: Suc_eq_plus1 [symmetric] k simp_thms if_True)
  qed
qed

lemma prev_boundary_char:
  assumes "valid_chars (ls @ g # rs)"
  shows "0 < k \<Longrightarrow> k \<le> char_len g \<Longrightarrow> prev_boundary (of_bytes (ls @ g # rs)) (bytes_len ls + k) = bytes_len ls"
proof (induction k)
  case (Suc k)
  then show ?case using inside_char(1) [OF assms, of k] boundary_at [OF assms] by (cases "k = 0") simp_all
qed simp

lemma ceil_splits:
  assumes "valid_chars gs"
  shows "\<exists>ls rs. gs = ls @ rs \<and> ceil_char_boundary (of_bytes gs) i = bytes_len ls \<and> min i (bytes_len gs) \<le> bytes_len ls"
proof (cases "i < bytes_len gs")
  case True
  then obtain ls g rs k where g: "gs = ls @ g # rs" "i = bytes_len ls + k" "k < char_len g" using locate by blast
  have rest: "takeWhile continues (of_bytes rs) = []" using assms g(1) by (cases rs) (auto simp: valid_char_def)
  show ?thesis
  proof (cases k)
    case 0
    have "takeWhile continues (drop i (of_bytes gs)) = []" using assms g 0 by (simp add: valid_char_def)
    then have "ceil_char_boundary (of_bytes gs) i = i" using True by (simp add: ceil_char_boundary_def)
    then show ?thesis using g 0 by (intro exI [of _ ls] exI [of _ "g # rs"]) simp
  next
    case (Suc n)
    have "drop i (of_bytes gs) = drop n (snd g) @ of_bytes rs" using g Suc by (simp add: char_len_def)
    moreover have "\<forall>b \<in> set (drop n (snd g)). continues b" using assms g(1) by (auto simp: valid_char_def list_all_iff dest: in_set_dropD)
    ultimately have "length (takeWhile continues (drop i (of_bytes gs))) = length (snd g) - n" using rest by simp
    then have "ceil_char_boundary (of_bytes gs) i = bytes_len (ls @ [g])"
      using True g Suc by (simp add: ceil_char_boundary_def char_len_def)
    then show ?thesis using g by (intro exI [of _ "ls @ [g]"] exI [of _ rs]) simp
  qed
next
  case False
  then show ?thesis by (intro exI [of _ gs] exI [of _ "[]"]) (simp add: ceil_char_boundary_def)
qed

lemma ceil_boundary [simp]: "is_char_boundary s i \<Longrightarrow> i \<le> length s \<Longrightarrow> ceil_char_boundary s i = i"
  by (cases "drop i s") (auto simp: ceil_char_boundary_def is_char_boundary_def hd_drop_conv_nth [symmetric])

section \<open>Positions within a range\<close>

lemma indices_from_in:
  "(i, c) \<in> set (indices_from n gs) \<Longrightarrow> \<exists>ls rs. gs = ls @ c # rs \<and> i = n + bytes_len ls"
proof (induction gs arbitrary: n)
  case (Cons g gs)
  show ?case
  proof (cases "(i, c) = (n, g)")
    case True
    then show ?thesis by (intro exI [of _ "[]"] exI [of _ gs]) simp
  next
    case False
    then have "(i, c) \<in> set (indices_from (n + char_len g) gs)" using Cons.prems by auto
    from Cons.IH [OF this] obtain ls rs where "gs = ls @ c # rs" "i = n + char_len g + bytes_len ls" by blast
    then show ?thesis by (intro exI [of _ "g # ls"] exI [of _ rs]) simp
  qed
qed simp

lemma indices_from_shift: "map (\<lambda>(i, c). (m + i, c)) (indices_from n gs) = indices_from (m + n) gs"
  by (induction gs arbitrary: n) (simp_all add: add.assoc)

text \<open>What \<open>chars_within\<close> yields are characters of the string, between the two positions.\<close>

lemma within:
  assumes "valid_chars gs" "(i, c) \<in> set (chars_within (of_bytes gs) a b)"
  obtains ls rs where "gs = ls @ c # rs" "i = bytes_len ls" "a \<le> i" "i + char_len c \<le> ceil_char_boundary (of_bytes gs) b"
proof -
  let ?s = "of_bytes gs"
  obtain l1 r1 where a: "gs = l1 @ r1" "ceil_char_boundary ?s a = bytes_len l1" "min a (bytes_len gs) \<le> bytes_len l1"
    using ceil_splits [OF assms(1)] by blast
  obtain l2 r2 where b: "gs = l2 @ r2" "ceil_char_boundary ?s b = bytes_len l2" using ceil_splits [OF assms(1)] by blast
  let ?n = "bytes_len l2 - bytes_len l1"
  have w: "chars_within ?s a b = map (\<lambda>(i, c). (bytes_len l1 + i, c)) (char_indices (take ?n (drop (bytes_len l1) ?s)))"
    by (simp add: chars_within_def Let_def a(2) b(2) max_def)
  have more: "bytes_len l1 < bytes_len l2"
  proof (rule ccontr)
    assume "\<not> bytes_len l1 < bytes_len l2"
    then show False using assms(2) w by (simp add: char_indices_def)
  qed
  obtain mid where mid: "l2 = l1 @ mid"
  proof (cases "length l1 \<le> length l2")
    case True
    then show ?thesis using a(1) b(1) that by (metis append_eq_append_conv_if append_take_drop_id)
  next
    case False
    then obtain x where "l1 = l2 @ x" using a(1) b(1) by (metis append_eq_append_conv_if append_take_drop_id nat_le_linear)
    then show ?thesis using more by simp
  qed
  have "take ?n (drop (bytes_len l1) ?s) = of_bytes mid" using b(1) mid by simp
  moreover have valid: "valid_chars mid" using assms(1) b(1) mid by simp
  ultimately have "(i, c) \<in> set (indices_from (bytes_len l1) mid)"
    using assms(2) w by (simp add: char_indices_def indices_from_shift)
  then obtain ls rs where "mid = ls @ c # rs" "i = bytes_len l1 + bytes_len ls" using indices_from_in by blast
  moreover have "a \<le> bytes_len l1" using a(3) b(1) mid more by (simp add: min_def split: if_splits)
  ultimately show thesis using that [of "l1 @ ls" "rs @ r2"] b mid by simp
qed

lemma find_pos_cases:
  obtains "find_pos P f d xs = d" | x where "x \<in> set xs" "P x" "find_pos P f d xs = f x"
  by (cases "find P xs") (force simp: find_pos_def find_Some_iff)+

lemma find_mem: "find P xs = Some x \<Longrightarrow> x \<in> set xs"
  by (auto simp: find_Some_iff)

lemma windows_in: "(x, y) \<in> set (tuple_windows xs) \<Longrightarrow> x \<in> set xs \<and> y \<in> set xs"
  unfolding tuple_windows_def by (cases xs) (auto dest: set_zip_leftD set_zip_rightD)

text \<open>Positions the word movements may reach.\<close>

definition boundary_of :: "rchar list \<Rightarrow> nat \<Rightarrow> bool" where
  "boundary_of gs p \<longleftrightarrow> (\<exists>ls rs. gs = ls @ rs \<and> p = bytes_len ls)"

lemma boundary_of_ends [simp]: "boundary_of gs 0" "boundary_of gs (bytes_len gs)"
  unfolding boundary_of_def by (force intro: exI [of _ "[]"])+

lemma boundary_of_char: "boundary_of (ls @ c # rs) (bytes_len ls)" "boundary_of (ls @ c # rs) (bytes_len ls + char_len c)"
  unfolding boundary_of_def by (blast, rule exI [of _ "ls @ [c]"], simp)

lemma boundary_of_le: "boundary_of gs p \<Longrightarrow> p \<le> bytes_len gs"
  by (auto simp: boundary_of_def)

lemma boundary_of_iff: "valid_chars gs \<Longrightarrow> boundary_of gs p \<longleftrightarrow> p \<le> bytes_len gs \<and> is_char_boundary (of_bytes gs) p"
  using boundary_splits [of gs p] boundary_at boundary_of_le unfolding boundary_of_def by (metis of_bytes_simps(3))

lemma find_within:
  assumes "valid_chars gs" "boundary_of gs d"
  shows "boundary_of gs (find_pos P fst d (chars_within (of_bytes gs) m b)) \<and> min m d \<le> find_pos P fst d (chars_within (of_bytes gs) m b)"
proof (rule find_pos_cases [of P fst d "chars_within (of_bytes gs) m b"])
  fix x assume x: "x \<in> set (chars_within (of_bytes gs) m b)" "find_pos P fst d (chars_within (of_bytes gs) m b) = fst x"
  obtain ls rs where "gs = ls @ snd x # rs" "fst x = bytes_len ls" "m \<le> fst x"
    using within [OF assms(1), of "fst x" "snd x" m b] x(1) by (metis prod.collapse)
  then show ?thesis using x(2) boundary_of_char(1) by auto
qed (simp add: assms)

lemma within_before:
  assumes "valid_chars gs" "boundary_of gs b" "x \<in> set (chars_within (of_bytes gs) a b)"
  shows "boundary_of gs (fst x)" "boundary_of gs (fst x + char_len (snd x))" "fst x + char_len (snd x) \<le> b"
proof -
  have "ceil_char_boundary (of_bytes gs) b = b" using assms(1,2) by (simp add: boundary_of_iff)
  then obtain ls rs where "gs = ls @ snd x # rs" "fst x = bytes_len ls" "fst x + char_len (snd x) \<le> b"
    using within [OF assms(1), of "fst x" "snd x" a b] assms(3) by (metis prod.collapse)
  then show "boundary_of gs (fst x)" "boundary_of gs (fst x + char_len (snd x))" "fst x + char_len (snd x) \<le> b"
    using boundary_of_char by auto
qed

lemma next_word_pos:
  assumes "valid_chars gs" "boundary_of gs i"
  shows "boundary_of gs (get_next_word_pos j (of_bytes gs) i)" "i \<le> get_next_word_pos j (of_bytes gs) i"
proof -
  note i = boundary_of_le [OF assms(2)]
  have e: "boundary_of gs (emacs_get_next_word_pos w (of_bytes gs) i) \<and> i \<le> emacs_get_next_word_pos w (of_bytes gs) i" for w
  proof -
    define k where "k = find_pos (\<lambda>(_, c). jumper_word_char w c) fst (bytes_len gs) (chars_within (of_bytes gs) (i + 1) (bytes_len gs - 1))"
    have "i \<le> k"
      using find_within [OF assms(1) boundary_of_ends(2), of "\<lambda>(_, c). jumper_word_char w c" "i + 1" "bytes_len gs - 1"] i
      unfolding k_def [symmetric] by (simp add: min_def split: if_splits)
    moreover have "emacs_get_next_word_pos w (of_bytes gs) i = find_pos (\<lambda>(_, c). \<not> jumper_word_char w c) fst (bytes_len gs) (chars_within (of_bytes gs) (k + 1) (bytes_len gs - 1))"
      by (simp add: emacs_get_next_word_pos_def k_def Let_def)
    ultimately show ?thesis
      using find_within [OF assms(1) boundary_of_ends(2), of "\<lambda>(_, c). \<not> jumper_word_char w c" "k + 1" "bytes_len gs - 1"] i
      by (auto simp: min_def split: if_splits)
  qed
  have s: "boundary_of gs (subl_get_next_word_pos w (of_bytes gs) i) \<and> i \<le> subl_get_next_word_pos w (of_bytes gs) i" for w
  proof (cases "find (\<lambda>((_, c1), (_, c2)). is_word_boundary w c1 c2) (tuple_windows (chars_within (of_bytes gs) i (bytes_len gs)))")
    case None
    then show ?thesis using i by (simp add: subl_get_next_word_pos_def)
  next
    case (Some x)
    then have "x \<in> set (tuple_windows (chars_within (of_bytes gs) i (bytes_len gs)))" by (rule find_mem)
    then have "fst x \<in> set (chars_within (of_bytes gs) i (bytes_len gs))" using windows_in by (metis prod.collapse)
    then have "i \<le> fst (fst x)" using within [OF assms(1)] by (metis prod.collapse)
    then show ?thesis
      using Some find_within [OF assms(1) boundary_of_ends(2), of "\<lambda>(_, c). \<not> is_whitespace c" "fst (fst x) + 1" "bytes_len gs"] i
      by (auto simp: subl_get_next_word_pos_def min_def split: if_splits prod.splits)
  qed
  show "boundary_of gs (get_next_word_pos j (of_bytes gs) i)" "i \<le> get_next_word_pos j (of_bytes gs) i"
    using e s by (simp_all add: get_next_word_pos_def split: WordJumpMode.split)
qed

lemma prev_word_pos:
  assumes "valid_chars gs" "boundary_of gs i"
  shows "boundary_of gs (get_prev_word_pos j (of_bytes gs) i)" "get_prev_word_pos j (of_bytes gs) i \<le> i"
proof -
  have e: "boundary_of gs (emacs_get_prev_word_pos w (of_bytes gs) i) \<and> emacs_get_prev_word_pos w (of_bytes gs) i \<le> i" for w
  proof -
    define k where "k = find_pos (\<lambda>(_, c). jumper_word_char w c) fst 0 (rev (chars_within (of_bytes gs) 1 i))"
    have "boundary_of gs k \<and> k \<le> i"
      unfolding k_def
    proof (rule find_pos_cases [of "\<lambda>(_, c). jumper_word_char w c" fst 0 "rev (chars_within (of_bytes gs) 1 i)"], goal_cases)
      case (2 x)
      then show ?case using within_before [OF assms, of x 1] by simp
    qed simp
    then have k: "boundary_of gs k" "k \<le> i" by blast+
    have r: "emacs_get_prev_word_pos w (of_bytes gs) i = find_pos (\<lambda>(_, c). \<not> jumper_word_char w c) (\<lambda>(i, c). i + char_len c) 0 (rev (chars_within (of_bytes gs) 1 k))"
      by (simp add: emacs_get_prev_word_pos_def k_def)
    show ?thesis unfolding r
    proof (rule find_pos_cases [of "\<lambda>(_, c). \<not> jumper_word_char w c" "\<lambda>(i, c). i + char_len c" 0 "rev (chars_within (of_bytes gs) 1 k)"], goal_cases)
      case (2 x)
      then show ?case using within_before [OF assms(1) k(1), of x 1] k(2) by (auto simp: case_prod_unfold)
    qed simp
  qed
  have s: "boundary_of gs (subl_get_prev_word_pos w (of_bytes gs) i) \<and> subl_get_prev_word_pos w (of_bytes gs) i \<le> i" for w
  proof (cases "find (\<lambda>(_, c). \<not> is_whitespace c) (rev (chars_within (of_bytes gs) 1 i))")
    case None
    then show ?thesis by (simp add: subl_get_prev_word_pos_def)
  next
    case (Some x)
    then have "x \<in> set (chars_within (of_bytes gs) 1 i)" by (auto simp: find_Some_iff) (metis nth_mem length_rev set_rev)
    note k = within_before [OF assms this]
    let ?P = "\<lambda>((_, c1), (_, c2)). is_word_boundary w c2 c1" and ?xs = "tuple_windows (rev (chars_within (of_bytes gs) 0 (fst x)))"
    have r: "subl_get_prev_word_pos w (of_bytes gs) i = find_pos ?P (\<lambda>((i1, _), _). i1) 0 ?xs"
      using Some by (simp add: subl_get_prev_word_pos_def case_prod_unfold)
    show ?thesis unfolding r
    proof (rule find_pos_cases [of ?P "\<lambda>((i1, _), _). i1" 0 ?xs], goal_cases)
      case (2 y)
      then have "fst y \<in> set (chars_within (of_bytes gs) 0 (fst x))" using windows_in by (metis prod.collapse set_rev)
      then show ?case using within_before [OF assms(1) k(1), of "fst y" 0] k(3) 2(3) by (auto simp: case_prod_unfold)
    qed simp
  qed
  show "boundary_of gs (get_prev_word_pos j (of_bytes gs) i)" "get_prev_word_pos j (of_bytes gs) i \<le> i"
    using e s by (simp_all add: get_prev_word_pos_def split: WordJumpMode.split)
qed

section \<open>The cursor as two lists of characters\<close>

definition cursor_rep :: "Cursor \<Rightarrow> rchar list \<Rightarrow> rchar list \<Rightarrow> bool" where
  "cursor_rep c ls rs \<longleftrightarrow> valid_chars (ls @ rs) \<and> c = \<lparr>csource = of_bytes (ls @ rs), cindex = bytes_len ls\<rparr>"

text \<open>A cursor on a boundary of a string that does not start in the middle of a character.\<close>

definition cursor_ok :: "Cursor \<Rightarrow> bool" where
  "cursor_ok c \<longleftrightarrow> (csource c = [] \<or> \<not> continues (hd (csource c))) \<and> cindex c \<le> length (csource c) \<and> is_char_boundary (csource c) (cindex c)"

lemma valid_char_bytes: "s = [] \<or> \<not> continues (hd s) \<Longrightarrow> valid_chars (char_bytes s)"
proof (cases s)
  case (Cons c cs)
  assume "s = [] \<or> \<not> continues (hd s)"
  then have "\<forall>g \<in> set (char_bytes s). \<not> continues (fst g)" using groups_char_bytes [of s] Cons by (auto simp: groups_def)
  with groups_char_bytes [of s] show ?thesis by (auto simp: groups_def valid_char_def list_all_iff)
qed simp

lemma cursor_ok_rep: "cursor_ok c \<longleftrightarrow> (\<exists>ls rs. cursor_rep c ls rs)"
proof
  assume c: "cursor_ok c"
  then have valid: "valid_chars (char_bytes (csource c))" by (intro valid_char_bytes) (simp add: cursor_ok_def)
  have "boundary_of (char_bytes (csource c)) (cindex c)"
    using c by (subst boundary_of_iff [OF valid]) (simp add: cursor_ok_def length_of_bytes [symmetric] del: length_of_bytes)
  then obtain ls rs where "char_bytes (csource c) = ls @ rs" "cindex c = bytes_len ls" by (auto simp: boundary_of_def)
  then have "cursor_rep c ls rs" unfolding cursor_rep_def using valid by (metis of_bytes_char_bytes Cursor.surjective old.unit.exhaust)
  then show "\<exists>ls rs. cursor_rep c ls rs" by blast
next
  assume "\<exists>ls rs. cursor_rep c ls rs"
  then obtain ls rs where r: "valid_chars (ls @ rs)" "c = \<lparr>csource = of_bytes (ls @ rs), cindex = bytes_len ls\<rparr>" by (auto simp: cursor_rep_def)
  have "of_bytes (ls @ rs) = [] \<or> \<not> continues (hd (of_bytes (ls @ rs)))" using r(1) by (cases "ls @ rs") (auto simp: valid_char_def)
  then show "cursor_ok c" using r boundary_at [OF r(1)] by (simp add: cursor_ok_def del: of_bytes_simps list_all_append)
qed

lemma boundary_rep: "cursor_rep c ls rs \<Longrightarrow> is_char_boundary (csource c) (cindex c)"
  using boundary_at by (auto simp: cursor_rep_def)

lemma step_rep:
  "cursor_rep c ls (g # rs) \<Longrightarrow> cursor_rep (cursor_right c) (ls @ [g]) rs"
  "cursor_rep c (ls @ [g]) rs \<Longrightarrow> fst (cursor_left c) \<and> cursor_rep (snd (cursor_left c)) ls (g # rs)"
  "cursor_rep c ls [] \<Longrightarrow> cursor_right c = c"
  "cursor_rep c [] rs \<Longrightarrow> cursor_left c = (False, c)"
  using next_boundary_char [of ls g rs 0] prev_boundary_char [of ls g rs "char_len g"]
  by (auto simp: cursor_rep_def cursor_right_def cursor_left_def)

lemma insert_rep: "cursor_rep c ls rs \<Longrightarrow> valid_char g \<Longrightarrow> \<exists>c'. cursor_insert g c = Some c' \<and> cursor_rep c' (ls @ [g]) rs"
  using boundary_rep [of c ls rs] by (simp add: cursor_rep_def cursor_insert_def)

lemma rep_parts:
  assumes "cursor_rep c ls rs"
  shows "take (cindex c) (csource c) = of_bytes ls" "drop (cindex c) (csource c) = of_bytes rs" "cindex c = bytes_len ls"
    "length (csource c) = bytes_len ls + bytes_len rs" "valid_chars ls" "valid_chars rs"
  using assms by (simp_all add: cursor_rep_def)

lemma remove_rep:
  "cursor_rep c ls (g # rs) \<Longrightarrow> \<exists>c'. cursor_remove c = Some (Some g, c') \<and> cursor_rep c' ls rs"
  "cursor_rep c ls [] \<Longrightarrow> cursor_remove c = Some (None, c)"
proof -
  assume r: "cursor_rep c ls (g # rs)"
  note p = rep_parts [OF r]
  have "drop (cindex c + char_len g) (csource c) = drop (char_len g) (of_bytes (g # rs))" unfolding p(2) [symmetric] by (simp add: add.commute)
  then have d: "drop (cindex c + char_len g) (csource c) = of_bytes rs" by (simp add: char_len_def)
  have "char_bytes (drop (cindex c) (csource c)) = g # rs" unfolding p(2) using p(6) by (rule char_bytes_valid)
  moreover have "cindex c < length (csource c)" using p(3,4) by simp
  ultimately have "cursor_remove c = Some (Some g, c\<lparr>csource := of_bytes ls @ of_bytes rs\<rparr>)"
    using boundary_rep [OF r] p(1) d by (simp add: cursor_remove_def)
  moreover have "cursor_rep (c\<lparr>csource := of_bytes ls @ of_bytes rs\<rparr>) ls rs" using r by (simp add: cursor_rep_def)
  ultimately show "\<exists>c'. cursor_remove c = Some (Some g, c') \<and> cursor_rep c' ls rs" by blast
qed (simp add: cursor_rep_def cursor_remove_def)

lemma back_rep:
  "cursor_rep c (ls @ [g]) rs \<Longrightarrow> \<exists>c'. cursor_back c = Some (Some g, c') \<and> cursor_rep c' ls rs"
  "cursor_rep c [] rs \<Longrightarrow> cursor_back c = Some (None, c)"
  using step_rep(2) [of c ls g rs] remove_rep(1) [of "snd (cursor_left c)" ls g rs] step_rep(4) [of c rs]
  by (auto simp: cursor_back_def split: prod.splits bool.splits)

lemma char_rep: "cursor_rep c ls rs \<Longrightarrow> cursor_char c = Some (case rs of [] \<Rightarrow> None | g # _ \<Rightarrow> Some g)"
  using boundary_rep [of c ls rs] by (simp add: cursor_char_def cursor_rep_def)

lemma replace_rep:
  assumes "valid_chars (ls @ ms @ rs)"
  shows "replace_range (bytes_len ls) (bytes_len ls + bytes_len ms) (of_bytes (ls @ ms @ rs)) = Some (of_bytes (ls @ rs))"
  using assms boundary_at [of ls "ms @ rs"] boundary_at [of "ls @ ms" rs] by (simp add: replace_range_def)

lemma boundary_after:
  assumes "boundary_of (ls @ rs) p" "bytes_len ls \<le> p"
  shows "\<exists>ms rs'. rs = ms @ rs' \<and> p = bytes_len ls + bytes_len ms"
proof -
  obtain l r where l: "ls @ rs = l @ r" "p = bytes_len l" using assms(1) by (auto simp: boundary_of_def)
  from l(1) consider x where "ls @ x = l" "rs = x @ r" | x where "ls = l @ x" by (auto simp: append_eq_append_conv2)
  then show ?thesis
  proof cases
    case (2 x)
    then have "x = []" using l(2) assms(2) by (cases x) simp_all
    then show ?thesis using 2 l(2) by (rule_tac exI [of _ "[]"]) simp
  qed (use l(2) in auto)
qed

lemma boundary_before:
  assumes "boundary_of (ls @ rs) p" "p \<le> bytes_len ls"
  shows "\<exists>ls' ms. ls = ls' @ ms \<and> p = bytes_len ls'"
proof -
  obtain l r where l: "ls @ rs = l @ r" "p = bytes_len l" using assms(1) by (auto simp: boundary_of_def)
  from l(1) consider x where "ls @ x = l" | x where "ls = l @ x" by (auto simp: append_eq_append_conv2)
  then show ?thesis
  proof cases
    case (1 x)
    then have "x = []" using l(2) assms(2) by (cases x) auto
    then show ?thesis using 1 l(2) by auto
  qed (use l(2) in auto)
qed

text \<open>A word movement goes over some of the characters, and removing the word removes exactly those.\<close>

lemma next_word_rep:
  assumes "cursor_rep c ls rs"
  shows "\<exists>ms rs' c'. rs = ms @ rs' \<and> cursor_rep (next_word j c) (ls @ ms) rs' \<and> remove_next_word j c = Some c' \<and> cursor_rep c' ls rs'"
proof -
  have c: "valid_chars (ls @ rs)" "csource c = of_bytes (ls @ rs)" "cindex c = bytes_len ls" using assms by (simp_all add: cursor_rep_def)
  have b: "boundary_of (ls @ rs) (bytes_len ls)" by (auto simp: boundary_of_def)
  obtain ms rs' where m: "rs = ms @ rs'" "get_next_word_pos j (of_bytes (ls @ rs)) (bytes_len ls) = bytes_len ls + bytes_len ms"
    using boundary_after next_word_pos [OF c(1) b, of j] by blast
  have "next_word j c = \<lparr>csource = of_bytes ((ls @ ms) @ rs'), cindex = bytes_len (ls @ ms)\<rparr>"
    using c(2,3) m by (simp add: next_word_def)
  moreover have "remove_next_word j c = Some \<lparr>csource = of_bytes (ls @ rs'), cindex = bytes_len ls\<rparr>"
    using replace_rep [of ls ms rs'] c m by (simp add: remove_next_word_def)
  ultimately show ?thesis using c(1) m(1) by (auto simp: cursor_rep_def)
qed

lemma prev_word_rep:
  assumes "cursor_rep c ls rs"
  shows "\<exists>ls' ms c'. ls = ls' @ ms \<and> cursor_rep (prev_word j c) ls' (ms @ rs) \<and> remove_prev_word j c = Some c' \<and> cursor_rep c' ls' rs"
proof -
  have c: "valid_chars (ls @ rs)" "csource c = of_bytes (ls @ rs)" "cindex c = bytes_len ls" using assms by (simp_all add: cursor_rep_def)
  have b: "boundary_of (ls @ rs) (bytes_len ls)" by (auto simp: boundary_of_def)
  obtain ls' ms where m: "ls = ls' @ ms" "get_prev_word_pos j (of_bytes (ls @ rs)) (bytes_len ls) = bytes_len ls'"
    using boundary_before prev_word_pos [OF c(1) b, of j] by blast
  have "prev_word j c = \<lparr>csource = of_bytes (ls' @ ms @ rs), cindex = bytes_len ls'\<rparr>"
    using c(2,3) m by (simp add: prev_word_def)
  moreover have "remove_prev_word j c = Some \<lparr>csource = of_bytes (ls' @ rs), cindex = bytes_len ls'\<rparr>"
    using replace_rep [of ls' ms rs] c m by (simp add: remove_prev_word_def Let_def)
  ultimately show ?thesis using c(1) m(1) by (auto simp: cursor_rep_def)
qed

lemma skip_white_bounds: "k \<le> skip_white k cs \<and> skip_white k cs \<le> k + length cs"
  by (induction k cs rule: skip_white.induct) auto

lemma word_stop_bounds: "k \<le> word_stop w b k cs \<and> word_stop w b k cs \<le> k + length cs"
  by (induction w b k cs rule: word_stop.induct) auto

lemma jump_rep:
  assumes "cursor_rep c ls rs" "length ls \<le> k" "k \<le> length (ls @ rs)"
  shows "\<exists>ms rs'. rs = ms @ rs' \<and> cursor_rep (c\<lparr>cindex := sum_list (map char_len (take k (ls @ rs)))\<rparr>) (ls @ ms) rs'"
proof -
  have "take k (ls @ rs) = ls @ take (k - length ls) rs" using assms(2) by simp
  moreover have "valid_chars (ls @ take (k - length ls) rs @ drop (k - length ls) rs)" using assms(1) by (simp add: cursor_rep_def)
  ultimately show ?thesis using assms(1)
    by (intro exI [of _ "take (k - length ls) rs"] exI [of _ "drop (k - length ls) rs"])
      (simp add: cursor_rep_def bytes_len_sum of_bytes_simps(3) [symmetric] del: of_bytes_simps(3))
qed

lemma word_end_rep:
  assumes "cursor_rep c ls rs"
  shows "\<exists>ms rs' c'. rs = ms @ rs' \<and> word_end w c = Some c' \<and> cursor_rep c' (ls @ ms) rs'"
proof (cases rs)
  case Nil
  then show ?thesis using assms by (intro exI [of _ "[]"] exI [of _ c]) (simp add: word_end_def cursor_rep_def)
next
  case (Cons g rs')
  let ?cs = "ls @ rs"
  note p = rep_parts [OF assms]
  have cs: "char_bytes (csource c) = ?cs" using assms by (simp add: cursor_rep_def of_bytes_simps(3) [symmetric] del: of_bytes_simps(3))
  have k: "length (char_bytes (take (cindex c) (csource c))) = length ls" "\<not> length (csource c) \<le> cindex c" "\<not> length ?cs \<le> length ls"
    using p Cons by simp_all
  define k where "k = (if at_word_boundary w ?cs (length ls) then skip_white (length ls + 1) (drop (length ls + 1) ?cs) else length ls)"
  have kb: "length ls \<le> k" "k \<le> length ?cs" using skip_white_bounds [of "length ls + 1" "drop (length ls + 1) ?cs"] Cons by (auto simp: k_def)
  have run: "word_end w c = (if length ?cs \<le> k then Some (c\<lparr>cindex := length (csource c)\<rparr>)
      else Some (c\<lparr>cindex := sum_list (map char_len (take (word_stop w (jumper_word_char w (?cs ! k)) k (drop k ?cs)) ?cs))\<rparr>))"
    using k boundary_rep [OF assms] unfolding word_end_def cs by (simp add: Let_def k_def [symmetric])
  have "length (csource c) = sum_list (map char_len (take (length ?cs) ?cs))" using p(4) by (simp add: bytes_len_sum [symmetric])
  then show ?thesis
    using jump_rep [OF assms, of "length ?cs"] jump_rep [OF assms, of "word_stop w (jumper_word_char w (?cs ! k)) k (drop k ?cs)"]
      word_stop_bounds [of k w "jumper_word_char w (?cs ! k)" "drop k ?cs"] kb run by auto
qed

lemma clear_rep:
  "cursor_rep c ls rs \<Longrightarrow> \<exists>c'. clear_to_start c = Some c' \<and> cursor_rep c' [] rs"
  "cursor_rep c ls rs \<Longrightarrow> \<exists>c'. clear_to_end c = Some c' \<and> cursor_rep c' ls []"
  "cursor_rep (cursor_clear c) [] []"
  "cursor_rep c ls rs \<Longrightarrow> cursor_rep (cursor_start c) [] (ls @ rs)"
  "cursor_rep c ls rs \<Longrightarrow> cursor_rep (cursor_end c) (ls @ rs) []"
  using replace_rep [of "[]" ls rs] replace_rep [of ls rs "[]"]
  by (simp_all add: cursor_rep_def clear_to_start_def clear_to_end_def cursor_clear_def cursor_start_def cursor_end_def)

section \<open>Properties\<close>

datatype cursor_op =
    Type_Char rchar | Go_Right | Go_Left | Remove | Backspace | Clear | Clear_Start | Clear_End | To_Start | To_End
  | Next_Word WordJumper | Prev_Word WordJumper | Word_End string | Remove_Next_Word WordJumper | Remove_Prev_Word WordJumper

fun cursor_apply :: "cursor_op \<Rightarrow> Cursor \<Rightarrow> Cursor option" where
  "cursor_apply (Type_Char g) c = cursor_insert g c"
| "cursor_apply Go_Right c = Some (cursor_right c)"
| "cursor_apply Go_Left c = Some (snd (cursor_left c))"
| "cursor_apply Remove c = map_option snd (cursor_remove c)"
| "cursor_apply Backspace c = map_option snd (cursor_back c)"
| "cursor_apply Clear c = Some (cursor_clear c)"
| "cursor_apply Clear_Start c = clear_to_start c"
| "cursor_apply Clear_End c = clear_to_end c"
| "cursor_apply To_Start c = Some (cursor_start c)"
| "cursor_apply To_End c = Some (cursor_end c)"
| "cursor_apply (Next_Word j) c = Some (next_word j c)"
| "cursor_apply (Prev_Word j) c = Some (prev_word j c)"
| "cursor_apply (Word_End w) c = word_end w c"
| "cursor_apply (Remove_Next_Word j) c = remove_next_word j c"
| "cursor_apply (Remove_Prev_Word j) c = remove_prev_word j c"

text \<open>The same operations on the characters before and after the cursor.\<close>

fun line_spec :: "cursor_op \<Rightarrow> Cursor \<Rightarrow> rchar list \<times> rchar list \<Rightarrow> rchar list \<times> rchar list \<Rightarrow> bool" where
  "line_spec (Type_Char g) c (ls, rs) r \<longleftrightarrow> r = (ls @ [g], rs)"
| "line_spec Go_Right c (ls, rs) r \<longleftrightarrow> r = (ls @ take 1 rs, drop 1 rs)"
| "line_spec Go_Left c (ls, rs) r \<longleftrightarrow> r = (butlast ls, drop (length ls - 1) ls @ rs)"
| "line_spec Remove c (ls, rs) r \<longleftrightarrow> r = (ls, drop 1 rs)"
| "line_spec Backspace c (ls, rs) r \<longleftrightarrow> r = (butlast ls, rs)"
| "line_spec Clear c (ls, rs) r \<longleftrightarrow> r = ([], [])"
| "line_spec Clear_Start c (ls, rs) r \<longleftrightarrow> r = ([], rs)"
| "line_spec Clear_End c (ls, rs) r \<longleftrightarrow> r = (ls, [])"
| "line_spec To_Start c (ls, rs) r \<longleftrightarrow> r = ([], ls @ rs)"
| "line_spec To_End c (ls, rs) r \<longleftrightarrow> r = (ls @ rs, [])"
| "line_spec (Next_Word j) c (ls, rs) r \<longleftrightarrow> (\<exists>ms rs'. rs = ms @ rs' \<and> r = (ls @ ms, rs'))"
| "line_spec (Prev_Word j) c (ls, rs) r \<longleftrightarrow> (\<exists>ls' ms. ls = ls' @ ms \<and> r = (ls', ms @ rs))"
| "line_spec (Word_End w) c (ls, rs) r \<longleftrightarrow> (\<exists>ms rs'. rs = ms @ rs' \<and> r = (ls @ ms, rs'))"
| "line_spec (Remove_Next_Word j) c (ls, rs) r \<longleftrightarrow> (\<exists>ms rs'. rs = ms @ rs' \<and> cursor_rep (next_word j c) (ls @ ms) rs' \<and> r = (ls, rs'))"
| "line_spec (Remove_Prev_Word j) c (ls, rs) r \<longleftrightarrow> (\<exists>ls' ms. ls = ls' @ ms \<and> cursor_rep (prev_word j c) ls' (ms @ rs) \<and> r = (ls', rs))"

fun op_valid :: "cursor_op \<Rightarrow> bool" where
  "op_valid (Type_Char g) \<longleftrightarrow> valid_char g"
| "op_valid _ \<longleftrightarrow> True"

lemma cursor_refines_char:
  assumes "cursor_rep c ls rs" "op_valid e" "e \<in> {Type_Char g, Go_Right, Go_Left, Remove, Backspace}"
  shows "\<exists>c' ls' rs'. cursor_apply e c = Some c' \<and> cursor_rep c' ls' rs' \<and> line_spec e c (ls, rs) (ls', rs')"
proof -
  note r = assms(1)
  from assms(3) consider "e = Type_Char g" | "e = Go_Right" | "e = Go_Left" | "e = Remove" | "e = Backspace" by auto
  then show ?thesis
  proof cases
    case 1
    with insert_rep [OF r] assms(2) show ?thesis by simp
  next
    case 2
    with r step_rep(1,3) show ?thesis by (cases rs) auto
  next
    case 3
    with r step_rep(2,4) show ?thesis by (cases ls rule: rev_cases) force+
  next
    case 4
    with r remove_rep show ?thesis by (cases rs) force+
  next
    case 5
    with r back_rep show ?thesis by (cases ls rule: rev_cases) force+
  qed
qed

lemma cursor_refines:
  assumes "cursor_rep c ls rs" "op_valid e"
  shows "\<exists>c' ls' rs'. cursor_apply e c = Some c' \<and> cursor_rep c' ls' rs' \<and> line_spec e c (ls, rs) (ls', rs')"
proof (cases "\<exists>g. e \<in> {Type_Char g, Go_Right, Go_Left, Remove, Backspace}")
  case True
  then show ?thesis using cursor_refines_char [OF assms] by blast
next
  case False
  note w = next_word_rep [OF assms(1)] prev_word_rep [OF assms(1)] word_end_rep [OF assms(1)]
  show ?thesis
  proof (cases e)
    case (Next_Word j)
    then show ?thesis using w(1) [of j] by auto
  next
    case (Prev_Word j)
    then show ?thesis using w(2) [of j] by auto
  next
    case (Word_End x)
    then show ?thesis using w(3) [of x] by auto
  next
    case (Remove_Next_Word j)
    then show ?thesis using w(1) [of j] by auto
  next
    case (Remove_Prev_Word j)
    then show ?thesis using w(2) [of j] by auto
  qed (use False assms(1) clear_rep in auto)
qed

text \<open>
  C36: the input line edits characters. When the characters before the cursor are \<open>ls\<close> and those after it \<open>rs\<close>, no operation panics, and: inserting puts the character
  at the end of \<open>ls\<close>; moving right and left takes one character from one side to the other, where there is one; delete and backspace drop
  the first of \<open>rs\<close> and the last of \<open>ls\<close>; the clearing operations drop \<open>ls\<close>, \<open>rs\<close> or both; a movement by a word, in either mode or to its end, takes some characters to the other
  side, and removing a word drops exactly the characters the movement goes over.
\<close>

theorem cursor_refines_line:
  assumes "cursor_rep c ls rs" "op_valid e"
  shows "\<exists>c' ls' rs'. cursor_apply e c = Some c' \<and> cursor_rep c' ls' rs' \<and> line_spec e c (ls, rs) (ls', rs')"
  using assms by (rule cursor_refines)

theorem cursor_refines_line_witness:
  "\<exists>c' ls' rs'. cursor_apply (Remove_Prev_Word \<lparr>word_chars = ''abc'', word_jump_mode = Emacs\<rparr>) \<lparr>csource = ''b '' @ [CHR 0xC3, CHR 0xB6, CHR ''c''], cindex = 4\<rparr> = Some c'
     \<and> cursor_rep c' ls' rs' \<and> rs' = [(CHR ''c'', [])]"
proof -
  let ?ls = "[(CHR ''b'', []), (CHR '' '', []), (CHR 0xC3, [CHR 0xB6])]" and ?rs = "[(CHR ''c'', [])]"
  let ?c = "\<lparr>csource = ''b '' @ [CHR 0xC3, CHR 0xB6, CHR ''c''], cindex = 4\<rparr>"
  have "cursor_rep ?c ?ls ?rs" by (simp add: cursor_rep_def valid_char_def continues_def char_len_def)
  from cursor_refines_line [OF this, of "Remove_Prev_Word \<lparr>word_chars = ''abc'', word_jump_mode = Emacs\<rparr>"] show ?thesis by auto
qed

fun cursor_run :: "cursor_op list \<Rightarrow> Cursor \<Rightarrow> Cursor option" where
  "cursor_run [] c = Some c"
| "cursor_run (e # es) c = Option.bind (cursor_apply e c) (cursor_run es)"

text \<open>
  whatever is typed, the cursor never panics and is on a character boundary afterwards.
\<close>

theorem cursor_never_panics:
  assumes "cursor_ok c" "list_all op_valid es"
  shows "\<exists>c'. cursor_run es c = Some c' \<and> cursor_ok c'"
  using assms
proof (induction es arbitrary: c)
  case (Cons e es)
  then obtain ls rs where "cursor_rep c ls rs" by (auto simp: cursor_ok_rep)
  then obtain c' where "cursor_apply e c = Some c'" "cursor_ok c'"
    using cursor_refines [of c ls rs e] Cons.prems(2) by (auto simp: cursor_ok_rep)
  with Cons show ?case by auto
qed simp

theorem cursor_never_panics_witness:
  "\<exists>c'. cursor_run [To_End, Backspace, Type_Char (CHR 0xC3, [CHR 0xB6]), Word_End ''a'', Go_Left, Remove_Next_Word \<lparr>word_chars = [], word_jump_mode = Subl\<rparr>] (Cursor_from ''a b'') = Some c' \<and> cursor_ok c'"
  by (rule cursor_never_panics) (simp_all add: cursor_ok_def Cursor_from_def continues_def valid_char_def is_char_boundary_def)

end
