(* ===== verification/Rust_Path.thy ===== *)
theory Rust_Path
  imports Rust_String
begin

text \<open>
  More of Rust's standard library, as the agent's code uses it: splitting and trimming of strings, the check that
  bytes are UTF-8, and paths (\<open>std::path\<close> on Unix): names, parents, ancestors and prefixes. A path
  is its bytes; empty and \<open>.\<close> segments do not count as components, except a leading \<open>.\<close>.
\<close>

section \<open>Splitting\<close>

fun split_on :: "('a \<Rightarrow> bool) \<Rightarrow> 'a list \<Rightarrow> 'a list list" where
  "split_on P [] = [[]]"
| "split_on P (x # xs) = (if P x then [] # split_on P xs else (case split_on P xs of [] \<Rightarrow> [[x]] | y # ys \<Rightarrow> (x # y) # ys))"

definition trim :: "string \<Rightarrow> string" where
  "trim s = trim_start (trim_end s)"

definition split_whitespace :: "string \<Rightarrow> string list" where
  "split_whitespace s = map of_bytes (filter (\<lambda>gs. gs \<noteq> []) (split_on white_group (char_bytes s)))"

definition starts_with :: "'a list \<Rightarrow> 'a list \<Rightarrow> bool" where
  "starts_with p s \<longleftrightarrow> take (length p) s = p"

definition strip_suffix :: "'a list \<Rightarrow> 'a list \<Rightarrow> 'a list option" where
  "strip_suffix e s = (if length e \<le> length s \<and> drop (length s - length e) s = e then Some (take (length s - length e) s) else None)"

fun join_with :: "'a list \<Rightarrow> 'a list list \<Rightarrow> 'a list" where
  "join_with sep [] = []"
| "join_with sep [x] = x"
| "join_with sep (x # y # ys) = x @ sep @ join_with sep (y # ys)"

lemma char_bytes_append: "ys = [] \<or> \<not> continues (hd ys) \<Longrightarrow> char_bytes (xs @ ys) = char_bytes xs @ char_bytes ys"
proof (induction xs rule: char_bytes.induct)
  case (2 c cs)
  have stop: "takeWhile continues ys = []" "dropWhile continues ys = ys" using 2(2) by (cases ys; auto)+
  show ?case
  proof (cases "\<forall>d \<in> set cs. continues d")
    case True
    then have "takeWhile continues (cs @ ys) = cs" "dropWhile continues (cs @ ys) = ys" "takeWhile continues cs = cs" "dropWhile continues cs = []"
      using stop by (simp_all add: takeWhile_append dropWhile_append)
    then show ?thesis by (simp only: append_Cons append_Nil char_bytes.simps)
  next
    case False
    then obtain d where "d \<in> set cs" "\<not> continues d" by blast
    then have "takeWhile continues (cs @ ys) = takeWhile continues cs" "dropWhile continues (cs @ ys) = dropWhile continues cs @ ys"
      by (simp_all add: takeWhile_append1 dropWhile_append1)
    then show ?thesis using 2 by simp
  qed
qed simp

lemma trim_id:
  assumes "char_bytes s \<noteq> []" "\<not> white_group (hd (char_bytes s))" "\<not> white_group (last (char_bytes s))"
  shows "trim s = s"
proof -
  have "dropWhile white_group (rev (char_bytes s)) = rev (char_bytes s)" using assms by (metis dropWhile_eq_self_iff hd_rev)
  then have "trim_end s = s" by (simp add: trim_end_def)
  moreover have "dropWhile white_group (char_bytes s) = char_bytes s" using assms by (metis dropWhile_eq_self_iff)
  ultimately show ?thesis by (simp add: trim_def trim_start_def)
qed

lemma split_on_not_Nil [simp]: "split_on P xs \<noteq> []"
  by (induction xs) (auto split: list.splits)

lemma split_on_free: "xs \<in> set (split_on P ys) \<Longrightarrow> x \<in> set xs \<Longrightarrow> \<not> P x"
proof (induction ys arbitrary: xs)
  case (Cons y ys)
  then show ?case by (cases "split_on P ys") (force split: if_splits)+
qed simp

lemma split_on_single: "list_all (\<lambda>x. \<not> P x) xs \<Longrightarrow> split_on P xs = [xs]"
  by (induction xs) auto

lemma split_on_append: "P x \<Longrightarrow> split_on P (xs @ x # ys) = split_on P xs @ split_on P ys"
  by (induction xs) (auto split: list.splits)

lemma join_split_on: "join_with [c] (split_on (\<lambda>x. x = c) xs) = xs"
proof (induction xs)
  case (Cons x xs)
  obtain y ys where s: "split_on (\<lambda>x. x = c) xs = y # ys" by (meson list.exhaust split_on_not_Nil)
  then show ?case using Cons by (cases ys) auto
qed simp

lemma starts_with_append [simp]: "starts_with p (p @ s)"
  by (simp add: starts_with_def)

lemma starts_with_iff: "starts_with p s \<longleftrightarrow> (\<exists>r. s = p @ r)"
  by (auto simp: starts_with_def) (metis append_take_drop_id)

lemma strip_suffix_Some: "strip_suffix e s = Some p \<longleftrightarrow> s = p @ e"
proof
  assume "strip_suffix e s = Some p"
  then have "drop (length s - length e) s = e" "p = take (length s - length e) s" by (simp_all add: strip_suffix_def split: if_splits)
  then show "s = p @ e" by (metis append_take_drop_id)
qed (simp add: strip_suffix_def)

lemma strip_suffix_None: "strip_suffix e s = None \<longleftrightarrow> (\<forall>p. s \<noteq> p @ e)"
  by (metis not_None_eq strip_suffix_Some)

section \<open>UTF-8\<close>

text \<open>What \<open>std::str::from_utf8\<close> accepts: the well-formed byte sequences of the Unicode standard.\<close>

definition in_range :: "nat \<Rightarrow> nat \<Rightarrow> char \<Rightarrow> bool" where
  "in_range a b c \<longleftrightarrow> a \<le> of_char c \<and> of_char c \<le> b"

text \<open>How many bytes the character at the front of the string has, or \<open>None\<close> if there is none that is well formed.\<close>

fun utf8_len :: "string \<Rightarrow> nat option" where
  "utf8_len [] = None"
| "utf8_len (a # cs) =
     (if in_range 0x00 0x7F a then Some 1
      else case cs of
        [] \<Rightarrow> None
      | b # cs \<Rightarrow>
          if in_range 0xC2 0xDF a \<and> continues b then Some 2
          else (case cs of
            [] \<Rightarrow> None
          | c # cs \<Rightarrow>
              if continues c \<and> (in_range 0xE0 0xE0 a \<and> in_range 0xA0 0xBF b \<or> in_range 0xE1 0xEC a \<and> continues b
                \<or> in_range 0xED 0xED a \<and> in_range 0x80 0x9F b \<or> in_range 0xEE 0xEF a \<and> continues b) then Some 3
              else (case cs of
                [] \<Rightarrow> None
              | d # cs \<Rightarrow>
                  if continues c \<and> continues d \<and> (in_range 0xF0 0xF0 a \<and> in_range 0x90 0xBF b \<or> in_range 0xF1 0xF3 a \<and> continues b
                    \<or> in_range 0xF4 0xF4 a \<and> in_range 0x80 0x8F b) then Some 4 else None)))"

lemma utf8_len_pos: "utf8_len s = Some n \<Longrightarrow> 0 < n \<and> s \<noteq> []"
  by (cases s) (auto split: if_splits list.splits)

function utf8_valid :: "string \<Rightarrow> bool" where
  "utf8_valid s = (if s = [] then True else (case utf8_len s of None \<Rightarrow> False | Some n \<Rightarrow> utf8_valid (drop n s)))"
  by pat_completeness auto

termination
  by (relation "measure length") (auto dest: utf8_len_pos)

declare utf8_valid.simps [simp del]

definition from_utf8 :: "string \<Rightarrow> string option" where
  "from_utf8 s = (if utf8_valid s then Some s else None)"

section \<open>Paths\<close>

definition has_root :: "string \<Rightarrow> bool" where
  "has_root p \<longleftrightarrow> starts_with ''/'' p"

definition path_segments :: "string \<Rightarrow> string list" where
  "path_segments p = split_on (\<lambda>c. c = CHR ''/'') p"

definition trivial_segment :: "string \<Rightarrow> bool" where
  "trivial_segment s \<longleftrightarrow> s = [] \<or> s = ''.''"

text \<open>What comes before the segments that can be components: the root, a leading dot, or nothing.\<close>

definition path_front :: "string \<Rightarrow> string" where
  "path_front p = (if has_root p then ''/'' else if hd (path_segments p) = ''.'' then ''.'' else [])"

definition path_body :: "string \<Rightarrow> string list" where
  "path_body p = (if path_front p = [] then path_segments p else tl (path_segments p))"

definition path_names :: "string \<Rightarrow> string list" where
  "path_names p = filter (\<lambda>s. \<not> trivial_segment s) (path_body p)"

definition trim_segments :: "string list \<Rightarrow> string list" where
  "trim_segments ss = rev (dropWhile trivial_segment (rev ss))"

definition file_name :: "string \<Rightarrow> string option" where
  "file_name p = (if path_names p = [] \<or> last (path_names p) = ''..'' then None else Some (last (path_names p)))"

definition path_slice :: "string \<Rightarrow> string list \<Rightarrow> string" where
  "path_slice front ss = (if ss = [] then front else if front = ''.'' then ''./'' @ join_with ''/'' ss else front @ join_with ''/'' ss)"

definition path_parent :: "string \<Rightarrow> string option" where
  "path_parent p =
     (let body = trim_segments (path_body p)
      in if body = [] then (if path_front p = ''.'' then Some [] else None)
         else Some (path_slice (path_front p) (trim_segments (butlast body))))"

lemma length_trim_segments: "length (join_with sep (trim_segments ss)) \<le> length (join_with sep ss)"
proof (induction ss rule: rev_induct)
  case (snoc s ss)
  have "length (join_with sep ss) \<le> length (join_with sep (ss @ [s]))" for ss :: "string list"
    by (induction sep ss rule: join_with.induct) auto
  then show ?case using snoc le_trans by (fastforce simp: trim_segments_def)
qed (simp add: trim_segments_def)

lemma join_snoc: "ss \<noteq> [] \<Longrightarrow> join_with sep (ss @ [s]) = join_with sep ss @ sep @ s"
  by (induction sep ss rule: join_with.induct) auto

lemma path_parts: "path_slice (path_front p) (path_body p) = p"
proof -
  have j: "join_with ''/'' (path_segments p) = p" by (simp add: path_segments_def join_split_on)
  obtain s ss where seg: "path_segments p = s # ss" unfolding path_segments_def by (meson list.exhaust split_on_not_Nil)
  have root: "s = [] \<and> ss \<noteq> []" if r: "has_root p"
  proof -
    obtain q where "p = CHR ''/'' # q" using r by (auto simp: has_root_def starts_with_iff)
    then show ?thesis using seg by (auto simp: path_segments_def)
  qed
  show ?thesis
  proof (cases "has_root p")
    case True
    then show ?thesis using root [OF True] seg j by (cases ss) (auto simp: path_slice_def path_front_def path_body_def)
  next
    case False
    then show ?thesis using seg j by (cases ss) (auto simp: path_slice_def path_front_def path_body_def)
  qed
qed

lemma path_parent_shorter:
  assumes "path_parent p = Some q"
  shows "length q < length p"
proof (cases "trim_segments (path_body p) = []")
  case True
  with assms have "path_front p = ''.''" "q = []" by (auto simp: path_parent_def split: if_splits)
  then show ?thesis by (auto simp: path_front_def path_segments_def split: if_splits)
next
  case False
  let ?b = "trim_segments (path_body p)"
  have q: "q = path_slice (path_front p) (trim_segments (butlast ?b))" using assms False by (simp add: path_parent_def)
  have "\<not> trivial_segment (hd (dropWhile trivial_segment (rev (path_body p))))" by (rule hd_dropWhile) (use False in \<open>simp add: trim_segments_def\<close>)
  then have last: "last ?b \<noteq> []" by (auto simp: trim_segments_def last_rev trivial_segment_def)
  have lt: "length (path_slice f (butlast ?b)) < length (path_slice f ?b)" for f
    using False last join_snoc [of "butlast ?b" "''/''" "last ?b"] append_butlast_last_id [OF False]
    by (cases "butlast ?b = []") (auto simp: path_slice_def neq_Nil_conv append_eq_Cons_conv)
  have le: "length (path_slice f (trim_segments ss)) \<le> length (path_slice f ss)" for f ss
    using length_trim_segments [of "''/''" ss] by (auto simp: path_slice_def trim_segments_def)
  show ?thesis using lt [of "path_front p"] le [of "path_front p" "butlast ?b"] le [of "path_front p" "path_body p"] q path_parts [of p] by simp
qed

function path_ancestors :: "string \<Rightarrow> string list" where
  "path_ancestors p = p # (case path_parent p of None \<Rightarrow> [] | Some q \<Rightarrow> path_ancestors q)"
  by pat_completeness auto

termination
  by (relation "measure length") (auto simp: path_parent_shorter)

declare path_ancestors.simps [simp del]

text \<open>\<open>strip_prefix\<close> with an absolute base: the part of the path after the base's components.\<close>

fun drop_names :: "nat \<Rightarrow> string list \<Rightarrow> string list" where
  "drop_names 0 ss = dropWhile trivial_segment ss"
| "drop_names (Suc n) ss = (case dropWhile trivial_segment ss of [] \<Rightarrow> [] | _ # rest \<Rightarrow> drop_names n rest)"

definition strip_prefix :: "string \<Rightarrow> string \<Rightarrow> string option" where
  "strip_prefix base p =
     (if has_root base \<and> has_root p \<and> starts_with (path_names base) (path_names p)
      then Some (join_with ''/'' (trim_segments (drop_names (length (path_names base)) (path_body p)))) else None)"

end
