(* ===== verification/Tui_Conditions.thy ===== *)
theory Tui_Conditions
  imports Rust_Path
begin

text \<open>
  The conditions of key bindings, \<open>atuin/src/command/client/search/keybindings/conditions.rs\<close>: atoms over the state of the search, boolean
  expressions, their recursive descent parser and their printer with as few parentheses as the precedence allows.

  The parser's state is the rest of its input; the position in an error is the length of the whole input less that of the rest. Every call of the parser
  takes one unit of fuel, \<open>None\<close> is running out of it, and \<open>condition_parse\<close> starts with enough for its input.

  Shown: the parser always ends; a printed expression parses again, to an expression that has the same value everywhere and prints the same.
\<close>

section \<open>Atoms\<close>

datatype ConditionAtom =
  CursorAtStart | CursorAtEnd | InputEmpty | OriginalInputEmpty | ListAtEnd | ListAtStart | NoResults | HasResults | HasContext

datatype ConditionExpr = Atom ConditionAtom | Not ConditionExpr | And ConditionExpr ConditionExpr | Or ConditionExpr ConditionExpr

record EvalContext =
  cursor_position :: nat
  input_width :: nat
  input_byte_len :: nat
  selected_index :: nat
  ctx_results_len :: nat
  ctx_original_input_empty :: bool
  has_context :: bool

fun atom_evaluate :: "ConditionAtom \<Rightarrow> EvalContext \<Rightarrow> bool" where
  "atom_evaluate CursorAtStart ctx \<longleftrightarrow> cursor_position ctx = 0"
| "atom_evaluate CursorAtEnd ctx \<longleftrightarrow> cursor_position ctx = input_width ctx"
| "atom_evaluate InputEmpty ctx \<longleftrightarrow> input_byte_len ctx = 0"
| "atom_evaluate OriginalInputEmpty ctx \<longleftrightarrow> ctx_original_input_empty ctx"
| "atom_evaluate ListAtEnd ctx \<longleftrightarrow> ctx_results_len ctx = 0 \<or> selected_index ctx \<ge> ctx_results_len ctx - 1"
| "atom_evaluate ListAtStart ctx \<longleftrightarrow> ctx_results_len ctx = 0 \<or> selected_index ctx = 0"
| "atom_evaluate NoResults ctx \<longleftrightarrow> ctx_results_len ctx = 0"
| "atom_evaluate HasResults ctx \<longleftrightarrow> ctx_results_len ctx > 0"
| "atom_evaluate HasContext ctx \<longleftrightarrow> has_context ctx"

fun atom_as_str :: "ConditionAtom \<Rightarrow> string" where
  "atom_as_str CursorAtStart = ''cursor-at-start''"
| "atom_as_str CursorAtEnd = ''cursor-at-end''"
| "atom_as_str InputEmpty = ''input-empty''"
| "atom_as_str OriginalInputEmpty = ''original-input-empty''"
| "atom_as_str ListAtEnd = ''list-at-end''"
| "atom_as_str ListAtStart = ''list-at-start''"
| "atom_as_str NoResults = ''no-results''"
| "atom_as_str HasResults = ''has-results''"
| "atom_as_str HasContext = ''has-context''"

definition atom_from_str :: "string \<Rightarrow> ConditionAtom option" where
  "atom_from_str s =
     (if s = ''cursor-at-start'' then Some CursorAtStart
      else if s = ''cursor-at-end'' then Some CursorAtEnd
      else if s = ''input-empty'' then Some InputEmpty
      else if s = ''original-input-empty'' then Some OriginalInputEmpty
      else if s = ''list-at-end'' then Some ListAtEnd
      else if s = ''list-at-start'' then Some ListAtStart
      else if s = ''no-results'' then Some NoResults
      else if s = ''has-results'' then Some HasResults
      else if s = ''has-context'' then Some HasContext
      else None)"

fun evaluate :: "ConditionExpr \<Rightarrow> EvalContext \<Rightarrow> bool" where
  "evaluate (Atom a) ctx \<longleftrightarrow> atom_evaluate a ctx"
| "evaluate (Not e) ctx \<longleftrightarrow> \<not> evaluate e ctx"
| "evaluate (And l r) ctx \<longleftrightarrow> evaluate l ctx \<and> evaluate r ctx"
| "evaluate (Or l r) ctx \<longleftrightarrow> evaluate l ctx \<or> evaluate r ctx"

section \<open>Parsing\<close>

datatype expr_error = UnexpectedInput nat string | ExpectedParen nat | ExpectedName nat | UnknownCondition string

definition ascii_whitespace :: "char \<Rightarrow> bool" where
  "ascii_whitespace c \<longleftrightarrow> of_char c \<in> {0x20 :: nat, 0x09, 0x0A, 0x0C, 0x0D}"

definition skip_whitespace :: "string \<Rightarrow> string" where
  "skip_whitespace s = dropWhile ascii_whitespace s"

definition name_char :: "char \<Rightarrow> bool" where
  "name_char c \<longleftrightarrow> (let n = of_char c :: nat in 97 \<le> n \<and> n \<le> 122 \<or> 48 \<le> n \<and> n \<le> 57 \<or> n = 45)"

definition parse_atom :: "nat \<Rightarrow> string \<Rightarrow> expr_error + ConditionExpr \<times> string" where
  "parse_atom L s =
     (let s = skip_whitespace s; name = takeWhile name_char s
      in if name = [] then Inl (ExpectedName (L - length s))
         else (case atom_from_str name of None \<Rightarrow> Inl (UnknownCondition name) | Some a \<Rightarrow> Inr (Atom a, dropWhile name_char s)))"

type_synonym parsed = "(expr_error + ConditionExpr \<times> string) option"

function parse_or :: "nat \<Rightarrow> nat \<Rightarrow> string \<Rightarrow> parsed" and or_loop :: "nat \<Rightarrow> nat \<Rightarrow> ConditionExpr \<Rightarrow> string \<Rightarrow> parsed"
  and parse_and :: "nat \<Rightarrow> nat \<Rightarrow> string \<Rightarrow> parsed" and and_loop :: "nat \<Rightarrow> nat \<Rightarrow> ConditionExpr \<Rightarrow> string \<Rightarrow> parsed"
  and parse_unary :: "nat \<Rightarrow> nat \<Rightarrow> string \<Rightarrow> parsed" and parse_primary :: "nat \<Rightarrow> nat \<Rightarrow> string \<Rightarrow> parsed" where
  "parse_or 0 L s = None"
| "parse_or (Suc n) L s =
     (case parse_and n L s of None \<Rightarrow> None | Some (Inl e) \<Rightarrow> Some (Inl e) | Some (Inr (left, s)) \<Rightarrow> or_loop n L left s)"
| "or_loop 0 L left s = None"
| "or_loop (Suc n) L left s =
     (let s = skip_whitespace s
      in if starts_with ''||'' s
         then (case parse_and n L (drop 2 s) of
                 None \<Rightarrow> None | Some (Inl e) \<Rightarrow> Some (Inl e) | Some (Inr (right, s)) \<Rightarrow> or_loop n L (Or left right) s)
         else Some (Inr (left, s)))"
| "parse_and 0 L s = None"
| "parse_and (Suc n) L s =
     (case parse_unary n L s of None \<Rightarrow> None | Some (Inl e) \<Rightarrow> Some (Inl e) | Some (Inr (left, s)) \<Rightarrow> and_loop n L left s)"
| "and_loop 0 L left s = None"
| "and_loop (Suc n) L left s =
     (let s = skip_whitespace s
      in if starts_with ''&&'' s
         then (case parse_unary n L (drop 2 s) of
                 None \<Rightarrow> None | Some (Inl e) \<Rightarrow> Some (Inl e) | Some (Inr (right, s)) \<Rightarrow> and_loop n L (And left right) s)
         else Some (Inr (left, s)))"
| "parse_unary 0 L s = None"
| "parse_unary (Suc n) L s =
     (let s = skip_whitespace s
      in if starts_with ''!'' s
         then (case parse_unary n L (drop 1 s) of None \<Rightarrow> None | Some (Inl e) \<Rightarrow> Some (Inl e) | Some (Inr (e, s)) \<Rightarrow> Some (Inr (Not e, s)))
         else parse_primary n L s)"
| "parse_primary 0 L s = None"
| "parse_primary (Suc n) L s =
     (let s = skip_whitespace s
      in if starts_with ''('' s
         then (case parse_or n L (drop 1 s) of
                 None \<Rightarrow> None
               | Some (Inl e) \<Rightarrow> Some (Inl e)
               | Some (Inr (e, s)) \<Rightarrow>
                   (let s = skip_whitespace s in Some (if starts_with '')'' s then Inr (e, drop 1 s) else Inl (ExpectedParen (L - length s)))))
         else Some (parse_atom L s))"
  by pat_completeness auto

termination
  by (relation "measure (case_sum (case_sum fst (case_sum fst fst)) (case_sum fst (case_sum fst fst)))") auto

definition condition_parse :: "string \<Rightarrow> (expr_error + ConditionExpr) option" where
  "condition_parse s =
     (case parse_or (4 * length s + 4) (length s) s of
        None \<Rightarrow> None
      | Some (Inl e) \<Rightarrow> Some (Inl e)
      | Some (Inr (e, r)) \<Rightarrow> (let r = skip_whitespace r in Some (if r \<noteq> [] then Inl (UnexpectedInput (length s - length r) r) else Inr e)))"

section \<open>Printing\<close>

fun prec :: "ConditionExpr \<Rightarrow> nat" where
  "prec (Or _ _) = 0"
| "prec (And _ _) = 1"
| "prec (Not _) = 2"
| "prec (Atom _) = 3"

fun fmt_with_prec :: "ConditionExpr \<Rightarrow> nat \<Rightarrow> string" where
  "fmt_with_prec (Atom a) p = atom_as_str a"
| "fmt_with_prec (Not e) p = (if 2 < p then ''('' else []) @ ''!'' @ fmt_with_prec e 2 @ (if 2 < p then '')'' else [])"
| "fmt_with_prec (And l r) p = (if 1 < p then ''('' else []) @ fmt_with_prec l 1 @ '' && '' @ fmt_with_prec r 1 @ (if 1 < p then '')'' else [])"
| "fmt_with_prec (Or l r) p = (if 0 < p then ''('' else []) @ fmt_with_prec l 0 @ '' || '' @ fmt_with_prec r 0 @ (if 0 < p then '')'' else [])"

definition condition_to_string :: "ConditionExpr \<Rightarrow> string" where
  "condition_to_string e = fmt_with_prec e 0"

section \<open>The parser ends\<close>

lemma skip_length: "length (skip_whitespace s) \<le> length s"
  by (simp add: skip_whitespace_def length_dropWhile_le)

lemma starts_length: "starts_with p s \<Longrightarrow> length p \<le> length s"
  by (auto simp: starts_with_iff)

lemma parse_atom_shrinks: "parse_atom L s = Inr (e, r) \<Longrightarrow> length r < length s"
proof -
  assume p: "parse_atom L s = Inr (e, r)"
  let ?s = "skip_whitespace s"
  have "takeWhile name_char ?s \<noteq> []" "r = dropWhile name_char ?s" using p by (auto simp: parse_atom_def Let_def split: if_splits option.splits)
  then have "length r < length ?s" by (metis append_Nil length_append length_greater_0_conv less_add_same_cancel2 takeWhile_dropWhile_id)
  with skip_length [of s] show ?thesis by simp
qed

text \<open>With \<open>need\<close> units of fuel a parser ends, and when it succeeds at most \<open>left\<close> of the input is left.\<close>

definition ends_within :: "nat \<Rightarrow> nat \<Rightarrow> int \<Rightarrow> parsed \<Rightarrow> bool" where
  "ends_within n need left r \<longleftrightarrow> (need \<le> n \<longrightarrow> r \<noteq> None) \<and> (\<forall>e s. r = Some (Inr (e, s)) \<longrightarrow> int (length s) \<le> left)"

definition parser_bounds :: "nat \<Rightarrow> nat \<Rightarrow> bool" where
  "parser_bounds n L \<longleftrightarrow> (\<forall>s e. let k = length s in
     ends_within n (4 * k + 4) (int k - 1) (parse_or n L s) \<and> ends_within n (4 * k + 4) (int k) (or_loop n L e s)
     \<and> ends_within n (4 * k + 3) (int k - 1) (parse_and n L s) \<and> ends_within n (4 * k + 4) (int k) (and_loop n L e s)
     \<and> ends_within n (4 * k + 2) (int k - 1) (parse_unary n L s) \<and> ends_within n (4 * k + 1) (int k - 1) (parse_primary n L s))"

lemma ends_within_mono: "ends_within n need left r \<Longrightarrow> need \<le> need' \<Longrightarrow> left \<le> left' \<Longrightarrow> ends_within n need' left' r"
  by (fastforce simp: ends_within_def)

lemma ends_within_seq:
  assumes "ends_within n need left r" "\<And>e s. int (length s) \<le> left \<Longrightarrow> ends_within n need' left' (f e s)" "need < m" "need' < m"
  shows "ends_within (Suc n) m left' (case r of None \<Rightarrow> None | Some (Inl e) \<Rightarrow> Some (Inl e) | Some (Inr (e, s)) \<Rightarrow> f e s)"
  using assms by (fastforce simp: ends_within_def split: option.split sum.split)

lemma ends_within_done: "int (length s) \<le> left \<Longrightarrow> ends_within n need left (Some (Inr (e, s)))" "ends_within n need left (Some (Inl x))"
  by (simp_all add: ends_within_def)

lemma parser_boundsD:
  assumes "parser_bounds n L"
  shows "ends_within n (4 * length s + 4) (int (length s) - 1) (parse_or n L s)" "ends_within n (4 * length s + 4) (int (length s)) (or_loop n L e s)"
    "ends_within n (4 * length s + 3) (int (length s) - 1) (parse_and n L s)" "ends_within n (4 * length s + 4) (int (length s)) (and_loop n L e s)"
    "ends_within n (4 * length s + 2) (int (length s) - 1) (parse_unary n L s)" "ends_within n (4 * length s + 1) (int (length s) - 1) (parse_primary n L s)"
  using assms unfolding parser_bounds_def Let_def by blast+

lemma after_token: "starts_with p (skip_whitespace s) \<Longrightarrow> length (drop (length p) (skip_whitespace s)) + length p \<le> length s"
  using starts_length [of p "skip_whitespace s"] skip_length [of s] by simp

lemma parser_ends: "parser_bounds n L"
proof (induction n)
  case 0
  then show ?case by (simp add: parser_bounds_def ends_within_def)
next
  case (Suc n)
  note b = parser_boundsD [OF Suc.IH]
  have "ends_within (Suc n) (4 * length s + 4) (int (length s) - 1) (parse_or (Suc n) L s)" for s
    unfolding parse_or.simps by (rule ends_within_seq [OF b(3) ends_within_mono [OF b(2)], where need' = "4 * length s + 3"]) auto
  moreover have "ends_within (Suc n) (4 * length s + 3) (int (length s) - 1) (parse_and (Suc n) L s)" for s
    unfolding parse_and.simps by (rule ends_within_seq [OF b(5) ends_within_mono [OF b(4)], where need' = "4 * length s + 2"]) auto
  moreover have "ends_within (Suc n) (4 * length s + 4) (int (length s)) (or_loop (Suc n) L e s)" for s e
  proof (cases "starts_with ''||'' (skip_whitespace s)")
    case True
    with after_token [OF True] show ?thesis unfolding or_loop.simps Let_def
      by (simp only: if_True) (rule ends_within_seq [OF b(3) ends_within_mono [OF b(2)], where need' = "4 * length s + 3"]; simp)
  qed (use skip_length [of s] in \<open>simp add: Let_def ends_within_done\<close>)
  moreover have "ends_within (Suc n) (4 * length s + 4) (int (length s)) (and_loop (Suc n) L e s)" for s e
  proof (cases "starts_with ''&&'' (skip_whitespace s)")
    case True
    with after_token [OF True] show ?thesis unfolding and_loop.simps Let_def
      by (simp only: if_True) (rule ends_within_seq [OF b(5) ends_within_mono [OF b(4)], where need' = "4 * length s + 3"]; simp)
  qed (use skip_length [of s] in \<open>simp add: Let_def ends_within_done\<close>)
  moreover have "ends_within (Suc n) (4 * length s + 2) (int (length s) - 1) (parse_unary (Suc n) L s)" for s
  proof (cases "starts_with ''!'' (skip_whitespace s)")
    case True
    with after_token [OF True] show ?thesis unfolding parse_unary.simps Let_def
      by (simp only: if_True) (rule ends_within_seq [OF b(5), where need' = 0]; simp add: ends_within_done)
  next
    case False
    then show ?thesis using b(6) [of "skip_whitespace s"] skip_length [of s] by (fastforce simp: Let_def ends_within_def)
  qed
  moreover have "ends_within (Suc n) (4 * length s + 1) (int (length s) - 1) (parse_primary (Suc n) L s)" for s
  proof (cases "starts_with ''('' (skip_whitespace s)")
    case True
    have "ends_within n 0 left (Some (if starts_with '')'' (skip_whitespace r) then Inr (e, drop 1 (skip_whitespace r)) else Inl x))"
      if "int (length r) \<le> left" for r e x left
      using that skip_length [of r] by (auto simp: ends_within_def)
    with after_token [OF True] True show ?thesis unfolding parse_primary.simps Let_def
      by (simp only: if_True) (rule ends_within_seq [OF b(1), where need' = 0]; simp)
  next
    case False
    then show ?thesis using parse_atom_shrinks [of L "skip_whitespace s"] skip_length [of s] by (fastforce simp: Let_def ends_within_def)
  qed
  ultimately show ?case by (simp add: parser_bounds_def Let_def)
qed

lemma condition_parse_total: "\<exists>r. condition_parse s = Some r"
proof -
  have "ends_within (4 * length s + 4) (4 * length s + 4) (int (length s) - 1) (parse_or (4 * length s + 4) (length s) s)"
    by (rule parser_boundsD(1) [OF parser_ends])
  then show ?thesis by (auto simp: ends_within_def condition_parse_def Let_def split: sum.splits)
qed

text \<open>More fuel does not change a result.\<close>

definition keeps :: "nat \<Rightarrow> nat \<Rightarrow> bool" where
  "keeps n L \<longleftrightarrow> (\<forall>s e r. (parse_or n L s = Some r \<longrightarrow> parse_or (Suc n) L s = Some r) \<and> (or_loop n L e s = Some r \<longrightarrow> or_loop (Suc n) L e s = Some r)
     \<and> (parse_and n L s = Some r \<longrightarrow> parse_and (Suc n) L s = Some r) \<and> (and_loop n L e s = Some r \<longrightarrow> and_loop (Suc n) L e s = Some r)
     \<and> (parse_unary n L s = Some r \<longrightarrow> parse_unary (Suc n) L s = Some r) \<and> (parse_primary n L s = Some r \<longrightarrow> parse_primary (Suc n) L s = Some r))"

lemma seq_keeps:
  assumes "(case x of None \<Rightarrow> None | Some (Inl e) \<Rightarrow> Some (Inl e) | Some (Inr (e, s)) \<Rightarrow> f e s) = Some r"
    and "\<And>y. x = Some y \<Longrightarrow> x' = Some y" "\<And>e s y. f e s = Some y \<Longrightarrow> f' e s = Some y"
  shows "(case x' of None \<Rightarrow> None | Some (Inl e) \<Rightarrow> Some (Inl e) | Some (Inr (e, s)) \<Rightarrow> f' e s) = Some r"
  using assms by (cases x) (auto split: sum.splits)

lemma parser_keeps: "keeps n L"
proof (induction n)
  case (Suc n)
  note k = Suc.IH [unfolded keeps_def]
  have "parse_or (Suc n) L s = Some r \<longrightarrow> parse_or (Suc (Suc n)) L s = Some r" for s r
    unfolding parse_or.simps(2) [of n L s] parse_or.simps(2) [of "Suc n" L s] by (intro impI, erule seq_keeps) (use k in blast)+
  moreover have "parse_and (Suc n) L s = Some r \<longrightarrow> parse_and (Suc (Suc n)) L s = Some r" for s r
    unfolding parse_and.simps(2) [of n L s] parse_and.simps(2) [of "Suc n" L s] by (intro impI, erule seq_keeps) (use k in blast)+
  moreover have "or_loop (Suc n) L e s = Some r \<longrightarrow> or_loop (Suc (Suc n)) L e s = Some r" for e s r
    unfolding or_loop.simps(2) [of n L e s] or_loop.simps(2) [of "Suc n" L e s] Let_def
    by (cases "starts_with ''||'' (skip_whitespace s)"; simp only: if_True if_False simp_thms) (intro impI, erule seq_keeps; use k in blast)+
  moreover have "and_loop (Suc n) L e s = Some r \<longrightarrow> and_loop (Suc (Suc n)) L e s = Some r" for e s r
    unfolding and_loop.simps(2) [of n L e s] and_loop.simps(2) [of "Suc n" L e s] Let_def
    by (cases "starts_with ''&&'' (skip_whitespace s)"; simp only: if_True if_False simp_thms) (intro impI, erule seq_keeps; use k in blast)+
  moreover have "parse_unary (Suc n) L s = Some r \<longrightarrow> parse_unary (Suc (Suc n)) L s = Some r" for s r
    unfolding parse_unary.simps(2) [of n L s] parse_unary.simps(2) [of "Suc n" L s] Let_def
    by (cases "starts_with ''!'' (skip_whitespace s)"; simp only: if_True if_False) (intro impI, erule seq_keeps; use k in blast | use k in blast)+
  moreover have "parse_primary (Suc n) L s = Some r \<longrightarrow> parse_primary (Suc (Suc n)) L s = Some r" for s r
    unfolding parse_primary.simps(2) [of n L s] parse_primary.simps(2) [of "Suc n" L s] Let_def
    by (cases "starts_with ''('' (skip_whitespace s)"; simp only: if_True if_False simp_thms) (intro impI, erule seq_keeps; use k in blast)+
  ultimately show ?case unfolding keeps_def by blast
qed (simp add: keeps_def)

section \<open>What the parser yields\<close>

definition yields :: "(nat \<Rightarrow> parsed) \<Rightarrow> ConditionExpr \<Rightarrow> string \<Rightarrow> bool" where
  "yields f e r \<longleftrightarrow> (\<exists>n. f n = Some (Inr (e, r)))"

lemma keeps_from:
  assumes "\<And>n x. f n = Some x \<Longrightarrow> f (Suc n) = Some x" "f n = Some (x :: 'a)" "n \<le> m"
  shows "f m = Some x"
  using assms(3,2) by (induction rule: dec_induct) (simp_all add: assms(1))

lemma parser_stable:
  "parse_or n L s = Some x \<Longrightarrow> n \<le> m \<Longrightarrow> parse_or m L s = Some x" "or_loop n L e s = Some x \<Longrightarrow> n \<le> m \<Longrightarrow> or_loop m L e s = Some x"
  "parse_and n L s = Some x \<Longrightarrow> n \<le> m \<Longrightarrow> parse_and m L s = Some x" "and_loop n L e s = Some x \<Longrightarrow> n \<le> m \<Longrightarrow> and_loop m L e s = Some x"
  "parse_unary n L s = Some x \<Longrightarrow> n \<le> m \<Longrightarrow> parse_unary m L s = Some x" "parse_primary n L s = Some x \<Longrightarrow> n \<le> m \<Longrightarrow> parse_primary m L s = Some x"
proof -
  note k = parser_keeps [of _ L, unfolded keeps_def]
  show "parse_or n L s = Some x \<Longrightarrow> n \<le> m \<Longrightarrow> parse_or m L s = Some x"
    by (rule keeps_from [where f = "\<lambda>n. parse_or n L s"]) (use k in blast)+
  show "or_loop n L e s = Some x \<Longrightarrow> n \<le> m \<Longrightarrow> or_loop m L e s = Some x"
    by (rule keeps_from [where f = "\<lambda>n. or_loop n L e s"]) (use k in blast)+
  show "parse_and n L s = Some x \<Longrightarrow> n \<le> m \<Longrightarrow> parse_and m L s = Some x"
    by (rule keeps_from [where f = "\<lambda>n. parse_and n L s"]) (use k in blast)+
  show "and_loop n L e s = Some x \<Longrightarrow> n \<le> m \<Longrightarrow> and_loop m L e s = Some x"
    by (rule keeps_from [where f = "\<lambda>n. and_loop n L e s"]) (use k in blast)+
  show "parse_unary n L s = Some x \<Longrightarrow> n \<le> m \<Longrightarrow> parse_unary m L s = Some x"
    by (rule keeps_from [where f = "\<lambda>n. parse_unary n L s"]) (use k in blast)+
  show "parse_primary n L s = Some x \<Longrightarrow> n \<le> m \<Longrightarrow> parse_primary m L s = Some x"
    by (rule keeps_from [where f = "\<lambda>n. parse_primary n L s"]) (use k in blast)+
qed

lemma skip_skip [simp]: "skip_whitespace (skip_whitespace s) = skip_whitespace s"
  by (simp add: skip_whitespace_def)

lemma loop_skip [simp]:
  "or_loop n L e (skip_whitespace s) = or_loop n L e s" "and_loop n L e (skip_whitespace s) = and_loop n L e s"
  "parse_unary n L (skip_whitespace s) = parse_unary n L s"
  by (cases n; simp)+

lemma yields_or:
  assumes "yields (\<lambda>n. parse_and n L s) l s'" "yields (\<lambda>n. or_loop n L l s') e r"
  shows "yields (\<lambda>n. parse_or n L s) e r"
proof -
  obtain i j where "parse_and i L s = Some (Inr (l, s'))" "or_loop j L l s' = Some (Inr (e, r))" using assms by (auto simp: yields_def)
  then have "parse_and (max i j) L s = Some (Inr (l, s'))" "or_loop (max i j) L l s' = Some (Inr (e, r))" by (auto intro: parser_stable)
  then have "parse_or (Suc (max i j)) L s = Some (Inr (e, r))" by simp
  then show ?thesis by (auto simp: yields_def simp del: parse_or.simps)
qed

lemma yields_and:
  assumes "yields (\<lambda>n. parse_unary n L s) l s'" "yields (\<lambda>n. and_loop n L l s') e r"
  shows "yields (\<lambda>n. parse_and n L s) e r"
proof -
  obtain i j where "parse_unary i L s = Some (Inr (l, s'))" "and_loop j L l s' = Some (Inr (e, r))" using assms by (auto simp: yields_def)
  then have "parse_unary (max i j) L s = Some (Inr (l, s'))" "and_loop (max i j) L l s' = Some (Inr (e, r))" by (auto intro: parser_stable)
  then have "parse_and (Suc (max i j)) L s = Some (Inr (e, r))" by simp
  then show ?thesis by (auto simp: yields_def simp del: parse_and.simps)
qed

lemma yields_stop:
  "\<not> starts_with ''||'' (skip_whitespace s) \<Longrightarrow> yields (\<lambda>n. or_loop n L e s) e (skip_whitespace s)"
  "\<not> starts_with ''&&'' (skip_whitespace s) \<Longrightarrow> yields (\<lambda>n. and_loop n L e s) e (skip_whitespace s)"
  by (auto simp: yields_def intro!: exI [of _ 1])

lemma yields_or_step:
  assumes "skip_whitespace s = ''||'' @ t" "yields (\<lambda>n. parse_and n L t) x s'" "yields (\<lambda>n. or_loop n L (Or l x) s') e r"
  shows "yields (\<lambda>n. or_loop n L l s) e r"
proof -
  obtain i j where "parse_and i L t = Some (Inr (x, s'))" "or_loop j L (Or l x) s' = Some (Inr (e, r))" using assms by (auto simp: yields_def)
  then have "parse_and (max i j) L t = Some (Inr (x, s'))" "or_loop (max i j) L (Or l x) s' = Some (Inr (e, r))" by (auto intro: parser_stable)
  then have "or_loop (Suc (max i j)) L l s = Some (Inr (e, r))" using assms(1) by (simp add: Let_def starts_with_def)
  then show ?thesis by (auto simp: yields_def simp del: or_loop.simps)
qed

lemma yields_and_step:
  assumes "skip_whitespace s = ''&&'' @ t" "yields (\<lambda>n. parse_unary n L t) x s'" "yields (\<lambda>n. and_loop n L (And l x) s') e r"
  shows "yields (\<lambda>n. and_loop n L l s) e r"
proof -
  obtain i j where "parse_unary i L t = Some (Inr (x, s'))" "and_loop j L (And l x) s' = Some (Inr (e, r))" using assms by (auto simp: yields_def)
  then have "parse_unary (max i j) L t = Some (Inr (x, s'))" "and_loop (max i j) L (And l x) s' = Some (Inr (e, r))" by (auto intro: parser_stable)
  then have "and_loop (Suc (max i j)) L l s = Some (Inr (e, r))" using assms(1) by (simp add: Let_def starts_with_def)
  then show ?thesis by (auto simp: yields_def simp del: and_loop.simps)
qed

lemma yields_not:
  assumes "skip_whitespace s = ''!'' @ t" "yields (\<lambda>n. parse_unary n L t) e r"
  shows "yields (\<lambda>n. parse_unary n L s) (Not e) r"
proof -
  obtain i where "parse_unary i L t = Some (Inr (e, r))" using assms by (auto simp: yields_def)
  then have "parse_unary (Suc i) L s = Some (Inr (Not e, r))" using assms(1) by (simp add: Let_def starts_with_def)
  then show ?thesis by (auto simp: yields_def simp del: parse_unary.simps)
qed

lemma yields_paren:
  assumes "skip_whitespace s = ''('' @ t" "yields (\<lambda>n. parse_or n L t) e u" "skip_whitespace u = '')'' @ r"
  shows "yields (\<lambda>n. parse_unary n L s) e r"
proof -
  obtain i where "parse_or i L t = Some (Inr (e, u))" using assms by (auto simp: yields_def)
  moreover have "skip_whitespace (''('' @ t) = ''('' @ t" using assms(1) by (metis skip_skip)
  ultimately have "parse_unary (Suc (Suc i)) L s = Some (Inr (e, r))" using assms(1,3) by (simp add: Let_def starts_with_def)
  then show ?thesis by (auto simp: yields_def simp del: parse_unary.simps)
qed

lemma yields_atom:
  assumes "r = [] \<or> \<not> name_char (hd r)"
  shows "yields (\<lambda>n. parse_unary n L (atom_as_str a @ r)) (Atom a) r"
proof -
  have all: "list_all name_char (atom_as_str a)" by (cases a) (simp_all add: name_char_def)
  then have tw: "takeWhile name_char (atom_as_str a @ r) = atom_as_str a" "dropWhile name_char (atom_as_str a @ r) = r"
    using assms by (cases r; simp add: list_all_iff)+
  have sk: "skip_whitespace (atom_as_str a @ r) = atom_as_str a @ r" by (cases a) (simp_all add: skip_whitespace_def ascii_whitespace_def)
  have no: "\<not> starts_with ''!'' (atom_as_str a @ r)" "\<not> starts_with ''('' (atom_as_str a @ r)" "atom_as_str a \<noteq> []" by (cases a; simp add: starts_with_def)+
  have "atom_from_str (atom_as_str a) = Some a" by (cases a) (simp_all add: atom_from_str_def)
  then have "parse_unary 2 L (atom_as_str a @ r) = Some (Inr (Atom a, r))"
    using no by (simp add: numeral_2_eq_2 Let_def sk parse_atom_def tw)
  then show ?thesis by (auto simp: yields_def)
qed

section \<open>Printed expressions\<close>

text \<open>Chains of one operator are printed without parentheses and read back from the left.\<close>

fun and_append :: "ConditionExpr \<Rightarrow> ConditionExpr \<Rightarrow> ConditionExpr" where
  "and_append l (And a b) = And (and_append l a) b"
| "and_append l e = And l e"

fun or_append :: "ConditionExpr \<Rightarrow> ConditionExpr \<Rightarrow> ConditionExpr" where
  "or_append l (Or a b) = Or (or_append l a) b"
| "or_append l e = Or l e"

fun left_chains :: "ConditionExpr \<Rightarrow> ConditionExpr" where
  "left_chains (Atom a) = Atom a"
| "left_chains (Not e) = Not (left_chains e)"
| "left_chains (And l r) = and_append (left_chains l) (left_chains r)"
| "left_chains (Or l r) = or_append (left_chains l) (left_chains r)"

lemma append_simps [simp]:
  "prec (and_append l r) = 1" "prec (or_append l r) = 0" "prec (left_chains e) = prec e"
  "evaluate (and_append l r) c \<longleftrightarrow> evaluate l c \<and> evaluate r c" "evaluate (or_append l r) c \<longleftrightarrow> evaluate l c \<or> evaluate r c"
  "and_append a (and_append b d) = and_append (and_append a b) d" "or_append a (or_append b d) = or_append (or_append a b) d"
proof -
  show "prec (and_append l r) = 1" "prec (or_append l r) = 0" for l r by (cases r; simp)+
  then show "prec (left_chains e) = prec e" by (cases e) simp_all
  show "evaluate (and_append l r) c \<longleftrightarrow> evaluate l c \<and> evaluate r c" by (induction l r rule: and_append.induct) auto
  show "evaluate (or_append l r) c \<longleftrightarrow> evaluate l c \<or> evaluate r c" by (induction l r rule: or_append.induct) auto
  show "and_append a (and_append b d) = and_append (and_append a b) d" by (induction b d rule: and_append.induct) auto
  show "or_append a (or_append b d) = or_append (or_append a b) d" by (induction b d rule: or_append.induct) auto
qed

lemma append_other: "prec e \<noteq> 1 \<Longrightarrow> and_append l e = And l e" "prec e \<noteq> 0 \<Longrightarrow> or_append l e = Or l e"
  by (cases e; simp)+

lemma left_chains_evaluate: "evaluate (left_chains e) c = evaluate e c"
  by (induction e) simp_all

lemma fmt_append:
  "fmt_with_prec (and_append l r) 1 = fmt_with_prec l 1 @ '' && '' @ fmt_with_prec r 1" "fmt_with_prec (or_append l r) 0 = fmt_with_prec l 0 @ '' || '' @ fmt_with_prec r 0"
  by (induction l r rule: and_append.induct; simp) (induction l r rule: or_append.induct; simp)

lemma fmt_paren: "fmt_with_prec e p = (if prec e < p then ''('' @ fmt_with_prec e 0 @ '')'' else fmt_with_prec e 0)" if "p < 3"
  using that by (cases e) auto

lemma fmt_prec: "prec e \<ge> 1 \<Longrightarrow> fmt_with_prec e 1 = fmt_with_prec e 0"
  by (cases e) simp_all

lemma left_chains_fmt: "fmt_with_prec (left_chains e) 0 = fmt_with_prec e 0"
proof (induction e)
  case (And l r)
  have "fmt_with_prec (left_chains x) 1 = fmt_with_prec x 1" if "fmt_with_prec (left_chains x) 0 = fmt_with_prec x 0" for x
    using that fmt_paren [of 1 x] fmt_paren [of 1 "left_chains x"] by simp
  with And fmt_append(1) [of "left_chains l" "left_chains r"] fmt_prec [of "and_append (left_chains l) (left_chains r)"] show ?case by simp
next
  case (Not e)
  then show ?case by (simp add: fmt_paren [of 2])
qed (simp_all add: fmt_append)

text \<open>What may follow an operand.\<close>

definition sep :: "string \<Rightarrow> bool" where
  "sep r \<longleftrightarrow> r = [] \<or> \<not> name_char (hd r)"

definition reads_unary :: "nat \<Rightarrow> ConditionExpr \<Rightarrow> bool" where
  "reads_unary L e \<longleftrightarrow> (\<forall>r. sep r \<longrightarrow> yields (\<lambda>n. parse_unary n L (fmt_with_prec e 2 @ r)) (left_chains e) r)"

definition reads_and :: "nat \<Rightarrow> ConditionExpr \<Rightarrow> bool" where
  "reads_and L e \<longleftrightarrow> (\<forall>r x t. sep r \<longrightarrow>
     (yields (\<lambda>n. and_loop n L (left_chains e) r) x t \<longrightarrow> yields (\<lambda>n. parse_and n L (fmt_with_prec e 1 @ r)) x t)
     \<and> (\<forall>acc. yields (\<lambda>n. and_loop n L (and_append acc (left_chains e)) r) x t \<longrightarrow> yields (\<lambda>n. and_loop n L acc ('' && '' @ fmt_with_prec e 1 @ r)) x t))"

definition reads_or :: "nat \<Rightarrow> ConditionExpr \<Rightarrow> bool" where
  "reads_or L e \<longleftrightarrow> (\<forall>r x t. sep r \<longrightarrow> \<not> starts_with ''&&'' (skip_whitespace r) \<longrightarrow>
     (yields (\<lambda>n. or_loop n L (left_chains e) r) x t \<longrightarrow> yields (\<lambda>n. parse_or n L (fmt_with_prec e 0 @ r)) x t)
     \<and> (\<forall>acc. yields (\<lambda>n. or_loop n L (or_append acc (left_chains e)) r) x t \<longrightarrow> yields (\<lambda>n. or_loop n L acc ('' || '' @ fmt_with_prec e 0 @ r)) x t))"

lemma skip_space: "skip_whitespace (CHR '' '' # s) = skip_whitespace s" "skip_whitespace (CHR ''&'' # s) = CHR ''&'' # s" "skip_whitespace (CHR ''|'' # s) = CHR ''|'' # s"
  "skip_whitespace (CHR ''('' # s) = CHR ''('' # s" "skip_whitespace (CHR '')'' # s) = CHR '')'' # s" "skip_whitespace (CHR ''!'' # s) = CHR ''!'' # s" "skip_whitespace [] = []"
  by (simp_all add: skip_whitespace_def ascii_whitespace_def)

lemma unary_space: "parse_unary n L (CHR '' '' # s) = parse_unary n L s" "parse_and n L (CHR '' '' # s) = parse_and n L s"
proof -
  show u: "parse_unary n L (CHR '' '' # s) = parse_unary n L s" for n by (cases n) (simp_all add: skip_space)
  show "parse_and n L (CHR '' '' # s) = parse_and n L s" by (cases n) (simp_all add: u)
qed

lemma and_of_unary:
  assumes "reads_unary L e" "prec e \<noteq> 1"
  shows "reads_and L e"
  unfolding reads_and_def
proof (intro allI impI conjI)
  fix r x t acc assume r: "sep r"
  have f: "fmt_with_prec e 1 = fmt_with_prec e 2" using assms(2) by (cases e) simp_all
  have u: "yields (\<lambda>n. parse_unary n L (fmt_with_prec e 2 @ r)) (left_chains e) r" using assms(1) r by (simp add: reads_unary_def)
  show "yields (\<lambda>n. parse_and n L (fmt_with_prec e 1 @ r)) x t" if "yields (\<lambda>n. and_loop n L (left_chains e) r) x t"
    unfolding f using yields_and [OF u that] .
  show "yields (\<lambda>n. and_loop n L acc ('' && '' @ fmt_with_prec e 1 @ r)) x t" if "yields (\<lambda>n. and_loop n L (and_append acc (left_chains e)) r) x t"
    unfolding f by (rule yields_and_step [where t = "CHR '' '' # fmt_with_prec e 2 @ r" and x = "left_chains e" and s' = r])
      (use u that assms(2) in \<open>simp_all add: skip_space unary_space append_other\<close>)
qed

lemma or_of_and:
  assumes "reads_and L e" "prec e \<noteq> 0"
  shows "reads_or L e"
  unfolding reads_or_def
proof (intro allI impI conjI)
  fix r x t acc assume r: "sep r" "\<not> starts_with ''&&'' (skip_whitespace r)"
  have f: "fmt_with_prec e 0 = fmt_with_prec e 1" using assms(2) by (cases e) simp_all
  have a: "yields (\<lambda>n. parse_and n L (fmt_with_prec e 1 @ r)) (left_chains e) (skip_whitespace r)"
    using assms(1) r yields_stop(2) [OF r(2)] by (simp add: reads_and_def)
  show "yields (\<lambda>n. parse_or n L (fmt_with_prec e 0 @ r)) x t" if "yields (\<lambda>n. or_loop n L (left_chains e) r) x t"
    unfolding f using yields_or [OF a] that by simp
  show "yields (\<lambda>n. or_loop n L acc ('' || '' @ fmt_with_prec e 0 @ r)) x t" if "yields (\<lambda>n. or_loop n L (or_append acc (left_chains e)) r) x t"
    unfolding f by (rule yields_or_step [where t = "CHR '' '' # fmt_with_prec e 1 @ r" and x = "left_chains e" and s' = "skip_whitespace r"])
      (use a that assms(2) in \<open>simp_all add: skip_space unary_space append_other\<close>)
qed

lemma unary_of_or:
  assumes "reads_or L e" "prec e < 2"
  shows "reads_unary L e"
  unfolding reads_unary_def
proof (intro allI impI)
  fix r
  have "yields (\<lambda>n. or_loop n L (left_chains e) ('')'' @ r)) (left_chains e) ('')'' @ r)"
    using yields_stop(1) [of "'')'' @ r" L "left_chains e"] by (simp add: skip_space starts_with_def)
  then have "yields (\<lambda>n. parse_or n L (fmt_with_prec e 0 @ '')'' @ r)) (left_chains e) ('')'' @ r)"
    using assms(1) by (simp add: reads_or_def skip_space starts_with_def sep_def name_char_def)
  then show "yields (\<lambda>n. parse_unary n L (fmt_with_prec e 2 @ r)) (left_chains e) r"
    using assms(2) by (intro yields_paren [where t = "fmt_with_prec e 0 @ '')'' @ r" and u = "'')'' @ r"]) (simp_all add: fmt_paren [of 2] skip_space)
qed

lemma printed_reads: "reads_unary L e \<and> reads_and L e \<and> reads_or L e"
proof (induction e)
  case (Atom a)
  have "reads_unary L (Atom a)" using yields_atom by (auto simp: reads_unary_def sep_def)
  then show ?case using and_of_unary or_of_and by simp
next
  case (Not e)
  have "reads_unary L (Not e)"
    using Not by (auto simp: reads_unary_def skip_space intro!: yields_not [where t = "fmt_with_prec e 2 @ r" for r])
  then show ?case using and_of_unary or_of_and by simp
next
  case (And l r)
  have s: "sep ('' && '' @ x)" for x by (simp add: sep_def name_char_def)
  have "reads_and L (And l r)" using And s unfolding reads_and_def by simp
  then show ?case using or_of_and unary_of_or by simp
next
  case (Or l r)
  have s: "sep ('' || '' @ x)" "\<not> starts_with ''&&'' (skip_whitespace ('' || '' @ x))" for x by (simp_all add: sep_def name_char_def skip_space starts_with_def)
  have "reads_or L (Or l r)" using Or s unfolding reads_or_def by simp
  then show ?case using and_of_unary unary_of_or by simp
qed

section \<open>Properties\<close>

text \<open>
  C37: conditions read back: whatever the expression, its printed form parses, and the result has the same value in every state and prints the same. It is the same
  expression unless that has a chain of one operator nested to the right, which is read from the left.
\<close>

theorem condition_roundtrip:
  "condition_parse (condition_to_string e) = Some (Inr (left_chains e)) \<and> (\<forall>ctx. evaluate (left_chains e) ctx = evaluate e ctx)
    \<and> condition_to_string (left_chains e) = condition_to_string e"
proof -
  let ?s = "fmt_with_prec e 0" and ?L = "length (fmt_with_prec e 0)"
  have "yields (\<lambda>n. or_loop n ?L (left_chains e) []) (left_chains e) []"
    using yields_stop(1) [of "[]" ?L "left_chains e"] by (simp add: skip_space starts_with_def)
  then have "yields (\<lambda>n. parse_or n ?L ?s) (left_chains e) []"
    using printed_reads [of ?L e] by (auto simp: reads_or_def sep_def skip_space starts_with_def dest: spec [where x = "[]"])
  then obtain n where n: "parse_or n ?L ?s = Some (Inr (left_chains e, []))" by (auto simp: yields_def)
  obtain x where x: "parse_or (4 * ?L + 4) ?L ?s = Some x"
    using parser_boundsD(1) [OF parser_ends [of "4 * ?L + 4" ?L], of ?s] by (auto simp: ends_within_def)
  have "x = Inr (left_chains e, [])"
    using parser_stable(1) [OF n, of "max n (4 * ?L + 4)"] parser_stable(1) [OF x, of "max n (4 * ?L + 4)"] by simp
  then have "condition_parse ?s = Some (Inr (left_chains e))" using x by (simp add: condition_parse_def skip_space)
  then show ?thesis by (simp add: condition_to_string_def left_chains_evaluate left_chains_fmt)
qed

text \<open>
  the parser of conditions ends on every text.
\<close>

theorem condition_parser_total: "\<exists>r. condition_parse s = Some r"
  by (rule condition_parse_total)

end
