(* ===== verification/Tui_Keys.thy ===== *)
theory Tui_Keys
  imports Tui_Cursor Tui_Conditions "HOL-Library.AList"
begin

text \<open>
  Key bindings of the interactive search, \<open>atuin/src/command/client/search/keybindings/\<close>: keys and their names (\<open>key.rs\<close>), actions (\<open>actions.rs\<close>),
  keymaps (\<open>keymap.rs\<close>), the default keymaps and the user's overrides (\<open>defaults.rs\<close>), with the settings they read (\<open>atuin-client/src/settings.rs\<close>).

  Key events are those of the crossterm package, as data. A keymap is a hash map, as a list of pairs with one entry for a key. A default key that
  does not parse is a panic, \<open>None\<close>. Lower case is Unicode's: of the letters outside ASCII only the Kelvin sign and the capital I with dot have ASCII in their lower case,
  and the others, which equal no name in either case, are kept.

  Shown: which keys have a name that reads back as the key, and that actions read back; when the default keymaps are built; that escape always leaves
  the search or vim's insert mode; which prefix keys are bound again and so lost; that an override changes the key it names only.
\<close>

section \<open>Keys\<close>

datatype MediaKeyCode =
  Play | Pause | Reverse | PlayPause | Stop | FastForward | Rewind | TrackNext | TrackPrevious | Record | LowerVolume | RaiseVolume | MuteVolume

datatype (plugins only: code size) KeyCodeValue =
    KChar rchar | KEnter | KEsc | KTab | KBackspace | KDelete | KInsert | KUp | KDown | KLeft | KRight | KHome | KEnd | KPageUp | KPageDown | KSpace | KF nat
  | KMedia MediaKeyCode

record SingleKey =
  key_code :: KeyCodeValue
  key_ctrl :: bool
  key_alt :: bool
  key_shift :: bool
  key_super :: bool

datatype KeyInput = Single SingleKey | Sequence "SingleKey list"

text \<open>Crossterm's events.\<close>

datatype (plugins only: code size) KeyCode =
    EvChar rchar | EvEnter | EvEsc | EvTab | EvBackTab | EvBackspace | EvDelete | EvInsert | EvUp | EvDown | EvLeft | EvRight | EvHome | EvEnd | EvPageUp | EvPageDown
  | EvF nat | EvMedia MediaKeyCode | EvOther

datatype KeyEventKind = Press | Repeat | Release

record KeyEvent =
  ev_code :: KeyCode
  ev_control :: bool
  ev_alt :: bool
  ev_shift :: bool
  ev_super :: bool
  ev_kind :: KeyEventKind

definition ascii_char :: "char \<Rightarrow> rchar" where
  "ascii_char c = (c, [])"

definition is_ascii_uppercase :: "rchar \<Rightarrow> bool" where
  "is_ascii_uppercase g \<longleftrightarrow> 65 \<le> (of_char (fst g) :: nat) \<and> (of_char (fst g) :: nat) \<le> 90"

definition event_code :: "KeyCode \<Rightarrow> KeyCodeValue option" where
  "event_code k =
     (case k of
        EvChar c \<Rightarrow> Some (if c = ascii_char CHR '' '' then KSpace else KChar c)
      | EvEnter \<Rightarrow> Some KEnter | EvEsc \<Rightarrow> Some KEsc | EvTab \<Rightarrow> Some KTab | EvBackTab \<Rightarrow> Some KTab | EvBackspace \<Rightarrow> Some KBackspace
      | EvDelete \<Rightarrow> Some KDelete | EvInsert \<Rightarrow> Some KInsert | EvUp \<Rightarrow> Some KUp | EvDown \<Rightarrow> Some KDown | EvLeft \<Rightarrow> Some KLeft | EvRight \<Rightarrow> Some KRight
      | EvHome \<Rightarrow> Some KHome | EvEnd \<Rightarrow> Some KEnd | EvPageUp \<Rightarrow> Some KPageUp | EvPageDown \<Rightarrow> Some KPageDown | EvF n \<Rightarrow> Some (KF n)
      | EvMedia m \<Rightarrow> Some (KMedia m) | EvOther \<Rightarrow> None)"

definition from_event :: "KeyEvent \<Rightarrow> SingleKey option" where
  "from_event ev =
     (let ctrl = ev_control ev; alt = ev_alt ev; shift = ev_shift ev; super_key = ev_super ev
      in case event_code (ev_code ev) of
           None \<Rightarrow> None
         | Some kc \<Rightarrow>
             (case kc of
                KChar c \<Rightarrow>
                  if shift \<and> \<not> ctrl \<and> \<not> alt \<and> \<not> super_key \<and> is_ascii_uppercase c
                  then Some \<lparr>key_code = KChar c, key_ctrl = False, key_alt = False, key_shift = False, key_super = False\<rparr>
                  else Some \<lparr>key_code = kc, key_ctrl = ctrl, key_alt = alt, key_shift = False, key_super = super_key\<rparr>
              | _ \<Rightarrow>
                  if ev_code ev = EvBackTab
                  then Some \<lparr>key_code = KTab, key_ctrl = ctrl, key_alt = alt, key_shift = True, key_super = super_key\<rparr>
                  else Some \<lparr>key_code = kc, key_ctrl = ctrl, key_alt = alt, key_shift = shift, key_super = super_key\<rparr>))"

section \<open>Names of keys\<close>

definition lower_char :: "rchar \<Rightarrow> string" where
  "lower_char g =
     (if is_ascii_uppercase g then [char_of ((of_char (fst g) :: nat) + 32)]
      else if g = (CHR 0xE2, [CHR 0x84, CHR 0xAA]) then ''k''
      else if g = (CHR 0xC4, [CHR 0xB0]) then [CHR ''i'', CHR 0xCC, CHR 0x87]
      else fst g # snd g)"

definition to_lowercase :: "string \<Rightarrow> string" where
  "to_lowercase s = concat (map lower_char (char_bytes s))"

definition parse_u8 :: "string \<Rightarrow> nat option" where
  "parse_u8 s =
     (let d = (case s of [] \<Rightarrow> [] | c # r \<Rightarrow> if c = CHR ''+'' then r else s)
      in if d = [] \<or> \<not> list_all (\<lambda>c. 48 \<le> (of_char c :: nat) \<and> (of_char c :: nat) \<le> 57) d then None
         else (let n = foldl (\<lambda>n c. 10 * n + (of_char c - 48)) 0 d in if n \<le> 255 then Some n else None))"

datatype key_error = UnknownModifier string | FunctionKeyOutOfRange string | UnknownKey string | UnknownAction string | BadCondition expr_error

text \<open>The names before the arm of the function keys, and those after it.\<close>

definition early_names :: "(string \<times> KeyCodeValue) list" where
  "early_names =
     [(''enter'', KEnter), (''return'', KEnter), (''esc'', KEsc), (''escape'', KEsc), (''tab'', KTab), (''backspace'', KBackspace), (''delete'', KDelete), (''del'', KDelete),
      (''insert'', KInsert), (''ins'', KInsert), (''up'', KUp), (''down'', KDown), (''left'', KLeft), (''right'', KRight), (''home'', KHome), (''end'', KEnd),
      (''pageup'', KPageUp), (''pagedown'', KPageDown), (''space'', KSpace)]"

definition late_names :: "(string \<times> KeyCodeValue) list" where
  "late_names =
     [(''['', KChar (ascii_char CHR ''['')), ('']'', KChar (ascii_char CHR '']'')), (''?'', KChar (ascii_char CHR ''?'')), (''/'', KChar (ascii_char CHR ''/'')),
      (''$'', KChar (ascii_char CHR ''$'')), (''play'', KMedia Play), (''pause'', KMedia Pause), (''playpause'', KMedia PlayPause), (''stop'', KMedia Stop),
      (''fastforward'', KMedia FastForward), (''rewind'', KMedia Rewind), (''tracknext'', KMedia TrackNext), (''trackprevious'', KMedia TrackPrevious),
      (''record'', KMedia Record), (''lowervolume'', KMedia LowerVolume), (''raisevolume'', KMedia RaiseVolume), (''mutevolume'', KMedia MuteVolume), (''mute'', KMedia MuteVolume)]"

definition set_modifier :: "string \<Rightarrow> SingleKey \<Rightarrow> key_error + SingleKey" where
  "set_modifier part k =
     (let m = to_lowercase part
      in if m = ''ctrl'' then Inr (k\<lparr>key_ctrl := True\<rparr>)
         else if m = ''alt'' then Inr (k\<lparr>key_alt := True\<rparr>)
         else if m = ''shift'' then Inr (k\<lparr>key_shift := True\<rparr>)
         else if m = ''super'' \<or> m = ''cmd'' \<or> m = ''win'' then Inr (k\<lparr>key_super := True\<rparr>)
         else Inl (UnknownModifier part))"

fun set_modifiers :: "string list \<Rightarrow> SingleKey \<Rightarrow> key_error + SingleKey" where
  "set_modifiers [] k = Inr k"
| "set_modifiers (p # ps) k = (case set_modifier p k of Inl e \<Rightarrow> Inl e | Inr k \<Rightarrow> set_modifiers ps k)"

definition plain_key :: "KeyCodeValue \<Rightarrow> SingleKey" where
  "plain_key c = \<lparr>key_code = c, key_ctrl = False, key_alt = False, key_shift = False, key_super = False\<rparr>"

definition parse_key_part :: "string \<Rightarrow> SingleKey \<Rightarrow> key_error + SingleKey" where
  "parse_key_part key_part k =
     (let s = to_lowercase key_part
      in case map_of early_names s of
           Some c \<Rightarrow> Inr (k\<lparr>key_code := c\<rparr>)
         | None \<Rightarrow>
             if starts_with ''f'' s \<and> length s > 1
             then (case parse_u8 (tl s) of
                     Some n \<Rightarrow> if 1 \<le> n \<and> n \<le> 24 then Inr (k\<lparr>key_code := KF n\<rparr>) else Inl (FunctionKeyOutOfRange key_part)
                   | None \<Rightarrow> Inl (UnknownKey key_part))
             else (case map_of late_names s of
                     Some c \<Rightarrow> Inr (k\<lparr>key_code := c\<rparr>)
                   | None \<Rightarrow>
                       (case char_bytes key_part of
                          [c] \<Rightarrow>
                            if is_ascii_uppercase c \<and> \<not> key_ctrl k \<and> \<not> key_alt k \<and> \<not> key_super k then Inr (plain_key (KChar c))
                            else Inr (k\<lparr>key_code := KChar c\<rparr>)
                        | _ \<Rightarrow> Inl (UnknownKey key_part))))"

definition single_parse :: "string \<Rightarrow> key_error + SingleKey" where
  "single_parse s =
     (let parts = split_on (\<lambda>c. c = CHR ''-'') (trim s)
      in case set_modifiers (butlast parts) (plain_key KSpace) of
           Inl e \<Rightarrow> Inl e
         | Inr k \<Rightarrow> parse_key_part (last parts) k)"

fun media_name :: "MediaKeyCode \<Rightarrow> string" where
  "media_name Play = ''play''"
| "media_name Pause = ''media-pause''"
| "media_name PlayPause = ''playpause''"
| "media_name Stop = ''stop''"
| "media_name FastForward = ''fastforward''"
| "media_name Rewind = ''rewind''"
| "media_name TrackNext = ''tracknext''"
| "media_name TrackPrevious = ''trackprevious''"
| "media_name Record = ''record''"
| "media_name LowerVolume = ''lowervolume''"
| "media_name RaiseVolume = ''raisevolume''"
| "media_name MuteVolume = ''mutevolume''"
| "media_name Reverse = ''reverse''"

fun code_name :: "KeyCodeValue \<Rightarrow> string" where
  "code_name (KChar c) = fst c # snd c"
| "code_name KEnter = ''enter''"
| "code_name KEsc = ''esc''"
| "code_name KTab = ''tab''"
| "code_name KBackspace = ''backspace''"
| "code_name KDelete = ''delete''"
| "code_name KInsert = ''insert''"
| "code_name KUp = ''up''"
| "code_name KDown = ''down''"
| "code_name KLeft = ''left''"
| "code_name KRight = ''right''"
| "code_name KHome = ''home''"
| "code_name KEnd = ''end''"
| "code_name KPageUp = ''pageup''"
| "code_name KPageDown = ''pagedown''"
| "code_name KSpace = ''space''"
| "code_name (KF n) = ''f'' @ show_nat n"
| "code_name (KMedia m) = media_name m"

definition single_to_string :: "SingleKey \<Rightarrow> string" where
  "single_to_string k =
     (if key_super k then ''super-'' else []) @ (if key_ctrl k then ''ctrl-'' else []) @ (if key_alt k then ''alt-'' else [])
     @ (if key_shift k then ''shift-'' else []) @ code_name (key_code k)"

definition input_parse :: "string \<Rightarrow> key_error + KeyInput" where
  "input_parse s =
     (let s = trim s; parts = split_whitespace s
      in if length parts > 1
         then (case collect_results (map single_parse parts) of Inl e \<Rightarrow> Inl e | Inr ks \<Rightarrow> Inr (Sequence ks))
         else (case single_parse s of Inl e \<Rightarrow> Inl e | Inr k \<Rightarrow> Inr (Single k)))"

fun input_to_string :: "KeyInput \<Rightarrow> string" where
  "input_to_string (Single k) = single_to_string k"
| "input_to_string (Sequence ks) = join_with '' '' (map single_to_string ks)"

section \<open>Actions\<close>

datatype (plugins only: code size) Action =
    CursorLeft | CursorRight | CursorWordLeft | CursorWordRight | CursorWordEnd | CursorStart | CursorEnd | DeleteCharBefore |
    DeleteCharAfter | DeleteWordBefore | DeleteWordAfter | DeleteToWordBoundary | ClearLine | ClearToStart | ClearToEnd | SelectNext |
    SelectPrevious | ScrollHalfPageUp | ScrollHalfPageDown | ScrollPageUp | ScrollPageDown | ScrollToTop | ScrollToBottom |
    ScrollToScreenTop | ScrollToScreenMiddle | ScrollToScreenBottom | Accept | AcceptNth nat | ReturnSelection | ReturnSelectionNth nat |
    Copy | Delete | DeleteAll | ReturnOriginal | ReturnQuery | Exit | Redraw | CycleFilterMode | CycleSearchMode | SwitchContext |
    ClearContext | ToggleTab | VimEnterNormal | VimEnterInsert | VimEnterInsertAfter | VimEnterInsertAtStart | VimEnterInsertAtEnd |
    VimSearchInsert | VimChangeToEnd | EnterPrefixMode | InspectPrevious | InspectNext | Noop

fun action_as_str :: "Action \<Rightarrow> string" where
  "action_as_str CursorLeft = ''cursor-left''"
| "action_as_str CursorRight = ''cursor-right''"
| "action_as_str CursorWordLeft = ''cursor-word-left''"
| "action_as_str CursorWordRight = ''cursor-word-right''"
| "action_as_str CursorWordEnd = ''cursor-word-end''"
| "action_as_str CursorStart = ''cursor-start''"
| "action_as_str CursorEnd = ''cursor-end''"
| "action_as_str DeleteCharBefore = ''delete-char-before''"
| "action_as_str DeleteCharAfter = ''delete-char-after''"
| "action_as_str DeleteWordBefore = ''delete-word-before''"
| "action_as_str DeleteWordAfter = ''delete-word-after''"
| "action_as_str DeleteToWordBoundary = ''delete-to-word-boundary''"
| "action_as_str ClearLine = ''clear-line''"
| "action_as_str ClearToStart = ''clear-to-start''"
| "action_as_str ClearToEnd = ''clear-to-end''"
| "action_as_str SelectNext = ''select-next''"
| "action_as_str SelectPrevious = ''select-previous''"
| "action_as_str ScrollHalfPageUp = ''scroll-half-page-up''"
| "action_as_str ScrollHalfPageDown = ''scroll-half-page-down''"
| "action_as_str ScrollPageUp = ''scroll-page-up''"
| "action_as_str ScrollPageDown = ''scroll-page-down''"
| "action_as_str ScrollToTop = ''scroll-to-top''"
| "action_as_str ScrollToBottom = ''scroll-to-bottom''"
| "action_as_str ScrollToScreenTop = ''scroll-to-screen-top''"
| "action_as_str ScrollToScreenMiddle = ''scroll-to-screen-middle''"
| "action_as_str ScrollToScreenBottom = ''scroll-to-screen-bottom''"
| "action_as_str Accept = ''accept''"
| "action_as_str (AcceptNth n) = ''accept-'' @ show_nat n"
| "action_as_str ReturnSelection = ''return-selection''"
| "action_as_str (ReturnSelectionNth n) = ''return-selection-'' @ show_nat n"
| "action_as_str Copy = ''copy''"
| "action_as_str Delete = ''delete''"
| "action_as_str DeleteAll = ''delete-all''"
| "action_as_str ReturnOriginal = ''return-original''"
| "action_as_str ReturnQuery = ''return-query''"
| "action_as_str Exit = ''exit''"
| "action_as_str Redraw = ''redraw''"
| "action_as_str CycleFilterMode = ''cycle-filter-mode''"
| "action_as_str CycleSearchMode = ''cycle-search-mode''"
| "action_as_str SwitchContext = ''switch-context''"
| "action_as_str ClearContext = ''clear-context''"
| "action_as_str ToggleTab = ''toggle-tab''"
| "action_as_str VimEnterNormal = ''vim-enter-normal''"
| "action_as_str VimEnterInsert = ''vim-enter-insert''"
| "action_as_str VimEnterInsertAfter = ''vim-enter-insert-after''"
| "action_as_str VimEnterInsertAtStart = ''vim-enter-insert-at-start''"
| "action_as_str VimEnterInsertAtEnd = ''vim-enter-insert-at-end''"
| "action_as_str VimSearchInsert = ''vim-search-insert''"
| "action_as_str VimChangeToEnd = ''vim-change-to-end''"
| "action_as_str EnterPrefixMode = ''enter-prefix-mode''"
| "action_as_str InspectPrevious = ''inspect-previous''"
| "action_as_str InspectNext = ''inspect-next''"
| "action_as_str Noop = ''noop''"

definition action_names :: "(string \<times> Action) list" where
  "action_names =
    [(''cursor-left'', CursorLeft),
     (''cursor-right'', CursorRight),
     (''cursor-word-left'', CursorWordLeft),
     (''cursor-word-right'', CursorWordRight),
     (''cursor-word-end'', CursorWordEnd),
     (''cursor-start'', CursorStart),
     (''cursor-end'', CursorEnd),
     (''delete-char-before'', DeleteCharBefore),
     (''delete-char-after'', DeleteCharAfter),
     (''delete-word-before'', DeleteWordBefore),
     (''delete-word-after'', DeleteWordAfter),
     (''delete-to-word-boundary'', DeleteToWordBoundary),
     (''clear-line'', ClearLine),
     (''clear-to-start'', ClearToStart),
     (''clear-to-end'', ClearToEnd),
     (''select-next'', SelectNext),
     (''select-previous'', SelectPrevious),
     (''scroll-half-page-up'', ScrollHalfPageUp),
     (''scroll-half-page-down'', ScrollHalfPageDown),
     (''scroll-page-up'', ScrollPageUp),
     (''scroll-page-down'', ScrollPageDown),
     (''scroll-to-top'', ScrollToTop),
     (''scroll-to-bottom'', ScrollToBottom),
     (''scroll-to-screen-top'', ScrollToScreenTop),
     (''scroll-to-screen-middle'', ScrollToScreenMiddle),
     (''scroll-to-screen-bottom'', ScrollToScreenBottom),
     (''accept'', Accept),
     (''return-selection'', ReturnSelection),
     (''copy'', Copy),
     (''delete'', Delete),
     (''delete-all'', DeleteAll),
     (''return-original'', ReturnOriginal),
     (''return-query'', ReturnQuery),
     (''exit'', Exit),
     (''redraw'', Redraw),
     (''cycle-filter-mode'', CycleFilterMode),
     (''cycle-search-mode'', CycleSearchMode),
     (''switch-context'', SwitchContext),
     (''clear-context'', ClearContext),
     (''toggle-tab'', ToggleTab),
     (''vim-enter-normal'', VimEnterNormal),
     (''vim-enter-insert'', VimEnterInsert),
     (''vim-enter-insert-after'', VimEnterInsertAfter),
     (''vim-enter-insert-at-start'', VimEnterInsertAtStart),
     (''vim-enter-insert-at-end'', VimEnterInsertAtEnd),
     (''vim-search-insert'', VimSearchInsert),
     (''vim-change-to-end'', VimChangeToEnd),
     (''enter-prefix-mode'', EnterPrefixMode),
     (''inspect-previous'', InspectPrevious),
     (''inspect-next'', InspectNext),
     (''noop'', Noop)]"

definition strip_str :: "string \<Rightarrow> string \<Rightarrow> string option" where
  "strip_str p s = (if starts_with p s then Some (drop (length p) s) else None)"

definition nth_of :: "string \<Rightarrow> string \<Rightarrow> nat option" where
  "nth_of p s = (case Option.bind (strip_str p s) parse_u8 of Some n \<Rightarrow> if 1 \<le> n \<and> n \<le> 9 then Some n else None | None \<Rightarrow> None)"

definition action_from_str :: "string \<Rightarrow> Action option" where
  "action_from_str s =
     (case nth_of ''accept-'' s of
        Some n \<Rightarrow> Some (AcceptNth n)
      | None \<Rightarrow> (case nth_of ''return-selection-'' s of Some n \<Rightarrow> Some (ReturnSelectionNth n) | None \<Rightarrow> map_of action_names s))"

section \<open>Keymaps\<close>

record KeyRule =
  rule_condition :: "ConditionExpr option"
  rule_action :: Action

type_synonym KeyBinding = "KeyRule list"

type_synonym Keymap = "(KeyInput \<times> KeyBinding) list"

definition always :: "Action \<Rightarrow> KeyRule" where
  "always a = \<lparr>rule_condition = None, rule_action = a\<rparr>"

definition when_atom :: "ConditionAtom \<Rightarrow> Action \<Rightarrow> KeyRule" where
  "when_atom c a = \<lparr>rule_condition = Some (Atom c), rule_action = a\<rparr>"

definition km_bind_conditional :: "KeyInput \<Rightarrow> KeyRule list \<Rightarrow> Keymap \<Rightarrow> Keymap" where
  "km_bind_conditional k rules km = AList.update k rules km"

definition km_bind :: "KeyInput \<Rightarrow> Action \<Rightarrow> Keymap \<Rightarrow> Keymap" where
  "km_bind k a km = km_bind_conditional k [always a] km"

fun first_rule :: "KeyRule list \<Rightarrow> EvalContext \<Rightarrow> Action option" where
  "first_rule [] ctx = None"
| "first_rule (r # rs) ctx =
     (case rule_condition r of
        None \<Rightarrow> Some (rule_action r)
      | Some cond \<Rightarrow> if evaluate cond ctx then Some (rule_action r) else first_rule rs ctx)"

definition km_resolve :: "Keymap \<Rightarrow> KeyInput \<Rightarrow> EvalContext \<Rightarrow> Action option" where
  "km_resolve km k ctx = (case map_of km k of None \<Rightarrow> None | Some rules \<Rightarrow> first_rule rules ctx)"

definition has_sequence_starting_with :: "Keymap \<Rightarrow> SingleKey \<Rightarrow> bool" where
  "has_sequence_starting_with km k =
     list_ex (\<lambda>(ki, _). case ki of Sequence ks \<Rightarrow> (case ks of [] \<Rightarrow> False | k' # _ \<Rightarrow> k' = k) | Single _ \<Rightarrow> False) km"

definition km_merge :: "Keymap \<Rightarrow> Keymap \<Rightarrow> Keymap" where
  "km_merge km other = foldl (\<lambda>km (k, b). AList.update k b km) km other"

section \<open>The default keymaps\<close>

record Keys =
  scroll_exits :: bool
  exit_past_line_start :: bool
  accept_past_line_end :: bool
  accept_past_line_start :: bool
  accept_with_backspace :: bool
  keys_prefix :: string

definition standard_defaults :: Keys where
  "standard_defaults =
     \<lparr>scroll_exits = True, exit_past_line_start = True, accept_past_line_end = True, accept_past_line_start = False, accept_with_backspace = False,
      keys_prefix = ''a''\<rparr>"

datatype KeymapMode = KmEmacs | KmVimNormal | KmVimInsert | KmAuto

datatype KeyBindingConfig = Simple string | Rules "(string option \<times> string) list"

type_synonym key_overrides = "(string \<times> KeyBindingConfig) list"

record KeymapConfig =
  cfg_emacs :: key_overrides
  cfg_vim_normal :: key_overrides
  cfg_vim_insert :: key_overrides
  cfg_inspector :: key_overrides
  cfg_prefix :: key_overrides

record key_settings =
  set_keys :: Keys
  set_invert :: bool
  ctrl_n_shortcuts :: bool
  enter_accept :: bool
  keymap_mode :: KeymapMode
  set_keymap :: KeymapConfig

text \<open>A default binding: the text of its key and its rules; a keymap is built from them in order.\<close>

type_synonym default_binding = "string \<times> KeyRule list"

fun bind_all :: "default_binding list \<Rightarrow> Keymap \<Rightarrow> Keymap option" where
  "bind_all [] km = Some km"
| "bind_all ((s, rules) # bs) km = (case input_parse s of Inl e \<Rightarrow> None | Inr k \<Rightarrow> bind_all bs (km_bind_conditional k rules km))"

definition bind_to :: "string \<Rightarrow> Action \<Rightarrow> default_binding" where
  "bind_to s a = (s, [always a])"

definition bind_scroll_key :: "string \<Rightarrow> Action \<Rightarrow> bool \<Rightarrow> bool \<Rightarrow> default_binding" where
  "bind_scroll_key s a toward_index_zero exits =
     (if exits \<and> toward_index_zero then (s, [when_atom ListAtStart Exit, always a]) else bind_to s a)"

definition common_bindings :: "default_binding list" where
  "common_bindings = [bind_to ''ctrl-c'' ReturnOriginal, bind_to ''ctrl-g'' ReturnOriginal, bind_to ''ctrl-o'' ToggleTab, bind_to ''tab'' ReturnSelection]"

definition accept_action :: "key_settings \<Rightarrow> Action" where
  "accept_action S = (if enter_accept S then Accept else ReturnSelection)"

definition prefix_char :: "key_settings \<Rightarrow> rchar" where
  "prefix_char S = (case char_bytes (keys_prefix (set_keys S)) of [] \<Rightarrow> ascii_char CHR ''a'' | c # _ \<Rightarrow> c)"

definition prefix_binding :: "key_settings \<Rightarrow> default_binding" where
  "prefix_binding S = bind_to (''ctrl-'' @ fst (prefix_char S) # snd (prefix_char S)) EnterPrefixMode"

definition default_emacs_keymap :: "key_settings \<Rightarrow> default_binding list" where
  "default_emacs_keymap S =
     common_bindings
     @ [bind_to ''esc'' Exit, bind_to ''ctrl-['' Exit, prefix_binding S]
     @ [if accept_past_line_end (set_keys S) then (''right'', [when_atom CursorAtEnd ReturnSelection, always CursorRight]) else bind_to ''right'' CursorRight]
     @ [if accept_past_line_start (set_keys S) then (''left'', [when_atom CursorAtStart ReturnSelection, always CursorLeft])
        else if exit_past_line_start (set_keys S) then (''left'', [when_atom CursorAtStart Exit, always CursorLeft])
        else bind_to ''left'' CursorLeft]
     @ [bind_scroll_key ''down'' SelectNext (\<not> set_invert S) (scroll_exits (set_keys S)), bind_scroll_key ''up'' SelectPrevious (set_invert S) (scroll_exits (set_keys S))]
     @ [if accept_with_backspace (set_keys S) then (''backspace'', [when_atom CursorAtStart ReturnSelection, always DeleteCharBefore])
        else bind_to ''backspace'' DeleteCharBefore]
     @ [bind_to ''enter'' (accept_action S), bind_to ''ctrl-m'' (accept_action S), bind_to ''ctrl-y'' Copy]
     @ map (\<lambda>n. bind_to ((if ctrl_n_shortcuts S then ''ctrl'' else ''alt'') @ ''-'' @ show_nat n) (ReturnSelectionNth n)) [1..<10]
     @ [bind_to ''ctrl-left'' CursorWordLeft, bind_to ''alt-b'' CursorWordLeft, bind_to ''ctrl-b'' CursorLeft, bind_to ''ctrl-right'' CursorWordRight,
        bind_to ''alt-f'' CursorWordRight, bind_to ''ctrl-f'' CursorRight, bind_to ''home'' CursorStart]
     @ (if prefix_char S \<noteq> ascii_char CHR ''a'' then [bind_to ''ctrl-a'' CursorStart] else [])
     @ [bind_to ''ctrl-e'' CursorEnd, bind_to ''end'' CursorEnd, bind_to ''ctrl-backspace'' DeleteWordBefore, bind_to ''alt-backspace'' DeleteWordBefore,
        bind_to ''ctrl-h'' DeleteCharBefore, bind_to ''ctrl-?'' DeleteCharBefore, bind_to ''ctrl-delete'' DeleteWordAfter, bind_to ''alt-d'' DeleteWordAfter,
        bind_to ''delete'' DeleteCharAfter, (''ctrl-d'', [when_atom InputEmpty ReturnOriginal, always DeleteCharAfter]), bind_to ''ctrl-w'' DeleteToWordBoundary,
        bind_to ''ctrl-u'' ClearLine, bind_to ''ctrl-r'' CycleFilterMode, bind_to ''ctrl-s'' CycleSearchMode, bind_to ''ctrl-n'' SelectNext, bind_to ''ctrl-j'' SelectNext,
        bind_to ''ctrl-p'' SelectPrevious, bind_to ''ctrl-k'' SelectPrevious, bind_to ''ctrl-l'' Redraw, bind_to ''pagedown'' ScrollPageDown, bind_to ''pageup'' ScrollPageUp]"

definition default_vim_normal_keymap :: "key_settings \<Rightarrow> default_binding list" where
  "default_vim_normal_keymap S =
     common_bindings
     @ [bind_to ''esc'' Exit, bind_to ''ctrl-['' Exit, prefix_binding S]
     @ [bind_scroll_key ''j'' SelectNext (\<not> set_invert S) (scroll_exits (set_keys S)), bind_scroll_key ''k'' SelectPrevious (set_invert S) (scroll_exits (set_keys S)),
        bind_to ''h'' CursorLeft, bind_to ''l'' CursorRight, bind_to ''0'' CursorStart, bind_to ''$'' CursorEnd, bind_to ''w'' CursorWordRight, bind_to ''b'' CursorWordLeft,
        bind_to ''e'' CursorWordEnd, bind_to ''x'' DeleteCharAfter, bind_to ''d d'' ClearLine, bind_to ''D'' ClearToEnd, bind_to ''C'' VimChangeToEnd,
        bind_to ''?'' VimSearchInsert, bind_to ''/'' VimSearchInsert, bind_to ''a'' VimEnterInsertAfter, bind_to ''A'' VimEnterInsertAtEnd, bind_to ''i'' VimEnterInsert,
        bind_to ''I'' VimEnterInsertAtStart]
     @ map (\<lambda>n. bind_to (show_nat n) (ReturnSelectionNth n)) [1..<10]
     @ [bind_to ''ctrl-u'' ScrollHalfPageUp, bind_to ''ctrl-d'' ScrollHalfPageDown, bind_to ''ctrl-b'' ScrollPageUp, bind_to ''ctrl-f'' ScrollPageDown,
        bind_to ''G'' ScrollToBottom, bind_to ''g g'' ScrollToTop, bind_to ''H'' ScrollToScreenTop, bind_to ''M'' ScrollToScreenMiddle, bind_to ''L'' ScrollToScreenBottom,
        bind_scroll_key ''down'' SelectNext (\<not> set_invert S) (scroll_exits (set_keys S)), bind_scroll_key ''up'' SelectPrevious (set_invert S) (scroll_exits (set_keys S)),
        bind_to ''pagedown'' ScrollPageDown, bind_to ''pageup'' ScrollPageUp, bind_to ''enter'' (accept_action S)]"

definition default_vim_insert_keymap :: "key_settings \<Rightarrow> default_binding list" where
  "default_vim_insert_keymap S = default_emacs_keymap S @ [bind_to ''esc'' VimEnterNormal, bind_to ''ctrl-['' VimEnterNormal]"

definition default_inspector_keymap :: "key_settings \<Rightarrow> default_binding list" where
  "default_inspector_keymap S =
     [bind_to ''ctrl-c'' ReturnOriginal, bind_to ''ctrl-g'' ReturnOriginal, bind_to ''esc'' Exit, bind_to ''ctrl-['' Exit, bind_to ''tab'' ReturnSelection,
      bind_to ''ctrl-o'' ToggleTab, prefix_binding S, bind_to ''enter'' (accept_action S), bind_to ''ctrl-d'' Delete, bind_to ''up'' InspectPrevious,
      bind_to ''down'' InspectNext, bind_to ''pageup'' InspectPrevious, bind_to ''pagedown'' InspectNext]
     @ (if keymap_mode S = KmVimNormal \<or> keymap_mode S = KmVimInsert then [bind_to ''j'' InspectNext, bind_to ''k'' InspectPrevious] else [])"

definition default_prefix_keymap :: "default_binding list" where
  "default_prefix_keymap =
     [bind_to ''d'' Delete, bind_to ''D'' DeleteAll, bind_to ''a'' CursorStart, (''c'', [when_atom HasContext ClearContext, always SwitchContext])]"

record KeymapSet =
  ks_emacs :: Keymap
  ks_vim_normal :: Keymap
  ks_vim_insert :: Keymap
  ks_inspector :: Keymap
  ks_prefix :: Keymap

definition keymaps_defaults :: "key_settings \<Rightarrow> KeymapSet option" where
  "keymaps_defaults S =
     (case (bind_all (default_emacs_keymap S) [], bind_all (default_vim_normal_keymap S) [], bind_all (default_vim_insert_keymap S) [],
            bind_all (default_inspector_keymap S) [], bind_all default_prefix_keymap []) of
        (Some e, Some n, Some i, Some s, Some p) \<Rightarrow> Some \<lparr>ks_emacs = e, ks_vim_normal = n, ks_vim_insert = i, ks_inspector = s, ks_prefix = p\<rparr>
      | _ \<Rightarrow> None)"

section \<open>Overrides\<close>

fun parse_rules :: "(string option \<times> string) list \<Rightarrow> key_error + KeyRule list" where
  "parse_rules [] = Inr []"
| "parse_rules ((cond, action) # rs) =
     (case action_from_str action of
        None \<Rightarrow> Inl (UnknownAction action)
      | Some a \<Rightarrow>
          (case (case cond of
                   None \<Rightarrow> Inr (always a)
                 | Some s \<Rightarrow> (case condition_parse s of
                     Some (Inr e) \<Rightarrow> Inr \<lparr>rule_condition = Some e, rule_action = a\<rparr>
                   | Some (Inl e) \<Rightarrow> Inl (BadCondition e)
                   | None \<Rightarrow> Inl (BadCondition (ExpectedName 0)))) of
             Inl e \<Rightarrow> Inl e
           | Inr rule \<Rightarrow> (case parse_rules rs of Inl e \<Rightarrow> Inl e | Inr rules \<Rightarrow> Inr (rule # rules))))"

definition parse_binding_config :: "KeyBindingConfig \<Rightarrow> key_error + KeyBinding" where
  "parse_binding_config cfg =
     (case cfg of
        Simple action \<Rightarrow> (case action_from_str action of None \<Rightarrow> Inl (UnknownAction action) | Some a \<Rightarrow> Inr [always a])
      | Rules rules \<Rightarrow> parse_rules rules)"

text \<open>The overrides are a hash map: their order is that of the argument.\<close>

fun apply_config_to_keymap :: "key_overrides \<Rightarrow> Keymap \<Rightarrow> Keymap" where
  "apply_config_to_keymap [] km = km"
| "apply_config_to_keymap ((key_str, cfg) # os) km =
     (case input_parse key_str of
        Inl _ \<Rightarrow> apply_config_to_keymap os km
      | Inr k \<Rightarrow> (case parse_binding_config cfg of
          Inl _ \<Rightarrow> apply_config_to_keymap os km
        | Inr b \<Rightarrow> apply_config_to_keymap os (AList.update k b km)))"

definition keymap_config_is_empty :: "KeymapConfig \<Rightarrow> bool" where
  "keymap_config_is_empty c \<longleftrightarrow> cfg_emacs c = [] \<and> cfg_vim_normal c = [] \<and> cfg_vim_insert c = [] \<and> cfg_inspector c = [] \<and> cfg_prefix c = []"

definition apply_config :: "KeymapConfig \<Rightarrow> KeymapSet \<Rightarrow> KeymapSet" where
  "apply_config c ks =
     \<lparr>ks_emacs = apply_config_to_keymap (cfg_emacs c) (ks_emacs ks), ks_vim_normal = apply_config_to_keymap (cfg_vim_normal c) (ks_vim_normal ks),
      ks_vim_insert = apply_config_to_keymap (cfg_vim_insert c) (ks_vim_insert ks), ks_inspector = apply_config_to_keymap (cfg_inspector c) (ks_inspector ks),
      ks_prefix = apply_config_to_keymap (cfg_prefix c) (ks_prefix ks)\<rparr>"

definition keymaps_from_settings :: "key_settings \<Rightarrow> KeymapSet option" where
  "keymaps_from_settings S =
     (if keymap_config_is_empty (set_keymap S) then keymaps_defaults S
      else map_option (apply_config (set_keymap S)) (keymaps_defaults (S\<lparr>set_keys := standard_defaults\<rparr>)))"

section \<open>Names read back\<close>

definition key_mods :: "SingleKey \<Rightarrow> string list" where
  "key_mods k = (if key_super k then [''super''] else []) @ (if key_ctrl k then [''ctrl''] else []) @ (if key_alt k then [''alt''] else [])
     @ (if key_shift k then [''shift''] else [])"

lemma single_to_string_mods: "single_to_string k = concat (map (\<lambda>m. m @ ''-'') (key_mods k)) @ code_name (key_code k)"
  by (simp add: single_to_string_def key_mods_def)

lemma split_mods:
  assumes "\<forall>m \<in> set ms. CHR ''-'' \<notin> set m"
  shows "split_on (\<lambda>c. c = CHR ''-'') (concat (map (\<lambda>m. m @ ''-'') ms) @ s) = ms @ split_on (\<lambda>c. c = CHR ''-'') s"
  using assms
proof (induction ms)
  case (Cons m ms)
  then have "split_on (\<lambda>c. c = CHR ''-'') m = [m]" by (intro split_on_single) (auto simp: list_all_iff)
  then show ?case using Cons by (simp add: split_on_append)
qed simp

lemma mods_plain: "\<forall>m \<in> set (key_mods k). CHR ''-'' \<notin> set m"
  by (auto simp: key_mods_def)

lemma lower_chars: "to_lowercase ''super'' = ''super''" "to_lowercase ''ctrl'' = ''ctrl''" "to_lowercase ''alt'' = ''alt''" "to_lowercase ''shift'' = ''shift''"
  by (simp_all add: to_lowercase_def lower_char_def is_ascii_uppercase_def continues_def)

lemma mods_read: "set_modifiers (key_mods k) (plain_key KSpace) = Inr (k\<lparr>key_code := KSpace\<rparr>)"
  by (cases k) (simp add: key_mods_def set_modifier_def lower_chars plain_key_def)

definition key_char :: "rchar \<Rightarrow> bool" where
  "key_char g \<longleftrightarrow> valid_char g \<and> (of_char (fst g) < (128 :: nat) \<longrightarrow> snd g = [])"

fun nameable :: "KeyCodeValue \<Rightarrow> bool" where
  "nameable (KChar g) \<longleftrightarrow> g \<noteq> ascii_char CHR ''-'' \<and> \<not> white_group g"
| "nameable (KF n) \<longleftrightarrow> 1 \<le> n \<and> n \<le> 24"
| "nameable (KMedia m) \<longleftrightarrow> m \<notin> {Pause, Reverse, FastForward}"
| "nameable _ \<longleftrightarrow> True"

lemma char_bytes_ascii: "\<forall>c \<in> set s. of_char c < (128 :: nat) \<Longrightarrow> char_bytes s = map ascii_char s"
proof (induction s)
  case (Cons c s)
  then have "takeWhile continues s = []" "dropWhile continues s = s" by (cases s; auto simp: continues_def)+
  then show ?case using Cons by (simp add: ascii_char_def)
qed simp

lemma trim_mods:
  assumes "gs \<noteq> []" "valid_chars gs" "\<not> white_group (hd gs)" "\<not> white_group (last gs)"
  shows "trim (concat (map (\<lambda>m. m @ ''-'') (key_mods k)) @ of_bytes gs) = concat (map (\<lambda>m. m @ ''-'') (key_mods k)) @ of_bytes gs"
proof -
  let ?p = "concat (map (\<lambda>m. m @ ''-'') (key_mods k))"
  have "\<not> continues (hd (of_bytes gs))" using assms(1,2) by (cases gs) (auto simp: valid_char_def)
  then have b: "char_bytes (?p @ of_bytes gs) = char_bytes ?p @ gs" using assms(2) by (simp add: char_bytes_append)
  have "\<forall>c \<in> set ?p. of_char c < (128 :: nat)" "?p = [] \<or> hd ?p \<in> {CHR ''s'', CHR ''c'', CHR ''a''}" by (auto simp: key_mods_def)
  then have "?p = [] \<or> char_bytes ?p \<noteq> [] \<and> \<not> white_group (hd (char_bytes ?p))"
    by (cases ?p) (auto simp: char_bytes_ascii ascii_char_def code_point_def white_space_def)
  then have "\<not> white_group (hd (char_bytes ?p @ gs))" using assms(3) by (elim disjE) auto
  then show ?thesis using assms(1,4) by (intro trim_id) (simp_all add: b)
qed

lemma parse_printed:
  assumes "trim (single_to_string k) = single_to_string k" "CHR ''-'' \<notin> set (code_name (key_code k))"
  shows "single_parse (single_to_string k) = parse_key_part (code_name (key_code k)) (k\<lparr>key_code := KSpace\<rparr>)"
proof -
  have "split_on (\<lambda>c. c = CHR ''-'') (code_name (key_code k)) = [code_name (key_code k)]"
    using assms(2) by (intro split_on_single) (auto simp: list_all_iff)
  then show ?thesis using assms(1) by (simp add: single_parse_def single_to_string_mods split_mods mods_plain mods_read)
qed

lemma early_single [simp]: "map_of early_names [c] = None"
  by (simp add: early_names_def)

lemma late_single [simp]:
  "map_of late_names [c] = (if c \<in> {CHR ''['', CHR '']'', CHR ''?'', CHR ''/'', CHR ''$''} then Some (KChar (ascii_char c)) else None)"
  by (simp add: late_names_def)

lemma names_ascii: "map_of early_names (c # cs) \<noteq> None \<or> map_of late_names (c # cs) \<noteq> None \<Longrightarrow> \<forall>d \<in> set (c # cs). of_char d < (128 :: nat)"
proof -
  have "list_all (\<lambda>n. \<forall>d \<in> set (fst n). of_char d < (128 :: nat)) (early_names @ late_names)" by (simp add: early_names_def late_names_def)
  moreover assume "map_of early_names (c # cs) \<noteq> None \<or> map_of late_names (c # cs) \<noteq> None"
  then have "c # cs \<in> fst ` set (early_names @ late_names)" by (simp add: map_of_eq_None_iff image_Un)
  ultimately show ?thesis unfolding list_all_iff by fastforce
qed

lemma char_bytes_single: "valid_char g \<Longrightarrow> char_bytes (fst g # snd g) = [g]"
  using char_bytes_valid [of "[g]"] by simp

lemma low_ascii: "x \<in> {CHR ''['', CHR '']'', CHR ''?'', CHR ''/'', CHR ''$'', CHR ''f''} \<Longrightarrow> (of_char x :: nat) < 103"
  by auto

lemma low_special: "x \<in> {CHR ''['', CHR '']'', CHR ''?'', CHR ''/'', CHR ''$''} \<Longrightarrow> (of_char x :: nat) < 97"
  by auto

lemma lower_cases:
  assumes "key_char g"
  obtains (one) c where "lower_char g = [c]" "c \<in> {CHR ''['', CHR '']'', CHR ''?'', CHR ''/'', CHR ''$''} \<longrightarrow> g = ascii_char c"
    | (more) c d ds where "lower_char g = c # d # ds" "c \<noteq> CHR ''f''" "128 \<le> (of_char d :: nat) \<or> 128 \<le> (of_char c :: nat)"
proof (cases "of_char (fst g) < (128 :: nat)")
  case True
  with assms have g: "g = (fst g, [])" by (cases g) (simp add: key_char_def)
  have "\<not> (of_char (char_of ((of_char (fst g) :: nat) + 32) :: char) :: nat) < 97" if "is_ascii_uppercase g"
    using that by (simp add: is_ascii_uppercase_def)
  then have "char_of ((of_char (fst g) :: nat) + 32) \<notin> {CHR ''['', CHR '']'', CHR ''?'', CHR ''/'', CHR ''$''}" if "is_ascii_uppercase g"
    using that low_special by blast
  moreover have "lower_char g = [if is_ascii_uppercase g then char_of ((of_char (fst g) :: nat) + 32) else fst g]"
    by (subst g) (simp add: lower_char_def is_ascii_uppercase_def)
  moreover have "g = ascii_char (fst g)" using g by (simp add: ascii_char_def)
  ultimately show ?thesis using one [of "if is_ascii_uppercase g then char_of ((of_char (fst g) :: nat) + 32) else fst g"]
    by (cases "is_ascii_uppercase g") (simp_all only: if_True if_False simp_thms)
next
  case False
  then have "\<not> is_ascii_uppercase g" by (simp add: is_ascii_uppercase_def)
  then consider (k) "lower_char g = ''k''" | (i) "lower_char g = [CHR ''i'', CHR 0xCC, CHR 0x87]" | (same) "lower_char g = fst g # snd g"
    unfolding lower_char_def by argo
  then show ?thesis
  proof cases
    case same
    have "\<not> of_char (fst g) < (103 :: nat)" using False by simp
    then have "fst g \<notin> {CHR ''['', CHR '']'', CHR ''?'', CHR ''/'', CHR ''$'', CHR ''f''}" using low_ascii [of "fst g"] by blast
    then show ?thesis using one [of "fst g"] more [of "fst g"] same False by (cases "snd g") auto
  qed (use one [of "CHR ''k''"] more [of "CHR ''i''" "CHR 0xCC" "[CHR 0x87]"] in simp_all)
qed

lemma read_char:
  assumes "key_char g" "\<not> key_shift k"
  shows "parse_key_part (fst g # snd g) (k\<lparr>key_code := KSpace\<rparr>) = Inr (k\<lparr>key_code := KChar g\<rparr>)"
proof -
  have g: "char_bytes (fst g # snd g) = [g]" using assms char_bytes_single by (metis key_char_def)
  then have low: "to_lowercase (fst g # snd g) = lower_char g" by (simp only: to_lowercase_def list.map concat.simps append_Nil2)
  have plain: "is_ascii_uppercase g \<and> \<not> key_ctrl k \<and> \<not> key_alt k \<and> \<not> key_super k \<longrightarrow> plain_key (KChar g) = k\<lparr>key_code := KChar g\<rparr>"
    using assms(2) by (cases k) (simp add: plain_key_def)
  show ?thesis
  proof (cases rule: lower_cases [OF assms(1)])
    case (1 c)
    then show ?thesis using g plain by (auto simp del: char_bytes.simps simp: parse_key_part_def low)
  next
    case (2 c d ds)
    then have "map_of early_names (lower_char g) = None" "map_of late_names (lower_char g) = None" using names_ascii [of c "d # ds"] by fastforce+
    then show ?thesis using g plain 2 by (simp del: char_bytes.simps add: parse_key_part_def low starts_with_def)
  qed
qed

declare show_nat.simps [simp del]

lemma digits_show_nat: "c \<in> set (show_nat n) \<Longrightarrow> 48 \<le> (of_char c :: nat) \<and> (of_char c :: nat) \<le> 57"
proof (induction n rule: show_nat.induct)
  case (1 n)
  then show ?case using show_nat.simps [of n] by (auto split: if_splits)
qed

lemma value_show_nat: "foldl (\<lambda>n c. 10 * n + (of_char c - 48)) 0 (show_nat n) = (n :: nat)"
proof (induction n rule: show_nat.induct)
  case (1 n)
  then show ?case using show_nat.simps [of n] by (auto split: if_splits)
qed

lemma show_nat_nonempty: "show_nat n \<noteq> []"
  by (subst show_nat.simps) simp

lemma parse_show_nat: "parse_u8 (show_nat n) = (if n \<le> 255 then Some n else None)"
proof -
  obtain c cs where s: "show_nat n = c # cs" using show_nat_nonempty by (cases "show_nat n") auto
  then have "c \<noteq> CHR ''+''" using digits_show_nat [of c n] by auto
  then have "parse_u8 (c # cs) = (let n = foldl (\<lambda>n c. 10 * n + (of_char c - 48)) 0 (c # cs) in if n \<le> 255 then Some n else None)"
    using digits_show_nat [of _ n] s by (simp add: parse_u8_def list_all_iff)
  then show ?thesis using value_show_nat [of n] s by (simp only: Let_def)
qed

lemma lower_same:
  assumes "\<forall>c \<in> set s. of_char c < (65 :: nat) \<or> 90 < (of_char c :: nat)" "\<forall>c \<in> set s. of_char c < (128 :: nat)"
  shows "to_lowercase s = s"
proof -
  have "map lower_char (map ascii_char s) = map (\<lambda>c. [c]) s"
    unfolding map_map by (rule map_cong) (use assms(1) in \<open>auto simp: lower_char_def ascii_char_def is_ascii_uppercase_def\<close>)
  then show ?thesis unfolding to_lowercase_def char_bytes_ascii [OF assms(2)] by (simp only: concat_map_singleton map_ident)
qed

lemma function_name_none: "map_of early_names (CHR ''f'' # s) = None"
  by (simp add: early_names_def)

lemma read_function:
  "parse_key_part (''f'' @ show_nat n) k =
     (if 1 \<le> n \<and> n \<le> 24 then Inr (k\<lparr>key_code := KF n\<rparr>) else Inl (if n \<le> 255 then FunctionKeyOutOfRange (''f'' @ show_nat n) else UnknownKey (''f'' @ show_nat n)))"
proof -
  have "to_lowercase (''f'' @ show_nat n) = ''f'' @ show_nat n"
    by (rule lower_same) (use digits_show_nat in fastforce)+
  then show ?thesis using show_nat_nonempty [of n]
    by (simp add: parse_key_part_def function_name_none starts_with_def parse_show_nat)
qed

definition fixed_name :: "KeyCodeValue \<Rightarrow> bool" where
  "fixed_name c \<longleftrightarrow> (case c of KChar _ \<Rightarrow> False | KF _ \<Rightarrow> False | KMedia m \<Rightarrow> m \<notin> {Pause, Reverse, FastForward} | _ \<Rightarrow> True)"

lemma lowercase_name: "fixed_name c \<Longrightarrow> list_all (\<lambda>d. 97 \<le> (of_char d :: nat) \<and> (of_char d :: nat) \<le> 122) (code_name c) \<and> code_name c \<noteq> []"
  by (cases c; simp add: fixed_name_def) (rename_tac m, case_tac m; simp)

lemma read_fixed: "fixed_name c \<Longrightarrow> parse_key_part (code_name c) k = Inr (k\<lparr>key_code := c\<rparr>)"
proof -
  assume fixed: "fixed_name c"
  then have "to_lowercase (code_name c) = code_name c" using lowercase_name [of c] by (intro lower_same) (auto simp: list_all_iff)
  moreover have "map_of early_names (code_name c) = Some c \<or> map_of early_names (code_name c) = None \<and> \<not> starts_with ''f'' (code_name c) \<and> map_of late_names (code_name c) = Some c"
    using fixed by (cases c; simp add: fixed_name_def early_names_def) (rename_tac m, case_tac m; simp add: late_names_def starts_with_def)
  ultimately show ?thesis by (auto simp: parse_key_part_def)
qed

lemma of_bytes_ascii: "of_bytes (map ascii_char s) = s"
  by (induction s) (simp_all add: ascii_char_def)

lemma trim_name:
  assumes "n \<noteq> []" "list_all (\<lambda>d. 48 \<le> (of_char d :: nat) \<and> (of_char d :: nat) \<le> 122) n"
  shows "trim (concat (map (\<lambda>m. m @ ''-'') (key_mods k)) @ n) = concat (map (\<lambda>m. m @ ''-'') (key_mods k)) @ n"
proof -
  have ok: "valid_char (ascii_char c) \<and> \<not> white_group (ascii_char c)" if "c \<in> set n" for c
    using assms(2) that by (auto simp: list_all_iff valid_char_def ascii_char_def continues_def code_point_def white_space_def)
  then have "trim (concat (map (\<lambda>m. m @ ''-'') (key_mods k)) @ of_bytes (map ascii_char n)) = concat (map (\<lambda>m. m @ ''-'') (key_mods k)) @ of_bytes (map ascii_char n)"
    using assms(1) by (intro trim_mods) (simp_all add: list_all_iff hd_map last_map)
  then show ?thesis by (simp only: of_bytes_ascii)
qed

lemma no_dash: "list_all (\<lambda>d. 48 \<le> (of_char d :: nat) \<and> (of_char d :: nat) \<le> 122) n \<Longrightarrow> CHR ''-'' \<notin> set n"
  by (auto simp: list_all_iff)

lemma fixed_reads:
  assumes "fixed_name (key_code k)"
  shows "single_parse (single_to_string k) = Inr k"
proof -
  have "code_name (key_code k) \<noteq> []" "list_all (\<lambda>d. 48 \<le> (of_char d :: nat) \<and> (of_char d :: nat) \<le> 122) (code_name (key_code k))"
    using lowercase_name [OF assms] by (auto simp: list_all_iff)
  then show ?thesis using parse_printed [of k] trim_name [of "code_name (key_code k)" k] no_dash read_fixed [OF assms]
    by (simp add: single_to_string_mods)
qed

lemma function_reads:
  assumes "key_code k = KF n"
  shows "single_parse (single_to_string k) = Inr k \<longleftrightarrow> 1 \<le> n \<and> n \<le> 24"
proof -
  have "''f'' @ show_nat n \<noteq> []" "list_all (\<lambda>d. 48 \<le> (of_char d :: nat) \<and> (of_char d :: nat) \<le> 122) (''f'' @ show_nat n)"
    using digits_show_nat [of _ n] by (fastforce simp: list_all_iff)+
  then have "single_parse (single_to_string k) = parse_key_part (''f'' @ show_nat n) (k\<lparr>key_code := KSpace\<rparr>)"
    using parse_printed [of k] trim_name [of "''f'' @ show_nat n" k] no_dash assms by (simp add: single_to_string_mods)
  then show ?thesis using assms unfolding read_function by (cases k) simp
qed

lemma char_reads:
  assumes "key_code k = KChar g" "key_char g" "\<not> key_shift k" "nameable (KChar g)"
  shows "single_parse (single_to_string k) = Inr k"
proof -
  have "trim (single_to_string k) = single_to_string k"
    using trim_mods [of "[g]" k] assms by (simp add: single_to_string_mods key_char_def)
  moreover have "CHR ''-'' \<notin> set (fst g # snd g)"
    using assms(2,4) by (cases g) (auto simp: key_char_def valid_char_def ascii_char_def list_all_iff continues_def)
  ultimately show ?thesis using parse_printed [of k] read_char [OF assms(2,3)] assms(1) by (cases k) simp
qed

lemma trim_white:
  assumes "valid_char g" "white_group g" "\<forall>c \<in> set p. of_char c < (128 :: nat) \<and> \<not> white_group (ascii_char c)"
  shows "trim (p @ of_bytes [g]) = p"
proof -
  have "char_bytes (p @ of_bytes [g]) = map ascii_char p @ [g]"
    using assms char_bytes_append [of "of_bytes [g]" p] char_bytes_valid [of "[g]"] by (simp add: valid_char_def char_bytes_ascii)
  then have "trim_end (p @ of_bytes [g]) = of_bytes (rev (dropWhile white_group (rev (map ascii_char p))))"
    using assms(2) by (simp add: trim_end_def)
  moreover have "dropWhile white_group (map ascii_char q) = map ascii_char q" if "set q \<subseteq> set p" for q
    using assms(3) that by (cases q) auto
  then have "dropWhile white_group (rev (map ascii_char p)) = rev (map ascii_char p)" "dropWhile white_group (map ascii_char p) = map ascii_char p"
    by (simp_all add: rev_map)
  ultimately show ?thesis using assms(3) by (simp add: trim_def trim_start_def of_bytes_ascii char_bytes_ascii)
qed

lemma set_modifiers_append: "set_modifiers (xs @ ys) k = (case set_modifiers xs k of Inl e \<Rightarrow> Inl e | Inr k \<Rightarrow> set_modifiers ys k)"
  by (induction xs arbitrary: k) (auto split: sum.splits)

lemma bad_modifier:
  assumes "to_lowercase b \<notin> {''ctrl'', ''alt'', ''shift'', ''super'', ''cmd'', ''win''}" "split_on (\<lambda>c. c = CHR ''-'') (code_name (key_code k)) = [b, r]"
    "trim (single_to_string k) = single_to_string k"
  shows "single_parse (single_to_string k) = Inl (UnknownModifier b)"
  using assms by (simp add: single_parse_def single_to_string_mods split_mods mods_plain Let_def butlast_append set_modifiers_append mods_read set_modifier_def)

lemma char_lost:
  assumes "key_code k = KChar g" "key_char g" "\<not> nameable (KChar g)"
  shows "\<exists>e. single_parse (single_to_string k) = Inl e"
proof (cases "white_group g")
  case True
  have "valid_char g" using assms(2) by (simp add: key_char_def)
  moreover have "\<forall>c \<in> set (concat (map (\<lambda>m. m @ ''-'') (key_mods k))). of_char c < (128 :: nat) \<and> \<not> white_group (ascii_char c)"
    by (auto simp: key_mods_def ascii_char_def code_point_def white_space_def)
  ultimately have "trim (single_to_string k) = concat (map (\<lambda>m. m @ ''-'') (key_mods k))"
    using trim_white [of g "concat (map (\<lambda>m. m @ ''-'') (key_mods k))"] True assms(1) by (simp add: single_to_string_mods)
  then have "single_parse (single_to_string k) = parse_key_part [] (k\<lparr>key_code := KSpace\<rparr>)"
    using split_mods [OF mods_plain [of k], of "[]"] by (simp add: single_parse_def mods_read)
  then show ?thesis by (simp add: parse_key_part_def to_lowercase_def early_names_def late_names_def starts_with_def)
next
  case False
  then have g: "g = ascii_char CHR ''-''" using assms(3) by simp
  then have t: "trim (single_to_string k) = single_to_string k"
    using trim_mods [of "[g]" k] assms(1,2) False by (simp add: single_to_string_mods key_char_def)
  have "split_on (\<lambda>c. c = CHR ''-'') (code_name (key_code k)) = [[], []]" using assms(1) g by (simp add: ascii_char_def)
  then show ?thesis using bad_modifier [of "[]" k] t by (simp add: to_lowercase_def)
qed

lemma media_lost:
  assumes "key_code k = KMedia m" "m \<in> {Pause, Reverse, FastForward}"
  shows "\<exists>e. single_parse (single_to_string k) = Inl e"
proof (cases "m = Pause")
  case True
  have "to_lowercase ''media'' = ''media''" by (rule lower_same) auto
  moreover have "trim (single_to_string k) = single_to_string k"
    using trim_mods [of "map ascii_char ''media-pause''" k] assms(1) True unfolding of_bytes_ascii
    by (simp add: single_to_string_mods valid_char_def ascii_char_def continues_def code_point_def white_space_def)
  ultimately show ?thesis using bad_modifier [of "''media''" k "''pause''"] assms(1) True by simp
next
  case False
  have "list_all (\<lambda>d. 48 \<le> (of_char d :: nat) \<and> (of_char d :: nat) \<le> 122) (media_name m)" "media_name m \<noteq> []" using False assms(2) by auto
  then have "single_parse (single_to_string k) = parse_key_part (media_name m) (k\<lparr>key_code := KSpace\<rparr>)"
    using parse_printed [of k] trim_name [of "media_name m" k] no_dash assms(1) by (simp add: single_to_string_mods)
  moreover have "to_lowercase (media_name m) = media_name m" using False assms(2) by (intro lower_same) auto
  moreover have "parse_u8 ''astforward'' = None" by (simp add: parse_u8_def)
  ultimately show ?thesis using False assms(2) by (auto simp: parse_key_part_def early_names_def late_names_def starts_with_def continues_def)
qed

lemma event_char: "from_event ev = Some k \<Longrightarrow> key_code k = KChar g \<Longrightarrow> ev_code ev = EvChar g \<and> \<not> key_shift k"
  by (auto simp: from_event_def event_code_def Let_def split: KeyCode.splits KeyCodeValue.splits if_splits)

text \<open>
  C38: the name a key is printed with reads back as the key, with its modifiers, for every key event; the exceptions, in both directions: the dash, white space
  other than the space bar's, the media keys pause, reverse and fast forward, and function keys outside 1 to 24.
\<close>

theorem key_names_read_back:
  assumes "from_event ev = Some k" "\<And>g. ev_code ev = EvChar g \<Longrightarrow> key_char g"
  shows "single_parse (single_to_string k) = Inr k \<longleftrightarrow> nameable (key_code k)"
proof -
  consider (char) g where "key_code k = KChar g" | (fkey) n where "key_code k = KF n"
    | (lost) m where "key_code k = KMedia m" "m \<in> {Pause, Reverse, FastForward}" | (fixed) "fixed_name (key_code k)" "nameable (key_code k)"
    by (cases "key_code k") (auto simp: fixed_name_def)
  then show ?thesis
  proof cases
    case char
    then show ?thesis using event_char [OF assms(1) char] assms(2) char_reads [OF char] char_lost [OF char] by fastforce
  next
    case fkey
    then show ?thesis by (simp add: function_reads)
  next
    case lost
    then show ?thesis using media_lost [OF lost] by force
  next
    case fixed
    then show ?thesis by (simp add: fixed_reads)
  qed
qed

lemma key_names_read_back_witness:
  "let k = \<lparr>key_code = KF 5, key_ctrl = True, key_alt = False, key_shift = True, key_super = True\<rparr>
   in single_parse (single_to_string k) = Inr k"
  using key_names_read_back [of "\<lparr>ev_code = EvF 5, ev_control = True, ev_alt = False, ev_shift = True, ev_super = True, ev_kind = Press\<rparr>"
    "\<lparr>key_code = KF 5, key_ctrl = True, key_alt = False, key_shift = True, key_super = True\<rparr>"]
  by (simp add: from_event_def event_code_def)

section \<open>The default keymaps are built\<close>

definition ctrl_key :: "KeyCodeValue \<Rightarrow> SingleKey" where
  "ctrl_key c = (plain_key c)\<lparr>key_ctrl := True\<rparr>"

definition alt_key :: "KeyCodeValue \<Rightarrow> SingleKey" where
  "alt_key c = (plain_key c)\<lparr>key_alt := True\<rparr>"

definition named_code :: "string \<Rightarrow> KeyCodeValue" where
  "named_code n = (case map_of early_names n of Some c \<Rightarrow> c | None \<Rightarrow> KChar (ascii_char (hd n)))"

text \<open>The key of a name in the form the defaults use.\<close>

definition spec_key :: "string \<Rightarrow> SingleKey" where
  "spec_key s = (if take 5 s = ''ctrl-'' then ctrl_key (named_code (drop 5 s)) else if take 4 s = ''alt-'' then alt_key (named_code (drop 4 s)) else plain_key (named_code s))"

definition plain_code :: "KeyCodeValue \<Rightarrow> bool" where
  "plain_code c \<longleftrightarrow> fixed_name c \<or> (case c of KChar g \<Rightarrow> snd g = [] \<and> 33 \<le> (of_char (fst g) :: nat) \<and> (of_char (fst g) :: nat) < 127 \<and> fst g \<noteq> CHR ''-'' | _ \<Rightarrow> False)"

definition spec_ok :: "string \<Rightarrow> bool" where
  "spec_ok s \<longleftrightarrow> single_to_string (spec_key s) = s \<and> plain_code (key_code (spec_key s)) \<and> list_all (\<lambda>c. 33 \<le> (of_char c :: nat) \<and> (of_char c :: nat) < 127) s"

lemma key_shift_spec [simp]: "\<not> key_shift (spec_key s)"
  by (simp add: spec_key_def ctrl_key_def alt_key_def plain_key_def)

lemma spec_single: "spec_ok s \<Longrightarrow> single_parse s = Inr (spec_key s)"
proof (cases "fixed_name (key_code (spec_key s))")
  case True
  then show "spec_ok s \<Longrightarrow> ?thesis" using fixed_reads [OF True] by (simp add: spec_ok_def)
next
  case False
  assume ok: "spec_ok s"
  then obtain g where g: "key_code (spec_key s) = KChar g" "snd g = []" "33 \<le> (of_char (fst g) :: nat)" "(of_char (fst g) :: nat) < 127" "fst g \<noteq> CHR ''-''"
    using False by (auto simp: spec_ok_def plain_code_def split: KeyCodeValue.splits)
  then have "key_char g" "nameable (KChar g)"
    by (cases g; auto simp: key_char_def valid_char_def continues_def ascii_char_def code_point_def white_space_def)+
  then have "single_parse (single_to_string (spec_key s)) = Inr (spec_key s)" using char_reads [OF g(1)] by simp
  then show ?thesis using ok by (simp add: spec_ok_def)
qed

lemma graph_trim:
  assumes "s \<noteq> []" "list_all (\<lambda>c. 33 \<le> (of_char c :: nat) \<and> (of_char c :: nat) < 127) [hd s, last s]" "\<forall>c \<in> set s. of_char c < (128 :: nat)"
  shows "trim s = s"
  using assms by (intro trim_id) (auto simp: char_bytes_ascii hd_map last_map ascii_char_def code_point_def white_space_def)

lemma no_white_parts: "list_all (\<lambda>g. \<not> white_group g) (char_bytes s) \<Longrightarrow> length (split_whitespace s) \<le> 1"
  by (simp add: split_whitespace_def split_on_single)

lemma spec_input:
  assumes "spec_ok s" "s \<noteq> []"
  shows "input_parse s = Inr (Single (spec_key s))"
proof -
  have g: "\<forall>c \<in> set s. 33 \<le> (of_char c :: nat) \<and> (of_char c :: nat) < 127" using assms(1) by (simp add: spec_ok_def list_all_iff)
  then have "trim s = s" using assms(2) by (intro graph_trim) fastforce+
  moreover have "char_bytes s = map ascii_char s" using g by (intro char_bytes_ascii) fastforce
  then have "length (split_whitespace s) \<le> 1"
    using g by (intro no_white_parts) (auto simp: list_all_iff ascii_char_def code_point_def white_space_def)
  ultimately show ?thesis using spec_single [OF assms(1)] by (simp add: input_parse_def)
qed

lemma spec_sequence:
  assumes "spec_ok [c]" "spec_ok [d]"
  shows "input_parse [c, CHR '' '', d] = Inr (Sequence [spec_key [c], spec_key [d]])"
proof -
  have g: "33 \<le> (of_char c :: nat)" "(of_char c :: nat) < 127" "33 \<le> (of_char d :: nat)" "(of_char d :: nat) < 127" using assms by (simp_all add: spec_ok_def)
  then have "trim [c, CHR '' '', d] = [c, CHR '' '', d]" by (intro graph_trim) auto
  moreover have "char_bytes [c, CHR '' '', d] = [ascii_char c, ascii_char CHR '' '', ascii_char d]" using g by (subst char_bytes_ascii) auto
  then have "split_whitespace [c, CHR '' '', d] = [[c], [d]]"
    using g by (simp add: split_whitespace_def ascii_char_def code_point_def white_space_def)
  ultimately show ?thesis using assms by (simp add: input_parse_def spec_single)
qed

definition name_ok :: "string \<Rightarrow> bool" where
  "name_ok n \<longleftrightarrow> code_name (named_code n) = n \<and> plain_code (named_code n) \<and> list_all (\<lambda>c. 33 \<le> (of_char c :: nat) \<and> (of_char c :: nat) < 127) n"

lemma named_single [simp]: "named_code [c] = KChar (ascii_char c)"
  by (simp add: named_code_def)

lemma name_single [simp]: "name_ok [c] \<longleftrightarrow> 33 \<le> (of_char c :: nat) \<and> (of_char c :: nat) < 127 \<and> c \<noteq> CHR ''-''"
  by (auto simp: name_ok_def plain_code_def ascii_char_def fixed_name_def)

lemma named_words [simp]:
  "named_code ''enter'' = KEnter" "named_code ''esc'' = KEsc" "named_code ''tab'' = KTab" "named_code ''backspace'' = KBackspace" "named_code ''delete'' = KDelete"
  "named_code ''up'' = KUp" "named_code ''down'' = KDown" "named_code ''left'' = KLeft" "named_code ''right'' = KRight" "named_code ''home'' = KHome"
  "named_code ''end'' = KEnd" "named_code ''pageup'' = KPageUp" "named_code ''pagedown'' = KPageDown"
  by (simp_all add: named_code_def early_names_def)

lemma name_words [simp]:
  "name_ok ''enter''" "name_ok ''esc''" "name_ok ''tab''" "name_ok ''backspace''" "name_ok ''delete''" "name_ok ''up''" "name_ok ''down''" "name_ok ''left''"
  "name_ok ''right''" "name_ok ''home''" "name_ok ''end''" "name_ok ''pageup''" "name_ok ''pagedown''"
  by (simp_all add: name_ok_def plain_code_def fixed_name_def)

lemma spec_ctrl [simp]:
  "spec_key (CHR ''c'' # CHR ''t'' # CHR ''r'' # CHR ''l'' # CHR ''-'' # n) = ctrl_key (named_code n)"
  "name_ok n \<Longrightarrow> spec_ok (CHR ''c'' # CHR ''t'' # CHR ''r'' # CHR ''l'' # CHR ''-'' # n)"
  by (simp_all add: spec_key_def spec_ok_def name_ok_def ctrl_key_def plain_key_def single_to_string_def)

lemma spec_alt [simp]:
  "spec_key (CHR ''a'' # CHR ''l'' # CHR ''t'' # CHR ''-'' # n) = alt_key (named_code n)"
  "name_ok n \<Longrightarrow> spec_ok (CHR ''a'' # CHR ''l'' # CHR ''t'' # CHR ''-'' # n)"
  by (simp_all add: spec_key_def spec_ok_def name_ok_def alt_key_def plain_key_def single_to_string_def)

definition plain_word :: "string \<Rightarrow> bool" where
  "plain_word n \<longleftrightarrow> name_ok n \<and> CHR ''-'' \<notin> set n"

lemma spec_plain:
  assumes "plain_word n"
  shows "spec_key n = plain_key (named_code n)" "spec_ok n"
proof -
  have "take 5 n \<noteq> ''ctrl-''" "take 4 n \<noteq> ''alt-''" using assms unfolding plain_word_def by (metis in_set_takeD list.set_intros)+
  then show "spec_key n = plain_key (named_code n)" by (simp add: spec_key_def)
  then show "spec_ok n" using assms by (simp add: spec_ok_def plain_word_def name_ok_def plain_key_def single_to_string_def)
qed

lemma key_forms [simp]:
  "ctrl_key a = ctrl_key b \<longleftrightarrow> a = b" "alt_key a = alt_key b \<longleftrightarrow> a = b" "plain_key a = plain_key b \<longleftrightarrow> a = b"
  "ctrl_key a \<noteq> alt_key b" "ctrl_key a \<noteq> plain_key b" "alt_key a \<noteq> ctrl_key b" "alt_key a \<noteq> plain_key b" "plain_key a \<noteq> ctrl_key b" "plain_key a \<noteq> alt_key b"
  by (simp_all add: ctrl_key_def alt_key_def plain_key_def)

lemma show_digit: "n < 10 \<Longrightarrow> show_nat n = [char_of (48 + n)]"
  by (subst show_nat.simps) simp

lemma digits_upt: "[Suc 0..<10] = [1, 2, 3, 4, 5, 6, 7, 8, 9 :: nat]"
  by (simp add: upt_rec)


lemma digit_chars: "char_of (49 :: nat) = CHR ''1''" "char_of (50 :: nat) = CHR ''2''" "char_of (51 :: nat) = CHR ''3''" "char_of (52 :: nat) = CHR ''4''"
  "char_of (53 :: nat) = CHR ''5''" "char_of (54 :: nat) = CHR ''6''" "char_of (55 :: nat) = CHR ''7''" "char_of (56 :: nat) = CHR ''8''" "char_of (57 :: nat) = CHR ''9''"
  by (simp_all add: char_of_def bit_iff_odd)

lemma bind_all_append: "bind_all (xs @ ys) km = Option.bind (bind_all xs km) (bind_all ys)"
  by (induction xs km rule: bind_all.induct) (auto split: sum.splits)

lemma bind_all_some: "(\<exists>km'. bind_all bs km = Some km') \<longleftrightarrow> (\<forall>b \<in> set bs. \<exists>k. input_parse (fst b) = Inr k)"
  by (induction bs km rule: bind_all.induct) (auto split: sum.splits)

text \<open>A key has the rules of its last binding.\<close>

lemma bind_all_other: "bind_all bs km = Some km' \<Longrightarrow> (\<forall>b \<in> set bs. input_parse (fst b) \<noteq> Inr k) \<Longrightarrow> map_of km' k = map_of km k"
proof (induction bs km rule: bind_all.induct)
  case (2 s rules bs km)
  then show ?case by (auto simp: km_bind_conditional_def update_conv' split: sum.splits)
qed simp

lemma bind_all_last:
  assumes "bind_all (xs @ (s, rules) # ys) [] = Some km" "input_parse s = Inr k" "\<forall>b \<in> set ys. input_parse (fst b) \<noteq> Inr k"
  shows "map_of km k = Some rules"
proof -
  obtain m where "bind_all ys (km_bind_conditional k rules m) = Some km"
    using assms(1,2) by (auto simp: bind_all_append bind_eq_Some_conv)
  then show ?thesis using bind_all_other assms(3) by (fastforce simp: km_bind_conditional_def update_conv')
qed

lemma bind_all_from: "bind_all bs km = Some km' \<Longrightarrow> map_of km' k = Some rules \<Longrightarrow> map_of km k = Some rules \<or> (\<exists>s. (s, rules) \<in> set bs)"
proof (induction bs km rule: bind_all.induct)
  case (2 s rs bs km)
  then show ?case by (auto simp: km_bind_conditional_def update_conv' split: sum.splits if_splits)
qed simp

lemma bind_all_shadowed:
  assumes "bind_all (xs @ ys) [] = Some km" "b \<in> set ys" "input_parse (fst b) = Inr k"
  shows "\<exists>b \<in> set ys. map_of km k = Some (snd b)"
proof -
  obtain zs s rules us where ys: "ys = zs @ (s, rules) # us" and s: "input_parse s = Inr k" and us: "\<forall>b \<in> set us. input_parse (fst b) \<noteq> Inr k"
    using split_list_last_prop [of ys "\<lambda>b. input_parse (fst b) = Inr k"] assms(2,3) by (metis prod.collapse)
  then have "map_of km k = Some rules" using bind_all_last [of "xs @ zs" s rules us km k] assms(1) by simp
  then show ?thesis using ys by fastforce
qed

lemma prefix_parse:
  assumes "key_char p"
  shows "input_parse (''ctrl-'' @ fst p # snd p) = Inr (Single (ctrl_key (KChar p))) \<and> nameable (KChar p)
         \<or> (\<exists>e. input_parse (''ctrl-'' @ fst p # snd p) = Inl e) \<and> \<not> nameable (KChar p)"
proof -
  let ?k = "ctrl_key (KChar p)" and ?s = "''ctrl-'' @ fst p # snd p"
  have s: "single_to_string ?k = ?s" "key_code ?k = KChar p" "\<not> key_shift ?k" by (simp_all add: ctrl_key_def plain_key_def single_to_string_def)
  have v: "valid_char p" using assms by (simp add: key_char_def)
  have "input_parse ?s = (case single_parse ?s of Inl e \<Rightarrow> Inl e | Inr k \<Rightarrow> Inr (Single k))"
  proof (cases "white_group p")
    case True
    have "trim (''ctrl-'' @ of_bytes [p]) = ''ctrl-''" using v True by (rule trim_white) (auto simp: ascii_char_def code_point_def white_space_def)
    then have t: "trim ?s = ''ctrl-''" "trim ''ctrl-'' = ''ctrl-''" using graph_trim [of "''ctrl-''"] by simp_all
    have "length (split_whitespace ''ctrl-'') \<le> 1"
      by (intro no_white_parts, subst char_bytes_ascii) (auto simp: ascii_char_def code_point_def white_space_def)
    moreover have "single_parse ?s = single_parse ''ctrl-''" unfolding single_parse_def t ..
    ultimately show ?thesis unfolding input_parse_def t(1) Let_def by simp
  next
    case False
    have b: "char_bytes ?s = map ascii_char ''ctrl-'' @ [p]"
      using v char_bytes_append [of "fst p # snd p" "''ctrl-''"] char_bytes_valid [of "[p]"] char_bytes_ascii [of "''ctrl-''"] by (simp add: valid_char_def)
    then have "length (split_whitespace ?s) \<le> 1" using False by (intro no_white_parts) (simp add: ascii_char_def code_point_def white_space_def)
    moreover have "trim ?s = ?s" using False b by (intro trim_id) (simp_all add: ascii_char_def code_point_def white_space_def)
    ultimately show ?thesis by (simp add: input_parse_def)
  qed
  then show ?thesis using char_reads [OF s(2) assms s(3)] char_lost [OF s(2) assms] unfolding s(1) by (cases "nameable (KChar p)") auto
qed

definition keys_spec :: "default_binding list \<Rightarrow> bool" where
  "keys_spec bs \<longleftrightarrow> list_all (\<lambda>s. spec_ok s \<and> s \<noteq> []) (map fst bs)"

lemma keys_spec_append [simp]: "keys_spec (xs @ ys) \<longleftrightarrow> keys_spec xs \<and> keys_spec ys"
  by (simp add: keys_spec_def)

lemma keys_spec_parse: "keys_spec bs \<Longrightarrow> b \<in> set bs \<Longrightarrow> input_parse (fst b) = Inr (Single (spec_key (fst b)))"
  by (auto simp: keys_spec_def list_all_iff intro: spec_input)

lemma fst_bind [simp]: "fst (bind_to s a) = s" "fst (bind_scroll_key s a z e) = s"
  by (simp_all add: bind_to_def bind_scroll_key_def)

text \<open>What the keymaps bind after the prefix key.\<close>

definition emacs_rest :: "key_settings \<Rightarrow> default_binding list" where
  "emacs_rest S = drop 7 (default_emacs_keymap S)"

lemma emacs_parts: "default_emacs_keymap S = common_bindings @ [bind_to ''esc'' Exit, bind_to ''ctrl-['' Exit] @ prefix_binding S # emacs_rest S"
  by (simp add: emacs_rest_def default_emacs_keymap_def common_bindings_def)

lemma emacs_rest_keys: "map fst (emacs_rest S) =
   [''right'', ''left'', ''down'', ''up'', ''backspace'', ''enter'', ''ctrl-m'', ''ctrl-y'']
   @ map (\<lambda>c. (if ctrl_n_shortcuts S then ''ctrl-'' else ''alt-'') @ [c]) ''123456789''
   @ [''ctrl-left'', ''alt-b'', ''ctrl-b'', ''ctrl-right'', ''alt-f'', ''ctrl-f'', ''home''] @ (if prefix_char S \<noteq> ascii_char CHR ''a'' then [''ctrl-a''] else [])
   @ [''ctrl-e'', ''end'', ''ctrl-backspace'', ''alt-backspace'', ''ctrl-h'', ''ctrl-?'', ''ctrl-delete'', ''alt-d'', ''delete'', ''ctrl-d'', ''ctrl-w'', ''ctrl-u'', ''ctrl-r'',
      ''ctrl-s'', ''ctrl-n'', ''ctrl-j'', ''ctrl-p'', ''ctrl-k'', ''ctrl-l'', ''pagedown'', ''pageup'']"
  by (simp add: emacs_rest_def default_emacs_keymap_def common_bindings_def digits_upt show_digit digit_chars)

lemma emacs_rest_spec: "keys_spec (emacs_rest S)"
  unfolding keys_spec_def emacs_rest_keys by (simp add: spec_plain plain_word_def)

lemma common_spec: "keys_spec (common_bindings @ [bind_to ''esc'' Exit, bind_to ''ctrl-['' Exit])"
  by (simp add: keys_spec_def common_bindings_def spec_plain plain_word_def)

lemma vim_keys:
  "map fst (default_vim_normal_keymap S) =
   [''ctrl-c'', ''ctrl-g'', ''ctrl-o'', ''tab'', ''esc'', ''ctrl-[''] @ [fst (prefix_binding S)]
   @ [''j'', ''k'', ''h'', ''l'', ''0'', ''$'', ''w'', ''b'', ''e'', ''x'', ''d d'', ''D'', ''C'', ''?'', ''/'', ''a'', ''A'', ''i'', ''I''] @ map (\<lambda>c. [c]) ''123456789''
   @ [''ctrl-u'', ''ctrl-d'', ''ctrl-b'', ''ctrl-f'', ''G'', ''g g'', ''H'', ''M'', ''L'', ''down'', ''up'', ''pagedown'', ''pageup'', ''enter'']"
  by (simp add: default_vim_normal_keymap_def common_bindings_def digits_upt show_digit digit_chars)

lemma inspector_keys:
  "map fst (default_inspector_keymap S) =
   [''ctrl-c'', ''ctrl-g'', ''esc'', ''ctrl-['', ''tab'', ''ctrl-o''] @ [fst (prefix_binding S)]
   @ [''enter'', ''ctrl-d'', ''up'', ''down'', ''pageup'', ''pagedown''] @ (if keymap_mode S = KmVimNormal \<or> keymap_mode S = KmVimInsert then [''j'', ''k''] else [])"
  by (simp add: default_inspector_keymap_def)

definition parses :: "string \<Rightarrow> bool" where
  "parses s \<longleftrightarrow> (\<exists>k. input_parse s = Inr k)"

lemma parses_spec: "spec_ok s \<Longrightarrow> s \<noteq> [] \<Longrightarrow> parses s"
  by (auto simp: parses_def spec_input)

lemma parses_pair: "spec_ok [c] \<Longrightarrow> spec_ok [d] \<Longrightarrow> parses [c, CHR '' '', d]"
  by (auto simp: parses_def spec_sequence)

lemma bind_all_parses: "(\<exists>km'. bind_all bs km = Some km') \<longleftrightarrow> list_all parses (map fst bs)"
  by (auto simp: bind_all_some list_all_iff parses_def)

lemma emacs_keys: "map fst (default_emacs_keymap S) = [''ctrl-c'', ''ctrl-g'', ''ctrl-o'', ''tab'', ''esc'', ''ctrl-[''] @ fst (prefix_binding S) # map fst (emacs_rest S)"
  by (simp add: emacs_parts common_bindings_def)

lemmas spec_words = spec_plain plain_word_def parses_spec parses_pair

lemma emacs_parses: "list_all parses (map fst (default_emacs_keymap S)) \<longleftrightarrow> parses (fst (prefix_binding S))"
  using emacs_rest_spec [of S] by (simp add: emacs_keys keys_spec_def list_all_iff spec_words)

lemma vim_parses: "list_all parses (map fst (default_vim_normal_keymap S)) \<longleftrightarrow> parses (fst (prefix_binding S))"
  by (simp add: vim_keys spec_words)

lemma inspector_parses: "list_all parses (map fst (default_inspector_keymap S)) \<longleftrightarrow> parses (fst (prefix_binding S))"
  by (simp add: inspector_keys spec_words)

lemma prefix_parses: "list_all parses (map fst default_prefix_keymap)"
  by (simp add: default_prefix_keymap_def spec_words)

lemma insert_parses: "list_all parses (map fst (default_vim_insert_keymap S)) \<longleftrightarrow> parses (fst (prefix_binding S))"
  using emacs_parses [of S] by (simp add: default_vim_insert_keymap_def spec_words)

lemma defaults_built: "(\<exists>ks. keymaps_defaults S = Some ks) \<longleftrightarrow> parses (fst (prefix_binding S))"
proof -
  have "(\<exists>ks. keymaps_defaults S = Some ks) \<longleftrightarrow>
    (\<exists>e. bind_all (default_emacs_keymap S) [] = Some e) \<and> (\<exists>n. bind_all (default_vim_normal_keymap S) [] = Some n) \<and> (\<exists>i. bind_all (default_vim_insert_keymap S) [] = Some i)
    \<and> (\<exists>s. bind_all (default_inspector_keymap S) [] = Some s) \<and> (\<exists>p. bind_all default_prefix_keymap [] = Some p)"
    by (auto simp: keymaps_defaults_def split: option.splits prod.splits)
  then show ?thesis by (simp only: bind_all_parses emacs_parses vim_parses insert_parses inspector_parses prefix_parses simp_thms)
qed

lemma prefix_binding_parses: "key_char (prefix_char S) \<Longrightarrow> parses (fst (prefix_binding S)) \<longleftrightarrow> nameable (KChar (prefix_char S))"
  using prefix_parse [of "prefix_char S"] by (auto simp: prefix_binding_def parses_def)

lemma standard_prefix: "prefix_char (S\<lparr>set_keys := standard_defaults\<rparr>) = ascii_char CHR ''a''"
  by (simp add: prefix_char_def standard_defaults_def ascii_char_def)

lemma standard_built: "\<exists>ks. keymaps_defaults (S\<lparr>set_keys := standard_defaults\<rparr>) = Some ks"
proof -
  have "key_char (ascii_char CHR ''a'')" by (simp add: key_char_def valid_char_def ascii_char_def continues_def)
  moreover have "nameable (KChar (ascii_char CHR ''a''))" by (simp add: ascii_char_def code_point_def white_space_def)
  ultimately show ?thesis using prefix_binding_parses [of "S\<lparr>set_keys := standard_defaults\<rparr>"] unfolding standard_prefix defaults_built by blast
qed

text \<open>
  the keymaps are built from every settings, with no panic, but where no key is overridden and the prefix is a dash or white space: then building them panics.
\<close>

theorem keymaps_built:
  assumes "key_char (prefix_char S)"
  shows "(\<exists>ks. keymaps_from_settings S = Some ks) \<longleftrightarrow>
         \<not> keymap_config_is_empty (set_keymap S) \<or> prefix_char S \<noteq> ascii_char CHR ''-'' \<and> \<not> white_group (prefix_char S)"
proof (cases "keymap_config_is_empty (set_keymap S)")
  case True
  then show ?thesis using defaults_built [of S] prefix_binding_parses [OF assms] by (simp add: keymaps_from_settings_def)
next
  case False
  then show ?thesis using standard_built [of S] by (auto simp: keymaps_from_settings_def)
qed

definition no_overrides :: KeymapConfig where
  "no_overrides = \<lparr>cfg_emacs = [], cfg_vim_normal = [], cfg_vim_insert = [], cfg_inspector = [], cfg_prefix = []\<rparr>"

definition settings_with_prefix :: "string \<Rightarrow> key_settings" where
  "settings_with_prefix p = \<lparr>set_keys = standard_defaults\<lparr>keys_prefix := p\<rparr>, set_invert = False, ctrl_n_shortcuts = False, enter_accept = True, keymap_mode = KmEmacs, set_keymap = no_overrides\<rparr>"

lemma sample_prefix: "of_char c < (128 :: nat) \<Longrightarrow> prefix_char (settings_with_prefix [c]) = ascii_char c \<and> key_char (ascii_char c)"
  by (simp add: prefix_char_def settings_with_prefix_def standard_defaults_def ascii_char_def key_char_def valid_char_def continues_def)

lemma keymaps_built_witness: "(\<exists>ks. keymaps_from_settings (settings_with_prefix ''x'') = Some ks) \<and> keymaps_from_settings (settings_with_prefix ''-'') = None"
  using keymaps_built [of "settings_with_prefix ''x''"] keymaps_built [of "settings_with_prefix ''-''"] sample_prefix [of "CHR ''x''"] sample_prefix [of "CHR ''-''"]
  by (simp add: settings_with_prefix_def no_overrides_def keymap_config_is_empty_def ascii_char_def code_point_def white_space_def)

section \<open>What the default keymaps do\<close>

lemma defaults_fields:
  assumes "keymaps_defaults S = Some ks"
  shows "bind_all (default_emacs_keymap S) [] = Some (ks_emacs ks)" "bind_all (default_vim_normal_keymap S) [] = Some (ks_vim_normal ks)"
    "bind_all (default_vim_insert_keymap S) [] = Some (ks_vim_insert ks)" "bind_all (default_inspector_keymap S) [] = Some (ks_inspector ks)"
    "bind_all default_prefix_keymap [] = Some (ks_prefix ks)"
  using assms by (auto simp: keymaps_defaults_def split: option.splits)

lemma resolve_last:
  assumes "bind_all bs [] = Some km" "bs = xs @ bind_to s a # ys" "input_parse s = Inr k" "list_all (\<lambda>n. input_parse n \<noteq> Inr k) (map fst ys)"
  shows "km_resolve km k ctx = Some a"
  using bind_all_last [of xs s "[always a]" ys km k] assms by (auto simp: km_resolve_def bind_to_def always_def list_all_iff)

lemma other_key: "spec_ok s \<Longrightarrow> s \<noteq> [] \<Longrightarrow> spec_key s \<noteq> k \<Longrightarrow> input_parse s \<noteq> Inr (Single k)"
  by (simp add: spec_input)

lemma other_pair: "spec_ok [c] \<Longrightarrow> spec_ok [d] \<Longrightarrow> input_parse [c, CHR '' '', d] \<noteq> Inr (Single k)"
  by (simp add: spec_sequence)

abbreviation esc_key :: KeyInput where
  "esc_key \<equiv> Single (plain_key KEsc)"

lemma esc_parse: "input_parse ''esc'' = Inr esc_key"
  by (simp add: spec_input spec_words)

lemma prefix_key: "key_char (prefix_char S) \<Longrightarrow> input_parse (fst (prefix_binding S)) = Inr k \<Longrightarrow> k = Single (ctrl_key (KChar (prefix_char S)))"
  using prefix_parse [of "prefix_char S"] by (auto simp: prefix_binding_def)

lemma prefix_not_esc: "key_char (prefix_char S) \<Longrightarrow> input_parse (fst (prefix_binding S)) \<noteq> Inr esc_key"
  using prefix_key [of S esc_key] by (metis KeyInput.inject(1) key_forms(8))

lemma rest_not_esc: "list_all (\<lambda>n. input_parse n \<noteq> Inr esc_key) (map fst (emacs_rest S))"
  using emacs_rest_spec [of S] unfolding keys_spec_def emacs_rest_keys by (simp add: spec_input spec_plain plain_word_def)

lemmas not_bound = other_key other_pair spec_words

lemma emacs_esc: "key_char (prefix_char S) \<Longrightarrow> keymaps_defaults S = Some ks \<Longrightarrow> km_resolve (ks_emacs ks) esc_key ctx = Some Exit"
proof (rule resolve_last [OF defaults_fields(1)])
  show "default_emacs_keymap S = common_bindings @ bind_to ''esc'' Exit # bind_to ''ctrl-['' Exit # prefix_binding S # emacs_rest S" by (simp add: emacs_parts)
  show "list_all (\<lambda>n. input_parse n \<noteq> Inr esc_key) (map fst (bind_to ''ctrl-['' Exit # prefix_binding S # emacs_rest S))" if "key_char (prefix_char S)"
    using rest_not_esc [of S] prefix_not_esc [OF that] by (simp add: not_bound)
qed (simp_all add: esc_parse)

definition vim_rest :: "key_settings \<Rightarrow> default_binding list" where
  "vim_rest S = drop 7 (default_vim_normal_keymap S)"

lemma vim_parts: "default_vim_normal_keymap S = common_bindings @ [bind_to ''esc'' Exit, bind_to ''ctrl-['' Exit] @ prefix_binding S # vim_rest S"
  by (simp add: vim_rest_def default_vim_normal_keymap_def common_bindings_def)

lemma vim_rest_keys: "map fst (vim_rest S) =
   [''j'', ''k'', ''h'', ''l'', ''0'', ''$'', ''w'', ''b'', ''e'', ''x'', ''d d'', ''D'', ''C'', ''?'', ''/'', ''a'', ''A'', ''i'', ''I''] @ map (\<lambda>c. [c]) ''123456789''
   @ [''ctrl-u'', ''ctrl-d'', ''ctrl-b'', ''ctrl-f'', ''G'', ''g g'', ''H'', ''M'', ''L'', ''down'', ''up'', ''pagedown'', ''pageup'', ''enter'']"
  using vim_keys [of S] by (simp add: vim_parts common_bindings_def)

definition inspector_rest :: "key_settings \<Rightarrow> default_binding list" where
  "inspector_rest S = drop 7 (default_inspector_keymap S)"

lemma inspector_parts: "default_inspector_keymap S =
   [bind_to ''ctrl-c'' ReturnOriginal, bind_to ''ctrl-g'' ReturnOriginal] @ bind_to ''esc'' Exit # [bind_to ''ctrl-['' Exit, bind_to ''tab'' ReturnSelection, bind_to ''ctrl-o'' ToggleTab]
   @ prefix_binding S # inspector_rest S"
  by (simp add: inspector_rest_def default_inspector_keymap_def)

lemma inspector_rest_keys: "map fst (inspector_rest S) =
   [''enter'', ''ctrl-d'', ''up'', ''down'', ''pageup'', ''pagedown''] @ (if keymap_mode S = KmVimNormal \<or> keymap_mode S = KmVimInsert then [''j'', ''k''] else [])"
  using inspector_keys [of S] by (simp add: inspector_parts)

lemma vim_esc: "key_char (prefix_char S) \<Longrightarrow> keymaps_defaults S = Some ks \<Longrightarrow> km_resolve (ks_vim_normal ks) esc_key ctx = Some Exit"
proof (rule resolve_last [OF defaults_fields(2)])
  show "default_vim_normal_keymap S = common_bindings @ bind_to ''esc'' Exit # bind_to ''ctrl-['' Exit # prefix_binding S # vim_rest S" by (simp add: vim_parts)
  show "list_all (\<lambda>n. input_parse n \<noteq> Inr esc_key) (map fst (bind_to ''ctrl-['' Exit # prefix_binding S # vim_rest S))" if "key_char (prefix_char S)"
    using prefix_not_esc [OF that] by (simp add: vim_rest_keys not_bound)
qed (simp_all add: esc_parse)

lemma insert_esc: "keymaps_defaults S = Some ks \<Longrightarrow> km_resolve (ks_vim_insert ks) esc_key ctx = Some VimEnterNormal"
  by (rule resolve_last [OF defaults_fields(3) default_vim_insert_keymap_def, of S ks]) (simp_all add: esc_parse not_bound)

lemma inspector_esc: "key_char (prefix_char S) \<Longrightarrow> keymaps_defaults S = Some ks \<Longrightarrow> km_resolve (ks_inspector ks) esc_key ctx = Some Exit"
proof (rule resolve_last [OF defaults_fields(4)])
  show "default_inspector_keymap S = [bind_to ''ctrl-c'' ReturnOriginal, bind_to ''ctrl-g'' ReturnOriginal] @ bind_to ''esc'' Exit
    # bind_to ''ctrl-['' Exit # bind_to ''tab'' ReturnSelection # bind_to ''ctrl-o'' ToggleTab # prefix_binding S # inspector_rest S" by (simp add: inspector_parts)
  show "list_all (\<lambda>n. input_parse n \<noteq> Inr esc_key)
    (map fst (bind_to ''ctrl-['' Exit # bind_to ''tab'' ReturnSelection # bind_to ''ctrl-o'' ToggleTab # prefix_binding S # inspector_rest S))" if "key_char (prefix_char S)"
    using prefix_not_esc [OF that] by (simp add: inspector_rest_keys not_bound)
qed (simp_all add: esc_parse)

text \<open>
  with the default keymaps, whatever the settings and the state of the search, escape leaves the search, from the list and from the inspector, and in vim's insert
  mode it enters the normal mode, from where it leaves the search.
\<close>

theorem escape_leaves:
  assumes "keymaps_defaults S = Some ks" "key_char (prefix_char S)"
  shows "km_resolve (ks_emacs ks) (Single (plain_key KEsc)) ctx = Some Exit \<and> km_resolve (ks_inspector ks) (Single (plain_key KEsc)) ctx = Some Exit
    \<and> km_resolve (ks_vim_insert ks) (Single (plain_key KEsc)) ctx = Some VimEnterNormal \<and> km_resolve (ks_vim_normal ks) (Single (plain_key KEsc)) ctx = Some Exit"
  using emacs_esc [OF assms(2,1)] vim_esc [OF assms(2,1)] insert_esc [OF assms(1)] inspector_esc [OF assms(2,1)] by blast

lemma escape_leaves_witness:
  "\<exists>ks. keymaps_defaults (settings_with_prefix ''x'') = Some ks \<and> (\<forall>ctx. km_resolve (ks_emacs ks) (Single (plain_key KEsc)) ctx = Some Exit)"
proof -
  have p: "prefix_char (settings_with_prefix ''x'') = ascii_char CHR ''x''" "key_char (ascii_char CHR ''x'')" using sample_prefix [of "CHR ''x''"] by simp_all
  moreover have "nameable (KChar (ascii_char CHR ''x''))" by (simp add: ascii_char_def code_point_def white_space_def)
  ultimately obtain ks where "keymaps_defaults (settings_with_prefix ''x'') = Some ks" using defaults_built prefix_binding_parses by metis
  then show ?thesis using escape_leaves p by metis
qed

lemma first_rule_in: "first_rule rs ctx = Some a \<Longrightarrow> \<exists>r \<in> set rs. rule_action r = a"
  by (induction rs) (auto split: option.splits if_splits)

definition never_does :: "Action \<Rightarrow> default_binding list \<Rightarrow> bool" where
  "never_does a bs \<longleftrightarrow> list_all (\<lambda>b. list_all (\<lambda>r. rule_action r \<noteq> a) (snd b)) bs"

lemma resolve_unless_rebound:
  assumes "bind_all bs [] = Some km" "bs = xs @ bind_to s a # ys" "input_parse s = Inr k" "never_does a ys"
  shows "km_resolve km k ctx = Some a \<longleftrightarrow> list_all (\<lambda>n. input_parse n \<noteq> Inr k) (map fst ys)"
proof (cases "list_all (\<lambda>n. input_parse n \<noteq> Inr k) (map fst ys)")
  case True
  then show ?thesis using resolve_last [OF assms(1-3) True] by simp
next
  case False
  then obtain b where "b \<in> set ys" "input_parse (fst b) = Inr k" by (auto simp: list_all_iff)
  then obtain b' where "b' \<in> set ys" "map_of km k = Some (snd b')" using bind_all_shadowed [of "xs @ [bind_to s a]" ys km b k] assms(1,2) by auto
  moreover then have "first_rule (snd b') ctx \<noteq> Some a" using first_rule_in assms(4) by (fastforce simp: never_does_def list_all_iff)
  ultimately show ?thesis using False by (simp add: km_resolve_def)
qed

lemmas rule_eval = never_does_def bind_to_def bind_scroll_key_def always_def when_atom_def

lemma emacs_no_prefix: "never_does EnterPrefixMode (emacs_rest S)"
  by (simp add: emacs_rest_def default_emacs_keymap_def common_bindings_def rule_eval accept_action_def digits_upt)

lemma vim_no_prefix: "never_does EnterPrefixMode (vim_rest S)"
  by (simp add: vim_rest_def default_vim_normal_keymap_def common_bindings_def rule_eval accept_action_def digits_upt)

lemma inspector_no_prefix: "never_does EnterPrefixMode (inspector_rest S)"
  by (simp add: inspector_rest_def default_inspector_keymap_def rule_eval accept_action_def)

lemma prefix_is: "keymaps_defaults S = Some ks \<Longrightarrow> key_char (prefix_char S) \<Longrightarrow>
    input_parse (''ctrl-'' @ fst (prefix_char S) # snd (prefix_char S)) = Inr (Single (ctrl_key (KChar (prefix_char S))))"
  using defaults_built [of S] prefix_key [of S] by (auto simp: parses_def prefix_binding_def bind_to_def)

lemma emacs_rebound:
  "list_all (\<lambda>n. input_parse n \<noteq> Inr (Single (ctrl_key (KChar p)))) (map fst (emacs_rest S)) \<longleftrightarrow>
   p \<notin> ascii_char ` set (''bdefhjklmnprsuwy?'' @ (if ctrl_n_shortcuts S then ''123456789'' else [])) \<and> (p = ascii_char CHR ''a'' \<longrightarrow> prefix_char S = p)"
  unfolding emacs_rest_keys by (simp add: spec_input spec_words) blast

lemma vim_rebound: "list_all (\<lambda>n. input_parse n \<noteq> Inr (Single (ctrl_key (KChar p)))) (map fst (vim_rest S)) \<longleftrightarrow> p \<notin> ascii_char ` set ''bdfu''"
  unfolding vim_rest_keys by (simp add: spec_input spec_sequence spec_words) blast

lemma inspector_rebound: "list_all (\<lambda>n. input_parse n \<noteq> Inr (Single (ctrl_key (KChar p)))) (map fst (inspector_rest S)) \<longleftrightarrow> p \<noteq> ascii_char CHR ''d''"
  unfolding inspector_rest_keys by (simp add: spec_input spec_words) blast

text \<open>
  where the prefix of the settings enters the prefix mode. In the emacs keymap it does not when it is one of the keys bound after it, as in \<open>ctrl-r\<close>, or a digit
  with \<open>ctrl_n_shortcuts\<close>; in vim's normal mode when it is one of b, d, f and u; in the inspector when it is d. Then the prefix mode cannot be entered there.
\<close>

theorem prefix_key_rebound:
  assumes "keymaps_defaults S = Some ks" "key_char (prefix_char S)" "k = Single (ctrl_key (KChar (prefix_char S)))"
  shows "(km_resolve (ks_emacs ks) k ctx = Some EnterPrefixMode \<longleftrightarrow>
            prefix_char S \<notin> ascii_char ` set (''bdefhjklmnprsuwy?'' @ (if ctrl_n_shortcuts S then ''123456789'' else [])))
       \<and> (km_resolve (ks_vim_normal ks) k ctx = Some EnterPrefixMode \<longleftrightarrow> prefix_char S \<notin> ascii_char ` set ''bdfu'')
       \<and> (km_resolve (ks_inspector ks) k ctx = Some EnterPrefixMode \<longleftrightarrow> prefix_char S \<noteq> ascii_char CHR ''d'')"
proof (intro conjI)
  note pk = prefix_is [OF assms(1,2)]
  have e: "default_emacs_keymap S = (common_bindings @ [bind_to ''esc'' Exit, bind_to ''ctrl-['' Exit])
      @ bind_to (''ctrl-'' @ fst (prefix_char S) # snd (prefix_char S)) EnterPrefixMode # emacs_rest S"
    and v: "default_vim_normal_keymap S = (common_bindings @ [bind_to ''esc'' Exit, bind_to ''ctrl-['' Exit])
      @ bind_to (''ctrl-'' @ fst (prefix_char S) # snd (prefix_char S)) EnterPrefixMode # vim_rest S"
    and i: "default_inspector_keymap S = [bind_to ''ctrl-c'' ReturnOriginal, bind_to ''ctrl-g'' ReturnOriginal, bind_to ''esc'' Exit, bind_to ''ctrl-['' Exit,
      bind_to ''tab'' ReturnSelection, bind_to ''ctrl-o'' ToggleTab] @ bind_to (''ctrl-'' @ fst (prefix_char S) # snd (prefix_char S)) EnterPrefixMode # inspector_rest S"
    by (simp_all add: emacs_parts vim_parts inspector_parts prefix_binding_def)
  show "km_resolve (ks_emacs ks) k ctx = Some EnterPrefixMode \<longleftrightarrow>
      prefix_char S \<notin> ascii_char ` set (''bdefhjklmnprsuwy?'' @ (if ctrl_n_shortcuts S then ''123456789'' else []))"
    using resolve_unless_rebound [OF defaults_fields(1) [OF assms(1)] e pk emacs_no_prefix] unfolding assms(3) emacs_rebound by blast
  show "km_resolve (ks_vim_normal ks) k ctx = Some EnterPrefixMode \<longleftrightarrow> prefix_char S \<notin> ascii_char ` set ''bdfu''"
    using resolve_unless_rebound [OF defaults_fields(2) [OF assms(1)] v pk vim_no_prefix] unfolding assms(3) vim_rebound .
  show "km_resolve (ks_inspector ks) k ctx = Some EnterPrefixMode \<longleftrightarrow> prefix_char S \<noteq> ascii_char CHR ''d''"
    using resolve_unless_rebound [OF defaults_fields(4) [OF assms(1)] i pk inspector_no_prefix] unfolding assms(3) inspector_rebound .
qed

lemma prefix_key_rebound_witness:
  "\<exists>ks. keymaps_defaults (settings_with_prefix ''r'') = Some ks \<and> (\<forall>ctx. km_resolve (ks_emacs ks) (Single (ctrl_key (KChar (ascii_char CHR ''r'')))) ctx \<noteq> Some EnterPrefixMode)"
proof -
  have p: "prefix_char (settings_with_prefix ''r'') = ascii_char CHR ''r''" "key_char (ascii_char CHR ''r'')" using sample_prefix [of "CHR ''r''"] by simp_all
  moreover have "nameable (KChar (ascii_char CHR ''r''))" by (simp add: ascii_char_def code_point_def white_space_def)
  ultimately obtain ks where ks: "keymaps_defaults (settings_with_prefix ''r'') = Some ks" using defaults_built prefix_binding_parses by metis
  then show ?thesis using prefix_key_rebound [of "settings_with_prefix ''r''" ks] p by (intro exI [of _ ks]) simp
qed

section \<open>Overrides\<close>

lemma apply_overrides:
  "map_of (apply_config_to_keymap os km) k =
     (case find (\<lambda>(s, c). input_parse s = Inr k \<and> (\<exists>b. parse_binding_config c = Inr b)) (rev os) of
        Some (s, c) \<Rightarrow> (case parse_binding_config c of Inr b \<Rightarrow> Some b | Inl _ \<Rightarrow> None)
      | None \<Rightarrow> map_of km k)"
proof (induction os km rule: apply_config_to_keymap.induct)
  case (2 s c os km)
  have app: "find P (xs @ [x]) = (case find P xs of None \<Rightarrow> if P x then Some x else None | Some y \<Rightarrow> Some y)" for P and xs :: "(string \<times> KeyBindingConfig) list" and x
    by (induction xs) auto
  show ?case using 2 by (auto simp: app update_conv' split: sum.splits option.splits)
qed simp

definition override_of :: "key_overrides \<Rightarrow> KeyInput \<Rightarrow> KeyBinding \<Rightarrow> bool" where
  "override_of os k b \<longleftrightarrow> list_ex (\<lambda>(s, c). input_parse s = Inr k \<and> parse_binding_config c = Inr b) os"

lemma find_exists: "\<exists>x \<in> set xs. P x \<Longrightarrow> \<exists>x. find P xs = Some x \<and> P x \<and> x \<in> set xs"
  by (induction xs) auto

lemma override_found:
  assumes "override_of os k b" "\<And>b'. override_of os k b' \<Longrightarrow> b' = b"
  shows "map_of (apply_config_to_keymap os km) k = Some b"
proof -
  let ?P = "\<lambda>(s, c). input_parse s = Inr k \<and> (\<exists>b. parse_binding_config c = Inr b)"
  have "\<exists>x \<in> set (rev os). ?P x" using assms(1) by (fastforce simp: override_of_def list_ex_iff)
  then obtain s c where f: "find ?P (rev os) = Some (s, c)" and P: "?P (s, c)" "(s, c) \<in> set os" using find_exists [of "rev os" ?P] by auto
  then obtain b' where "parse_binding_config c = Inr b'" "override_of os k b'" by (auto simp: override_of_def list_ex_iff)
  then show ?thesis using assms(2) f by (simp add: apply_overrides)
qed

lemma override_none: "(\<And>b. \<not> override_of os k b) \<Longrightarrow> map_of (apply_config_to_keymap os km) k = map_of km k"
proof -
  assume none: "\<And>b. \<not> override_of os k b"
  have "find (\<lambda>(s, c). input_parse s = Inr k \<and> (\<exists>b. parse_binding_config c = Inr b)) (rev os) = None"
    using none by (auto simp: find_None_iff override_of_def list_ex_iff)
  then show ?thesis by (simp add: apply_overrides)
qed

text \<open>
  the user's bindings, whose order is a hash map's. A key that one valid binding names, or several that agree, does what that binding says, whatever the order;
  a key that none names does what it did by default; a binding with an unknown key, action or condition changes nothing.
\<close>

theorem overrides_exact:
  assumes "\<And>b b'. override_of os k b \<Longrightarrow> override_of os k b' \<Longrightarrow> b' = b"
  shows "if \<exists>b. override_of os k b
         then \<exists>b. override_of os k b \<and> (\<forall>os' km. set os' = set os \<longrightarrow> km_resolve (apply_config_to_keymap os' km) k ctx = first_rule b ctx)
         else \<forall>km. km_resolve (apply_config_to_keymap os km) k ctx = km_resolve km k ctx"
proof (cases "\<exists>b. override_of os k b")
  case True
  then obtain b where b: "override_of os k b" by blast
  have "km_resolve (apply_config_to_keymap os' km) k ctx = first_rule b ctx" if "set os' = set os" for os' km
  proof -
    have "override_of os' k = override_of os k" using that by (simp add: override_of_def list_ex_iff fun_eq_iff)
    then have "map_of (apply_config_to_keymap os' km) k = Some b" using b assms by (intro override_found) auto
    then show ?thesis by (simp add: km_resolve_def)
  qed
  then show ?thesis using True b by auto
next
  case False
  then show ?thesis using override_none [of os k] by (auto simp: km_resolve_def)
qed

lemma noop_action: "action_from_str ''noop'' = Some Noop"
  by (simp add: action_from_str_def nth_of_def strip_str_def starts_with_def action_names_def)

lemma overrides_exact_witness:
  "\<forall>ctx. km_resolve (apply_config_to_keymap [(''ctrl-r'', Simple ''noop''), (''bogus'', Simple ''noop'')] []) (Single (ctrl_key (KChar (ascii_char CHR ''r'')))) ctx = Some Noop"
proof
  fix ctx
  let ?k = "Single (ctrl_key (KChar (ascii_char CHR ''r'')))" and ?os = "[(''ctrl-r'', Simple ''noop''), (''bogus'', Simple ''noop'')]"
  have b: "override_of ?os ?k b \<longleftrightarrow> b = [always Noop]" for b
    using spec_input [of "''ctrl-r''"] by (auto simp: override_of_def parse_binding_config_def noop_action)
  have "if \<exists>b. override_of ?os ?k b
         then \<exists>b. override_of ?os ?k b \<and> (\<forall>os' km. set os' = set ?os \<longrightarrow> km_resolve (apply_config_to_keymap os' km) ?k ctx = first_rule b ctx)
         else \<forall>km. km_resolve (apply_config_to_keymap ?os km) ?k ctx = km_resolve km ?k ctx"
    by (rule overrides_exact) (simp add: b)
  then show "km_resolve (apply_config_to_keymap ?os []) ?k ctx = Some Noop" unfolding b by (simp del: apply_config_to_keymap.simps add: always_def)
qed

section \<open>Names of actions\<close>

fun usable_action :: "Action \<Rightarrow> bool" where
  "usable_action (AcceptNth n) \<longleftrightarrow> 1 \<le> n \<and> n \<le> 9"
| "usable_action (ReturnSelectionNth n) \<longleftrightarrow> 1 \<le> n \<and> n \<le> 9"
| "usable_action _ \<longleftrightarrow> True"

lemma not_numbered: "\<not> starts_with ''accept-'' s \<Longrightarrow> \<not> starts_with ''return-selection-'' s \<Longrightarrow> action_from_str s = map_of action_names s"
  by (simp add: action_from_str_def nth_of_def strip_str_def)

lemma action_names_read: "usable_action a \<Longrightarrow> action_from_str (action_as_str a) = Some a"
proof (cases a)
  case (AcceptNth n)
  assume "usable_action a"
  then show ?thesis using AcceptNth by (simp add: action_from_str_def nth_of_def strip_str_def starts_with_def parse_show_nat)
next
  case (ReturnSelectionNth n)
  assume "usable_action a"
  then show ?thesis using ReturnSelectionNth by (simp add: action_from_str_def nth_of_def strip_str_def starts_with_def parse_show_nat)
qed (simp_all add: not_numbered starts_with_def action_names_def)

end
