(* ===== verification/Paseto.thy ===== *)
theory Paseto
  imports Prelude
begin

text \<open>
  The envelope encryption of records, \<open>atuin-common/src/encryption/paseto_v4.rs\<close>: a fresh
  content-encryption key (CEK) seals the payload, and the user's key wraps the CEK.

  The primitives come from other packages (\<open>rusty_paseto\<close>, \<open>rusty_paserk\<close>, \<open>base64\<close> and
  \<open>serde_json\<close>): they are the fields of \<open>prims\<close>, a parameter of every definition. What the
  code relies on is the predicate \<open>prims_ok\<close>: decoding inverts encoding, a token opens under
  the key and the assertion it was sealed with and under no other, a wrapped key opens under
  the wrapping key. Random keys and nonces are the argument \<open>entropy\<close>; drawing one may fail.
\<close>

type_synonym Key = bytes

record EncryptedData =
  raw :: string
  cek :: string

datatype cek_EncryptionError = CekEncJson string

datatype cek_DecryptionError =
    CekDecJson string
  | MismatchedKey string string
  | CekDecPaseto string

datatype EncryptionError =
    CekGeneration string
  | DataJson string
  | NonceGeneration string
  | Encryption string
  | CekEnc cek_EncryptionError

datatype DecryptionError =
    CekDec cek_DecryptionError
  | Decryption string
  | DecJson string
  | Base64 string

datatype ReencryptionError =
    ReCekDec cek_DecryptionError
  | ReCekEnc cek_EncryptionError

record prims =
  try_encrypt :: "Key \<Rightarrow> Key \<Rightarrow> string \<Rightarrow> string option \<Rightarrow> string + string"
  try_decrypt :: "string \<Rightarrow> Key \<Rightarrow> string option \<Rightarrow> string + string"
  wrap_pie :: "bytes \<Rightarrow> Key \<Rightarrow> Key \<Rightarrow> string"
  unwrap_key :: "string \<Rightarrow> Key \<Rightarrow> string + Key"
  key_id :: "Key \<Rightarrow> string"
  b64_encode :: "bytes \<Rightarrow> string"
  b64_decode :: "string \<Rightarrow> string + bytes"
  data_to_json :: "string \<Rightarrow> string + string"
  data_of_json :: "string \<Rightarrow> string + string"
  cek_to_json :: "string \<Rightarrow> string \<Rightarrow> string + string"
  cek_of_json :: "string \<Rightarrow> string + (string \<times> string)"

text \<open>The draws of the operating system's generator that one encryption makes.\<close>

record entropy =
  new_cek :: "string + Key"
  new_nonce :: "string + Key"
  pie_nonce :: bytes

section \<open>The content-encryption key\<close>

definition cek_encrypt :: "prims \<Rightarrow> bytes \<Rightarrow> Key \<Rightarrow> Key \<Rightarrow> cek_EncryptionError + string" where
  "cek_encrypt P n k parent =
     (case cek_to_json P (wrap_pie P n k parent) (key_id P parent) of
        Inl e \<Rightarrow> Inl (CekEncJson e)
      | Inr s \<Rightarrow> Inr s)"

definition cek_decrypt :: "prims \<Rightarrow> string \<Rightarrow> Key \<Rightarrow> cek_DecryptionError + Key" where
  "cek_decrypt P encrypted_json k =
     (case cek_of_json P encrypted_json of
        Inl e \<Rightarrow> Inl (CekDecJson e)
      | Inr (wpk, kid) \<Rightarrow>
          if kid \<noteq> key_id P k then Inl (MismatchedKey kid (key_id P k))
          else (case unwrap_key P wpk k of
                  Inl e \<Rightarrow> Inl (CekDecPaseto e)
                | Inr c \<Rightarrow> Inr c))"

section \<open>Sealing and opening data\<close>

definition encrypt_sync ::
  "prims \<Rightarrow> entropy \<Rightarrow> bytes \<Rightarrow> string option \<Rightarrow> Key \<Rightarrow> EncryptionError + EncryptedData" where
  "encrypt_sync P rnd d assertion k =
     (case new_cek rnd of
        Inl e \<Rightarrow> Inl (CekGeneration e)
      | Inr random_key \<Rightarrow>
     (case data_to_json P (b64_encode P d) of
        Inl e \<Rightarrow> Inl (DataJson e)
      | Inr payload \<Rightarrow>
     (case new_nonce rnd of
        Inl e \<Rightarrow> Inl (NonceGeneration e)
      | Inr nonce \<Rightarrow>
     (case try_encrypt P random_key nonce payload assertion of
        Inl e \<Rightarrow> Inl (Encryption e)
      | Inr token \<Rightarrow>
     (case cek_encrypt P (pie_nonce rnd) random_key k of
        Inl e \<Rightarrow> Inl (CekEnc e)
      | Inr c \<Rightarrow> Inr \<lparr>raw = token, cek = c\<rparr>)))))"

definition decrypt_sync ::
  "prims \<Rightarrow> EncryptedData \<Rightarrow> string option \<Rightarrow> Key \<Rightarrow> DecryptionError + bytes" where
  "decrypt_sync P d assertion k =
     (case cek_decrypt P (cek d) k of
        Inl e \<Rightarrow> Inl (CekDec e)
      | Inr c \<Rightarrow>
     (case try_decrypt P (raw d) c assertion of
        Inl e \<Rightarrow> Inl (Decryption e)
      | Inr payload_str \<Rightarrow>
     (case data_of_json P payload_str of
        Inl e \<Rightarrow> Inl (DecJson e)
      | Inr payload \<Rightarrow>
     (case b64_decode P payload of
        Inl e \<Rightarrow> Inl (Base64 e)
      | Inr decoded \<Rightarrow> Inr decoded))))"

definition reencrypt_sync ::
  "prims \<Rightarrow> bytes \<Rightarrow> EncryptedData \<Rightarrow> Key \<Rightarrow> Key \<Rightarrow> ReencryptionError + EncryptedData" where
  "reencrypt_sync P n d old_key new_key =
     (case cek_decrypt P (cek d) old_key of
        Inl e \<Rightarrow> Inl (ReCekDec e)
      | Inr c \<Rightarrow>
     (case cek_encrypt P n c new_key of
        Inl e \<Rightarrow> Inl (ReCekEnc e)
      | Inr c' \<Rightarrow> Inr \<lparr>raw = raw d, cek = c'\<rparr>))"

section \<open>What the primitives promise\<close>

definition prims_ok :: "prims \<Rightarrow> bool" where
  "prims_ok P \<longleftrightarrow>
     (\<forall>k n p a. \<exists>t. try_encrypt P k n p a = Inr t \<and> try_decrypt P t k a = Inr p
        \<and> (\<forall>k' a'. (k', a') \<noteq> (k, a) \<longrightarrow> (\<exists>e. try_decrypt P t k' a' = Inl e)))
     \<and> (\<forall>n c k. unwrap_key P (wrap_pie P n c k) k = Inr c)
     \<and> (\<forall>d. b64_decode P (b64_encode P d) = Inr d)
     \<and> (\<forall>s. \<exists>j. data_to_json P s = Inr j \<and> data_of_json P j = Inr s)
     \<and> (\<forall>w i. \<exists>j. cek_to_json P w i = Inr j \<and> cek_of_json P j = Inr (w, i))
     \<and> (\<exists>e. cek_of_json P [] = Inl e)"

abbreviation entropy_ok :: "entropy \<Rightarrow> bool" where
  "entropy_ok rnd \<equiv> (\<exists>c n. new_cek rnd = Inr c \<and> new_nonce rnd = Inr n)"

lemma prims_token:
  assumes "prims_ok P"
  obtains t where "try_encrypt P k n p a = Inr t" "try_decrypt P t k a = Inr p"
    "\<forall>k' a'. (k', a') \<noteq> (k, a) \<longrightarrow> (\<exists>e. try_decrypt P t k' a' = Inl e)"
proof -
  from assms have "\<exists>t. try_encrypt P k n p a = Inr t \<and> try_decrypt P t k a = Inr p
      \<and> (\<forall>k' a'. (k', a') \<noteq> (k, a) \<longrightarrow> (\<exists>e. try_decrypt P t k' a' = Inl e))"
    unfolding prims_ok_def by blast
  with that show ?thesis by blast
qed

lemma prims_data_json:
  assumes "prims_ok P"
  obtains j where "data_to_json P s = Inr j" "data_of_json P j = Inr s"
  using assms unfolding prims_ok_def by blast

lemma prims_cek_json:
  assumes "prims_ok P"
  obtains j where "cek_to_json P w i = Inr j" "cek_of_json P j = Inr (w, i)"
  using assms unfolding prims_ok_def by blast

lemma prims_b64: "prims_ok P \<Longrightarrow> b64_decode P (b64_encode P d) = Inr d"
  unfolding prims_ok_def by blast

lemma prims_unwrap: "prims_ok P \<Longrightarrow> unwrap_key P (wrap_pie P n c k) k = Inr c"
  unfolding prims_ok_def by blast

lemma prims_no_cek: "prims_ok P \<Longrightarrow> \<exists>e. cek_of_json P [] = Inl e"
  unfolding prims_ok_def by blast

section \<open>Lemmas\<close>

lemma cek_roundtrip:
  assumes "prims_ok P"
  obtains s where "cek_encrypt P n c k = Inr s" "cek_decrypt P s k = Inr c"
    "\<forall>k'. key_id P k' \<noteq> key_id P k \<longrightarrow> cek_decrypt P s k' = Inl (MismatchedKey (key_id P k) (key_id P k'))"
proof -
  obtain j where "cek_to_json P (wrap_pie P n c k) (key_id P k) = Inr j"
      "cek_of_json P j = Inr (wrap_pie P n c k, key_id P k)"
    using assms by (rule prims_cek_json)
  with assms show ?thesis
    by (intro that [of j]) (auto simp: cek_encrypt_def cek_decrypt_def prims_unwrap)
qed

text \<open>One sealed message, with everything the opening side can do with it.\<close>

lemma encrypt_sync_sealed:
  assumes P: "prims_ok P" and rnd: "entropy_ok rnd"
  obtains x where "encrypt_sync P rnd d a k = Inr x" "decrypt_sync P x a k = Inr d"
    "\<forall>a'. a' \<noteq> a \<longrightarrow> (\<exists>e. decrypt_sync P x a' k = Inl e)"
    "\<forall>k' a'. key_id P k' \<noteq> key_id P k \<longrightarrow>
        decrypt_sync P x a' k' = Inl (CekDec (MismatchedKey (key_id P k) (key_id P k')))"
    "\<forall>new m. \<exists>y. reencrypt_sync P m x k new = Inr y \<and> decrypt_sync P y a new = Inr d"
proof -
  from rnd obtain c n where c: "new_cek rnd = Inr c" and n: "new_nonce rnd = Inr n" by blast
  obtain j where j: "data_to_json P (b64_encode P d) = Inr j" "data_of_json P j = Inr (b64_encode P d)"
    using P by (rule prims_data_json)
  obtain t where t: "try_encrypt P c n j a = Inr t" "try_decrypt P t c a = Inr j"
      and other: "\<forall>k' a'. (k', a') \<noteq> (c, a) \<longrightarrow> (\<exists>e. try_decrypt P t k' a' = Inl e)"
    using P by (rule prims_token [where k = c and n = n and p = j and a = a])
  obtain s where s: "cek_encrypt P (pie_nonce rnd) c k = Inr s" "cek_decrypt P s k = Inr c"
      and mism: "\<forall>k'. key_id P k' \<noteq> key_id P k \<longrightarrow>
        cek_decrypt P s k' = Inl (MismatchedKey (key_id P k) (key_id P k'))"
    using P by (rule cek_roundtrip [where n = "pie_nonce rnd" and c = c and k = k])
  note facts = c n j t s prims_b64 [OF P]
  show ?thesis
  proof (rule that [of "\<lparr>raw = t, cek = s\<rparr>"])
    show "encrypt_sync P rnd d a k = Inr \<lparr>raw = t, cek = s\<rparr>"
      by (simp add: encrypt_sync_def facts)
    show "decrypt_sync P \<lparr>raw = t, cek = s\<rparr> a k = Inr d"
      by (simp add: decrypt_sync_def facts)
    show "\<forall>a'. a' \<noteq> a \<longrightarrow> (\<exists>e. decrypt_sync P \<lparr>raw = t, cek = s\<rparr> a' k = Inl e)"
    proof (intro allI impI)
      fix a' assume "a' \<noteq> a"
      with other obtain e where "try_decrypt P t c a' = Inl e" by blast
      then show "\<exists>e. decrypt_sync P \<lparr>raw = t, cek = s\<rparr> a' k = Inl e"
        by (simp add: decrypt_sync_def facts)
    qed
    show "\<forall>k' a'. key_id P k' \<noteq> key_id P k \<longrightarrow> decrypt_sync P \<lparr>raw = t, cek = s\<rparr> a' k' =
        Inl (CekDec (MismatchedKey (key_id P k) (key_id P k')))"
      using mism by (simp add: decrypt_sync_def)
    show "\<forall>new m. \<exists>y. reencrypt_sync P m \<lparr>raw = t, cek = s\<rparr> k new = Inr y \<and> decrypt_sync P y a new = Inr d"
    proof (intro allI)
      fix new m
      obtain s' where "cek_encrypt P m c new = Inr s'" "cek_decrypt P s' new = Inr c"
        using P by (rule cek_roundtrip [where n = m and c = c and k = new])
      then show "\<exists>y. reencrypt_sync P m \<lparr>raw = t, cek = s\<rparr> k new = Inr y \<and> decrypt_sync P y a new = Inr d"
        by (simp add: reencrypt_sync_def decrypt_sync_def facts)
    qed
  qed
qed

text \<open>Rewrapping keeps whatever could be opened openable, with the same content.\<close>

lemma reencrypt_sync_opens:
  assumes P: "prims_ok P" and d: "decrypt_sync P x a old = Inr d"
  obtains y where "reencrypt_sync P m x old new = Inr y" "decrypt_sync P y a new = Inr d"
proof -
  from d obtain c where c: "cek_decrypt P (cek x) old = Inr c"
    by (auto simp: decrypt_sync_def split: sum.splits)
  obtain s where "cek_encrypt P m c new = Inr s" "cek_decrypt P s new = Inr c"
    using P by (rule cek_roundtrip [where n = m and c = c and k = new])
  with c d show ?thesis
    by (intro that [of "\<lparr>raw = raw x, cek = s\<rparr>"]) (auto simp: reencrypt_sync_def decrypt_sync_def)
qed

lemma decrypt_sync_no_cek:
  "prims_ok P \<Longrightarrow> cek x = [] \<Longrightarrow> \<exists>e. decrypt_sync P x a k = Inl (CekDec (CekDecJson e))"
  using prims_no_cek [of P] by (auto simp: decrypt_sync_def cek_decrypt_def)

lemma reencrypt_sync_no_cek:
  "prims_ok P \<Longrightarrow> cek x = [] \<Longrightarrow> \<exists>e. reencrypt_sync P n x k k' = Inl (ReCekDec (CekDecJson e))"
  using prims_no_cek [of P] by (auto simp: reencrypt_sync_def cek_decrypt_def)

section \<open>An instance of the primitives\<close>

text \<open>
  A transparent instance that keeps the promises, for the witnesses: a token frames the key,
  the assertion and the payload by their lengths in unary, so that it opens only for the
  key and the assertion it carries. It is no model of the ciphers.
\<close>

definition frame :: "string \<Rightarrow> string" where
  "frame s = replicate (length s) CHR ''x'' @ CHR ''.'' # s"

definition unframe :: "string \<Rightarrow> (string \<times> string) option" where
  "unframe s =
     (let n = length (takeWhile (\<lambda>c. c = CHR ''x'') s); r = drop n s
      in if r = [] \<or> length r < Suc n then None else Some (take n (tl r), drop n (tl r)))"

definition bytes_str :: "bytes \<Rightarrow> string" where
  "bytes_str = map (\<lambda>b. char_of (unat b))"

definition str_bytes :: "string \<Rightarrow> bytes" where
  "str_bytes = map (\<lambda>c. of_nat (of_char c))"

definition opt_str :: "string option \<Rightarrow> string" where
  "opt_str a = (case a of None \<Rightarrow> ''n'' | Some s \<Rightarrow> CHR ''s'' # s)"

definition clear_prims :: prims where
  "clear_prims =
     \<lparr>try_encrypt = (\<lambda>k n p a. Inr (frame (bytes_str k) @ frame (opt_str a) @ p)),
      try_decrypt = (\<lambda>t k a.
        (case unframe t of
           None \<Rightarrow> Inl ''token''
         | Some (k', r) \<Rightarrow>
             (case unframe r of
                None \<Rightarrow> Inl ''token''
              | Some (a', p) \<Rightarrow> if k' = bytes_str k \<and> a' = opt_str a then Inr p else Inl ''key''))),
      wrap_pie = (\<lambda>n c k. bytes_str c),
      unwrap_key = (\<lambda>s k. Inr (str_bytes s)),
      key_id = bytes_str,
      b64_encode = bytes_str,
      b64_decode = (\<lambda>s. Inr (str_bytes s)),
      data_to_json = (\<lambda>s. Inr s),
      data_of_json = (\<lambda>s. Inr s),
      cek_to_json = (\<lambda>w i. Inr (frame w @ i)),
      cek_of_json = (\<lambda>s. case unframe s of None \<Rightarrow> Inl ''json'' | Some r \<Rightarrow> Inr r)\<rparr>"

definition clear_entropy :: entropy where
  "clear_entropy = \<lparr>new_cek = Inr [7], new_nonce = Inr [9], pie_nonce = []\<rparr>"

lemma takeWhile_replicate_eq: "b \<noteq> a \<Longrightarrow> takeWhile (\<lambda>c. c = a) (replicate n a @ b # r) = replicate n a"
  by (induction n) auto

lemma unframe_frame [simp]: "unframe (frame s @ r) = Some (s, r)"
  by (simp add: frame_def unframe_def Let_def takeWhile_replicate_eq)

lemma unframe_Nil [simp]: "unframe [] = None"
  by (simp add: unframe_def)

lemma str_bytes_bytes_str [simp]: "str_bytes (bytes_str b) = b"
proof -
  have "of_nat (of_char (char_of (unat x) :: char)) = x" for x :: byte
  proof -
    have "unat x < 2 ^ LENGTH(8)" by (rule unsigned_less)
    then show ?thesis by simp
  qed
  then show ?thesis by (simp add: str_bytes_def bytes_str_def comp_def)
qed

lemma bytes_str_inject [simp]: "bytes_str a = bytes_str b \<longleftrightarrow> a = b"
  by (metis str_bytes_bytes_str)

lemma opt_str_inject [simp]: "opt_str a = opt_str b \<longleftrightarrow> a = b"
  by (auto simp: opt_str_def split: option.splits)

lemma clear_prims_ok: "prims_ok clear_prims"
  by (auto simp: prims_ok_def clear_prims_def)

end
