(* ===== verification/Domain_Record.thy ===== *)
theory Domain_Record
  imports Paseto "HOL-Library.AList"
begin

text \<open>
  The record domain, \<open>atuin-domain/src/record\<close>: tags (\<open>tag.rs\<close>), versions (\<open>version.rs\<close>),
  records with their encryption, the status index of a record store and the difference of two
  such indices (\<open>mod.rs\<close>).

  A \<open>HashMap\<close> is an association list with distinct keys in an arbitrary order, the order in
  which the code happens to iterate over it; \<open>wf_status\<close> is that well-formedness.
\<close>

type_synonym RecordId = uuid
type_synonym HostId = uuid
type_synonym RecordIdx = nat

section \<open>Tags and versions\<close>

datatype RecordTag =
    History
  | Kv
  | Script
  | DotfilesVar
  | ConfigShellAlias
  | Packfile
  | Other string

fun tag_as_str :: "RecordTag \<Rightarrow> string" where
  "tag_as_str History = ''history''"
| "tag_as_str Kv = ''kv''"
| "tag_as_str Script = ''script''"
| "tag_as_str DotfilesVar = ''dotfiles-var''"
| "tag_as_str ConfigShellAlias = ''config-shell-alias''"
| "tag_as_str Packfile = ''packfile''"
| "tag_as_str (Other s) = s"

definition tag_from :: "string \<Rightarrow> RecordTag" where
  "tag_from s =
     (if s = ''history'' then History
      else if s = ''kv'' then Kv
      else if s = ''script'' then Script
      else if s = ''dotfiles-var'' then DotfilesVar
      else if s = ''config-shell-alias'' then ConfigShellAlias
      else if s = ''packfile'' then Packfile
      else Other s)"

fun variant_rank :: "RecordTag \<Rightarrow> nat" where
  "variant_rank History = 0"
| "variant_rank Kv = 1"
| "variant_rank Script = 2"
| "variant_rank DotfilesVar = 3"
| "variant_rank ConfigShellAlias = 4"
| "variant_rank Packfile = 5"
| "variant_rank (Other _) = 6"

definition tag_key :: "RecordTag \<Rightarrow> string \<times> nat" where
  "tag_key t = (tag_as_str t, variant_rank t)"

lemma tag_key_inject [simp]: "tag_key a = tag_key b \<longleftrightarrow> a = b"
  by (cases a; cases b) (auto simp: tag_key_def)

text \<open>The order of tags is the one of their strings, then of their variants (\<open>Ord for RecordTag\<close>).\<close>

instantiation RecordTag :: linorder
begin

definition less_eq_RecordTag :: "RecordTag \<Rightarrow> RecordTag \<Rightarrow> bool" where
  "less_eq_RecordTag a b \<longleftrightarrow> tag_key a \<le> tag_key b"

definition less_RecordTag :: "RecordTag \<Rightarrow> RecordTag \<Rightarrow> bool" where
  "less_RecordTag a b \<longleftrightarrow> tag_key a < tag_key b"

instance
  by standard (auto simp: less_eq_RecordTag_def less_RecordTag_def dest: antisym simp flip: tag_key_inject)

end

datatype RecordVersion = V0 | V1 | V2 | OtherVersion string

fun version_as_str :: "RecordVersion \<Rightarrow> string" where
  "version_as_str V0 = ''v0''"
| "version_as_str V1 = ''v1''"
| "version_as_str V2 = ''v2''"
| "version_as_str (OtherVersion s) = s"

definition version_from :: "string \<Rightarrow> RecordVersion" where
  "version_from s =
     (if s = ''v0'' then V0 else if s = ''v1'' then V1 else if s = ''v2'' then V2 else OtherVersion s)"

text \<open>A tag that parsing can return: no \<open>Other\<close> spells a dedicated variant.\<close>

definition canonical_tag :: "RecordTag \<Rightarrow> bool" where
  "canonical_tag t \<longleftrightarrow> tag_from (tag_as_str t) = t"

definition canonical_version :: "RecordVersion \<Rightarrow> bool" where
  "canonical_version v \<longleftrightarrow> version_from (version_as_str v) = v"

section \<open>Records\<close>

record Host =
  host_uuid :: HostId
  host_name :: string

definition Host_new :: "HostId \<Rightarrow> Host" where
  "Host_new h = \<lparr>host_uuid = h, host_name = []\<rparr>"

record AdditionalData =
  ad_id :: RecordId
  ad_idx :: nat
  ad_version :: string
  ad_tag :: string
  ad_host :: HostId

record RecordSeriesKey =
  series_host :: HostId
  series_tag :: RecordTag

definition RecordSeriesKey_new :: "HostId \<Rightarrow> RecordTag \<Rightarrow> RecordSeriesKey" where
  "RecordSeriesKey_new h t = \<lparr>series_host = h, series_tag = t\<rparr>"

record 'd Record =
  rec_id :: RecordId
  rec_idx :: RecordIdx
  rec_host :: Host
  rec_timestamp :: nat
  rec_version :: RecordVersion
  rec_tag :: RecordTag
  rec_data :: 'd

type_synonym DecryptedData = bytes
type_synonym DecryptedRecord = "DecryptedData Record"
type_synonym EncryptedRecord = "EncryptedData Record"

definition additional_data :: "'d Record \<Rightarrow> AdditionalData" where
  "additional_data r =
     \<lparr>ad_id = rec_id r, ad_idx = rec_idx r, ad_version = version_as_str (rec_version r),
      ad_tag = tag_as_str (rec_tag r), ad_host = host_uuid (rec_host r)\<rparr>"

definition series_key :: "'d Record \<Rightarrow> RecordSeriesKey" where
  "series_key r = \<lparr>series_host = host_uuid (rec_host r), series_tag = rec_tag r\<rparr>"

text \<open>The builder of \<open>Record\<close>: a fresh id and the current time are its defaults.\<close>

definition Record_build ::
  "RecordId \<Rightarrow> nat \<Rightarrow> Host \<Rightarrow> RecordVersion \<Rightarrow> RecordTag \<Rightarrow> RecordIdx \<Rightarrow> 'd \<Rightarrow> 'd Record" where
  "Record_build new_id now h v t i d =
     \<lparr>rec_id = new_id, rec_idx = i, rec_host = h, rec_timestamp = now, rec_version = v,
      rec_tag = t, rec_data = d\<rparr>"

definition append_record :: "RecordId \<Rightarrow> nat \<Rightarrow> 'd Record \<Rightarrow> bytes \<Rightarrow> DecryptedRecord" where
  "append_record new_id now r d =
     Record_build new_id now (rec_host r) (rec_version r) (rec_tag r) (u64_add (rec_idx r) 1) d"

definition map_data :: "('d \<Rightarrow> 'e) \<Rightarrow> 'd Record \<Rightarrow> 'e Record" where
  "map_data f r =
     \<lparr>rec_id = rec_id r, rec_idx = rec_idx r, rec_host = rec_host r,
      rec_timestamp = rec_timestamp r, rec_version = rec_version r, rec_tag = rec_tag r,
      rec_data = f (rec_data r)\<rparr>"

definition with_data :: "'e \<Rightarrow> 'd Record \<Rightarrow> 'e Record" where
  "with_data d r = map_data (\<lambda>_. d) r"

text \<open>
  Sealing binds the metadata of the record: its serialisation (by \<open>serde_json\<close>, the parameter
  \<open>ad_json\<close>) is the implicit assertion. \<open>encrypt\<close> unwraps the result of \<open>encrypt_sync\<close>, so an
  error there is a panic (\<open>Inl\<close>).
\<close>

definition encrypt ::
  "prims \<Rightarrow> (AdditionalData \<Rightarrow> string) \<Rightarrow> entropy \<Rightarrow> DecryptedRecord \<Rightarrow> Key \<Rightarrow> EncryptionError + EncryptedRecord" where
  "encrypt P ad_json rnd r k =
     (case encrypt_sync P rnd (rec_data r) (Some (ad_json (additional_data r))) k of
        Inl e \<Rightarrow> Inl e
      | Inr x \<Rightarrow> Inr (with_data x r))"

definition decrypt ::
  "prims \<Rightarrow> (AdditionalData \<Rightarrow> string) \<Rightarrow> EncryptedRecord \<Rightarrow> Key \<Rightarrow> DecryptionError + DecryptedRecord" where
  "decrypt P ad_json r k =
     (case decrypt_sync P (rec_data r) (Some (ad_json (additional_data r))) k of
        Inl e \<Rightarrow> Inl e
      | Inr d \<Rightarrow> Inr (with_data d r))"

section \<open>The status index\<close>

record RecordStatus =
  hosts :: "(HostId \<times> (RecordTag \<times> RecordIdx) list) list"

record Diff =
  diff_series :: RecordSeriesKey
  diff_local :: "RecordIdx option"
  diff_remote :: "RecordIdx option"

definition RecordStatus_new :: RecordStatus where
  "RecordStatus_new = \<lparr>hosts = []\<rparr>"

definition set_raw :: "RecordStatus \<Rightarrow> RecordSeriesKey \<Rightarrow> RecordIdx \<Rightarrow> RecordStatus" where
  "set_raw st s i =
     (let tags = (case map_of (hosts st) (series_host s) of None \<Rightarrow> [] | Some m \<Rightarrow> m)
      in st\<lparr>hosts := AList.update (series_host s) (AList.update (series_tag s) i tags) (hosts st)\<rparr>)"

definition set_tail :: "RecordStatus \<Rightarrow> DecryptedRecord \<Rightarrow> RecordStatus" where
  "set_tail st tail = set_raw st (RecordSeriesKey_new (host_uuid (rec_host tail)) (rec_tag tail)) (rec_idx tail)"

primrec extend_status :: "RecordStatus \<Rightarrow> (RecordSeriesKey \<times> RecordIdx) list \<Rightarrow> RecordStatus" where
  "extend_status st [] = st"
| "extend_status st (x # xs) = extend_status (set_raw st (fst x) (snd x)) xs"

definition get_status :: "RecordStatus \<Rightarrow> RecordSeriesKey \<Rightarrow> RecordIdx option" where
  "get_status st s = Option.bind (map_of (hosts st) (series_host s)) (\<lambda>m. map_of m (series_tag s))"

definition diff_key :: "Diff \<Rightarrow> HostId \<times> RecordTag \<times> RecordIdx option \<times> RecordIdx option" where
  "diff_key d = (series_host (diff_series d), series_tag (diff_series d), diff_local d, diff_remote d)"

definition diff :: "RecordStatus \<Rightarrow> RecordStatus \<Rightarrow> Diff list" where
  "diff self other =
     sort_key diff_key
       (concat (map (\<lambda>(host, tag_map). concat (map (\<lambda>(tag, idx).
            (case Option.bind (map_of (hosts other) host) (\<lambda>m. map_of m tag) of
               Some t \<Rightarrow>
                 if t = idx then []
                 else [\<lparr>diff_series = RecordSeriesKey_new host tag, diff_local = Some idx, diff_remote = Some t\<rparr>]
             | None \<Rightarrow>
                 [\<lparr>diff_series = RecordSeriesKey_new host tag, diff_local = Some idx, diff_remote = None\<rparr>]))
          tag_map)) (hosts self))
        @ concat (map (\<lambda>(host, tag_map). concat (map (\<lambda>(tag, idx).
            if (case map_of (hosts self) host of None \<Rightarrow> False | Some m \<Rightarrow> map_of m tag \<noteq> None) then []
            else [\<lparr>diff_series = RecordSeriesKey_new host tag, diff_local = None, diff_remote = Some idx\<rparr>])
          tag_map)) (hosts other)))"

definition wf_status :: "RecordStatus \<Rightarrow> bool" where
  "wf_status st \<longleftrightarrow> distinct (map fst (hosts st)) \<and> (\<forall>(h, m) \<in> set (hosts st). distinct (map fst m))"


section \<open>Lemmas on tags, versions and keys\<close>

lemma tag_as_str_from [simp]: "tag_as_str (tag_from s) = s"
  by (simp add: tag_from_def)

lemma version_as_str_from [simp]: "version_as_str (version_from s) = s"
  by (simp add: version_from_def)

lemma canonical_tag_from [simp]: "canonical_tag (tag_from s)"
  by (simp add: canonical_tag_def)

lemma canonical_version_from [simp]: "canonical_version (version_from s)"
  by (simp add: canonical_version_def)

lemma canonical_tag_simps [simp]:
  "canonical_tag History" "canonical_tag Kv" "canonical_tag Script" "canonical_tag DotfilesVar"
  "canonical_tag ConfigShellAlias" "canonical_tag Packfile"
  by (simp_all add: canonical_tag_def tag_from_def)

lemma canonical_version_simps [simp]: "canonical_version V0" "canonical_version V1" "canonical_version V2"
  by (simp_all add: canonical_version_def version_from_def)

lemma canonical_tag_inject:
  "canonical_tag a \<Longrightarrow> canonical_tag b \<Longrightarrow> tag_as_str a = tag_as_str b \<longleftrightarrow> a = b"
  by (metis canonical_tag_def)

lemma series_new_sel [simp]:
  "series_host (RecordSeriesKey_new h t) = h" "series_tag (RecordSeriesKey_new h t) = t"
  by (simp_all add: RecordSeriesKey_new_def)

lemma series_new_eq [simp]:
  "RecordSeriesKey_new h t = s \<longleftrightarrow> h = series_host s \<and> t = series_tag s"
  "s = RecordSeriesKey_new h t \<longleftrightarrow> series_host s = h \<and> series_tag s = t"
  by (cases s; auto simp: RecordSeriesKey_new_def)+

lemma series_eqI: "series_host a = series_host b \<Longrightarrow> series_tag a = series_tag b \<Longrightarrow> a = (b :: RecordSeriesKey)"
  by simp

lemma series_key_sel [simp]:
  "series_host (series_key r) = host_uuid (rec_host r)" "series_tag (series_key r) = rec_tag r"
  by (simp_all add: series_key_def)

lemma map_data_sel [simp]:
  "rec_id (map_data f r) = rec_id r" "rec_idx (map_data f r) = rec_idx r"
  "rec_host (map_data f r) = rec_host r" "rec_timestamp (map_data f r) = rec_timestamp r"
  "rec_version (map_data f r) = rec_version r" "rec_tag (map_data f r) = rec_tag r"
  "rec_data (map_data f r) = f (rec_data r)"
  by (simp_all add: map_data_def)

lemma with_data_with_data [simp]: "with_data a (with_data b r) = with_data a r"
  by (simp add: with_data_def map_data_def)

lemma with_data_self [simp]: "with_data (rec_data r) r = r"
  by (simp add: with_data_def map_data_def)

lemma with_data_sel [simp]:
  "rec_id (with_data d r) = rec_id r" "rec_idx (with_data d r) = rec_idx r"
  "rec_host (with_data d r) = rec_host r" "rec_timestamp (with_data d r) = rec_timestamp r"
  "rec_version (with_data d r) = rec_version r" "rec_tag (with_data d r) = rec_tag r"
  "rec_data (with_data d r) = d"
  by (simp_all add: with_data_def)

lemma additional_data_with_data [simp]: "additional_data (with_data d r) = additional_data r"
  by (simp add: additional_data_def)

lemma series_key_with_data [simp]: "series_key (with_data d r) = series_key r"
  by (simp add: series_key_def)

section \<open>Lemmas on encryption\<close>

lemma encrypt_sealed:
  assumes "prims_ok P" "entropy_ok rnd"
  obtains x where "encrypt P J rnd r k = Inr x" "decrypt P J x k = Inr r"
    "rec_id x = rec_id r" "rec_idx x = rec_idx r" "rec_host x = rec_host r"
    "rec_timestamp x = rec_timestamp r" "rec_version x = rec_version r" "rec_tag x = rec_tag r"
proof -
  obtain y where "encrypt_sync P rnd (rec_data r) (Some (J (additional_data r))) k = Inr y"
      "decrypt_sync P y (Some (J (additional_data r))) k = Inr (rec_data r)"
    using assms by (rule encrypt_sync_sealed [where d = "rec_data r" and a = "Some (J (additional_data r))" and k = k])
  then show ?thesis
    by (intro that [of "with_data y r"]) (simp_all add: encrypt_def decrypt_def)
qed

lemma decrypt_other_metadata:
  assumes P: "prims_ok P" "entropy_ok rnd" and enc: "encrypt P J rnd r k = Inr x"
    and data: "rec_data x' = rec_data x" and moved: "J (additional_data x') \<noteq> J (additional_data r)"
  shows "\<exists>e. decrypt P J x' k = Inl e"
proof -
  obtain y where "encrypt_sync P rnd (rec_data r) (Some (J (additional_data r))) k = Inr y"
      and other: "\<forall>a'. a' \<noteq> Some (J (additional_data r)) \<longrightarrow> (\<exists>e. decrypt_sync P y a' k = Inl e)"
    using P by (rule encrypt_sync_sealed [where d = "rec_data r" and a = "Some (J (additional_data r))" and k = k])
  with enc have "rec_data x = y" by (auto simp: encrypt_def)
  with data have y: "rec_data x' = y" by simp
  from moved obtain e where "decrypt_sync P y (Some (J (additional_data x'))) k = Inl e"
    using other by fastforce
  then show ?thesis by (simp add: decrypt_def y)
qed

section \<open>Lemmas on the status index\<close>

lemma get_status_new [simp]: "get_status RecordStatus_new s = None"
  by (simp add: get_status_def RecordStatus_new_def)

lemma wf_status_new [simp]: "wf_status RecordStatus_new"
  by (simp add: wf_status_def RecordStatus_new_def)

lemma get_set_raw [simp]: "get_status (set_raw st s i) s' = (if s' = s then Some i else get_status st s')"
  by (auto simp: get_status_def set_raw_def Let_def update_conv' series_eqI split: option.splits)

lemma wf_set_raw [simp]: "wf_status st \<Longrightarrow> wf_status (set_raw st s i)"
proof -
  assume wf: "wf_status st"
  let ?m = "case map_of (hosts st) (series_host s) of None \<Rightarrow> [] | Some m \<Rightarrow> m"
  have m: "distinct (map fst ?m)"
    using wf by (auto simp: wf_status_def split: option.splits dest: map_of_SomeD)
  have "set (AList.update h v al) \<subseteq> insert (h, v) (set al)" for h v and al :: "(HostId \<times> (RecordTag \<times> nat) list) list"
    by (induction al) auto
  then have "\<forall>(h, m) \<in> set (AList.update (series_host s) (AList.update (series_tag s) i ?m) (hosts st)). distinct (map fst m)"
    using wf m by (fastforce simp: wf_status_def distinct_update)
  with wf show ?thesis
    by (auto simp: wf_status_def set_raw_def Let_def distinct_update)
qed

lemma wf_extend_status: "wf_status st \<Longrightarrow> wf_status (extend_status st xs)"
  by (induction xs arbitrary: st) simp_all

lemma get_extend_status:
  "get_status (extend_status st xs) s =
     (case map_of (rev xs) s of None \<Rightarrow> get_status st s | Some i \<Rightarrow> Some i)"
  by (induction xs arbitrary: st) (auto simp: map_add_def split: option.splits)

text \<open>The entries of an index, and the two loops of \<open>diff\<close> over them.\<close>

definition entries :: "RecordStatus \<Rightarrow> (RecordSeriesKey \<times> RecordIdx) list" where
  "entries st = concat (map (\<lambda>(h, m). map (\<lambda>(t, i). (RecordSeriesKey_new h t, i)) m) (hosts st))"

lemma entries_get: "wf_status st \<Longrightarrow> (s, i) \<in> set (entries st) \<longleftrightarrow> get_status st s = Some i"
proof -
  assume wf: "wf_status st"
  have "(s, i) \<in> set (entries st) \<longleftrightarrow> (\<exists>m. (series_host s, m) \<in> set (hosts st) \<and> (series_tag s, i) \<in> set m)"
    by (force simp: entries_def)
  also have "\<dots> \<longleftrightarrow> (\<exists>m. map_of (hosts st) (series_host s) = Some m \<and> map_of m (series_tag s) = Some i)"
    using wf by (force simp: wf_status_def)
  finally show ?thesis by (auto simp: get_status_def bind_eq_Some_conv)
qed

lemma distinct_entries: "wf_status st \<Longrightarrow> distinct (map fst (entries st))"
proof -
  assume wf: "wf_status st"
  have "map fst (entries st) = concat (map (\<lambda>x. map (RecordSeriesKey_new (fst x)) (map fst (snd x))) (hosts st))"
    by (simp add: entries_def map_concat comp_def case_prod_beta)
  moreover have "distinct \<dots>"
    using wf
    by (intro distinct_concat_map)
       (auto simp: wf_status_def distinct_map inj_on_def RecordSeriesKey_new_def eq_key_imp_eq_value)
  ultimately show ?thesis by simp
qed

definition diff_here :: "RecordStatus \<Rightarrow> RecordSeriesKey \<times> RecordIdx \<Rightarrow> Diff list" where
  "diff_here other e =
     (if get_status other (fst e) = Some (snd e) then []
      else [\<lparr>diff_series = fst e, diff_local = Some (snd e), diff_remote = get_status other (fst e)\<rparr>])"

definition diff_there :: "RecordStatus \<Rightarrow> RecordSeriesKey \<times> RecordIdx \<Rightarrow> Diff list" where
  "diff_there self e =
     (if get_status self (fst e) \<noteq> None then []
      else [\<lparr>diff_series = fst e, diff_local = None, diff_remote = Some (snd e)\<rparr>])"

lemma mem_diff_here:
  "d \<in> set (diff_here b (s, i)) \<longleftrightarrow>
     diff_series d = s \<and> diff_local d = Some i \<and> diff_remote d = get_status b s \<and> get_status b s \<noteq> Some i"
  by (cases d) (auto simp: diff_here_def)

lemma mem_diff_there:
  "d \<in> set (diff_there a (s, i)) \<longleftrightarrow>
     diff_series d = s \<and> diff_local d = None \<and> diff_remote d = Some i \<and> get_status a s = None"
  by (cases d) (auto simp: diff_there_def)

lemma diff_entries:
  "diff self other = sort_key diff_key (concat (map (diff_here other) (entries self))
     @ concat (map (diff_there self) (entries other)))"
proof -
  have here: "concat (map (\<lambda>(host, tag_map). concat (map (\<lambda>(tag, idx).
            (case Option.bind (map_of (hosts other) host) (\<lambda>m. map_of m tag) of
               Some t \<Rightarrow>
                 if t = idx then []
                 else [\<lparr>diff_series = RecordSeriesKey_new host tag, diff_local = Some idx, diff_remote = Some t\<rparr>]
             | None \<Rightarrow>
                 [\<lparr>diff_series = RecordSeriesKey_new host tag, diff_local = Some idx, diff_remote = None\<rparr>]))
          tag_map)) hs)
      = concat (map (diff_here other)
          (concat (map (\<lambda>(h, m). map (\<lambda>(t, i). (RecordSeriesKey_new h t, i)) m) hs)))" for hs
    by (induction hs)
       (auto simp: diff_here_def get_status_def comp_def split: option.splits
             intro!: arg_cong [where f = concat] map_cong)
  have there: "concat (map (\<lambda>(host, tag_map). concat (map (\<lambda>(tag, idx).
            if (case map_of (hosts self) host of None \<Rightarrow> False | Some m \<Rightarrow> map_of m tag \<noteq> None) then []
            else [\<lparr>diff_series = RecordSeriesKey_new host tag, diff_local = None, diff_remote = Some idx\<rparr>])
          tag_map)) hs)
      = concat (map (diff_there self)
          (concat (map (\<lambda>(h, m). map (\<lambda>(t, i). (RecordSeriesKey_new h t, i)) m) hs)))" for hs
    by (induction hs)
       (auto simp: diff_there_def get_status_def comp_def bind_eq_Some_conv split: option.splits
             intro!: arg_cong [where f = concat] map_cong)
  show ?thesis unfolding diff_def here there entries_def ..
qed

lemma diff_key_inject [simp]: "diff_key a = diff_key b \<longleftrightarrow> a = b"
  by (auto simp: diff_key_def)

lemma set_diff:
  assumes "wf_status a" "wf_status b"
  shows "d \<in> set (diff a b) \<longleftrightarrow>
    diff_local d = get_status a (diff_series d) \<and> diff_remote d = get_status b (diff_series d)
      \<and> diff_local d \<noteq> diff_remote d"
proof -
  have "d \<in> set (diff a b) \<longleftrightarrow>
      (\<exists>s i. get_status a s = Some i \<and> d \<in> set (diff_here b (s, i)))
      \<or> (\<exists>s i. get_status b s = Some i \<and> d \<in> set (diff_there a (s, i)))"
    using entries_get [OF assms(1)] entries_get [OF assms(2)] by (auto simp: diff_entries)
  then show ?thesis
    by (cases "get_status a (diff_series d)"; cases "get_status b (diff_series d)"; cases "diff_remote d")
       (auto simp: mem_diff_here mem_diff_there)
qed

lemma distinct_diff_series:
  assumes "wf_status a" "wf_status b"
  shows "distinct (map diff_series (diff a b))"
proof -
  have here: "map diff_series (concat (map (diff_here b) xs)) = map fst (filter (\<lambda>e. diff_here b e \<noteq> []) xs)" for xs
    by (induction xs) (auto simp: diff_here_def)
  have there: "map diff_series (concat (map (diff_there a) xs)) = map fst (filter (\<lambda>e. diff_there a e \<noteq> []) xs)" for xs
    by (induction xs) (auto simp: diff_there_def)
  have "distinct (map diff_series (concat (map (diff_here b) (entries a)) @ concat (map (diff_there a) (entries b))))"
    using entries_get [OF assms(1)] distinct_entries [OF assms(1)] distinct_entries [OF assms(2)]
    by (auto simp: here there distinct_map_filter diff_there_def)
  then show ?thesis
    unfolding diff_entries by (metis distinct_map distinct_sort set_sort)
qed

lemma sorted_diff: "sorted (map diff_key (diff a b))"
  by (simp add: diff_def)

lemma diff_unique:
  assumes "set xs = set ys" "distinct xs" "distinct ys"
    and "sorted (map diff_key xs)" "sorted (map diff_key ys)"
  shows "xs = ys"
proof -
  have "inj diff_key" by (auto intro: injI)
  moreover have "map diff_key xs = map diff_key ys"
    using assms \<open>inj diff_key\<close>
    by (intro sorted_distinct_set_unique) (auto simp: distinct_map inj_on_def)
  ultimately show ?thesis by (simp add: inj_map_eq_map)
qed

lemma wf_statusI_unique:
  assumes "wf_status a" "wf_status b" "wf_status a'" "wf_status b'"
    and "get_status a = get_status a'" "get_status b = get_status b'"
  shows "diff a b = diff a' b'"
proof (rule diff_unique)
  show "set (diff a b) = set (diff a' b')"
    using assms by (auto simp: set_diff)
  show "distinct (diff a b)" "distinct (diff a' b')"
    using assms by (auto intro: distinct_of_map distinct_diff_series)
qed (simp_all add: sorted_diff)

definition swap_diff :: "Diff \<Rightarrow> Diff" where
  "swap_diff d = \<lparr>diff_series = diff_series d, diff_local = diff_remote d, diff_remote = diff_local d\<rparr>"

lemma swap_diff_swap_diff [simp]: "swap_diff (swap_diff d) = d"
  by (simp add: swap_diff_def)

lemma sorted_swap_diff:
  assumes "distinct (map diff_series xs)" "sorted (map diff_key xs)"
  shows "sorted (map diff_key (map swap_diff xs))"
  using assms
proof (induction xs)
  case (Cons x xs)
  have "diff_key (swap_diff x) \<le> diff_key (swap_diff y)" if y: "y \<in> set xs" for y
  proof -
    from Cons.prems y have "diff_series x \<noteq> diff_series y" "diff_key x \<le> diff_key y" by auto
    then show ?thesis by (auto simp: diff_key_def swap_diff_def)
  qed
  with Cons show ?case by auto
qed simp

section \<open>Properties\<close>

text \<open>
  the difference of two status indices is complete and exact. A series is listed, with the
  index each side has, exactly when the two sides disagree on it, and no series is listed twice.
\<close>

theorem diff_exact:
  assumes "wf_status a" "wf_status b"
  shows "(\<forall>d. d \<in> set (diff a b) \<longleftrightarrow>
      diff_local d = get_status a (diff_series d) \<and> diff_remote d = get_status b (diff_series d)
        \<and> diff_local d \<noteq> diff_remote d)
    \<and> distinct (map diff_series (diff a b))"
  using set_diff [OF assms] distinct_diff_series [OF assms] by simp

definition status_1 :: RecordStatus where
  "status_1 = set_raw (set_raw RecordStatus_new (RecordSeriesKey_new 1 History) 4) (RecordSeriesKey_new 2 Kv) 0"

definition status_2 :: RecordStatus where
  "status_2 = set_raw (set_raw RecordStatus_new (RecordSeriesKey_new 2 Kv) 3) (RecordSeriesKey_new 1 History) 4"

lemma wf_status_12 [simp]: "wf_status status_1" "wf_status status_2"
  by (simp_all add: status_1_def status_2_def)

theorem diff_exact_witness:
  "wf_status status_1 \<and> wf_status status_2
   \<and> \<lparr>diff_series = RecordSeriesKey_new 2 Kv, diff_local = Some 0, diff_remote = Some 3\<rparr> \<in> set (diff status_1 status_2)
   \<and> distinct (map diff_series (diff status_1 status_2))"
  using diff_exact [OF wf_status_12] by (simp add: status_1_def status_2_def)

text \<open>
  The order in which the hash maps of an index are iterated does not matter: two pairs of
  indices with the same contents have the same list of differences.
\<close>

theorem diff_iteration_order:
  assumes "wf_status a" "wf_status b" "wf_status a'" "wf_status b'"
    and "get_status a = get_status a'" "get_status b = get_status b'"
  shows "diff a b = diff a' b'"
  using assms by (rule wf_statusI_unique)

theorem diff_iteration_order_witness:
  "diff status_1 (set_raw (set_raw RecordStatus_new (RecordSeriesKey_new 2 Kv) 3) (RecordSeriesKey_new 1 History) 4)
   = diff status_1 (set_raw (set_raw RecordStatus_new (RecordSeriesKey_new 1 History) 4) (RecordSeriesKey_new 2 Kv) 3)"
  by (rule diff_iteration_order) (auto simp: fun_eq_iff)

text \<open>
  Comparing in the other direction lists the same series in the same order with the two
  sides exchanged, so a client and a server that compare their indices agree on what differs.
\<close>

theorem diff_symmetric:
  assumes "wf_status a" "wf_status b"
  shows "diff b a = map swap_diff (diff a b)"
proof (rule diff_unique)
  have ser: "map diff_series (map swap_diff xs) = map diff_series xs" for xs
    by (simp add: swap_diff_def)
  have mem: "d \<in> set (map swap_diff (diff a b)) \<longleftrightarrow> swap_diff d \<in> set (diff a b)" for d
    by (metis (no_types, lifting) imageE image_eqI set_map swap_diff_swap_diff)
  show "set (diff b a) = set (map swap_diff (diff a b))"
    using assms mem by (auto simp: set_diff swap_diff_def)
  show "distinct (diff b a)" "distinct (map swap_diff (diff a b))"
    using distinct_diff_series [OF assms] distinct_diff_series [OF assms(2,1)] ser
    by (metis distinct_of_map)+
  show "sorted (map diff_key (map swap_diff (diff a b)))"
    using distinct_diff_series [OF assms] sorted_diff by (rule sorted_swap_diff)
qed (rule sorted_diff)

theorem diff_symmetric_witness: "diff status_2 status_1 = map swap_diff (diff status_1 status_2)"
  by (rule diff_symmetric) simp_all

text \<open>
  C9: what a record seals opens again under the same key, unchanged, and only as that record: if
  any of the id, index, version, tag or host next to the sealed data is altered (so that the
  serialised metadata differs), opening it fails.
\<close>

theorem encrypt_decrypt_roundtrip:
  assumes "prims_ok P" "entropy_ok rnd"
  shows "\<exists>x. encrypt P J rnd r k = Inr x \<and> decrypt P J x k = Inr r
    \<and> (\<forall>x'. rec_data x' = rec_data x \<longrightarrow> J (additional_data x') \<noteq> J (additional_data r) \<longrightarrow>
         (\<exists>e. decrypt P J x' k = Inl e))"
proof -
  obtain x where x: "encrypt P J rnd r k = Inr x" "decrypt P J x k = Inr r"
    using assms by (rule encrypt_sealed [where J = J and r = r and k = k])
  with decrypt_other_metadata [OF assms] show ?thesis by blast
qed

definition plain_record :: DecryptedRecord where
  "plain_record = Record_build 5 77 (Host_new 1) V1 History 0 [1, 2, 3]"

theorem encrypt_decrypt_roundtrip_witness:
  "\<exists>x. encrypt clear_prims (\<lambda>ad. ad_tag ad) clear_entropy plain_record [42] = Inr x
    \<and> decrypt clear_prims (\<lambda>ad. ad_tag ad) x [42] = Inr plain_record"
  using encrypt_decrypt_roundtrip [OF clear_prims_ok, of clear_entropy "\<lambda>ad. ad_tag ad" plain_record "[42]"]
  by (auto simp: clear_entropy_def)

end
