(* ===== verification/Record_Log.thy ===== *)
theory Record_Log
  imports Domain_Record
begin

text \<open>
  The rows in which both the client (\<open>atuin-client/src/record/sqlite_store.rs\<close>) and the server
  (\<open>atuin-server-sqlite\<close>, \<open>atuin-server-postgres\<close>) keep records, the selections both make from them,
  and the specification of a series as an append-only log.

  A row carries the SQL values: the integers as \<open>i64\<close>, the tag and version as text. Identifiers
  are kept as numbers, where SQLite keeps their hyphenated text. Selecting a page, the tail or
  the status are the functions \<open>q_next\<close>, \<open>q_last\<close> and \<open>q_status\<close> on the list of rows.

  The specification: a \<^emph>\<open>history of the world\<close> \<open>G\<close> gives, for every series, the list of rows
  that were ever appended to it, row \<open>i\<close> at index \<open>i\<close>. A table \<open>holds\<close> a prefix of every series.
  What the queries return on such a table, and what inserting a page does to it, are the lemmas
  that the store, the server and the sync engine rest on.
\<close>

declare split_paired_All [simp del] split_paired_Ex [simp del]

type_synonym series = "HostId \<times> string"

record db_row =
  row_id :: RecordId
  row_idx :: int
  row_host :: HostId
  row_tag :: string
  row_timestamp :: int
  row_version :: string
  row_data :: string
  row_cek :: string

definition to_row :: "EncryptedRecord \<Rightarrow> db_row" where
  "to_row r =
     \<lparr>row_id = rec_id r, row_idx = as_i64 (rec_idx r), row_host = host_uuid (rec_host r),
      row_tag = tag_as_str (rec_tag r), row_timestamp = as_i64 (rec_timestamp r),
      row_version = version_as_str (rec_version r), row_data = raw (rec_data r), row_cek = cek (rec_data r)\<rparr>"

definition from_row :: "db_row \<Rightarrow> EncryptedRecord" where
  "from_row w =
     \<lparr>rec_id = row_id w, rec_idx = as_u64 (row_idx w), rec_host = Host_new (row_host w),
      rec_timestamp = as_u64 (row_timestamp w), rec_version = version_from (row_version w),
      rec_tag = tag_from (row_tag w), rec_data = \<lparr>raw = row_data w, cek = row_cek w\<rparr>\<rparr>"

definition row_series :: "db_row \<Rightarrow> series" where
  "row_series w = (row_host w, row_tag w)"

definition skey :: "RecordSeriesKey \<Rightarrow> series" where
  "skey s = (series_host s, tag_as_str (series_tag s))"

section \<open>Selections\<close>

text \<open>SQLite reads a negative \<open>limit\<close> as no limit.\<close>

definition sql_limit :: "int \<Rightarrow> 'a list \<Rightarrow> 'a list" where
  "sql_limit l xs = (if l < 0 then xs else take (nat l) xs)"

definition q_series :: "db_row list \<Rightarrow> series \<Rightarrow> db_row list" where
  "q_series rows k = filter (\<lambda>w. row_series w = k) rows"

definition q_last :: "db_row list \<Rightarrow> series \<Rightarrow> db_row option" where
  "q_last rows k = (case sort_key (\<lambda>w. - row_idx w) (q_series rows k) of [] \<Rightarrow> None | w # _ \<Rightarrow> Some w)"

definition q_next :: "db_row list \<Rightarrow> series \<Rightarrow> int \<Rightarrow> int \<Rightarrow> db_row list" where
  "q_next rows k i l = sql_limit l (sort_key row_idx (filter (\<lambda>w. i \<le> row_idx w) (q_series rows k)))"

definition q_status :: "db_row list \<Rightarrow> (series \<times> int) list" where
  "q_status rows = map (\<lambda>k. (k, Max (set (map row_idx (q_series rows k))))) (remdups (map row_series rows))"

definition status_of :: "(series \<times> int) list \<Rightarrow> RecordStatus" where
  "status_of xs = foldl (\<lambda>st (k, i). set_raw st (RecordSeriesKey_new (fst k) (tag_from (snd k))) (as_u64 i)) RecordStatus_new xs"

section \<open>Rows and records\<close>

text \<open>A record that survives the trip through a row.\<close>

definition storable :: "EncryptedRecord \<Rightarrow> bool" where
  "storable r \<longleftrightarrow> rec_idx r < 2 ^ 64 \<and> rec_timestamp r < 2 ^ 64 \<and> host_name (rec_host r) = []
     \<and> canonical_tag (rec_tag r) \<and> canonical_version (rec_version r)"

definition i64_row :: "db_row \<Rightarrow> bool" where
  "i64_row w \<longleftrightarrow> - (2 ^ 63) \<le> row_idx w \<and> row_idx w < 2 ^ 63 \<and> - (2 ^ 63) \<le> row_timestamp w \<and> row_timestamp w < 2 ^ 63"

lemma from_row_to_row [simp]: "storable r \<Longrightarrow> from_row (to_row r) = r"
  by (simp add: storable_def from_row_def to_row_def canonical_tag_def canonical_version_def Host_new_def)

lemma to_row_from_row [simp]: "i64_row w \<Longrightarrow> to_row (from_row w) = w"
  by (simp add: i64_row_def to_row_def from_row_def as_i64_as_u64 Host_new_def)

lemma row_series_to_row [simp]: "row_series (to_row r) = skey (series_key r)"
  by (simp add: row_series_def to_row_def skey_def)

lemma skey_series_from_row [simp]: "skey (series_key (from_row w)) = row_series w"
  by (simp add: skey_def row_series_def from_row_def Host_new_def)

lemma skey_new [simp]: "skey (RecordSeriesKey_new h (tag_from t)) = (h, t)"
  by (simp add: skey_def)

lemma skey_inject:
  "canonical_tag (series_tag a) \<Longrightarrow> canonical_tag (series_tag b) \<Longrightarrow> skey a = skey b \<longleftrightarrow> a = b"
  by (auto simp: skey_def canonical_tag_inject intro: series_eqI)

section \<open>The log of a series\<close>

type_synonym world_log = "series \<Rightarrow> db_row list"

definition world_log :: "world_log \<Rightarrow> bool" where
  "world_log G \<longleftrightarrow>
     (\<forall>k. length (G k) \<le> 2 ^ 63
        \<and> (\<forall>i < length (G k). row_idx (G k ! i) = int i \<and> row_series (G k ! i) = k \<and> i64_row (G k ! i)))
     \<and> (\<forall>k k' w w'. w \<in> set (G k) \<longrightarrow> w' \<in> set (G k') \<longrightarrow> row_id w = row_id w' \<longrightarrow> w = w')"

definition holds :: "world_log \<Rightarrow> (series \<Rightarrow> nat) \<Rightarrow> db_row list \<Rightarrow> bool" where
  "holds G n rows \<longleftrightarrow>
     distinct rows \<and> (\<forall>k. n k \<le> length (G k)) \<and> set rows = (\<Union>k. set (take (n k) (G k)))"

text \<open>The rows a page request for \<open>len\<close> indices from \<open>i\<close> on is about.\<close>

definition segment :: "world_log \<Rightarrow> series \<Rightarrow> nat \<Rightarrow> nat \<Rightarrow> db_row list" where
  "segment G k i len = take len (drop i (G k))"

lemma world_log_len: "world_log G \<Longrightarrow> length (G k) \<le> 2 ^ 63"
  unfolding world_log_def by blast

lemma holds_len: "holds G n rows \<Longrightarrow> n k \<le> length (G k)"
  unfolding holds_def by blast

lemma holds_set: "holds G n rows \<Longrightarrow> set rows = (\<Union>k. set (take (n k) (G k)))"
  unfolding holds_def by blast

lemma world_log_nth:
  assumes "world_log G" "i < length (G k)"
  shows "row_idx (G k ! i) = int i" "row_series (G k ! i) = k" "i64_row (G k ! i)"
  using assms by (auto simp: world_log_def)

lemma world_log_set:
  assumes "world_log G" "w \<in> set (G k)"
  shows "row_series w = k" "i64_row w" "0 \<le> row_idx w" "G k ! nat (row_idx w) = w" "nat (row_idx w) < length (G k)"
  using assms by (auto simp: in_set_conv_nth world_log_nth)

lemma set_segment: "w \<in> set (segment G k i len) \<Longrightarrow> w \<in> set (G k)"
  by (auto simp: segment_def dest: in_set_takeD in_set_dropD)

lemma to_row_from_segment: "world_log G \<Longrightarrow> map to_row (map from_row (segment G k i len)) = segment G k i len"
  by (auto simp: comp_def intro!: map_idI to_row_from_row world_log_set(2) dest: set_segment)

lemma world_log_id:
  "world_log G \<Longrightarrow> w \<in> set (G k) \<Longrightarrow> w' \<in> set (G k') \<Longrightarrow> row_id w = row_id w' \<Longrightarrow> w = w'"
  unfolding world_log_def by blast

lemma log_idxs:
  "world_log G \<Longrightarrow> map row_idx (take m (G k)) = map int [0..<min m (length (G k))]"
  by (intro nth_equalityI) (auto simp: world_log_nth)

lemma sorted_log:
  assumes "world_log G"
  shows "sorted (map row_idx (take m (G k)))" "distinct (map row_idx (take m (G k)))"
  using log_idxs [OF assms, of m k]
  by (auto simp: sorted_map distinct_map inj_on_def intro: sorted_wrt_mono_rel [OF _ sorted_upt])

text \<open>A list of rows with distinct indices is determined by its set, once sorted by index.\<close>

lemma sort_rows_unique:
  assumes "distinct xs" "set xs = set ys" "sorted (map row_idx ys)" "distinct (map row_idx ys)"
  shows "sort_key row_idx xs = ys"
proof -
  have inj: "inj_on row_idx (set ys)" using assms(4) by (simp add: distinct_map)
  have "map row_idx (sort_key row_idx xs) = map row_idx ys"
    using assms inj by (intro sorted_distinct_set_unique) (auto simp: distinct_map)
  with inj assms(2) show ?thesis
    by (metis inj_on_map_eq_map set_sort sup.idem)
qed

lemma holds_series:
  assumes "world_log G" "holds G n rows"
  shows "distinct (q_series rows k)" "set (q_series rows k) = set (take (n k) (G k))"
  using assms
  by (auto simp: holds_def q_series_def dest: world_log_set(1) in_set_takeD)

lemma holds_sorted_series:
  assumes "world_log G" "holds G n rows"
  shows "sort_key row_idx (q_series rows k) = take (n k) (G k)"
  using holds_series [OF assms] sorted_log [OF assms(1)] by (intro sort_rows_unique)

lemma filter_log:
  assumes "world_log G"
  shows "filter (\<lambda>w. int i \<le> row_idx w) (take m (G k)) = drop i (take m (G k))"
proof -
  have "filter (\<lambda>w. int i \<le> row_idx w) (take m (G k)) = filter (\<lambda>w. int i \<le> row_idx w) (take i (take m (G k)) @ drop i (take m (G k)))"
    by (simp only: append_take_drop_id)
  also have "\<dots> = drop i (take m (G k))"
  proof -
    have "\<forall>w \<in> set (take i (take m (G k))). \<not> int i \<le> row_idx w"
      using assms by (auto simp: in_set_conv_nth world_log_nth)
    moreover have "row_idx (drop i (take m (G k)) ! j) = int (i + j)" if "i + j < m" "i + j < length (G k)" for j
      using that world_log_nth(1) [OF assms, of "i + j" k] by simp
    then have "\<forall>w \<in> set (drop i (take m (G k))). int i \<le> row_idx w"
      by (auto simp: in_set_conv_nth less_diff_conv add.commute)
    ultimately show ?thesis by (simp only: filter_append filter_False filter_True append_Nil)
  qed
  finally show ?thesis .
qed

lemma holds_next:
  assumes G: "world_log G" and rows: "holds G n rows" and i: "i64_range i" and l: "i64_range l"
  shows "q_next rows k (as_i64 i) (as_i64 l) = segment G k i (min l (n k - i))"
proof -
  have "sort_key row_idx (filter (\<lambda>w. int i \<le> row_idx w) (q_series rows k)) = drop i (take (n k) (G k))"
  proof (rule sort_rows_unique)
    have "set (filter (\<lambda>w. int i \<le> row_idx w) (q_series rows k)) = set (filter (\<lambda>w. int i \<le> row_idx w) (take (n k) (G k)))"
      using holds_series [OF G rows, of k] by simp
    then show "set (filter (\<lambda>w. int i \<le> row_idx w) (q_series rows k)) = set (drop i (take (n k) (G k)))"
      by (simp only: filter_log [OF G])
    show "distinct (filter (\<lambda>w. int i \<le> row_idx w) (q_series rows k))"
      using holds_series [OF G rows, of k] by simp
    show "sorted (map row_idx (drop i (take (n k) (G k))))" "distinct (map row_idx (drop i (take (n k) (G k))))"
      using sorted_log [OF G, of "n k" k] by (simp_all add: drop_map [symmetric] sorted_wrt_drop)
  qed
  then show ?thesis
    using i l by (simp add: q_next_def sql_limit_def segment_def drop_take min.commute)
qed

lemma holds_last:
  assumes G: "world_log G" and rows: "holds G n rows"
  shows "q_last rows k = (if n k = 0 then None else Some (G k ! (n k - 1)))"
proof (cases "n k = 0")
  case True
  with holds_series [OF G rows, of k] show ?thesis by (simp add: q_last_def)
next
  case False
  let ?S = "sort_key (\<lambda>w. - row_idx w) (q_series rows k)"
  have len: "n k \<le> length (G k)" using rows by (rule holds_len)
  have set: "set ?S = set (take (n k) (G k))" using holds_series [OF G rows] by simp
  then obtain w ws where S: "?S = w # ws" using False len by (cases ?S) auto
  have "G k ! (n k - 1) \<in> set ?S"
    using False len unfolding set by (auto simp: in_set_conv_nth intro!: exI [of _ "n k - 1"])
  moreover have "sorted (map (\<lambda>w. - row_idx w) ?S)" by simp
  ultimately have "int (n k - 1) \<le> row_idx w"
    using S False len world_log_nth(1) [OF G, of "n k - 1" k] by auto
  moreover have "w \<in> set (take (n k) (G k))" using S set by (metis list.set_intros(1))
  then obtain i where "i < n k" "i < length (G k)" "w = G k ! i" by (auto simp: in_set_conv_nth)
  ultimately have "w = G k ! (n k - 1)"
    using G by (cases "i = n k - 1") (auto simp: world_log_nth)
  with S False show ?thesis by (simp add: q_last_def)
qed

section \<open>Inserting a page\<close>

text \<open>
  Both stores ignore a row that conflicts with one they have: the client by id or by (host, tag,
  idx), the server by (user, host, tag, idx). Any such rule \<open>clash\<close> behaves alike on rows of the
  log.
\<close>

definition row_clash :: "db_row \<Rightarrow> db_row \<Rightarrow> bool" where
  "row_clash w v \<longleftrightarrow> row_series w = row_series v \<and> row_idx w = row_idx v"

definition insert_unless :: "(db_row \<Rightarrow> db_row \<Rightarrow> bool) \<Rightarrow> db_row list \<Rightarrow> db_row \<Rightarrow> db_row list" where
  "insert_unless clash rows w = (if \<exists>v \<in> set rows. clash w v then rows else rows @ [w])"

definition log_clash :: "world_log \<Rightarrow> (db_row \<Rightarrow> db_row \<Rightarrow> bool) \<Rightarrow> bool" where
  "log_clash G clash \<longleftrightarrow> (\<forall>k k'. \<forall>w \<in> set (G k). \<forall>v \<in> set (G k'). clash w v \<longleftrightarrow> w = v)"

lemma log_clash_row: "world_log G \<Longrightarrow> log_clash G row_clash"
  unfolding log_clash_def row_clash_def by (metis world_log_set(1,4))

lemma holds_mem:
  assumes "world_log G" "holds G n rows" "i < length (G k)"
  shows "G k ! i \<in> set rows \<longleftrightarrow> i < n k"
proof -
  have "G k ! i \<in> set rows \<longleftrightarrow> G k ! i \<in> set (q_series rows k)"
    using assms by (simp add: q_series_def world_log_nth)
  also have "\<dots> \<longleftrightarrow> (\<exists>j < n k. j < length (G k) \<and> G k ! j = G k ! i)"
    using holds_series [OF assms(1,2)] by (auto simp: in_set_conv_nth)
  also have "\<dots> \<longleftrightarrow> i < n k"
    using assms(3) world_log_nth(1) [OF assms(1)] by (metis of_nat_eq_iff)
  finally show ?thesis .
qed

lemma holds_insert:
  assumes G: "world_log G" and rows: "holds G n rows" and clash: "log_clash G clash"
    and i: "i < length (G k)" "i \<le> n k"
  shows "holds G (n(k := max (n k) (Suc i))) (insert_unless clash rows (G k ! i))"
proof -
  have sub: "set rows \<subseteq> (\<Union>k. set (G k))"
    using rows by (auto simp: holds_def dest: in_set_takeD)
  then have "(\<exists>v \<in> set rows. clash (G k ! i) v) \<longleftrightarrow> G k ! i \<in> set rows"
    using clash i(1) unfolding log_clash_def by (metis (no_types, lifting) UN_E nth_mem subsetD)
  then have clash_iff: "(\<exists>v \<in> set rows. clash (G k ! i) v) \<longleftrightarrow> i < n k"
    using holds_mem [OF G rows i(1)] by simp
  show ?thesis
  proof (cases "i < n k")
    case True
    then have "n(k := max (n k) (Suc i)) = n" by auto
    with True clash_iff rows show ?thesis by (simp add: insert_unless_def)
  next
    case False
    with i have ik: "n k = i" by simp
    have "(\<Union>j. set (take ((n(k := Suc i)) j) (G j))) = insert (G k ! i) (\<Union>j. set (take (n j) (G j)))"
      using ik i(1) by (auto simp: take_Suc_conv_app_nth split: if_splits)
    with rows ik i(1) clash_iff holds_mem [OF G rows i(1)] show ?thesis
      by (auto simp: insert_unless_def holds_def max_def)
  qed
qed

lemma holds_insert_segment:
  assumes G: "world_log G" and rows: "holds G n rows" and clash: "log_clash G clash"
    and i: "i \<le> n k" "i + len \<le> length (G k)"
  shows "holds G (n(k := max (n k) (i + len))) (foldl (insert_unless clash) rows (segment G k i len))"
  using rows i
proof (induction len arbitrary: n rows i)
  case 0
  then have "n(k := max (n k) (i + 0)) = n" by auto
  with 0 show ?case by (simp add: segment_def)
next
  case (Suc len)
  let ?n = "n(k := max (n k) (Suc i))"
  have seg: "segment G k i (Suc len) = G k ! i # segment G k (Suc i) len"
    using Suc.prems by (simp add: segment_def Cons_nth_drop_Suc [symmetric])
  have "holds G ?n (insert_unless clash rows (G k ! i))"
    using Suc.prems by (intro holds_insert [OF G _ clash]) auto
  then have "holds G (?n(k := max (?n k) (Suc i + len))) (foldl (insert_unless clash) (insert_unless clash rows (G k ! i)) (segment G k (Suc i) len))"
    using Suc.prems by (intro Suc.IH) (auto simp del: fun_upd_apply simp: fun_upd_same)
  moreover have "?n(k := max (?n k) (Suc i + len)) = n(k := max (n k) (i + Suc len))" by auto
  ultimately show ?case by (simp only: seg foldl_Cons)
qed

section \<open>The status of a table\<close>

lemma status_of_snoc [simp]:
  "status_of (xs @ [(k, i)]) = set_raw (status_of xs) (RecordSeriesKey_new (fst k) (tag_from (snd k))) (as_u64 i)"
  by (simp add: status_of_def)

lemma wf_status_of [simp]: "wf_status (status_of xs)"
  by (induction xs rule: rev_induct) (auto simp: status_of_def)

lemma get_status_of:
  assumes "distinct (map fst xs)"
  shows "get_status (status_of xs) s =
    (if canonical_tag (series_tag s) then map_option as_u64 (map_of xs (skey s)) else None)"
  using assms
proof (induction xs rule: rev_induct)
  case Nil
  then show ?case by (simp add: status_of_def)
next
  case (snoc x xs)
  obtain k i where x: "x = (k, i)" by (cases x)
  have "s = RecordSeriesKey_new (fst k) (tag_from (snd k)) \<longleftrightarrow> canonical_tag (series_tag s) \<and> skey s = k"
    by (auto simp: skey_def canonical_tag_def)
  moreover have "map_of xs k = None" using snoc.prems by (auto simp: x map_of_eq_None_iff)
  ultimately show ?case using snoc by (auto simp: x map_add_def split: option.splits)
qed

lemma distinct_q_status: "distinct (map fst (q_status rows))"
  by (simp add: q_status_def comp_def)

lemma map_of_q_status:
  "map_of (q_status rows) k =
     (if k \<in> row_series ` set rows then Some (Max (set (map row_idx (q_series rows k)))) else None)"
proof -
  have "map_of (map (\<lambda>k. (k, f k)) ks) k = (if k \<in> set ks then Some (f k) else None)"
    for f :: "series \<Rightarrow> int" and ks
    by (induction ks) auto
  then show ?thesis by (simp add: q_status_def)
qed

lemma holds_status:
  assumes G: "world_log G" and rows: "holds G n rows"
  shows "get_status (status_of (q_status rows)) s =
    (if canonical_tag (series_tag s) \<and> 0 < n (skey s) then Some (n (skey s) - 1) else None)"
proof -
  let ?k = "skey s"
  have len: "n ?k \<le> length (G ?k)" "length (G ?k) \<le> 2 ^ 63"
    using holds_len [OF rows] world_log_len [OF G] by simp_all
  have idx: "row_idx ` set (take (n ?k) (G ?k)) = int ` {0..<n ?k}"
    using len arg_cong [OF log_idxs [OF G, of "n ?k" ?k], of set] by (simp add: min_absorb1)
  have mem: "?k \<in> row_series ` set rows \<longleftrightarrow> 0 < n ?k"
  proof -
    have "?k \<in> row_series ` set rows \<longleftrightarrow> set (q_series rows ?k) \<noteq> {}"
      by (force simp: q_series_def image_iff)
    also have "\<dots> \<longleftrightarrow> 0 < n ?k" using holds_series(2) [OF G rows, of ?k] len by auto
    finally show ?thesis .
  qed
  have "Max (int ` {0..<n ?k}) = int (n ?k - 1)" if "0 < n ?k"
  proof (rule Max_eqI)
    show "int (n ?k - 1) \<in> int ` {0..<n ?k}" using that by (intro imageI) simp
  qed (use that in auto)
  then have "as_u64 (Max (row_idx ` set (q_series rows ?k))) = n ?k - 1" if "0 < n ?k"
    using that len holds_series(2) [OF G rows, of ?k] idx as_u64_of_nat [of "n ?k - 1"] by (simp del: of_nat_diff)
  with mem show ?thesis
    by (simp add: get_status_of distinct_q_status map_of_q_status)
qed

end
