(* ===== verification/Sqlite_Store.thy ===== *)
theory Sqlite_Store
  imports Record_Log
begin

text \<open>
  The client's record store, \<open>atuin-client/src/record/sqlite_store.rs\<close>: one table of rows with
  unique ids and a unique index on (host, tag, idx). An error is an \<open>eyre\<close> report, kept as a
  value of \<open>store_error\<close>.

  Shown: the two uniqueness constraints are an invariant of every operation at any schedule of
  statement failures; a batch is stored completely or not at all; \<open>first_gap\<close> returns the least
  missing index; rekeying keeps the content of every record; what \<open>purge\<close> leaves can be verified.
\<close>

datatype store_error =
    Sqlx string
  | RowNotFound
  | AnErrorOccurred string
  | FailedToFetchLen string
  | FailedToFetchStatus string
  | FailedReencrypt ReencryptionError
  | FailedDecrypt DecryptionError

type_synonym store = "db_row list db"
type_synonym 'a store_io = "(store, store_error, 'a) io"

section \<open>Operations\<close>

definition store_clash :: "db_row \<Rightarrow> db_row \<Rightarrow> bool" where
  "store_clash w v \<longleftrightarrow> row_id w = row_id v \<or> row_clash w v"

definition save_raw :: "EncryptedRecord \<Rightarrow> (store, string, unit) io" where
  "save_raw r = sql_exec (\<lambda>rows. insert_unless store_clash rows (to_row r))"

definition load_all :: "EncryptedRecord list store_io" where
  "load_all = map_err Sqlx (sql_query (map from_row))"

definition push_batch :: "EncryptedRecord list \<Rightarrow> unit store_io" where
  "push_batch records = map_err Sqlx (transaction (for_each save_raw records))"

definition push :: "EncryptedRecord \<Rightarrow> unit store_io" where
  "push r = push_batch [r]"

definition fetch_one :: "(db_row list \<Rightarrow> db_row list) \<Rightarrow> EncryptedRecord store_io" where
  "fetch_one q =
     bind_io (map_err Sqlx (sql_query q))
       (\<lambda>ws. case ws of [] \<Rightarrow> fail_io RowNotFound | w # _ \<Rightarrow> ok_io (from_row w))"

definition store_get :: "RecordId \<Rightarrow> EncryptedRecord store_io" where
  "store_get i = fetch_one (filter (\<lambda>w. row_id w = i))"

definition delete :: "RecordId \<Rightarrow> unit store_io" where
  "delete i = map_err Sqlx (sql_exec (filter (\<lambda>w. row_id w \<noteq> i)))"

definition delete_all :: "unit store_io" where
  "delete_all = map_err Sqlx (sql_exec (\<lambda>_. []))"

text \<open>The \<open>match\<close> on the result of \<open>fetch_one\<close> that \<open>last\<close> and \<open>idx\<close> share.\<close>

definition found_or_none :: "EncryptedRecord store_io \<Rightarrow> EncryptedRecord option store_io" where
  "found_or_none m = (\<lambda>d. case m d of
       (Inl RowNotFound, d') \<Rightarrow> (Inr None, d')
     | (Inl (Sqlx e), d') \<Rightarrow> (Inl (AnErrorOccurred e), d')
     | (Inl e, d') \<Rightarrow> (Inl e, d')
     | (Inr r, d') \<Rightarrow> (Inr (Some r), d'))"

definition store_last :: "RecordSeriesKey \<Rightarrow> EncryptedRecord option store_io" where
  "store_last s = found_or_none (fetch_one (\<lambda>rows. case q_last rows (skey s) of None \<Rightarrow> [] | Some w \<Rightarrow> [w]))"

definition store_idx :: "RecordSeriesKey \<Rightarrow> RecordIdx \<Rightarrow> EncryptedRecord option store_io" where
  "store_idx s i = found_or_none (fetch_one (\<lambda>rows. filter (\<lambda>w. row_idx w = as_i64 i) (q_series rows (skey s))))"

definition store_first :: "RecordSeriesKey \<Rightarrow> EncryptedRecord option store_io" where
  "store_first s = store_idx s 0"

definition len_all :: "nat store_io" where
  "len_all = bind_io (map_err FailedToFetchLen (sql_query length)) (\<lambda>n. ok_io (as_u64 (int n)))"

definition len_tag :: "RecordTag \<Rightarrow> nat store_io" where
  "len_tag t =
     bind_io (map_err FailedToFetchLen (sql_query (\<lambda>rows. length (filter (\<lambda>w. row_tag w = tag_as_str t) rows))))
       (\<lambda>n. ok_io (as_u64 (int n)))"

definition store_len :: "RecordSeriesKey \<Rightarrow> nat store_io" where
  "store_len s =
     bind_io (store_last s) (\<lambda>l. case l of Some r \<Rightarrow> ok_io (u64_add (rec_idx r) 1) | None \<Rightarrow> ok_io 0)"

text \<open>
  The candidates of \<open>first_gap\<close> are 0 and every \<open>idx + 1\<close>. SQLite turns an \<open>idx + 1\<close> that overflows
  \<open>i64\<close> into a real, which does not decode as \<open>i64\<close>.
\<close>

definition q_gap :: "db_row list \<Rightarrow> series \<Rightarrow> int option" where
  "q_gap rows k =
     (let idxs = map row_idx (q_series rows k);
          candidates = filter (\<lambda>i. i \<notin> set idxs) (map (\<lambda>i. i + 1) idxs @ [0])
      in if candidates = [] then None else Some (Min (set candidates)))"

definition first_gap :: "RecordSeriesKey \<Rightarrow> RecordIdx store_io" where
  "first_gap s =
     bind_io (map_err Sqlx (sql_query (\<lambda>rows. q_gap rows (skey s))))
       (\<lambda>gap. case gap of
          None \<Rightarrow> ok_io (as_u64 0)
        | Some i \<Rightarrow> if 2 ^ 63 \<le> i then fail_io (Sqlx ''mismatched types'') else ok_io (as_u64 i))"

definition store_next :: "RecordSeriesKey \<Rightarrow> RecordIdx \<Rightarrow> nat \<Rightarrow> EncryptedRecord list store_io" where
  "store_next s i limit =
     map_err Sqlx (sql_query (\<lambda>rows. map from_row (q_next rows (skey s) (as_i64 i) (as_i64 limit))))"

definition status :: "RecordStatus store_io" where
  "status = bind_io (map_err FailedToFetchStatus (sql_query q_status)) (\<lambda>res. ok_io (status_of res))"

definition all_tagged :: "RecordTag \<Rightarrow> EncryptedRecord list store_io" where
  "all_tagged t =
     map_err Sqlx (sql_query (\<lambda>rows.
       map from_row (sort_key row_timestamp (filter (\<lambda>w. row_tag w = tag_as_str t) rows))))"

definition re_encrypt :: "prims \<Rightarrow> (EncryptedRecord \<Rightarrow> bytes) \<Rightarrow> Key \<Rightarrow> Key \<Rightarrow> unit store_io" where
  "re_encrypt P rnd old_key new_key =
     bind_io load_all (\<lambda>all_records.
     bind_io (lift_result (collect_results (map (\<lambda>r.
         case reencrypt_sync P (rnd r) (rec_data r) old_key new_key of
           Inl e \<Rightarrow> Inl (FailedReencrypt e)
         | Inr x \<Rightarrow> Inr (with_data x r)) all_records))) (\<lambda>re_encrypted.
       map_err Sqlx (transaction (bind_io (sql_exec (\<lambda>_. [])) (\<lambda>_. for_each save_raw re_encrypted)))))"

definition verify :: "prims \<Rightarrow> (AdditionalData \<Rightarrow> string) \<Rightarrow> Key \<Rightarrow> unit store_io" where
  "verify P J k =
     bind_io load_all (\<lambda>all_records.
     bind_io (lift_result (collect_results (map (\<lambda>r.
         case decrypt P J r k of Inl e \<Rightarrow> Inl (FailedDecrypt e) | Inr x \<Rightarrow> Inr x) all_records))) (\<lambda>_.
       ok_io ()))"

definition purge :: "prims \<Rightarrow> (AdditionalData \<Rightarrow> string) \<Rightarrow> Key \<Rightarrow> unit store_io" where
  "purge P J k =
     bind_io load_all (\<lambda>all_records.
       for_each (\<lambda>r. case decrypt P J r k of Inr _ \<Rightarrow> ok_io () | Inl _ \<Rightarrow> delete (rec_id r)) all_records)"

section \<open>What each operation does to the table\<close>

text \<open>The unique constraints of the table.\<close>

definition store_inv :: "db_row list \<Rightarrow> bool" where
  "store_inv rows \<longleftrightarrow>
     distinct (map row_id rows) \<and> distinct (map (\<lambda>w. (row_series w, row_idx w)) rows) \<and> (\<forall>w \<in> set rows. i64_row w)"

definition insert_rows :: "db_row list \<Rightarrow> EncryptedRecord list \<Rightarrow> db_row list" where
  "insert_rows rows rs = foldl (insert_unless store_clash) rows (map to_row rs)"

lemma insert_rows_simps [simp]:
  "insert_rows rows [] = rows"
  "insert_rows rows (r # rs) = insert_rows (insert_unless store_clash rows (to_row r)) rs"
  by (simp_all add: insert_rows_def)

lemma as_i64_range: "- (2 ^ 63) \<le> as_i64 n" "as_i64 n < 2 ^ 63"
  by (auto simp: as_i64_def)

lemma i64_row_to_row [simp]: "i64_row (to_row r)"
  using as_i64_range by (simp add: i64_row_def to_row_def)

lemma store_inv_insert:
  "store_inv rows \<Longrightarrow> i64_row w \<Longrightarrow> store_inv (insert_unless store_clash rows w)"
  by (auto simp: store_inv_def insert_unless_def store_clash_def row_clash_def image_iff)

lemma store_inv_insert_rows: "store_inv rows \<Longrightarrow> store_inv (insert_rows rows rs)"
  by (induction rs arbitrary: rows) (simp_all add: store_inv_insert)

lemma store_inv_filter: "store_inv rows \<Longrightarrow> store_inv (filter p rows)"
  by (auto simp: store_inv_def distinct_map inj_on_def)

lemma store_inv_Nil [simp]: "store_inv []"
  by (simp add: store_inv_def)

lemma for_each_save_raw_healthy [io_simps]:
  "healthy d \<Longrightarrow> for_each save_raw rs d = (Inr (), d\<lparr>tables := insert_rows (tables d) rs\<rparr>)"
  by (induction rs arbitrary: d) (simp_all add: bind_io_def save_raw_def sql_exec_healthy)

lemma for_each_save_raw_commit:
  "for_each save_raw rs d = (Inr u, d') \<Longrightarrow> tables d' = insert_rows (tables d) rs"
proof (induction rs arbitrary: d)
  case (Cons r rs)
  from Cons.prems obtain a d1 where 1: "save_raw r d = (Inr a, d1)" and 2: "for_each save_raw rs d1 = (Inr u, d')"
    by (auto elim: bind_io_InrE)
  from 1 have "tables d1 = insert_unless store_clash (tables d) (to_row r)"
    by (cases rule: sql_exec_cases [of "\<lambda>rows. insert_unless store_clash rows (to_row r)" d])
      (simp_all add: save_raw_def)
  with Cons.IH [OF 2] show ?case by simp
qed simp

lemma push_batch_healthy [io_simps]:
  "healthy d \<Longrightarrow> push_batch rs d = (Inr (), d\<lparr>tables := insert_rows (tables d) rs\<rparr>)"
  by (simp add: push_batch_def map_err_def transaction_healthy for_each_save_raw_healthy)

lemma store_next_healthy [io_simps]:
  "healthy d \<Longrightarrow> store_next s i l d = (Inr (map from_row (q_next (tables d) (skey s) (as_i64 i) (as_i64 l))), d)"
  by (simp add: store_next_def map_err_def sql_query_healthy)

lemma status_healthy [io_simps]: "healthy d \<Longrightarrow> status d = (Inr (status_of (q_status (tables d))), d)"
  by (simp add: status_def bind_io_def map_err_def sql_query_healthy)

lemma first_gap_healthy [io_simps]:
  "healthy d \<Longrightarrow> q_gap (tables d) (skey s) = Some i \<Longrightarrow> i < 2 ^ 63 \<Longrightarrow> first_gap s d = (Inr (as_u64 i), d)"
  by (simp add: first_gap_def bind_io_def map_err_def sql_query_healthy)

lemma load_all_healthy [io_simps]: "healthy d \<Longrightarrow> load_all d = (Inr (map from_row (tables d)), d)"
  by (simp add: load_all_def map_err_def sql_query_healthy)

lemma store_last_healthy [io_simps]:
  "healthy d \<Longrightarrow> store_last s d = (Inr (map_option from_row (q_last (tables d) (skey s))), d)"
  by (cases "q_last (tables d) (skey s)")
    (simp_all add: store_last_def found_or_none_def fetch_one_def bind_io_def map_err_def sql_query_healthy)

lemma store_idx_healthy [io_simps]:
  "healthy d \<Longrightarrow> store_idx s i d =
     (Inr (map_option from_row (find (\<lambda>w. row_idx w = as_i64 i) (q_series (tables d) (skey s)))), d)"
proof -
  assume "healthy d"
  moreover have "find p xs = (case filter p xs of [] \<Rightarrow> None | x # _ \<Rightarrow> Some x)" for p :: "db_row \<Rightarrow> bool" and xs
    by (induction xs) auto
  ultimately show ?thesis
    by (simp add: store_idx_def found_or_none_def fetch_one_def bind_io_def map_err_def sql_query_healthy
        split: list.splits)
qed

lemma insert_rows_extends:
  "\<exists>new. insert_rows rows rs = rows @ new \<and> set new \<subseteq> to_row ` set rs
     \<and> (\<forall>r \<in> set rs. \<exists>v \<in> set (insert_rows rows rs). store_clash (to_row r) v)"
proof (induction rs arbitrary: rows)
  case (Cons r rs)
  let ?rows = "insert_unless store_clash rows (to_row r)"
  obtain new where new: "insert_rows ?rows rs = ?rows @ new" "set new \<subseteq> to_row ` set rs"
      "\<forall>r \<in> set rs. \<exists>v \<in> set (insert_rows ?rows rs). store_clash (to_row r) v"
    using Cons.IH [of ?rows] by blast
  have "\<exists>v \<in> set ?rows. store_clash (to_row r) v"
    by (auto simp: insert_unless_def store_clash_def)
  with new show ?case
    by (intro exI [of _ "(if ?rows = rows then [] else [to_row r]) @ new"])
      (auto simp: insert_unless_def split: if_splits)
qed simp

text \<open>What a batch leaves behind, whichever statement fails.\<close>

lemma push_batch_cases:
  obtains e where "fst (push_batch rs d) = Inl e" "tables (snd (push_batch rs d)) = tables d"
  | "fst (push_batch rs d) = Inr ()" "tables (snd (push_batch rs d)) = insert_rows (tables d) rs"
proof (cases "transaction (for_each save_raw rs) d")
  case (Pair res d')
  show ?thesis
  proof (cases res)
    case (Inl e)
    with Pair transaction_rollback [of "for_each save_raw rs" d e] show ?thesis
      by (intro that(1) [of "Sqlx e"]) (simp_all add: push_batch_def map_err_def)
  next
    case (Inr u)
    with Pair obtain d1 d2 where "tables d1 = tables d" "for_each save_raw rs d1 = (Inr u, d2)" "tables d' = tables d2"
      by (auto elim: transaction_commit)
    then have "tables d' = insert_rows (tables d) rs" by (simp add: for_each_save_raw_commit)
    with Pair Inr show ?thesis by (intro that(2)) (simp_all add: push_batch_def map_err_def)
  qed
qed

lemma delete_tables: "tables (snd (delete i d)) \<in> {tables d, filter (\<lambda>w. row_id w \<noteq> i) (tables d)}"
  by (cases rule: sql_exec_cases [of "filter (\<lambda>w. row_id w \<noteq> i)" d])
    (auto simp: delete_def map_err_def split: prod.splits sum.splits)

lemma delete_all_tables: "tables (snd (delete_all d)) \<in> {tables d, []}"
  by (cases rule: sql_exec_cases [of "\<lambda>_. []" d]) (auto simp: delete_all_def map_err_def split: prod.splits sum.splits)

lemma load_all_Inr: "load_all d = (Inr rs, d') \<Longrightarrow> rs = map from_row (tables d)"
  using sql_query_Inr [of "map from_row" d] by (auto simp: load_all_def map_err_def split: prod.splits sum.splits)

lemma load_all_tables: "load_all d = (r, d') \<Longrightarrow> tables d' = tables d"
  using sql_query_tables [of "map from_row" d] by (auto simp: load_all_def map_err_def split: prod.splits sum.splits)

text \<open>The transaction in which \<open>re_encrypt\<close> replaces the table.\<close>

lemma replace_tables:
  assumes "transaction (bind_io (sql_exec (\<lambda>_. [])) (\<lambda>_. for_each save_raw rs)) d = (res, d')"
  shows "(case res of Inl _ \<Rightarrow> tables d' = tables d | Inr _ \<Rightarrow> tables d' = insert_rows [] rs)"
proof (cases res)
  case (Inl e)
  with assms transaction_rollback [of "bind_io (sql_exec (\<lambda>_. [])) (\<lambda>_. for_each save_raw rs)" d e]
  show ?thesis by simp
next
  case (Inr u)
  with assms obtain d1 d2 where run: "bind_io (sql_exec (\<lambda>_. [])) (\<lambda>_. for_each save_raw rs) d1 = (Inr u, d2)"
      "tables d' = tables d2"
    by (auto elim: transaction_commit)
  then obtain v d3 where "sql_exec (\<lambda>_. []) d1 = (Inr v, d3)" "for_each save_raw rs d3 = (Inr u, d2)"
    by (auto elim: bind_io_InrE)
  with run Inr show ?thesis
    by (cases rule: sql_exec_cases [of "\<lambda>_. []" d1]) (simp_all add: for_each_save_raw_commit)
qed

lemma re_encrypt_tables:
  assumes "re_encrypt P rnd old new d = (res, d')"
  shows "(case res of Inl _ \<Rightarrow> tables d' = tables d | Inr _ \<Rightarrow> \<exists>rs. tables d' = insert_rows [] rs)"
proof (cases "load_all d")
  case (Pair r d1)
  note load = load_all_tables [OF this]
  show ?thesis
  proof (cases r)
    case (Inl e)
    with Pair assms load show ?thesis by (auto simp: re_encrypt_def bind_io_def)
  next
    case (Inr rs)
    with Pair assms load show ?thesis
      by (auto simp: re_encrypt_def bind_io_Inr bind_io_def [of "lift_result _"] map_err_def
          split: sum.splits prod.splits dest!: replace_tables)
  qed
qed

lemma for_each_tables_inv:
  assumes "\<And>x d. x \<in> set xs \<Longrightarrow> I (tables d) \<Longrightarrow> I (tables (snd (f x d)))"
  shows "I (tables d) \<Longrightarrow> I (tables (snd (for_each f xs d)))"
  using assms
proof (induction xs arbitrary: d)
  case (Cons x xs)
  show ?case
  proof (cases "f x d")
    case (Pair r d')
    with Cons.prems(2) [of x d] Cons.prems(1) have "I (tables d')" by simp
    moreover from this have "I (tables (snd (for_each f xs d')))"
      by (rule Cons.IH) (rule Cons.prems(2), simp_all)
    ultimately show ?thesis using Pair by (cases r) (simp_all add: bind_io_def)
  qed
qed simp

lemma purge_inv:
  assumes "store_inv (tables d)"
  shows "store_inv (tables (snd (purge P J k d)))"
proof (cases "load_all d")
  case (Pair r d1)
  with assms have inv: "store_inv (tables d1)" by (simp add: load_all_tables)
  have "store_inv (tables (snd (for_each (\<lambda>r. case decrypt P J r k of Inr _ \<Rightarrow> ok_io () | Inl _ \<Rightarrow> delete (rec_id r)) rs d1)))" for rs
  proof (rule for_each_tables_inv [where I = store_inv, OF _ inv])
    fix x and d :: store assume "store_inv (tables d)"
    then show "store_inv (tables (snd ((case decrypt P J x k of Inr _ \<Rightarrow> ok_io () | Inl _ \<Rightarrow> delete (rec_id x)) d)))"
      using delete_tables [of "rec_id x" d] by (auto simp: store_inv_filter split: sum.splits)
  qed
  with Pair inv show ?thesis by (cases r) (simp_all add: purge_def bind_io_def)
qed

section \<open>The first gap\<close>

lemma q_gap_eq:
  assumes nonneg: "\<forall>i \<in> row_idx ` set (q_series rows k). 0 \<le> i"
    and below: "\<forall>i < g. int i \<in> row_idx ` set (q_series rows k)"
    and gap: "int g \<notin> row_idx ` set (q_series rows k)"
  shows "q_gap rows k = Some (int g)"
proof -
  let ?I = "row_idx ` set (q_series rows k)"
  define C where "C = filter (\<lambda>i. i \<notin> ?I) (map (\<lambda>i. i + 1) (map row_idx (q_series rows k)) @ [0])"
  have set_C: "set C = ((\<lambda>i. i + 1) ` ?I \<union> {0}) - ?I" by (auto simp: C_def image_image)
  have "int g \<in> set C"
  proof (cases g)
    case 0
    with gap show ?thesis by (simp add: set_C)
  next
    case (Suc j)
    with below have "int j \<in> ?I" by simp
    then have "int g \<in> (\<lambda>i. i + 1) ` ?I" by (intro image_eqI [of _ _ "int j"]) (simp_all add: Suc)
    with gap show ?thesis by (simp add: set_C)
  qed
  moreover have "int g \<le> c" if "c \<in> set C" for c
  proof (rule ccontr)
    assume "\<not> int g \<le> c"
    moreover have "0 \<le> c" using that nonneg by (auto simp: set_C)
    ultimately have "nat c < g" "int (nat c) = c" by auto
    with below have "c \<in> ?I" by metis
    with that show False by (simp add: set_C)
  qed
  ultimately have "Min (set C) = int g" by (intro Min_eqI) auto
  moreover have "C \<noteq> []" using \<open>int g \<in> set C\<close> by auto
  moreover have "q_gap rows k = (if C = [] then None else Some (Min (set C)))"
    by (simp only: q_gap_def Let_def C_def set_map)
  ultimately show ?thesis by simp
qed

lemma least_gap:
  fixes I :: "int set"
  assumes "finite I"
  obtains g where "\<forall>i < g. int i \<in> I" "int g \<notin> I"
proof -
  have "finite (int -` I)" using assms by (intro finite_vimageI) auto
  then obtain m where "int m \<notin> I" by (metis ex_new_if_finite infinite_UNIV_nat vimage_eq)
  then have "int (LEAST g. int g \<notin> I) \<notin> I" by (rule LeastI)
  then show ?thesis
    by (intro that [of "LEAST g. int g \<notin> I"]) (auto dest: not_less_Least)
qed

lemma holds_gap:
  assumes G: "world_log G" and rows: "holds G n rows"
  shows "q_gap rows k = Some (int (n k))"
proof -
  have "n k \<le> length (G k)" using rows by (rule holds_len)
  then have "row_idx ` set (take (n k) (G k)) = int ` {0..<n k}"
    using arg_cong [OF log_idxs [OF G, of "n k" k], of set] by (simp add: min_absorb1)
  with holds_series(2) [OF G rows, of k] show ?thesis by (intro q_gap_eq) auto
qed

section \<open>Properties\<close>

text \<open>
  C7: a batch is stored completely or not at all, whichever statement of its transaction fails. On
  an error the table is as before. On success it grows at its end only, by rows of the batch,
  and every record of the batch is there or conflicts with a row that is.
\<close>

theorem push_batch_atomic:
  "(\<exists>e. fst (push_batch rs d) = Inl e \<and> tables (snd (push_batch rs d)) = tables d)
   \<or> (fst (push_batch rs d) = Inr ()
      \<and> (\<exists>new. tables (snd (push_batch rs d)) = tables d @ new \<and> set new \<subseteq> to_row ` set rs)
      \<and> (\<forall>r. r \<in> set rs \<longrightarrow> (\<exists>v \<in> set (tables (snd (push_batch rs d))).
            row_id v = rec_id r \<or> (row_series v = skey (series_key r) \<and> row_idx v = as_i64 (rec_idx r)))))"
proof (cases rule: push_batch_cases [of rs d])
  case 2
  obtain new where "insert_rows (tables d) rs = tables d @ new" "set new \<subseteq> to_row ` set rs"
    and all: "\<forall>r \<in> set rs. \<exists>v \<in> set (insert_rows (tables d) rs). store_clash (to_row r) v"
    using insert_rows_extends [of "tables d" rs] by blast
  moreover have "\<exists>v \<in> set (insert_rows (tables d) rs).
      row_id v = rec_id r \<or> (row_series v = skey (series_key r) \<and> row_idx v = as_i64 (rec_idx r))"
    if "r \<in> set rs" for r
  proof -
    from all that obtain v where v: "v \<in> set (insert_rows (tables d) rs)" "store_clash (to_row r) v" by blast
    then show ?thesis
      by (intro bexI [of _ v]) (auto simp: store_clash_def row_clash_def to_row_def row_series_def skey_def series_key_def)
  qed
  ultimately show ?thesis using 2 by (intro disjI2) auto
qed blast

definition record_1 :: EncryptedRecord where
  "record_1 = Record_build 5 77 (Host_new 1) V1 History 0 \<lparr>raw = ''r'', cek = ''c''\<rparr>"

definition record_2 :: EncryptedRecord where
  "record_2 = Record_build 6 78 (Host_new 1) V1 History 1 \<lparr>raw = ''s'', cek = ''d''\<rparr>"

definition empty_store :: store where
  "empty_store = \<lparr>tables = [], faults = []\<rparr>"

theorem push_batch_atomic_witness:
  "fst (push_batch [record_1, record_2] (empty_store\<lparr>faults := [None, None, Some ''disk'']\<rparr>)) = Inl (Sqlx ''disk'')
   \<and> tables (snd (push_batch [record_1, record_2] (empty_store\<lparr>faults := [None, None, Some ''disk'']\<rparr>))) = []"
proof -
  have "fst (push_batch [record_1, record_2] (empty_store\<lparr>faults := [None, None, Some ''disk'']\<rparr>)) = Inl (Sqlx ''disk'')"
    by (simp add: push_batch_def transaction_def bind_io_def map_err_def save_raw_def sql_exec_def sql_def empty_store_def)
  with push_batch_atomic [of "[record_1, record_2]" "empty_store\<lparr>faults := [None, None, Some ''disk'']\<rparr>"]
  show ?thesis by (simp add: empty_store_def)
qed

text \<open>
  no operation of the store breaks the uniqueness of ids or of (host, tag, idx), at any
  schedule of failing statements.
\<close>

theorem store_inv_preserved:
  assumes "store_inv (tables d)"
  shows "store_inv (tables (snd (push r d))) \<and> store_inv (tables (snd (push_batch rs d)))
    \<and> store_inv (tables (snd (delete i d))) \<and> store_inv (tables (snd (delete_all d)))
    \<and> store_inv (tables (snd (re_encrypt P rnd old new d))) \<and> store_inv (tables (snd (purge P J k d)))"
proof -
  have batch: "store_inv (tables (snd (push_batch xs d)))" for xs
    using assms by (cases rule: push_batch_cases [of xs d]) (simp_all add: store_inv_insert_rows)
  have "store_inv (tables (snd (delete i d)))" "store_inv (tables (snd (delete_all d)))"
    using assms delete_tables [of i d] delete_all_tables [of d] by (auto simp: store_inv_filter)
  moreover have "store_inv (tables (snd (re_encrypt P rnd old new d)))"
    using assms re_encrypt_tables [of P rnd old new d]
    by (cases "re_encrypt P rnd old new d") (auto simp: store_inv_insert_rows split: sum.splits)
  ultimately show ?thesis
    using batch purge_inv [OF assms] by (simp add: push_def)
qed

theorem store_inv_preserved_witness:
  "store_inv (tables (snd (push record_2 (snd (push record_1 empty_store)))))"
proof -
  have "store_inv (tables (snd (push record_1 empty_store)))"
    using store_inv_preserved [of empty_store] by (simp add: empty_store_def)
  with store_inv_preserved [of "snd (push record_1 empty_store)"] show ?thesis by blast
qed

text \<open>
  \<open>first_gap\<close> returns the least index with no record in the series, also when the series has
  holes. (An index of \<open>2 ^ 63\<close> or more is stored as a negative number; such rows are excluded.)
\<close>

theorem first_gap_least:
  assumes "healthy d"
    and "\<forall>w \<in> set (q_series (tables d) (skey s)). 0 \<le> row_idx w \<and> row_idx w < 2 ^ 63 - 1"
  shows "\<exists>g. first_gap s d = (Inr g, d)
    \<and> (\<forall>i < g. \<exists>w \<in> set (tables d). row_series w = skey s \<and> row_idx w = as_i64 i)
    \<and> \<not> (\<exists>w \<in> set (tables d). row_series w = skey s \<and> row_idx w = as_i64 g)"
proof -
  let ?I = "row_idx ` set (q_series (tables d) (skey s))"
  obtain g where g: "\<forall>i < g. int i \<in> ?I" "int g \<notin> ?I" using least_gap [of ?I] by auto
  have mem: "(\<exists>w \<in> set (tables d). row_series w = skey s \<and> row_idx w = i) \<longleftrightarrow> i \<in> ?I" for i
    by (auto simp: q_series_def)
  have small: "g < 2 ^ 63"
  proof (cases g)
    case (Suc j)
    with g(1) have "int j \<in> ?I" by simp
    then have "int j < 2 ^ 63 - 1" using assms(2) by force
    then show ?thesis by (simp add: Suc)
  qed simp
  have "q_gap (tables d) (skey s) = Some (int g)" using assms(2) g by (intro q_gap_eq) auto
  then have "first_gap s d = (Inr g, d)"
    using assms(1) small by (simp add: first_gap_healthy)
  with g small show ?thesis unfolding mem by (intro exI [of _ g]) simp
qed

definition gap_store :: store where
  "gap_store = \<lparr>tables = [to_row record_1, to_row (record_2\<lparr>rec_idx := 2\<rparr>)], faults = []\<rparr>"

theorem first_gap_least_witness:
  "\<exists>g. first_gap (RecordSeriesKey_new 1 History) gap_store = (Inr g, gap_store) \<and> g = 1"
proof -
  let ?s = "RecordSeriesKey_new 1 History"
  have mem: "(\<exists>w \<in> set (tables gap_store). row_series w = skey ?s \<and> row_idx w = z) \<longleftrightarrow> z = 0 \<or> z = 2" for z
    by (auto simp: gap_store_def record_1_def record_2_def Record_build_def to_row_def row_series_def skey_def
        RecordSeriesKey_new_def Host_new_def)
  have "\<exists>g. first_gap ?s gap_store = (Inr g, gap_store)
    \<and> (\<forall>i < g. \<exists>w \<in> set (tables gap_store). row_series w = skey ?s \<and> row_idx w = as_i64 i)
    \<and> \<not> (\<exists>w \<in> set (tables gap_store). row_series w = skey ?s \<and> row_idx w = as_i64 g)"
  proof (rule first_gap_least)
    show "healthy gap_store" by (simp add: gap_store_def)
    show "\<forall>w \<in> set (q_series (tables gap_store) (skey ?s)). 0 \<le> row_idx w \<and> row_idx w < 2 ^ 63 - 1"
      by (auto simp: gap_store_def q_series_def record_1_def record_2_def Record_build_def to_row_def)
  qed
  then obtain g where g: "first_gap ?s gap_store = (Inr g, gap_store)" "\<forall>i < g. as_i64 i = 0 \<or> as_i64 i = 2"
      "as_i64 g \<noteq> 0"
    unfolding mem by auto
  have "\<not> 1 < g" using g(2) by (auto dest: spec [of _ 1])
  moreover have "g \<noteq> 0" using g(3) by (intro notI) simp
  ultimately have "g = 1" by simp
  with g(1) show ?thesis by blast
qed

section \<open>Reading back and rekeying\<close>

lemma store_get_healthy [io_simps]:
  "healthy d \<Longrightarrow> store_get i d =
     (case filter (\<lambda>w. row_id w = i) (tables d) of [] \<Rightarrow> Inl RowNotFound | w # _ \<Rightarrow> Inr (from_row w), d)"
  by (simp add: store_get_def fetch_one_def bind_io_def map_err_def sql_query_healthy split: list.splits)

lemma insert_rows_fresh:
  "store_inv (rows @ map to_row rs) \<Longrightarrow> insert_rows rows rs = rows @ map to_row rs"
proof (induction rs arbitrary: rows)
  case (Cons r rs)
  then have "\<not> (\<exists>v \<in> set rows. store_clash (to_row r) v)"
    by (auto simp: store_inv_def store_clash_def row_clash_def image_iff)
  then have "insert_unless store_clash rows (to_row r) = rows @ [to_row r]" by (simp add: insert_unless_def)
  with Cons.IH [of "rows @ [to_row r]"] Cons.prems show ?case by simp
qed simp

lemma from_row_with_data [simp]:
  "from_row (to_row (with_data x (from_row w))) = with_data x (from_row w)"
proof -
  have "as_u64 i < 2 ^ 64" for i by (simp add: as_u64_def)
  then have "storable (with_data x (from_row w))"
    by (simp add: storable_def with_data_def map_data_def from_row_def Host_new_def)
  then show ?thesis by simp
qed

lemma raw_from_row [simp]: "raw (rec_data (from_row w)) = row_data w"
  by (simp add: from_row_def)

lemma to_row_with_cek:
  "i64_row w \<Longrightarrow> raw x = row_data w \<Longrightarrow> to_row (with_data x (from_row w)) = w\<lparr>row_cek := cek x\<rparr>"
  by (cases w) (simp add: i64_row_def to_row_def with_data_def map_data_def from_row_def as_i64_as_u64 Host_new_def)

lemma decrypt_with_data:
  "decrypt P J (with_data x r) k =
     (case decrypt_sync P x (Some (J (additional_data r))) k of Inl e \<Rightarrow> Inl e | Inr d \<Rightarrow> Inr (with_data d r))"
  by (auto simp: decrypt_def with_data_def map_data_def additional_data_def split: sum.splits)

lemma store_inv_same_keys:
  assumes "store_inv rows" "\<And>w. w \<in> set rows \<Longrightarrow> i64_row (f w) \<and> row_id (f w) = row_id w
      \<and> row_series (f w) = row_series w \<and> row_idx (f w) = row_idx w"
  shows "store_inv (map f rows)"
proof -
  have "map row_id (map f rows) = map row_id rows"
    "map (\<lambda>w. (row_series w, row_idx w)) (map f rows) = map (\<lambda>w. (row_series w, row_idx w)) rows"
    using assms(2) by simp_all
  with assms show ?thesis unfolding store_inv_def by (auto simp del: map_map)
qed

lemma rewrap_record:
  assumes P: "prims_ok P" and x: "decrypt P J r old = Inr x"
  shows "\<exists>y. reencrypt_sync P m (rec_data r) old new = Inr y
    \<and> decrypt P J (with_data y r) new = decrypt P J r old \<and> raw y = raw (rec_data r)"
proof -
  from x obtain p where p: "decrypt_sync P (rec_data r) (Some (J (additional_data r))) old = Inr p"
    by (auto simp: decrypt_def split: sum.splits)
  obtain y where y: "reencrypt_sync P m (rec_data r) old new = Inr y"
      "decrypt_sync P y (Some (J (additional_data r))) new = Inr p"
    using P p by (rule reencrypt_sync_opens)
  with p have "decrypt P J (with_data y r) new = decrypt P J r old"
    unfolding decrypt_with_data by (simp add: decrypt_def)
  moreover from y(1) have "raw y = raw (rec_data r)" by (auto simp: reencrypt_sync_def split: sum.splits)
  ultimately show ?thesis using y(1) by blast
qed

text \<open>
  A record whose id and index are free is returned by id and by index once it is pushed, and
  no later batch changes that: the log is written once.
\<close>

theorem pushed_record_stays:
  assumes "healthy d" "storable r" "\<forall>v \<in> set (tables d). \<not> store_clash (to_row r) v"
  shows "fst (store_get (rec_id r) (snd (push_batch rs (snd (push r d))))) = Inr r
    \<and> fst (store_idx (series_key r) (rec_idx r) (snd (push_batch rs (snd (push r d))))) = Inr (Some r)"
proof -
  have "tables (snd (push r d)) = tables d @ [to_row r]"
    using assms by (auto simp: push_def push_batch_healthy insert_unless_def)
  then obtain new where rows: "tables (snd (push_batch rs (snd (push r d)))) = tables d @ to_row r # new"
    using assms(1) insert_rows_extends [of "tables d @ [to_row r]" rs] by (auto simp: push_def push_batch_healthy)
  have healthy: "healthy (snd (push_batch rs (snd (push r d))))"
    using assms(1) by (simp add: push_def push_batch_healthy)
  have id: "row_id (to_row r) = rec_id r" "row_idx (to_row r) = as_i64 (rec_idx r)" by (simp_all add: to_row_def)
  have "filter (\<lambda>w. row_id w = rec_id r) (tables d) = []"
    using assms(3) by (auto simp: filter_empty_conv store_clash_def id)
  moreover have "find (\<lambda>w. row_idx w = as_i64 (rec_idx r)) (q_series (tables d) (skey (series_key r))) = None"
    using assms(3) by (auto simp: find_None_iff q_series_def store_clash_def row_clash_def id)
  moreover have "find p xs = None \<Longrightarrow> find p (xs @ ys) = find p ys" for p :: "db_row \<Rightarrow> bool" and xs ys
    by (induction xs) auto
  ultimately show ?thesis
    using assms(2) healthy rows by (simp add: store_get_healthy store_idx_healthy id q_series_def)
qed

theorem pushed_record_stays_witness:
  "fst (store_get 5 (snd (push_batch [record_1\<lparr>rec_data := \<lparr>raw = ''x'', cek = ''y''\<rparr>\<rparr>] (snd (push record_1 empty_store)))))
     = Inr record_1"
proof -
  have "storable record_1"
    by (simp add: storable_def record_1_def Record_build_def Host_new_def)
  with pushed_record_stays [of empty_store record_1 "[record_1\<lparr>rec_data := \<lparr>raw = ''x'', cek = ''y''\<rparr>\<rparr>]"]
  have "fst (store_get (rec_id record_1)
      (snd (push_batch [record_1\<lparr>rec_data := \<lparr>raw = ''x'', cek = ''y''\<rparr>\<rparr>] (snd (push record_1 empty_store))))) = Inr record_1"
    by (simp add: empty_store_def)
  moreover have "rec_id record_1 = 5" by (simp add: record_1_def Record_build_def)
  ultimately show ?thesis by simp
qed

text \<open>
  C8: rekeying. If the old key opens every record of the store, \<open>re_encrypt\<close> succeeds, and then
  the new key opens every record with the content it had, in the same order; nothing but the
  wrapped content keys has changed. If it returns an error, at any schedule of failing
  statements, the table is unchanged.
\<close>

theorem re_encrypt_keeps_content:
  assumes "prims_ok P"
  shows "(healthy d \<longrightarrow> store_inv (tables d) \<longrightarrow> (\<forall>w \<in> set (tables d). \<exists>x. decrypt P J (from_row w) old = Inr x) \<longrightarrow>
      (\<exists>d'. re_encrypt P rnd old new d = (Inr (), d')
        \<and> map (\<lambda>w. decrypt P J (from_row w) new) (tables d') = map (\<lambda>w. decrypt P J (from_row w) old) (tables d)
        \<and> map (row_cek_update (\<lambda>_. [])) (tables d') = map (row_cek_update (\<lambda>_. [])) (tables d)))
    \<and> (\<forall>e d'. re_encrypt P rnd old new d = (Inl e, d') \<longrightarrow> tables d' = tables d)"
proof (intro conjI impI allI)
  assume d: "healthy d" "store_inv (tables d)" and "\<forall>w \<in> set (tables d). \<exists>x. decrypt P J (from_row w) old = Inr x"
  then have "\<forall>w \<in> set (tables d). \<exists>y. reencrypt_sync P (rnd (from_row w)) (rec_data (from_row w)) old new = Inr y
      \<and> decrypt P J (with_data y (from_row w)) new = decrypt P J (from_row w) old \<and> raw y = raw (rec_data (from_row w))"
    using rewrap_record [OF assms] by metis
  then obtain Y where Y: "\<And>w. w \<in> set (tables d) \<Longrightarrow>
      reencrypt_sync P (rnd (from_row w)) (rec_data (from_row w)) old new = Inr (Y w)
      \<and> decrypt P J (with_data (Y w) (from_row w)) new = decrypt P J (from_row w) old \<and> raw (Y w) = raw (rec_data (from_row w))"
    by metis
  define rs where "rs = map (\<lambda>w. with_data (Y w) (from_row w)) (tables d)"
  have "map (\<lambda>r. case reencrypt_sync P (rnd r) (rec_data r) old new of
           Inl e \<Rightarrow> Inl (FailedReencrypt e) | Inr x \<Rightarrow> Inr (with_data x r)) (map from_row (tables d))
      = map Inr rs"
    using Y by (simp add: rs_def)
  then have collected: "collect_results (map (\<lambda>r. case reencrypt_sync P (rnd r) (rec_data r) old new of
           Inl e \<Rightarrow> Inl (FailedReencrypt e) | Inr x \<Rightarrow> Inr (with_data x r)) (map from_row (tables d)))
      = Inr rs"
    by (simp only: collect_results_map_Inr [of "\<lambda>x. x"] list.map_ident)
  have rows: "map to_row rs = map (\<lambda>w. w\<lparr>row_cek := cek (Y w)\<rparr>) (tables d)"
    using d(2) Y by (auto simp: rs_def to_row_with_cek store_inv_def)
  have "store_inv (map to_row rs)"
    unfolding rows using d(2) by (intro store_inv_same_keys) (auto simp: store_inv_def i64_row_def row_series_def)
  then have ins: "insert_rows [] rs = map to_row rs" by (simp add: insert_rows_fresh)
  have "re_encrypt P rnd old new d = (Inr (), d\<lparr>tables := map to_row rs\<rparr>)"
    using d(1) collected ins
    by (simp add: re_encrypt_def bind_io_Inr load_all_healthy map_err_def transaction_healthy sql_exec_healthy
        for_each_save_raw_healthy del: map_map)
  moreover have "map (\<lambda>w. decrypt P J (from_row w) new) (map to_row rs) = map (\<lambda>w. decrypt P J (from_row w) old) (tables d)"
    using Y by (simp add: rs_def)
  moreover have "map (row_cek_update (\<lambda>_. [])) (map to_row rs) = map (row_cek_update (\<lambda>_. [])) (tables d)"
    unfolding rows by simp
  ultimately show "\<exists>d'. re_encrypt P rnd old new d = (Inr (), d')
        \<and> map (\<lambda>w. decrypt P J (from_row w) new) (tables d') = map (\<lambda>w. decrypt P J (from_row w) old) (tables d)
        \<and> map (row_cek_update (\<lambda>_. [])) (tables d') = map (row_cek_update (\<lambda>_. [])) (tables d)"
    by (intro exI [of _ "d\<lparr>tables := map to_row rs\<rparr>"]) simp
next
  fix e d' assume "re_encrypt P rnd old new d = (Inl e, d')"
  then show "tables d' = tables d" using re_encrypt_tables by fastforce
qed

definition sealed_1 :: EncryptedRecord where
  "sealed_1 = (case encrypt clear_prims (\<lambda>ad. ad_tag ad) clear_entropy plain_record [42] of Inr x \<Rightarrow> x)"

definition sealed_store :: store where
  "sealed_store = \<lparr>tables = [to_row sealed_1], faults = []\<rparr>"

lemma sealed_1_opens: "decrypt clear_prims (\<lambda>ad. ad_tag ad) (from_row (to_row sealed_1)) [42] = Inr plain_record"
proof -
  obtain x where x: "encrypt clear_prims (\<lambda>ad. ad_tag ad) clear_entropy plain_record [42] = Inr x"
      "decrypt clear_prims (\<lambda>ad. ad_tag ad) x [42] = Inr plain_record"
    using encrypt_sealed [OF clear_prims_ok, of clear_entropy "\<lambda>ad. ad_tag ad" plain_record "[42]"]
    by (auto simp: clear_entropy_def)
  from x(1) have "storable x"
    by (auto simp: encrypt_def storable_def with_data_def map_data_def plain_record_def Record_build_def Host_new_def
        split: sum.splits)
  with x show ?thesis by (simp add: sealed_1_def)
qed

theorem re_encrypt_keeps_content_witness:
  "\<exists>d'. re_encrypt clear_prims (\<lambda>_. []) [42] [43] sealed_store = (Inr (), d')
     \<and> map (\<lambda>w. decrypt clear_prims (\<lambda>ad. ad_tag ad) (from_row w) [43]) (tables d') = [Inr plain_record]"
  using re_encrypt_keeps_content [OF clear_prims_ok, of sealed_store "\<lambda>ad. ad_tag ad" "[42]" "\<lambda>_. []" "[43]"]
  by (auto simp: sealed_store_def store_inv_def sealed_1_opens)

lemma purge_tables:
  assumes "healthy d" "store_inv (tables d)"
  shows "purge P J k d = (Inr (), d\<lparr>tables := filter (\<lambda>w. \<exists>x. decrypt P J (from_row w) k = Inr x) (tables d)\<rparr>)"
proof -
  let ?bad = "\<lambda>w. \<forall>x. decrypt P J (from_row w) k \<noteq> Inr x"
  let ?f = "\<lambda>r. case decrypt P J r k of Inr _ \<Rightarrow> ok_io () | Inl _ \<Rightarrow> delete (rec_id r)"
  have ids: "rec_id (from_row w) = row_id w" for w by (simp add: from_row_def)
  have loop: "healthy (d :: store) \<Longrightarrow> for_each ?f (map from_row ws) d =
      (Inr (), d\<lparr>tables := filter (\<lambda>v. \<forall>w \<in> set ws. ?bad w \<longrightarrow> row_id v \<noteq> row_id w) (tables d)\<rparr>)" for ws d
  proof (induction ws arbitrary: d)
    case (Cons w ws)
    show ?case
    proof (cases "decrypt P J (from_row w) k")
      case (Inl e)
      have "?f (from_row w) d = (Inr (), d\<lparr>tables := filter (\<lambda>v. row_id v \<noteq> row_id w) (tables d)\<rparr>)"
        using Inl Cons.prems by (simp add: delete_def map_err_def sql_exec_healthy ids)
      with Cons Inl show ?thesis by (simp add: bind_io_Inr conj_commute)
    next
      case (Inr x)
      with Cons show ?thesis by (simp add: bind_io_Inr)
    qed
  qed simp
  have same: "w = v" if "w \<in> set (tables d)" "v \<in> set (tables d)" "row_id w = row_id v" for v w
    using that assms(2) by (auto simp: store_inv_def distinct_map dest: inj_onD)
  have "filter (\<lambda>v. \<forall>w \<in> set (tables d). ?bad w \<longrightarrow> row_id v \<noteq> row_id w) (tables d) = filter (\<lambda>w. \<not> ?bad w) (tables d)"
    by (rule filter_cong) (use same in blast)+
  then show ?thesis
    using loop [OF assms(1), of "tables d"] assms(1) by (simp add: purge_def bind_io_Inr load_all_healthy)
qed

text \<open>
  \<open>purge\<close> removes exactly the records that the key does not open, and afterwards \<open>verify\<close>
  accepts the store.
\<close>

theorem purge_then_verify:
  assumes "healthy d" "store_inv (tables d)"
  shows "\<exists>d'. purge P J k d = (Inr (), d')
    \<and> tables d' = filter (\<lambda>w. \<exists>x. decrypt P J (from_row w) k = Inr x) (tables d)
    \<and> fst (verify P J k d') = Inr ()"
proof -
  let ?ok = "\<lambda>w. \<exists>x. decrypt P J (from_row w) k = Inr x"
  have "\<exists>xs. collect_results (map (\<lambda>r. case decrypt P J r k of Inl e \<Rightarrow> Inl (FailedDecrypt e) | Inr x \<Rightarrow> Inr x)
      (map from_row (filter ?ok (tables d)))) = Inr xs"
    unfolding collect_results_ok by auto
  then have "fst (verify P J k (d\<lparr>tables := filter ?ok (tables d)\<rparr>)) = Inr ()"
    using assms(1) by (auto simp: verify_def bind_io_Inr load_all_healthy bind_io_def)
  with purge_tables [OF assms, of P J k] show ?thesis by auto
qed

theorem purge_then_verify_witness:
  "\<exists>d'. purge clear_prims (\<lambda>ad. ad_tag ad) [42] sealed_store = (Inr (), d') \<and> tables d' = [to_row sealed_1]
     \<and> fst (verify clear_prims (\<lambda>ad. ad_tag ad) [42] d') = Inr ()"
  using purge_then_verify [of sealed_store clear_prims "\<lambda>ad. ad_tag ad" "[42]"]
  by (auto simp: sealed_store_def store_inv_def sealed_1_opens)

text \<open>
  the maintenance operations treat a packfile manifest, whose content key is empty because it
  is not encrypted, as a record of another key: with one in the store, \<open>verify\<close> and \<open>re_encrypt\<close>
  fail under every key, and \<open>purge\<close> deletes it.
\<close>

theorem maintenance_rejects_manifests:
  assumes "prims_ok P" "healthy d" "store_inv (tables d)" "w \<in> set (tables d)" "row_cek w = []"
  shows "(\<exists>e. fst (verify P J k d) = Inl e) \<and> (\<exists>e. fst (re_encrypt P rnd k k' d) = Inl e)
    \<and> w \<notin> set (tables (snd (purge P J k d)))"
proof -
  have cek: "cek (rec_data (from_row w)) = []" using assms(5) by (simp add: from_row_def)
  obtain e where dec: "decrypt P J (from_row w) k = Inl e"
    using decrypt_sync_no_cek [OF assms(1) cek, of "Some (J (additional_data (from_row w)))" k] by (auto simp: decrypt_def split: sum.splits)
  obtain e' where re: "reencrypt_sync P (rnd (from_row w)) (rec_data (from_row w)) k k' = Inl e'"
    using reencrypt_sync_no_cek [OF assms(1) cek] by blast
  have "\<exists>e. collect_results (map (\<lambda>r. case decrypt P J r k of Inl e \<Rightarrow> Inl (FailedDecrypt e) | Inr x \<Rightarrow> Inr x)
      (map from_row (tables d))) = Inl e"
    using assms(4) dec by (intro collect_results_fails [where x = "from_row w" and c = "FailedDecrypt e"]) auto
  moreover have "\<exists>e. collect_results (map (\<lambda>r. case reencrypt_sync P (rnd r) (rec_data r) k k' of
           Inl e \<Rightarrow> Inl (FailedReencrypt e) | Inr x \<Rightarrow> Inr (with_data x r)) (map from_row (tables d))) = Inl e"
    using assms(4) re by (intro collect_results_fails [where x = "from_row w" and c = "FailedReencrypt e'"]) auto
  moreover have "w \<notin> set (tables (snd (purge P J k d)))"
    using purge_tables [OF assms(2,3), of P J k] dec by simp
  ultimately show ?thesis
    using assms(2) by (auto simp: verify_def re_encrypt_def bind_io_Inr load_all_healthy bind_io_Inl)
qed

definition manifest_store :: store where
  "manifest_store = \<lparr>tables = [to_row (Record_build 9 1 (Host_new 1) V1 Packfile 0 \<lparr>raw = ''{}'', cek = []\<rparr>)], faults = []\<rparr>"

theorem maintenance_rejects_manifests_witness:
  "(\<exists>e. fst (verify clear_prims (\<lambda>ad. ad_tag ad) [42] manifest_store) = Inl e)
   \<and> (\<exists>e. fst (re_encrypt clear_prims (\<lambda>_. []) [42] [43] manifest_store) = Inl e)"
  using maintenance_rejects_manifests [OF clear_prims_ok, of manifest_store "hd (tables manifest_store)"
      "\<lambda>ad. ad_tag ad" "[42]" "\<lambda>_. []" "[43]"]
  by (auto simp: manifest_store_def store_inv_def to_row_def Record_build_def i64_row_def)

end
