(* ===== verification/Rmp_Codec.thy ===== *)
theory Rmp_Codec
  imports Prelude
begin

text \<open>
  The MessagePack layer, \<open>atuin-common/src/rmp/{encode,decode}.rs\<close>: wrappers around the \<open>rmp\<close>
  package that add strings, optional values and arrays.

  The functions of \<open>rmp\<close> are the record \<open>rmp\<close>, a parameter. A writer maps a value to its bytes or
  an error, a reader is a fallible computation whose state is the rest of the input; reading
  collects the iterators the code returns. What the code relies on is \<open>rmp_ok\<close>: a value reads
  back from what was written, whatever follows it, and a reader of another type that meets the
  null marker fails with that marker and consumes it.

  Shown: the wrappers invert each other in the same way. A reference instance closes the theory.
\<close>

datatype marker = Null | OtherMarker nat

datatype DecodeError =
    TypeMismatch marker
  | InvalidRead string
  | WrongArrayLength nat nat
  | DecodeCustom string

datatype EncodeError = ValueWrite string | ArrayOverflow | EncodeCustom string

type_synonym 'a reader = "(bytes, DecodeError, 'a) io"
type_synonym 'a writer = "'a \<Rightarrow> EncodeError + bytes"

record rmp =
  w_nil :: bytes
  w_bool :: "bool \<Rightarrow> bytes"
  w_u8 :: "nat \<Rightarrow> bytes"
  w_uint8 :: "nat \<Rightarrow> bytes"
  w_u16 :: "nat \<Rightarrow> bytes"
  w_u64 :: "nat \<Rightarrow> bytes"
  w_i64 :: "int \<Rightarrow> bytes"
  w_str :: "string \<Rightarrow> EncodeError + bytes"
  w_array_len :: "nat \<Rightarrow> bytes"
  w_bin_len :: "nat \<Rightarrow> bytes"
  r_bool :: "bool reader"
  r_u8 :: "nat reader"
  r_int_u8 :: "nat reader"
  r_u16 :: "nat reader"
  r_u64 :: "nat reader"
  r_i64 :: "int reader"
  r_str_from_slice :: "bytes \<Rightarrow> DecodeError + (string \<times> bytes)"
  r_array_len :: "nat reader"
  r_bin_len :: "nat reader"

section \<open>Reading\<close>

definition read_byte :: "byte reader" where
  "read_byte bs = (case bs of [] \<Rightarrow> (Inl (InvalidRead ''insufficient bytes''), []) | b # r \<Rightarrow> (Inr b, r))"

definition read_string :: "rmp \<Rightarrow> string reader" where
  "read_string R bs =
     (case r_str_from_slice R bs of
        Inr (s, rest) \<Rightarrow> (Inr s, rest)
      | Inl e \<Rightarrow> (case e of TypeMismatch _ \<Rightarrow> (Inl e, tl bs) | _ \<Rightarrow> (Inl e, bs)))"

definition with_str :: "rmp \<Rightarrow> (string \<Rightarrow> 'a) \<Rightarrow> 'a reader" where
  "with_str R f bs = (case r_str_from_slice R bs of Inr (s, rest) \<Rightarrow> (Inr (f s), rest) | Inl e \<Rightarrow> (Inl e, bs))"

definition type_mismatch :: "DecodeError \<Rightarrow> marker option" where
  "type_mismatch e = (case e of TypeMismatch m \<Rightarrow> Some m | _ \<Rightarrow> None)"

definition read_optional :: "'a reader \<Rightarrow> 'a option reader" where
  "read_optional read bs =
     (case read bs of
        (Inr v, rest) \<Rightarrow> (Inr (Some v), rest)
      | (Inl err, rest) \<Rightarrow> if type_mismatch err = Some Null then (Inr None, rest) else (Inl err, rest))"

primrec read_n :: "nat \<Rightarrow> 'a reader \<Rightarrow> 'a list reader" where
  "read_n 0 read = ok_io []"
| "read_n (Suc n) read = bind_io read (\<lambda>x. bind_io (read_n n read) (\<lambda>xs. ok_io (x # xs)))"

definition read_array_impl :: "nat reader \<Rightarrow> 'a reader \<Rightarrow> 'a list reader" where
  "read_array_impl read_len read = bind_io read_len (\<lambda>len. read_n len read)"

definition read_array :: "rmp \<Rightarrow> 'a reader \<Rightarrow> 'a list reader" where
  "read_array R read = read_array_impl (r_array_len R) read"

definition read_binary_array :: "rmp \<Rightarrow> bytes reader" where
  "read_binary_array R = read_array_impl (r_bin_len R) read_byte"

definition read_fixed_array_impl :: "nat \<Rightarrow> nat reader \<Rightarrow> 'a reader \<Rightarrow> 'a list reader" where
  "read_fixed_array_impl N read_len read =
     bind_io read_len (\<lambda>actual_len.
       if N \<ge> 2 ^ 32 \<or> N \<noteq> actual_len then fail_io (WrongArrayLength N actual_len) else read_n N read)"

definition read_fixed_binary_array :: "rmp \<Rightarrow> nat \<Rightarrow> bytes reader" where
  "read_fixed_binary_array R N = read_fixed_array_impl N (r_bin_len R) read_byte"

section \<open>Writing\<close>

definition write_optional :: "rmp \<Rightarrow> 'a writer \<Rightarrow> 'a option writer" where
  "write_optional R wr v = (case v of Some x \<Rightarrow> wr x | None \<Rightarrow> Inr (w_nil R))"

text \<open>The items in order; the first error of the iterator (\<open>Inr\<close> side) or of the encoding stops.\<close>

fun write_items :: "'a writer \<Rightarrow> ('e + 'a) list \<Rightarrow> (EncodeError + 'e) + bytes" where
  "write_items wr [] = Inr []"
| "write_items wr (Inl e # _) = Inl (Inr e)"
| "write_items wr (Inr x # rs) =
     (case wr x of
        Inl e \<Rightarrow> Inl (Inl e)
      | Inr b \<Rightarrow> (case write_items wr rs of Inl e \<Rightarrow> Inl e | Inr bs \<Rightarrow> Inr (b @ bs)))"

definition try_write_array_impl :: "(nat \<Rightarrow> bytes) \<Rightarrow> 'a writer \<Rightarrow> ('e + 'a) list \<Rightarrow> (EncodeError + 'e) + bytes" where
  "try_write_array_impl write_len wr rs =
     (if length rs \<ge> 2 ^ 32 then Inl (Inl ArrayOverflow)
      else (case write_items wr rs of Inl e \<Rightarrow> Inl e | Inr bs \<Rightarrow> Inr (write_len (length rs) @ bs)))"

definition try_write_array :: "rmp \<Rightarrow> 'a writer \<Rightarrow> ('e + 'a) list \<Rightarrow> (EncodeError + 'e) + bytes" where
  "try_write_array R wr rs = try_write_array_impl (w_array_len R) wr rs"

definition write_array :: "rmp \<Rightarrow> 'a writer \<Rightarrow> 'a list writer" where
  "write_array R wr xs =
     (case try_write_array R wr (map Inr xs :: (EncodeError + 'a) list) of Inl (Inl e) \<Rightarrow> Inl e | Inl (Inr e) \<Rightarrow> Inl e | Inr bs \<Rightarrow> Inr bs)"

definition write_binary_array :: "rmp \<Rightarrow> bytes writer" where
  "write_binary_array R bs =
     (if length bs \<ge> 2 ^ 32 then Inl ArrayOverflow else Inr (w_bin_len R (length bs) @ bs))"

text \<open>Writing one value after the other.\<close>

definition then_write :: "EncodeError + bytes \<Rightarrow> EncodeError + bytes \<Rightarrow> EncodeError + bytes" where
  "then_write a b = (case a of Inl e \<Rightarrow> Inl e | Inr x \<Rightarrow> (case b of Inl e \<Rightarrow> Inl e | Inr y \<Rightarrow> Inr (x @ y)))"

section \<open>What the package promises\<close>

definition null_fails :: "rmp \<Rightarrow> 'a reader \<Rightarrow> bool" where
  "null_fails R read \<longleftrightarrow> (\<forall>rest. read (w_nil R @ rest) = (Inl (TypeMismatch Null), rest))"

definition rmp_ok :: "rmp \<Rightarrow> bool" where
  "rmp_ok R \<longleftrightarrow>
     length (w_nil R) = 1
     \<and> (\<forall>b rest. r_bool R (w_bool R b @ rest) = (Inr b, rest))
     \<and> (\<forall>n rest. n < 2 ^ 8 \<longrightarrow> r_u8 R (w_u8 R n @ rest) = (Inr n, rest))
     \<and> (\<forall>n rest. n < 2 ^ 16 \<longrightarrow> r_u16 R (w_u16 R n @ rest) = (Inr n, rest))
     \<and> (\<forall>n rest. n < 2 ^ 64 \<longrightarrow> r_u64 R (w_u64 R n @ rest) = (Inr n, rest))
     \<and> (\<forall>i rest. - (2 ^ 63) \<le> i \<longrightarrow> i < 2 ^ 63 \<longrightarrow> r_i64 R (w_i64 R i @ rest) = (Inr i, rest))
     \<and> (\<forall>s. length s < 2 ^ 32 \<longrightarrow> (\<exists>b. w_str R s = Inr b \<and> (\<forall>rest. r_str_from_slice R (b @ rest) = Inr (s, rest))))
     \<and> (\<forall>n rest. n < 2 ^ 32 \<longrightarrow> r_array_len R (w_array_len R n @ rest) = (Inr n, rest))
     \<and> (\<forall>n rest. n < 2 ^ 32 \<longrightarrow> r_bin_len R (w_bin_len R n @ rest) = (Inr n, rest))
     \<and> (\<forall>rest. r_str_from_slice R (w_nil R @ rest) = Inl (TypeMismatch Null))
     \<and> null_fails R (r_u64 R) \<and> null_fails R (r_i64 R) \<and> null_fails R (r_array_len R) \<and> null_fails R (r_bin_len R)
     \<and> (\<forall>n rest. n < 2 ^ 8 \<longrightarrow> r_int_u8 R (w_uint8 R n @ rest) = (Inr n, rest)) \<and> null_fails R (r_int_u8 R)"

lemma rmp_okD:
  assumes "rmp_ok R"
  shows "length (w_nil R) = 1"
    "r_bool R (w_bool R b @ rest) = (Inr b, rest)"
    "n < 2 ^ 8 \<Longrightarrow> r_u8 R (w_u8 R n @ rest) = (Inr n, rest)"
    "n < 2 ^ 16 \<Longrightarrow> r_u16 R (w_u16 R n @ rest) = (Inr n, rest)"
    "n < 2 ^ 64 \<Longrightarrow> r_u64 R (w_u64 R n @ rest) = (Inr n, rest)"
    "- (2 ^ 63) \<le> i \<Longrightarrow> i < 2 ^ 63 \<Longrightarrow> r_i64 R (w_i64 R i @ rest) = (Inr i, rest)"
    "n < 2 ^ 32 \<Longrightarrow> r_array_len R (w_array_len R n @ rest) = (Inr n, rest)"
    "n < 2 ^ 32 \<Longrightarrow> r_bin_len R (w_bin_len R n @ rest) = (Inr n, rest)"
    "r_str_from_slice R (w_nil R @ rest) = Inl (TypeMismatch Null)"
    "null_fails R (r_u64 R)" "null_fails R (r_i64 R)" "null_fails R (r_array_len R)" "null_fails R (r_bin_len R)"
    "n < 2 ^ 8 \<Longrightarrow> r_int_u8 R (w_uint8 R n @ rest) = (Inr n, rest)" "null_fails R (r_int_u8 R)"
    "length s < 2 ^ 32 \<Longrightarrow> \<exists>b. w_str R s = Inr b \<and> (\<forall>rest. r_str_from_slice R (b @ rest) = Inr (s, rest))"
  using assms unfolding rmp_ok_def by auto

section \<open>The wrappers invert each other\<close>

text \<open>A reader that takes back what a writer wrote, for the values of a domain.\<close>

definition codec :: "('a \<Rightarrow> bool) \<Rightarrow> 'a writer \<Rightarrow> 'a reader \<Rightarrow> bool" where
  "codec D wr read \<longleftrightarrow> (\<forall>x. D x \<longrightarrow> (\<exists>b. wr x = Inr b \<and> (\<forall>rest. read (b @ rest) = (Inr x, rest))))"

named_theorems codec_intros \<open>codecs of the wrappers\<close>

lemma codecE:
  assumes "codec D wr read" "D x"
  obtains b where "wr x = Inr b" "\<forall>rest. read (b @ rest) = (Inr x, rest)"
  using assms unfolding codec_def by blast

lemma codec_u64 [codec_intros]: "rmp_ok R \<Longrightarrow> codec (\<lambda>n. n < 2 ^ 64) (\<lambda>n. Inr (w_u64 R n)) (r_u64 R)"
  by (auto simp: codec_def rmp_okD)

lemma codec_uint8 [codec_intros]: "rmp_ok R \<Longrightarrow> codec (\<lambda>n. n < 2 ^ 8) (\<lambda>n. Inr (w_uint8 R n)) (r_int_u8 R)"
  by (auto simp: codec_def rmp_okD)

lemma codec_i64 [codec_intros]: "rmp_ok R \<Longrightarrow> codec (\<lambda>i. - (2 ^ 63) \<le> i \<and> i < 2 ^ 63) (\<lambda>i. Inr (w_i64 R i)) (r_i64 R)"
  by (auto simp: codec_def rmp_okD)

lemma codec_str [codec_intros]: "rmp_ok R \<Longrightarrow> codec (\<lambda>s. length s < 2 ^ 32) (w_str R) (read_string R)"
  unfolding codec_def rmp_ok_def read_string_def by fastforce

lemma codec_with_str [codec_intros]:
  assumes "rmp_ok R" "\<And>x. D x \<Longrightarrow> f (g x) = x \<and> length (g x) < 2 ^ 32"
  shows "codec D (\<lambda>x. w_str R (g x)) (with_str R f)"
  using assms unfolding codec_def rmp_ok_def with_str_def by fastforce

lemma null_fails_str: "rmp_ok R \<Longrightarrow> null_fails R (read_string R)"
proof -
  assume R: "rmp_ok R"
  obtain m where m: "w_nil R = [m]" using rmp_okD(1) [OF R] by (auto simp: length_Suc_conv)
  then have "r_str_from_slice R (m # rest) = Inl (TypeMismatch Null)" for rest
    using rmp_okD(9) [OF R, of rest] by simp
  with m show ?thesis by (simp add: null_fails_def read_string_def)
qed

lemma null_fails_array: "null_fails R read_len \<Longrightarrow> null_fails R (read_array_impl read_len read)"
  by (simp add: null_fails_def read_array_impl_def bind_io_def)

lemma codec_optional [codec_intros]:
  assumes "codec D wr read" "null_fails R read"
  shows "codec (pred_option D) (write_optional R wr) (read_optional read)"
  unfolding codec_def
proof (intro allI impI)
  fix v assume v: "pred_option D v"
  show "\<exists>b. write_optional R wr v = Inr b \<and> (\<forall>rest. read_optional read (b @ rest) = (Inr v, rest))"
  proof (cases v)
    case None
    with assms(2) show ?thesis
      by (simp add: write_optional_def read_optional_def null_fails_def type_mismatch_def)
  next
    case (Some x)
    with v assms(1) obtain b where "wr x = Inr b" "\<forall>rest. read (b @ rest) = (Inr x, rest)" by (auto elim: codecE)
    with Some show ?thesis by (simp add: write_optional_def read_optional_def)
  qed
qed

lemma write_items_roundtrip:
  fixes xs :: "'a list" and wr :: "'a writer"
  assumes "codec D wr read" "\<forall>x \<in> set xs. D x"
  shows "\<exists>b. write_items wr (map Inr xs :: ('e + 'a) list) = Inr b \<and> (\<forall>rest. read_n (length xs) read (b @ rest) = (Inr xs, rest))"
  using assms(2)
proof (induction xs)
  case (Cons x xs)
  then obtain bs where bs: "write_items wr (map Inr xs :: ('e + 'a) list) = Inr bs" "\<forall>rest. read_n (length xs) read (bs @ rest) = (Inr xs, rest)"
    by auto
  obtain b where b: "wr x = Inr b" "\<forall>rest. read (b @ rest) = (Inr x, rest)"
    using assms(1) Cons.prems by (auto elim: codecE)
  from b bs show ?case by (simp add: bind_io_def)
qed simp

lemma try_write_array_roundtrip:
  fixes xs :: "'a list" and wr :: "'a writer"
  assumes R: "rmp_ok R" and c: "codec D wr read" and xs: "\<forall>x \<in> set xs. D x" "length xs < 2 ^ 32"
  obtains b where "try_write_array R wr (map Inr xs :: ('e + 'a) list) = Inr b" "\<forall>rest. read_array R read (b @ rest) = (Inr xs, rest)"
proof -
  let ?rs = "map Inr xs :: ('e + 'a) list"
  obtain bs where bs: "write_items wr ?rs = Inr bs" "\<forall>rest. read_n (length xs) read (bs @ rest) = (Inr xs, rest)"
    using write_items_roundtrip [OF c xs(1)] by blast
  show ?thesis
  proof (rule that)
    show "try_write_array R wr ?rs = Inr (w_array_len R (length xs) @ bs)"
      using xs(2) bs(1) by (simp add: try_write_array_def try_write_array_impl_def)
    show "\<forall>rest. read_array R read ((w_array_len R (length xs) @ bs) @ rest) = (Inr xs, rest)"
      using bs(2) rmp_okD(7) [OF R xs(2)] by (simp add: read_array_def read_array_impl_def bind_io_def)
  qed
qed

lemma codec_array [codec_intros]:
  fixes wr :: "'a writer"
  assumes "rmp_ok R" "codec D wr read"
  shows "codec (\<lambda>xs. (\<forall>x \<in> set xs. D x) \<and> length xs < 2 ^ 32) (write_array R wr) (read_array R read)"
  unfolding codec_def write_array_def
proof (intro allI impI)
  fix xs :: "'a list" assume xs: "(\<forall>x \<in> set xs. D x) \<and> length xs < 2 ^ 32"
  obtain b where "try_write_array R wr (map Inr xs :: (EncodeError + 'a) list) = Inr b" "\<forall>rest. read_array R read (b @ rest) = (Inr xs, rest)"
    by (rule try_write_array_roundtrip [OF assms, of xs]) (use xs in auto)
  then show "\<exists>b. (case try_write_array R wr (map Inr xs :: (EncodeError + 'a) list) of Inl (Inl e) \<Rightarrow> Inl e | Inl (Inr e) \<Rightarrow> Inl e | Inr bs \<Rightarrow> Inr bs) = Inr b
      \<and> (\<forall>rest. read_array R read (b @ rest) = (Inr xs, rest))"
    by simp
qed

lemma read_n_bytes: "read_n (length bs) read_byte (bs @ rest) = (Inr bs, rest)"
  by (induction bs) (simp_all add: bind_io_def read_byte_def)

lemma codec_binary_array [codec_intros]:
  "rmp_ok R \<Longrightarrow> codec (\<lambda>bs. length bs < 2 ^ 32) (write_binary_array R) (read_binary_array R)"
  by (auto simp: codec_def write_binary_array_def read_binary_array_def read_array_impl_def bind_io_def rmp_okD read_n_bytes)

lemma codec_fixed_binary_array [codec_intros]:
  assumes "rmp_ok R" "N < 2 ^ 32"
  shows "codec (\<lambda>bs. length bs = N) (write_binary_array R) (read_fixed_binary_array R N)"
  using assms read_n_bytes
  by (auto simp: codec_def write_binary_array_def read_fixed_binary_array_def read_fixed_array_impl_def bind_io_def rmp_okD)

section \<open>A reference instance\<close>

text \<open>
  The wide forms of MessagePack: one marker byte, then the value or length in big-endian order. It
  is the instance on which the witnesses evaluate.
\<close>

primrec le_bytes :: "nat \<Rightarrow> nat \<Rightarrow> bytes" where
  "le_bytes 0 x = []"
| "le_bytes (Suc n) x = of_nat x # le_bytes n (x div 256)"

primrec le_value :: "bytes \<Rightarrow> nat" where
  "le_value [] = 0"
| "le_value (b # bs) = unat b + 256 * le_value bs"

definition be_bytes :: "nat \<Rightarrow> nat \<Rightarrow> bytes" where
  "be_bytes n x = rev (le_bytes n x)"

lemma length_le_bytes [simp]: "length (le_bytes n x) = n"
  by (induction n arbitrary: x) auto

lemma le_value_le_bytes [simp]: "x < 256 ^ n \<Longrightarrow> le_value (le_bytes n x) = x"
proof (induction n arbitrary: x)
  case (Suc n)
  then have "x div 256 < 256 ^ n" by (simp add: less_mult_imp_div_less mult.commute)
  with Suc.IH show ?case by (simp add: unsigned_of_nat take_bit_eq_mod)
qed simp

definition wide :: "nat \<Rightarrow> nat \<Rightarrow> nat \<Rightarrow> bytes" where
  "wide m n x = of_nat m # be_bytes n x"

definition marker_of :: "byte \<Rightarrow> marker" where
  "marker_of b = (if b = 192 then Null else OtherMarker (unat b))"

definition read_wide :: "nat \<Rightarrow> nat \<Rightarrow> nat reader" where
  "read_wide m n bs =
     (case bs of
        [] \<Rightarrow> (Inl (InvalidRead ''insufficient bytes''), [])
      | b # r \<Rightarrow>
          if b \<noteq> of_nat m then (Inl (TypeMismatch (marker_of b)), r)
          else if length r < n then (Inl (InvalidRead ''insufficient bytes''), r)
          else (Inr (le_value (rev (take n r))), drop n r))"

definition msgpack :: rmp where
  "msgpack =
     \<lparr>w_nil = [192],
      w_bool = (\<lambda>b. [if b then 195 else 194]),
      w_u8 = wide 204 1, w_uint8 = wide 204 1, w_u16 = wide 205 2, w_u64 = wide 207 8,
      w_i64 = (\<lambda>i. wide 211 8 (as_u64 i)),
      w_str = (\<lambda>s. Inr (wide 219 4 (length s) @ map (\<lambda>c. of_nat (of_char c)) s)),
      w_array_len = wide 221 4, w_bin_len = wide 198 4,
      r_bool = (\<lambda>bs. case bs of
           [] \<Rightarrow> (Inl (InvalidRead ''insufficient bytes''), [])
         | b # r \<Rightarrow> if b = 195 then (Inr True, r) else if b = 194 then (Inr False, r) else (Inl (TypeMismatch (marker_of b)), r)),
      r_u8 = read_wide 204 1, r_int_u8 = read_wide 204 1, r_u16 = read_wide 205 2, r_u64 = read_wide 207 8,
      r_i64 = bind_io (read_wide 211 8) (\<lambda>n. ok_io (as_i64 n)),
      r_str_from_slice = (\<lambda>bs. case read_wide 219 4 bs of
           (Inl e, _) \<Rightarrow> Inl e
         | (Inr n, r) \<Rightarrow> if length r < n then Inl (InvalidRead ''insufficient bytes'')
                         else Inr (map (\<lambda>b. char_of (unat b)) (take n r), drop n r)),
      r_array_len = read_wide 221 4, r_bin_len = read_wide 198 4\<rparr>"

lemma read_wide_wide [simp]: "x < 256 ^ n \<Longrightarrow> read_wide m n (wide m n x @ rest) = (Inr x, rest)"
  by (simp add: read_wide_def wide_def be_bytes_def)

lemma read_wide_null: "of_nat m \<noteq> (192 :: byte) \<Longrightarrow> read_wide m n (192 # rest) = (Inl (TypeMismatch Null), rest)"
  by (simp add: read_wide_def marker_of_def)

lemma char_roundtrip: "map (\<lambda>b. char_of (unat b)) (map (\<lambda>c. of_nat (of_char c) :: byte) s) = s"
proof -
  have "char_of (unat (of_nat (of_char c) :: byte)) = c" for c :: char
  proof -
    have "(of_char c :: nat) < 256" by (simp add: of_char_def)
    then show ?thesis by (simp add: unsigned_of_nat take_bit_eq_mod)
  qed
  then show ?thesis by (simp add: comp_def)
qed

lemma msgpack_ok: "rmp_ok msgpack"
proof -
  have "as_u64 i < 256 ^ 8" for i by (simp add: as_u64_def nat_less_iff)
  then show ?thesis
    using char_roundtrip
    by (auto simp: rmp_ok_def msgpack_def null_fails_def read_wide_null bind_io_def as_i64_as_u64
        simp del: map_map)
qed

end
