(* ===== verification/Ordered_Map.thy ===== *)
theory Ordered_Map
  imports Prelude
begin

text \<open>
  The ordered map of the standard library (\<open>BTreeMap\<close>) as an association list that is sorted by its
  keys, with the operations the stores use, and facts on stable sorting.
\<close>

primrec btree_insert :: "'k::linorder \<Rightarrow> 'v \<Rightarrow> ('k \<times> 'v) list \<Rightarrow> ('k \<times> 'v) list" where
  "btree_insert k v [] = [(k, v)]"
| "btree_insert k v (e # es) =
     (if k < fst e then (k, v) # e # es else if k = fst e then (k, v) # es else e # btree_insert k v es)"

definition btree_remove :: "'k \<Rightarrow> ('k \<times> 'v) list \<Rightarrow> ('k \<times> 'v) list" where
  "btree_remove k m = filter (\<lambda>e. fst e \<noteq> k) m"

definition btree :: "('k::linorder \<times> 'v) list \<Rightarrow> bool" where
  "btree m \<longleftrightarrow> sorted_wrt (<) (map fst m)"

lemma btree_Nil [simp]: "btree []"
  by (simp add: btree_def)

lemma fst_set_btree_insert [simp]: "fst ` set (btree_insert k v m) = insert k (fst ` set m)"
  by (induction m) auto

lemma btree_btree_insert [simp]: "btree m \<Longrightarrow> btree (btree_insert k v m)"
proof (induction m)
  case (Cons e m)
  have "\<forall>x \<in> fst ` set (btree_insert k v m). fst e < x" if "\<not> k < fst e" "k \<noteq> fst e"
    using that Cons.prems unfolding fst_set_btree_insert by (auto simp: btree_def)
  with Cons show ?case by (auto simp: btree_def image_iff)
qed (simp add: btree_def)

lemma btree_btree_remove [simp]: "btree m \<Longrightarrow> btree (btree_remove k m)"
  unfolding btree_def btree_remove_def by (induction m) auto

lemma map_of_btree_insert [simp]:
  "btree m \<Longrightarrow> map_of (btree_insert k v m) = (map_of m)(k \<mapsto> v)"
proof (induction m)
  case (Cons e m)
  then have "btree m" by (simp add: btree_def)
  with Cons.IH show ?case by (cases e) (auto simp: fun_eq_iff)
qed simp

lemma map_of_btree_remove [simp]: "map_of (btree_remove k m) = (map_of m)(k := None)"
  by (induction m) (auto simp: btree_remove_def fun_eq_iff)

lemma btree_unique:
  assumes "btree m" "btree m'" "map_of m = map_of m'"
  shows "m = m'"
proof (rule map_sorted_distinct_set_unique)
  have d: "distinct (map fst m)" "distinct (map fst m')"
    using assms(1,2) by (auto simp: btree_def strict_sorted_iff)
  then show "set m = set m'" using assms(3) by (simp add: map_of_inject_set)
  show "inj_on fst (set m \<union> set m')" using d(1) \<open>set m = set m'\<close> by (simp add: distinct_map)
  show "sorted (map fst m)" "distinct (map fst m)" "sorted (map fst m')" "distinct (map fst m')"
    using assms(1,2) by (auto simp: btree_def strict_sorted_iff)
qed

section \<open>Stable sorting\<close>

lemma insort_key_snoc: "f x \<le> f w \<Longrightarrow> insort_key f x (ys @ [w]) = insort_key f x ys @ [w]"
  by (induction ys) auto

text \<open>The newest row is the last one of a table sorted by time.\<close>

lemma sort_key_snoc: "\<forall>x \<in> set xs. f x \<le> f w \<Longrightarrow> sort_key f (xs @ [w]) = sort_key f xs @ [w]"
  by (induction xs) (auto simp: insort_key_snoc)

end
