(* ===== verification/Tagged_Store.thy ===== *)
theory Tagged_Store
  imports Sqlite_Store Rmp_Codec Ordered_Map
begin

text \<open>
  What the stores on top of the record store share. The key-value store, the aliases, the variables
  and the history each keep a log of operations as the records of one tag: an operation is
  serialised, sealed and pushed at the next index of its host, and the state is read back by
  replaying the operations of all hosts, oldest first, skipping what cannot be opened or decoded.

  \<open>op_log\<close> is the contract of such a store: a serialised operation decodes again. From it follows,
  once for all of them, that appending an operation appends it to the replayed list.

  Ids, times and randomness of a new record are the argument \<open>fresh\<close>. \<open>Record::encrypt\<close> unwraps
  its result, so a failing encryption is the error \<open>Panicked\<close>.
\<close>

section \<open>Errors, and reading a whole buffer\<close>

datatype op_error =
    StoreFailed store_error
  | Unserializable EncodeError
  | Undecodable DecodeError
  | Malformed string
  | CannotDecrypt DecryptionError
  | Panicked EncryptionError
  | DbFailed string
  | FileFailed string
  | TooLarge nat

text \<open>A string at the front of a slice, and a reader that has to use up its input.\<close>

definition read_slice :: "rmp \<Rightarrow> string reader" where
  "read_slice R = with_str R (\<lambda>s. s)"

definition read_all :: "'a reader \<Rightarrow> bytes \<Rightarrow> op_error + 'a" where
  "read_all read bs =
     (case read bs of
        (Inl e, _) \<Rightarrow> Inl (Undecodable e)
      | (Inr x, rest) \<Rightarrow> if rest = [] then Inr x else Inl (Malformed ''trailing bytes''))"

definition expect_fields :: "nat \<Rightarrow> nat \<Rightarrow> unit reader" where
  "expect_fields n nfields = (if nfields = n then ok_io () else fail_io (DecodeCustom ''too many entries''))"

definition decrypt_then :: "(bytes \<Rightarrow> op_error + 'a) \<Rightarrow> prims \<Rightarrow> (AdditionalData \<Rightarrow> string) \<Rightarrow> Key \<Rightarrow> EncryptedRecord \<Rightarrow> op_error + 'a" where
  "decrypt_then f P J k r = (case decrypt P J r k of Inl e \<Rightarrow> Inl (CannotDecrypt e) | Inr x \<Rightarrow> f (rec_data x))"

lemma read_slice_codec: "rmp_ok R \<Longrightarrow> length s < 2 ^ 32 \<Longrightarrow> \<exists>b. w_str R s = Inr b \<and> (\<forall>rest. read_slice R (b @ rest) = (Inr s, rest))"
  using codec_with_str [of R "\<lambda>s. length s < 2 ^ 32" "\<lambda>s. s" "\<lambda>s. s"] by (auto simp: codec_def read_slice_def)

lemma read_slice_codecE:
  assumes "rmp_ok R" "length s < 2 ^ 32"
  obtains b where "w_str R s = Inr b" "\<And>rest. read_slice R (b @ rest) = (Inr s, rest)"
  using read_slice_codec [OF assms] by blast

section \<open>Appending a record\<close>

record client =
  c_prims :: prims
  c_json :: "AdditionalData \<Rightarrow> string"
  c_rmp :: rmp
  c_host :: HostId
  c_key :: Key

record fresh =
  fr_id :: RecordId
  fr_time :: nat
  fr_rnd :: entropy

definition next_idx :: "client \<Rightarrow> RecordTag \<Rightarrow> (store, op_error, RecordIdx) io" where
  "next_idx C t =
     bind_io (map_err StoreFailed (store_last (RecordSeriesKey_new (c_host C) t))) (\<lambda>last.
       ok_io (case last of None \<Rightarrow> 0 | Some p \<Rightarrow> u64_add (rec_idx p) 1))"

definition build_sealed :: "client \<Rightarrow> RecordTag \<Rightarrow> RecordVersion \<Rightarrow> fresh \<Rightarrow> RecordIdx \<Rightarrow> bytes \<Rightarrow> op_error + EncryptedRecord" where
  "build_sealed C t v fr idx bs =
     (case encrypt (c_prims C) (c_json C) (fr_rnd fr) (Record_build (fr_id fr) (fr_time fr) (Host_new (c_host C)) v t idx bs) (c_key C) of
        Inl e \<Rightarrow> Inl (Panicked e)
      | Inr r \<Rightarrow> Inr r)"

definition append_tagged :: "client \<Rightarrow> RecordTag \<Rightarrow> RecordVersion \<Rightarrow> fresh \<Rightarrow> bytes \<Rightarrow> (store, op_error, RecordId \<times> RecordIdx) io" where
  "append_tagged C t v fr bs =
     bind_io (next_idx C t) (\<lambda>idx.
     bind_io (lift_result (build_sealed C t v fr idx bs)) (\<lambda>r.
     bind_io (map_err StoreFailed (push r)) (\<lambda>_. ok_io (fr_id fr, idx))))"

section \<open>Replaying\<close>

definition tagged_rows :: "RecordTag \<Rightarrow> db_row list \<Rightarrow> db_row list" where
  "tagged_rows t rows = sort_key row_timestamp (filter (\<lambda>w. row_tag w = tag_as_str t) rows)"

definition replayed :: "(EncryptedRecord \<Rightarrow> 'e + 'op) \<Rightarrow> RecordTag \<Rightarrow> db_row list \<Rightarrow> 'op list" where
  "replayed dec t rows = List.map_filter (\<lambda>w. case dec (from_row w) of Inl _ \<Rightarrow> None | Inr x \<Rightarrow> Some x) (tagged_rows t rows)"

lemma all_tagged_rows: "healthy d \<Longrightarrow> all_tagged t d = (Inr (map from_row (tagged_rows t (tables d))), d)"
  by (simp add: all_tagged_def map_err_def sql_query_healthy tagged_rows_def)

text \<open>
  When a fresh record fits: the cryptography works, the id is new, no record of the tag is younger,
  and the host's series has room for one more index.
\<close>

definition fits :: "client \<Rightarrow> RecordTag \<Rightarrow> fresh \<Rightarrow> db_row list \<Rightarrow> bool" where
  "fits C t fr rows \<longleftrightarrow> prims_ok (c_prims C) \<and> entropy_ok (fr_rnd fr) \<and> store_inv rows
     \<and> (\<forall>w \<in> set rows. row_id w \<noteq> fr_id fr)
     \<and> i64_range (fr_time fr) \<and> (\<forall>w \<in> set rows. row_tag w = tag_as_str t \<longrightarrow> row_timestamp w \<le> int (fr_time fr))
     \<and> (\<forall>w \<in> set (q_series rows (c_host C, tag_as_str t)). 0 \<le> row_idx w \<and> row_idx w < 2 ^ 63 - 1)"

definition next_of :: "db_row list \<Rightarrow> series \<Rightarrow> nat" where
  "next_of rows k = (case q_last rows k of None \<Rightarrow> 0 | Some p \<Rightarrow> u64_add (rec_idx (from_row p)) 1)"

lemma next_of_free:
  assumes "\<forall>w \<in> set (q_series rows k). 0 \<le> row_idx w \<and> row_idx w < 2 ^ 63 - 1"
  shows "\<forall>w \<in> set (q_series rows k). row_idx w \<noteq> int (next_of rows k)" "next_of rows k < 2 ^ 63"
proof -
  have "(\<forall>w \<in> set (q_series rows k). row_idx w \<noteq> int (next_of rows k)) \<and> next_of rows k < 2 ^ 63"
  proof (cases "sort_key (\<lambda>w. - row_idx w) (q_series rows k)")
    case Nil
    then have "set (q_series rows k) = {}" by (metis set_sort list.set(1))
    with Nil show ?thesis by (simp add: next_of_def q_last_def)
  next
    case (Cons p ps)
    have p: "p \<in> set (q_series rows k)" by (metis Cons set_sort list.set_intros(1))
    have "sorted (map (\<lambda>w. - row_idx w) (p # ps))" by (metis Cons sorted_sort_key)
    then have max: "\<forall>w \<in> set (q_series rows k). row_idx w \<le> row_idx p"
      by (metis (mono_tags, lifting) Cons neg_le_iff_le set_ConsD set_sort sorted_simps(2) list.simps(9) image_eqI list.set_map order_refl)
    have "0 \<le> row_idx p" "row_idx p < 2 ^ 63 - 1" using assms p by auto
    then have "next_of rows k = nat (row_idx p) + 1"
      using Cons by (simp add: next_of_def q_last_def from_row_def as_u64_def)
    with max \<open>0 \<le> row_idx p\<close> \<open>row_idx p < 2 ^ 63 - 1\<close> show ?thesis by auto
  qed
  then show "\<forall>w \<in> set (q_series rows k). row_idx w \<noteq> int (next_of rows k)" "next_of rows k < 2 ^ 63" by blast+
qed

lemma append_tagged_row:
  assumes d: "healthy d" and f: "fits C t fr (tables d)" and c: "canonical_tag t" "canonical_version v"
  obtains w where "append_tagged C t v fr bs d = (Inr (fr_id fr, next_of (tables d) (c_host C, tag_as_str t)), d\<lparr>tables := tables d @ [w]\<rparr>)"
    "row_tag w = tag_as_str t" "row_timestamp w = int (fr_time fr)" "row_id w = fr_id fr"
    "row_series w = (c_host C, tag_as_str t)" "row_idx w = int (next_of (tables d) (c_host C, tag_as_str t))"
    "rec_version (from_row w) = v" "rec_tag (from_row w) = t"
    "\<exists>x. decrypt (c_prims C) (c_json C) (from_row w) (c_key C) = Inr x \<and> rec_data x = bs \<and> rec_version x = v"
    "store_inv (tables d @ [w])"
proof -
  let ?k = "(c_host C, tag_as_str t)"
  define idx where "idx = next_of (tables d) ?k"
  define x where "x = Record_build (fr_id fr) (fr_time fr) (Host_new (c_host C)) v t idx bs"
  have free: "\<forall>w \<in> set (q_series (tables d) ?k). row_idx w \<noteq> int idx" "idx < 2 ^ 63"
    using next_of_free [of "tables d" ?k] f unfolding fits_def idx_def by blast+
  have crypto: "prims_ok (c_prims C)" "entropy_ok (fr_rnd fr)" using f by (simp_all add: fits_def)
  obtain r where r: "encrypt (c_prims C) (c_json C) (fr_rnd fr) x (c_key C) = Inr r" "decrypt (c_prims C) (c_json C) r (c_key C) = Inr x"
    using crypto by (rule encrypt_sealed [where J = "c_json C" and r = x and k = "c_key C"])
  have "\<exists>y. r = with_data y x" using r(1) by (auto simp: encrypt_def split: sum.splits)
  then have sel: "rec_id r = fr_id fr" "rec_idx r = idx" "rec_host r = Host_new (c_host C)" "rec_timestamp r = fr_time fr" "rec_version r = v" "rec_tag r = t"
    by (auto simp: x_def Record_build_def)
  have st: "storable r" using sel f c free(2) by (simp add: storable_def Host_new_def fits_def)
  let ?w = "to_row r"
  have w: "row_id ?w = fr_id fr" "row_idx ?w = int idx" "row_series ?w = ?k" "row_timestamp ?w = int (fr_time fr)" "row_tag ?w = tag_as_str t"
    using sel f free(2) by (simp_all add: to_row_def row_series_def fits_def Host_new_def)
  have clash: "\<not> store_clash ?w u" if "u \<in> set (tables d)" for u
    using that f w free(1) by (auto simp: store_clash_def row_clash_def fits_def q_series_def)
  then have push: "push r d = (Inr (), d\<lparr>tables := tables d @ [?w]\<rparr>)"
    using d by (auto simp: push_def push_batch_healthy insert_rows_def insert_unless_def)
  have last: "store_last (RecordSeriesKey_new (c_host C) t) d = (Inr (map_option from_row (q_last (tables d) ?k)), d)"
    using d by (simp add: store_last_healthy skey_def)
  have "next_idx C t d = (Inr idx, d)"
    using last by (simp add: next_idx_def bind_io_def map_err_def idx_def next_of_def split: option.splits)
  then have run: "append_tagged C t v fr bs d = (Inr (fr_id fr, idx), d\<lparr>tables := tables d @ [?w]\<rparr>)"
    using r(1) push by (simp add: append_tagged_def bind_io_def build_sealed_def x_def map_err_def)
  have inv: "store_inv (tables d @ [?w])"
    using f w st free(1,2) by (auto simp: store_inv_def fits_def i64_row_def q_series_def to_row_def)
  show thesis
    by (rule that [of ?w]) (use run w r(2) sel st inv in \<open>simp_all add: idx_def x_def Record_build_def\<close>)
qed

lemma fits_snoc:
  assumes "fits C t fr rows" "store_inv (rows @ [w])" "row_timestamp w = int (fr_time fr)" "row_id w = fr_id fr"
    "row_series w = (c_host C, tag_as_str t)" "row_idx w = int (next_of rows (c_host C, tag_as_str t))"
    and "fr_id fr' \<notin> insert (fr_id fr) (row_id ` set rows)" "fr_time fr \<le> fr_time fr'" "i64_range (fr_time fr')" "entropy_ok (fr_rnd fr')"
    and "next_of rows (c_host C, tag_as_str t) < 2 ^ 63 - 1"
  shows "fits C t fr' (rows @ [w])"
  using assms unfolding fits_def by (auto simp: q_series_def image_iff)

section \<open>The contract of a log of operations\<close>

locale op_log =
  fixes ser :: "client \<Rightarrow> 'op \<Rightarrow> EncodeError + bytes" and dec :: "client \<Rightarrow> EncryptedRecord \<Rightarrow> 'e + 'op"
    and ver :: RecordVersion and tag :: RecordTag and dom :: "'op \<Rightarrow> bool"
  assumes canonical: "canonical_tag tag" "canonical_version ver"
    and serializes: "rmp_ok (c_rmp C) \<Longrightarrow> dom x \<Longrightarrow> \<exists>b. ser C x = Inr b
      \<and> (\<forall>r y. decrypt (c_prims C) (c_json C) r (c_key C) = Inr y \<longrightarrow> rec_version r = ver \<longrightarrow> rec_version y = ver \<longrightarrow>
          rec_data y = b \<longrightarrow> dec C r = Inr x)"
begin

text \<open>Appending an operation appends it to the operations that are replayed.\<close>

lemma append_op:
  assumes "healthy d" "fits C tag fr (tables d)" "rmp_ok (c_rmp C)" "dom x"
  obtains b i w where "ser C x = Inr b" "append_tagged C tag ver fr b d = (Inr (fr_id fr, i), d\<lparr>tables := tables d @ [w]\<rparr>)"
    "replayed (dec C) tag (tables d @ [w]) = replayed (dec C) tag (tables d) @ [x]" "store_inv (tables d @ [w])"
    "row_id w = fr_id fr" "dec C (from_row w) = Inr x" "rec_tag (from_row w) = tag"
    "row_timestamp w = int (fr_time fr)" "row_series w = (c_host C, tag_as_str tag)" "row_idx w = int (next_of (tables d) (c_host C, tag_as_str tag))"
proof -
  obtain b where b: "ser C x = Inr b"
      "\<forall>r y. decrypt (c_prims C) (c_json C) r (c_key C) = Inr y \<longrightarrow> rec_version r = ver \<longrightarrow> rec_version y = ver \<longrightarrow>
          rec_data y = b \<longrightarrow> dec C r = Inr x"
    using serializes assms(3,4) by blast
  obtain w where w: "append_tagged C tag ver fr b d = (Inr (fr_id fr, next_of (tables d) (c_host C, tag_as_str tag)), d\<lparr>tables := tables d @ [w]\<rparr>)"
    "row_tag w = tag_as_str tag" "row_timestamp w = int (fr_time fr)" "row_id w = fr_id fr"
    "row_series w = (c_host C, tag_as_str tag)" "row_idx w = int (next_of (tables d) (c_host C, tag_as_str tag))"
    "rec_version (from_row w) = ver" "rec_tag (from_row w) = tag"
    "\<exists>x. decrypt (c_prims C) (c_json C) (from_row w) (c_key C) = Inr x \<and> rec_data x = b \<and> rec_version x = ver"
    "store_inv (tables d @ [w])"
    using append_tagged_row [OF assms(1,2) canonical] by blast
  have "tagged_rows tag (tables d @ [w]) = tagged_rows tag (tables d) @ [w]"
    using w(2,3) assms(2) sort_key_snoc [of "filter (\<lambda>w. row_tag w = tag_as_str tag) (tables d)" row_timestamp w]
    by (simp add: tagged_rows_def fits_def)
  moreover have dec: "dec C (from_row w) = Inr x" using b(2) w(7,9) by blast
  ultimately have "replayed (dec C) tag (tables d @ [w]) = replayed (dec C) tag (tables d) @ [x]"
    by (simp add: replayed_def map_filter_def)
  with that b(1) w(1,3-6,8,10) dec show thesis by blast
qed

end

section \<open>An example\<close>

definition clear_client :: client where
  "clear_client = \<lparr>c_prims = clear_prims, c_json = (\<lambda>ad. ad_tag ad), c_rmp = msgpack, c_host = 1, c_key = [42]\<rparr>"

definition fresh_at :: "nat \<Rightarrow> fresh" where
  "fresh_at n = \<lparr>fr_id = of_nat n, fr_time = n, fr_rnd = clear_entropy\<rparr>"

lemma fits_empty: "fits C t fr [] \<longleftrightarrow> prims_ok (c_prims C) \<and> entropy_ok (fr_rnd fr) \<and> i64_range (fr_time fr)"
  by (auto simp: fits_def store_inv_def q_series_def)

lemma clear_client_ok:
  "rmp_ok (c_rmp clear_client)" "fits clear_client t (fresh_at 1) []"
  by (simp_all add: clear_client_def msgpack_ok fits_empty clear_prims_ok fresh_at_def clear_entropy_def)

end
