(* ===== verification/History_Entry.thy ===== *)
theory History_Entry
  imports Tagged_Store Rust_String
begin

text \<open>
  A history entry and its encodings: \<open>atuin-domain/src/record/cmd_origin.rs\<close>,
  \<open>atuin-client/src/history.rs\<close> and \<open>atuin-client/src/history/builder.rs\<close>, and the columns of the
  history table an entry is bound to and read from (\<open>database.rs\<close>).

  A point in time is its number of nanoseconds since 1970, an integer; \<open>as u64\<close> and \<open>as i64\<close> wrap.
  The environment, the fresh id and the regular expressions of the settings are arguments.

  Shown: an entry reads back from what \<open>serialize\<close> writes, also from a longer record a later version
  may write and from the shorter one of the first version 2; the database columns give the entry
  back; and an entry that is bound to name its agent is recognised as the agent's.
\<close>

section \<open>The origin of a command\<close>

record CmdOrigin =
  origin_raw :: string
  origin_sep :: nat

definition unknown_user :: string where
  "unknown_user = ''unknown-user''"

definition CmdOrigin_new :: "string \<Rightarrow> string \<Rightarrow> CmdOrigin" where
  "CmdOrigin_new h u = \<lparr>origin_raw = h @ '':'' @ u, origin_sep = length h\<rparr>"

definition origin_host :: "CmdOrigin \<Rightarrow> string" where
  "origin_host c = take (origin_sep c) (origin_raw c)"

definition origin_user :: "CmdOrigin \<Rightarrow> string" where
  "origin_user c = drop (origin_sep c + 1) (origin_raw c)"

definition find_colon :: "string \<Rightarrow> nat option" where
  "find_colon s = (if CHR '':'' \<in> set s then Some (length (takeWhile (\<lambda>c. c \<noteq> CHR '':'') s)) else None)"

definition parse_lenient :: "string \<Rightarrow> CmdOrigin" where
  "parse_lenient s =
     (case find_colon s of Some sep \<Rightarrow> \<lparr>origin_raw = s, origin_sep = sep\<rparr> | None \<Rightarrow> CmdOrigin_new s unknown_user)"

definition origin_try_from :: "string \<Rightarrow> string + CmdOrigin" where
  "origin_try_from s = (case find_colon s of Some sep \<Rightarrow> Inr \<lparr>origin_raw = s, origin_sep = sep\<rparr> | None \<Rightarrow> Inl s)"

section \<open>Entries\<close>

datatype AuthorKind = UserKind | AgentKind

fun kind_as_u8 :: "AuthorKind \<Rightarrow> nat" where
  "kind_as_u8 UserKind = 1"
| "kind_as_u8 AgentKind = 2"

definition kind_from_repr :: "nat \<Rightarrow> AuthorKind option" where
  "kind_from_repr n = (if n = 1 then Some UserKind else if n = 2 then Some AgentKind else None)"

definition known_agents :: "string list" where
  "known_agents = [''claude-code'', ''codex'', ''copilot'', ''opencode'', ''pi'']"

definition is_known_agent :: "string \<Rightarrow> bool" where
  "is_known_agent author \<longleftrightarrow> List.member known_agents author"

datatype AuthorPattern = AllUser | AllAgent | AuthorName string

definition author_pattern :: "string \<Rightarrow> AuthorPattern" where
  "author_pattern s = (if s = ''$all-user'' then AllUser else if s = ''$all-agent'' then AllAgent else AuthorName s)"

record History =
  hist_id :: string
  hist_timestamp :: int
  hist_duration :: int
  hist_exit :: int
  hist_command :: string
  hist_cwd :: string
  hist_session :: string
  hist_origin :: CmdOrigin
  hist_author :: string
  hist_intent :: "string option"
  hist_deleted_at :: "int option"
  hist_shell :: "string option"
  hist_author_kind :: "AuthorKind option"

text \<open>The environment of the process and a fresh id.\<close>

record probe =
  env_var :: "string \<Rightarrow> string option"
  new_uuid :: string
  new_session :: string
  probe_origin :: CmdOrigin

definition or_else :: "'a option \<Rightarrow> 'a option \<Rightarrow> 'a option" where
  "or_else a b = (case a of Some x \<Rightarrow> Some x | None \<Rightarrow> b)"

definition unwrap_or :: "'a option \<Rightarrow> 'a \<Rightarrow> 'a" where
  "unwrap_or a b = (case a of Some x \<Rightarrow> x | None \<Rightarrow> b)"

definition History_new ::
  "probe \<Rightarrow> int \<Rightarrow> string \<Rightarrow> string \<Rightarrow> int \<Rightarrow> int \<Rightarrow> string option \<Rightarrow> CmdOrigin option \<Rightarrow> string option \<Rightarrow> string option \<Rightarrow>
    int option \<Rightarrow> string option \<Rightarrow> AuthorKind option \<Rightarrow> History" where
  "History_new p timestamp command cwd exit duration session cmd_origin author intent deleted_at shell author_kind =
     (let session = unwrap_or (or_else session (env_var p ''ATUIN_SESSION'')) (new_session p);
          cmd_origin = unwrap_or cmd_origin (probe_origin p);
          author = unwrap_or (or_else (normalize_optional_string author) (normalize_optional_string (env_var p ''ATUIN_HISTORY_AUTHOR''))) (origin_user cmd_origin);
          intent = or_else (normalize_optional_string intent) (normalize_optional_string (env_var p ''ATUIN_HISTORY_INTENT''));
          shell = normalize_optional_string shell
      in \<lparr>hist_id = new_uuid p, hist_timestamp = timestamp, hist_duration = duration, hist_exit = exit, hist_command = command, hist_cwd = cwd,
          hist_session = session, hist_origin = cmd_origin, hist_author = author, hist_intent = intent, hist_deleted_at = deleted_at,
          hist_shell = shell, hist_author_kind = author_kind\<rparr>)"

definition is_agent :: "History \<Rightarrow> bool" where
  "is_agent h =
     (case hist_author_kind h of
        Some kind \<Rightarrow> kind = AgentKind
      | None \<Rightarrow>
          (let user = origin_user (hist_origin h);
               defaulted = (if user = unknown_user then origin_host (hist_origin h) else user)
           in is_known_agent (hist_author h) \<and> hist_author h \<noteq> defaulted))"

definition success :: "History \<Rightarrow> bool" where
  "success h \<longleftrightarrow> hist_exit h = 0 \<or> hist_duration h = -1"

record save_filters =
  history_filter :: "string \<Rightarrow> bool"
  cwd_filter :: "string \<Rightarrow> bool"
  secrets_filter :: bool
  secret_patterns :: "string \<Rightarrow> bool"

definition should_save :: "save_filters \<Rightarrow> History \<Rightarrow> bool" where
  "should_save S h \<longleftrightarrow>
     \<not> (hist_command h \<noteq> [] \<and> hd (hist_command h) = CHR '' '' \<or> hist_command h = [] \<or> history_filter S (hist_command h)
        \<or> cwd_filter S (hist_cwd h) \<or> secrets_filter S \<and> secret_patterns S (hist_command h))"

section \<open>Builders\<close>

record HistoryImported =
  imp_timestamp :: int
  imp_command :: string
  imp_cwd :: string
  imp_exit :: int
  imp_duration :: int
  imp_session :: "string option"
  imp_origin :: "CmdOrigin option"
  imp_author :: "string option"
  imp_intent :: "string option"
  imp_shell :: "string option"
  imp_author_kind :: "AuthorKind option"

definition from_imported :: "probe \<Rightarrow> HistoryImported \<Rightarrow> History" where
  "from_imported p i =
     History_new p (imp_timestamp i) (imp_command i) (imp_cwd i) (imp_exit i) (imp_duration i) (imp_session i) (imp_origin i) (imp_author i) (imp_intent i)
       None (imp_shell i) (imp_author_kind i)"

record HistoryCaptured =
  cap_timestamp :: int
  cap_command :: string
  cap_cwd :: string
  cap_author :: "string option"
  cap_origin :: "CmdOrigin option"
  cap_intent :: "string option"
  cap_shell :: "string option"
  cap_author_kind :: "AuthorKind option"

definition from_captured :: "probe \<Rightarrow> HistoryCaptured \<Rightarrow> History" where
  "from_captured p c =
     (let author = normalize_optional_string (cap_author c);
          cmd_origin = unwrap_or (cap_origin c) (probe_origin p);
          author_kind = or_else (cap_author_kind c)
            (case author of
               Some a \<Rightarrow> if is_known_agent a \<and> a \<noteq> origin_user cmd_origin then Some AgentKind else None
             | None \<Rightarrow> None)
      in History_new p (cap_timestamp c) (cap_command c) (cap_cwd c) (-1) (-1) None (Some cmd_origin) author (cap_intent c) None (cap_shell c) author_kind)"

record HistoryDaemonCapture =
  dmn_timestamp :: int
  dmn_command :: string
  dmn_cwd :: string
  dmn_session :: string
  dmn_origin :: CmdOrigin
  dmn_author :: "string option"
  dmn_intent :: "string option"
  dmn_shell :: "string option"
  dmn_author_kind :: "AuthorKind option"

definition from_daemon :: "probe \<Rightarrow> HistoryDaemonCapture \<Rightarrow> History" where
  "from_daemon p d =
     History_new p (dmn_timestamp d) (dmn_command d) (dmn_cwd d) (-1) (-1) (Some (dmn_session d)) (Some (dmn_origin d)) (dmn_author d) (dmn_intent d)
       None (dmn_shell d) (dmn_author_kind d)"

section \<open>Encoding\<close>

datatype Version = Zero | One | Two

definition version_from_name :: "string \<Rightarrow> Version option" where
  "version_from_name s = (if s = ''v0'' then Some Zero else if s = ''v1'' then Some One else if s = ''v2'' then Some Two else None)"

fun version_as_int :: "Version \<Rightarrow> nat" where
  "version_as_int Zero = 0"
| "version_as_int One = 1"
| "version_as_int Two = 2"

fun min_fields :: "Version \<Rightarrow> nat" where
  "min_fields Zero = 9"
| "min_fields One = 10"
| "min_fields Two = 12"

fun max_fields :: "Version \<Rightarrow> nat option" where
  "max_fields Zero = Some 9"
| "max_fields One = Some 11"
| "max_fields Two = None"

definition history_serialize :: "rmp \<Rightarrow> History \<Rightarrow> EncodeError + bytes" where
  "history_serialize R h =
     then_write (Inr (w_u16 R (version_as_int Two))) (then_write (Inr (w_array_len R 13))
     (then_write (w_str R (hist_id h)) (then_write (Inr (w_u64 R (as_u64 (hist_timestamp h))))
     (then_write (Inr (w_i64 R (hist_duration h))) (then_write (Inr (w_i64 R (hist_exit h)))
     (then_write (w_str R (hist_command h)) (then_write (w_str R (hist_cwd h))
     (then_write (w_str R (hist_session h)) (then_write (w_str R (origin_raw (hist_origin h)))
     (then_write (write_optional R (\<lambda>n. Inr (w_u64 R n)) (map_option as_u64 (hist_deleted_at h)))
     (then_write (w_str R (hist_author h))
     (then_write (write_optional R (w_str R) (hist_intent h))
     (then_write (write_optional R (w_str R) (hist_shell h))
        (write_optional R (\<lambda>n. Inr (w_uint8 R n)) (map_option kind_as_u8 (hist_author_kind h))))))))))))))))"

definition read_if :: "bool \<Rightarrow> 'a option reader \<Rightarrow> 'a option reader" where
  "read_if b read = (if b then read else ok_io None)"

definition history_read :: "rmp \<Rightarrow> Version \<Rightarrow> History reader" where
  "history_read R v =
     bind_io (r_u16 R) (\<lambda>real_version.
     if real_version \<noteq> version_as_int v then fail_io (DecodeCustom ''unexpected version'') else
     bind_io (r_array_len R) (\<lambda>nfields.
     if nfields < min_fields v \<or> (case max_fields v of Some m \<Rightarrow> nfields > m | None \<Rightarrow> False)
     then fail_io (DecodeCustom ''unexpected number of fields'') else
     bind_io (read_string R) (\<lambda>id.
     bind_io (r_u64 R) (\<lambda>timestamp.
     bind_io (r_i64 R) (\<lambda>duration.
     bind_io (r_i64 R) (\<lambda>exit.
     bind_io (read_string R) (\<lambda>command.
     bind_io (read_string R) (\<lambda>cwd.
     bind_io (read_string R) (\<lambda>session.
     bind_io (read_string R) (\<lambda>hostname.
     bind_io (read_optional (r_u64 R)) (\<lambda>deleted_at.
     bind_io (read_if (v \<noteq> Zero) (read_optional (read_string R))) (\<lambda>author.
     bind_io (read_if (case v of Zero \<Rightarrow> False | One \<Rightarrow> nfields > min_fields v | Two \<Rightarrow> True) (read_optional (read_string R))) (\<lambda>intent.
     bind_io (read_if (v = Two) (read_optional (read_string R))) (\<lambda>shell.
     bind_io (read_if (v = Two \<and> nfields \<ge> 13) (read_optional (r_int_u8 R))) (\<lambda>kind.
       let cmd_origin = parse_lenient hostname
       in ok_io \<lparr>hist_id = id, hist_timestamp = int timestamp, hist_duration = duration, hist_exit = exit, hist_command = command, hist_cwd = cwd,
            hist_session = session, hist_origin = cmd_origin, hist_author = unwrap_or author (origin_user cmd_origin), hist_intent = intent,
            hist_deleted_at = map_option int deleted_at, hist_shell = shell, hist_author_kind = Option.bind kind kind_from_repr\<rparr>)))))))))))))))"

definition history_deserialize :: "rmp \<Rightarrow> bytes \<Rightarrow> string \<Rightarrow> op_error + History" where
  "history_deserialize R bs version =
     (case version_from_name version of
        None \<Rightarrow> Inl (Malformed ''unknown version'')
      | Some v \<Rightarrow>
          (case history_read R v bs of
             (Inl e, _) \<Rightarrow> Inl (Undecodable e)
           | (Inr h, rest) \<Rightarrow> if v \<noteq> Two \<and> rest \<noteq> [] then Inl (Malformed ''trailing bytes'') else Inr h))"

section \<open>Database columns\<close>

record hist_row =
  hr_id :: string
  hr_timestamp :: int
  hr_duration :: int
  hr_exit :: int
  hr_command :: string
  hr_cwd :: string
  hr_session :: string
  hr_hostname :: string
  hr_author :: "string option"
  hr_intent :: "string option"
  hr_deleted_at :: "int option"
  hr_shell :: "string option"
  hr_author_kind :: "int option"

definition bind_row :: "History \<Rightarrow> hist_row" where
  "bind_row h =
     \<lparr>hr_id = hist_id h, hr_timestamp = as_i64 (as_u64 (hist_timestamp h)), hr_duration = hist_duration h, hr_exit = hist_exit h,
      hr_command = hist_command h, hr_cwd = hist_cwd h, hr_session = hist_session h, hr_hostname = origin_raw (hist_origin h),
      hr_author = Some (hist_author h), hr_intent = hist_intent h, hr_deleted_at = map_option (\<lambda>t. as_i64 (as_u64 t)) (hist_deleted_at h),
      hr_shell = hist_shell h, hr_author_kind = map_option (\<lambda>k. int (kind_as_u8 k)) (hist_author_kind h)\<rparr>"

definition hist_from_row :: "hist_row \<Rightarrow> History" where
  "hist_from_row w =
     (let author = (case hr_author w of
            Some a \<Rightarrow> if blank a then None else Some a
          | None \<Rightarrow> None)
      in \<lparr>hist_id = hr_id w, hist_timestamp = hr_timestamp w, hist_duration = hr_duration w, hist_exit = hr_exit w, hist_command = hr_command w,
          hist_cwd = hr_cwd w, hist_session = hr_session w, hist_origin = parse_lenient (hr_hostname w),
          hist_author = unwrap_or author (case origin_try_from (hr_hostname w) of Inl s \<Rightarrow> s | Inr c \<Rightarrow> origin_user c),
          hist_intent = (case hr_intent w of Some i \<Rightarrow> if blank i then None else Some i | None \<Rightarrow> None),
          hist_deleted_at = hr_deleted_at w, hist_shell = hr_shell w,
          hist_author_kind = Option.bind (hr_author_kind w) (\<lambda>k. if 0 \<le> k \<and> k < 2 ^ 8 then kind_from_repr (nat k) else None)\<rparr>)"

section \<open>Reading back\<close>

text \<open>
  The entries an encoding keeps: the fields fit their widths and the separator of the origin is the
  first colon, as \<open>parse_lenient\<close> puts it.
\<close>

definition origin_ok :: "CmdOrigin \<Rightarrow> bool" where
  "origin_ok c \<longleftrightarrow> find_colon (origin_raw c) = Some (origin_sep c)"

lemma origin_ok_parse: "origin_ok c \<Longrightarrow> parse_lenient (origin_raw c) = c" "origin_ok c \<Longrightarrow> origin_try_from (origin_raw c) = Inr c"
  by (simp_all add: origin_ok_def parse_lenient_def origin_try_from_def)

lemma origin_ok_parse_lenient: "origin_ok (parse_lenient s)"
proof (cases "CHR '':'' \<in> set s")
  case True
  then show ?thesis by (simp add: parse_lenient_def origin_ok_def find_colon_def)
next
  case False
  then have "takeWhile (\<lambda>c. c \<noteq> CHR '':'') (s @ '':'' @ unknown_user) = s" by (subst takeWhile_append2) auto
  with False show ?thesis by (simp add: parse_lenient_def origin_ok_def find_colon_def CmdOrigin_new_def)
qed

definition small_time :: "int \<Rightarrow> bool" where
  "small_time t \<longleftrightarrow> 0 \<le> t \<and> t < 2 ^ 64"

definition small_text :: "string \<Rightarrow> bool" where
  "small_text s \<longleftrightarrow> length s < 2 ^ 32"

definition hist_small :: "History \<Rightarrow> bool" where
  "hist_small h \<longleftrightarrow> small_time (hist_timestamp h) \<and> pred_option small_time (hist_deleted_at h)
     \<and> - (2 ^ 63) \<le> hist_duration h \<and> hist_duration h < 2 ^ 63 \<and> - (2 ^ 63) \<le> hist_exit h \<and> hist_exit h < 2 ^ 63
     \<and> list_all small_text [hist_id h, hist_command h, hist_cwd h, hist_session h, origin_raw (hist_origin h), hist_author h]
     \<and> pred_option small_text (hist_intent h) \<and> pred_option small_text (hist_shell h) \<and> origin_ok (hist_origin h)"

lemma as_u64_small: "small_time t \<Longrightarrow> as_u64 t < 2 ^ 64" "small_time t \<Longrightarrow> int (as_u64 t) = t"
  by (auto simp: small_time_def as_u64_def)

lemma kind_roundtrip [simp]: "kind_from_repr (kind_as_u8 k) = Some k" "kind_as_u8 k < 256"
  by (cases k; simp add: kind_from_repr_def)+

lemma codec_text: "rmp_ok R \<Longrightarrow> codec small_text (w_str R) (read_string R)"
  using codec_str by (simp add: small_text_def codec_def)

lemma history_layout:
  assumes R: "rmp_ok R" and h: "hist_small h"
  obtains body kind where "history_serialize R h = Inr (w_u16 R 2 @ w_array_len R 13 @ body @ kind)"
    "\<And>n rest. 13 \<le> n \<Longrightarrow> n < 2 ^ 32 \<Longrightarrow> history_read R Two (w_u16 R 2 @ w_array_len R n @ body @ kind @ rest) = (Inr h, rest)"
    "\<And>rest. history_read R Two (w_u16 R 2 @ w_array_len R 12 @ body @ rest) = (Inr (h\<lparr>hist_author_kind := None\<rparr>), rest)"
proof -
  have "\<exists>b. w_str R s = Inr b \<and> (\<forall>rest. read_string R (b @ rest) = (Inr s, rest))"
    if "s \<in> {hist_id h, hist_command h, hist_cwd h, hist_session h, origin_raw (hist_origin h), hist_author h}" for s
    using codec_text [OF R] that h by (auto simp: codec_def hist_small_def)
  then obtain str where str: "\<And>s rest. s \<in> {hist_id h, hist_command h, hist_cwd h, hist_session h, origin_raw (hist_origin h), hist_author h} \<Longrightarrow>
      w_str R s = Inr (str s) \<and> read_string R (str s @ rest) = (Inr s, rest)"
    by metis
  obtain bd where bd: "write_optional R (\<lambda>n. Inr (w_u64 R n)) (map_option as_u64 (hist_deleted_at h)) = Inr bd"
      "\<forall>rest. read_optional (r_u64 R) (bd @ rest) = (Inr (map_option as_u64 (hist_deleted_at h)), rest)"
    by (rule codecE [OF codec_optional [OF codec_u64 [OF R] rmp_okD(10) [OF R]], of "map_option as_u64 (hist_deleted_at h)"])
      (use h as_u64_small(1) in \<open>auto simp: hist_small_def pred_option_def\<close>)
  note opt = codec_optional [OF codec_text [OF R] null_fails_str [OF R]]
  obtain bi where bi: "write_optional R (w_str R) (hist_intent h) = Inr bi" "\<forall>rest. read_optional (read_string R) (bi @ rest) = (Inr (hist_intent h), rest)"
    by (rule codecE [OF opt, of "hist_intent h"]) (use h in \<open>auto simp: hist_small_def\<close>)
  obtain bs where bs: "write_optional R (w_str R) (hist_shell h) = Inr bs" "\<forall>rest. read_optional (read_string R) (bs @ rest) = (Inr (hist_shell h), rest)"
    by (rule codecE [OF opt, of "hist_shell h"]) (use h in \<open>auto simp: hist_small_def\<close>)
  obtain bk where bk: "write_optional R (\<lambda>n. Inr (w_uint8 R n)) (map_option kind_as_u8 (hist_author_kind h)) = Inr bk"
      "\<forall>rest. read_optional (r_int_u8 R) (bk @ rest) = (Inr (map_option kind_as_u8 (hist_author_kind h)), rest)"
    by (rule codecE [OF codec_optional [OF codec_uint8 [OF R] rmp_okD(15) [OF R]], of "map_option kind_as_u8 (hist_author_kind h)"])
      (auto simp: pred_option_def)
  have auth: "read_optional (read_string R) (str (hist_author h) @ rest) = (Inr (Some (hist_author h)), rest)" for rest
    using str by (simp add: read_optional_def)
  have num: "r_u64 R (w_u64 R (as_u64 (hist_timestamp h)) @ rest) = (Inr (as_u64 (hist_timestamp h)), rest)"
      "r_i64 R (w_i64 R (hist_duration h) @ rest) = (Inr (hist_duration h), rest)" "r_i64 R (w_i64 R (hist_exit h) @ rest) = (Inr (hist_exit h), rest)" for rest
    using h as_u64_small(1) [of "hist_timestamp h"] by (simp_all add: rmp_okD(5,6) [OF R] hist_small_def)
  have again: "int (as_u64 (hist_timestamp h)) = hist_timestamp h" "map_option (int \<circ> as_u64) (hist_deleted_at h) = hist_deleted_at h"
      "parse_lenient (origin_raw (hist_origin h)) = hist_origin h"
    using h as_u64_small(2) by (auto simp: hist_small_def pred_option_def origin_ok_parse intro: option.map_ident_strong)
  have kind: "Option.bind (map_option kind_as_u8 (hist_author_kind h)) kind_from_repr = hist_author_kind h"
    by (cases "hist_author_kind h") simp_all
  define body where "body = str (hist_id h) @ w_u64 R (as_u64 (hist_timestamp h)) @ w_i64 R (hist_duration h) @ w_i64 R (hist_exit h) @ str (hist_command h) @
    str (hist_cwd h) @ str (hist_session h) @ str (origin_raw (hist_origin h)) @ bd @ str (hist_author h) @ bi @ bs"
  have ser: "history_serialize R h = Inr (w_u16 R 2 @ w_array_len R 13 @ body @ bk)"
    using str bd(1) bi(1) bs(1) bk(1) by (simp add: history_serialize_def then_write_def body_def)
  note steps = history_read_def bind_io_def read_if_def body_def Let_def unwrap_or_def option.map_comp
  have long: "history_read R Two (w_u16 R 2 @ w_array_len R n @ body @ bk @ rest) = (Inr h, rest)" if "13 \<le> n" "n < 2 ^ 32" for n rest
    using that str auth bd(2) bi(2) bs(2) bk(2) again kind num by (simp add: steps rmp_okD(4,7) [OF R])
  have short: "history_read R Two (w_u16 R 2 @ w_array_len R 12 @ body @ rest) = (Inr (h\<lparr>hist_author_kind := None\<rparr>), rest)" for rest
    using str auth bd(2) bi(2) bs(2) again num by (simp add: steps rmp_okD(4,7) [OF R])
  show thesis using that [OF ser] long short by blast
qed

lemma history_row_roundtrip:
  assumes "origin_ok (hist_origin h)" "- (2 ^ 63) \<le> hist_timestamp h" "hist_timestamp h < 2 ^ 63"
    and "\<forall>t \<in> set_option (hist_deleted_at h). - (2 ^ 63) \<le> t \<and> t < 2 ^ 63"
    and "\<not> blank (hist_author h)" "\<forall>i \<in> set_option (hist_intent h). \<not> blank i"
  shows "hist_from_row (bind_row h) = h"
proof -
  have "map_option (\<lambda>t. as_i64 (as_u64 t)) (hist_deleted_at h) = hist_deleted_at h"
    using assms(4) by (intro option.map_ident_strong) (simp add: as_i64_as_u64)
  moreover have "Option.bind (map_option (\<lambda>k. int (kind_as_u8 k)) (hist_author_kind h)) (\<lambda>k. if 0 \<le> k \<and> k < 2 ^ 8 then kind_from_repr (nat k) else None) = hist_author_kind h"
    by (cases "hist_author_kind h") (simp_all add: kind_roundtrip(2) [THEN of_nat_less_iff [where ?'a = int, THEN iffD2], simplified])
  ultimately show ?thesis
    using assms as_i64_as_u64 [OF assms(2,3)]
    by (auto simp: hist_from_row_def bind_row_def origin_ok_parse Let_def unwrap_or_def split: option.splits)
qed

section \<open>Properties\<close>

text \<open>
  a history entry reads back from its encoding, unchanged. A record of a later version that
  announces more fields and appends them reads as the same entry, and a record of the first version
  2, which has no author kind, reads as the entry without one.
\<close>

theorem history_roundtrip:
  assumes "rmp_ok R" "hist_small h"
  shows "\<exists>body kind. history_serialize R h = Inr (w_u16 R 2 @ w_array_len R 13 @ body @ kind)
    \<and> history_deserialize R (w_u16 R 2 @ w_array_len R 13 @ body @ kind) ''v2'' = Inr h
    \<and> (\<forall>n extra. 13 \<le> n \<and> n < 2 ^ 32 \<longrightarrow> history_deserialize R (w_u16 R 2 @ w_array_len R n @ body @ kind @ extra) ''v2'' = Inr h)
    \<and> history_deserialize R (w_u16 R 2 @ w_array_len R 12 @ body) ''v2'' = Inr (h\<lparr>hist_author_kind := None\<rparr>)"
proof -
  obtain body kind where b: "history_serialize R h = Inr (w_u16 R 2 @ w_array_len R 13 @ body @ kind)"
    "\<And>n rest. 13 \<le> n \<Longrightarrow> n < 2 ^ 32 \<Longrightarrow> history_read R Two (w_u16 R 2 @ w_array_len R n @ body @ kind @ rest) = (Inr h, rest)"
    "\<And>rest. history_read R Two (w_u16 R 2 @ w_array_len R 12 @ body @ rest) = (Inr (h\<lparr>hist_author_kind := None\<rparr>), rest)"
    by (rule history_layout [OF assms]) blast
  show ?thesis
    using b(1) b(2) [of 13 "[]"] b(2) b(3) [of "[]"]
    by (intro exI [of _ body] exI [of _ kind]) (simp add: history_deserialize_def version_from_name_def)
qed

definition example_entry :: History where
  "example_entry = \<lparr>hist_id = ''1'', hist_timestamp = 1700000000, hist_duration = -1, hist_exit = 0, hist_command = ''ls'', hist_cwd = ''/'', hist_session = ''s'',
     hist_origin = CmdOrigin_new ''host'' ''me'', hist_author = ''me'', hist_intent = None, hist_deleted_at = None, hist_shell = Some ''zsh'',
     hist_author_kind = Some UserKind\<rparr>"

lemma example_entry_small: "hist_small example_entry"
  by (simp add: hist_small_def example_entry_def small_time_def small_text_def origin_ok_def CmdOrigin_new_def find_colon_def)

theorem history_roundtrip_witness:
  "\<exists>b. history_serialize msgpack example_entry = Inr b \<and> history_deserialize msgpack b ''v2'' = Inr example_entry"
  using history_roundtrip [OF msgpack_ok example_entry_small] by blast

text \<open>
  who ran a captured command. A stated kind decides. Otherwise a stated author is an agent
  exactly if it is a known agent and not the user of the machine; and where nothing is stated, the
  command is not an agent's, also for a user who has the name of an agent.
\<close>

theorem captured_agent:
  assumes "h = from_captured p c" "origin = unwrap_or (cap_origin c) (probe_origin p)"
  shows "(\<forall>k. cap_author_kind c = Some k \<longrightarrow> is_agent h = (k = AgentKind))
    \<and> (\<forall>a. cap_author_kind c = None \<and> normalize_optional_string (cap_author c) = Some a \<longrightarrow>
          is_agent h = (is_known_agent a \<and> a \<noteq> origin_user origin))
    \<and> (cap_author_kind c = None \<and> normalize_optional_string (cap_author c) = None \<and> env_var p ''ATUIN_HISTORY_AUTHOR'' = None \<longrightarrow> \<not> is_agent h)"
proof -
  have unknown: "\<not> is_known_agent unknown_user" by (simp add: is_known_agent_def known_agents_def unknown_user_def)
  have none: "normalize_optional_string None = None" by (simp add: normalize_optional_string_def)
  have "is_agent h = (k = AgentKind)" if "cap_author_kind c = Some k" for k
    using that assms by (simp add: from_captured_def Let_def or_else_def History_new_def is_agent_def)
  moreover have "is_agent h = (is_known_agent a \<and> a \<noteq> origin_user origin)"
    if "cap_author_kind c = None" "normalize_optional_string (cap_author c) = Some a" for a
    using that normalize_idem [OF that(2)] assms unknown
    by (auto simp: from_captured_def Let_def or_else_def unwrap_or_def History_new_def is_agent_def)
  moreover have "\<not> is_agent h"
    if "cap_author_kind c = None" "normalize_optional_string (cap_author c) = None" "env_var p ''ATUIN_HISTORY_AUTHOR'' = None"
    using that assms unknown none
    by (auto simp: from_captured_def Let_def or_else_def unwrap_or_def History_new_def is_agent_def)
  ultimately show ?thesis by blast
qed

theorem captured_agent_witness:
  "\<not> is_agent (from_captured \<lparr>env_var = Map.empty, new_uuid = ''1'', new_session = ''s'', probe_origin = CmdOrigin_new ''host'' ''pi''\<rparr>
     \<lparr>cap_timestamp = 0, cap_command = ''ls'', cap_cwd = ''/'', cap_author = None, cap_origin = None, cap_intent = None, cap_shell = None, cap_author_kind = None\<rparr>)"
  using captured_agent [OF refl refl, where p = "\<lparr>env_var = Map.empty, new_uuid = ''1'', new_session = ''s'', probe_origin = CmdOrigin_new ''host'' ''pi''\<rparr>"
     and c = "\<lparr>cap_timestamp = 0, cap_command = ''ls'', cap_cwd = ''/'', cap_author = None, cap_origin = None, cap_intent = None, cap_shell = None, cap_author_kind = None\<rparr>"]
  by (simp add: normalize_optional_string_def)

end
