(* ===== verification/Tui_Search.thy ===== *)
theory Tui_Search
  imports Tui_Keys History_Entry
begin

text \<open>
  The interactive search, \<open>atuin/src/command/client/search/interactive.rs\<close>: its state, what each key, mouse and paste event does to it, and the loop of \<open>history()\<close>
  that draws, reads events, queries and returns the chosen command; with \<open>engines.rs\<close> (the filter modes), \<open>ListState\<close> and \<open>get_items_bounds\<close> of \<open>history_list.rs\<close>, and
  the search modes of \<open>atuin-client/src/settings.rs\<close>.

  \<open>None\<close> is a panic. Numbers of type \<open>usize\<close> are below two to the 64; \<open>checks\<close> says whether the build checks overflow (a debug build does, a release build wraps around).
  Parameters: the width of a string on the screen, the search engines and the history database, whether a directory is in a repository, the order of \<open>smart_sort\<close>. Drawing is modelled as far as it
  changes the state or panics: the part of the list that is shown and the statistics the inspector needs. The counts and times that are only displayed are left out.

  Shown: an event keeps the input on a character boundary and, unless it jumps to the bottom of a list that has shrunk, the selection in range; the selected row is always drawn; the filter
  modes rotate over the available ones; word deletion; the popup is on the screen; the text given to SQLite for a command is read back as that command. Of the loop: it keeps its invariant
  and does not panic where each event is drawn before the next, but for two actions, and returns the selected command; what happens when events come faster is stated by theorems of their own.
\<close>

section \<open>Modes\<close>

datatype SearchMode = SmPrefix | SmFullText | SmFuzzy | SmDaemonFuzzy

datatype RequestedSearchMode = RqPrefix | RqFulltext | RqFuzzy | RqDaemonFuzzy | RqSkim

fun effective_mode :: "RequestedSearchMode \<Rightarrow> SearchMode" where
  "effective_mode RqPrefix = SmPrefix"
| "effective_mode RqFulltext = SmFullText"
| "effective_mode RqFuzzy = SmFuzzy"
| "effective_mode RqSkim = SmFuzzy"
| "effective_mode RqDaemonFuzzy = SmDaemonFuzzy"

datatype FilterMode = FmGlobal | FmHost | FmSession | FmDirectory | FmWorkspace | FmSessionPreload

datatype ExitMode = ExitOriginal | ExitQuery

datatype CursorStyle = DefaultUserShape | BlinkingBlock | SteadyBlock | BlinkingUnderScore | SteadyUnderScore | BlinkingBar | SteadyBar

record search_settings = key_settings +
  set_jumper :: WordJumper
  scroll_context_lines :: nat
  exit_mode :: ExitMode
  search_filters :: "FilterMode list"
  workspaces :: bool
  filter_mode_setting :: "FilterMode option"
  filter_mode_up :: "FilterMode option"
  shell_up_key_binding :: bool
  requested_search_mode :: RequestedSearchMode
  requested_search_mode_up :: "RequestedSearchMode option"
  smart_sort :: bool
  command_chaining :: bool
  keymap_cursor :: "string \<Rightarrow> CursorStyle option"
  keymap_mode_shell :: KeymapMode

definition active_search_mode :: "search_settings \<Rightarrow> SearchMode" where
  "active_search_mode S =
     (case (if shell_up_key_binding S then map_option effective_mode (requested_search_mode_up S) else None) of
        Some m \<Rightarrow> m
      | None \<Rightarrow> effective_mode (requested_search_mode S))"

fun next_mode :: "search_settings \<Rightarrow> SearchMode \<Rightarrow> SearchMode" where
  "next_mode S SmPrefix = SmFullText"
| "next_mode S SmFullText = (if active_search_mode S = SmDaemonFuzzy then SmDaemonFuzzy else SmFuzzy)"
| "next_mode S SmFuzzy = SmPrefix"
| "next_mode S SmDaemonFuzzy = SmPrefix"

definition default_filter_mode :: "search_settings \<Rightarrow> bool \<Rightarrow> FilterMode" where
  "default_filter_mode S git_root =
     (case (case filter_mode_setting S of Some m \<Rightarrow> if List.member (search_filters S) m then Some m else None | None \<Rightarrow> None) of
        Some m \<Rightarrow> m
      | None \<Rightarrow> (case find (\<lambda>m. m = FmWorkspace \<longrightarrow> git_root \<and> workspaces S) (search_filters S) of Some m \<Rightarrow> m | None \<Rightarrow> FmGlobal))"

record SearchModeState =
  sms_mode :: SearchMode
  daemon_failed :: bool

definition is_failed_daemon_fuzzy :: "SearchModeState \<Rightarrow> bool" where
  "is_failed_daemon_fuzzy m \<longleftrightarrow> sms_mode m = SmDaemonFuzzy \<and> daemon_failed m"

definition effective_search_mode :: "SearchModeState \<Rightarrow> SearchMode" where
  "effective_search_mode m = (if is_failed_daemon_fuzzy m then SmFuzzy else sms_mode m)"

section \<open>State\<close>

record ListState =
  lst_offset :: nat
  lst_selected :: nat
  lst_max_entries :: nat

definition list_default :: ListState where
  "list_default = \<lparr>lst_offset = 0, lst_selected = 0, lst_max_entries = 0\<rparr>"

record InspectingState =
  insp_current :: "string option"
  insp_next :: "string option"
  insp_previous :: "string option"

definition inspecting_reset :: InspectingState where
  "inspecting_reset = \<lparr>insp_current = None, insp_next = None, insp_previous = None\<rparr>"

definition move_to_previous :: "InspectingState \<Rightarrow> InspectingState" where
  "move_to_previous i = inspecting_reset\<lparr>insp_current := insp_previous i\<rparr>"

definition move_to_next :: "InspectingState \<Rightarrow> InspectingState" where
  "move_to_next i = inspecting_reset\<lparr>insp_current := insp_next i\<rparr>"

record Context =
  ctx_session :: string
  ctx_cwd :: string
  ctx_origin :: CmdOrigin
  ctx_host_id :: string
  ctx_git_root :: "string option"

record SearchState =
  search_input :: Cursor
  filter_mode :: FilterMode
  search_context :: Context
  custom_context :: "string option"

record AppState =
  results_state :: ListState
  switched_search_mode :: bool
  search_mode_state :: SearchModeState
  results_len :: nat
  app_accept :: bool
  app_keymap_mode :: KeymapMode
  app_prefix :: bool
  current_cursor :: "CursorStyle option"
  tab_index :: nat
  pending_vim_key :: "rchar option"
  original_input_empty :: bool
  inspecting_state :: InspectingState
  app_keymaps :: KeymapSet
  app_search :: SearchState
  app_engine :: SearchMode

datatype InputAction =
    InAccept nat | InAcceptInspecting | InCopy nat | InDelete nat | InDeleteAllMatching nat | InReturnOriginal | InReturnQuery | InContinue | InRedraw
  | InSwitchContext "nat option"

definition select :: "nat \<Rightarrow> AppState \<Rightarrow> AppState" where
  "select i a = a\<lparr>results_state := (results_state a)\<lparr>lst_selected := i\<rparr>\<rparr>"

abbreviation selected :: "AppState \<Rightarrow> nat" where
  "selected a \<equiv> lst_selected (results_state a)"

definition reset_inspecting :: "AppState \<Rightarrow> AppState" where
  "reset_inspecting a = a\<lparr>inspecting_state := inspecting_reset\<rparr>"

abbreviation input_of :: "AppState \<Rightarrow> Cursor" where
  "input_of a \<equiv> search_input (app_search a)"

definition set_input :: "AppState \<Rightarrow> Cursor \<Rightarrow> AppState" where
  "set_input a c = a\<lparr>app_search := (app_search a)\<lparr>search_input := c\<rparr>\<rparr>"

definition usize_add :: "bool \<Rightarrow> nat \<Rightarrow> nat \<Rightarrow> nat option" where
  "usize_add checks a b = (if a + b < 2 ^ 64 then Some (a + b) else if checks then None else Some (a + b - 2 ^ 64))"

definition usize_sub :: "bool \<Rightarrow> nat \<Rightarrow> nat \<Rightarrow> nat option" where
  "usize_sub checks a b = (if b \<le> a then Some (a - b) else if checks then None else Some (2 ^ 64 + a - b))"

section \<open>Filter modes\<close>

definition filter_mode_available :: "search_settings \<Rightarrow> SearchState \<Rightarrow> FilterMode \<Rightarrow> bool" where
  "filter_mode_available S s m =
     (case m of
        FmGlobal \<Rightarrow> custom_context s = None
      | FmSessionPreload \<Rightarrow> custom_context s = None
      | FmWorkspace \<Rightarrow> workspaces S \<and> ctx_git_root (search_context s) \<noteq> None
      | _ \<Rightarrow> True)"

fun position :: "('a \<Rightarrow> bool) \<Rightarrow> 'a list \<Rightarrow> nat option" where
  "position P [] = None"
| "position P (x # xs) = (if P x then Some 0 else map_option Suc (position P xs))"

text \<open>The loop of \<open>rotate_filter_mode\<close>, with the number of rounds left; the offset is one in every call.\<close>

fun rotate_loop :: "search_settings \<Rightarrow> nat \<Rightarrow> nat \<Rightarrow> SearchState \<Rightarrow> SearchState" where
  "rotate_loop S 0 i s = s"
| "rotate_loop S (Suc n) i s =
     (let i = ((i + 1) mod 2 ^ 64) mod length (search_filters S); mode = search_filters S ! i
      in if filter_mode_available S s mode then s\<lparr>filter_mode := mode\<rparr> else rotate_loop S n i s)"

definition rotate_filter_mode :: "search_settings \<Rightarrow> SearchState \<Rightarrow> SearchState" where
  "rotate_filter_mode S s =
     rotate_loop S (length (search_filters S)) (case position (\<lambda>m. m = filter_mode s) (search_filters S) of Some i \<Rightarrow> i | None \<Rightarrow> 0) s"

section \<open>Actions\<close>

definition set_keymap_cursor :: "search_settings \<Rightarrow> string \<Rightarrow> AppState \<Rightarrow> AppState" where
  "set_keymap_cursor S keymap_name a =
     (let style = or_else (if keymap_name = ''__clear__'' then None else keymap_cursor S keymap_name) (map_option (\<lambda>_. DefaultUserShape) (current_cursor a))
      in if style \<noteq> current_cursor a \<and> style \<noteq> None then a\<lparr>current_cursor := style\<rparr> else a)"

definition handle_key_exit :: "search_settings \<Rightarrow> InputAction" where
  "handle_key_exit S = (case exit_mode S of ExitOriginal \<Rightarrow> InReturnOriginal | ExitQuery \<Rightarrow> InReturnQuery)"

definition scroll_down :: "nat \<Rightarrow> AppState \<Rightarrow> AppState" where
  "scroll_down n a = select (selected a - n) (reset_inspecting a)"

definition scroll_up :: "bool \<Rightarrow> nat \<Rightarrow> AppState \<Rightarrow> AppState option" where
  "scroll_up checks n a =
     (case usize_add checks (selected a) n of
        None \<Rightarrow> None
      | Some i \<Rightarrow> Some (reset_inspecting (select (min i (results_len a - 1)) a)))"

text \<open>Towards older entries, up the screen unless it is inverted.\<close>

definition scroll_visual :: "bool \<Rightarrow> bool \<Rightarrow> nat \<Rightarrow> AppState \<Rightarrow> AppState option" where
  "scroll_visual checks up n a = (if up then scroll_up checks n a else Some (scroll_down n a))"

text \<open>The two loops of \<open>DeleteToWordBoundary\<close>, with fuel: each round makes the part before the cursor shorter.\<close>

fun back_while_white :: "nat \<Rightarrow> Cursor \<Rightarrow> Cursor option" where
  "back_while_white 0 c = None"
| "back_while_white (Suc n) c =
     (case cursor_back c of
        None \<Rightarrow> None
      | Some (Some g, c) \<Rightarrow> if is_whitespace g then back_while_white n c else Some c
      | Some (None, c) \<Rightarrow> Some c)"

fun left_to_white :: "nat \<Rightarrow> Cursor \<Rightarrow> Cursor option" where
  "left_to_white 0 c = None"
| "left_to_white (Suc n) c =
     (case cursor_left c of
        (False, c) \<Rightarrow> Some c
      | (True, c) \<Rightarrow>
          (case cursor_char c of
             Some (Some g) \<Rightarrow>
               if is_whitespace g then Some (cursor_right c)
               else (case cursor_remove c of None \<Rightarrow> None | Some (_, c) \<Rightarrow> left_to_white n c)
           | _ \<Rightarrow> None))"

definition delete_to_word_boundary :: "Cursor \<Rightarrow> Cursor option" where
  "delete_to_word_boundary c =
     Option.bind (back_while_white (Suc (length (csource c))) c) (\<lambda>c. left_to_white (Suc (length (csource c))) c)"

definition enter_insert :: "search_settings \<Rightarrow> AppState \<Rightarrow> AppState" where
  "enter_insert S a = (set_keymap_cursor S ''vim_insert'' a)\<lparr>app_keymap_mode := KmVimInsert\<rparr>"

definition continue :: "AppState option \<Rightarrow> (AppState \<times> InputAction) option" where
  "continue a = map_option (\<lambda>a. (a, InContinue)) a"

definition edit :: "AppState \<Rightarrow> Cursor option \<Rightarrow> (AppState \<times> InputAction) option" where
  "edit a c = continue (map_option (set_input a) c)"

definition page_len :: "search_settings \<Rightarrow> AppState \<Rightarrow> nat" where
  "page_len S a = lst_max_entries (results_state a) - scroll_context_lines S"

definition execute_action :: "bool \<Rightarrow> search_settings \<Rightarrow> Action \<Rightarrow> AppState \<Rightarrow> (AppState \<times> InputAction) option" where
  "execute_action checks S act a =
     (let c = input_of a; j = set_jumper S; inv = set_invert S;
          last_idx = results_len a - 1; top = lst_offset (results_state a); visible = min (lst_max_entries (results_state a)) (results_len a)
      in case act of
           CursorLeft \<Rightarrow> edit a (Some (snd (cursor_left c)))
         | CursorRight \<Rightarrow> edit a (Some (cursor_right c))
         | CursorWordLeft \<Rightarrow> edit a (Some (prev_word j c))
         | CursorWordRight \<Rightarrow> edit a (Some (next_word j c))
         | CursorWordEnd \<Rightarrow> edit a (word_end (word_chars j) c)
         | CursorStart \<Rightarrow> edit a (Some (cursor_start c))
         | CursorEnd \<Rightarrow> edit a (Some (cursor_end c))
         | DeleteCharBefore \<Rightarrow> edit a (map_option snd (cursor_back c))
         | DeleteCharAfter \<Rightarrow> edit a (map_option snd (cursor_remove c))
         | DeleteWordBefore \<Rightarrow> edit a (remove_prev_word j c)
         | DeleteWordAfter \<Rightarrow> edit a (remove_next_word j c)
         | DeleteToWordBoundary \<Rightarrow> edit a (delete_to_word_boundary c)
         | ClearLine \<Rightarrow> edit a (Some (cursor_clear c))
         | ClearToStart \<Rightarrow> edit a (clear_to_start c)
         | ClearToEnd \<Rightarrow> edit a (clear_to_end c)
         | SelectNext \<Rightarrow> continue (scroll_visual checks inv 1 a)
         | SelectPrevious \<Rightarrow> continue (scroll_visual checks (\<not> inv) 1 a)
         | ScrollHalfPageUp \<Rightarrow> continue (scroll_visual checks (\<not> inv) (page_len S a div 2) a)
         | ScrollHalfPageDown \<Rightarrow> continue (scroll_visual checks inv (page_len S a div 2) a)
         | ScrollPageUp \<Rightarrow> continue (scroll_visual checks (\<not> inv) (page_len S a) a)
         | ScrollPageDown \<Rightarrow> continue (scroll_visual checks inv (page_len S a) a)
         | ScrollToTop \<Rightarrow> Some (reset_inspecting (select (if inv then 0 else last_idx) a), InContinue)
         | ScrollToBottom \<Rightarrow> Some (reset_inspecting (select (if inv then last_idx else 0) a), InContinue)
         | ScrollToScreenTop \<Rightarrow>
             (case usize_add checks top (visible - 1) of
                None \<Rightarrow> None
              | Some bottom \<Rightarrow> Some (reset_inspecting (select (min bottom last_idx) a), InContinue))
         | ScrollToScreenMiddle \<Rightarrow>
             (case usize_add checks top (visible div 2) of
                None \<Rightarrow> None
              | Some middle \<Rightarrow> Some (reset_inspecting (select (min middle last_idx) a), InContinue))
         | ScrollToScreenBottom \<Rightarrow> Some (reset_inspecting (select top a), InContinue)
         | Accept \<Rightarrow> Some (if tab_index a = 1 then (a, InAcceptInspecting) else (a\<lparr>app_accept := True\<rparr>, InAccept (selected a)))
         | AcceptNth n \<Rightarrow> map_option (\<lambda>i. (a\<lparr>app_accept := True\<rparr>, InAccept i)) (usize_add checks (selected a) n)
         | ReturnSelection \<Rightarrow> Some (a, if tab_index a = 1 then InAcceptInspecting else InAccept (selected a))
         | ReturnSelectionNth n \<Rightarrow> map_option (\<lambda>i. (a, InAccept i)) (usize_add checks (selected a) n)
         | Copy \<Rightarrow> Some (a, InCopy (selected a))
         | Delete \<Rightarrow> Some (a, InDelete (selected a))
         | DeleteAll \<Rightarrow> Some (a, InDeleteAllMatching (selected a))
         | ReturnOriginal \<Rightarrow> Some (a, InReturnOriginal)
         | ReturnQuery \<Rightarrow> Some (a, InReturnQuery)
         | Exit \<Rightarrow> Some (a, handle_key_exit S)
         | Redraw \<Rightarrow> Some (a, InRedraw)
         | CycleFilterMode \<Rightarrow> Some (a\<lparr>app_search := rotate_filter_mode S (app_search a)\<rparr>, InContinue)
         | CycleSearchMode \<Rightarrow>
             (let m = (search_mode_state a)\<lparr>sms_mode := next_mode S (sms_mode (search_mode_state a))\<rparr>
              in Some (a\<lparr>switched_search_mode := True, search_mode_state := m, app_engine := effective_search_mode m\<rparr>, InContinue))
         | SwitchContext \<Rightarrow> Some (a, InSwitchContext (Some (selected a)))
         | ClearContext \<Rightarrow> Some (a, InSwitchContext None)
         | ToggleTab \<Rightarrow> Some (a\<lparr>tab_index := (tab_index a + 1) mod 2\<rparr>, InContinue)
         | VimEnterNormal \<Rightarrow> Some ((set_keymap_cursor S ''vim_normal'' a)\<lparr>app_keymap_mode := KmVimNormal\<rparr>, InContinue)
         | VimEnterInsert \<Rightarrow> Some (enter_insert S a, InContinue)
         | VimEnterInsertAfter \<Rightarrow> Some (enter_insert S (set_input a (cursor_right c)), InContinue)
         | VimEnterInsertAtStart \<Rightarrow> Some (enter_insert S (set_input a (cursor_start c)), InContinue)
         | VimEnterInsertAtEnd \<Rightarrow> Some (enter_insert S (set_input a (cursor_end c)), InContinue)
         | VimSearchInsert \<Rightarrow> Some (enter_insert S (set_input a (cursor_clear c)), InContinue)
         | VimChangeToEnd \<Rightarrow> continue (map_option (\<lambda>c. enter_insert S (set_input a c)) (clear_to_end c))
         | EnterPrefixMode \<Rightarrow> Some (a\<lparr>app_prefix := True\<rparr>, InContinue)
         | InspectPrevious \<Rightarrow> Some (a\<lparr>inspecting_state := move_to_previous (inspecting_state a)\<rparr>, InRedraw)
         | InspectNext \<Rightarrow> Some (a\<lparr>inspecting_state := move_to_next (inspecting_state a)\<rparr>, InRedraw)
         | Noop \<Rightarrow> Some (a, InContinue))"

section \<open>Events\<close>

definition mode_keymap :: "AppState \<Rightarrow> Keymap" where
  "mode_keymap a =
     (if tab_index a = 1 then ks_inspector (app_keymaps a)
      else (case app_keymap_mode a of
              KmEmacs \<Rightarrow> ks_emacs (app_keymaps a)
            | KmAuto \<Rightarrow> ks_emacs (app_keymaps a)
            | KmVimNormal \<Rightarrow> ks_vim_normal (app_keymaps a)
            | KmVimInsert \<Rightarrow> ks_vim_insert (app_keymaps a)))"

definition is_insert_mode :: "AppState \<Rightarrow> bool" where
  "is_insert_mode a \<longleftrightarrow> tab_index a = 0 \<and> app_keymap_mode a \<in> {KmEmacs, KmAuto, KmVimInsert}"

definition eval_context :: "(string \<Rightarrow> nat) \<Rightarrow> AppState \<Rightarrow> EvalContext" where
  "eval_context width a =
     \<lparr>cursor_position = cindex (input_of a), input_width = width (csource (input_of a)), input_byte_len = length (csource (input_of a)),
      selected_index = selected a, ctx_results_len = results_len a, ctx_original_input_empty = original_input_empty a,
      has_context = (custom_context (app_search a) \<noteq> None)\<rparr>"

definition starts_sequence :: "Keymap \<Rightarrow> SingleKey \<Rightarrow> rchar option" where
  "starts_sequence km k =
     (case key_code k of KChar g \<Rightarrow> if has_sequence_starting_with km k \<and> \<not> key_ctrl k \<and> \<not> key_alt k then Some g else None | _ \<Rightarrow> None)"

text \<open>The action of a key, and the key that is then pending.\<close>

definition resolve_key :: "EvalContext \<Rightarrow> AppState \<Rightarrow> SingleKey \<Rightarrow> Action option \<times> rchar option" where
  "resolve_key ctx a k =
     (case (if app_prefix a then km_resolve (ks_prefix (app_keymaps a)) (Single k) ctx else None) of
        Some act \<Rightarrow> (Some act, None)
      | None \<Rightarrow>
          (let km = mode_keymap a
           in case pending_vim_key a of
                Some g \<Rightarrow> (or_else (km_resolve km (Sequence [plain_key (KChar g), k]) ctx) (km_resolve km (Single k) ctx), None)
              | None \<Rightarrow> (case starts_sequence km k of
                  Some g \<Rightarrow> (Some Noop, Some g)
                | None \<Rightarrow> (km_resolve km (Single k) ctx, None))))"

definition insert_key :: "SingleKey \<Rightarrow> AppState \<Rightarrow> (AppState \<times> InputAction) option" where
  "insert_key k a =
     (if is_insert_mode a \<and> \<not> key_ctrl k \<and> \<not> key_alt k
      then (case key_code k of
              KChar g \<Rightarrow> edit a (cursor_insert g (input_of a))
            | KSpace \<Rightarrow> edit a (cursor_insert (ascii_char CHR '' '') (input_of a))
            | _ \<Rightarrow> Some (a, InContinue))
      else Some (a, InContinue))"

definition handle_key_input :: "bool \<Rightarrow> (string \<Rightarrow> nat) \<Rightarrow> search_settings \<Rightarrow> KeyEvent \<Rightarrow> AppState \<Rightarrow> (AppState \<times> InputAction) option" where
  "handle_key_input checks width S ev a0 =
     (if ev_kind ev = Release then Some (a0, InContinue)
      else
        (let a = a0\<lparr>switched_search_mode := False\<rparr>; ctx = eval_context width a
         in case from_event ev of
              None \<Rightarrow> Some (a, InContinue)
            | Some k \<Rightarrow>
                (case resolve_key ctx a k of (act, pending) \<Rightarrow>
                   (let a = a\<lparr>pending_vim_key := pending, app_prefix := False\<rparr>
                    in case act of Some act \<Rightarrow> execute_action checks S act a | None \<Rightarrow> insert_key k a))))"

datatype MouseEventKind = ScrollDown | ScrollUp | OtherMouse

datatype TermEvent = KeyEv KeyEvent | MouseEv MouseEventKind | PasteEv string | OtherEv

definition handle_mouse_input :: "bool \<Rightarrow> bool \<Rightarrow> MouseEventKind \<Rightarrow> AppState \<Rightarrow> (AppState \<times> InputAction) option" where
  "handle_mouse_input checks inverted k a =
     (case k of
        ScrollDown \<Rightarrow> continue (scroll_visual checks inverted 1 a)
      | ScrollUp \<Rightarrow> continue (scroll_visual checks (\<not> inverted) 1 a)
      | OtherMouse \<Rightarrow> Some (a, InContinue))"

fun insert_chars :: "rchar list \<Rightarrow> Cursor \<Rightarrow> Cursor option" where
  "insert_chars [] c = Some c"
| "insert_chars (g # gs) c = Option.bind (cursor_insert g c) (insert_chars gs)"

definition handle_paste_input :: "string \<Rightarrow> AppState \<Rightarrow> (AppState \<times> InputAction) option" where
  "handle_paste_input s a = edit a (insert_chars (char_bytes s) (input_of a))"

definition handle_input :: "bool \<Rightarrow> (string \<Rightarrow> nat) \<Rightarrow> search_settings \<Rightarrow> TermEvent \<Rightarrow> AppState \<Rightarrow> (AppState \<times> InputAction) option" where
  "handle_input checks width S ev a =
     (case ev of
        KeyEv k \<Rightarrow> handle_key_input checks width S k a
      | MouseEv m \<Rightarrow> handle_mouse_input checks (set_invert S) m a
      | PasteEv s \<Rightarrow> handle_paste_input s a
      | OtherEv \<Rightarrow> Some (a, InContinue))"

section \<open>Drawing\<close>

definition get_items_bounds :: "bool \<Rightarrow> nat \<Rightarrow> nat \<Rightarrow> nat \<Rightarrow> nat \<Rightarrow> (nat \<times> nat) option" where
  "get_items_bounds checks len sel offset0 height =
     (let offset = min offset0 (len - 1)
      in Option.bind (usize_sub checks len sel) (\<lambda>space.
         Option.bind (usize_add checks offset height) (\<lambda>below.
         Option.bind (usize_add checks sel (min (min height 10) space)) (\<lambda>stop.
           if below < stop then map_option (\<lambda>start. (start, stop)) (usize_sub checks stop height)
           else if sel < offset then map_option (\<lambda>stop. (sel, stop)) (usize_add checks sel height)
           else Some (offset, below)))))"

text \<open>The area of the list, in columns and rows.\<close>

type_synonym list_area = "nat \<times> nat"

definition render_list :: "bool \<Rightarrow> list_area \<Rightarrow> History list \<Rightarrow> ListState \<Rightarrow> ListState option" where
  "render_list checks fr results l =
     (if fst fr < 1 \<or> snd fr < 1 \<or> results = [] then Some l
      else Option.bind (get_items_bounds checks (length results) (lst_selected l) (lst_offset l) (snd fr)) (\<lambda>(start, stop).
             map_option (\<lambda>n. l\<lparr>lst_offset := start, lst_max_entries := n\<rparr>) (usize_sub checks stop start)))"

definition draw :: "bool \<Rightarrow> list_area \<Rightarrow> History list \<Rightarrow> bool \<Rightarrow> History option \<Rightarrow> AppState \<Rightarrow> AppState option" where
  "draw checks fr results has_stats inspecting a =
     (if tab_index a = 0 then map_option (\<lambda>l. a\<lparr>results_state := l\<rparr>) (render_list checks fr results (results_state a))
      else if tab_index a = 1
      then (if results = [] then Some a
            else if inspecting = None \<and> length results \<le> selected a then None
            else if has_stats then Some a else None)
      else None)"

record Rect =
  rect_x :: nat
  rect_y :: nat
  rect_width :: nat
  rect_height :: nat

definition compute_popup_placement :: "nat \<Rightarrow> nat \<Rightarrow> nat \<Rightarrow> nat \<Rightarrow> Rect \<times> nat" where
  "compute_popup_placement cursor_row term_rows term_cols inline_height =
     (let popup_w = term_cols; popup_h = min inline_height term_rows; space_below = term_rows - cursor_row;
          (popup_y, scroll) =
            (if popup_h \<le> space_below then (cursor_row, 0)
             else if cursor_row \<ge> term_rows div 2 then (cursor_row - popup_h, 0)
             else (let scroll = popup_h - space_below in (cursor_row - scroll, scroll)))
      in (\<lparr>rect_x = 0, rect_y = popup_y, rect_width = popup_w, rect_height = popup_h\<rparr>, scroll))"

section \<open>The loop\<close>

datatype query_error = DaemonUnavailable | NonGrpc

text \<open>The search engines, the database and the rest of what the loop calls; \<open>'d\<close> is the state of the database.\<close>

record 'd search_world =
  sw_width :: "string \<Rightarrow> nat"
  sw_query :: "'d \<Rightarrow> SearchMode \<Rightarrow> SearchState \<Rightarrow> query_error + History list"
  sw_sort :: "string \<Rightarrow> History list \<Rightarrow> History list"
  sw_git :: "string \<Rightarrow> string option"
  sw_select :: "'d \<Rightarrow> string \<Rightarrow> History list option"
  sw_delete :: "History list \<Rightarrow> 'd \<Rightarrow> 'd option"
  sw_load :: "'d \<Rightarrow> string \<Rightarrow> History option option"
  sw_stats :: "'d \<Rightarrow> History \<Rightarrow> (History option \<times> History option) option"

record 'd search_loop =
  lp_app :: AppState
  lp_results :: "History list"
  lp_stats :: "(History option \<times> History option) option"
  lp_stats_for :: "string option"
  lp_inspecting :: "History option"
  lp_db :: 'd

record search_start =
  start_context :: Context
  start_filter :: FilterMode
  start_query :: string
  start_chaining :: bool
  start_shell_ok :: bool

datatype 'd search_step = Panicked | Failed | Running "'d search_loop" "TermEvent list" | Finished InputAction "'d search_loop"

definition context_from_history :: "'d search_world \<Rightarrow> History \<Rightarrow> Context" where
  "context_from_history W h =
     \<lparr>ctx_session = hist_session h, ctx_cwd = hist_cwd h, ctx_origin = hist_origin h, ctx_host_id = [], ctx_git_root = sw_git W (hist_cwd h)\<rparr>"

definition query_finish :: "'d search_world \<Rightarrow> search_settings \<Rightarrow> AppState \<Rightarrow> History list \<Rightarrow> AppState \<times> History list" where
  "query_finish W S a rs =
     ((select 0 (reset_inspecting a))\<lparr>results_len := length rs\<rparr>, if smart_sort S then sw_sort W (csource (input_of a)) rs else rs)"

definition query_results :: "'d search_world \<Rightarrow> search_settings \<Rightarrow> 'd \<Rightarrow> AppState \<Rightarrow> (AppState \<times> History list) option" where
  "query_results W S d a =
     (case sw_query W d (app_engine a) (app_search a) of
        Inr rs \<Rightarrow> Some (query_finish W S a rs)
      | Inl e \<Rightarrow>
          if effective_search_mode (search_mode_state a) = SmDaemonFuzzy \<and> e \<noteq> NonGrpc
          then (let m = (search_mode_state a)\<lparr>daemon_failed := True\<rparr>; a = a\<lparr>search_mode_state := m, app_engine := effective_search_mode m\<rparr>
                in case sw_query W d (app_engine a) (app_search a) of Inr rs \<Rightarrow> Some (query_finish W S a rs) | Inl _ \<Rightarrow> None)
          else None)"

definition sql_escape :: "string \<Rightarrow> string" where
  "sql_escape s = concat (map (\<lambda>c. if c = CHR 0x27 then [CHR 0x27, CHR 0x27] else [c]) s)"

definition matching_sql :: "string \<Rightarrow> string" where
  "matching_sql command = ''select * from history where command = '' @ [CHR 0x27] @ sql_escape command @ [CHR 0x27] @ '' and deleted_at is null''"

definition remove_nth :: "nat \<Rightarrow> 'a list \<Rightarrow> 'a list" where
  "remove_nth i xs = take i xs @ drop (Suc i) xs"

definition do_delete :: "bool \<Rightarrow> 'd search_world \<Rightarrow> nat \<Rightarrow> 'd search_loop \<Rightarrow> 'd search_step" where
  "do_delete checks W i L =
     (let a = lp_app L
      in case usize_sub checks (results_len a) 1 of
           None \<Rightarrow> Panicked
         | Some n \<Rightarrow>
             (let a = a\<lparr>results_len := n\<rparr>
              in case (if selected a = n then map_option (\<lambda>i. select i (reset_inspecting a)) (usize_sub checks (selected a) 1) else Some a) of
                   None \<Rightarrow> Panicked
                 | Some a \<Rightarrow>
                     if length (lp_results L) \<le> i then Panicked
                     else (case sw_delete W [lp_results L ! i] (lp_db L) of
                             None \<Rightarrow> Failed
                           | Some d \<Rightarrow> Running (L\<lparr>lp_app := a\<lparr>tab_index := 0\<rparr>, lp_results := remove_nth i (lp_results L), lp_db := d\<rparr>) [])))"

definition do_delete_all :: "'d search_world \<Rightarrow> nat \<Rightarrow> 'd search_loop \<Rightarrow> 'd search_step" where
  "do_delete_all W i L =
     (if length (lp_results L) \<le> i then Panicked
      else
        (let command = hist_command (lp_results L ! i); results = filter (\<lambda>e. hist_command e \<noteq> command) (lp_results L)
         in case Option.bind (sw_select W (lp_db L) (matching_sql command)) (\<lambda>es. sw_delete W es (lp_db L)) of
              None \<Rightarrow> Failed
            | Some d \<Rightarrow>
                Running (L\<lparr>lp_app := reset_inspecting ((lp_app L)\<lparr>results_len := length results, results_state := list_default, tab_index := 0\<rparr>),
                           lp_results := results, lp_db := d\<rparr>) []))"

definition do_switch :: "'d search_world \<Rightarrow> search_start \<Rightarrow> nat option \<Rightarrow> 'd search_loop \<Rightarrow> 'd search_loop" where
  "do_switch W st i L =
     (let a = lp_app L
      in case (case i of None \<Rightarrow> None | Some i \<Rightarrow> if i < length (lp_results L) then Some (lp_results L ! i) else None) of
           Some entry \<Rightarrow>
             L\<lparr>lp_app := a\<lparr>app_search := \<lparr>search_input = Cursor_from [], filter_mode = FmSession, search_context = context_from_history W entry,
                                          custom_context = Some (hist_id entry)\<rparr>,
                            results_state := list_default\<rparr>\<rparr>
         | None \<Rightarrow>
             L\<lparr>lp_app := a\<lparr>app_search := (app_search a)\<lparr>custom_context := None, search_context := start_context st, filter_mode := start_filter st\<rparr>\<rparr>\<rparr>)"

text \<open>What the loop does with the outcome of an event, before the next one is read.\<close>

definition handle_outcome :: "bool \<Rightarrow> 'd search_world \<Rightarrow> search_start \<Rightarrow> list_area \<Rightarrow> InputAction \<Rightarrow> 'd search_loop \<Rightarrow> 'd search_step" where
  "handle_outcome checks W st fr act L =
     (case act of
        InContinue \<Rightarrow> Running L []
      | InDelete i \<Rightarrow> do_delete checks W i L
      | InDeleteAllMatching i \<Rightarrow> do_delete_all W i L
      | InSwitchContext i \<Rightarrow> Running (do_switch W st i L) []
      | InRedraw \<Rightarrow> (case draw checks fr (lp_results L) (lp_stats L \<noteq> None) (lp_inspecting L) (lp_app L) of None \<Rightarrow> Panicked | Some a \<Rightarrow> Running (L\<lparr>lp_app := a\<rparr>) [])
      | r \<Rightarrow> Finished r L)"

text \<open>A deletion with no results leaves the loop over the events: the rest is read after the next frame.\<close>

definition leaves_early :: "InputAction \<Rightarrow> bool" where
  "leaves_early act \<longleftrightarrow> (case act of InDelete _ \<Rightarrow> True | InDeleteAllMatching _ \<Rightarrow> True | _ \<Rightarrow> False)"

fun drain :: "bool \<Rightarrow> 'd search_world \<Rightarrow> search_settings \<Rightarrow> search_start \<Rightarrow> list_area \<Rightarrow> TermEvent list \<Rightarrow> 'd search_loop \<Rightarrow> 'd search_step" where
  "drain checks W S st fr [] L = Running L []"
| "drain checks W S st fr (ev # evs) L =
     (case handle_input checks (sw_width W) S ev (lp_app L) of
        None \<Rightarrow> Panicked
      | Some (a, act) \<Rightarrow>
          if leaves_early act \<and> lp_results L = [] then Running (L\<lparr>lp_app := a\<rparr>) evs
          else (case handle_outcome checks W st fr act (L\<lparr>lp_app := a\<rparr>) of
                  Running L' _ \<Rightarrow> drain checks W S st fr evs L'
                | r \<Rightarrow> r))"

definition search_changed :: "AppState \<Rightarrow> AppState \<Rightarrow> bool" where
  "search_changed a b \<longleftrightarrow>
     csource (input_of a) \<noteq> csource (input_of b) \<or> filter_mode (app_search a) \<noteq> filter_mode (app_search b)
     \<or> effective_search_mode (search_mode_state a) \<noteq> effective_search_mode (search_mode_state b) \<or> custom_context (app_search a) \<noteq> custom_context (app_search b)"

definition requery :: "'d search_world \<Rightarrow> search_settings \<Rightarrow> AppState \<Rightarrow> 'd search_loop \<Rightarrow> 'd search_loop option" where
  "requery W S before L =
     (if search_changed before (lp_app L)
      then map_option (\<lambda>(a, rs). L\<lparr>lp_app := a, lp_results := rs\<rparr>) (query_results W S (lp_db L) (lp_app L))
      else Some L)"

definition highlight_context :: "AppState \<Rightarrow> 'd search_loop \<Rightarrow> 'd search_loop" where
  "highlight_context before L =
     (let a = lp_app L; s = app_search a
      in case custom_context s of
           None \<Rightarrow> L
         | Some h \<Rightarrow>
             if csource (search_input s) = [] \<and> (custom_context (app_search before) \<noteq> custom_context s \<or> filter_mode (app_search before) \<noteq> filter_mode s)
             then (case position (\<lambda>e. hist_id e = h) (lp_results L) of Some i \<Rightarrow> L\<lparr>lp_app := select i a\<rparr> | None \<Rightarrow> L)
             else L)"

definition load_inspecting :: "'d search_world \<Rightarrow> 'd search_loop \<Rightarrow> 'd search_loop option" where
  "load_inspecting W L =
     (case insp_current (inspecting_state (lp_app L)) of
        None \<Rightarrow> Some (L\<lparr>lp_inspecting := None\<rparr>)
      | Some i \<Rightarrow>
          if (case lp_inspecting L of None \<Rightarrow> True | Some h \<Rightarrow> hist_id h \<noteq> i)
          then map_option (\<lambda>h. L\<lparr>lp_inspecting := h\<rparr>) (sw_load W (lp_db L) i)
          else Some L)"

definition update_stats :: "'d search_world \<Rightarrow> 'd search_loop \<Rightarrow> 'd search_step" where
  "update_stats W L =
     (if tab_index (lp_app L) = 0 \<or> lp_results L = [] then Running (L\<lparr>lp_stats := None, lp_stats_for := None\<rparr>) []
      else
        (case (case lp_inspecting L of
                 Some h \<Rightarrow> Some h
               | None \<Rightarrow> if selected (lp_app L) < length (lp_results L) then Some (lp_results L ! selected (lp_app L)) else None) of
           None \<Rightarrow> Panicked
         | Some h \<Rightarrow>
             if lp_stats_for L = Some (hist_id h) then Running L []
             else (case sw_stats W (lp_db L) h of
                     None \<Rightarrow> Failed
                   | Some (prev, nxt) \<Rightarrow>
                       Running (L\<lparr>lp_app := (lp_app L)\<lparr>inspecting_state := \<lparr>insp_current = Some (hist_id h), insp_next = map_option hist_id nxt,
                                                                             insp_previous = map_option hist_id prev\<rparr>\<rparr>,
                                   lp_stats := Some (prev, nxt), lp_stats_for := Some (hist_id h)\<rparr>) [])))"

definition after_events :: "'d search_world \<Rightarrow> search_settings \<Rightarrow> AppState \<Rightarrow> 'd search_loop \<Rightarrow> 'd search_step" where
  "after_events W S before L =
     (case requery W S before L of
        None \<Rightarrow> Failed
      | Some L \<Rightarrow> (case load_inspecting W (highlight_context before L) of None \<Rightarrow> Failed | Some L \<Rightarrow> update_stats W L))"

text \<open>One round of the loop: a frame is drawn, then the events that are ready are read (none when the wait times out), then the results and statistics are brought up to date.\<close>

definition iteration :: "bool \<Rightarrow> 'd search_world \<Rightarrow> search_settings \<Rightarrow> search_start \<Rightarrow> list_area \<Rightarrow> TermEvent list \<Rightarrow> 'd search_loop \<Rightarrow> 'd search_step" where
  "iteration checks W S st fr evs L =
     (case draw checks fr (lp_results L) (lp_stats L \<noteq> None) (lp_inspecting L) (lp_app L) of
        None \<Rightarrow> Panicked
      | Some a \<Rightarrow>
          (case drain checks W S st fr evs (L\<lparr>lp_app := a\<rparr>) of
             Running L' rest \<Rightarrow> (case after_events W S a L' of Running L'' _ \<Rightarrow> Running L'' rest | r \<Rightarrow> r)
           | r \<Rightarrow> r))"

fun search_run :: "bool \<Rightarrow> 'd search_world \<Rightarrow> search_settings \<Rightarrow> search_start \<Rightarrow> (list_area \<times> TermEvent list) list \<Rightarrow> TermEvent list \<Rightarrow> 'd search_loop \<Rightarrow> 'd search_step" where
  "search_run checks W S st [] left L = Running L left"
| "search_run checks W S st ((fr, evs) # bs) left L =
     (case iteration checks W S st fr (left @ evs) L of
        Running L' rest \<Rightarrow> search_run checks W S st bs rest L'
      | r \<Rightarrow> r)"

section \<open>The start and the end\<close>

definition is_command_chaining :: "search_settings \<Rightarrow> string \<Rightarrow> bool" where
  "is_command_chaining S q \<longleftrightarrow>
     command_chaining S \<and> (let t = trim_end q in drop (length t - 2) t = ''&&'' \<or> drop (length t - 1) t = ''|'')"

definition app_start :: "search_settings \<Rightarrow> bool \<Rightarrow> Context \<Rightarrow> FilterMode \<Rightarrow> KeymapSet \<Rightarrow> string \<Rightarrow> AppState" where
  "app_start S no_daemon ctx fm ks q =
     (let m = \<lparr>sms_mode = active_search_mode S, daemon_failed = no_daemon\<rparr>
      in \<lparr>results_state = list_default, switched_search_mode = False, search_mode_state = m, results_len = 0, app_accept = False,
          app_keymap_mode = (if keymap_mode S = KmAuto then KmEmacs else keymap_mode S), app_prefix = False, current_cursor = None, tab_index = 0,
          pending_vim_key = None, original_input_empty = (q = []), inspecting_state = inspecting_reset, app_keymaps = ks,
          app_search = \<lparr>search_input = cursor_end (Cursor_from (if is_command_chaining S q then [] else q)), filter_mode = fm, search_context = ctx, custom_context = None\<rparr>,
          app_engine = effective_search_mode m\<rparr>)"

definition initialize_keymap_cursor :: "search_settings \<Rightarrow> AppState \<Rightarrow> AppState" where
  "initialize_keymap_cursor S a =
     (case app_keymap_mode a of
        KmEmacs \<Rightarrow> set_keymap_cursor S ''emacs'' a
      | KmVimNormal \<Rightarrow> set_keymap_cursor S ''vim_normal'' a
      | KmVimInsert \<Rightarrow> set_keymap_cursor S ''vim_insert'' a
      | KmAuto \<Rightarrow> a)"

definition finalize_keymap_cursor :: "search_settings \<Rightarrow> AppState \<Rightarrow> AppState" where
  "finalize_keymap_cursor S a =
     (case keymap_mode_shell S of
        KmEmacs \<Rightarrow> set_keymap_cursor S ''emacs'' a
      | KmVimNormal \<Rightarrow> set_keymap_cursor S ''vim_normal'' a
      | KmVimInsert \<Rightarrow> set_keymap_cursor S ''vim_insert'' a
      | KmAuto \<Rightarrow> set_keymap_cursor S ''__clear__'' a)"

definition search_begin :: "search_settings \<Rightarrow> Context \<Rightarrow> string \<Rightarrow> bool \<Rightarrow> search_start" where
  "search_begin S ctx q shell_ok =
     \<lparr>start_context = ctx,
      start_filter = (case (if shell_up_key_binding S then filter_mode_up S else None) of Some m \<Rightarrow> m | None \<Rightarrow> default_filter_mode S (ctx_git_root ctx \<noteq> None)),
      start_query = q, start_chaining = is_command_chaining S q, start_shell_ok = shell_ok\<rparr>"

definition loop_start :: "bool \<Rightarrow> 'd search_world \<Rightarrow> search_settings \<Rightarrow> search_start \<Rightarrow> bool \<Rightarrow> list_area \<Rightarrow> 'd \<Rightarrow> 'd search_step" where
  "loop_start checks W S st no_daemon fr d =
     (case keymaps_from_settings (key_settings.truncate S) of
        None \<Rightarrow> Panicked
      | Some ks \<Rightarrow>
          (case draw checks fr [] False None (initialize_keymap_cursor S (app_start S no_daemon (start_context st) (start_filter st) ks (start_query st))) of
             None \<Rightarrow> Panicked
           | Some a \<Rightarrow>
               (case query_results W S d a of
                  None \<Rightarrow> Failed
                | Some (a, rs) \<Rightarrow> Running \<lparr>lp_app = a, lp_results = rs, lp_stats = None, lp_stats_for = None, lp_inspecting = None, lp_db = d\<rparr> [])))"

definition accept_prefix :: string where
  "accept_prefix = ''__atuin_accept__:''"

text \<open>The text that is returned to the shell, and the text that is put on the clipboard.\<close>

definition search_result :: "search_start \<Rightarrow> InputAction \<Rightarrow> 'd search_loop \<Rightarrow> (string \<times> string option) option" where
  "search_result st r L =
     (let accept = app_accept (lp_app L) \<and> start_shell_ok st; query = csource (input_of (lp_app L))
      in case r of
           InAcceptInspecting \<Rightarrow>
             (case lp_inspecting L of Some h \<Rightarrow> Some ((if accept then accept_prefix else []) @ hist_command h, None) | None \<Rightarrow> Some ([], None))
         | InAccept i \<Rightarrow>
             if i < length (lp_results L)
             then (let command = hist_command (lp_results L ! i)
                   in Some (if start_chaining st then trim_end (start_query st) @ '' '' @ command else (if accept then accept_prefix else []) @ command, None))
             else Some (query, None)
         | InReturnOriginal \<Rightarrow> Some ([], None)
         | InCopy i \<Rightarrow> if i < length (lp_results L) then Some ([], Some (hist_command (lp_results L ! i))) else None
         | InReturnQuery \<Rightarrow> Some (query, None)
         | _ \<Rightarrow> None)"

section \<open>Word deletion\<close>

lemma cursor_cases:
  assumes "cursor_rep c ls rs"
  shows "ls = [] \<and> cursor_back c = Some (None, c) \<or> (\<exists>ls' g c'. ls = ls' @ [g] \<and> cursor_back c = Some (Some g, c') \<and> cursor_rep c' ls' rs)"
  using back_rep [of c] assms by (cases ls rule: rev_cases) auto

lemma back_while_white_rep:
  "cursor_rep c ls rs \<Longrightarrow> length ls < n \<Longrightarrow> \<exists>c'. back_while_white n c = Some c' \<and> cursor_rep c' (rev (drop 1 (dropWhile is_whitespace (rev ls)))) rs"
proof (induction n arbitrary: c ls)
  case (Suc n)
  show ?case
  proof (cases ls rule: rev_cases)
    case Nil
    then show ?thesis using cursor_cases [OF Suc.prems(1)] Suc.prems(1) by auto
  next
    case (snoc ls' g)
    then obtain c' where c': "cursor_back c = Some (Some g, c')" "cursor_rep c' ls' rs" using cursor_cases [OF Suc.prems(1)] by auto
    show ?thesis
    proof (cases "is_whitespace g")
      case True
      then show ?thesis using Suc.IH [OF c'(2)] Suc.prems(2) snoc c'(1) by auto
    next
      case False
      then show ?thesis using c' snoc by auto
    qed
  qed
qed simp

lemma left_to_white_rep:
  "cursor_rep c ls rs \<Longrightarrow> length ls < n \<Longrightarrow> \<exists>c'. left_to_white n c = Some c' \<and> cursor_rep c' (rev (dropWhile (\<lambda>g. \<not> is_whitespace g) (rev ls))) rs"
proof (induction n arbitrary: c ls)
  case (Suc n)
  show ?case
  proof (cases ls rule: rev_cases)
    case Nil
    then show ?thesis using step_rep(4) [of c rs] Suc.prems(1) by auto
  next
    case (snoc ls' g)
    then obtain c1 where c1: "cursor_left c = (True, c1)" "cursor_rep c1 ls' (g # rs)" using step_rep(2) [of c ls' g rs] Suc.prems(1) by (cases "cursor_left c") auto
    then have ch: "cursor_char c1 = Some (Some g)" using char_rep [OF c1(2)] by simp
    show ?thesis
    proof (cases "is_whitespace g")
      case True
      then show ?thesis using c1 ch snoc step_rep(1) [OF c1(2)] by auto
    next
      case False
      obtain c2 where "cursor_remove c1 = Some (Some g, c2)" "cursor_rep c2 ls' rs" using remove_rep(1) [OF c1(2)] by blast
      then show ?thesis using Suc.IH [of c2 ls'] Suc.prems(2) snoc c1(1) ch False by auto
    qed
  qed
qed simp

lemma rep_length: "cursor_rep c ls rs \<Longrightarrow> length ls \<le> length (csource c)"
proof -
  have "length ls \<le> bytes_len ls" for ls by (induction ls) (auto simp: char_len_def)
  then show "cursor_rep c ls rs \<Longrightarrow> length ls \<le> length (csource c)" by (simp add: cursor_rep_def trans_le_add1)
qed

lemma word_deletion_rep:
  assumes "cursor_rep c ls rs"
  shows "\<exists>c'. delete_to_word_boundary c = Some c'
           \<and> cursor_rep c' (rev (dropWhile (\<lambda>g. \<not> is_whitespace g) (drop 1 (dropWhile is_whitespace (rev ls))))) rs"
proof -
  obtain c1 where c1: "back_while_white (Suc (length (csource c))) c = Some c1" "cursor_rep c1 (rev (drop 1 (dropWhile is_whitespace (rev ls)))) rs"
    using back_while_white_rep [OF assms, of "Suc (length (csource c))"] rep_length [OF assms] by (meson le_imp_less_Suc)
  then obtain c2 where "left_to_white (Suc (length (csource c1))) c1 = Some c2"
      "cursor_rep c2 (rev (dropWhile (\<lambda>g. \<not> is_whitespace g) (drop 1 (dropWhile is_whitespace (rev ls))))) rs"
    using left_to_white_rep [OF c1(2), of "Suc (length (csource c1))"] rep_length [OF c1(2)] unfolding rev_rev_ident by (meson le_imp_less_Suc)
  then show ?thesis using c1(1) unfolding delete_to_word_boundary_def by simp
qed

text \<open>
  \<open>ctrl-w\<close> ends, does not panic, keeps what is after the cursor, and removes the white space before the cursor, one character more, and then the characters up to the next white space.
\<close>

theorem word_deletion:
  assumes "cursor_rep c ls rs"
  shows "\<exists>c'. delete_to_word_boundary c = Some c'
           \<and> cursor_rep c' (rev (dropWhile (\<lambda>g. \<not> is_whitespace g) (drop 1 (dropWhile is_whitespace (rev ls))))) rs"
  using assms by (rule word_deletion_rep)

lemma word_deletion_witness:
  "\<exists>c'. delete_to_word_boundary \<lparr>csource = ''git push x'', cindex = 9\<rparr> = Some c' \<and> csource c' = ''git x'' \<and> cindex c' = 4"
proof -
  have "cursor_rep \<lparr>csource = ''git push x'', cindex = 9\<rparr> (map ascii_char ''git push '') [ascii_char CHR ''x'']"
    by (simp add: cursor_rep_def ascii_char_def valid_char_def continues_def char_len_def)
  from word_deletion [OF this] show ?thesis
    by (auto simp: cursor_rep_def ascii_char_def is_whitespace_def code_def code_point_def white_space_def char_len_def)
qed

section \<open>Events keep the state well-formed\<close>

fun action_u8 :: "Action \<Rightarrow> bool" where
  "action_u8 (AcceptNth n) \<longleftrightarrow> n < 256"
| "action_u8 (ReturnSelectionNth n) \<longleftrightarrow> n < 256"
| "action_u8 _ \<longleftrightarrow> True"

definition keymap_u8 :: "Keymap \<Rightarrow> bool" where
  "keymap_u8 km \<longleftrightarrow> list_all (\<lambda>(_, rules). list_all (\<lambda>r. action_u8 (rule_action r)) rules) km"

definition keymaps_u8 :: "KeymapSet \<Rightarrow> bool" where
  "keymaps_u8 ks \<longleftrightarrow> keymap_u8 (ks_emacs ks) \<and> keymap_u8 (ks_vim_normal ks) \<and> keymap_u8 (ks_vim_insert ks) \<and> keymap_u8 (ks_inspector ks) \<and> keymap_u8 (ks_prefix ks)"

text \<open>The lengths of lists in memory, and so the positions in them, are far below the largest \<open>usize\<close>.\<close>

definition list_size :: nat where
  "list_size = 2 ^ 62"

definition app_inv :: "AppState \<Rightarrow> bool" where
  "app_inv a \<longleftrightarrow> cursor_ok (input_of a) \<and> (results_len a \<noteq> 0 \<longrightarrow> selected a < results_len a) \<and> tab_index a < 2
     \<and> selected a < list_size \<and> results_len a < list_size \<and> lst_offset (results_state a) < list_size \<and> lst_max_entries (results_state a) < list_size \<and> keymaps_u8 (app_keymaps a)"

definition offset_ok :: "AppState \<Rightarrow> bool" where
  "offset_ok a \<longleftrightarrow> (results_len a \<noteq> 0 \<longrightarrow> lst_offset (results_state a) < results_len a)"

text \<open>What no event changes.\<close>

definition same_list :: "AppState \<Rightarrow> AppState \<Rightarrow> bool" where
  "same_list a b \<longleftrightarrow> results_len b = results_len a \<and> app_keymaps b = app_keymaps a \<and> lst_offset (results_state b) = lst_offset (results_state a)
     \<and> lst_max_entries (results_state b) = lst_max_entries (results_state a)"

lemma same_list_refl [simp]: "same_list a a"
  by (simp add: same_list_def)

lemma usize_add_small: "a < list_size \<Longrightarrow> b < list_size + 256 \<Longrightarrow> usize_add checks a b = Some (a + b)"
  by (simp add: usize_add_def list_size_def)

lemma apply_ok: "cursor_ok c \<Longrightarrow> op_valid e \<Longrightarrow> \<exists>c'. cursor_apply e c = Some c' \<and> cursor_ok c'"
  using cursor_refines [of c _ _ e] by (metis cursor_ok_rep)

lemma edit_ok:
  assumes "app_inv a" "c = Some c'" "cursor_ok c'"
  shows "\<exists>b. edit a c = Some (b, InContinue) \<and> app_inv b \<and> same_list a b \<and> tab_index b = tab_index a"
  using assms by (simp add: edit_def continue_def set_input_def app_inv_def same_list_def)

lemma select_ok:
  assumes "app_inv a" "i < list_size" "results_len a \<noteq> 0 \<longrightarrow> i < results_len a"
  shows "app_inv (reset_inspecting (select i a)) \<and> same_list a (reset_inspecting (select i a)) \<and> tab_index (reset_inspecting (select i a)) = tab_index a"
  using assms by (simp add: reset_inspecting_def select_def app_inv_def same_list_def)

lemma select_continue:
  "app_inv a \<Longrightarrow> i < list_size \<Longrightarrow> results_len a \<noteq> 0 \<longrightarrow> i < results_len a \<Longrightarrow>
   \<exists>b. continue (Some (reset_inspecting (select i a))) = Some (b, InContinue) \<and> app_inv b \<and> same_list a b \<and> tab_index b = tab_index a"
  using select_ok by (simp add: continue_def)

lemma scroll_ok:
  assumes "app_inv a" "n < list_size"
  shows "\<exists>b. continue (scroll_visual checks up n a) = Some (b, InContinue) \<and> app_inv b \<and> same_list a b \<and> tab_index b = tab_index a"
proof -
  have bounds: "selected a < list_size" "results_len a < list_size" "results_len a \<noteq> 0 \<longrightarrow> selected a < results_len a" using assms(1) by (simp_all add: app_inv_def)
  have down: "scroll_down n a = reset_inspecting (select (selected a - n) a)" by (simp add: scroll_down_def reset_inspecting_def select_def)
  have "usize_add checks (selected a) n = Some (selected a + n)" using assms(2) bounds(1) by (intro usize_add_small) simp_all
  then have up: "scroll_up checks n a = Some (reset_inspecting (select (min (selected a + n) (results_len a - 1)) a))" by (simp add: scroll_up_def)
  have "min (selected a + n) (results_len a - 1) < list_size" "results_len a \<noteq> 0 \<longrightarrow> min (selected a + n) (results_len a - 1) < results_len a"
    "selected a - n < list_size" "results_len a \<noteq> 0 \<longrightarrow> selected a - n < results_len a" using bounds by linarith+
  then show ?thesis unfolding scroll_visual_def up down using assms(1) by (cases up) (simp_all only: if_True if_False select_continue)
qed

lemma insert_mode_ok: "app_inv a \<Longrightarrow> cursor_ok c \<Longrightarrow>
    app_inv (enter_insert S (set_input a c)) \<and> same_list a (enter_insert S (set_input a c)) \<and> tab_index (enter_insert S (set_input a c)) = tab_index a"
  by (simp add: enter_insert_def set_keymap_cursor_def set_input_def app_inv_def same_list_def Let_def)

lemma cursor_ops_ok:
  assumes "cursor_ok c"
  shows "cursor_ok (snd (cursor_left c))" "cursor_ok (cursor_right c)" "cursor_ok (prev_word j c)" "cursor_ok (next_word j c)" "cursor_ok (cursor_start c)" "cursor_ok (cursor_end c)"
    "cursor_ok (cursor_clear c)" "\<exists>d. word_end w c = Some d \<and> cursor_ok d" "\<exists>x d. cursor_back c = Some (x, d) \<and> cursor_ok d" "\<exists>x d. cursor_remove c = Some (x, d) \<and> cursor_ok d"
    "\<exists>d. remove_prev_word j c = Some d \<and> cursor_ok d" "\<exists>d. remove_next_word j c = Some d \<and> cursor_ok d" "\<exists>d. clear_to_start c = Some d \<and> cursor_ok d"
    "\<exists>d. clear_to_end c = Some d \<and> cursor_ok d" "\<exists>d. delete_to_word_boundary c = Some d \<and> cursor_ok d"
proof -
  note op = apply_ok [OF assms]
  show "cursor_ok (snd (cursor_left c))" "cursor_ok (cursor_right c)" "cursor_ok (prev_word j c)" "cursor_ok (next_word j c)" "cursor_ok (cursor_start c)" "cursor_ok (cursor_end c)"
    "cursor_ok (cursor_clear c)" "\<exists>d. word_end w c = Some d \<and> cursor_ok d" "\<exists>x d. cursor_back c = Some (x, d) \<and> cursor_ok d" "\<exists>x d. cursor_remove c = Some (x, d) \<and> cursor_ok d"
    "\<exists>d. remove_prev_word j c = Some d \<and> cursor_ok d" "\<exists>d. remove_next_word j c = Some d \<and> cursor_ok d" "\<exists>d. clear_to_start c = Some d \<and> cursor_ok d"
    "\<exists>d. clear_to_end c = Some d \<and> cursor_ok d"
    using op [of Go_Left] op [of Go_Right] op [of "Prev_Word j"] op [of "Next_Word j"] op [of To_Start] op [of To_End] op [of Clear] op [of "Word_End w"] op [of Backspace] op [of Remove]
      op [of "Remove_Prev_Word j"] op [of "Remove_Next_Word j"] op [of Clear_Start] op [of Clear_End] by auto
  show "\<exists>d. delete_to_word_boundary c = Some d \<and> cursor_ok d" using word_deletion_rep assms unfolding cursor_ok_rep by blast
qed

definition outcome_ok :: "AppState \<Rightarrow> (AppState \<times> InputAction) option \<Rightarrow> bool" where
  "outcome_ok a r \<longleftrightarrow> (\<exists>b act. r = Some (b, act) \<and> app_inv b \<and> same_list a b \<and> (act = InRedraw \<longrightarrow> tab_index b = tab_index a)
     \<and> (\<forall>i. act = InDelete i \<or> act = InDeleteAllMatching i \<or> act = InCopy i \<longrightarrow> i = selected a \<and> selected b = selected a))"

lemma outcome_continue: "\<exists>b. r = Some (b, InContinue) \<and> app_inv b \<and> same_list a b \<and> tab_index b = tab_index a \<Longrightarrow> outcome_ok a r"
  by (auto simp: outcome_ok_def)

lemma page_small: "app_inv a \<Longrightarrow> page_len S a < list_size"
  by (simp add: app_inv_def page_len_def less_imp_diff_less)

lemma screen_small: "app_inv a \<Longrightarrow> usize_add checks (lst_offset (results_state a)) (min (lst_max_entries (results_state a)) (results_len a) - 1)
    = Some (lst_offset (results_state a) + (min (lst_max_entries (results_state a)) (results_len a) - 1))"
  "app_inv a \<Longrightarrow> usize_add checks (lst_offset (results_state a)) (min (lst_max_entries (results_state a)) (results_len a) div 2)
    = Some (lst_offset (results_state a) + min (lst_max_entries (results_state a)) (results_len a) div 2)"
  by (intro usize_add_small; auto simp: app_inv_def list_size_def)+

lemma rotate_same: "search_input (rotate_filter_mode S s) = search_input s"
proof -
  have "search_input (rotate_loop S n i s) = search_input s" for n i by (induction n arbitrary: i) (simp_all add: Let_def)
  then show ?thesis by (simp add: rotate_filter_mode_def)
qed

lemma edit_actions_ok:
  assumes "app_inv a" "act \<in> {CursorLeft, CursorRight, CursorWordLeft, CursorWordRight, CursorWordEnd, CursorStart, CursorEnd, DeleteCharBefore, DeleteCharAfter,
    DeleteWordBefore, DeleteWordAfter, DeleteToWordBoundary, ClearLine, ClearToStart, ClearToEnd}"
  shows "outcome_ok a (execute_action checks S act a)"
proof -
  have c: "cursor_ok (input_of a)" using assms(1) by (simp add: app_inv_def)
  have e: "c = Some c' \<Longrightarrow> cursor_ok c' \<Longrightarrow> outcome_ok a (edit a c)" for c c' using edit_ok [OF assms(1)] outcome_continue by blast
  note ops = cursor_ops_ok [OF c]
  show ?thesis using assms(2) ops(1-7) ops(8) [of "word_chars (set_jumper S)"] ops(9-10) ops(11-12) [of "set_jumper S"] ops(13-15)
    by (elim insertE emptyE) (force simp: execute_action_def intro: e)+
qed

lemma scroll_actions_ok:
  assumes "app_inv a" "act \<in> {SelectNext, SelectPrevious, ScrollHalfPageUp, ScrollHalfPageDown, ScrollPageUp, ScrollPageDown}"
  shows "outcome_ok a (execute_action checks S act a)"
proof -
  have e: "n < list_size \<Longrightarrow> outcome_ok a (continue (scroll_visual checks up n a))" for n up using scroll_ok [OF assms(1)] outcome_continue by blast
  have "1 < list_size" "page_len S a < list_size" "page_len S a div 2 < list_size" using page_small [OF assms(1), of S] by (simp_all add: list_size_def)
  then show ?thesis using assms(2) by (elim insertE emptyE) (auto simp: execute_action_def intro: e)
qed

lemma jump_actions_ok:
  assumes "app_inv a" "act \<in> {ScrollToTop, ScrollToBottom, ScrollToScreenTop, ScrollToScreenMiddle} \<or> act = ScrollToScreenBottom \<and> offset_ok a"
  shows "outcome_ok a (execute_action checks S act a)"
proof -
  have bounds: "results_len a < list_size" "lst_offset (results_state a) < list_size" using assms(1) by (simp_all add: app_inv_def)
  have e: "i < list_size \<Longrightarrow> results_len a \<noteq> 0 \<longrightarrow> i < results_len a \<Longrightarrow> outcome_ok a (Some (reset_inspecting (select i a), InContinue))" for i
    using select_continue [OF assms(1)] outcome_continue unfolding continue_def by fastforce
  have m: "outcome_ok a (Some (reset_inspecting (select (min x (results_len a - 1)) a), InContinue))" for x using bounds by (intro e) linarith+
  have l: "outcome_ok a (Some (reset_inspecting (select (results_len a - 1) a), InContinue))" "outcome_ok a (Some (reset_inspecting (select 0 a), InContinue))"
    using bounds by (intro e; simp add: list_size_def)+
  have o: "offset_ok a \<Longrightarrow> outcome_ok a (Some (reset_inspecting (select (lst_offset (results_state a)) a), InContinue))"
    using bounds by (intro e) (simp_all add: offset_ok_def)
  show ?thesis using assms(2) m l o
    by (elim insertE emptyE disjE conjE) (simp_all add: execute_action_def screen_small [OF assms(1), unfolded One_nat_def] split: if_split)
qed

lemma mode_actions_ok:
  assumes "app_inv a" "act \<in> {VimEnterNormal, VimEnterInsert, VimEnterInsertAfter, VimEnterInsertAtStart, VimEnterInsertAtEnd, VimSearchInsert, VimChangeToEnd}"
  shows "outcome_ok a (execute_action checks S act a)"
proof -
  have c: "cursor_ok (input_of a)" using assms(1) by (simp add: app_inv_def)
  have e: "cursor_ok c' \<Longrightarrow> outcome_ok a (Some (enter_insert S (set_input a c'), InContinue))" for c' using insert_mode_ok [OF assms(1)] by (simp add: outcome_ok_def)
  have same: "set_input a (input_of a) = a" by (simp add: set_input_def)
  have n: "outcome_ok a (Some ((set_keymap_cursor S ''vim_normal'' a)\<lparr>app_keymap_mode := KmVimNormal\<rparr>, InContinue))"
    using assms(1) by (simp add: outcome_ok_def set_keymap_cursor_def app_inv_def same_list_def Let_def)
  obtain d where d: "clear_to_end (input_of a) = Some d" "cursor_ok d" using cursor_ops_ok(14) [OF c] by blast
  show ?thesis using assms(2) n d e [OF c] e [OF cursor_ops_ok(2) [OF c]] e [OF cursor_ops_ok(5) [OF c]] e [OF cursor_ops_ok(6) [OF c]] e [OF cursor_ops_ok(7) [OF c]] e [OF d(2)]
    by (elim insertE emptyE) (simp_all add: execute_action_def continue_def same)
qed

lemma execute_action_ok:
  assumes "app_inv a" "action_u8 act" "act = ScrollToScreenBottom \<longrightarrow> offset_ok a"
  shows "outcome_ok a (execute_action checks S act a)"
proof (cases "act \<in> {CursorLeft, CursorRight, CursorWordLeft, CursorWordRight, CursorWordEnd, CursorStart, CursorEnd, DeleteCharBefore, DeleteCharAfter,
    DeleteWordBefore, DeleteWordAfter, DeleteToWordBoundary, ClearLine, ClearToStart, ClearToEnd, SelectNext, SelectPrevious, ScrollHalfPageUp, ScrollHalfPageDown, ScrollPageUp,
    ScrollPageDown, ScrollToTop, ScrollToBottom, ScrollToScreenTop, ScrollToScreenMiddle, ScrollToScreenBottom, VimEnterNormal, VimEnterInsert, VimEnterInsertAfter,
    VimEnterInsertAtStart, VimEnterInsertAtEnd, VimSearchInsert, VimChangeToEnd}")
  case True
  then show ?thesis using assms edit_actions_ok [OF assms(1)] scroll_actions_ok [OF assms(1)] jump_actions_ok [OF assms(1)] mode_actions_ok [OF assms(1)]
    by (elim insertE emptyE) simp_all
next
  case False
  have n: "n < 256 \<Longrightarrow> usize_add checks (selected a) n = Some (selected a + n)" for n using assms(1) by (intro usize_add_small) (simp_all add: app_inv_def)
  show ?thesis using False assms(1,2)
    by (cases act) (simp_all add: execute_action_def outcome_ok_def n handle_key_exit_def rotate_same app_inv_def same_list_def Let_def split: ExitMode.split)
qed

lemma resolve_action_u8:
  assumes "keymap_u8 km" "km_resolve km k ctx = Some act"
  shows "action_u8 act"
proof -
  obtain rules where r: "map_of km k = Some rules" "first_rule rules ctx = Some act" using assms(2) by (auto simp: km_resolve_def split: option.splits)
  then obtain r where "r \<in> set rules" "rule_action r = act" using first_rule_in by blast
  then show ?thesis using map_of_SomeD [OF r(1)] assms(1) by (fastforce simp: keymap_u8_def list_all_iff)
qed

lemma resolve_key_u8:
  assumes "keymaps_u8 (app_keymaps a)" "resolve_key ctx a k = (Some act, p)"
  shows "action_u8 act"
proof -
  have "keymap_u8 (mode_keymap a)" "keymap_u8 (ks_prefix (app_keymaps a))" using assms(1) by (simp_all add: keymaps_u8_def mode_keymap_def split: KeymapMode.split)
  then show ?thesis using assms(2) resolve_action_u8
    by (auto simp: resolve_key_def or_else_def Let_def split: option.splits if_splits)
qed

definition event_valid :: "TermEvent \<Rightarrow> bool" where
  "event_valid ev \<longleftrightarrow> (case ev of
     KeyEv k \<Rightarrow> (case ev_code k of EvChar g \<Rightarrow> valid_char g | _ \<Rightarrow> True)
   | PasteEv s \<Rightarrow> s = [] \<or> \<not> continues (hd s)
   | _ \<Rightarrow> True)"

definition jumps_bottom :: "(string \<Rightarrow> nat) \<Rightarrow> TermEvent \<Rightarrow> AppState \<Rightarrow> bool" where
  "jumps_bottom width ev a \<longleftrightarrow> (case ev of
     KeyEv k \<Rightarrow> (case from_event k of
       Some key \<Rightarrow> fst (resolve_key (eval_context width (a\<lparr>switched_search_mode := False\<rparr>)) (a\<lparr>switched_search_mode := False\<rparr>) key) = Some ScrollToScreenBottom
     | None \<Rightarrow> False)
   | _ \<Rightarrow> False)"

lemma insert_chars_ok: "cursor_ok c \<Longrightarrow> valid_chars gs \<Longrightarrow> \<exists>d. insert_chars gs c = Some d \<and> cursor_ok d"
proof (induction gs arbitrary: c)
  case (Cons g gs)
  then obtain d where "cursor_insert g c = Some d" "cursor_ok d" using apply_ok [of c "Type_Char g"] by auto
  with Cons show ?case by auto
qed simp

lemma outcome_after:
  assumes "outcome_ok b r" "same_list a b" "tab_index b = tab_index a" "selected b = selected a"
  shows "outcome_ok a r"
proof -
  obtain c act where "r = Some (c, act)" "app_inv c" "same_list b c" "act = InRedraw \<longrightarrow> tab_index c = tab_index b"
      "\<forall>i. act = InDelete i \<or> act = InDeleteAllMatching i \<or> act = InCopy i \<longrightarrow> i = selected b \<and> selected c = selected b"
    using assms(1) unfolding outcome_ok_def by blast
  moreover then have "same_list a c" using assms(2) by (simp add: same_list_def)
  ultimately show ?thesis using assms(3,4) unfolding outcome_ok_def by simp
qed

lemma insert_key_ok:
  assumes "app_inv a" "\<And>g. key_code k = KChar g \<Longrightarrow> valid_char g"
  shows "outcome_ok a (insert_key k a)"
proof -
  have c: "cursor_ok (input_of a)" using assms(1) by (simp add: app_inv_def)
  have e: "valid_char g \<Longrightarrow> outcome_ok a (edit a (cursor_insert g (input_of a)))" for g
    using apply_ok [OF c, of "Type_Char g"] edit_ok [OF assms(1)] outcome_continue by fastforce
  have s: "valid_char (ascii_char CHR '' '')" by (simp add: ascii_char_def valid_char_def continues_def)
  have n: "outcome_ok a (Some (a, InContinue))" using assms(1) by (simp add: outcome_ok_def)
  show ?thesis using e [OF s] e assms(2) n by (cases "key_code k") (simp_all add: insert_key_def)
qed

lemma key_input_ok:
  assumes "app_inv a" "event_valid (KeyEv ev)" "jumps_bottom width (KeyEv ev) a \<longrightarrow> offset_ok a"
  shows "outcome_ok a (handle_key_input checks width S ev a)"
proof (cases "ev_kind ev = Release")
  case True
  then show ?thesis using assms(1) by (simp add: handle_key_input_def outcome_ok_def)
next
  case False
  let ?a = "a\<lparr>switched_search_mode := False\<rparr>"
  have a: "app_inv ?a" "same_list a ?a" using assms(1) by (simp_all add: app_inv_def same_list_def)
  show ?thesis
  proof (cases "from_event ev")
    case None
    then show ?thesis using False a by (simp add: handle_key_input_def outcome_ok_def)
  next
    case (Some k)
    obtain act p where r: "resolve_key (eval_context width ?a) ?a k = (act, p)" by fastforce
    let ?b = "?a\<lparr>pending_vim_key := p, app_prefix := False\<rparr>"
    have b: "app_inv ?b" "same_list a ?b" "tab_index ?b = tab_index a" "selected ?b = selected a" using a by (simp_all add: app_inv_def same_list_def)
    have h: "handle_key_input checks width S ev a = (case act of Some act \<Rightarrow> execute_action checks S act ?b | None \<Rightarrow> insert_key k ?b)"
      using False Some r by (simp add: handle_key_input_def Let_def)
    have "outcome_ok ?b (case act of Some act \<Rightarrow> execute_action checks S act ?b | None \<Rightarrow> insert_key k ?b)"
    proof (cases act)
      case None
      have "valid_char g" if "key_code k = KChar g" for g using event_char [OF Some that] assms(2) by (auto simp: event_valid_def)
      then show ?thesis using insert_key_ok [OF b(1)] None by simp
    next
      case act: (Some x)
      have "keymaps_u8 (app_keymaps ?a)" using assms(1) by (simp add: app_inv_def)
      then have "action_u8 x" using resolve_key_u8 r act by blast
      moreover have "x = ScrollToScreenBottom \<longrightarrow> offset_ok ?b"
        using assms(3) Some r act by (simp add: jumps_bottom_def offset_ok_def)
      ultimately show ?thesis using execute_action_ok [OF b(1)] act by simp
    qed
    then show ?thesis unfolding h using b(2-4) by (rule outcome_after)
  qed
qed

lemma handle_input_ok:
  assumes "app_inv a" "event_valid ev" "jumps_bottom width ev a \<longrightarrow> offset_ok a"
  shows "outcome_ok a (handle_input checks width S ev a)"
proof (cases ev)
  case (KeyEv k)
  then show ?thesis using key_input_ok assms by (simp add: handle_input_def)
next
  case (MouseEv m)
  have "outcome_ok a (continue (scroll_visual checks up 1 a))" for up using scroll_ok [OF assms(1), of 1] outcome_continue by (simp add: list_size_def)
  then show ?thesis using MouseEv assms(1) by (cases m) (simp_all add: handle_input_def handle_mouse_input_def outcome_ok_def [of a "Some (a, InContinue)"])
next
  case (PasteEv s)
  have "valid_chars (char_bytes s)" using assms(2) PasteEv by (intro valid_char_bytes) (simp add: event_valid_def)
  then obtain d where "insert_chars (char_bytes s) (input_of a) = Some d" "cursor_ok d" using insert_chars_ok [of "input_of a"] assms(1) by (auto simp: app_inv_def)
  then show ?thesis using PasteEv edit_ok [OF assms(1)] outcome_continue by (fastforce simp: handle_input_def handle_paste_input_def)
next
  case OtherEv
  then show ?thesis using assms(1) by (simp add: handle_input_def outcome_ok_def)
qed

text \<open>
  no key, mouse or paste event panics. Each keeps the input on a character boundary, the selection within the results, where there are any, and the tab one of the two;
  the jump to the bottom of the screen needs an offset within the results.
\<close>

theorem events_keep_state:
  assumes "app_inv a" "event_valid ev" "jumps_bottom width ev a \<longrightarrow> offset_ok a"
  shows "\<exists>b act. handle_input checks width S ev a = Some (b, act) \<and> app_inv b"
  using handle_input_ok [OF assms] unfolding outcome_ok_def by blast

section \<open>Drawing shows the selection\<close>

definition frame_ok :: "list_area \<Rightarrow> bool" where
  "frame_ok fr \<longleftrightarrow> 1 \<le> fst fr \<and> 1 \<le> snd fr \<and> fst fr < 2 ^ 16 \<and> snd fr < 2 ^ 16"

lemma usize_sub_le: "b \<le> a \<Longrightarrow> usize_sub checks a b = Some (a - b)"
  by (simp add: usize_sub_def)

lemma bounds_ok:
  assumes "sel < len" "len < list_size" "off < list_size" "1 \<le> height" "height < 2 ^ 16"
  shows "\<exists>start stop. get_items_bounds checks len sel off height = Some (start, stop) \<and> start \<le> sel \<and> sel < stop \<and> start < len \<and> stop = start + height"
proof -
  define o1 where "o1 = min off (len - 1)"
  define m where "m = min (min height 10) (len - sel)"
  have m: "1 \<le> m" "m \<le> height" "m \<le> len - sel" using assms by (simp_all add: m_def)
  have o1: "o1 < len" using assms(1) by (simp add: o1_def)
  have h: "height < list_size" "m < list_size" using assms(5) m(2) by (simp_all add: list_size_def)
  have "usize_add checks o1 height = Some (o1 + height)" "usize_add checks sel m = Some (sel + m)" "usize_add checks sel height = Some (sel + height)"
    using assms h o1 by (intro usize_add_small; simp)+
  then have g: "get_items_bounds checks len sel off height =
      (if o1 + height < sel + m then map_option (\<lambda>start. (start, sel + m)) (usize_sub checks (sel + m) height)
       else if sel < o1 then Some (sel, sel + height) else Some (o1, o1 + height))"
    unfolding get_items_bounds_def Let_def o1_def [symmetric] using assms(1) by (simp add: usize_sub_le m_def [symmetric])
  show ?thesis
  proof (cases "o1 + height < sel + m")
    case True
    then have "get_items_bounds checks len sel off height = Some (sel + m - height, sel + m)" unfolding g by (simp add: usize_sub_le)
    then show ?thesis using True m assms(1) by auto
  next
    case False
    then show ?thesis unfolding g using m o1 assms(1,4) by auto
  qed
qed

lemma render_ok:
  assumes "lst_selected l < length results" "length results < list_size" "lst_offset l < list_size" "frame_ok fr"
  shows "\<exists>start. render_list checks fr results l = Some (l\<lparr>lst_offset := start, lst_max_entries := snd fr\<rparr>) \<and> start \<le> lst_selected l \<and> lst_selected l < start + snd fr \<and> start < length results"
proof -
  obtain start stop where "get_items_bounds checks (length results) (lst_selected l) (lst_offset l) (snd fr) = Some (start, stop)"
      "start \<le> lst_selected l" "lst_selected l < stop" "start < length results" "stop = start + snd fr"
    using bounds_ok [of "lst_selected l" "length results" "lst_offset l" "snd fr" checks] assms unfolding frame_ok_def by blast
  then show ?thesis using assms(1,4) by (auto simp: render_list_def frame_ok_def usize_sub_le)
qed

text \<open>
  whatever the list was scrolled to, and however it has changed, drawing it does not panic and shows the selected row: it is one of the rows of the screen, and the first of them is an entry.
\<close>

theorem selection_is_drawn:
  assumes "lst_selected l < length results" "length results < list_size" "lst_offset l < list_size" "frame_ok fr"
  shows "\<exists>m. render_list checks fr results l = Some m \<and> lst_selected m = lst_selected l \<and> lst_offset m < length results
      \<and> lst_offset m \<le> lst_selected m \<and> lst_selected m < lst_offset m + lst_max_entries m \<and> lst_max_entries m = snd fr"
  using render_ok [OF assms, of checks] by auto

section \<open>The loop keeps its invariant\<close>

definition mid_inv :: "'d search_loop \<Rightarrow> bool" where
  "mid_inv L \<longleftrightarrow> app_inv (lp_app L) \<and> results_len (lp_app L) = length (lp_results L) \<and> (lp_stats_for L \<noteq> None \<longrightarrow> lp_stats L \<noteq> None)"

definition stats_ready :: "'d search_loop \<Rightarrow> bool" where
  "stats_ready L \<longleftrightarrow> (tab_index (lp_app L) = 1 \<and> lp_results L \<noteq> [] \<longrightarrow> lp_stats L \<noteq> None)"

definition loop_inv :: "'d search_loop \<Rightarrow> bool" where
  "loop_inv L \<longleftrightarrow> mid_inv L \<and> stats_ready L"

definition world_ok :: "'d search_world \<Rightarrow> bool" where
  "world_ok W \<longleftrightarrow> (\<forall>q rs. length (sw_sort W q rs) = length rs) \<and> (\<forall>d m s rs. sw_query W d m s = Inr rs \<longrightarrow> length rs < list_size)"

lemma draw_ok:
  assumes "mid_inv L" "stats_ready L" "frame_ok fr"
  shows "\<exists>a. draw checks fr (lp_results L) (lp_stats L \<noteq> None) (lp_inspecting L) (lp_app L) = Some a \<and> mid_inv (L\<lparr>lp_app := a\<rparr>) \<and> stats_ready (L\<lparr>lp_app := a\<rparr>)
     \<and> tab_index a = tab_index (lp_app L) \<and> selected a = selected (lp_app L) \<and> (tab_index a = 0 \<longrightarrow> offset_ok a)"
proof -
  let ?a = "lp_app L" and ?rs = "lp_results L"
  have inv: "app_inv ?a" "results_len ?a = length ?rs" using assms(1) by (simp_all add: mid_inv_def)
  then have tab: "tab_index ?a < 2" by (simp add: app_inv_def)
  show ?thesis
  proof (cases "tab_index ?a = 0 \<and> ?rs \<noteq> []")
    case True
    then have "selected ?a < length ?rs" "length ?rs < list_size" "lst_offset (results_state ?a) < list_size" using inv by (auto simp: app_inv_def)
    from render_ok [OF this assms(3)] obtain start where r: "render_list checks fr ?rs (results_state ?a) = Some ((results_state ?a)\<lparr>lst_offset := start, lst_max_entries := snd fr\<rparr>)"
      "start < length ?rs" by blast
    then have "start < list_size" "snd fr < list_size" using inv assms(3) by (auto simp: app_inv_def frame_ok_def list_size_def)
    then show ?thesis using True r inv assms(1,2) by (simp add: draw_def mid_inv_def stats_ready_def app_inv_def offset_ok_def)
  next
    case False
    have "draw checks fr ?rs (lp_stats L \<noteq> None) (lp_inspecting L) ?a = Some ?a"
    proof (cases "tab_index ?a = 0")
      case True
      with False show ?thesis by (simp add: draw_def render_list_def)
    next
      case one: False
      then have "tab_index ?a = 1" using tab by simp
      moreover have "selected ?a < length ?rs" if "?rs \<noteq> []" using that inv by (auto simp: app_inv_def)
      ultimately show ?thesis using assms(2) by (cases "?rs = []") (simp_all add: draw_def stats_ready_def)
    qed
    then show ?thesis using False assms(1,2) inv by (auto simp: offset_ok_def)
  qed
qed

lemma switch_ok: "mid_inv L \<Longrightarrow> mid_inv (do_switch W st i L)"
  by (auto simp: do_switch_def mid_inv_def app_inv_def list_default_def list_size_def Cursor_from_def cursor_ok_def is_char_boundary_def Let_def split: option.splits)

lemma delete_all_ok:
  assumes "mid_inv L" "i < length (lp_results L)"
  shows "case do_delete_all W i L of Running L' _ \<Rightarrow> mid_inv L' | Failed \<Rightarrow> True | _ \<Rightarrow> False"
proof -
  have "length (filter (\<lambda>e. hist_command e \<noteq> hist_command (lp_results L ! i)) (lp_results L)) < list_size"
    using assms(1) le_less_trans [OF length_filter_le] by (auto simp: mid_inv_def app_inv_def)
  then show ?thesis using assms
    by (auto simp: do_delete_all_def mid_inv_def app_inv_def reset_inspecting_def list_default_def list_size_def Let_def bind_eq_Some_conv split: option.splits)
qed

lemma length_remove_nth: "i < length xs \<Longrightarrow> length (remove_nth i xs) = length xs - 1"
  by (simp add: remove_nth_def)

lemma delete_ok:
  assumes "mid_inv L" "i = selected (lp_app L)" "2 \<le> length (lp_results L)"
  shows "case do_delete checks W i L of Running L' _ \<Rightarrow> mid_inv L' | Failed \<Rightarrow> True | _ \<Rightarrow> False"
proof -
  let ?a = "lp_app L" and ?n = "length (lp_results L) - 1"
  have inv: "app_inv ?a" "results_len ?a = length (lp_results L)" using assms(1) by (simp_all add: mid_inv_def)
  then have i: "i < length (lp_results L)" using assms(2,3) by (auto simp: app_inv_def)
  let ?b = "?a\<lparr>results_len := ?n\<rparr>" and ?s = "if selected ?a = ?n then select (selected ?a - 1) (reset_inspecting (?a\<lparr>results_len := ?n\<rparr>)) else ?a\<lparr>results_len := ?n\<rparr>"
  have d: "do_delete checks W i L = (case sw_delete W [lp_results L ! i] (lp_db L) of None \<Rightarrow> Failed
      | Some d \<Rightarrow> Running (L\<lparr>lp_app := ?s\<lparr>tab_index := 0\<rparr>, lp_results := remove_nth i (lp_results L), lp_db := d\<rparr>) [])"
    using inv(2) i assms(3) by (auto simp: do_delete_def usize_sub_le Let_def split: option.split)
  have "app_inv (?s\<lparr>tab_index := 0\<rparr>)" "results_len (?s\<lparr>tab_index := 0\<rparr>) = ?n"
    using inv i assms(2,3) by (auto simp: app_inv_def select_def reset_inspecting_def)
  then show ?thesis unfolding d using assms(1) i by (auto simp: mid_inv_def length_remove_nth split: option.split)
qed

lemma outcome_loop_ok:
  assumes "mid_inv L" "frame_ok fr" "act = InRedraw \<longrightarrow> stats_ready L"
    "\<forall>i. act = InDelete i \<longrightarrow> i = selected (lp_app L) \<and> 2 \<le> length (lp_results L)" "\<forall>i. act = InDeleteAllMatching i \<longrightarrow> i < length (lp_results L)"
  shows "case handle_outcome checks W st fr act L of Running L' _ \<Rightarrow> mid_inv L' | Failed \<Rightarrow> True | Finished r L' \<Rightarrow> L' = L \<and> r = act | Panicked \<Rightarrow> False"
proof (cases act)
  case (InDelete i)
  then show ?thesis using delete_ok [OF assms(1), of i checks W] assms(4) by (auto simp: handle_outcome_def split: search_step.splits)
next
  case (InDeleteAllMatching i)
  then show ?thesis using delete_all_ok [OF assms(1), of i W] assms(5) by (auto simp: handle_outcome_def split: search_step.splits)
next
  case InRedraw
  then have "stats_ready L" using assms(3) by simp
  from draw_ok [OF assms(1) this assms(2), of checks] obtain a where
    "draw checks fr (lp_results L) (lp_stats L \<noteq> None) (lp_inspecting L) (lp_app L) = Some a" "mid_inv (L\<lparr>lp_app := a\<rparr>)" by blast
  then show ?thesis using InRedraw by (simp add: handle_outcome_def)
qed (use assms(1) switch_ok in \<open>simp_all add: handle_outcome_def\<close>)

lemma query_ok:
  assumes "world_ok W" "app_inv a" "query_results W S d a = Some (b, rs)"
  shows "app_inv b \<and> results_len b = length rs \<and> tab_index b = tab_index a"
proof -
  have f: "app_inv (fst (query_finish W S c rs)) \<and> results_len (fst (query_finish W S c rs)) = length (snd (query_finish W S c rs)) \<and> tab_index (fst (query_finish W S c rs)) = tab_index c"
    if "app_inv c" "length rs < list_size" for c rs
    using assms(1) that by (simp add: query_finish_def app_inv_def select_def reset_inspecting_def world_ok_def list_size_def)
  have len: "sw_query W d m s = Inr rs \<Longrightarrow> length rs < list_size" for m s rs using assms(1) by (simp add: world_ok_def)
  let ?m = "(search_mode_state a)\<lparr>daemon_failed := True\<rparr>"
  let ?a = "a\<lparr>search_mode_state := ?m, app_engine := effective_search_mode ?m\<rparr>"
  have "app_inv ?a" using assms(2) by (simp add: app_inv_def)
  then show ?thesis using assms(3) f [OF assms(2) len] f [of ?a, OF _ len]
    by (auto simp: query_results_def Let_def split: sum.splits if_splits) (metis fst_conv snd_conv)+
qed

lemma requery_ok:
  assumes "world_ok W" "mid_inv L" "requery W S before L = Some L'"
  shows "mid_inv L'"
proof (cases "search_changed before (lp_app L)")
  case True
  then obtain a rs where "query_results W S (lp_db L) (lp_app L) = Some (a, rs)" "L' = L\<lparr>lp_app := a, lp_results := rs\<rparr>"
    using assms(3) by (auto simp: requery_def)
  then show ?thesis using query_ok [OF assms(1)] assms(2) by (fastforce simp: mid_inv_def)
next
  case False
  then show ?thesis using assms by (simp add: requery_def)
qed

lemma position_less: "position P xs = Some i \<Longrightarrow> i < length xs \<and> P (xs ! i)"
  by (induction xs arbitrary: i) (auto split: if_splits)

lemma highlight_ok: "mid_inv L \<Longrightarrow> mid_inv (highlight_context before L)"
  by (auto simp: highlight_context_def mid_inv_def app_inv_def select_def Let_def split: option.splits dest!: position_less)

lemma load_ok: "mid_inv L \<Longrightarrow> load_inspecting W L = Some L' \<Longrightarrow> mid_inv L'"
  by (auto simp: load_inspecting_def mid_inv_def split: option.splits if_splits)

lemma stats_ok:
  assumes "mid_inv L"
  shows "case update_stats W L of Running L' _ \<Rightarrow> loop_inv L' | Failed \<Rightarrow> True | _ \<Rightarrow> False"
proof (cases "tab_index (lp_app L) = 0 \<or> lp_results L = []")
  case True
  then show ?thesis using assms by (auto simp: update_stats_def loop_inv_def mid_inv_def stats_ready_def app_inv_def)
next
  case False
  then have sel: "selected (lp_app L) < length (lp_results L)" using assms by (auto simp: mid_inv_def app_inv_def)
  then obtain h where h: "(case lp_inspecting L of Some h \<Rightarrow> Some h
      | None \<Rightarrow> if selected (lp_app L) < length (lp_results L) then Some (lp_results L ! selected (lp_app L)) else None) = Some h" by (cases "lp_inspecting L") auto
  show ?thesis using False assms unfolding update_stats_def h
    by (auto simp: loop_inv_def mid_inv_def stats_ready_def app_inv_def split: option.splits)
qed

lemma after_ok:
  assumes "world_ok W" "mid_inv L"
  shows "case after_events W S before L of Running L' _ \<Rightarrow> loop_inv L' | Failed \<Rightarrow> True | _ \<Rightarrow> False"
proof (cases "requery W S before L")
  case (Some L1)
  then have m: "mid_inv (highlight_context before L1)" using requery_ok [OF assms] highlight_ok by blast
  then show ?thesis using Some stats_ok [OF load_ok [OF m], where W = W] by (cases "load_inspecting W (highlight_context before L1)") (simp_all add: after_events_def)
qed (simp add: after_events_def)

text \<open>What an event does to a drawn state, and when the loop cannot go on from it.\<close>

definition only_result_deleted :: "'d search_loop \<Rightarrow> InputAction \<Rightarrow> bool" where
  "only_result_deleted L act \<longleftrightarrow> length (lp_results L) = 1 \<and> (\<exists>i. act = InDelete i)"

definition safe_step :: "'d search_loop \<Rightarrow> search_start \<Rightarrow> 'd search_step \<Rightarrow> bool" where
  "safe_step L st r \<longleftrightarrow>
     (case r of
        Panicked \<Rightarrow> False
      | Failed \<Rightarrow> True
      | Running L' _ \<Rightarrow> loop_inv L'
      | Finished act L' \<Rightarrow> lp_results L' = lp_results L \<and> (search_result st act L' = None \<longleftrightarrow> lp_results L = [] \<and> (\<exists>i. act = InCopy i)))"

lemma event_step:
  assumes "mid_inv L" "stats_ready L" "frame_ok fr" "event_valid ev" "tab_index (lp_app L) = 0 \<longrightarrow> offset_ok (lp_app L)"
    "jumps_bottom (sw_width W) ev (lp_app L) \<longrightarrow> tab_index (lp_app L) = 0"
    "handle_input checks (sw_width W) S ev (lp_app L) = Some (b, act)" "\<not> only_result_deleted L act"
  shows "case drain checks W S st fr [ev] L of
      Panicked \<Rightarrow> False | Failed \<Rightarrow> True | Running L' _ \<Rightarrow> mid_inv L'
    | Finished r L' \<Rightarrow> lp_results L' = lp_results L \<and> mid_inv L' \<and> (\<forall>i. r = InCopy i \<longrightarrow> i = selected (lp_app L')) \<and> handle_outcome checks W st fr r L' = Finished r L'"
proof -
  have inv: "app_inv (lp_app L)" "results_len (lp_app L) = length (lp_results L)" using assms(1) by (simp_all add: mid_inv_def)
  have "outcome_ok (lp_app L) (handle_input checks (sw_width W) S ev (lp_app L))" by (rule handle_input_ok) (use inv(1) assms(4,5,6) in auto)
  then have b: "app_inv b" "same_list (lp_app L) b" "act = InRedraw \<longrightarrow> tab_index b = tab_index (lp_app L)"
      "\<forall>i. act = InDelete i \<or> act = InDeleteAllMatching i \<or> act = InCopy i \<longrightarrow> i = selected (lp_app L) \<and> selected b = selected (lp_app L)"
    unfolding assms(7) outcome_ok_def by blast+
  let ?M = "L\<lparr>lp_app := b\<rparr>"
  have m: "mid_inv ?M" using b(1,2) assms(1) by (simp add: mid_inv_def same_list_def)
  show ?thesis
  proof (cases "leaves_early act \<and> lp_results L = []")
    case True
    then show ?thesis using assms(7) m by simp
  next
    case False
    have sel: "selected b < length (lp_results L)" if "lp_results L \<noteq> []" using that m by (auto simp: mid_inv_def app_inv_def)
    have h1: "act = InRedraw \<longrightarrow> stats_ready ?M" using assms(2) b(3) by (simp add: stats_ready_def)
    have "2 \<le> length (lp_results L)" if "act = InDelete i" for i
    proof -
      have "length (lp_results L) \<noteq> 0" "length (lp_results L) \<noteq> 1" using that False assms(8) by (simp_all add: leaves_early_def only_result_deleted_def)
      then show ?thesis by linarith
    qed
    then have h2: "\<forall>i. act = InDelete i \<longrightarrow> i = selected (lp_app ?M) \<and> 2 \<le> length (lp_results ?M)" using b(4) by simp
    have h3: "\<forall>i. act = InDeleteAllMatching i \<longrightarrow> i < length (lp_results ?M)"
    proof (intro allI impI)
      fix i
      assume i: "act = InDeleteAllMatching i"
      then have "i = selected b" "lp_results L \<noteq> []" using b(4) False by (simp_all add: leaves_early_def)
      then show "i < length (lp_results ?M)" using sel by simp
    qed
    have "case handle_outcome checks W st fr act ?M of Running L' _ \<Rightarrow> mid_inv L' | Failed \<Rightarrow> True | Finished r L' \<Rightarrow> L' = ?M \<and> r = act | Panicked \<Rightarrow> False"
      by (rule outcome_loop_ok [OF m assms(3) h1 h2 h3])
    then show ?thesis using False assms(7) m b(4) by (cases "handle_outcome checks W st fr act ?M") auto
  qed
qed

lemma finished_result:
  assumes "handle_outcome checks W st fr r L = Finished r L" "mid_inv L" "\<forall>i. r = InCopy i \<longrightarrow> i = selected (lp_app L)"
  shows "search_result st r L = None \<longleftrightarrow> lp_results L = [] \<and> (\<exists>i. r = InCopy i)"
proof (cases r)
  case (InCopy i)
  have "selected (lp_app L) < length (lp_results L)" if "lp_results L \<noteq> []" using that assms(2) by (auto simp: mid_inv_def app_inv_def)
  then show ?thesis using InCopy assms(3) by (auto simp: search_result_def Let_def)
qed (use assms(1) in \<open>auto simp: handle_outcome_def search_result_def do_delete_def do_delete_all_def Let_def split: option.splits if_splits\<close>)

lemma drawn_event_safe:
  assumes "loop_inv L" "world_ok W" "frame_ok fr" "event_valid ev"
    "draw checks fr (lp_results L) (lp_stats L \<noteq> None) (lp_inspecting L) (lp_app L) = Some a"
    "handle_input checks (sw_width W) S ev a = Some (b, act)" "\<not> only_result_deleted L act" "jumps_bottom (sw_width W) ev a \<longrightarrow> tab_index a = 0"
  shows "safe_step L st (iteration checks W S st fr [ev] L)"
proof -
  let ?M = "L\<lparr>lp_app := a\<rparr>"
  have i: "mid_inv L" "stats_ready L" using assms(1) by (simp_all add: loop_inv_def)
  have m: "mid_inv ?M" "stats_ready ?M" "tab_index (lp_app ?M) = 0 \<longrightarrow> offset_ok (lp_app ?M)"
    using draw_ok [OF i assms(3), of checks] assms(5) by auto
  have d: "case drain checks W S st fr [ev] ?M of
      Panicked \<Rightarrow> False | Failed \<Rightarrow> True | Running L' _ \<Rightarrow> mid_inv L'
    | Finished r L' \<Rightarrow> lp_results L' = lp_results ?M \<and> mid_inv L' \<and> (\<forall>i. r = InCopy i \<longrightarrow> i = selected (lp_app L')) \<and> handle_outcome checks W st fr r L' = Finished r L'"
    by (rule event_step [OF m(1,2) assms(3,4) m(3)]) (use assms(6,7,8) in \<open>simp_all add: only_result_deleted_def\<close>)
  show ?thesis
  proof (cases "drain checks W S st fr [ev] ?M")
    case (Running L' rest)
    have "mid_inv L'" using d unfolding Running search_step.case .
    from after_ok [OF assms(2) this, of S a] show ?thesis unfolding iteration_def assms(5) option.case Running search_step.case
      by (cases "after_events W S a L'") (simp_all add: safe_step_def)
  next
    case (Finished r L')
    have f: "lp_results L' = lp_results L" "search_result st r L' = None \<longleftrightarrow> lp_results L' = [] \<and> (\<exists>i. r = InCopy i)"
      using d finished_result [of checks W st fr r L'] unfolding Finished search_step.case by simp_all
    then show ?thesis unfolding iteration_def assms(5) option.case Finished search_step.case safe_step_def by simp
  next
    case Failed
    then show ?thesis unfolding iteration_def assms(5) option.case Failed search_step.case safe_step_def by simp
  next
    case Panicked
    then show ?thesis using d by (simp del: drain.simps)
  qed
qed


section \<open>Several events before a frame\<close>

lemma draw_keeps:
  "draw checks fr rs s i a = Some b \<Longrightarrow> app_search b = app_search a \<and> search_mode_state b = search_mode_state a \<and> tab_index b = tab_index a \<and> app_keymaps b = app_keymaps a
     \<and> app_keymap_mode b = app_keymap_mode a \<and> app_prefix b = app_prefix a \<and> pending_vim_key b = pending_vim_key a"
  by (auto simp: draw_def split: if_splits)

lemma remove_nth_subset: "set (remove_nth i xs) \<subseteq> set xs"
  by (auto simp: remove_nth_def dest: in_set_takeD in_set_dropD)

lemma delete_subset: "do_delete checks W i L = Running L' r \<Longrightarrow> set (lp_results L') \<subseteq> set (lp_results L)"
  using remove_nth_subset by (fastforce simp: do_delete_def Let_def split: option.splits if_splits)

lemma delete_all_subset: "do_delete_all W i L = Running L' r \<Longrightarrow> set (lp_results L') \<subseteq> set (lp_results L)"
  by (auto simp: do_delete_all_def Let_def split: option.splits if_splits)

lemma outcome_subset:
  assumes "handle_outcome checks W st fr act L = Running L' r \<or> handle_outcome checks W st fr act L = Finished x L'"
  shows "set (lp_results L') \<subseteq> set (lp_results L)"
proof -
  have never: "do_delete checks W i L \<noteq> Finished x L'" "do_delete_all W i L \<noteq> Finished x L'" for i
    by (auto simp: do_delete_def do_delete_all_def Let_def split: option.splits if_splits)
  show ?thesis using assms never
    by (cases act) (auto simp: handle_outcome_def do_switch_def Let_def split: option.splits dest: delete_subset [THEN subsetD] delete_all_subset [THEN subsetD])
qed

lemma drain_subset:
  "drain checks W S st fr evs L = Running L' r \<or> drain checks W S st fr evs L = Finished x L' \<Longrightarrow> set (lp_results L') \<subseteq> set (lp_results L)"
proof (induction evs arbitrary: L)
  case (Cons ev evs)
  then obtain b act where h: "handle_input checks (sw_width W) S ev (lp_app L) = Some (b, act)" by (cases "handle_input checks (sw_width W) S ev (lp_app L)") auto
  show ?case
  proof (cases "leaves_early act \<and> lp_results L = []")
    case True
    then show ?thesis using Cons.prems h by auto
  next
    case False
    let ?o = "handle_outcome checks W st fr act (L\<lparr>lp_app := b\<rparr>)"
    have d: "drain checks W S st fr (ev # evs) L = (case ?o of Running L' _ \<Rightarrow> drain checks W S st fr evs L' | r \<Rightarrow> r)" using h False by auto
    show ?thesis
    proof (cases ?o)
      case (Running L1 r1)
      then have "set (lp_results L1) \<subseteq> set (lp_results (L\<lparr>lp_app := b\<rparr>))" using outcome_subset by blast
      moreover have "set (lp_results L') \<subseteq> set (lp_results L1)" using Cons.IH Cons.prems unfolding d Running search_step.case by blast
      ultimately show ?thesis by simp
    next
      case (Finished y L1)
      then have "set (lp_results L1) \<subseteq> set (lp_results (L\<lparr>lp_app := b\<rparr>))" using outcome_subset by blast
      then show ?thesis using Cons.prems unfolding d Finished search_step.case by simp
    qed (use Cons.prems d in simp_all)
  qed
qed auto


text \<open>
  deleting the only result panics in a build that checks overflow: the selection, zero, is decremented.
\<close>

theorem only_result_panics:
  assumes "loop_inv L" "length (lp_results L) = 1" "frame_ok fr" "event_valid ev"
    "draw True fr (lp_results L) (lp_stats L \<noteq> None) (lp_inspecting L) (lp_app L) = Some a" "handle_input True (sw_width W) S ev a = Some (b, InDelete i)"
    "jumps_bottom (sw_width W) ev a \<longrightarrow> tab_index a = 0"
  shows "iteration True W S st fr [ev] L = Panicked"
proof -
  have "mid_inv L" "stats_ready L" using assms(1) by (simp_all add: loop_inv_def)
  from draw_ok [OF this assms(3), of True] have a: "mid_inv (L\<lparr>lp_app := a\<rparr>)" "tab_index a = 0 \<longrightarrow> offset_ok a" using assms(5) by auto
  then have "outcome_ok a (handle_input True (sw_width W) S ev a)" by (intro handle_input_ok) (use assms(4,7) in \<open>auto simp: mid_inv_def\<close>)
  then have b: "app_inv b" "results_len b = results_len a" unfolding assms(6) by (auto simp: outcome_ok_def same_list_def)
  have "results_len a = 1" using a(1) assms(2) by (simp add: mid_inv_def)
  then have "selected b = 0" "results_len b = 1" using b by (auto simp: app_inv_def)
  then have "do_delete True W i (L\<lparr>lp_app := b\<rparr>) = Panicked" by (simp add: do_delete_def usize_sub_def)
  moreover have "lp_results L \<noteq> []" using assms(2) by auto
  ultimately show ?thesis using assms(6) unfolding iteration_def assms(5) option.case by (simp add: handle_outcome_def)
qed

definition press :: "KeyCode \<Rightarrow> bool \<Rightarrow> KeyEvent" where
  "press c ctrl = \<lparr>ev_code = c, ev_control = ctrl, ev_alt = False, ev_shift = False, ev_super = False, ev_kind = Press\<rparr>"

lemma emacs_toggle:
  assumes "keymaps_defaults K = Some ks" "prefix_char K = ascii_char CHR ''a''"
  shows "km_resolve (ks_emacs ks) (Single (ctrl_key (KChar (ascii_char CHR ''o'')))) ctx = Some ToggleTab"
proof (rule resolve_last [OF defaults_fields(1) [OF assms(1)]])
  show "default_emacs_keymap K = [bind_to ''ctrl-c'' ReturnOriginal, bind_to ''ctrl-g'' ReturnOriginal] @ bind_to ''ctrl-o'' ToggleTab
    # bind_to ''tab'' ReturnSelection # bind_to ''esc'' Exit # bind_to ''ctrl-['' Exit # prefix_binding K # emacs_rest K"
    by (simp add: emacs_parts common_bindings_def)
  show "list_all (\<lambda>n. input_parse n \<noteq> Inr (Single (ctrl_key (KChar (ascii_char CHR ''o'')))))
    (map fst (bind_to ''tab'' ReturnSelection # bind_to ''esc'' Exit # bind_to ''ctrl-['' Exit # prefix_binding K # emacs_rest K))"
  proof -
    have "key_char (prefix_char K)" unfolding assms(2) by (simp add: key_char_def valid_char_def ascii_char_def continues_def)
    then have "input_parse (fst (prefix_binding K)) \<noteq> Inr (Single (ctrl_key (KChar (ascii_char CHR ''o''))))"
      using prefix_key [of K "Single (ctrl_key (KChar (ascii_char CHR ''o'')))"] assms(2) by (auto simp: ascii_char_def)
    moreover have "list_all (\<lambda>n. input_parse n \<noteq> Inr (Single (ctrl_key (KChar (ascii_char CHR ''o''))))) (map fst (emacs_rest K))"
      unfolding emacs_rebound using assms(2) by (auto simp: ascii_char_def)
    ultimately show ?thesis by (simp add: spec_input spec_words ascii_char_def)
  qed
qed (simp add: spec_input spec_words)

lemma inspector_up:
  assumes "keymaps_defaults K = Some ks"
  shows "km_resolve (ks_inspector ks) (Single (plain_key KUp)) ctx = Some InspectPrevious"
proof (rule resolve_last [OF defaults_fields(4) [OF assms]])
  let ?vim = "if keymap_mode K = KmVimNormal \<or> keymap_mode K = KmVimInsert then [bind_to ''j'' InspectNext, bind_to ''k'' InspectPrevious] else []"
  show "default_inspector_keymap K = [bind_to ''ctrl-c'' ReturnOriginal, bind_to ''ctrl-g'' ReturnOriginal, bind_to ''esc'' Exit, bind_to ''ctrl-['' Exit, bind_to ''tab'' ReturnSelection,
      bind_to ''ctrl-o'' ToggleTab, prefix_binding K, bind_to ''enter'' (accept_action K), bind_to ''ctrl-d'' Delete] @ bind_to ''up'' InspectPrevious
      # [bind_to ''down'' InspectNext, bind_to ''pageup'' InspectPrevious, bind_to ''pagedown'' InspectNext] @ ?vim"
    by (simp add: default_inspector_keymap_def)
  show "list_all (\<lambda>n. input_parse n \<noteq> Inr (Single (plain_key KUp))) (map fst ([bind_to ''down'' InspectNext, bind_to ''pageup'' InspectPrevious, bind_to ''pagedown'' InspectNext] @ ?vim))"
    by (simp add: spec_input spec_words)
qed (simp add: spec_input spec_words)

text \<open>
  C40: in the default emacs keymap, \<open>ctrl-o\<close> and the up key pressed before a frame is drawn between them panic, when there are results: the second draws the inspector before its statistics are loaded.
\<close>

theorem fast_inspector_panics:
  assumes "tab_index (lp_app L) = 0" "lp_results L \<noteq> []" "lp_stats L = None"
    "draw checks fr (lp_results L) False (lp_inspecting L) (lp_app L) \<noteq> None"
    "keymaps_defaults K = Some (app_keymaps (lp_app L))" "prefix_char K = ascii_char CHR ''a''" "app_keymap_mode (lp_app L) = KmEmacs"
    "\<not> app_prefix (lp_app L)" "pending_vim_key (lp_app L) = None"
  shows "iteration checks W S st fr [KeyEv (press (EvChar (ascii_char CHR ''o'')) True), KeyEv (press EvUp False)] L = Panicked"
proof -
  obtain a where d: "draw checks fr (lp_results L) False (lp_inspecting L) (lp_app L) = Some a" using assms(4) by blast
  note a = draw_keeps [OF d]
  define b where "b = a\<lparr>switched_search_mode := False, pending_vim_key := None, app_prefix := False, tab_index := 1\<rparr>"
  define c where "c = b\<lparr>inspecting_state := move_to_previous (inspecting_state b)\<rparr>"
  let ?o = "ctrl_key (KChar (ascii_char CHR ''o''))" and ?u = "plain_key KUp"
  have "from_event (press (EvChar (ascii_char CHR ''o'')) True) = Some ?o" "from_event (press EvUp False) = Some ?u"
    by (simp_all add: from_event_def event_code_def press_def ctrl_key_def plain_key_def ascii_char_def is_ascii_uppercase_def)
  moreover have "starts_sequence km ?o = None" "starts_sequence km ?u = None" for km by (simp_all add: starts_sequence_def ctrl_key_def plain_key_def)
  moreover have "km_resolve (ks_emacs (app_keymaps a)) (Single ?o) ctx = Some ToggleTab" "km_resolve (ks_inspector (app_keymaps a)) (Single ?u) ctx = Some InspectPrevious" for ctx
    using emacs_toggle [OF assms(5,6)] inspector_up [OF assms(5)] a by simp_all
  ultimately have "handle_input checks w S (KeyEv (press (EvChar (ascii_char CHR ''o'')) True)) a = Some (b, InContinue)"
      "handle_input checks w S (KeyEv (press EvUp False)) b = Some (c, InRedraw)" for w
    using a assms(1,7,8,9)
    by (simp_all add: handle_input_def handle_key_input_def press_def resolve_key_def mode_keymap_def execute_action_def b_def c_def Let_def)
  moreover have "draw checks fr (lp_results L) False (lp_inspecting L) c = None" using assms(2) by (simp add: draw_def c_def b_def)
  ultimately show ?thesis using assms(3) d by (simp add: iteration_def handle_outcome_def leaves_early_def)
qed

section \<open>Filter modes rotate\<close>

lemma rotate_loop_find:
  assumes "length (search_filters S) < 2 ^ 64" "search_filters S \<noteq> []"
  shows "i < length (search_filters S) \<Longrightarrow> rotate_loop S n i s =
    (case find (filter_mode_available S s) (map (\<lambda>j. search_filters S ! ((i + 1 + j) mod length (search_filters S))) [0..<n]) of
       Some m \<Rightarrow> s\<lparr>filter_mode := m\<rparr> | None \<Rightarrow> s)"
proof (induction n arbitrary: i)
  case (Suc n)
  let ?fs = "search_filters S" and ?k = "length (search_filters S)"
  define i1 where "i1 = (i + 1) mod ?k"
  have i1: "i1 < ?k" "((i + 1) mod 2 ^ 64) mod ?k = i1" using Suc.prems assms by (simp_all add: i1_def)
  have step: "(i1 + 1 + j) mod ?k = (i + 1 + Suc j) mod ?k" for j
  proof -
    have "(i1 + (1 + j)) mod ?k = (i + 1 + (1 + j)) mod ?k" unfolding i1_def by (rule mod_add_left_eq)
    then show ?thesis by (simp only: add.assoc plus_1_eq_Suc)
  qed
  have "[0..<Suc n] = 0 # map Suc [0..<n]" by (simp only: upt_conv_Cons [of 0 "Suc n"] map_Suc_upt zero_less_Suc)
  then have "map (\<lambda>j. ?fs ! ((i + 1 + j) mod ?k)) [0..<Suc n] = ?fs ! i1 # map (\<lambda>j. ?fs ! ((i1 + 1 + j) mod ?k)) [0..<n]"
    by (simp only: list.map map_map comp_def step i1_def [symmetric] add_0_right)
  then show ?case using Suc.IH [OF i1(1)] by (simp only: rotate_loop.simps i1(2) Let_def find.simps) simp
qed simp

lemma rotate_map: "xs \<noteq> [] \<Longrightarrow> map (\<lambda>j. xs ! ((k + j) mod length xs)) [0..<length xs] = rotate k xs"
  by (rule nth_equalityI) (simp_all add: nth_rotate)

text \<open>
  \<open>ctrl-r\<close> goes to the next filter mode of the settings that is available, in their order, around the end of the list and as far as the current one; where none is available, nothing changes.
\<close>

theorem filter_modes_rotate:
  assumes "length (search_filters S) < 2 ^ 64"
  shows "rotate_filter_mode S s =
    (case find (filter_mode_available S s)
            (rotate (case position (\<lambda>m. m = filter_mode s) (search_filters S) of Some i \<Rightarrow> i + 1 | None \<Rightarrow> 1) (search_filters S)) of
       Some m \<Rightarrow> s\<lparr>filter_mode := m\<rparr> | None \<Rightarrow> s)"
proof (cases "search_filters S = []")
  case True
  then show ?thesis by (simp add: rotate_filter_mode_def)
next
  case False
  define i where "i = (case position (\<lambda>m. m = filter_mode s) (search_filters S) of Some i \<Rightarrow> i | None \<Rightarrow> 0)"
  have i: "i < length (search_filters S)" using False by (auto simp: i_def split: option.split dest: position_less)
  have "(case position (\<lambda>m. m = filter_mode s) (search_filters S) of Some i \<Rightarrow> i + 1 | None \<Rightarrow> 1) = i + 1" by (simp add: i_def split: option.split)
  then show ?thesis unfolding rotate_filter_mode_def i_def [symmetric] using rotate_loop_find [OF assms False i] rotate_map [OF False, of "i + 1"] by simp
qed

section \<open>The popup\<close>

text \<open>
  the popup over the terminal: with the cursor on the screen, it lies within the screen and is as high as asked for or as the screen; the screen is scrolled only when the cursor is in the upper half
  and only as far as needed, and then the popup ends at the last row.
\<close>

theorem popup_on_screen:
  assumes "cursor_row \<le> term_rows" "compute_popup_placement cursor_row term_rows term_cols inline_height = (r, scroll)"
  shows "rect_y r + rect_height r \<le> term_rows \<and> rect_x r + rect_width r \<le> term_cols \<and> rect_height r = min inline_height term_rows \<and> scroll \<le> cursor_row
    \<and> (scroll > 0 \<longrightarrow> cursor_row < term_rows div 2 \<and> rect_y r + rect_height r = term_rows \<and> rect_y r + scroll = cursor_row)"
proof -
  define h where "h = min inline_height term_rows"
  have h: "h \<le> term_rows" by (simp add: h_def)
  have p: "rect_height r = h" "rect_x r = 0" "rect_width r = term_cols"
    using assms(2) by (auto simp: compute_popup_placement_def Let_def h_def split: if_splits)
  consider "h \<le> term_rows - cursor_row" "rect_y r = cursor_row" "scroll = 0"
    | "\<not> h \<le> term_rows - cursor_row" "rect_y r = cursor_row - h" "scroll = 0"
    | "\<not> h \<le> term_rows - cursor_row" "cursor_row < term_rows div 2" "scroll = h - (term_rows - cursor_row)" "rect_y r = cursor_row - scroll"
    using assms(2) by (auto simp: compute_popup_placement_def Let_def h_def split: if_splits)
  then show ?thesis unfolding p h_def [symmetric]
  proof cases
    case 3
    then have "scroll \<le> cursor_row" "rect_y r + scroll = cursor_row" "rect_y r + h = term_rows" using h assms(1) by linarith+
    then show "rect_y r + h \<le> term_rows \<and> 0 + term_cols \<le> term_cols \<and> h = h \<and> scroll \<le> cursor_row
      \<and> (0 < scroll \<longrightarrow> cursor_row < term_rows div 2 \<and> rect_y r + h = term_rows \<and> rect_y r + scroll = cursor_row)" using 3(2) by simp
  qed (use h assms(1) in simp_all)
qed

section \<open>The command in the query\<close>

text \<open>How SQLite reads a string literal, after its opening quote: a doubled quote is a quote.\<close>

fun read_literal :: "string \<Rightarrow> (string \<times> string) option" where
  "read_literal [] = None"
| "read_literal [c] = (if c = CHR 0x27 then Some ([], []) else None)"
| "read_literal (c # d # cs) =
     (if c = CHR 0x27 then (if d = CHR 0x27 then map_option (\<lambda>(s, r). (CHR 0x27 # s, r)) (read_literal cs) else Some ([], d # cs))
      else map_option (\<lambda>(s, r). (c # s, r)) (read_literal (d # cs)))"

lemma read_escaped: "read_literal (sql_escape s @ CHR 0x27 # CHR '' '' # r) = Some (s, CHR '' '' # r)"
proof (induction s)
  case (Cons c s)
  obtain d cs where e: "sql_escape s @ CHR 0x27 # CHR '' '' # r = d # cs" by (cases "sql_escape s") auto
  have "sql_escape (c # s) = (if c = CHR 0x27 then [CHR 0x27, CHR 0x27] else [c]) @ sql_escape s" by (simp add: sql_escape_def)
  then show ?case using Cons e by (cases "c = CHR 0x27") simp_all
qed (simp add: sql_escape_def)

text \<open>
  the query for all entries with a command holds the command as a string literal that reads back as the command, whatever quotes are in it, and the rest of the query follows the literal.
\<close>

theorem command_quoted:
  "\<exists>body. matching_sql command = ''select * from history where command = '' @ [CHR 0x27] @ body
     \<and> read_literal body = Some (command, '' and deleted_at is null'')"
  by (rule exI [of _ "sql_escape command @ CHR 0x27 # '' and deleted_at is null''"]) (simp add: matching_sql_def read_escaped)

section \<open>A sample search\<close>

definition sample_entry :: "string \<Rightarrow> string \<Rightarrow> History" where
  "sample_entry i c =
     \<lparr>hist_id = i, hist_timestamp = 0, hist_duration = 0, hist_exit = 0, hist_command = c, hist_cwd = ''/'', hist_session = ''s'', hist_origin = CmdOrigin_new ''h'' ''u'', hist_author = ''u'',
      hist_intent = None, hist_deleted_at = None, hist_shell = None, hist_author_kind = None\<rparr>"

definition sample_settings :: search_settings where
  "sample_settings =
     \<lparr>set_keys = standard_defaults, set_invert = False, ctrl_n_shortcuts = False, enter_accept = True, keymap_mode = KmEmacs, set_keymap = no_overrides,
      set_jumper = \<lparr>word_chars = ''a'', word_jump_mode = Emacs\<rparr>, scroll_context_lines = 1, exit_mode = ExitOriginal, search_filters = [FmGlobal, FmWorkspace, FmHost], workspaces = True,
      filter_mode_setting = None, filter_mode_up = None, shell_up_key_binding = False, requested_search_mode = RqFuzzy, requested_search_mode_up = None, smart_sort = False,
      command_chaining = False, keymap_cursor = (\<lambda>_. None), keymap_mode_shell = KmEmacs\<rparr>"

definition sample_context :: Context where
  "sample_context = \<lparr>ctx_session = ''s'', ctx_cwd = ''/'', ctx_origin = CmdOrigin_new ''h'' ''u'', ctx_host_id = [], ctx_git_root = None\<rparr>"

definition sample_keymaps :: KeymapSet where
  "sample_keymaps =
     \<lparr>ks_emacs = [(Single (plain_key KEnter), [always Accept]), (Single (plain_key KDelete), [always Delete])], ks_vim_normal = [], ks_vim_insert = [], ks_inspector = [], ks_prefix = []\<rparr>"

definition sample_app :: "KeymapSet \<Rightarrow> nat \<Rightarrow> AppState" where
  "sample_app ks n = (app_start sample_settings False sample_context FmGlobal ks ''ls'')\<lparr>results_len := n\<rparr>"

definition sample_world :: "unit search_world" where
  "sample_world =
     \<lparr>sw_width = length, sw_query = (\<lambda>_ _ _. Inr [sample_entry ''1'' ''ls'']), sw_sort = (\<lambda>_ rs. rs), sw_git = (\<lambda>_. None), sw_select = (\<lambda>_ _. Some []), sw_delete = (\<lambda>_ d. Some d),
      sw_load = (\<lambda>_ _. Some None), sw_stats = (\<lambda>_ _. Some (None, None))\<rparr>"

definition sample_loop :: "KeymapSet \<Rightarrow> History list \<Rightarrow> unit search_loop" where
  "sample_loop ks rs = \<lparr>lp_app = sample_app ks (length rs), lp_results = rs, lp_stats = None, lp_stats_for = None, lp_inspecting = None, lp_db = ()\<rparr>"

definition sample_begin :: search_start where
  "sample_begin = search_begin sample_settings sample_context ''ls'' True"

lemma sample_fields [simp]:
  "results_state (sample_app ks n) = list_default" "results_len (sample_app ks n) = n" "app_accept (sample_app ks n) = False" "app_keymap_mode (sample_app ks n) = KmEmacs"
  "app_prefix (sample_app ks n) = False" "tab_index (sample_app ks n) = 0" "pending_vim_key (sample_app ks n) = None" "app_keymaps (sample_app ks n) = ks"
  "app_search (sample_app ks n) = \<lparr>search_input = \<lparr>csource = ''ls'', cindex = 2\<rparr>, filter_mode = FmGlobal, search_context = sample_context, custom_context = None\<rparr>"
  by (simp_all add: sample_app_def app_start_def sample_settings_def is_command_chaining_def Let_def Cursor_from_def cursor_end_def)

lemma sample_list [simp]: "lst_offset list_default = 0" "lst_selected list_default = 0" "lst_max_entries list_default = 0"
  by (simp_all add: list_default_def)

lemma sample_loop_fields [simp]:
  "lp_app (sample_loop ks rs) = sample_app ks (length rs)" "lp_results (sample_loop ks rs) = rs" "lp_stats (sample_loop ks rs) = None" "lp_stats_for (sample_loop ks rs) = None"
  "lp_inspecting (sample_loop ks rs) = None"
  by (simp_all add: sample_loop_def)

lemma sample_inv: "app_inv (sample_app sample_keymaps n) \<longleftrightarrow> n < list_size"
  by (auto simp: app_inv_def cursor_ok_def is_char_boundary_def continues_def list_size_def sample_keymaps_def keymaps_u8_def keymap_u8_def always_def)

lemma sample_loop_inv: "length rs < list_size \<Longrightarrow> loop_inv (sample_loop sample_keymaps rs)"
  by (simp add: loop_inv_def mid_inv_def stats_ready_def sample_inv)

lemma sample_world_ok: "world_ok sample_world"
  by (simp add: world_ok_def sample_world_def list_size_def)

abbreviation drawn :: "KeymapSet \<Rightarrow> nat \<Rightarrow> AppState" where
  "drawn ks n \<equiv> (sample_app ks n)\<lparr>results_state := \<lparr>lst_offset = 0, lst_selected = 0, lst_max_entries = 20\<rparr>\<rparr>"

lemma sample_draw:
  assumes "length rs < 10" "rs \<noteq> []"
  shows "draw checks (80, 20) rs s None (sample_app ks (length rs)) = Some (drawn ks (length rs))"
proof -
  have "min (min 20 10) (length rs) = length rs" using assms(1) by simp
  then have "get_items_bounds checks (length rs) 0 0 20 = Some (0, 20)"
    using assms by (simp add: get_items_bounds_def usize_sub_def usize_add_def Let_def)
  then show ?thesis using assms(2) by (simp add: draw_def render_list_def usize_sub_def list_default_def)
qed

lemma sample_enter:
  "handle_input checks w S (KeyEv (press EvEnter False)) ((sample_app sample_keymaps n)\<lparr>results_state := l\<rparr>)
   = Some ((sample_app sample_keymaps n)\<lparr>results_state := l, switched_search_mode := False, pending_vim_key := None, app_prefix := False, app_accept := True\<rparr>, InAccept (lst_selected l))"
  by (simp add: handle_input_def handle_key_input_def press_def from_event_def event_code_def resolve_key_def starts_sequence_def mode_keymap_def sample_keymaps_def
      km_resolve_def plain_key_def always_def execute_action_def Let_def)

lemma sample_delete:
  "handle_input checks w S (KeyEv (press EvDelete False)) ((sample_app sample_keymaps n)\<lparr>results_state := l\<rparr>)
   = Some ((sample_app sample_keymaps n)\<lparr>results_state := l, switched_search_mode := False, pending_vim_key := None, app_prefix := False\<rparr>, InDelete (lst_selected l))"
  by (simp add: handle_input_def handle_key_input_def press_def from_event_def event_code_def resolve_key_def starts_sequence_def mode_keymap_def sample_keymaps_def
      km_resolve_def plain_key_def always_def execute_action_def Let_def)

lemma sample_no_jump: "\<not> jumps_bottom w (KeyEv (press EvEnter False)) ((sample_app sample_keymaps n)\<lparr>results_state := l\<rparr>)"
  "\<not> jumps_bottom w (KeyEv (press EvDelete False)) ((sample_app sample_keymaps n)\<lparr>results_state := l\<rparr>)"
  by (simp_all add: jumps_bottom_def press_def from_event_def event_code_def resolve_key_def starts_sequence_def mode_keymap_def sample_keymaps_def
      km_resolve_def plain_key_def always_def Let_def)

lemma press_valid [simp]: "event_valid (KeyEv (press EvEnter b))" "event_valid (KeyEv (press EvDelete b))"
  by (simp_all add: event_valid_def press_def)

lemma events_keep_state_witness: "\<exists>b act. handle_input True length sample_settings (PasteEv ''x'') (sample_app sample_keymaps 3) = Some (b, act) \<and> app_inv b"
  by (rule events_keep_state) (simp_all add: sample_inv list_size_def event_valid_def jumps_bottom_def continues_def)

lemma selection_is_drawn_witness:
  "\<exists>m. render_list True (80, 2) [sample_entry ''1'' ''a'', sample_entry ''2'' ''b'', sample_entry ''3'' ''c''] \<lparr>lst_offset = 0, lst_selected = 2, lst_max_entries = 2\<rparr> = Some m
     \<and> lst_offset m \<le> 2 \<and> 2 < lst_offset m + 2"
  using selection_is_drawn [of "\<lparr>lst_offset = 0, lst_selected = 2, lst_max_entries = 2\<rparr>" "[sample_entry ''1'' ''a'', sample_entry ''2'' ''b'', sample_entry ''3'' ''c'']" "(80, 2)" True]
  by (auto simp: list_size_def frame_ok_def)


lemma only_result_panics_witness:
  "iteration True sample_world sample_settings sample_begin (80, 20) [KeyEv (press EvDelete False)] (sample_loop sample_keymaps [sample_entry ''1'' ''a'']) = Panicked"
proof -
  let ?rs = "[sample_entry ''1'' ''a'']"
  have d: "draw True (80, 20) (lp_results (sample_loop sample_keymaps ?rs)) (lp_stats (sample_loop sample_keymaps ?rs) \<noteq> None) (lp_inspecting (sample_loop sample_keymaps ?rs))
      (lp_app (sample_loop sample_keymaps ?rs)) = Some (drawn sample_keymaps (length ?rs))"
    using sample_draw [of ?rs True False sample_keymaps] by simp
  show ?thesis
    by (rule only_result_panics [OF _ _ _ _ d sample_delete]) (simp_all add: sample_loop_inv list_size_def frame_ok_def sample_no_jump)
qed


lemma fast_inspector_panics_witness:
  "\<exists>ks. keymaps_defaults (settings_with_prefix ''a'') = Some ks \<and>
     iteration True sample_world sample_settings sample_begin (80, 20) [KeyEv (press (EvChar (ascii_char CHR ''o'')) True), KeyEv (press EvUp False)] (sample_loop ks [sample_entry ''1'' ''a'']) = Panicked"
proof -
  have p: "prefix_char (settings_with_prefix ''a'') = ascii_char CHR ''a''" "key_char (ascii_char CHR ''a'')" using sample_prefix [of "CHR ''a''"] by simp_all
  moreover have "nameable (KChar (ascii_char CHR ''a''))" by (simp add: ascii_char_def code_point_def white_space_def)
  ultimately obtain ks where ks: "keymaps_defaults (settings_with_prefix ''a'') = Some ks" using defaults_built prefix_binding_parses by metis
  have "draw True (80, 20) [sample_entry ''1'' ''a''] False None (sample_app ks 1) \<noteq> None" using sample_draw [of "[sample_entry ''1'' ''a'']" True False ks] by simp
  then have "iteration True sample_world sample_settings sample_begin (80, 20) [KeyEv (press (EvChar (ascii_char CHR ''o'')) True), KeyEv (press EvUp False)] (sample_loop ks [sample_entry ''1'' ''a'']) = Panicked"
    by (intro fast_inspector_panics [OF _ _ _ _ _ p(1)]) (simp_all add: ks)
  with ks show ?thesis by blast
qed

lemma filter_modes_rotate_witness:
  "filter_mode (rotate_filter_mode sample_settings (app_search (sample_app sample_keymaps 1))) = FmHost"
  using filter_modes_rotate [of sample_settings "app_search (sample_app sample_keymaps 1)"]
  by (simp add: sample_settings_def filter_mode_available_def sample_context_def)

lemma popup_on_screen_witness: "\<exists>r scroll. compute_popup_placement 5 24 80 20 = (r, scroll) \<and> rect_y r + rect_height r \<le> 24 \<and> scroll = 1"
proof -
  have c: "compute_popup_placement 5 24 80 20 = (\<lparr>rect_x = 0, rect_y = 4, rect_width = 80, rect_height = 20\<rparr>, 1)" by (simp add: compute_popup_placement_def)
  from popup_on_screen [OF _ c] show ?thesis unfolding c by simp
qed

end
