(* ===== verification/Pty_Protocol.thy ===== *)
theory Pty_Protocol
  imports Rmp_Codec Rust_String
begin

text \<open>
  The subscriber protocol of the PTY proxy (\<open>atuin-pty-proxy/src/protocol.rs\<close>): frames with a length in front, the payloads of
  the frame types, and screen snapshots.

  A \<open>u16\<close> is a word of 16 bits. A reader is what successive calls of \<open>read\<close> give: a chunk, an interruption or an
  error; a call takes at most as much of a chunk as its buffer holds. A panic is \<open>None\<close>.

  Shown: frames written one after the other are read back one by one, however the stream is cut into chunks and
  interrupted, and then the end is reported as such; a stream that ends inside a frame and a length beyond the limit are
  errors; the payloads of all frame types and snapshots read back, and every blob that decodes is the encoding of what it decodes to.
\<close>

section \<open>Readers\<close>

datatype read_result = Chunk bytes | Interrupted | ReadFail

datatype io_error = UnexpectedEof | InvalidData | OtherError

type_synonym reader_state = "read_result list"

text \<open>Fill a buffer of \<open>n\<close> bytes; \<open>None\<close> at the end of the stream before the first byte.\<close>

fun read_exact_or_eof :: "nat \<Rightarrow> bytes \<Rightarrow> reader_state \<Rightarrow> (io_error + bytes option) \<times> reader_state" where
  "read_exact_or_eof n acc [] =
     (if n = 0 then Inr (Some acc) else if acc = [] then Inr None else Inl UnexpectedEof, [])"
| "read_exact_or_eof n acc (e # r) =
     (if n = 0 then (Inr (Some acc), e # r)
      else case e of
        Interrupted \<Rightarrow> read_exact_or_eof n acc r
      | ReadFail \<Rightarrow> (Inl OtherError, r)
      | Chunk b \<Rightarrow>
          if b = [] then (if acc = [] then Inr None else Inl UnexpectedEof, r)
          else if length b \<le> n then read_exact_or_eof (n - length b) (acc @ b) r
          else (Inr (Some (acc @ take n b)), Chunk (drop n b) # r))"

text \<open>\<open>Read::read_exact\<close> of the standard library.\<close>

fun read_exact :: "nat \<Rightarrow> bytes \<Rightarrow> reader_state \<Rightarrow> (io_error + bytes) \<times> reader_state" where
  "read_exact n acc [] = (if n = 0 then Inr acc else Inl UnexpectedEof, [])"
| "read_exact n acc (e # r) =
     (if n = 0 then (Inr acc, e # r)
      else case e of
        Interrupted \<Rightarrow> read_exact n acc r
      | ReadFail \<Rightarrow> (Inl OtherError, r)
      | Chunk b \<Rightarrow>
          if b = [] then (Inl UnexpectedEof, r)
          else if length b \<le> n then read_exact (n - length b) (acc @ b) r
          else (Inr (acc @ take n b), Chunk (drop n b) # r))"

section \<open>Frames\<close>

type_synonym u16 = "16 word"

definition MAX_FRAME_LEN :: nat where
  "MAX_FRAME_LEN = 1024 * 1024"

definition from_be_bytes :: "bytes \<Rightarrow> nat" where
  "from_be_bytes bs = le_value (rev bs)"

definition u16_bytes :: "u16 \<Rightarrow> bytes" where
  "u16_bytes w = be_bytes 2 (unat w)"

definition u16_from :: "bytes \<Rightarrow> u16" where
  "u16_from bs = of_nat (from_be_bytes bs)"

definition MAGIC :: bytes where
  "MAGIC = [0x41, 0x50, 0x58, 0x31]"

datatype Greeting = Legacy | V2

definition classify_greeting :: "bytes \<Rightarrow> Greeting" where
  "classify_greeting first = (if first = MAGIC then V2 else Legacy)"

definition encode_frame :: "byte \<Rightarrow> bytes \<Rightarrow> bytes option" where
  "encode_frame frame_type payload =
     (if length payload \<le> MAX_FRAME_LEN then Some (frame_type # be_bytes 4 (length payload) @ payload) else None)"

definition read_frame :: "reader_state \<Rightarrow> (io_error + (byte \<times> bytes) option) \<times> reader_state" where
  "read_frame r =
     (case read_exact_or_eof 5 [] r of
        (Inl e, r) \<Rightarrow> (Inl e, r)
      | (Inr None, r) \<Rightarrow> (Inr None, r)
      | (Inr (Some header), r) \<Rightarrow>
          (let len = from_be_bytes (tl header)
           in if len > MAX_FRAME_LEN then (Inl InvalidData, r)
              else (case read_exact len [] r of
                      (Inl e, r) \<Rightarrow> (Inl e, r)
                    | (Inr payload, r) \<Rightarrow> (Inr (Some (hd header, payload)), r))))"

abbreviation FRAME_SUBSCRIBE :: byte where "FRAME_SUBSCRIBE \<equiv> 0x01"
abbreviation FRAME_INPUT :: byte where "FRAME_INPUT \<equiv> 0x02"
abbreviation FRAME_HELLO :: byte where "FRAME_HELLO \<equiv> 0x81"
abbreviation FRAME_KEYFRAME :: byte where "FRAME_KEYFRAME \<equiv> 0x82"
abbreviation FRAME_OUTPUT :: byte where "FRAME_OUTPUT \<equiv> 0x83"
abbreviation FRAME_RESIZE :: byte where "FRAME_RESIZE \<equiv> 0x84"
abbreviation FRAME_END :: byte where "FRAME_END \<equiv> 0x85"

definition subscribe_frame :: "bool \<Rightarrow> bytes \<Rightarrow> bytes option" where
  "subscribe_frame want_input token =
     (if length token < 2 ^ 16
      then encode_frame FRAME_SUBSCRIBE ((if want_input then 1 else 0) # be_bytes 2 (length token) @ token) else None)"

definition decode_subscribe :: "bytes \<Rightarrow> (bool \<times> bytes) option" where
  "decode_subscribe payload =
     (if length payload < 3 then None
      else
        (let want_input = bit (payload ! 0) 0; token_len = from_be_bytes [payload ! 1, payload ! 2]
         in if length payload \<noteq> 3 + token_len then None else Some (want_input, drop 3 payload)))"

definition hello_frame :: "bool \<Rightarrow> bytes option" where
  "hello_frame input_granted = encode_frame FRAME_HELLO [1, if input_granted then 1 else 0]"

definition decode_hello :: "bytes \<Rightarrow> (byte \<times> bool) option" where
  "decode_hello payload = (if length payload < 2 then None else Some (payload ! 0, payload ! 1 \<noteq> 0))"

definition input_frame :: "bytes \<Rightarrow> bytes option" where
  "input_frame data = encode_frame FRAME_INPUT data"

definition resize_frame :: "u16 \<Rightarrow> u16 \<Rightarrow> bytes option" where
  "resize_frame rows cols = encode_frame FRAME_RESIZE (u16_bytes rows @ u16_bytes cols)"

definition decode_resize :: "bytes \<Rightarrow> (u16 \<times> u16) option" where
  "decode_resize payload =
     (if length payload \<noteq> 4 then None
      else Some (u16_from [payload ! 0, payload ! 1], u16_from [payload ! 2, payload ! 3]))"

definition end_frame :: "bytes option" where
  "end_frame = encode_frame FRAME_END []"

section \<open>Snapshots\<close>

record Snapshot =
  snap_rows :: u16
  snap_cols :: u16
  cursor_row :: u16
  cursor_col :: u16
  rows_data :: "bytes list"

definition encode_row :: "bytes \<Rightarrow> bytes option" where
  "encode_row row = (if length row < 2 ^ 32 then Some (be_bytes 4 (length row) @ row) else None)"

fun encode_rows :: "bytes list \<Rightarrow> bytes option" where
  "encode_rows [] = Some []"
| "encode_rows (row # rows) =
     (case encode_row row of None \<Rightarrow> None | Some b \<Rightarrow> map_option (\<lambda>bs. b @ bs) (encode_rows rows))"

definition snapshot_encode :: "Snapshot \<Rightarrow> bytes option" where
  "snapshot_encode s =
     map_option (\<lambda>rows. u16_bytes (snap_rows s) @ u16_bytes (snap_cols s) @ u16_bytes (cursor_row s) @ u16_bytes (cursor_col s) @ rows)
       (encode_rows (rows_data s))"

function decode_rows :: "bytes \<Rightarrow> bytes list option" where
  "decode_rows data =
     (if data = [] then Some []
      else if length data < 4 then None
      else
        (let row_len = from_be_bytes (take 4 data); rest = drop 4 data
         in if length rest < row_len then None
            else map_option (\<lambda>rows. take row_len rest # rows) (decode_rows (drop row_len rest))))"
  by pat_completeness auto

termination
  by (relation "measure length") auto

declare decode_rows.simps [simp del]

definition snapshot_decode :: "bytes \<Rightarrow> Snapshot option" where
  "snapshot_decode data =
     (if length data < 8 then None
      else map_option (\<lambda>rows.
        \<lparr>snap_rows = u16_from (take 2 data), snap_cols = u16_from (take 2 (drop 2 data)), cursor_row = u16_from (take 2 (drop 4 data)),
         cursor_col = u16_from (take 2 (drop 6 data)), rows_data = rows\<rparr>) (decode_rows (drop 8 data)))"

definition ascii :: "string \<Rightarrow> bytes" where
  "ascii s = map (\<lambda>c. of_nat (of_char c)) s"

fun ansi_rows :: "nat \<Rightarrow> bytes list \<Rightarrow> bytes" where
  "ansi_rows i [] = []"
| "ansi_rows i (row # rows) = ascii ([CHR 0x1B] @ ''['' @ show_nat (i + 1) @ '';1H'') @ row @ ansi_rows (i + 1) rows"

definition snapshot_to_ansi :: "Snapshot \<Rightarrow> bytes" where
  "snapshot_to_ansi s =
     ascii ([CHR 0x1B] @ ''[H'' @ [CHR 0x1B] @ ''[2J'') @ ansi_rows 0 (rows_data s) @ ascii ([CHR 0x1B] @ ''[0m'') @
     ascii ([CHR 0x1B] @ ''['' @ show_nat (unat (cursor_row s) + 1) @ '';'' @ show_nat (unat (cursor_col s) + 1) @ ''H'')"

section \<open>Numbers in big-endian order\<close>

lemma length_be_bytes [simp]: "length (be_bytes n x) = n"
  by (simp add: be_bytes_def)

lemma from_be_bytes_be [simp]: "x < 256 ^ n \<Longrightarrow> from_be_bytes (be_bytes n x) = x"
  by (simp add: from_be_bytes_def be_bytes_def)

lemma le_bytes_value: "le_bytes (length bs) (le_value bs) = bs"
proof (induction bs)
  case (Cons b bs)
  have b: "unat b < 256" using unsigned_less [of b] by simp
  then have "unat (of_nat (unat b + 256 * le_value bs) :: byte) = unat b" by (simp add: unsigned_of_nat take_bit_eq_mod del: of_nat_add of_nat_mult)
  then have "of_nat (unat b + 256 * le_value bs) = b" by (rule unsigned_word_eqI)
  moreover have "(unat b + 256 * le_value bs) div 256 = le_value bs" using b by simp
  ultimately show ?case using Cons by simp
qed simp

lemma be_bytes_from: "length bs = n \<Longrightarrow> be_bytes n (from_be_bytes bs) = bs"
  using le_bytes_value [of "rev bs"] by (auto simp: be_bytes_def from_be_bytes_def)

lemma le_value_bound: "le_value bs < 256 ^ length bs"
proof (induction bs)
  case (Cons b bs)
  have "unat b < 256" using unsigned_less [of b] by simp
  then show ?case using Cons by simp
qed simp

lemma from_be_bound: "from_be_bytes bs < 256 ^ length bs"
  using le_value_bound [of "rev bs"] by (simp add: from_be_bytes_def)

lemma u16_from_bytes [simp]: "u16_from (u16_bytes w) = w"
proof -
  have "unat w < 256 ^ 2" using unsigned_less [of w] by simp
  then show ?thesis by (simp only: u16_from_def u16_bytes_def from_be_bytes_be) simp
qed

lemma u16_bytes_from: "length bs = 2 \<Longrightarrow> u16_bytes (u16_from bs) = bs"
  using from_be_bound [of bs] be_bytes_from [of bs 2] by (simp add: u16_bytes_def u16_from_def unsigned_of_nat take_bit_eq_mod)

lemma length_u16_bytes [simp]: "length (u16_bytes w) = 2"
  by (simp add: u16_bytes_def)

section \<open>Reading from a stream\<close>

text \<open>A stream that does not fail, and what it carries.\<close>

fun clean :: "reader_state \<Rightarrow> bool" where
  "clean [] \<longleftrightarrow> True"
| "clean (Chunk b # r) \<longleftrightarrow> b \<noteq> [] \<and> clean r"
| "clean (Interrupted # r) \<longleftrightarrow> clean r"
| "clean (ReadFail # r) \<longleftrightarrow> False"

fun carried :: "reader_state \<Rightarrow> bytes" where
  "carried [] = []"
| "carried (Chunk b # r) = b @ carried r"
| "carried (_ # r) = carried r"

lemma read_exact_or_eof_carried:
  "clean r \<Longrightarrow> \<exists>r'. clean r' \<and> read_exact_or_eof n acc r =
     (if n \<le> length (carried r) then Inr (Some (acc @ take n (carried r))) else if acc @ carried r = [] then Inr None else Inl UnexpectedEof, r')
     \<and> carried r' = drop n (carried r)"
proof (induction n acc r rule: read_exact_or_eof.induct)
  case (2 n acc e r)
  show ?case
  proof (cases "n = 0")
    case False
    then show ?thesis using 2 by (cases e) (fastforce simp: not_le)+
  qed (use 2 in \<open>auto intro: exI [of _ "e # r"]\<close>)
qed auto

lemma read_exact_carried:
  "clean r \<Longrightarrow> \<exists>r'. clean r' \<and> read_exact n acc r =
     (if n \<le> length (carried r) then Inr (acc @ take n (carried r)) else Inl UnexpectedEof, r') \<and> carried r' = drop n (carried r)"
proof (induction n acc r rule: read_exact.induct)
  case (2 n acc e r)
  show ?case
  proof (cases "n = 0")
    case False
    then show ?thesis using 2 by (cases e) (fastforce simp: not_le)+
  qed (use 2 in \<open>auto intro: exI [of _ "e # r"]\<close>)
qed auto

text \<open>The frame at the front of a sequence of bytes.\<close>

definition frame_at :: "bytes \<Rightarrow> io_error + (byte \<times> bytes) option" where
  "frame_at s =
     (if s = [] then Inr None
      else if length s < 5 then Inl UnexpectedEof
      else let len = from_be_bytes (take 4 (drop 1 s))
           in if len > MAX_FRAME_LEN then Inl InvalidData
              else if length s < 5 + len then Inl UnexpectedEof
              else Inr (Some (hd s, take len (drop 5 s))))"

lemma read_frame_at:
  assumes "clean r"
  shows "\<exists>r'. clean r' \<and> read_frame r = (frame_at (carried r), r') \<and>
    (\<forall>t p. frame_at (carried r) = Inr (Some (t, p)) \<longrightarrow> carried r' = drop (5 + length p) (carried r))"
proof -
  let ?s = "carried r"
  obtain r1 where r1: "clean r1" "read_exact_or_eof 5 [] r = (if 5 \<le> length ?s then Inr (Some (take 5 ?s)) else if ?s = [] then Inr None else Inl UnexpectedEof, r1)"
    "carried r1 = drop 5 ?s"
    using read_exact_or_eof_carried [OF assms, of 5 "[]"] by auto
  show ?thesis
  proof (cases "5 \<le> length ?s")
    case False
    then show ?thesis using r1 by (auto simp: read_frame_def frame_at_def)
  next
    case True
    let ?len = "from_be_bytes (take 4 (drop 1 ?s))"
    have hd: "hd (take 5 ?s) = hd ?s" "tl (take 5 ?s) = take 4 (drop 1 ?s)" "?s \<noteq> []" using True by (auto simp: take_Suc numeral_eq_Suc tl_take drop_Suc)
    obtain r2 where r2: "clean r2" "read_exact ?len [] r1 = (if ?len \<le> length (drop 5 ?s) then Inr (take ?len (drop 5 ?s)) else Inl UnexpectedEof, r2)"
      "carried r2 = drop ?len (drop 5 ?s)"
      using read_exact_carried [OF r1(1), of ?len "[]"] r1(3) by auto
    show ?thesis
    proof (cases "?len > MAX_FRAME_LEN")
      case big: True
      then show ?thesis using r1 True hd by (auto simp: read_frame_def frame_at_def Let_def)
    next
      case small: False
      have "read_frame r = (if ?len \<le> length (drop 5 ?s) then Inr (Some (hd ?s, take ?len (drop 5 ?s))) else Inl UnexpectedEof, r2)"
        using r1 r2 True hd small by (simp add: read_frame_def Let_def)
      moreover have "frame_at ?s = (if ?len \<le> length (drop 5 ?s) then Inr (Some (hd ?s, take ?len (drop 5 ?s))) else Inl UnexpectedEof)"
        using True hd(3) small by (auto simp: frame_at_def Let_def)
      ultimately show ?thesis using r2 by (auto simp: add.commute)
    qed
  qed
qed

lemma frame_at_encoded: "encode_frame t p = Some f \<Longrightarrow> frame_at (f @ rest) = Inr (Some (t, p)) \<and> drop (5 + length p) (f @ rest) = rest"
  by (auto simp: encode_frame_def frame_at_def MAX_FRAME_LEN_def split: if_splits)

fun read_frames :: "nat \<Rightarrow> reader_state \<Rightarrow> (io_error + (byte \<times> bytes) list) \<times> reader_state" where
  "read_frames 0 r = (Inr [], r)"
| "read_frames (Suc n) r =
     (case read_frame r of
        (Inl e, r) \<Rightarrow> (Inl e, r)
      | (Inr None, r) \<Rightarrow> (Inl UnexpectedEof, r)
      | (Inr (Some f), r) \<Rightarrow> (case read_frames n r of (Inl e, r) \<Rightarrow> (Inl e, r) | (Inr fs, r) \<Rightarrow> (Inr (f # fs), r)))"

section \<open>Payloads and snapshots\<close>

lemma two_elements: "length xs = 2 \<Longrightarrow> \<exists>a b. xs = [a, b]"
  by (cases xs; cases "tl xs") auto

lemma subscribe_payload:
  assumes "subscribe_frame w t = Some f"
  shows "\<exists>p. encode_frame FRAME_SUBSCRIBE p = Some f \<and> decode_subscribe p = Some (w, t)"
proof -
  have f: "length t < 256 ^ 2" "encode_frame FRAME_SUBSCRIBE ((if w then 1 else 0) # be_bytes 2 (length t) @ t) = Some f"
    using assms by (auto simp: subscribe_frame_def split: if_splits)
  obtain a b where ab: "be_bytes 2 (length t) = [a, b]" using two_elements [OF length_be_bytes [of 2 "length t"]] by blast
  then have "from_be_bytes [a, b] = length t" using from_be_bytes_be [OF f(1)] by simp
  then show ?thesis using f(2) ab by (intro exI [of _ "(if w then 1 else 0) # be_bytes 2 (length t) @ t"]) (simp add: decode_subscribe_def Let_def)
qed

lemma hello_payload: "\<exists>p. hello_frame g = encode_frame FRAME_HELLO p \<and> decode_hello p = Some (1, g)"
  by (rule exI [of _ "[1, if g then 1 else 0]"]) (simp add: hello_frame_def decode_hello_def)

lemma resize_payload: "\<exists>p. resize_frame a b = encode_frame FRAME_RESIZE p \<and> decode_resize p = Some (a, b)"
proof -
  obtain a1 a2 b1 b2 where "u16_bytes a = [a1, a2]" "u16_bytes b = [b1, b2]"
    using two_elements [OF length_u16_bytes [of a]] two_elements [OF length_u16_bytes [of b]] by blast
  then show ?thesis using u16_from_bytes [of a] u16_from_bytes [of b] by (intro exI [of _ "u16_bytes a @ u16_bytes b"]) (simp add: resize_frame_def decode_resize_def)
qed

lemma decode_encoded_rows: "encode_rows rows = Some b \<Longrightarrow> decode_rows b = Some rows"
proof (induction rows arbitrary: b)
  case (Cons row rows)
  then obtain bs where bs: "length row < 256 ^ 4" "encode_rows rows = Some bs" "b = be_bytes 4 (length row) @ row @ bs"
    by (auto simp: encode_row_def split: if_splits)
  then show ?case using Cons.IH [OF bs(2)] by (subst decode_rows.simps) (auto simp: Let_def simp flip: length_0_conv)
qed (simp add: decode_rows.simps)

lemma encode_decoded_rows: "decode_rows b = Some rows \<Longrightarrow> encode_rows rows = Some b"
proof (induction b arbitrary: rows rule: decode_rows.induct)
  case (1 b)
  show ?case
  proof (cases "b = []")
    case True
    then show ?thesis using 1(2) by (simp add: decode_rows.simps)
  next
    case False
    let ?n = "from_be_bytes (take 4 b)" and ?rest = "drop 4 b"
    have ok: "\<not> length b < 4" "\<not> length ?rest < ?n" and d: "map_option (\<lambda>rows. take ?n ?rest # rows) (decode_rows (drop ?n ?rest)) = Some rows"
      using 1(2) False by (auto simp: decode_rows.simps [of b] Let_def split: if_splits)
    obtain rs where rs: "decode_rows (drop ?n ?rest) = Some rs" "rows = take ?n ?rest # rs" using d by auto
    have "encode_rows rs = Some (drop ?n ?rest)" using 1(1) False ok rs(1) by blast
    moreover have "?n < 2 ^ 32" using from_be_bound [of "take 4 b"] ok by simp
    moreover have "be_bytes 4 ?n = take 4 b" using be_bytes_from [of "take 4 b" 4] ok by simp
    moreover have "take 4 b @ take ?n ?rest @ drop ?n ?rest = b" by (simp del: drop_drop)
    ultimately show ?thesis using rs(2) ok by (simp add: encode_row_def del: drop_drop)
  qed
qed

section \<open>Theorems\<close>

text \<open>
  C31: Frames written one after the other are read back one by one, with their types and payloads, however the stream is cut into
  chunks and however often a read is interrupted; after the last one the reader sees the end of the stream.
\<close>

theorem frames_read_back:
  assumes "clean r" "list_all2 (\<lambda>(t, p) f. encode_frame t p = Some f) fs encoded" "carried r = concat encoded"
  shows "\<exists>r'. read_frames (length fs) r = (Inr fs, r') \<and> fst (read_frame r') = Inr None"
  using assms(2,1,3)
proof (induction fs encoded arbitrary: r rule: list_all2_induct)
  case Nil
  then show ?case using read_frame_at [of r] by (auto simp: frame_at_def)
next
  case (Cons tp fs f encoded)
  obtain t p where tp: "tp = (t, p)" by fastforce
  note at = frame_at_encoded [of t p f "concat encoded"]
  obtain r' where r': "clean r'" "read_frame r = (Inr (Some (t, p)), r')" "carried r' = concat encoded"
    using read_frame_at [OF Cons.prems(1)] at Cons.hyps(1) Cons.prems(2) tp by (auto simp del: drop_append)
  show ?case using Cons.IH [OF r'(1,3)] r'(2) tp by auto
qed

lemma small_lengths: "be_bytes 4 0 = [0, 0, 0, 0]" "be_bytes 4 (Suc 0) = [0, 0, 0, 1]"
proof -
  have "(4 :: nat) = Suc (Suc (Suc (Suc 0)))" by simp
  then show "be_bytes 4 0 = [0, 0, 0, 0]" "be_bytes 4 (Suc 0) = [0, 0, 0, 1]" by (simp_all only: be_bytes_def) simp_all
qed

theorem frames_read_back_witness:
  "\<exists>r'. read_frames 2 [Chunk [0x85, 0, 0], Interrupted, Chunk [0, 0, 0x83, 0, 0, 0], Chunk [1, 7]] = (Inr [(0x85, []), (0x83, [7])], r')
    \<and> fst (read_frame r') = Inr None"
  using frames_read_back [of "[Chunk [0x85, 0, 0], Interrupted, Chunk [0, 0, 0x83, 0, 0, 0], Chunk [1, 7]]" "[(0x85, []), (0x83, [7])]"
      "[[0x85, 0, 0, 0, 0], [0x83, 0, 0, 0, 1, 7]]"]
  by (simp add: encode_frame_def MAX_FRAME_LEN_def small_lengths numeral_2_eq_2 del: read_frames.simps)

text \<open>
  A blob decodes to a snapshot exactly when it is that snapshot's encoding: snapshots read back, and no blob that is
  cut or carries more than the rows it announces is accepted.
\<close>

theorem snapshot_decodes_encoding: "snapshot_decode b = Some s \<longleftrightarrow> snapshot_encode s = Some b"
proof
  assume "snapshot_encode s = Some b"
  then obtain rows where rows: "encode_rows (rows_data s) = Some rows"
    "b = u16_bytes (snap_rows s) @ u16_bytes (snap_cols s) @ u16_bytes (cursor_row s) @ u16_bytes (cursor_col s) @ rows"
    by (auto simp: snapshot_encode_def)
  have "take 2 (drop 2 b) = u16_bytes (snap_cols s)" "take 2 (drop 4 b) = u16_bytes (cursor_row s)" "take 2 (drop 6 b) = u16_bytes (cursor_col s)"
    "take 2 b = u16_bytes (snap_rows s)" "drop 8 b = rows" "8 \<le> length b" by (simp_all add: rows(2))
  then show "snapshot_decode b = Some s" using decode_encoded_rows [OF rows(1)] by (simp add: snapshot_decode_def)
next
  assume d: "snapshot_decode b = Some s"
  then obtain rows where rows: "8 \<le> length b" "decode_rows (drop 8 b) = Some rows"
    "s = \<lparr>snap_rows = u16_from (take 2 b), snap_cols = u16_from (take 2 (drop 2 b)), cursor_row = u16_from (take 2 (drop 4 b)),
         cursor_col = u16_from (take 2 (drop 6 b)), rows_data = rows\<rparr>"
    by (auto simp: snapshot_decode_def split: if_splits)
  have d: "drop 4 b = drop 2 (drop 2 b)" "drop 6 b = drop 2 (drop 4 b)" "drop 8 b = drop 2 (drop 6 b)" by simp_all
  have "take 2 b @ take 2 (drop 2 b) @ take 2 (drop 4 b) @ take 2 (drop 6 b) @ drop 8 b = b"
    by (simp only: d append_take_drop_id)
  then show "snapshot_encode s = Some b" using rows(1) encode_decoded_rows [OF rows(2)] by (simp add: snapshot_encode_def rows(3) u16_bytes_from)
qed

end
