(* ===== verification/Tui_Popup.thy ===== *)
theory Tui_Popup
  imports Tui_Search Pty_Protocol
begin

text \<open>
  The search as a popup over the terminal, under the PTY proxy: \<open>fetch_screen_state\<close>, \<open>restore_popup_area\<close> and the scrolling of \<open>history()\<close> in
  \<open>atuin/src/command/client/search/interactive.rs\<close>. The screen comes from the proxy as a snapshot (\<open>Pty_Protocol\<close>), the place of the popup from \<open>Tui_Search\<close>.

  A terminal's screen is the list of its rows, each the bytes that draw it, the empty list for a blank one; a line feed on the last row scrolls by one.

  Shown: the snapshot the proxy writes is read back, and when the popup goes the screen is as it was before, moved up by the rows it was scrolled by, with the cursor
  on the same line.
\<close>

section \<open>The saved screen\<close>

type_synonym SavedScreen = Snapshot

function screen_rows :: "bytes \<Rightarrow> bytes list" where
  "screen_rows data =
     (if length data < 4 then []
      else
        (let row_len = from_be_bytes (take 4 data); rest = drop 4 data
         in if length rest < row_len then [] else take row_len rest # screen_rows (drop row_len rest)))"
  by pat_completeness auto

termination
  by (relation "measure length") auto

declare screen_rows.simps [simp del]

definition fetch_screen_state :: "bytes \<Rightarrow> SavedScreen option" where
  "fetch_screen_state data =
     (if length data < 8 then None
      else Some \<lparr>snap_rows = u16_from (take 2 data), snap_cols = u16_from (take 2 (drop 2 data)), cursor_row = u16_from (take 2 (drop 4 data)),
                 cursor_col = u16_from (take 2 (drop 6 data)), rows_data = screen_rows (drop 8 data)\<rparr>)"

lemma screen_rows_decoded: "decode_rows b = Some rows \<Longrightarrow> screen_rows b = rows"
proof (induction b arbitrary: rows rule: decode_rows.induct)
  case (1 b)
  show ?case
  proof (cases "b = []")
    case True
    then show ?thesis using 1(2) by (simp add: decode_rows.simps screen_rows.simps)
  next
    case False
    then have ok: "\<not> length b < 4" "\<not> length (drop 4 b) < from_be_bytes (take 4 b)" using 1(2) by (auto simp: decode_rows.simps [of b] Let_def split: if_splits)
    then obtain rs where "decode_rows (drop (from_be_bytes (take 4 b)) (drop 4 b)) = Some rs" "rows = take (from_be_bytes (take 4 b)) (drop 4 b) # rs"
      using 1(2) False by (auto simp: decode_rows.simps [of b] Let_def split: if_splits)
    then show ?thesis using 1(1) [OF False ok(1) refl refl ok(2)] ok by (subst screen_rows.simps) (simp add: Let_def)
  qed
qed

text \<open>The popup code reads what \<open>Snapshot::decode\<close> reads; where the rows are cut off, it keeps those before.\<close>

lemma fetch_decoded: "snapshot_decode b = Some s \<Longrightarrow> fetch_screen_state b = Some s"
  by (auto simp: snapshot_decode_def fetch_screen_state_def screen_rows_decoded split: if_splits)

section \<open>The screen under the popup\<close>

type_synonym screen = "bytes list"

definition scroll_terminal :: "nat \<Rightarrow> screen \<Rightarrow> screen" where
  "scroll_terminal n scr = drop n scr @ replicate (min n (length scr)) []"

text \<open>Whatever is drawn in the popup, row by row.\<close>

definition draw_popup :: "Rect \<Rightarrow> (nat \<Rightarrow> bytes) \<Rightarrow> screen \<Rightarrow> screen" where
  "draw_popup r content scr = foldl (\<lambda>scr dy. scr[rect_y r + dy := content dy]) scr [0..<rect_height r]"

definition restored_row :: "SavedScreen \<Rightarrow> nat \<Rightarrow> nat \<Rightarrow> bytes" where
  "restored_row saved scroll target = (let source = (target + scroll) mod 2 ^ 16 in if source < length (rows_data saved) then rows_data saved ! source else [])"

definition restore_popup_area :: "SavedScreen \<Rightarrow> Rect \<Rightarrow> nat \<Rightarrow> screen \<Rightarrow> screen \<times> (nat \<times> nat)" where
  "restore_popup_area saved r scroll scr =
     (foldl (\<lambda>scr dy. scr[rect_y r + dy := restored_row saved scroll (rect_y r + dy)]) scr [0..<rect_height r],
      (unat (cursor_row saved) - scroll, unat (cursor_col saved)))"

lemma rows_written:
  "length (foldl (\<lambda>scr dy. scr[y + dy := f dy]) scr [0..<h]) = length scr"
  "t < length scr \<Longrightarrow> foldl (\<lambda>scr dy. scr[y + dy := f dy]) scr [0..<h] ! t = (if y \<le> t \<and> t < y + h then f (t - y) else scr ! t)"
proof -
  show len: "length (foldl (\<lambda>scr dy. scr[y + dy := f dy]) scr [0..<h]) = length scr" for h by (induction h) simp_all
  show "t < length scr \<Longrightarrow> foldl (\<lambda>scr dy. scr[y + dy := f dy]) scr [0..<h] ! t = (if y \<le> t \<and> t < y + h then f (t - y) else scr ! t)"
  proof (induction h)
    case (Suc h)
    then show ?case using len [of h] by (cases "t = y + h") (auto simp: nth_list_update)
  qed auto
qed

lemma length_scroll [simp]: "length (scroll_terminal n scr) = length scr"
  by (simp add: scroll_terminal_def)

lemma nth_scroll: "t < length scr \<Longrightarrow> scroll_terminal n scr ! t = (if t + n < length scr then scr ! (t + n) else [])"
proof -
  assume t: "t < length scr"
  then have "t - (length scr - n) < min n (length scr)" if "\<not> t < length scr - n" using that by linarith
  then show ?thesis using t by (auto simp: scroll_terminal_def nth_append add.commute)
qed

lemma restore_rows:
  assumes "rows_data saved = scr" "length scr + scroll \<le> 2 ^ 16"
  shows "fst (restore_popup_area saved r scroll (draw_popup r content (scroll_terminal scroll scr))) = scroll_terminal scroll scr"
proof (rule nth_equalityI)
  show "length (fst (restore_popup_area saved r scroll (draw_popup r content (scroll_terminal scroll scr)))) = length (scroll_terminal scroll scr)"
    by (simp add: restore_popup_area_def draw_popup_def rows_written)
  fix t
  assume "t < length (fst (restore_popup_area saved r scroll (draw_popup r content (scroll_terminal scroll scr))))"
  then have t: "t < length scr" by (simp add: restore_popup_area_def draw_popup_def rows_written)
  have "restored_row saved scroll t = scroll_terminal scroll scr ! t" using t assms by (simp add: restored_row_def nth_scroll)
  then show "fst (restore_popup_area saved r scroll (draw_popup r content (scroll_terminal scroll scr))) ! t = scroll_terminal scroll scr ! t"
    using t by (simp add: restore_popup_area_def draw_popup_def rows_written)
qed

text \<open>
  C39: the popup leaves the screen as it was. The proxy encodes its screen, the search reads it, scrolls the terminal where the popup needs room, and draws in the popup whatever it likes; then what it
  restores is the screen that the proxy had, moved up by the rows scrolled, and the cursor is on the line it was on.
\<close>

theorem popup_restores_screen:
  assumes "snapshot_encode snap = Some sent" "rows_data snap = scr" "length scr = unat (snap_rows snap)" "unat (snap_rows snap) < 2 ^ 15" "cursor_row snap < snap_rows snap"
    "compute_popup_placement (unat (cursor_row snap)) (length scr) term_cols inline_height = (r, scroll)"
  shows "\<exists>saved row col. fetch_screen_state sent = Some saved
    \<and> restore_popup_area saved r scroll (draw_popup r content (scroll_terminal scroll scr)) = (scroll_terminal scroll scr, (row, col))
    \<and> scroll_terminal scroll scr ! row = scr ! unat (cursor_row snap) \<and> col = unat (cursor_col snap)"
proof -
  have "scroll \<le> unat (cursor_row snap)"
  proof -
    have "scroll = 0 \<or> scroll = min inline_height (length scr) - (length scr - unat (cursor_row snap))"
      using assms(6) by (auto simp: compute_popup_placement_def Let_def split: if_splits)
    then show ?thesis by linarith
  qed
  moreover have c: "unat (cursor_row snap) < length scr" using assms(3,5) by (simp add: word_less_nat_alt)
  ultimately have row: "scroll_terminal scroll scr ! (unat (cursor_row snap) - scroll) = scr ! unat (cursor_row snap)" "length scr + scroll \<le> 2 ^ 16"
    using assms(3,4) by (simp_all add: nth_scroll)
  obtain rows where rows: "encode_rows (rows_data snap) = Some rows"
    "sent = u16_bytes (snap_rows snap) @ u16_bytes (snap_cols snap) @ u16_bytes (cursor_row snap) @ u16_bytes (cursor_col snap) @ rows"
    using assms(1) by (auto simp: snapshot_encode_def)
  have "fetch_screen_state sent = Some snap"
    using screen_rows_decoded [OF decode_encoded_rows [OF rows(1)]] by (simp add: fetch_screen_state_def rows(2) u16_from_bytes)
  moreover have "fst (restore_popup_area snap r scroll (draw_popup r content (scroll_terminal scroll scr))) = scroll_terminal scroll scr"
    using assms(2) row(2) by (rule restore_rows)
  ultimately show ?thesis using row(1) by (simp add: restore_popup_area_def)
qed

lemma popup_restores_screen_witness:
  "let snap = \<lparr>snap_rows = 4, snap_cols = 80, cursor_row = 1, cursor_col = 7, rows_data = [[1], [2], [], []]\<rparr>
   in \<exists>sent saved. snapshot_encode snap = Some sent \<and> fetch_screen_state sent = Some saved
      \<and> restore_popup_area saved \<lparr>rect_x = 0, rect_y = 0, rect_width = 80, rect_height = 4\<rparr> 1 [[9], [9], [9], [9]] = ([[2], [], [], []], (0, 7))"
proof -
  let ?snap = "\<lparr>snap_rows = 4, snap_cols = 80, cursor_row = 1, cursor_col = 7, rows_data = [[1], [2], [], []]\<rparr> :: Snapshot"
  let ?r = "\<lparr>rect_x = 0, rect_y = 0, rect_width = 80, rect_height = 4\<rparr>"
  obtain sent where sent: "snapshot_encode ?snap = Some sent" by (simp add: snapshot_encode_def encode_row_def)
  have p: "compute_popup_placement (unat (cursor_row ?snap)) (length [[1], [2], [], [] :: bytes]) 80 4 = (?r, 1)" by (simp add: compute_popup_placement_def)
  have d: "draw_popup ?r (\<lambda>_. [9]) (scroll_terminal 1 [[1], [2], [], []]) = [[9], [9], [9], [9]]"
    by (simp add: draw_popup_def scroll_terminal_def upt_rec numeral_eq_Suc)
  have "scroll_terminal 1 [[1], [2], [], []] = [[2], [], [], [] :: bytes]" by (simp add: scroll_terminal_def)
  then obtain saved row col where s: "fetch_screen_state sent = Some saved" "restore_popup_area saved ?r 1 [[9], [9], [9], [9]] = ([[2], [], [], []], (row, col))"
      "col = unat (cursor_col ?snap)"
    using popup_restores_screen [OF sent _ _ _ _ p, of "\<lambda>_. [9]"] d by auto
  have "fetch_screen_state sent = Some ?snap"
    using fetch_decoded [of sent ?snap] sent decode_encoded_rows [of "[[1], [2], [], []]"]
    by (auto simp: snapshot_encode_def snapshot_decode_def u16_from_bytes)
  then have "row = 0" using s(1,2) by (auto simp: restore_popup_area_def)
  then show ?thesis using sent s by (auto simp: Let_def)
qed

end
