(* ===== verification/Server_Db.thy ===== *)
theory Server_Db
  imports Record_Log
begin

text \<open>
  The server's database interface (\<open>atuin-server-database/src/lib.rs\<close>, the trait \<open>Database\<close>, and
  \<open>models.rs\<close>) and its SQLite implementation (\<open>atuin-server-sqlite/src/lib.rs\<close>).

  The trait is the record \<open>database\<close> of operations over a state. The tables of the SQLite server
  are \<open>server_tables\<close>: users, sessions, the store with the owner of each row, and the history
  table of the old sync protocol, of which the code only deletes rows. A store row's surrogate
  key is a fresh UUID that nothing reads and is left out.

  What the record handlers and the sync engine rely on is the locale \<open>record_database\<close>: every
  user's rows are a log of their own, which \<open>add_records\<close> extends and the queries read. The
  SQLite and the Postgres server both are instances.
\<close>

section \<open>The trait\<close>

datatype DbError = NotFound | OtherDb string

record User =
  user_id :: int
  username :: string
  email :: string
  password :: string

record Session =
  session_id :: int
  session_user :: int
  session_token :: string

record NewUser =
  nu_username :: string
  nu_email :: string
  nu_password :: string

record NewSession =
  ns_user_id :: int
  ns_token :: string

record 's database =
  db_get_session :: "string \<Rightarrow> ('s, DbError, Session) io"
  db_get_session_user :: "string \<Rightarrow> ('s, DbError, User) io"
  db_add_session :: "NewSession \<Rightarrow> ('s, DbError, unit) io"
  db_get_user :: "string \<Rightarrow> ('s, DbError, User) io"
  db_get_user_session :: "User \<Rightarrow> ('s, DbError, Session) io"
  db_add_user :: "NewUser \<Rightarrow> ('s, DbError, int) io"
  db_update_user_password :: "User \<Rightarrow> ('s, DbError, unit) io"
  db_delete_user :: "User \<Rightarrow> ('s, DbError, unit) io"
  db_delete_store :: "User \<Rightarrow> ('s, DbError, unit) io"
  db_add_records :: "User \<Rightarrow> EncryptedRecord list \<Rightarrow> ('s, DbError, unit) io"
  db_next_records :: "User \<Rightarrow> RecordSeriesKey \<Rightarrow> RecordIdx option \<Rightarrow> nat \<Rightarrow> ('s, DbError, EncryptedRecord list) io"
  db_status :: "User \<Rightarrow> ('s, DbError, RecordStatus) io"

section \<open>Tables\<close>

type_synonym store_table = "(int \<times> db_row) list"

record server_tables =
  users :: "User list"
  users_seq :: int
  sessions :: "Session list"
  sessions_seq :: int
  user_store :: store_table
  history_rows :: "(int \<times> string) list"

type_synonym ('x, 'a) server_io = "('x server_tables_scheme db, DbError, 'a) io"
type_synonym 'a sqlite_io = "(unit, 'a) server_io"

definition user_rows :: "store_table \<Rightarrow> int \<Rightarrow> db_row list" where
  "user_rows st u = map snd (filter (\<lambda>x. fst x = u) st)"

text \<open>\<open>insert ... on conflict do nothing\<close> under the unique index on (user, host, tag, idx).\<close>

definition store_insert :: "int \<Rightarrow> db_row \<Rightarrow> store_table \<Rightarrow> store_table" where
  "store_insert u w st = (if \<exists>x \<in> set st. fst x = u \<and> row_clash w (snd x) then st else st @ [(u, w)])"

text \<open>SQLite's \<open>LOWER\<close> folds the ASCII letters.\<close>

definition ascii_lower :: "string \<Rightarrow> string" where
  "ascii_lower = map (\<lambda>c. if 65 \<le> (of_char c :: nat) \<and> (of_char c :: nat) \<le> 90 then char_of ((of_char c :: nat) + 32) else c)"

text \<open>The unique constraints on users: name and email, as written and in lower case, and password hash.\<close>

definition user_clash :: "(string \<Rightarrow> string) \<Rightarrow> NewUser \<Rightarrow> User \<Rightarrow> bool" where
  "user_clash lower n u \<longleftrightarrow> nu_username n = username u \<or> lower (nu_username n) = lower (username u)
     \<or> nu_email n = email u \<or> lower (nu_email n) = lower (email u) \<or> nu_password n = password u"

section \<open>The SQLite implementation\<close>

text \<open>\<open>fetch_one\<close>: the first row, or \<open>RowNotFound\<close>, which \<open>From<sqlx::Error>\<close> turns into \<open>NotFound\<close>.\<close>

definition db_fetch_one :: "('t \<Rightarrow> 'a list) \<Rightarrow> ('t db, DbError, 'a) io" where
  "db_fetch_one q =
     bind_io (map_err OtherDb (sql_query q)) (\<lambda>xs. case xs of [] \<Rightarrow> fail_io NotFound | x # _ \<Rightarrow> ok_io x)"

text \<open>An insert that returns the new id, or fails on a unique constraint.\<close>

definition db_insert :: "('t \<Rightarrow> (int \<times> 't) option) \<Rightarrow> ('t db, DbError, int) io" where
  "db_insert f =
     bind_io (map_err OtherDb (sql (\<lambda>t. case f t of None \<Rightarrow> (None, t) | Some (i, t') \<Rightarrow> (Some i, t'))))
       (\<lambda>r. case r of None \<Rightarrow> fail_io (OtherDb ''UNIQUE constraint failed'') | Some i \<Rightarrow> ok_io i)"

definition sqlite_get_session :: "string \<Rightarrow> ('x, Session) server_io" where
  "sqlite_get_session tok = db_fetch_one (\<lambda>t. filter (\<lambda>s. session_token s = tok) (sessions t))"

text \<open>The rows of \<open>users inner join sessions\<close> with the given token.\<close>

definition session_join :: "string \<Rightarrow> 'x server_tables_scheme \<Rightarrow> User list" where
  "session_join tok t =
     concat (map (\<lambda>u. map (\<lambda>_. u) (filter (\<lambda>s. user_id u = session_user s \<and> session_token s = tok) (sessions t))) (users t))"

definition sqlite_get_session_user :: "string \<Rightarrow> ('x, User) server_io" where
  "sqlite_get_session_user tok = db_fetch_one (session_join tok)"

definition insert_session :: "NewSession \<Rightarrow> 'x server_tables_scheme \<Rightarrow> (int \<times> 'x server_tables_scheme) option" where
  "insert_session n t =
     (if ns_token n \<in> session_token ` set (sessions t) then None
      else Some (sessions_seq t + 1,
             t\<lparr>sessions := sessions t @ [\<lparr>session_id = sessions_seq t + 1, session_user = ns_user_id n, session_token = ns_token n\<rparr>],
               sessions_seq := sessions_seq t + 1\<rparr>))"

definition sqlite_add_session :: "NewSession \<Rightarrow> ('x, unit) server_io" where
  "sqlite_add_session n = bind_io (db_insert (insert_session n)) (\<lambda>_. ok_io ())"

definition sqlite_get_user :: "string \<Rightarrow> ('x, User) server_io" where
  "sqlite_get_user name = db_fetch_one (\<lambda>t. filter (\<lambda>u. username u = name) (users t))"

definition sqlite_get_user_session :: "User \<Rightarrow> ('x, Session) server_io" where
  "sqlite_get_user_session u = db_fetch_one (\<lambda>t. filter (\<lambda>s. session_user s = user_id u) (sessions t))"

definition insert_user :: "(string \<Rightarrow> string) \<Rightarrow> NewUser \<Rightarrow> 'x server_tables_scheme \<Rightarrow> (int \<times> 'x server_tables_scheme) option" where
  "insert_user lower n t =
     (if \<exists>u \<in> set (users t). user_clash lower n u then None
      else Some (users_seq t + 1,
             t\<lparr>users := users t @ [\<lparr>user_id = users_seq t + 1, username = nu_username n, email = nu_email n, password = nu_password n\<rparr>],
               users_seq := users_seq t + 1\<rparr>))"

definition sqlite_add_user :: "NewUser \<Rightarrow> int sqlite_io" where
  "sqlite_add_user n = db_insert (insert_user ascii_lower n)"

text \<open>The update fails on the unique constraint if another user has that password hash.\<close>

definition update_password :: "User \<Rightarrow> 'x server_tables_scheme \<Rightarrow> (int \<times> 'x server_tables_scheme) option" where
  "update_password u t =
     (if \<exists>v \<in> set (users t). \<exists>x \<in> set (users t). user_id x = user_id u \<and> user_id v \<noteq> user_id u \<and> password v = password u then None
      else Some (0, t\<lparr>users := map (\<lambda>v. if user_id v = user_id u then v\<lparr>password := password u\<rparr> else v) (users t)\<rparr>))"

definition sqlite_update_user_password :: "User \<Rightarrow> ('x, unit) server_io" where
  "sqlite_update_user_password u = bind_io (db_insert (update_password u)) (\<lambda>_. ok_io ())"

definition sqlite_delete_user :: "User \<Rightarrow> unit sqlite_io" where
  "sqlite_delete_user u =
     bind_io (map_err OtherDb (sql_exec (\<lambda>t. t\<lparr>sessions := filter (\<lambda>s. session_user s \<noteq> user_id u) (sessions t)\<rparr>))) (\<lambda>_.
     bind_io (map_err OtherDb (sql_exec (\<lambda>t. t\<lparr>users := filter (\<lambda>v. user_id v \<noteq> user_id u) (users t)\<rparr>))) (\<lambda>_.
       map_err OtherDb (sql_exec (\<lambda>t. t\<lparr>history_rows := filter (\<lambda>h. fst h \<noteq> user_id u) (history_rows t)\<rparr>))))"

definition sqlite_delete_store :: "User \<Rightarrow> unit sqlite_io" where
  "sqlite_delete_store u =
     map_err OtherDb (sql_exec (\<lambda>t. t\<lparr>user_store := filter (\<lambda>x. fst x \<noteq> user_id u) (user_store t)\<rparr>))"

definition sqlite_add_records :: "User \<Rightarrow> EncryptedRecord list \<Rightarrow> unit sqlite_io" where
  "sqlite_add_records u records =
     map_err OtherDb (transaction (for_each
       (\<lambda>i. sql_exec (\<lambda>t. t\<lparr>user_store := store_insert (user_id u) (to_row i) (user_store t)\<rparr>)) records))"

definition sqlite_next_records ::
  "User \<Rightarrow> RecordSeriesKey \<Rightarrow> RecordIdx option \<Rightarrow> nat \<Rightarrow> ('x, EncryptedRecord list) server_io" where
  "sqlite_next_records u s start count =
     map_err OtherDb (sql_query (\<lambda>t.
       map from_row (q_next (user_rows (user_store t) (user_id u)) (skey s) (as_i64 (case start of None \<Rightarrow> 0 | Some i \<Rightarrow> i)) (as_i64 count))))"

definition sqlite_status :: "User \<Rightarrow> RecordStatus sqlite_io" where
  "sqlite_status u =
     bind_io (map_err OtherDb (sql_query (\<lambda>t. q_status (user_rows (user_store t) (user_id u))))) (\<lambda>res. ok_io (status_of res))"

definition sqlite_database :: "server_tables db database" where
  "sqlite_database =
     \<lparr>db_get_session = sqlite_get_session, db_get_session_user = sqlite_get_session_user,
      db_add_session = sqlite_add_session, db_get_user = sqlite_get_user,
      db_get_user_session = sqlite_get_user_session, db_add_user = sqlite_add_user,
      db_update_user_password = sqlite_update_user_password, db_delete_user = sqlite_delete_user,
      db_delete_store = sqlite_delete_store, db_add_records = sqlite_add_records,
      db_next_records = sqlite_next_records, db_status = sqlite_status\<rparr>"

section \<open>The contract of the record operations\<close>

text \<open>
  \<open>rows s u\<close> are the rows of user \<open>u\<close> in state \<open>s\<close>, \<open>ok\<close> an invariant of the states in which no
  statement fails, and \<open>accepts\<close> the records that the implementation is made for.
\<close>

locale record_database =
  fixes DB :: "'s database" and rows :: "'s \<Rightarrow> int \<Rightarrow> db_row list" and ok :: "'s \<Rightarrow> bool"
    and accepts :: "EncryptedRecord \<Rightarrow> bool"
  assumes add: "ok s \<Longrightarrow> \<forall>r \<in> set rs. accepts r \<Longrightarrow>
      \<exists>s'. db_add_records DB u rs s = (Inr (), s') \<and> ok s'
        \<and> rows s' (user_id u) = foldl (insert_unless row_clash) (rows s (user_id u)) (map to_row rs)
        \<and> (\<forall>v. v \<noteq> user_id u \<longrightarrow> rows s' v = rows s v)"
    and fetch: "ok s \<Longrightarrow> i64_range count \<Longrightarrow>
      db_next_records DB u k start count s =
        (Inr (map from_row (q_next (rows s (user_id u)) (skey k) (as_i64 (case start of None \<Rightarrow> 0 | Some i \<Rightarrow> i)) (as_i64 count))), s)"
    and tails: "ok s \<Longrightarrow> \<exists>st. db_status DB u s = (Inr st, s) \<and> wf_status st
        \<and> get_status st = get_status (status_of (q_status (rows s (user_id u))))"
    and wipe: "ok s \<Longrightarrow> \<exists>s'. db_delete_store DB u s = (Inr (), s') \<and> ok s' \<and> rows s' (user_id u) = []
        \<and> (\<forall>v. v \<noteq> user_id u \<longrightarrow> rows s' v = rows s v)"
begin

text \<open>A page of the log that continues a user's prefix is taken over; nobody else's log changes.\<close>

lemma add_segment:
  assumes "world_log G" "ok s" "holds G n (rows s (user_id u))" "i \<le> n k" "i + len \<le> length (G k)"
    and "\<forall>w \<in> set (segment G k i len). accepts (from_row w)"
  shows "\<exists>s'. db_add_records DB u (map from_row (segment G k i len)) s = (Inr (), s') \<and> ok s'
    \<and> holds G (n(k := max (n k) (i + len))) (rows s' (user_id u)) \<and> (\<forall>v. v \<noteq> user_id u \<longrightarrow> rows s' v = rows s v)"
proof -
  from add [OF assms(2), of "map from_row (segment G k i len)" u] assms(6)
  obtain s' where "db_add_records DB u (map from_row (segment G k i len)) s = (Inr (), s')" "ok s'"
      "rows s' (user_id u) = foldl (insert_unless row_clash) (rows s (user_id u)) (map to_row (map from_row (segment G k i len)))"
      "\<forall>v. v \<noteq> user_id u \<longrightarrow> rows s' v = rows s v"
    by auto
  with holds_insert_segment [OF assms(1,3) log_clash_row [OF assms(1)] assms(4,5)] show ?thesis
    by (auto simp: to_row_from_segment [OF assms(1)] simp del: map_map)
qed

lemma fetch_segment:
  assumes "world_log G" "ok s" "holds G n (rows s (user_id u))" "i64_range i" "i64_range count"
  shows "db_next_records DB u k (Some i) count s =
    (Inr (map from_row (segment G (skey k) i (min count (n (skey k) - i)))), s)"
  using fetch [OF assms(2,5)] holds_next [OF assms(1,3,4,5)] by simp

lemma tails_log:
  assumes "world_log G" "ok s" "holds G n (rows s (user_id u))"
  shows "\<exists>st. db_status DB u s = (Inr st, s) \<and> wf_status st
    \<and> (\<forall>k. get_status st k = (if canonical_tag (series_tag k) \<and> 0 < n (skey k) then Some (n (skey k) - 1) else None))"
  using tails [OF assms(2), of u] holds_status [OF assms(1,3)] by metis

end

section \<open>The SQLite server keeps the contract\<close>

lemma user_rows_insert:
  "user_rows (store_insert u w st) v = (if v = u then insert_unless row_clash (user_rows st u) w else user_rows st v)"
  by (auto simp: user_rows_def store_insert_def insert_unless_def image_iff)

lemma user_rows_wipe: "user_rows (filter (\<lambda>x. fst x \<noteq> u) st) v = (if v = u then [] else user_rows st v)"
  by (auto simp: user_rows_def filter_empty_conv intro!: arg_cong [where f = "map snd"] filter_cong)

lemma for_each_store_insert [io_simps]:
  "healthy d \<Longrightarrow> for_each (\<lambda>i. sql_exec (\<lambda>t. t\<lparr>user_store := store_insert u (to_row i) (user_store t)\<rparr>)) rs d =
     (Inr (), d\<lparr>tables := (tables d)\<lparr>user_store := foldl (\<lambda>st i. store_insert u (to_row i) st) (user_store (tables d)) rs\<rparr>\<rparr>)"
  by (induction rs arbitrary: d) (simp_all add: bind_io_def sql_exec_healthy)

lemma user_rows_inserts:
  "user_rows (foldl (\<lambda>st i. store_insert u (to_row i) st) st rs) v =
     (if v = u then foldl (insert_unless row_clash) (user_rows st u) (map to_row rs) else user_rows st v)"
  by (induction rs arbitrary: st) (auto simp: user_rows_insert)

abbreviation sqlite_rows :: "'x server_tables_scheme db \<Rightarrow> int \<Rightarrow> db_row list" where
  "sqlite_rows d \<equiv> user_rows (user_store (tables d))"

interpretation sqlite: record_database sqlite_database sqlite_rows healthy "\<lambda>_. True"
proof unfold_locales
  fix s :: "server_tables db" and u :: User assume s: "healthy s"
  show "\<exists>s'. db_add_records sqlite_database u rs s = (Inr (), s') \<and> healthy s'
      \<and> sqlite_rows s' (user_id u) = foldl (insert_unless row_clash) (sqlite_rows s (user_id u)) (map to_row rs)
      \<and> (\<forall>v. v \<noteq> user_id u \<longrightarrow> sqlite_rows s' v = sqlite_rows s v)" for rs
    using s by (simp add: sqlite_database_def sqlite_add_records_def map_err_def transaction_healthy
        for_each_store_insert user_rows_inserts)
  show "db_next_records sqlite_database u k start count s =
      (Inr (map from_row (q_next (sqlite_rows s (user_id u)) (skey k) (as_i64 (case start of None \<Rightarrow> 0 | Some i \<Rightarrow> i)) (as_i64 count))), s)"
    for k start count
    using s by (simp add: sqlite_database_def sqlite_next_records_def map_err_def sql_query_healthy)
  show "\<exists>st. db_status sqlite_database u s = (Inr st, s) \<and> wf_status st
      \<and> get_status st = get_status (status_of (q_status (sqlite_rows s (user_id u))))"
    using s by (simp add: sqlite_database_def sqlite_status_def bind_io_def map_err_def sql_query_healthy)
  show "\<exists>s'. db_delete_store sqlite_database u s = (Inr (), s') \<and> healthy s' \<and> sqlite_rows s' (user_id u) = []
      \<and> (\<forall>v. v \<noteq> user_id u \<longrightarrow> sqlite_rows s' v = sqlite_rows s v)"
    using s by (simp add: sqlite_database_def sqlite_delete_store_def map_err_def sql_exec_healthy user_rows_wipe)
qed

end
