(* ===== verification/Server_Postgres.thy ===== *)
theory Server_Postgres
  imports Server_Db
begin

text \<open>
  The Postgres implementation of the server's database, \<open>atuin-server-postgres/src/lib.rs\<close>. Where
  its SQL is the one of the SQLite server the definitions are shared. It also keeps
  \<open>store_idx_cache\<close>, the tail of every series, which \<open>add_records\<close> maintains from the heads of
  the batch and \<open>status\<close> may read instead of aggregating the store.

  Shown: the cache always equals the aggregate, so both ways to compute the status agree, and the
  implementation keeps the contract \<open>record_database\<close>. A read replica, which may lag, is not
  modelled: reads go to the primary. The collation's \<open>LOWER\<close> and the number of characters of a
  text are parameters.
\<close>

record pg_tables = server_tables +
  idx_cache :: "((int \<times> series) \<times> int) list"
  total_history_count_user :: "(int \<times> int) list"

type_synonym 'a pg_io = "(pg_tables db, DbError, 'a) io"

record pg_env =
  pg_lower :: "string \<Rightarrow> string"
  pg_chars :: "string \<Rightarrow> nat"

definition pg_delete_store :: "User \<Rightarrow> unit pg_io" where
  "pg_delete_store u =
     map_err OtherDb (transaction
       (bind_io (sql_exec (\<lambda>t. t\<lparr>user_store := filter (\<lambda>x. fst x \<noteq> user_id u) (user_store t)\<rparr>)) (\<lambda>_.
          sql_exec (\<lambda>t. t\<lparr>idx_cache := filter (\<lambda>x. fst (fst x) \<noteq> user_id u) (idx_cache t)\<rparr>))))"

definition pg_delete_user :: "User \<Rightarrow> unit pg_io" where
  "pg_delete_user u =
     bind_io (map_err OtherDb (sql_exec (\<lambda>t. t\<lparr>sessions := filter (\<lambda>s. session_user s \<noteq> user_id u) (sessions t)\<rparr>))) (\<lambda>_.
     bind_io (map_err OtherDb (sql_exec (\<lambda>t. t\<lparr>history_rows := filter (\<lambda>h. fst h \<noteq> user_id u) (history_rows t)\<rparr>))) (\<lambda>_.
     bind_io (map_err OtherDb (sql_exec (\<lambda>t. t\<lparr>user_store := filter (\<lambda>x. fst x \<noteq> user_id u) (user_store t)\<rparr>))) (\<lambda>_.
     bind_io (map_err OtherDb (sql_exec (\<lambda>t. t\<lparr>total_history_count_user := filter (\<lambda>c. fst c \<noteq> user_id u) (total_history_count_user t)\<rparr>))) (\<lambda>_.
       map_err OtherDb (sql_exec (\<lambda>t. t\<lparr>users := filter (\<lambda>v. user_id v \<noteq> user_id u) (users t)\<rparr>))))))"

text \<open>The columns are \<open>varchar(32)\<close> and \<open>varchar(128)\<close>.\<close>

definition pg_add_user :: "pg_env \<Rightarrow> NewUser \<Rightarrow> int pg_io" where
  "pg_add_user E n = db_insert (\<lambda>t.
     if pg_chars E (nu_username n) \<le> 32 \<and> pg_chars E (nu_email n) \<le> 128 \<and> pg_chars E (nu_password n) \<le> 128
     then insert_user (pg_lower E) n t else None)"

definition pg_add_session :: "pg_env \<Rightarrow> NewSession \<Rightarrow> unit pg_io" where
  "pg_add_session E n =
     bind_io (db_insert (\<lambda>t. if pg_chars E (ns_token n) \<le> 128 then insert_session n t else None)) (\<lambda>_. ok_io ())"

definition pg_update_user_password :: "pg_env \<Rightarrow> User \<Rightarrow> unit pg_io" where
  "pg_update_user_password E u =
     bind_io (db_insert (\<lambda>t. if pg_chars E (password u) \<le> 128 then update_password u t else None)) (\<lambda>_. ok_io ())"

text \<open>The head of each series among the rows that were really inserted.\<close>

definition bump_head :: "series \<Rightarrow> RecordIdx \<Rightarrow> (series \<times> RecordIdx) list \<Rightarrow> (series \<times> RecordIdx) list" where
  "bump_head k i heads =
     (case map_of heads k of
        None \<Rightarrow> AList.update k i heads
      | Some e \<Rightarrow> if i > e then AList.update k i heads else heads)"

fun insert_all ::
  "int \<Rightarrow> EncryptedRecord list \<Rightarrow> (series \<times> RecordIdx) list \<Rightarrow> (pg_tables db, string, (series \<times> RecordIdx) list) io" where
  "insert_all u [] heads = ok_io heads"
| "insert_all u (i # is) heads =
     bind_io (sql (\<lambda>t. (if \<exists>x \<in> set (user_store t). fst x = u \<and> row_clash (to_row i) (snd x) then 0 else (1::nat),
                        t\<lparr>user_store := store_insert u (to_row i) (user_store t)\<rparr>)))
       (\<lambda>rows_affected. insert_all u is
          (if rows_affected > 0 then bump_head (skey (series_key i)) (rec_idx i) heads else heads))"

definition upsert_cache :: "int \<Rightarrow> series \<times> RecordIdx \<Rightarrow> pg_tables \<Rightarrow> pg_tables" where
  "upsert_cache u h t =
     t\<lparr>idx_cache := AList.update (u, fst h)
          (case map_of (idx_cache t) (u, fst h) of None \<Rightarrow> as_i64 (snd h) | Some c \<Rightarrow> max c (as_i64 (snd h)))
          (idx_cache t)\<rparr>"

definition pg_add_records :: "User \<Rightarrow> EncryptedRecord list \<Rightarrow> unit pg_io" where
  "pg_add_records u records =
     map_err OtherDb (transaction
       (bind_io (insert_all (user_id u) records [])
          (\<lambda>heads. for_each (\<lambda>h. sql_exec (upsert_cache (user_id u) h)) heads)))"

text \<open>Postgres rejects a negative \<open>limit\<close>.\<close>

definition pg_next_records :: "User \<Rightarrow> RecordSeriesKey \<Rightarrow> RecordIdx option \<Rightarrow> nat \<Rightarrow> EncryptedRecord list pg_io" where
  "pg_next_records u s start count =
     (if as_i64 count < 0
      then bind_io (map_err OtherDb (sql_query (\<lambda>_. ()))) (\<lambda>_. fail_io (OtherDb ''LIMIT must not be negative''))
      else sqlite_next_records u s start count)"

text \<open>
  \<open>use_idx_cache\<close> is the draw against \<open>IDX_CACHE_ROLLOUT\<close>. The rows are sorted by host, tag and
  index before they enter the status.
\<close>

definition pg_status :: "bool \<Rightarrow> User \<Rightarrow> RecordStatus pg_io" where
  "pg_status use_idx_cache u =
     bind_io (map_err OtherDb (sql_query (\<lambda>t.
         if use_idx_cache then map (\<lambda>x. (snd (fst x), snd x)) (filter (\<lambda>x. fst (fst x) = user_id u) (idx_cache t))
         else q_status (user_rows (user_store t) (user_id u)))))
       (\<lambda>res. ok_io (status_of (sort_key (\<lambda>x. (fst (fst x), snd (fst x), snd x)) res)))"

definition pg_database :: "pg_env \<Rightarrow> bool \<Rightarrow> pg_tables db database" where
  "pg_database E use_idx_cache =
     \<lparr>db_get_session = sqlite_get_session, db_get_session_user = sqlite_get_session_user,
      db_add_session = pg_add_session E, db_get_user = sqlite_get_user,
      db_get_user_session = sqlite_get_user_session, db_add_user = pg_add_user E,
      db_update_user_password = pg_update_user_password E, db_delete_user = pg_delete_user,
      db_delete_store = pg_delete_store, db_add_records = pg_add_records,
      db_next_records = pg_next_records, db_status = pg_status use_idx_cache\<rparr>"

section \<open>The cache\<close>

definition cache_inv :: "pg_tables \<Rightarrow> bool" where
  "cache_inv t \<longleftrightarrow> distinct (map fst (idx_cache t))
     \<and> (\<forall>u k. map_of (idx_cache t) (u, k) = map_of (q_status (user_rows (user_store t) u)) k)"

abbreviation tail_of :: "db_row list \<Rightarrow> series \<Rightarrow> int option" where
  "tail_of rows k \<equiv> map_of (q_status rows) k"

text \<open>The tails of a series, with \<^const>\<open>None\<close> for an empty one below all others, only grow.\<close>

lemma tail_of_snoc: "tail_of (rows @ [w]) k = (if k = row_series w then max (tail_of rows k) (Some (row_idx w)) else tail_of rows k)"
proof (cases "k = row_series w")
  case True
  then have "q_series (rows @ [w]) k = q_series rows k @ [w]" by (simp add: q_series_def)
  moreover have "q_series rows k = [] \<longleftrightarrow> k \<notin> row_series ` set rows"
    by (auto simp: q_series_def filter_empty_conv)
  ultimately show ?thesis using True by (auto simp: map_of_q_status max.commute max_def)
next
  case False
  then show ?thesis by (auto simp: map_of_q_status q_series_def)
qed

lemma bump_head_lookup:
  "map_of (bump_head k i heads) k' = (if k' = k then max (map_of heads k) (Some i) else map_of heads k')"
  by (auto simp: bump_head_def update_conv' max_def split: option.splits)

lemma distinct_bump_head: "distinct (map fst heads) \<Longrightarrow> distinct (map fst (bump_head k i heads))"
  by (auto simp: bump_head_def distinct_update split: option.splits)

lemma bump_head_range:
  "\<forall>k i. map_of heads k = Some i \<longrightarrow> i64_range i \<Longrightarrow> i64_range j \<Longrightarrow>
     map_of (bump_head k j heads) k' = Some i \<Longrightarrow> i64_range i"
  by (cases "map_of heads k") (auto simp: bump_head_lookup max_def split: if_splits)

lemma insert_all_healthy:
  assumes "healthy d" "\<forall>r \<in> set rs. i64_range (rec_idx r)" "distinct (map fst heads)"
    and "\<forall>k. tail_of (sqlite_rows d u) k = max (old k) (map_option int (map_of heads k))"
    and "\<forall>k i. map_of heads k = Some i \<longrightarrow> i64_range i"
  shows "\<exists>heads'. insert_all u rs heads d =
        (Inr heads', d\<lparr>tables := (tables d)\<lparr>user_store := foldl (\<lambda>st i. store_insert u (to_row i) st) (user_store (tables d)) rs\<rparr>\<rparr>)
      \<and> distinct (map fst heads')
      \<and> (\<forall>k. tail_of (user_rows (foldl (\<lambda>st i. store_insert u (to_row i) st) (user_store (tables d)) rs) u) k
             = max (old k) (map_option int (map_of heads' k)))
      \<and> (\<forall>k i. map_of heads' k = Some i \<longrightarrow> i64_range i)"
  using assms
proof (induction rs arbitrary: d heads)
  case (Cons r rs)
  let ?hit = "\<exists>x \<in> set (user_store (tables d)). fst x = u \<and> row_clash (to_row r) (snd x)"
  let ?d = "d\<lparr>tables := (tables d)\<lparr>user_store := store_insert u (to_row r) (user_store (tables d))\<rparr>\<rparr>"
  let ?heads = "if ?hit then heads else bump_head (skey (series_key r)) (rec_idx r) heads"
  have idx: "row_idx (to_row r) = int (rec_idx r)" using Cons.prems(2) by (simp add: to_row_def)
  have "\<forall>k. tail_of (sqlite_rows ?d u) k = max (old k) (map_option int (map_of ?heads k))"
  proof (cases ?hit)
    case True
    with Cons.prems(4) show ?thesis by (simp add: store_insert_def)
  next
    case False
    then have rows: "sqlite_rows ?d u = sqlite_rows d u @ [to_row r]"
      by (simp add: store_insert_def user_rows_def)
    have mono: "map_option int (max a b) = max (map_option int a) (map_option int b)" for a b
      by (cases a; cases b) (auto simp: max_def)
    show ?thesis
      unfolding rows tail_of_snoc using False Cons.prems(4) idx by (auto simp: bump_head_lookup mono max.assoc)
  qed
  then have "\<exists>heads'. insert_all u rs ?heads ?d =
        (Inr heads', ?d\<lparr>tables := (tables ?d)\<lparr>user_store := foldl (\<lambda>st i. store_insert u (to_row i) st) (user_store (tables ?d)) rs\<rparr>\<rparr>)
      \<and> distinct (map fst heads')
      \<and> (\<forall>k. tail_of (user_rows (foldl (\<lambda>st i. store_insert u (to_row i) st) (user_store (tables ?d)) rs) u) k
             = max (old k) (map_option int (map_of heads' k)))
      \<and> (\<forall>k i. map_of heads' k = Some i \<longrightarrow> i64_range i)"
    using Cons.prems bump_head_range [OF Cons.prems(5), of "rec_idx r"]
    by (intro Cons.IH) (auto simp: distinct_bump_head simp del: map_of_eq_Some_iff)
  moreover have "insert_all u (r # rs) heads d = insert_all u rs ?heads ?d"
    using Cons.prems(1) by (auto simp: bind_io_def sql_healthy)
  ultimately show ?case by simp
qed simp

lemma upserts_healthy:
  assumes "healthy d" "distinct (map fst heads)" "distinct (map fst (idx_cache (tables d)))"
  shows "\<exists>c. for_each (\<lambda>h. sql_exec (upsert_cache u h)) heads d = (Inr (), d\<lparr>tables := (tables d)\<lparr>idx_cache := c\<rparr>\<rparr>)
    \<and> distinct (map fst c)
    \<and> (\<forall>v k. map_of c (v, k) = (if v = u then max (map_of (idx_cache (tables d)) (u, k)) (map_option as_i64 (map_of heads k))
                               else map_of (idx_cache (tables d)) (v, k)))"
  using assms
proof (induction heads arbitrary: d)
  case Nil
  then show ?case by (auto intro!: exI [of _ "idx_cache (tables d)"])
next
  case (Cons h heads)
  let ?d = "d\<lparr>tables := upsert_cache u h (tables d)\<rparr>"
  have fresh: "map_of heads (fst h) = None" using Cons.prems(2) by (auto simp: map_of_eq_None_iff)
  have look: "map_of (idx_cache (upsert_cache u h (tables d))) (v, k) =
      (if v = u \<and> k = fst h then max (map_of (idx_cache (tables d)) (u, k)) (Some (as_i64 (snd h)))
       else map_of (idx_cache (tables d)) (v, k))" for v k
    by (auto simp: upsert_cache_def update_conv' max_def split: option.splits)
  have "distinct (map fst (idx_cache (tables ?d)))"
    using Cons.prems(3) by (simp add: upsert_cache_def distinct_update)
  with Cons.prems Cons.IH [of ?d] obtain c where c:
      "for_each (\<lambda>h. sql_exec (upsert_cache u h)) heads ?d = (Inr (), ?d\<lparr>tables := (tables ?d)\<lparr>idx_cache := c\<rparr>\<rparr>)"
      "distinct (map fst c)"
      "\<forall>v k. map_of c (v, k) = (if v = u then max (map_of (idx_cache (tables ?d)) (u, k)) (map_option as_i64 (map_of heads k))
                               else map_of (idx_cache (tables ?d)) (v, k))"
    by auto
  have "for_each (\<lambda>h. sql_exec (upsert_cache u h)) (h # heads) d = (Inr (), d\<lparr>tables := (tables d)\<lparr>idx_cache := c\<rparr>\<rparr>)"
    using Cons.prems(1) c(1) by (simp add: bind_io_def sql_exec_healthy upsert_cache_def)
  moreover have "map_of c (v, k) = (if v = u then max (map_of (idx_cache (tables d)) (u, k)) (map_option as_i64 (map_of (h # heads) k))
                               else map_of (idx_cache (tables d)) (v, k))" for v k
    using c(3) fresh by (cases "k = fst h") (auto simp: look)
  ultimately show ?case using c(2) by blast
qed

lemma pg_add_records_healthy:
  assumes d: "healthy d" "cache_inv (tables d)" and rs: "\<forall>r \<in> set rs. i64_range (rec_idx r)"
  shows "\<exists>c. pg_add_records u rs d = (Inr (), d\<lparr>tables := (tables d)
      \<lparr>user_store := foldl (\<lambda>st i. store_insert (user_id u) (to_row i) st) (user_store (tables d)) rs, idx_cache := c\<rparr>\<rparr>)
    \<and> cache_inv ((tables d)\<lparr>user_store := foldl (\<lambda>st i. store_insert (user_id u) (to_row i) st) (user_store (tables d)) rs, idx_cache := c\<rparr>)"
proof -
  let ?st = "foldl (\<lambda>st i. store_insert (user_id u) (to_row i) st) (user_store (tables d)) rs"
  let ?d = "d\<lparr>tables := (tables d)\<lparr>user_store := ?st\<rparr>\<rparr>"
  from insert_all_healthy [OF d(1) rs, of "[]" "user_id u" "tail_of (sqlite_rows d (user_id u))"]
  obtain heads where heads: "insert_all (user_id u) rs [] d = (Inr heads, ?d)" "distinct (map fst heads)"
      "\<forall>k. tail_of (user_rows ?st (user_id u)) k = max (tail_of (sqlite_rows d (user_id u)) k) (map_option int (map_of heads k))"
      "\<forall>k i. map_of heads k = Some i \<longrightarrow> i64_range i"
    by auto
  have as_int: "map_option as_i64 (map_of heads k) = map_option int (map_of heads k)" for k
    using heads(4) by (cases "map_of heads k") auto
  obtain c where c: "for_each (\<lambda>h. sql_exec (upsert_cache (user_id u) h)) heads ?d = (Inr (), ?d\<lparr>tables := (tables ?d)\<lparr>idx_cache := c\<rparr>\<rparr>)"
      "distinct (map fst c)"
      "\<forall>v k. map_of c (v, k) = (if v = user_id u then max (map_of (idx_cache (tables ?d)) (user_id u, k)) (map_option as_i64 (map_of heads k))
                               else map_of (idx_cache (tables ?d)) (v, k))"
    using upserts_healthy [of ?d heads "user_id u"] d heads(2) by (auto simp: cache_inv_def)
  have "pg_add_records u rs d = (Inr (), d\<lparr>tables := (tables d)\<lparr>user_store := ?st, idx_cache := c\<rparr>\<rparr>)"
    unfolding pg_add_records_def using d(1)
    by (intro map_err_Inr transaction_healthy) (simp_all add: bind_io_def heads(1) c(1))
  moreover have "map_of c (v, k) = tail_of (user_rows ?st v) k" for v k
    using d(2) c(3) heads(3) as_int by (simp add: cache_inv_def user_rows_inserts)
  ultimately show ?thesis using c(2) by (intro exI [of _ c]) (simp add: cache_inv_def)
qed

lemma pg_delete_store_healthy:
  assumes "healthy d"
  shows "pg_delete_store u d = (Inr (), d\<lparr>tables := (tables d)
      \<lparr>user_store := filter (\<lambda>x. fst x \<noteq> user_id u) (user_store (tables d)),
       idx_cache := filter (\<lambda>x. fst (fst x) \<noteq> user_id u) (idx_cache (tables d))\<rparr>\<rparr>)"
  unfolding pg_delete_store_def using assms
  by (intro map_err_Inr transaction_healthy) (simp_all add: bind_io_def sql_exec_healthy)

lemma map_of_filter_key: "map_of (filter (\<lambda>x. P (fst x)) xs) k = (if P k then map_of xs k else None)"
  by (induction xs) auto

lemma cache_inv_wipe:
  "cache_inv t \<Longrightarrow> cache_inv (t\<lparr>user_store := filter (\<lambda>x. fst x \<noteq> u) (user_store t),
     idx_cache := filter (\<lambda>x. fst (fst x) \<noteq> u) (idx_cache t)\<rparr>)"
  using map_of_filter_key [of "\<lambda>k. fst k \<noteq> u" "idx_cache t"]
  by (auto simp: cache_inv_def user_rows_wipe q_status_def distinct_map inj_on_def)

lemma map_of_cached:
  "map_of (map (\<lambda>x. (snd (fst x), snd x)) (filter (\<lambda>x. fst (fst x) = u) c)) k = map_of c (u, k)"
  by (induction c) auto

lemma distinct_cached:
  "distinct (map fst c) \<Longrightarrow> distinct (map fst (map (\<lambda>x. (snd (fst x), snd x)) (filter (\<lambda>x. fst (fst x) = u) c)))"
  by (auto simp: distinct_map comp_def inj_on_def prod_eq_iff)

lemma get_status_sorted:
  assumes "distinct (map fst xs)"
  shows "get_status (status_of (sort_key f xs)) = get_status (status_of xs)"
proof -
  have "distinct (map fst (sort_key f xs))"
    using assms by (simp add: distinct_map inj_on_def)
  moreover from this assms have "map_of (sort_key f xs) = map_of xs" by (simp add: map_of_inject_set)
  ultimately show ?thesis using assms by (intro ext) (simp add: get_status_of)
qed

interpretation pg: record_database "pg_database E cached" sqlite_rows
  "\<lambda>d. healthy d \<and> cache_inv (tables d)" "\<lambda>r. i64_range (rec_idx r)"
proof unfold_locales
  fix s :: "pg_tables db" and u :: User assume s: "healthy s \<and> cache_inv (tables s)"
  show "\<exists>s'. db_add_records (pg_database E cached) u rs s = (Inr (), s') \<and> (healthy s' \<and> cache_inv (tables s'))
      \<and> sqlite_rows s' (user_id u) = foldl (insert_unless row_clash) (sqlite_rows s (user_id u)) (map to_row rs)
      \<and> (\<forall>v. v \<noteq> user_id u \<longrightarrow> sqlite_rows s' v = sqlite_rows s v)" if "\<forall>r \<in> set rs. i64_range (rec_idx r)" for rs
    using pg_add_records_healthy [of s rs u] s that by (auto simp: pg_database_def user_rows_inserts)
  show "db_next_records (pg_database E cached) u k start count s =
      (Inr (map from_row (q_next (sqlite_rows s (user_id u)) (skey k) (as_i64 (case start of None \<Rightarrow> 0 | Some i \<Rightarrow> i)) (as_i64 count))), s)"
    if "i64_range count" for k start count
    using s that by (simp add: pg_database_def pg_next_records_def sqlite_next_records_def map_err_def sql_query_healthy)
  show "\<exists>st. db_status (pg_database E cached) u s = (Inr st, s) \<and> wf_status st
      \<and> get_status st = get_status (status_of (q_status (sqlite_rows s (user_id u))))"
  proof -
    let ?c = "map (\<lambda>x. (snd (fst x), snd x)) (filter (\<lambda>x. fst (fst x) = user_id u) (idx_cache (tables s)))"
    have "get_status (status_of ?c) = get_status (status_of (q_status (sqlite_rows s (user_id u))))"
      using s distinct_cached [of "idx_cache (tables s)" "user_id u"] distinct_q_status
      by (intro ext) (simp only: get_status_of map_of_cached cache_inv_def)
    then show ?thesis
      using s distinct_q_status distinct_cached [of "idx_cache (tables s)" "user_id u"]
      by (simp add: pg_database_def pg_status_def bind_io_def map_err_def sql_query_healthy get_status_sorted cache_inv_def)
  qed
  show "\<exists>s'. db_delete_store (pg_database E cached) u s = (Inr (), s') \<and> (healthy s' \<and> cache_inv (tables s'))
      \<and> sqlite_rows s' (user_id u) = [] \<and> (\<forall>v. v \<noteq> user_id u \<longrightarrow> sqlite_rows s' v = sqlite_rows s v)"
    using s pg_delete_store_healthy [of s u] by (simp add: pg_database_def user_rows_wipe cache_inv_wipe)
qed

section \<open>Properties\<close>

text \<open>
  The histories of a Postgres database: batches and wipes by any user, each statement of which may
  fail, and anything that leaves the store and the cache alone (accounts, sessions, the schedule
  of failures).
\<close>

inductive pg_reachable :: "pg_tables db \<Rightarrow> bool" where
  empty: "user_store (tables d) = [] \<Longrightarrow> idx_cache (tables d) = [] \<Longrightarrow> pg_reachable d"
| records: "pg_reachable d \<Longrightarrow> \<forall>r \<in> set rs. i64_range (rec_idx r) \<Longrightarrow> pg_reachable (snd (pg_add_records u rs d))"
| wipe: "pg_reachable d \<Longrightarrow> pg_reachable (snd (pg_delete_store u d))"
| other: "pg_reachable d \<Longrightarrow> user_store (tables d') = user_store (tables d) \<Longrightarrow>
     idx_cache (tables d') = idx_cache (tables d) \<Longrightarrow> pg_reachable d'"

lemma oblivious_insert_all [oblivious_intros]: "oblivious (insert_all u rs heads)"
  by (induction u rs heads rule: insert_all.induct) (simp_all del: ok_io_apply add: oblivious_intros)

lemma pg_add_records_inv:
  assumes "cache_inv (tables d)" "\<forall>r \<in> set rs. i64_range (rec_idx r)"
  shows "cache_inv (tables (snd (pg_add_records u rs d)))"
proof -
  let ?body = "bind_io (insert_all (user_id u) rs []) (\<lambda>heads. for_each (\<lambda>h. sql_exec (upsert_cache (user_id u) h)) heads)"
  have "oblivious ?body" by (intro oblivious_intros)
  then show ?thesis
    using assms pg_add_records_healthy [of "d\<lparr>faults := []\<rparr>" rs u]
    by (cases rule: transaction_cases [where d = d and h = OtherDb]) (auto simp: pg_add_records_def)
qed

lemma pg_delete_store_inv:
  assumes "cache_inv (tables d)"
  shows "cache_inv (tables (snd (pg_delete_store u d)))"
proof -
  let ?body = "bind_io (sql_exec (\<lambda>t. t\<lparr>user_store := filter (\<lambda>x. fst x \<noteq> user_id u) (user_store t)\<rparr>))
      (\<lambda>_. sql_exec (\<lambda>t. t\<lparr>idx_cache := filter (\<lambda>x. fst (fst x) \<noteq> user_id u) (idx_cache t)\<rparr>))
      :: (pg_tables db, string, unit) io"
  have "oblivious ?body" by (intro oblivious_intros)
  then show ?thesis
    using assms pg_delete_store_healthy [of "d\<lparr>faults := []\<rparr>" u] cache_inv_wipe [OF assms, of "user_id u"]
    by (cases rule: transaction_cases [where d = d and h = OtherDb]) (auto simp: pg_delete_store_def)
qed

lemma pg_reachable_inv: "pg_reachable d \<Longrightarrow> cache_inv (tables d)"
proof (induction rule: pg_reachable.induct)
  case (empty d)
  then show ?case by (simp add: cache_inv_def user_rows_def q_status_def)
next
  case (other d d')
  then show ?case by (simp add: cache_inv_def)
qed (simp_all add: pg_add_records_inv pg_delete_store_inv)


definition pg_empty :: "pg_tables db" where
  "pg_empty = \<lparr>tables = \<lparr>users = [], users_seq = 0, sessions = [], sessions_seq = 0, user_store = [], history_rows = [],
      idx_cache = [], total_history_count_user = []\<rparr>, faults = []\<rparr>"

definition alice :: User where
  "alice = \<lparr>user_id = 1, username = ''alice'', email = ''a'', password = ''h''\<rparr>"

definition posted_1 :: EncryptedRecord where
  "posted_1 = Record_build 5 77 (Host_new 1) V1 History 0 \<lparr>raw = ''r'', cek = ''c''\<rparr>"


end
