(* ===== verification/Server_Handlers.thy ===== *)
theory Server_Handlers
  imports Server_Postgres
begin

text \<open>
  The HTTP handlers of the server, \<open>atuin-server/src/handlers\<close>, and the extraction of the
  authenticated user from a request (\<open>router.rs\<close>), over any \<open>database\<close>.

  Password hashing (\<open>argon2\<close>) and the decoding of a header value (\<open>http\<close>) are parameters. A
  handler returns its response or an error with a reason and a status code. Metrics, logging and
  the best-effort registration webhook have no effect on the state and are left out.
\<close>

section \<open>Requests and responses\<close>

record ErrorResponseStatus =
  reason :: string
  status_code :: nat

definition reply :: "string \<Rightarrow> nat \<Rightarrow> ErrorResponseStatus" where
  "reply r c = \<lparr>reason = r, status_code = c\<rparr>"

record Settings =
  open_registration :: bool
  max_record_size :: nat

record RegisterRequest =
  reg_email :: string
  reg_username :: string
  reg_password :: string

record SessionResponse =
  session :: string
  auth :: "string option"

record ChangePasswordRequest =
  current_password :: string
  new_password :: string

record LoginRequest =
  login_username :: string
  login_password :: string

record NextParams =
  np_host :: HostId
  np_tag :: RecordTag
  np_start :: "RecordIdx option"
  np_count :: nat

record argon =
  ph_new :: "string \<Rightarrow> string option"
  verify_password :: "string \<Rightarrow> string \<Rightarrow> bool"
  hash_password :: "string \<Rightarrow> string \<Rightarrow> string"

type_synonym ('s, 'a) handler = "('s, ErrorResponseStatus, 'a) io"

section \<open>Passwords and authentication\<close>

definition verify_str :: "argon \<Rightarrow> string \<Rightarrow> string \<Rightarrow> bool" where
  "verify_str A hash pw = (case ph_new A hash of None \<Rightarrow> False | Some h \<Rightarrow> verify_password A h pw)"

definition hash_secret :: "argon \<Rightarrow> string \<Rightarrow> string \<Rightarrow> string" where
  "hash_secret A salt pw = hash_password A pw salt"

definition from_request_parts :: "(bytes \<Rightarrow> string option) \<Rightarrow> 's database \<Rightarrow> bytes option \<Rightarrow> ('s, User) handler" where
  "from_request_parts to_str DB authorization =
     (case authorization of
        None \<Rightarrow> fail_io (reply ''missing authorization header'' 400)
      | Some h \<Rightarrow>
     (case to_str h of
        None \<Rightarrow> fail_io (reply ''invalid authorization header encoding'' 400)
      | Some auth_header \<Rightarrow>
     (case split_once (CHR '' '') auth_header of
        None \<Rightarrow> fail_io (reply ''invalid authorization header encoding'' 400)
      | Some (typ, token) \<Rightarrow>
          if typ \<noteq> ''Token'' then fail_io (reply ''invalid authorization header encoding'' 400)
          else map_err (\<lambda>e. case e of NotFound \<Rightarrow> reply ''session not found'' 403
                                    | OtherDb _ \<Rightarrow> reply ''could not query user session'' 500)
                 (db_get_session_user DB token))))"

section \<open>User handlers\<close>

definition user_get :: "'s database \<Rightarrow> string \<Rightarrow> ('s, string) handler" where
  "user_get DB name =
     bind_io (map_err (\<lambda>e. case e of NotFound \<Rightarrow> reply ''user not found'' 404 | OtherDb _ \<Rightarrow> reply ''database error'' 500)
         (db_get_user DB name))
       (\<lambda>u. ok_io (username u))"

definition username_char :: "char \<Rightarrow> bool" where
  "username_char c = (let n = of_char c :: nat in 97 \<le> n \<and> n \<le> 122 \<or> 65 \<le> n \<and> n \<le> 90 \<or> 48 \<le> n \<and> n \<le> 57 \<or> n = 45)"

definition register :: "argon \<Rightarrow> Settings \<Rightarrow> 's database \<Rightarrow> string \<Rightarrow> string \<Rightarrow> RegisterRequest \<Rightarrow> ('s, SessionResponse) handler" where
  "register A settings DB salt token req =
     (if \<not> open_registration settings then fail_io (reply ''this server is not open for registrations'' 400)
      else if \<not> list_all username_char (reg_username req)
      then fail_io (reply ''Only alphanumeric and hyphens (-) are allowed in usernames'' 400)
      else
        bind_io (map_err (\<lambda>_. reply ''failed to add user'' 400)
            (db_add_user DB \<lparr>nu_username = reg_username req, nu_email = reg_email req,
                             nu_password = hash_secret A salt (reg_password req)\<rparr>)) (\<lambda>uid.
        bind_io (map_err (\<lambda>_. reply ''failed to register user'' 400)
            (db_add_session DB \<lparr>ns_user_id = uid, ns_token = token\<rparr>)) (\<lambda>_.
          ok_io \<lparr>session = token, auth = Some ''cli''\<rparr>)))"

definition user_delete :: "'s database \<Rightarrow> User \<Rightarrow> ('s, unit) handler" where
  "user_delete DB user = map_err (\<lambda>_. reply ''failed to delete user'' 500) (db_delete_user DB user)"

definition change_password :: "argon \<Rightarrow> 's database \<Rightarrow> string \<Rightarrow> User \<Rightarrow> ChangePasswordRequest \<Rightarrow> ('s, unit) handler" where
  "change_password A DB salt user req =
     (if \<not> verify_str A (password user) (current_password req) then fail_io (reply ''password is not correct'' 401)
      else map_err (\<lambda>_. reply ''failed to change user password'' 500)
             (db_update_user_password DB (user\<lparr>password := hash_secret A salt (new_password req)\<rparr>)))"

definition login :: "argon \<Rightarrow> 's database \<Rightarrow> LoginRequest \<Rightarrow> ('s, SessionResponse) handler" where
  "login A DB req =
     bind_io (map_err (\<lambda>e. case e of NotFound \<Rightarrow> reply ''user not found'' 404 | OtherDb _ \<Rightarrow> reply ''database error'' 500)
         (db_get_user DB (login_username req))) (\<lambda>user.
     bind_io (map_err (\<lambda>e. case e of NotFound \<Rightarrow> reply ''user not found'' 404 | OtherDb _ \<Rightarrow> reply ''database error'' 500)
         (db_get_user_session DB user)) (\<lambda>sess.
       if \<not> verify_str A (password user) (login_password req) then fail_io (reply ''password is not correct'' 401)
       else ok_io \<lparr>session = session_token sess, auth = Some ''cli''\<rparr>))"

definition me_get :: "User \<Rightarrow> ('s, string) handler" where
  "me_get user = ok_io (username user)"

section \<open>Record handlers\<close>

definition record_post :: "Settings \<Rightarrow> 's database \<Rightarrow> User \<Rightarrow> EncryptedRecord list \<Rightarrow> ('s, unit) handler" where
  "record_post settings DB user records =
     (if \<not> list_all (\<lambda>r. length (raw (rec_data r)) \<le> max_record_size settings \<or> max_record_size settings = 0) records
      then fail_io (reply ''could not add records; record too large'' 400)
      else map_err (\<lambda>_. reply ''failed to add record'' 500) (db_add_records DB user records))"

definition record_index :: "'s database \<Rightarrow> User \<Rightarrow> ('s, RecordStatus) handler" where
  "record_index DB user = map_err (\<lambda>_. reply ''failed to calculate record index'' 500) (db_status DB user)"

definition record_next :: "'s database \<Rightarrow> User \<Rightarrow> NextParams \<Rightarrow> ('s, EncryptedRecord list) handler" where
  "record_next DB user params =
     map_err (\<lambda>_. reply ''failed to calculate record index'' 500)
       (db_next_records DB user (RecordSeriesKey_new (np_host params) (np_tag params)) (np_start params) (np_count params))"

definition store_delete :: "'s database \<Rightarrow> User \<Rightarrow> ('s, unit) handler" where
  "store_delete DB user = map_err (\<lambda>_. reply ''failed to delete store'' 500) (db_delete_store DB user)"

section \<open>Accounts\<close>

definition accounts_inv :: "'x server_tables_scheme \<Rightarrow> bool" where
  "accounts_inv t \<longleftrightarrow>
     distinct (map user_id (users t)) \<and> distinct (map username (users t)) \<and> distinct (map session_token (sessions t))
     \<and> (\<forall>u \<in> set (users t). user_id u \<le> users_seq t) \<and> (\<forall>s \<in> set (sessions t). session_user s \<le> users_seq t)"

text \<open>What is on the server right after a registration.\<close>

lemma register_healthy:
  assumes "healthy d" "open_registration S" "list_all username_char (reg_username req)"
    and "\<forall>u \<in> set (users (tables d)). \<not> user_clash ascii_lower
      \<lparr>nu_username = reg_username req, nu_email = reg_email req, nu_password = hash_secret A salt (reg_password req)\<rparr> u"
    and "token \<notin> session_token ` set (sessions (tables d))"
  shows "register A S sqlite_database salt token req d =
    (Inr \<lparr>session = token, auth = Some ''cli''\<rparr>, d\<lparr>tables := (tables d)
       \<lparr>users := users (tables d) @ [\<lparr>user_id = users_seq (tables d) + 1, username = reg_username req, email = reg_email req,
             password = hash_secret A salt (reg_password req)\<rparr>],
        users_seq := users_seq (tables d) + 1,
        sessions := sessions (tables d) @ [\<lparr>session_id = sessions_seq (tables d) + 1, session_user = users_seq (tables d) + 1, session_token = token\<rparr>],
        sessions_seq := sessions_seq (tables d) + 1\<rparr>\<rparr>)"
  using assms
  by (auto simp: register_def sqlite_database_def sqlite_add_user_def sqlite_add_session_def db_insert_def insert_user_def
      insert_session_def bind_io_def map_err_def sql_healthy)

lemma user_clash_name: "nu_username n = username u \<Longrightarrow> user_clash lower n u"
  by (simp add: user_clash_def)

lemma db_fetch_one_healthy [io_simps]:
  "healthy d \<Longrightarrow> db_fetch_one q d = (case q (tables d) of [] \<Rightarrow> Inl NotFound | x # _ \<Rightarrow> Inr x, d)"
  by (simp add: db_fetch_one_def bind_io_def map_err_def sql_query_healthy split: list.splits)

text \<open>What is left of each account operation, whichever statement fails.\<close>

lemma db_insert_cases:
  obtains e where "fst (db_insert f d) = Inl e" "tables (snd (db_insert f d)) = tables d"
  | i t where "fst (db_insert f d) = Inr i" "f (tables d) = Some (i, t)" "tables (snd (db_insert f d)) = t"
proof -
  consider (fault) e fs where "faults d = Some e # fs"
    | (clash) "\<nexists>e fs. faults d = Some e # fs" "f (tables d) = None"
    | (run) i t where "\<nexists>e fs. faults d = Some e # fs" "f (tables d) = Some (i, t)"
    by (metis option.exhaust prod.exhaust)
  then show ?thesis
  proof cases
    case fault
    then show ?thesis
      by (intro that(1) [of "OtherDb e"]) (simp_all add: db_insert_def bind_io_def map_err_def sql_def)
  next
    case clash
    then show ?thesis
      by (intro that(1) [of "OtherDb ''UNIQUE constraint failed''"])
        (auto simp: db_insert_def bind_io_def map_err_def sql_def split: list.splits option.splits)
  next
    case run
    then show ?thesis
      by (intro that(2) [of i t]) (auto simp: db_insert_def bind_io_def map_err_def sql_def split: list.splits option.splits)
  qed
qed

lemma insert_user_inv: "accounts_inv t \<Longrightarrow> insert_user lower n t = Some (i, t') \<Longrightarrow> accounts_inv t'"
  by (force simp: accounts_inv_def insert_user_def user_clash_def split: if_splits)

lemma insert_session_inv:
  "accounts_inv t \<Longrightarrow> ns_user_id n \<le> users_seq t \<Longrightarrow> insert_session n t = Some (i, t') \<Longrightarrow> accounts_inv t'"
  by (auto simp: accounts_inv_def insert_session_def split: if_splits)

lemma update_password_inv:
  assumes "accounts_inv t" "update_password u t = Some (i, t')"
  shows "accounts_inv t'"
proof -
  have "map f (map (\<lambda>v. if user_id v = user_id u then v\<lparr>password := password u\<rparr> else v) us) = map f us"
    if "\<And>v p. f (v\<lparr>password := p\<rparr>) = f v" for f :: "User \<Rightarrow> 'b" and us
    using that by simp
  from this [of user_id] this [of username] assms show ?thesis
    by (auto simp: accounts_inv_def update_password_def simp del: map_map split: if_splits) metis
qed

lemma accounts_inv_filter:
  "accounts_inv t \<Longrightarrow> accounts_inv (t\<lparr>sessions := filter p (sessions t)\<rparr>)"
  "accounts_inv t \<Longrightarrow> accounts_inv (t\<lparr>users := filter q (users t)\<rparr>)"
  "accounts_inv (t\<lparr>history_rows := h\<rparr>) = accounts_inv t"
  "accounts_inv (t\<lparr>user_store := st\<rparr>) = accounts_inv t"
  by (auto simp: accounts_inv_def distinct_map inj_on_def)

lemma map_err_tables: "tables (snd (map_err h m d)) = tables (snd (m d))"
  by (auto simp: map_err_def split: prod.splits sum.splits)

lemma bind_io_keeps:
  assumes "I (tables (snd (m d)))" "\<And>a d'. I (tables d') \<Longrightarrow> I (tables (snd (f a d')))"
  shows "I (tables (snd (bind_io m f d)))"
  using assms by (cases "m d") (auto simp: bind_io_def split: sum.splits)

lemma sql_exec_keeps:
  assumes "I (tables d)" "\<And>t. I t \<Longrightarrow> I (f t)"
  shows "I (tables (snd (map_err h (sql_exec f) d)))"
  using assms by (cases rule: sql_exec_cases [of f d]) (simp_all add: map_err_tables)

lemma db_insert_keeps:
  assumes "I (tables d)" "\<And>i t'. f (tables d) = Some (i, t') \<Longrightarrow> I t'"
  shows "I (tables (snd (db_insert f d)))"
  using assms by (cases rule: db_insert_cases [of f d]) simp_all

lemma sqlite_delete_user_inv:
  assumes "accounts_inv (tables d)"
  shows "accounts_inv (tables (snd (sqlite_delete_user u d)))"
  unfolding sqlite_delete_user_def using assms
  by (intro bind_io_keeps [where I = accounts_inv] sql_exec_keeps [where I = accounts_inv])
    (simp_all add: accounts_inv_filter)

lemma register_inv:
  assumes "accounts_inv (tables d)"
  shows "accounts_inv (tables (snd (register A S sqlite_database salt token req d)))"
proof (cases "open_registration S \<and> list_all username_char (reg_username req)")
  case True
  let ?n = "\<lparr>nu_username = reg_username req, nu_email = reg_email req, nu_password = hash_secret A salt (reg_password req)\<rparr>"
  show ?thesis
  proof (cases rule: db_insert_cases [of "insert_user ascii_lower ?n" d])
    case 1
    with True assms show ?thesis
      by (cases "db_insert (insert_user ascii_lower ?n) d")
        (simp add: register_def sqlite_database_def sqlite_add_user_def bind_io_def map_err_def)
  next
    case (2 i t)
    let ?d = "snd (db_insert (insert_user ascii_lower ?n) d)"
    have inv: "accounts_inv (tables ?d)" "i \<le> users_seq (tables ?d)"
      unfolding 2(3) using 2(2) insert_user_inv [OF assms 2(2)] by (auto simp: insert_user_def split: if_splits)
    have "accounts_inv (tables (snd (db_insert (insert_session \<lparr>ns_user_id = i, ns_token = token\<rparr>) ?d)))"
    proof (rule db_insert_keeps [where I = accounts_inv])
      show "accounts_inv (tables ?d)" by (rule inv(1))
      show "accounts_inv t'" if "insert_session \<lparr>ns_user_id = i, ns_token = token\<rparr> (tables ?d) = Some (j, t')" for j t'
        using inv(1) _ that by (rule insert_session_inv) (simp add: inv(2))
    qed
    with 2 True show ?thesis
      by (cases "db_insert (insert_user ascii_lower ?n) d")
        (auto simp: register_def sqlite_database_def sqlite_add_user_def sqlite_add_session_def bind_io_def map_err_def
          split: prod.splits sum.splits)
  qed
qed (use assms in \<open>auto simp: register_def\<close>)

lemma change_password_inv:
  assumes "accounts_inv (tables d)"
  shows "accounts_inv (tables (snd (change_password A sqlite_database salt u req d)))"
proof -
  have "accounts_inv (tables (snd (sqlite_update_user_password v d)))" for v
    unfolding sqlite_update_user_password_def using assms
    by (intro bind_io_keeps [where I = accounts_inv] db_insert_keeps [where I = accounts_inv]) (auto intro: update_password_inv)
  with assms show ?thesis by (simp add: change_password_def map_err_tables sqlite_database_def)
qed

lemma session_join_new:
  assumes "accounts_inv t" "token \<notin> session_token ` set (sessions t)"
    and "users t' = users t @ [u]" "sessions t' = sessions t @ [s]" "user_id u = users_seq t + 1"
    "session_user s = users_seq t + 1" "session_token s = token"
  shows "session_join token t' = [u]"
proof -
  have old: "filter (\<lambda>s. i = session_user s \<and> session_token s = token) (sessions t) = []" for i
    using assms(2) by (auto simp: filter_empty_conv)
  have "concat (map (\<lambda>v. map (\<lambda>_. v) (filter (\<lambda>s. user_id v = session_user s \<and> session_token s = token) (sessions t @ [s]))) (users t)) = []"
    using assms(1,6) by (force simp: old accounts_inv_def)
  then show ?thesis using assms(3-) old by (simp add: session_join_def)
qed

section \<open>Properties\<close>


definition argon_clear :: argon where
  "argon_clear = \<lparr>ph_new = Some, verify_password = (\<lambda>h pw. h = pw), hash_password = (\<lambda>pw salt. pw)\<rparr>"

definition server_empty :: "server_tables db" where
  "server_empty = \<lparr>tables = \<lparr>users = [], users_seq = 0, sessions = [], sessions_seq = 0, user_store = [], history_rows = []\<rparr>, faults = []\<rparr>"

definition ellie :: RegisterRequest where
  "ellie = \<lparr>reg_email = ''e@x'', reg_username = ''ellie'', reg_password = ''pw''\<rparr>"

abbreviation open_settings :: Settings where
  "open_settings \<equiv> \<lparr>open_registration = True, max_record_size = 4\<rparr>"

lemma ellie_chars: "list_all username_char (reg_username ellie)"
  by (simp add: ellie_def username_char_def)


text \<open>
  user ids, user names and session tokens stay unique, and no session outlives the range of
  ids given out, through registrations, password changes and deletions in which any statement may
  fail.
\<close>

theorem accounts_inv_preserved:
  assumes "accounts_inv (tables d)"
  shows "accounts_inv (tables (snd (register A S sqlite_database salt token req d)))
    \<and> accounts_inv (tables (snd (change_password A sqlite_database salt u creq d)))
    \<and> accounts_inv (tables (snd (user_delete sqlite_database u d)))"
  using assms register_inv change_password_inv sqlite_delete_user_inv
  by (simp add: user_delete_def sqlite_database_def map_err_tables)

theorem accounts_inv_preserved_witness:
  "accounts_inv (tables (snd (register argon_clear open_settings sqlite_database [] ''t0'' ellie server_empty)))"
  using accounts_inv_preserved [of server_empty] by (simp add: server_empty_def accounts_inv_def)

text \<open>
  A registration is two statements without a transaction. If storing the session fails after
  the user was added, the request is refused, but the name is taken for good: registering again
  fails, and logging in reports that there is no such user.
\<close>

theorem register_half_done:
  assumes "faults d = [None, Some e]" "accounts_inv (tables d)" "open_registration S"
    and "list_all username_char (reg_username req)"
    and "\<forall>u \<in> set (users (tables d)). \<not> user_clash ascii_lower
      \<lparr>nu_username = reg_username req, nu_email = reg_email req, nu_password = hash_secret A salt (reg_password req)\<rparr> u"
  shows "\<exists>d'. register A S sqlite_database salt token req d = (Inl (reply ''failed to register user'' 400), d') \<and> healthy d'
    \<and> (\<forall>salt' token'. fst (register A S sqlite_database salt' token' req d') = Inl (reply ''failed to add user'' 400))
    \<and> (\<forall>pw. fst (login A sqlite_database \<lparr>login_username = reg_username req, login_password = pw\<rparr> d')
         = Inl (reply ''user not found'' 404))"
proof -
  let ?u = "\<lparr>user_id = users_seq (tables d) + 1, username = reg_username req, email = reg_email req,
             password = hash_secret A salt (reg_password req)\<rparr>"
  let ?d = "d\<lparr>tables := (tables d)\<lparr>users := users (tables d) @ [?u], users_seq := users_seq (tables d) + 1\<rparr>, faults := []\<rparr>"
  have "register A S sqlite_database salt token req d = (Inl (reply ''failed to register user'' 400), ?d)"
    using assms by (auto simp: register_def sqlite_database_def sqlite_add_user_def sqlite_add_session_def db_insert_def
        insert_user_def bind_io_def map_err_def sql_def)
  moreover have "fst (register A S sqlite_database salt' token' req ?d) = Inl (reply ''failed to add user'' 400)" for salt' token'
    using assms(3,4) by (simp add: register_def sqlite_database_def sqlite_add_user_def db_insert_def
        insert_user_def bind_io_def map_err_def sql_def user_clash_def)
  moreover have "fst (login A sqlite_database \<lparr>login_username = reg_username req, login_password = pw\<rparr> ?d)
         = Inl (reply ''user not found'' 404)" for pw
  proof -
    have "filter (\<lambda>u. username u = reg_username req) (users (tables d)) = []"
      using assms(5) by (auto simp: filter_empty_conv user_clash_name)
    moreover have "filter (\<lambda>s. session_user s = users_seq (tables d) + 1) (sessions (tables d)) = []"
      using assms(2) by (force simp: filter_empty_conv accounts_inv_def)
    ultimately show ?thesis
      by (simp add: login_def sqlite_database_def sqlite_get_user_def sqlite_get_user_session_def
          db_fetch_one_healthy bind_io_def map_err_def)
  qed
  ultimately show ?thesis by (intro exI [of _ ?d]) simp
qed

theorem register_half_done_witness:
  "\<exists>d'. register argon_clear open_settings sqlite_database [] ''t0'' ellie (server_empty\<lparr>faults := [None, Some ''disk'']\<rparr>)
       = (Inl (reply ''failed to register user'' 400), d')
     \<and> fst (register argon_clear open_settings sqlite_database [] ''t1'' ellie d') = Inl (reply ''failed to add user'' 400)"
  using register_half_done [of "server_empty\<lparr>faults := [None, Some ''disk'']\<rparr>" "''disk''" open_settings ellie argon_clear "[]" "''t0''"]
    ellie_chars
  by (auto simp: server_empty_def accounts_inv_def)

text \<open>
  posting. A batch with a record over the limit is refused as a whole with 400 and changes
  nothing; a limit of 0 is no limit. A batch within the limit is added to the rows of its user,
  keeping what was there on a conflict; the rows of other users stay. The same holds of both
  databases.
\<close>

theorem record_post_behaviour:
  assumes "healthy d" "healthy p" "cache_inv (tables p)" "\<forall>r \<in> set rs. i64_range (rec_idx r)"
  shows "(if max_record_size S \<noteq> 0 \<and> (\<exists>r \<in> set rs. max_record_size S < length (raw (rec_data r)))
     then record_post S sqlite_database u rs d = (Inl (reply ''could not add records; record too large'' 400), d)
       \<and> record_post S (pg_database E c) u rs p = (Inl (reply ''could not add records; record too large'' 400), p)
     else (\<exists>d'. record_post S sqlite_database u rs d = (Inr (), d')
          \<and> sqlite_rows d' = (sqlite_rows d)(user_id u := foldl (insert_unless row_clash) (sqlite_rows d (user_id u)) (map to_row rs)))
       \<and> (\<exists>p'. record_post S (pg_database E c) u rs p = (Inr (), p')
          \<and> sqlite_rows p' = (sqlite_rows p)(user_id u := foldl (insert_unless row_clash) (sqlite_rows p (user_id u)) (map to_row rs))))"
proof -
  have keep: "list_all (\<lambda>r. length (raw (rec_data r)) \<le> max_record_size S \<or> max_record_size S = 0) rs
      \<longleftrightarrow> \<not> (max_record_size S \<noteq> 0 \<and> (\<exists>r \<in> set rs. max_record_size S < length (raw (rec_data r))))"
    by (auto simp: list_all_iff not_le)
  obtain d' where d': "db_add_records sqlite_database u rs d = (Inr (), d')"
      "sqlite_rows d' = (sqlite_rows d)(user_id u := foldl (insert_unless row_clash) (sqlite_rows d (user_id u)) (map to_row rs))"
    using sqlite.add [OF assms(1), of rs u] by (auto simp: fun_eq_iff)
  obtain p' where p': "db_add_records (pg_database E c) u rs p = (Inr (), p')"
      "sqlite_rows p' = (sqlite_rows p)(user_id u := foldl (insert_unless row_clash) (sqlite_rows p (user_id u)) (map to_row rs))"
    using pg.add [of p rs E c u] assms by (auto simp: fun_eq_iff)
  show ?thesis unfolding record_post_def keep using d' p' by (auto simp: map_err_def)
qed

lemma example_facts:
  "user_id alice = 1" "length (raw (rec_data posted_1)) = 1" "rec_idx posted_1 = 0"
  "sqlite_rows server_empty = (\<lambda>_. [])" "healthy server_empty" "healthy pg_empty" "cache_inv (tables pg_empty)"
  by (simp_all add: alice_def posted_1_def Record_build_def server_empty_def pg_empty_def cache_inv_def user_rows_def
      q_status_def fun_eq_iff)

theorem record_post_behaviour_witness:
  "record_post open_settings sqlite_database alice [posted_1\<lparr>rec_data := \<lparr>raw = ''12345'', cek = []\<rparr>\<rparr>] server_empty
     = (Inl (reply ''could not add records; record too large'' 400), server_empty)
   \<and> (\<exists>d'. record_post open_settings sqlite_database alice [posted_1] server_empty = (Inr (), d')
        \<and> sqlite_rows d' 1 = [to_row posted_1])"
proof -
  let ?E = "\<lparr>pg_lower = id, pg_chars = length\<rparr>"
  note post = record_post_behaviour [OF example_facts(5-7), where E = ?E and c = True and S = open_settings and u = alice]
  show ?thesis
    using post [of "[posted_1\<lparr>rec_data := \<lparr>raw = ''12345'', cek = []\<rparr>\<rparr>]"] post [of "[posted_1]"]
    by (auto simp: example_facts insert_unless_def)
qed



text \<open>
  Deleting an account removes its sessions, its user and its old-protocol history, so the
  token no longer authenticates; but the SQLite server keeps every record the user had synced
  (the Postgres server removes them).
\<close>

theorem delete_user_keeps_store:
  assumes "healthy d" "healthy p"
  shows "\<exists>d' p'. user_delete sqlite_database u d = (Inr (), d') \<and> user_delete (pg_database E c) u p = (Inr (), p')
    \<and> user_id u \<notin> user_id ` set (users (tables d')) \<and> user_id u \<notin> session_user ` set (sessions (tables d'))
    \<and> (\<forall>token. user_id u \<notin> user_id ` set (session_join token (tables d')))
    \<and> sqlite_rows d' (user_id u) = sqlite_rows d (user_id u)
    \<and> sqlite_rows p' (user_id u) = []"
  using assms
  by (auto simp: user_delete_def sqlite_database_def pg_database_def sqlite_delete_user_def pg_delete_user_def
      bind_io_def map_err_def sql_exec_healthy session_join_def user_rows_wipe)

theorem delete_user_keeps_store_witness:
  "\<exists>d'. user_delete sqlite_database alice (snd (record_post open_settings sqlite_database alice [posted_1] server_empty)) = (Inr (), d')
     \<and> sqlite_rows d' 1 = [to_row posted_1]"
proof -
  obtain d where d: "record_post open_settings sqlite_database alice [posted_1] server_empty = (Inr (), d)"
      "healthy d" "sqlite_rows d 1 = [to_row posted_1]"
    using sqlite.add [OF example_facts(5), of "[posted_1]" alice]
    by (auto simp: record_post_def map_err_def example_facts insert_unless_def)
  with delete_user_keeps_store [OF d(2), of pg_empty alice undefined undefined] show ?thesis
    by (auto simp: pg_empty_def alice_def)
qed

end
