(* ===== verification/Range_Chunks.thy ===== *)
theory Range_Chunks
  imports Prelude
begin

text \<open>
  Splitting an index range into pages, \<open>atuin-common/src/range/chunks.rs\<close>, at the type \<open>u64\<close> the
  sync engine uses. The iterator is the record \<open>Chunks\<close> with \<open>chunks_next\<close>; \<open>chunk_list\<close> runs it to
  its end with as much fuel as the range has indices, which is enough because every chunk takes
  at least one index.
\<close>

definition u64_max :: nat where
  "u64_max = 2 ^ 64 - 1"

definition saturating_advance :: "nat \<Rightarrow> nat \<Rightarrow> nat" where
  "saturating_advance i by_n = min (i + by_n) u64_max"

definition into_nonzero_saturating :: "nat \<Rightarrow> nat" where
  "into_nonzero_saturating n = (if n = 0 then 1 else n)"

record Chunks =
  chunk_cursor :: nat
  chunk_end :: nat
  chunk_size :: nat

definition Chunks_new :: "nat \<Rightarrow> nat \<Rightarrow> nat \<Rightarrow> Chunks" where
  "Chunks_new range_start range_end n =
     \<lparr>chunk_cursor = range_start, chunk_end = range_end, chunk_size = into_nonzero_saturating n\<rparr>"

definition chunks_next :: "Chunks \<Rightarrow> ((nat \<times> nat) \<times> Chunks) option" where
  "chunks_next c =
     (if chunk_cursor c \<ge> chunk_end c then None
      else let stop = min (saturating_advance (chunk_cursor c) (chunk_size c)) (chunk_end c)
           in Some ((chunk_cursor c, stop), c\<lparr>chunk_cursor := stop\<rparr>))"

primrec collect_chunks :: "nat \<Rightarrow> Chunks \<Rightarrow> (nat \<times> nat) list" where
  "collect_chunks 0 c = []"
| "collect_chunks (Suc n) c =
     (case chunks_next c of None \<Rightarrow> [] | Some (p, c') \<Rightarrow> p # collect_chunks n c')"

definition chunk_list :: "Chunks \<Rightarrow> (nat \<times> nat) list" where
  "chunk_list c = collect_chunks (chunk_end c - chunk_cursor c) c"

section \<open>Lemmas\<close>

lemma chunks_next_step:
  assumes "chunk_cursor c < chunk_end c" "chunk_end c \<le> u64_max"
  shows "chunks_next c =
    Some ((chunk_cursor c, min (chunk_cursor c + chunk_size c) (chunk_end c)),
      c\<lparr>chunk_cursor := min (chunk_cursor c + chunk_size c) (chunk_end c)\<rparr>)"
  using assms by (simp add: chunks_next_def saturating_advance_def min.assoc Let_def)

lemma chunks_next_None: "chunk_end c \<le> chunk_cursor c \<Longrightarrow> chunks_next c = None"
  by (simp add: chunks_next_def)

text \<open>More fuel than indices left makes no difference.\<close>

lemma collect_chunks_enough:
  assumes "0 < chunk_size c" "chunk_end c \<le> u64_max" "chunk_end c - chunk_cursor c \<le> n"
  shows "collect_chunks n c = chunk_list c"
  using assms
proof (induction n arbitrary: c rule: less_induct)
  case (less n)
  show ?case
  proof (cases "chunk_cursor c < chunk_end c")
    case False
    then show ?thesis by (cases n) (auto simp: chunk_list_def chunks_next_None)
  next
    case True
    define c' where "c' = c\<lparr>chunk_cursor := min (chunk_cursor c + chunk_size c) (chunk_end c)\<rparr>"
    from True obtain m where m: "chunk_end c - chunk_cursor c = Suc m" by (cases "chunk_end c - chunk_cursor c") auto
    with less.prems obtain n' where n: "n = Suc n'" by (cases n) auto
    note step = chunks_next_step [OF True less.prems(2), folded c'_def]
    have smaller: "chunk_end c' - chunk_cursor c' \<le> m"
      using less.prems(1) True m by (auto simp: c'_def)
    have "collect_chunks n' c' = chunk_list c'"
      using less.prems n smaller m by (intro less.IH) (auto simp: c'_def)
    moreover have "collect_chunks m c' = chunk_list c'"
      using less.prems n smaller m by (cases "m < n") (auto simp: c'_def intro: less.IH)
    ultimately show ?thesis
      using n m step by (simp add: chunk_list_def)
  qed
qed

lemma chunk_list_unfold:
  assumes "0 < chunk_size c" "chunk_end c \<le> u64_max"
  shows "chunk_list c =
    (if chunk_cursor c < chunk_end c
     then (chunk_cursor c, min (chunk_cursor c + chunk_size c) (chunk_end c))
          # chunk_list (c\<lparr>chunk_cursor := min (chunk_cursor c + chunk_size c) (chunk_end c)\<rparr>)
     else [])"
proof (cases "chunk_cursor c < chunk_end c")
  case True
  then have "Suc (chunk_end c - chunk_cursor c - 1) = chunk_end c - chunk_cursor c" by simp
  then have "chunk_list c = collect_chunks (Suc (chunk_end c - chunk_cursor c - 1)) c"
    by (simp only: chunk_list_def)
  then show ?thesis
    using True assms by (auto simp: chunks_next_step intro!: collect_chunks_enough)
qed (simp add: chunk_list_def)

lemma chunk_list_induct [consumes 2, case_names finished step]:
  assumes "0 < chunk_size c" "chunk_end c \<le> u64_max"
    and "\<And>c. chunk_end c \<le> chunk_cursor c \<Longrightarrow> Q c"
    and "\<And>c. 0 < chunk_size c \<Longrightarrow> chunk_end c \<le> u64_max \<Longrightarrow> chunk_cursor c < chunk_end c \<Longrightarrow>
          Q (c\<lparr>chunk_cursor := min (chunk_cursor c + chunk_size c) (chunk_end c)\<rparr>) \<Longrightarrow> Q c"
  shows "Q c"
  using assms(1,2)
proof (induction n \<equiv> "chunk_end c - chunk_cursor c" arbitrary: c rule: less_induct)
  case less
  show ?case
  proof (cases "chunk_cursor c < chunk_end c")
    case True
    define c' where "c' = c\<lparr>chunk_cursor := min (chunk_cursor c + chunk_size c) (chunk_end c)\<rparr>"
    have "chunk_end c' - chunk_cursor c' < chunk_end c - chunk_cursor c" "0 < chunk_size c'" "chunk_end c' \<le> u64_max"
      using less.prems True by (auto simp: c'_def)
    then have "Q c'" by (rule less.hyps)
    then show ?thesis unfolding c'_def by (rule assms(4) [OF less.prems True])
  next
    case False
    then have "chunk_end c \<le> chunk_cursor c" by simp
    then show ?thesis by (rule assms(3))
  qed
qed

lemma chunk_list_tiles:
  assumes "0 < chunk_size c" "chunk_end c \<le> u64_max"
  shows "concat (map (\<lambda>(a, b). [a..<b]) (chunk_list c)) = [chunk_cursor c..<chunk_end c]"
  using assms
proof (induction c rule: chunk_list_induct)
  case (finished c)
  then show ?case by (simp add: chunk_list_def)
next
  case (step c)
  let ?m = "min (chunk_cursor c + chunk_size c) (chunk_end c)"
  have "[chunk_cursor c..<?m] @ [?m..<chunk_end c] = [chunk_cursor c..<chunk_end c]"
    using step upt_add_eq_append [of "chunk_cursor c" ?m "chunk_end c - ?m"] by simp
  with step show ?case by (simp add: chunk_list_unfold [of c])
qed

lemma chunk_list_widths:
  assumes "0 < chunk_size c" "chunk_end c \<le> u64_max"
  shows "\<forall>(a, b) \<in> set (chunk_list c). chunk_cursor c \<le> a \<and> a < b \<and> b \<le> chunk_end c
    \<and> (b - a = chunk_size c \<or> b = chunk_end c \<and> b - a < chunk_size c)"
  using assms
proof (induction c rule: chunk_list_induct)
  case (finished c)
  then show ?case by (simp add: chunk_list_def)
next
  case (step c)
  then show ?case by (subst chunk_list_unfold) (fastforce split: if_splits)+
qed

section \<open>Properties\<close>

text \<open>
  the chunks of a range tile it: read one after the other they enumerate exactly the indices
  of the range, each is non-empty, and each has the requested width except a last one that the
  end of the range cuts short. A width of 0 counts as 1.
\<close>

theorem chunks_tile_range:
  assumes "e \<le> u64_max"
  shows "concat (map (\<lambda>(a, b). [a..<b]) (chunk_list (Chunks_new s e n))) = [s..<e]
    \<and> (\<forall>(a, b) \<in> set (chunk_list (Chunks_new s e n)). a < b
         \<and> (b - a = max 1 n \<or> b = e \<and> b - a < max 1 n))"
proof -
  let ?c = "Chunks_new s e n"
  have "0 < chunk_size ?c" "chunk_end ?c \<le> u64_max"
    using assms by (simp_all add: Chunks_new_def into_nonzero_saturating_def)
  from chunk_list_tiles [OF this] chunk_list_widths [OF this] show ?thesis
    by (auto simp: Chunks_new_def into_nonzero_saturating_def split: if_splits)
qed

theorem chunks_tile_range_witness:
  "concat (map (\<lambda>(a, b). [a..<b]) (chunk_list (Chunks_new 3 9 4))) = [3..<9]"
  using chunks_tile_range [of 9 3 4] by (simp add: u64_max_def)

end
