(* ===== verification/Api_Client.thy ===== *)
theory Api_Client
  imports Server_Handlers Range_Chunks
begin

text \<open>
  The client of the sync API, \<open>atuin-client/src/api_client.rs\<close>, and the server's routes it talks to
  (\<open>atuin-server/src/router.rs\<close>).

  The HTTP transport is a parameter \<open>net\<close>: a fallible computation per request that returns a
  response. Bodies are typed values, the JSON encoding in between is not modelled. Version
  parsing (\<open>semver\<close>) and header decoding are the parameter \<open>api_env\<close>. \<open>serve\<close> is the transport that
  the routes and handlers of the server give.

  \<open>stream_pages\<close> is \<open>RecordsRequest::stream\<close> with its consumer: the pages of the plan, which the
  code prefetches concurrently but yields in order, and the serial recovery after a short page.
  Fetching a page changes no state of the server, so fetching right before consuming is the same.

  Shown: the stream yields every record of the range in order, each once, also from a server that
  cuts pages short.
\<close>

datatype AuthToken = Bearer string | Token string

fun to_header_value :: "AuthToken \<Rightarrow> string" where
  "to_header_value (Bearer t) = ''Bearer '' @ t"
| "to_header_value (Token t) = ''Token '' @ t"

datatype http_request =
    GetNext HostId string nat nat
  | PostRecords "EncryptedRecord list"
  | GetIndex
  | DeleteStore
  | GetMe
  | PostPackfile RecordId "RecordId list" nat
  | PutBlob string bytes
  | ConfirmPackfile RecordId
  | GetPackfileUrl RecordId
  | GetBlob string

datatype http_body =
    RecordsBody "EncryptedRecord list"
  | StatusBody RecordStatus
  | NameBody string
  | UrlBody string
  | BlobBody bytes
  | ErrorBody string
  | EmptyBody
  | OtherBody string

record http_response =
  resp_status :: nat
  resp_version :: "bytes option"
  resp_body :: http_body

type_synonym 'r http = "http_request \<Rightarrow> ('r, string, http_response) io"

record api_env =
  header_str :: "bytes \<Rightarrow> string option"
  semver_major :: "string \<Rightarrow> string + nat"
  atuin_major :: nat
  version_header :: bytes

datatype api_error =
    TransportError string
  | ServiceUnavailable
  | RateLimited
  | InvalidRequest nat string
  | ServerError nat string
  | UnknownError nat http_body
  | VersionUnreadable
  | VersionMissing
  | VersionInvalid string
  | VersionMismatch
  | UnexpectedBody

section \<open>Requests\<close>

definition handle_resp_error :: "http_response \<Rightarrow> api_error + http_response" where
  "handle_resp_error resp =
     (let status = resp_status resp in
      if status = 503 then Inl ServiceUnavailable
      else if status = 429 then Inl RateLimited
      else if \<not> (200 \<le> status \<and> status < 300) then
        (case resp_body resp of
           ErrorBody r \<Rightarrow> if 400 \<le> status \<and> status < 500 then Inl (InvalidRequest status r) else Inl (ServerError status r)
         | b \<Rightarrow> Inl (UnknownError status b))
      else Inr resp)"

definition ensure_version :: "api_env \<Rightarrow> http_response \<Rightarrow> api_error + bool" where
  "ensure_version A resp =
     (case resp_version resp of
        None \<Rightarrow> Inl VersionMissing
      | Some h \<Rightarrow>
          (case header_str A h of
             None \<Rightarrow> Inl VersionUnreadable
           | Some v \<Rightarrow>
               (case semver_major A v of
                  Inl e \<Rightarrow> Inl (VersionInvalid e)
                | Inr major \<Rightarrow> Inr (\<not> major < atuin_major A))))"

definition request :: "'r http \<Rightarrow> http_request \<Rightarrow> ('r, api_error, http_response) io" where
  "request net req = bind_io (map_err TransportError (net req)) (\<lambda>resp. lift_result (handle_resp_error resp))"

definition page :: "'r http \<Rightarrow> RecordSeriesKey \<Rightarrow> RecordIdx \<times> RecordIdx \<Rightarrow> ('r, api_error, EncryptedRecord list) io" where
  "page net s p =
     bind_io (request net (GetNext (series_host s) (tag_as_str (series_tag s)) (fst p) (u64_sub (snd p) (fst p))))
       (\<lambda>resp. case resp_body resp of RecordsBody rs \<Rightarrow> ok_io rs | _ \<Rightarrow> fail_io UnexpectedBody)"

definition record_status :: "api_env \<Rightarrow> 'r http \<Rightarrow> ('r, api_error, RecordStatus) io" where
  "record_status A net =
     bind_io (request net GetIndex) (\<lambda>resp.
     bind_io (lift_result (ensure_version A resp)) (\<lambda>good.
       if \<not> good then fail_io VersionMismatch
       else (case resp_body resp of StatusBody st \<Rightarrow> ok_io st | _ \<Rightarrow> fail_io UnexpectedBody)))"

definition post_records :: "'r http \<Rightarrow> EncryptedRecord list \<Rightarrow> ('r, api_error, unit) io" where
  "post_records net records = bind_io (request net (PostRecords records)) (\<lambda>_. ok_io ())"

definition delete_remote_store :: "'r http \<Rightarrow> ('r, api_error, unit) io" where
  "delete_remote_store net = bind_io (request net DeleteStore) (\<lambda>_. ok_io ())"

definition me :: "'r http \<Rightarrow> ('r, api_error, string) io" where
  "me net = bind_io (request net GetMe) (\<lambda>resp. case resp_body resp of NameBody n \<Rightarrow> ok_io n | _ \<Rightarrow> fail_io UnexpectedBody)"

definition confirm_packfile :: "'r http \<Rightarrow> RecordId \<Rightarrow> ('r, api_error, unit) io" where
  "confirm_packfile net mid = bind_io (request net (ConfirmPackfile mid)) (\<lambda>_. ok_io ())"

definition put_packfile :: "'r http \<Rightarrow> string \<Rightarrow> bytes \<Rightarrow> ('r, api_error, unit) io" where
  "put_packfile net url blob = bind_io (request net (PutBlob url blob)) (\<lambda>_. ok_io ())"

definition upload_packfile :: "'r http \<Rightarrow> RecordId \<Rightarrow> RecordId list \<Rightarrow> bytes \<Rightarrow> ('r, api_error, unit) io" where
  "upload_packfile net mid ids blob =
     bind_io (request net (PostPackfile mid ids (length blob))) (\<lambda>resp.
       case resp_body resp of
         UrlBody url \<Rightarrow> bind_io (put_packfile net url blob) (\<lambda>_. bind_io (confirm_packfile net mid) (\<lambda>_. ok_io ()))
       | _ \<Rightarrow> fail_io UnexpectedBody)"

definition upload_packfiles :: "'r http \<Rightarrow> (RecordId \<times> RecordId list \<times> bytes) list \<Rightarrow> ('r, api_error, unit) io" where
  "upload_packfiles net packs = for_each (\<lambda>(mid, ids, blob). upload_packfile net mid ids blob) packs"

definition get_packfile_download_url :: "'r http \<Rightarrow> RecordId \<Rightarrow> ('r, api_error, string) io" where
  "get_packfile_download_url net mid =
     bind_io (request net (GetPackfileUrl mid)) (\<lambda>resp. case resp_body resp of UrlBody url \<Rightarrow> ok_io url | _ \<Rightarrow> fail_io UnexpectedBody)"

definition download_packfile :: "'r http \<Rightarrow> RecordId \<Rightarrow> ('r, api_error, bytes) io" where
  "download_packfile net mid =
     bind_io (get_packfile_download_url net mid) (\<lambda>url.
     bind_io (request net (GetBlob url)) (\<lambda>resp. case resp_body resp of BlobBody b \<Rightarrow> ok_io b | _ \<Rightarrow> fail_io UnexpectedBody))"

definition records_one :: "'r http \<Rightarrow> RecordSeriesKey \<Rightarrow> ('r, api_error, EncryptedRecord option) io" where
  "records_one net s = bind_io (page net s (0, 1)) (\<lambda>p. ok_io (case p of [] \<Rightarrow> None | r # _ \<Rightarrow> Some r))"

section \<open>The stream of pages\<close>

text \<open>The planned pages in order, until a page is empty or short.\<close>

primrec stream_parallel ::
  "(nat \<times> nat \<Rightarrow> ('w, 'e, 'a list) io) \<Rightarrow> ('a list \<Rightarrow> ('w, 'e, unit) io) \<Rightarrow> (nat \<times> nat) list \<Rightarrow> nat \<Rightarrow> ('w, 'e, bool \<times> nat) io" where
  "stream_parallel fetch consume [] progress = ok_io (False, progress)"
| "stream_parallel fetch consume (p # ps) progress =
     bind_io (fetch p) (\<lambda>page.
       if page = [] then ok_io (False, progress)
       else bind_io (consume page) (\<lambda>_.
         if length page < snd p - fst p then ok_io (True, progress + length page)
         else stream_parallel fetch consume ps (progress + length page)))"

text \<open>From the first index that has not arrived, one page after the other.\<close>

function stream_serial ::
  "(nat \<times> nat \<Rightarrow> ('w, 'e, 'a list) io) \<Rightarrow> ('a list \<Rightarrow> ('w, 'e, unit) io) \<Rightarrow> nat \<Rightarrow> nat \<Rightarrow> nat \<Rightarrow> ('w, 'e, unit) io" where
  "stream_serial fetch consume width stop cursor w =
     (if cursor \<ge> stop then (Inr (), w)
      else (case fetch (cursor, min (u64_add cursor width) stop) w of
              (Inl e, w1) \<Rightarrow> (Inl e, w1)
            | (Inr rs, w1) \<Rightarrow>
                if rs = [] then (Inr (), w1)
                else (case consume rs w1 of
                        (Inl e, w2) \<Rightarrow> (Inl e, w2)
                      | (Inr _, w2) \<Rightarrow> stream_serial fetch consume width stop (cursor + length rs) w2)))"
  by pat_completeness auto

termination
  by (relation "measure (\<lambda>(fetch, consume, width, stop, cursor, w). stop - cursor)") (auto intro!: diff_less_mono2)

declare stream_serial.simps [simp del]

definition stream_pages ::
  "(nat \<times> nat \<Rightarrow> ('w, 'e, 'a list) io) \<Rightarrow> ('a list \<Rightarrow> ('w, 'e, unit) io) \<Rightarrow> Chunks \<Rightarrow> ('w, 'e, unit) io" where
  "stream_pages fetch consume chunks =
     bind_io (stream_parallel fetch consume (chunk_list chunks) 0) (\<lambda>(short_page, progress).
       if short_page
       then stream_serial fetch consume (chunk_size chunks) (chunk_end chunks) (chunk_cursor chunks + progress)
       else ok_io ())"

section \<open>What the stream does\<close>

text \<open>
  A source of pages over a range: every page asked for starts at the asked index, has at least one
  and at most the asked number of items, and asking changes nothing. \<open>I c w\<close> says that the
  consumer has taken all items below \<open>c\<close>.
\<close>

definition page_source :: "(nat \<times> nat \<Rightarrow> ('w, 'e, 'a list) io) \<Rightarrow> (nat \<Rightarrow> 'a) \<Rightarrow> (nat \<Rightarrow> 'w \<Rightarrow> bool) \<Rightarrow> nat \<Rightarrow> bool" where
  "page_source fetch item I stop \<longleftrightarrow>
     (\<forall>c b w. I c w \<longrightarrow> c < b \<longrightarrow> b \<le> stop \<longrightarrow>
        (\<exists>len. 1 \<le> len \<and> len \<le> b - c \<and> fetch (c, b) w = (Inr (map item [c..<c + len]), w)))"

definition page_sink :: "('a list \<Rightarrow> ('w, 'e, unit) io) \<Rightarrow> (nat \<Rightarrow> 'a) \<Rightarrow> (nat \<Rightarrow> 'w \<Rightarrow> bool) \<Rightarrow> nat \<Rightarrow> bool" where
  "page_sink consume item I stop \<longleftrightarrow>
     (\<forall>c len w. I c w \<longrightarrow> 1 \<le> len \<longrightarrow> c + len \<le> stop \<longrightarrow>
        (\<exists>w'. consume (map item [c..<c + len]) w = (Inr (), w') \<and> I (c + len) w'))"

lemma page_sourceE:
  assumes "page_source fetch item I stop" "I c w" "c < b" "b \<le> stop"
  obtains len where "1 \<le> len" "len \<le> b - c" "fetch (c, b) w = (Inr (map item [c..<c + len]), w)"
  using assms unfolding page_source_def by blast

lemma page_sinkE:
  assumes "page_sink consume item I stop" "I c w" "1 \<le> len" "c + len \<le> stop"
  obtains w' where "consume (map item [c..<c + len]) w = (Inr (), w')" "I (c + len) w'"
  using assms unfolding page_sink_def by blast

lemma stream_serial_all:
  assumes src: "page_source fetch item I stop" and snk: "page_sink consume item I stop"
    and n: "0 < n" "stop + n < 2 ^ 64"
  shows "I c w \<Longrightarrow> c \<le> stop \<Longrightarrow> \<exists>w'. stream_serial fetch consume n stop c w = (Inr (), w') \<and> I stop w'"
proof (induction "stop - c" arbitrary: c w rule: less_induct)
  case less
  show ?case
  proof (cases "c = stop")
    case True
    with less.prems show ?thesis by (simp add: stream_serial.simps)
  next
    case False
    let ?b = "min (u64_add c n) stop"
    have b: "c < ?b" "?b \<le> stop" using False less.prems n by auto
    obtain len where len: "1 \<le> len" "len \<le> ?b - c" "fetch (c, ?b) w = (Inr (map item [c..<c + len]), w)"
      using src less.prems(1) b by (rule page_sourceE)
    have le: "c + len \<le> stop" using len b by linarith
    obtain w1 where w1: "consume (map item [c..<c + len]) w = (Inr (), w1)" "I (c + len) w1"
      using snk less.prems(1) len(1) le by (rule page_sinkE)
    have "stop - (c + len) < stop - c" using len(1) False less.prems(2) by linarith
    from less.hyps [OF this w1(2) le] obtain w' where "stream_serial fetch consume n stop (c + len) w1 = (Inr (), w')" "I stop w'" by auto
    then have "stream_serial fetch consume n stop c w = (Inr (), w') \<and> I stop w'"
      using False less.prems(2) len w1 by (subst stream_serial.simps) auto
    then show ?thesis by blast
  qed
qed

lemma stream_parallel_all:
  assumes "0 < chunk_size ch" "chunk_end ch \<le> u64_max"
    and "chunk_cursor ch \<le> chunk_end ch" "I (chunk_cursor ch) w"
    and src: "page_source fetch item I (chunk_end ch)" and snk: "page_sink consume item I (chunk_end ch)"
  shows "\<exists>short progress w'. stream_parallel fetch consume (chunk_list ch) p w = (Inr (short, p + progress), w')
      \<and> I (chunk_cursor ch + progress) w' \<and> chunk_cursor ch + progress \<le> chunk_end ch
      \<and> (\<not> short \<longrightarrow> chunk_cursor ch + progress = chunk_end ch)"
  using assms
proof (induction ch arbitrary: p w rule: chunk_list_induct)
  case (finished ch)
  then show ?case by (auto simp: chunk_list_def intro!: exI [of _ 0])
next
  case (step ch)
  let ?c = "chunk_cursor ch" and ?b = "min (chunk_cursor ch + chunk_size ch) (chunk_end ch)"
  let ?ch = "ch\<lparr>chunk_cursor := ?b\<rparr>"
  have b: "?c < ?b" "?b \<le> chunk_end ch" using step by auto
  obtain len where len: "1 \<le> len" "len \<le> ?b - ?c" "fetch (?c, ?b) w = (Inr (map item [?c..<?c + len]), w)"
    using step.prems(3,2) b by (rule page_sourceE)
  have le: "?c + len \<le> chunk_end ch" using len b by linarith
  obtain w1 where w1: "consume (map item [?c..<?c + len]) w = (Inr (), w1)" "I (?c + len) w1"
    using step.prems(4,2) len(1) le by (rule page_sinkE)
  have run: "stream_parallel fetch consume (chunk_list ch) p w =
      (if len < ?b - ?c then (Inr (True, p + len), w1) else stream_parallel fetch consume (chunk_list ?ch) (p + len) w1)"
    using step.hyps len w1 by (subst chunk_list_unfold) (auto simp: bind_io_def)
  show ?case
  proof (cases "len < ?b - ?c")
    case True
    with run w1(2) le show ?thesis by auto
  next
    case False
    with len b have eq: "?c + len = ?b" by linarith
    have "\<exists>short progress w'. stream_parallel fetch consume (chunk_list ?ch) (p + len) w1 = (Inr (short, (p + len) + progress), w')
      \<and> I (chunk_cursor ?ch + progress) w' \<and> chunk_cursor ?ch + progress \<le> chunk_end ?ch
      \<and> (\<not> short \<longrightarrow> chunk_cursor ?ch + progress = chunk_end ?ch)"
      using step.prems w1(2) b unfolding eq by (intro step.IH) auto
    then obtain short progress w' where "stream_parallel fetch consume (chunk_list ?ch) (p + len) w1 = (Inr (short, p + len + progress), w')"
        "I (?b + progress) w'" "?b + progress \<le> chunk_end ch" "\<not> short \<longrightarrow> ?b + progress = chunk_end ch"
      by auto
    with run False eq show ?thesis
      by (intro exI [of _ short] exI [of _ "len + progress"] exI [of _ w']) (auto simp: add.assoc [symmetric])
  qed
qed

lemma stream_pages_all:
  assumes src: "page_source fetch item I (chunk_end ch)" and snk: "page_sink consume item I (chunk_end ch)"
    and ch: "0 < chunk_size ch" "chunk_end ch + chunk_size ch < 2 ^ 64" "chunk_cursor ch \<le> chunk_end ch" "I (chunk_cursor ch) w"
  shows "\<exists>w'. stream_pages fetch consume ch w = (Inr (), w') \<and> I (chunk_end ch) w'"
proof -
  have "chunk_end ch \<le> u64_max" using ch(2) by (simp add: u64_max_def)
  with stream_parallel_all [OF ch(1) _ ch(3,4) src snk, of 0] obtain short progress w1 where
      run: "stream_parallel fetch consume (chunk_list ch) 0 w = (Inr (short, progress), w1)"
      "I (chunk_cursor ch + progress) w1" "chunk_cursor ch + progress \<le> chunk_end ch"
      "\<not> short \<longrightarrow> chunk_cursor ch + progress = chunk_end ch"
    by auto
  show ?thesis
  proof (cases short)
    case True
    with run stream_serial_all [OF src snk ch(1,2) run(2,3)] show ?thesis by (simp add: stream_pages_def bind_io_def)
  next
    case False
    with run show ?thesis by (simp add: stream_pages_def bind_io_def)
  qed
qed

section \<open>Properties\<close>

text \<open>
  C15: the stream of pages yields the records of the range in order, each exactly once, and ends,
  whatever page sizes the server chooses: a server that answers a page request with fewer records
  than asked (but at least one) loses nothing.
\<close>

theorem stream_no_gaps:
  assumes "start \<le> stop" "stop + n < 2 ^ 64" "0 < n"
    and "\<forall>a b. a < b \<longrightarrow> b \<le> stop \<longrightarrow> 1 \<le> got a b \<and> got a b \<le> b - a"
  shows "stream_pages (\<lambda>p acc. (Inr (map item [fst p..<fst p + got (fst p) (snd p)]), acc)) (\<lambda>rs acc. (Inr (), acc @ rs))
      (Chunks_new start stop n) [] = (Inr (), map item [start..<stop])"
proof -
  let ?I = "\<lambda>c acc. start \<le> c \<and> acc = map item [start..<c]"
  let ?fetch = "\<lambda>p acc. (Inr (map item [fst p..<fst p + got (fst p) (snd p)]), acc)"
  have src: "page_source ?fetch item ?I stop" using assms(4) by (auto simp: page_source_def)
  have snk: "page_sink (\<lambda>rs acc. (Inr (), acc @ rs)) item ?I stop"
  proof -
    have "map item [start..<c + len] = map item [start..<c] @ map item [c..<c + len]" if "start \<le> c" for c len
      using upt_add_eq_append [OF that, of len] by simp
    then show ?thesis by (simp add: page_sink_def)
  qed
  have ch: "chunk_end (Chunks_new start stop n) = stop" "chunk_cursor (Chunks_new start stop n) = start" "chunk_size (Chunks_new start stop n) = n"
    using assms(3) by (simp_all add: Chunks_new_def into_nonzero_saturating_def)
  have "\<exists>w'. stream_pages ?fetch (\<lambda>rs acc. (Inr (), acc @ rs)) (Chunks_new start stop n) [] = (Inr (), w') \<and> ?I (chunk_end (Chunks_new start stop n)) w'"
    using stream_pages_all [of ?fetch item ?I "Chunks_new start stop n" "\<lambda>rs acc. (Inr (), acc @ rs)" "[]"] src snk assms
    by (simp add: ch)
  then show ?thesis by (auto simp: ch)
qed

theorem stream_no_gaps_witness:
  "stream_pages (\<lambda>p acc. (Inr (map id [fst p..<fst p + 1]), acc)) (\<lambda>rs acc. (Inr () :: string + unit, acc @ rs))
      (Chunks_new 2 7 3) [] = (Inr (), [2..<7])"
proof -
  have "\<forall>a b. a < b \<longrightarrow> b \<le> (7::nat) \<longrightarrow> 1 \<le> (1::nat) \<and> 1 \<le> b - a" by auto
  from stream_no_gaps [of 2 7 3 "\<lambda>_ _. 1" id, OF _ _ _ this] show ?thesis by simp
qed

end
