(* ===== verification/Server_Http.thy ===== *)
theory Server_Http
  imports Api_Client
begin

text \<open>
  The server's routes (\<open>atuin-server/src/router.rs\<close>) as an HTTP transport, and the contract the
  sync engine needs of whatever is behind its transport.

  \<open>remote_log\<close> is that contract: through the API client, the remote is a log of rows that can be
  listed, paged and extended. The routes over a \<open>record_database\<close> that authenticate the client
  are an instance; so the SQLite and the Postgres server are.
\<close>

section \<open>Routes\<close>

definition respond :: "api_env \<Rightarrow> ('s, 'a) handler \<Rightarrow> ('a \<Rightarrow> http_body) \<Rightarrow> ('s, string, http_response) io" where
  "respond A h f = (\<lambda>s. case h s of
       (Inr a, s') \<Rightarrow> (Inr \<lparr>resp_status = 200, resp_version = Some (version_header A), resp_body = f a\<rparr>, s')
     | (Inl e, s') \<Rightarrow> (Inr \<lparr>resp_status = status_code e, resp_version = Some (version_header A), resp_body = ErrorBody (reason e)\<rparr>, s'))"

definition serve :: "api_env \<Rightarrow> Settings \<Rightarrow> 's database \<Rightarrow> bytes option \<Rightarrow> 's http" where
  "serve A settings DB authorization req =
     (case req of
        GetNext h t a c \<Rightarrow>
          respond A (bind_io (from_request_parts (header_str A) DB authorization)
            (\<lambda>u. record_next DB u \<lparr>np_host = h, np_tag = tag_from t, np_start = Some a, np_count = c\<rparr>)) RecordsBody
      | PostRecords rs \<Rightarrow>
          respond A (bind_io (from_request_parts (header_str A) DB authorization) (\<lambda>u. record_post settings DB u rs)) (\<lambda>_. EmptyBody)
      | GetIndex \<Rightarrow>
          respond A (bind_io (from_request_parts (header_str A) DB authorization) (\<lambda>u. record_index DB u)) StatusBody
      | DeleteStore \<Rightarrow>
          respond A (bind_io (from_request_parts (header_str A) DB authorization) (\<lambda>u. store_delete DB u)) (\<lambda>_. EmptyBody)
      | GetMe \<Rightarrow>
          respond A (bind_io (from_request_parts (header_str A) DB authorization) (\<lambda>u. me_get u)) NameBody
      | _ \<Rightarrow> (\<lambda>s. (Inr \<lparr>resp_status = 404, resp_version = Some (version_header A), resp_body = OtherBody ''404 not found''\<rparr>, s)))"

section \<open>The contract of a remote\<close>

locale remote_log =
  fixes A :: api_env and net :: "'r http" and rows :: "'r \<Rightarrow> db_row list" and ok :: "'r \<Rightarrow> bool"
    and accepts :: "EncryptedRecord \<Rightarrow> bool"
  assumes status_law: "ok r \<Longrightarrow> \<exists>st. record_status A net r = (Inr st, r) \<and> wf_status st
      \<and> get_status st = get_status (status_of (q_status (rows r)))"
    and page_law: "ok r \<Longrightarrow> a \<le> b \<Longrightarrow> i64_range b \<Longrightarrow>
      page net k (a, b) r = (Inr (map from_row (q_next (rows r) (skey k) (as_i64 a) (as_i64 (b - a)))), r)"
    and post_law: "ok r \<Longrightarrow> \<forall>x \<in> set rs. accepts x \<Longrightarrow>
      \<exists>r'. post_records net rs r = (Inr (), r') \<and> ok r' \<and> rows r' = foldl (insert_unless row_clash) (rows r) (map to_row rs)"
begin

lemma status_log:
  assumes "world_log G" "ok r" "holds G n (rows r)"
  shows "\<exists>st. record_status A net r = (Inr st, r) \<and> wf_status st
    \<and> (\<forall>k. get_status st k = (if canonical_tag (series_tag k) \<and> 0 < n (skey k) then Some (n (skey k) - 1) else None))"
  using status_law [OF assms(2)] holds_status [OF assms(1,3)] by metis

lemma page_log:
  assumes "world_log G" "ok r" "holds G n (rows r)" "a \<le> b" "i64_range b"
  shows "page net k (a, b) r = (Inr (map from_row (segment G (skey k) a (min (b - a) (n (skey k) - a)))), r)"
  using page_law [OF assms(2,4,5)] holds_next [OF assms(1,3), of a "b - a"] assms(4,5) by simp

lemma post_log:
  assumes "world_log G" "ok r" "holds G n (rows r)" "i \<le> n k" "i + len \<le> length (G k)"
    and "\<forall>w \<in> set (segment G k i len). accepts (from_row w)"
  shows "\<exists>r'. post_records net (map from_row (segment G k i len)) r = (Inr (), r') \<and> ok r'
    \<and> holds G (n(k := max (n k) (i + len))) (rows r')"
proof -
  from post_law [OF assms(2), of "map from_row (segment G k i len)"] assms(6)
  obtain r' where "post_records net (map from_row (segment G k i len)) r = (Inr (), r')" "ok r'"
      "rows r' = foldl (insert_unless row_clash) (rows r) (map to_row (map from_row (segment G k i len)))"
    by auto
  with holds_insert_segment [OF assms(1,3) log_clash_row [OF assms(1)] assms(4,5)] show ?thesis
    by (auto simp: to_row_from_segment [OF assms(1)] simp del: map_map)
qed

end

section \<open>A database behind the routes\<close>

text \<open>The request carries a token that names user \<open>u\<close>, and the server's version suits the client.\<close>

definition authed :: "api_env \<Rightarrow> bytes option \<Rightarrow> User \<Rightarrow> 'x server_tables_scheme \<Rightarrow> bool" where
  "authed A authorization u t \<longleftrightarrow>
     (\<exists>h tok. authorization = Some h \<and> header_str A h = Some (''Token '' @ tok) \<and> (\<exists>us. session_join tok t = u # us))"

definition version_ok :: "api_env \<Rightarrow> bool" where
  "version_ok A \<longleftrightarrow> (\<exists>v m. header_str A (version_header A) = Some v \<and> semver_major A v = Inr m \<and> atuin_major A \<le> m)"

locale served_database = record_database +
  fixes A :: api_env and S :: Settings and authz :: "bytes option" and u :: User
  assumes auth_law: "ok s \<Longrightarrow> from_request_parts (header_str A) DB authz s = (Inr u, s)"
    and version_law: "ok s \<Longrightarrow> version_ok A"
begin

lemma served_request:
  assumes "ok s"
  shows "record_index DB u s = (Inr st, s') \<Longrightarrow> request (serve A S DB authz) GetIndex s =
      (Inr \<lparr>resp_status = 200, resp_version = Some (version_header A), resp_body = StatusBody st\<rparr>, s')"
    "record_next DB u \<lparr>np_host = h, np_tag = tag_from t, np_start = Some a, np_count = c\<rparr> s = (Inr rs, s') \<Longrightarrow>
      request (serve A S DB authz) (GetNext h t a c) s =
      (Inr \<lparr>resp_status = 200, resp_version = Some (version_header A), resp_body = RecordsBody rs\<rparr>, s')"
    "record_post S DB u rs s = (Inr (), s') \<Longrightarrow> request (serve A S DB authz) (PostRecords rs) s =
      (Inr \<lparr>resp_status = 200, resp_version = Some (version_header A), resp_body = EmptyBody\<rparr>, s')"
  using auth_law [OF assms]
  by (simp_all add: request_def serve_def respond_def bind_io_def map_err_def handle_resp_error_def Let_def)

end

sublocale served_database \<subseteq> served: remote_log A "serve A S DB authz" "\<lambda>s. rows s (user_id u)" ok
  "\<lambda>r. accepts r \<and> (length (raw (rec_data r)) \<le> max_record_size S \<or> max_record_size S = 0)"
proof unfold_locales
  fix s assume s: "ok s"
  show "\<exists>st. record_status A (serve A S DB authz) s = (Inr st, s) \<and> wf_status st
      \<and> get_status st = get_status (status_of (q_status (rows s (user_id u))))"
  proof -
    obtain st where st: "db_status DB u s = (Inr st, s)" "wf_status st"
        "get_status st = get_status (status_of (q_status (rows s (user_id u))))"
      using tails [OF s] by blast
    from st(1) have "record_index DB u s = (Inr st, s)" by (simp add: record_index_def map_err_def)
    from served_request(1) [OF s this] st version_law [OF s] show ?thesis
      by (auto simp: record_status_def bind_io_def ensure_version_def version_ok_def)
  qed
  show "page (serve A S DB authz) k (a, b) s = (Inr (map from_row (q_next (rows s (user_id u)) (skey k) (as_i64 a) (as_i64 (b - a)))), s)"
    if "a \<le> b" "i64_range b" for k a b
  proof -
    have "u64_sub b a = b - a" "i64_range (b - a)" using that by simp_all
    moreover from this have "record_next DB u \<lparr>np_host = series_host k, np_tag = tag_from (tag_as_str (series_tag k)), np_start = Some a, np_count = b - a\<rparr> s
        = (Inr (map from_row (q_next (rows s (user_id u)) (skey k) (as_i64 a) (as_i64 (b - a)))), s)"
      using fetch [OF s, of "b - a"] by (simp add: record_next_def map_err_def skey_def RecordSeriesKey_new_def)
    ultimately show ?thesis
      using served_request(2) [OF s] by (simp add: page_def bind_io_def)
  qed
  show "\<exists>r'. post_records (serve A S DB authz) rs s = (Inr (), r') \<and> ok r'
      \<and> rows r' (user_id u) = foldl (insert_unless row_clash) (rows s (user_id u)) (map to_row rs)"
    if rs: "\<forall>x \<in> set rs. accepts x \<and> (length (raw (rec_data x)) \<le> max_record_size S \<or> max_record_size S = 0)" for rs
  proof -
    obtain s' where s': "db_add_records DB u rs s = (Inr (), s')" "ok s'"
        "rows s' (user_id u) = foldl (insert_unless row_clash) (rows s (user_id u)) (map to_row rs)"
      using add [OF s, of rs u] rs by blast
    have "record_post S DB u rs s = (Inr (), s')" using s'(1) rs by (auto simp: record_post_def map_err_def list_all_iff)
    from served_request(3) [OF s this] s' show ?thesis by (auto simp: post_records_def bind_io_def)
  qed
qed

section \<open>The two servers\<close>

lemma auth_request:
  assumes "healthy s" "authed A authz u (tables s)"
  shows "map_err f (sqlite_get_session_user tok) s = map_err f (db_fetch_one (session_join tok)) s"
    "db_get_session_user DB = sqlite_get_session_user \<Longrightarrow> from_request_parts (header_str A) DB authz s = (Inr u, s)"
proof -
  from assms(2) obtain h tok us where a: "authz = Some h" "header_str A h = Some (''Token '' @ tok)" "session_join tok (tables s) = u # us"
    by (auto simp: authed_def)
  have split: "split_once CHR '' '' (''Token '' @ tok) = Some (''Token'', tok)" by simp
  show "from_request_parts (header_str A) DB authz s = (Inr u, s)" if "db_get_session_user DB = sqlite_get_session_user"
    using assms(1) a(3) by (simp only: from_request_parts_def a(1,2) option.case split)
      (simp add: that sqlite_get_session_user_def db_fetch_one_healthy map_err_def)
qed (simp add: sqlite_get_session_user_def)

abbreviation sqlite_ready :: "api_env \<Rightarrow> bytes option \<Rightarrow> User \<Rightarrow> server_tables db \<Rightarrow> bool" where
  "sqlite_ready A authz u s \<equiv> healthy s \<and> version_ok A \<and> authed A authz u (tables s)"

abbreviation pg_ready :: "api_env \<Rightarrow> bytes option \<Rightarrow> User \<Rightarrow> pg_tables db \<Rightarrow> bool" where
  "pg_ready A authz u s \<equiv> healthy s \<and> cache_inv (tables s) \<and> version_ok A \<and> authed A authz u (tables s)"

lemma authed_store [simp]:
  "authed A authz u (t\<lparr>user_store := st\<rparr>) = authed A authz u t"
  "authed A authz u (t'\<lparr>idx_cache := c\<rparr>) = authed A authz u t'"
  by (simp_all add: authed_def session_join_def)

lemma sqlite_add_records_healthy:
  "healthy s \<Longrightarrow> sqlite_add_records v rs s = (Inr (), s\<lparr>tables := (tables s)\<lparr>user_store :=
     foldl (\<lambda>st i. store_insert (user_id v) (to_row i) st) (user_store (tables s)) rs\<rparr>\<rparr>)"
  by (simp add: sqlite_add_records_def map_err_def transaction_healthy for_each_store_insert)

interpretation sqlite_http: served_database sqlite_database sqlite_rows "sqlite_ready A authz u" "\<lambda>_. True" A S authz u
  for A S authz u
proof unfold_locales
  fix s :: "server_tables db" and v :: User assume s: "sqlite_ready A authz u s"
  show "\<exists>s'. db_add_records sqlite_database v rs s = (Inr (), s') \<and> sqlite_ready A authz u s'
      \<and> sqlite_rows s' (user_id v) = foldl (insert_unless row_clash) (sqlite_rows s (user_id v)) (map to_row rs)
      \<and> (\<forall>w. w \<noteq> user_id v \<longrightarrow> sqlite_rows s' w = sqlite_rows s w)" for rs
    using s by (simp add: sqlite_database_def sqlite_add_records_healthy user_rows_inserts)
  show "db_next_records sqlite_database v k start count s =
      (Inr (map from_row (q_next (sqlite_rows s (user_id v)) (skey k) (as_i64 (case start of None \<Rightarrow> 0 | Some i \<Rightarrow> i)) (as_i64 count))), s)"
    if "i64_range count" for k start count
    using s that sqlite.fetch by simp
  show "\<exists>st. db_status sqlite_database v s = (Inr st, s) \<and> wf_status st
      \<and> get_status st = get_status (status_of (q_status (sqlite_rows s (user_id v))))"
    using s sqlite.tails by simp
  show "\<exists>s'. db_delete_store sqlite_database v s = (Inr (), s') \<and> sqlite_ready A authz u s' \<and> sqlite_rows s' (user_id v) = []
      \<and> (\<forall>w. w \<noteq> user_id v \<longrightarrow> sqlite_rows s' w = sqlite_rows s w)"
    using s by (simp add: sqlite_database_def sqlite_delete_store_def map_err_def sql_exec_healthy user_rows_wipe)
  show "from_request_parts (header_str A) sqlite_database authz s = (Inr u, s)"
    using s by (intro auth_request(2)) (simp_all add: sqlite_database_def)
qed simp

interpretation pg_http: served_database "pg_database E cached" sqlite_rows "pg_ready A authz u" "\<lambda>r. i64_range (rec_idx r)" A S authz u
  for E cached A S authz u
proof unfold_locales
  fix s :: "pg_tables db" and v :: User assume s: "pg_ready A authz u s"
  show "\<exists>s'. db_add_records (pg_database E cached) v rs s = (Inr (), s') \<and> pg_ready A authz u s'
      \<and> sqlite_rows s' (user_id v) = foldl (insert_unless row_clash) (sqlite_rows s (user_id v)) (map to_row rs)
      \<and> (\<forall>w. w \<noteq> user_id v \<longrightarrow> sqlite_rows s' w = sqlite_rows s w)" if "\<forall>r \<in> set rs. i64_range (rec_idx r)" for rs
    using pg_add_records_healthy [of s rs v] s that by (auto simp: pg_database_def user_rows_inserts)
  show "db_next_records (pg_database E cached) v k start count s =
      (Inr (map from_row (q_next (sqlite_rows s (user_id v)) (skey k) (as_i64 (case start of None \<Rightarrow> 0 | Some i \<Rightarrow> i)) (as_i64 count))), s)"
    if "i64_range count" for k start count
    using s that pg.fetch by simp
  show "\<exists>st. db_status (pg_database E cached) v s = (Inr st, s) \<and> wf_status st
      \<and> get_status st = get_status (status_of (q_status (sqlite_rows s (user_id v))))"
    using s pg.tails by simp
  show "\<exists>s'. db_delete_store (pg_database E cached) v s = (Inr (), s') \<and> pg_ready A authz u s' \<and> sqlite_rows s' (user_id v) = []
      \<and> (\<forall>w. w \<noteq> user_id v \<longrightarrow> sqlite_rows s' w = sqlite_rows s w)"
    using s pg_delete_store_healthy [of s v] by (simp add: pg_database_def user_rows_wipe cache_inv_wipe)
  show "from_request_parts (header_str A) (pg_database E cached) authz s = (Inr u, s)"
    using s by (intro auth_request(2)) (simp_all add: pg_database_def)
qed simp

end
