(* ===== verification/Packfile.thy ===== *)
theory Packfile
  imports Sqlite_Store Rmp_Codec
begin

text \<open>
  Packfiles, \<open>atuin-client/src/packfile\<close>: the manifest record that names a range of history
  (\<open>record.rs\<close>), the packer that writes manifests over the history of a host (\<open>packer.rs\<close>), and
  the blob into which the records of a manifest are bundled: decrypted, serialised, compressed
  and encrypted, with the manifest as implicit assertion.

  Compression (\<open>zstd\<close>) and JSON (\<open>serde_json\<close>) are the parameter \<open>pack_env\<close>. Ids and times of new
  records, which the builder draws, are arguments. A loop of the packer that would not end is
  the error \<open>PackDiverges\<close>, which the theorem on \<open>try_pack\<close> excludes.
\<close>

section \<open>Manifests\<close>

record PackManifestDataV1 =
  pm_host :: HostId
  pm_tag :: RecordTag
  start_idx :: RecordIdx
  end_idx :: RecordIdx

record PackIA =
  manifest_id :: RecordId
  manifest_idx :: RecordIdx
  manifest_version :: string
  ia_host :: HostId
  ia_tag :: RecordTag

record pack_env =
  manifest_to_json :: "PackManifestDataV1 \<Rightarrow> string + string"
  manifest_of_json :: "string \<Rightarrow> string + PackManifestDataV1"
  ia_json :: "PackIA \<Rightarrow> string"
  zstd_encode :: "bytes \<Rightarrow> string + bytes"
  zstd_decode :: "bytes \<Rightarrow> string + bytes"

datatype ParsingError =
    WrongTag RecordTag
  | UnknownVersion
  | MalformedBody string
  | InvalidRange (inv_start: RecordIdx) (inv_end: RecordIdx)

definition record_count :: "PackManifestDataV1 \<Rightarrow> ParsingError + nat" where
  "record_count m =
     (if end_idx m < start_idx m then Inl (InvalidRange (start_idx m) (end_idx m))
      else Inr (u64_add (end_idx m - start_idx m) 1))"

definition manifest_encode :: "pack_env \<Rightarrow> PackManifestDataV1 \<Rightarrow> string + EncryptedData" where
  "manifest_encode E m =
     (case manifest_to_json E m of Inl e \<Rightarrow> Inl e | Inr j \<Rightarrow> Inr \<lparr>raw = ''001'' @ j, cek = []\<rparr>)"

definition manifest_parse :: "pack_env \<Rightarrow> EncryptedRecord \<Rightarrow> ParsingError + PackManifestDataV1" where
  "manifest_parse E r =
     (if rec_tag r \<noteq> Packfile then Inl (WrongTag (rec_tag r))
      else if take 3 (raw (rec_data r)) = ''001'' then
        (case manifest_of_json E (drop 3 (raw (rec_data r))) of
           Inl e \<Rightarrow> Inl (MalformedBody e)
         | Inr body \<Rightarrow> (case record_count body of Inl e \<Rightarrow> Inl e | Inr _ \<Rightarrow> Inr body))
      else Inl UnknownVersion)"

definition manifest_range :: "PackManifestDataV1 \<Rightarrow> RecordIdx \<times> RecordIdx" where
  "manifest_range m = (start_idx m, u64_add (end_idx m) 1)"

record PackManifestRecordView =
  view_record :: EncryptedRecord
  view_manifest :: PackManifestDataV1

definition view_new :: "pack_env \<Rightarrow> EncryptedRecord \<Rightarrow> ParsingError + PackManifestRecordView" where
  "view_new E r = (case manifest_parse E r of Inl e \<Rightarrow> Inl e | Inr m \<Rightarrow> Inr \<lparr>view_record = r, view_manifest = m\<rparr>)"

definition view_ia :: "PackManifestRecordView \<Rightarrow> PackIA" where
  "view_ia v =
     \<lparr>manifest_id = rec_id (view_record v), manifest_idx = rec_idx (view_record v),
      manifest_version = version_as_str (rec_version (view_record v)),
      ia_host = host_uuid (rec_host (view_record v)), ia_tag = rec_tag (view_record v)\<rparr>"

section \<open>The blob\<close>

definition uuid_into_bytes :: "uuid \<Rightarrow> bytes" where
  "uuid_into_bytes u = be_bytes 16 (unat u)"

definition uuid_from_bytes :: "bytes \<Rightarrow> uuid" where
  "uuid_from_bytes bs = of_nat (le_value (rev bs))"

definition write_uuid :: "rmp \<Rightarrow> uuid writer" where
  "write_uuid R u = write_binary_array R (uuid_into_bytes u)"

definition read_uuid :: "rmp \<Rightarrow> uuid reader" where
  "read_uuid R = bind_io (read_fixed_binary_array R 16) (\<lambda>bs. ok_io (uuid_from_bytes bs))"

definition write_record :: "rmp \<Rightarrow> DecryptedRecord writer" where
  "write_record R r =
     then_write (write_uuid R (rec_id r))
    (then_write (Inr (w_u64 R (rec_idx r)))
    (then_write (write_uuid R (host_uuid (rec_host r)))
    (then_write (w_str R [])
    (then_write (Inr (w_u64 R (rec_timestamp r)))
    (then_write (w_str R (version_as_str (rec_version r)))
    (then_write (w_str R (tag_as_str (rec_tag r)))
                (write_binary_array R (rec_data r))))))))"

definition read_record :: "rmp \<Rightarrow> DecryptedRecord reader" where
  "read_record R =
     bind_io (read_uuid R) (\<lambda>i.
     bind_io (r_u64 R) (\<lambda>idx.
     bind_io (read_uuid R) (\<lambda>h.
     bind_io (read_string R) (\<lambda>_.
     bind_io (r_u64 R) (\<lambda>t.
     bind_io (with_str R version_from) (\<lambda>v.
     bind_io (with_str R tag_from) (\<lambda>tg.
     bind_io (read_binary_array R) (\<lambda>d.
       ok_io \<lparr>rec_id = i, rec_idx = idx, rec_host = Host_new h, rec_timestamp = t, rec_version = v, rec_tag = tg, rec_data = d\<rparr>))))))))"

definition write_encrypted_data :: "rmp \<Rightarrow> EncryptedData writer" where
  "write_encrypted_data R d = then_write (w_str R (raw d)) (w_str R (cek d))"

definition read_encrypted_data :: "rmp \<Rightarrow> EncryptedData reader" where
  "read_encrypted_data R =
     bind_io (read_string R) (\<lambda>r. bind_io (read_string R) (\<lambda>c. ok_io \<lparr>raw = r, cek = c\<rparr>))"

datatype PackError =
    PackLoading store_error
  | PackDecrypt DecryptionError
  | PackSerialize EncodeError
  | PackCompress string
  | PackEncrypt EncryptionError

datatype UnpackError =
    UnpackDeserialize DecodeError
  | UnpackDecrypt DecryptionError
  | UnpackDecompress string
  | UnpackPanic EncryptionError

definition load_encrypted_packed_records :: "PackManifestRecordView \<Rightarrow> EncryptedRecord list store_io" where
  "load_encrypted_packed_records v =
     (case manifest_range (view_manifest v) of (a, b) \<Rightarrow>
        store_next (RecordSeriesKey_new (host_uuid (rec_host (view_record v))) History) a (u64_sub b a))"

definition pack_blob ::
  "prims \<Rightarrow> (AdditionalData \<Rightarrow> string) \<Rightarrow> pack_env \<Rightarrow> rmp \<Rightarrow> entropy \<Rightarrow> PackManifestRecordView \<Rightarrow> EncryptedRecord list
    \<Rightarrow> Key \<Rightarrow> PackError + (bytes \<times> RecordId list)" where
  "pack_blob P J E R rnd v rs k =
     (case try_write_array R (write_record R) (map (\<lambda>r. decrypt P J r k) rs) of
        Inl (Inl e) \<Rightarrow> Inl (PackSerialize e)
      | Inl (Inr e) \<Rightarrow> Inl (PackDecrypt e)
      | Inr buf \<Rightarrow>
     (case zstd_encode E buf of
        Inl e \<Rightarrow> Inl (PackCompress e)
      | Inr compressed \<Rightarrow>
     (case encrypt_sync P rnd compressed (Some (ia_json E (view_ia v))) k of
        Inl e \<Rightarrow> Inl (PackEncrypt e)
      | Inr encrypted \<Rightarrow>
     (case write_encrypted_data R encrypted of
        Inl e \<Rightarrow> Inl (PackSerialize e)
      | Inr b \<Rightarrow> Inr (b, map rec_id rs)))))"

definition pack_records ::
  "prims \<Rightarrow> (AdditionalData \<Rightarrow> string) \<Rightarrow> pack_env \<Rightarrow> rmp \<Rightarrow> entropy \<Rightarrow> PackManifestRecordView \<Rightarrow> Key
    \<Rightarrow> (store, PackError, bytes \<times> RecordId list) io" where
  "pack_records P J E R rnd v k =
     bind_io (map_err PackLoading (load_encrypted_packed_records v)) (\<lambda>rs. lift_result (pack_blob P J E R rnd v rs k))"

text \<open>
  Each unpacked record is sealed anew, with randomness of its own; \<open>encrypt\<close> panics where
  \<open>encrypt_sync\<close> fails.
\<close>

definition unpack_records ::
  "prims \<Rightarrow> (AdditionalData \<Rightarrow> string) \<Rightarrow> pack_env \<Rightarrow> rmp \<Rightarrow> (DecryptedRecord \<Rightarrow> entropy) \<Rightarrow> PackManifestRecordView \<Rightarrow> bytes
    \<Rightarrow> Key \<Rightarrow> UnpackError + EncryptedRecord list" where
  "unpack_records P J E R rnd v packed k =
     (case fst (read_encrypted_data R packed) of
        Inl e \<Rightarrow> Inl (UnpackDeserialize e)
      | Inr encrypted \<Rightarrow>
     (case decrypt_sync P encrypted (Some (ia_json E (view_ia v))) k of
        Inl e \<Rightarrow> Inl (UnpackDecrypt e)
      | Inr decrypted \<Rightarrow>
     (case zstd_decode E decrypted of
        Inl e \<Rightarrow> Inl (UnpackDecompress e)
      | Inr decompressed \<Rightarrow>
     (case fst (read_array R (read_record R) decompressed) of
        Inl e \<Rightarrow> Inl (UnpackDeserialize e)
      | Inr records \<Rightarrow>
          (case collect_results (map (\<lambda>r. encrypt P J (rnd r) r k) records) of
             Inl e \<Rightarrow> Inl (UnpackPanic e)
           | Inr xs \<Rightarrow> Inr xs)))))"

section \<open>The packer\<close>

datatype PackingError =
    PackStore store_error
  | ManifestLoad ParsingError
  | ManifestStore string
  | PackDiverges

type_synonym 'a pack_io = "(store, PackingError, 'a) io"

primrec pack_loop ::
  "nat \<Rightarrow> pack_env \<Rightarrow> (RecordIdx \<Rightarrow> RecordId \<times> nat) \<Rightarrow> RecordSeriesKey \<Rightarrow> nat \<Rightarrow> RecordIdx \<Rightarrow> RecordIdx \<Rightarrow> RecordIdx \<Rightarrow> unit pack_io" where
  "pack_loop 0 E fresh s count ceiling cursor pack_idx = fail_io PackDiverges"
| "pack_loop (Suc fuel) E fresh s count ceiling cursor pack_idx =
     (if cursor \<le> ceiling \<and> u64_add (ceiling - cursor) 1 \<ge> count then
        bind_io (map_err PackStore (store_next s cursor count)) (\<lambda>run.
          if run = [] then ok_io ()
          else
            let last_idx = rec_idx (last run) in
            bind_io (lift_result (case manifest_encode E
                  \<lparr>pm_host = series_host s, pm_tag = series_tag s, start_idx = cursor, end_idx = last_idx\<rparr> of
                Inl e \<Rightarrow> Inl (ManifestStore e) | Inr x \<Rightarrow> Inr x)) (\<lambda>d.
            bind_io (map_err PackStore (push (Record_build (fst (fresh pack_idx)) (snd (fresh pack_idx)) (Host_new (series_host s)) V1 Packfile pack_idx d))) (\<lambda>_.
              pack_loop fuel E fresh s count ceiling (u64_add last_idx 1) (u64_add pack_idx 1))))
      else ok_io ())"

definition try_pack ::
  "pack_env \<Rightarrow> (RecordIdx \<Rightarrow> RecordId \<times> nat) \<Rightarrow> RecordSeriesKey \<Rightarrow> nat option \<Rightarrow> unit pack_io" where
  "try_pack E fresh s cap =
     (case cap of
        None \<Rightarrow> ok_io ()
      | Some count \<Rightarrow>
          if count = 0 then ok_io ()
          else
            bind_io (map_err PackStore (store_last (RecordSeriesKey_new (series_host s) Packfile))) (\<lambda>last_pack.
            bind_io (lift_result (case last_pack of
                Some r \<Rightarrow> (case manifest_parse E r of Inl e \<Rightarrow> Inl (ManifestLoad e) | Inr m \<Rightarrow> Inr (snd (manifest_range m)))
              | None \<Rightarrow> Inr 0)) (\<lambda>start.
            let pack_idx = (case last_pack of None \<Rightarrow> 0 | Some r \<Rightarrow> u64_add (rec_idx r) 1) in
            bind_io (map_err PackStore (store_last s)) (\<lambda>tail.
              case tail of
                None \<Rightarrow> ok_io ()
              | Some r \<Rightarrow>
                  if rec_idx r < start then ok_io ()
                  else pack_loop (Suc (Suc (rec_idx r) - start)) E fresh s count (rec_idx r) start pack_idx))))"

section \<open>Codecs of the blob\<close>

lemma uuid_roundtrip [simp]: "uuid_from_bytes (uuid_into_bytes u) = u"
proof -
  have "unat u < 2 ^ LENGTH(128)" by (rule unsigned_less)
  then have "unat u < 256 ^ 16" by simp
  then show ?thesis by (simp add: uuid_from_bytes_def uuid_into_bytes_def be_bytes_def del: power_numeral)
qed

lemma codec_uuid [codec_intros]:
  assumes "rmp_ok R"
  shows "codec (\<lambda>_. True) (write_uuid R) (read_uuid R)"
  unfolding codec_def
proof (intro allI impI)
  fix u
  have "length (uuid_into_bytes u) = 16" by (simp add: uuid_into_bytes_def be_bytes_def)
  with codec_fixed_binary_array [OF assms, of 16] obtain b where
      "write_binary_array R (uuid_into_bytes u) = Inr b"
      "\<forall>rest. read_fixed_binary_array R 16 (b @ rest) = (Inr (uuid_into_bytes u), rest)"
    by (auto elim: codecE)
  then show "\<exists>b. write_uuid R u = Inr b \<and> (\<forall>rest. read_uuid R (b @ rest) = (Inr u, rest))"
    by (simp add: write_uuid_def read_uuid_def bind_io_def)
qed

text \<open>The records whose fields fit the encoding.\<close>

definition packable :: "DecryptedRecord \<Rightarrow> bool" where
  "packable r \<longleftrightarrow> rec_idx r < 2 ^ 64 \<and> rec_timestamp r < 2 ^ 64 \<and> host_name (rec_host r) = []
     \<and> canonical_tag (rec_tag r) \<and> canonical_version (rec_version r)
     \<and> length (tag_as_str (rec_tag r)) < 2 ^ 32 \<and> length (version_as_str (rec_version r)) < 2 ^ 32 \<and> length (rec_data r) < 2 ^ 32"

lemma codec_record [codec_intros]:
  assumes R: "rmp_ok R"
  shows "codec packable (write_record R) (read_record R)"
  unfolding codec_def
proof (intro allI impI)
  fix r assume r: "packable r"
  obtain b1 where 1: "write_uuid R (rec_id r) = Inr b1" "\<forall>rest. read_uuid R (b1 @ rest) = (Inr (rec_id r), rest)"
    by (rule codecE [OF codec_uuid [OF R]]) auto
  obtain b3 where 3: "write_uuid R (host_uuid (rec_host r)) = Inr b3" "\<forall>rest. read_uuid R (b3 @ rest) = (Inr (host_uuid (rec_host r)), rest)"
    by (rule codecE [OF codec_uuid [OF R]]) auto
  obtain b4 where 4: "w_str R [] = Inr b4" "\<forall>rest. read_string R (b4 @ rest) = (Inr [], rest)"
    by (rule codecE [OF codec_str [OF R], of "[]"]) auto
  have "codec (\<lambda>v. canonical_version v \<and> length (version_as_str v) < 2 ^ 32) (\<lambda>v. w_str R (version_as_str v)) (with_str R version_from)"
    by (rule codec_with_str [OF R]) (simp add: canonical_version_def)
  then obtain b6 where 6: "w_str R (version_as_str (rec_version r)) = Inr b6"
      "\<forall>rest. with_str R version_from (b6 @ rest) = (Inr (rec_version r), rest)"
    by (rule codecE) (use r in \<open>auto simp: packable_def\<close>)
  have "codec (\<lambda>t. canonical_tag t \<and> length (tag_as_str t) < 2 ^ 32) (\<lambda>t. w_str R (tag_as_str t)) (with_str R tag_from)"
    by (rule codec_with_str [OF R]) (simp add: canonical_tag_def)
  then obtain b7 where 7: "w_str R (tag_as_str (rec_tag r)) = Inr b7"
      "\<forall>rest. with_str R tag_from (b7 @ rest) = (Inr (rec_tag r), rest)"
    by (rule codecE) (use r in \<open>auto simp: packable_def\<close>)
  obtain b8 where 8: "write_binary_array R (rec_data r) = Inr b8" "\<forall>rest. read_binary_array R (b8 @ rest) = (Inr (rec_data r), rest)"
    by (rule codecE [OF codec_binary_array [OF R], of "rec_data r"]) (use r in \<open>auto simp: packable_def\<close>)
  have u64: "r_u64 R (w_u64 R (rec_idx r) @ rest) = (Inr (rec_idx r), rest)"
      "r_u64 R (w_u64 R (rec_timestamp r) @ rest) = (Inr (rec_timestamp r), rest)" for rest
    using r by (simp_all add: rmp_okD(5) [OF R] packable_def)
  have host: "Host_new (host_uuid (rec_host r)) = rec_host r"
    using r by (simp add: packable_def Host_new_def)
  show "\<exists>b. write_record R r = Inr b \<and> (\<forall>rest. read_record R (b @ rest) = (Inr r, rest))"
    using 1 3 4 6 7 8 u64 host by (simp add: write_record_def read_record_def then_write_def bind_io_def)
qed

lemma codec_encrypted_data [codec_intros]:
  assumes R: "rmp_ok R"
  shows "codec (\<lambda>d. length (raw d) < 2 ^ 32 \<and> length (cek d) < 2 ^ 32) (write_encrypted_data R) (read_encrypted_data R)"
  unfolding codec_def
proof (intro allI impI, elim conjE)
  fix d :: EncryptedData assume d: "length (raw d) < 2 ^ 32" "length (cek d) < 2 ^ 32"
  obtain b1 where 1: "w_str R (raw d) = Inr b1" "\<forall>rest. read_string R (b1 @ rest) = (Inr (raw d), rest)"
    by (rule codecE [OF codec_str [OF R], of "raw d"]) (use d in auto)
  obtain b2 where 2: "w_str R (cek d) = Inr b2" "\<forall>rest. read_string R (b2 @ rest) = (Inr (cek d), rest)"
    by (rule codecE [OF codec_str [OF R], of "cek d"]) (use d in auto)
  from 1 2 show "\<exists>b. write_encrypted_data R d = Inr b \<and> (\<forall>rest. read_encrypted_data R (b @ rest) = (Inr d, rest))"
    by (simp add: write_encrypted_data_def read_encrypted_data_def then_write_def bind_io_def)
qed

text \<open>What the code relies on of \<open>serde_json\<close> and \<open>zstd\<close>.\<close>

definition pack_env_ok :: "pack_env \<Rightarrow> bool" where
  "pack_env_ok E \<longleftrightarrow>
     (\<forall>m. canonical_tag (pm_tag m) \<longrightarrow> (\<exists>j. manifest_to_json E m = Inr j \<and> manifest_of_json E j = Inr m))
     \<and> (\<forall>b. \<exists>c. zstd_encode E b = Inr c \<and> zstd_decode E c = Inr b)"

lemma pack_env_json:
  assumes "pack_env_ok E" "canonical_tag (pm_tag m)"
  obtains j where "manifest_to_json E m = Inr j" "manifest_of_json E j = Inr m"
  using assms unfolding pack_env_ok_def by blast

lemma pack_env_zstd:
  assumes "pack_env_ok E"
  obtains c where "zstd_encode E b = Inr c" "zstd_decode E c = Inr b"
  using assms unfolding pack_env_ok_def by blast

section \<open>Properties of manifests and blobs\<close>

text \<open>
  A manifest that was encoded parses back, unless its range is inverted, which parsing
  refuses; a record with another tag or another version prefix is refused as such.
\<close>

theorem manifest_roundtrip:
  assumes "pack_env_ok E" "canonical_tag (pm_tag m)"
  shows "\<exists>d. manifest_encode E m = Inr d \<and> cek d = []
    \<and> (\<forall>r. rec_data r = d \<longrightarrow> manifest_parse E r =
         (if rec_tag r \<noteq> Packfile then Inl (WrongTag (rec_tag r))
          else if end_idx m < start_idx m then Inl (InvalidRange (start_idx m) (end_idx m)) else Inr m))"
proof -
  obtain j where "manifest_to_json E m = Inr j" "manifest_of_json E j = Inr m"
    using assms by (rule pack_env_json)
  then show ?thesis
    by (auto simp: manifest_encode_def manifest_parse_def record_count_def)
qed

definition clear_env :: pack_env where
  "clear_env =
     \<lparr>manifest_to_json = (\<lambda>m. Inr (frame (bytes_str (be_bytes 16 (unat (pm_host m)))) @ frame (tag_as_str (pm_tag m))
          @ frame (replicate (start_idx m) CHR ''i'') @ replicate (end_idx m) CHR ''i'')),
      manifest_of_json = (\<lambda>s. case unframe s of None \<Rightarrow> Inl ''json'' | Some (h, r) \<Rightarrow>
          (case unframe r of None \<Rightarrow> Inl ''json'' | Some (t, r) \<Rightarrow>
          (case unframe r of None \<Rightarrow> Inl ''json'' | Some (a, b) \<Rightarrow>
             Inr \<lparr>pm_host = of_nat (le_value (rev (str_bytes h))), pm_tag = tag_from t, start_idx = length a, end_idx = length b\<rparr>))),
      ia_json = (\<lambda>ia. version_as_str (version_from (manifest_version ia)) @ bytes_str (be_bytes 16 (unat (manifest_id ia)))),
      zstd_encode = Inr, zstd_decode = Inr\<rparr>"

lemma clear_env_ok: "pack_env_ok clear_env"
proof -
  have "of_nat (le_value (rev (be_bytes 16 (unat u)))) = u" for u :: uuid
    using uuid_roundtrip [of u] by (simp add: uuid_from_bytes_def uuid_into_bytes_def)
  then show ?thesis by (auto simp: pack_env_ok_def clear_env_def canonical_tag_def)
qed

definition manifest_1 :: PackManifestDataV1 where
  "manifest_1 = \<lparr>pm_host = 1, pm_tag = History, start_idx = 0, end_idx = 1\<rparr>"

theorem manifest_roundtrip_witness:
  "\<exists>d. manifest_encode clear_env manifest_1 = Inr d
     \<and> manifest_parse clear_env (Record_build 9 0 (Host_new 1) V1 Packfile 0 d) = Inr manifest_1
     \<and> manifest_parse clear_env (Record_build 9 0 (Host_new 1) V1 Kv 0 d) = Inl (WrongTag Kv)"
  using manifest_roundtrip [OF clear_env_ok, of manifest_1]
  by (auto simp: manifest_1_def Record_build_def)

text \<open>
  C11: what is packed under a manifest unpacks, under the same manifest and key, to records with the
  ids, metadata and contents that were packed, each sealed again so that the key opens it; the
  packer reports exactly their ids. Under a manifest with another assertion the blob is refused.
\<close>

theorem pack_unpack_roundtrip:
  assumes ok: "prims_ok P" "rmp_ok R" "pack_env_ok E" "entropy_ok rnd" "\<forall>r. entropy_ok (rnd' r)"
    and rs: "\<forall>r \<in> set rs. \<exists>x. decrypt P J r k = Inr x \<and> packable x" "length rs < 2 ^ 32"
    and fits: "\<forall>buf c x. try_write_array R (write_record R) (map (\<lambda>r. decrypt P J r k) rs) = Inr buf \<longrightarrow> zstd_encode E buf = Inr c \<longrightarrow>
      encrypt_sync P rnd c (Some (ia_json E (view_ia v))) k = Inr x \<longrightarrow> length (raw x) < 2 ^ 32 \<and> length (cek x) < 2 ^ 32"
  shows "\<exists>blob. pack_blob P J E R rnd v rs k = Inr (blob, map rec_id rs)
    \<and> (\<exists>xs. unpack_records P J E R rnd' v blob k = Inr xs
         \<and> map (\<lambda>x. decrypt P J x k) xs = map (\<lambda>r. decrypt P J r k) rs)
    \<and> (\<forall>v'. ia_json E (view_ia v') \<noteq> ia_json E (view_ia v) \<longrightarrow> (\<exists>e. unpack_records P J E R rnd' v' blob k = Inl (UnpackDecrypt e)))"
proof -
  from rs(1) obtain f where f: "\<And>r. r \<in> set rs \<Longrightarrow> decrypt P J r k = Inr (f r) \<and> packable (f r)" by metis
  then have dec: "map (\<lambda>r. decrypt P J r k) rs = map Inr (map f rs)" by simp
  obtain buf where buf: "try_write_array R (write_record R) (map Inr (map f rs) :: (DecryptionError + DecryptedRecord) list) = Inr buf"
      "\<forall>rest. read_array R (read_record R) (buf @ rest) = (Inr (map f rs), rest)"
    by (rule try_write_array_roundtrip [OF ok(2) codec_record [OF ok(2)], of "map f rs"]) (use f rs(2) in auto)
  obtain c where c: "zstd_encode E buf = Inr c" "zstd_decode E c = Inr buf" using ok(3) by (rule pack_env_zstd)
  obtain x where x: "encrypt_sync P rnd c (Some (ia_json E (view_ia v))) k = Inr x"
      "decrypt_sync P x (Some (ia_json E (view_ia v))) k = Inr c"
      "\<forall>a'. a' \<noteq> Some (ia_json E (view_ia v)) \<longrightarrow> (\<exists>e. decrypt_sync P x a' k = Inl e)"
    using ok(1,4) by (rule encrypt_sync_sealed [where d = c and k = k])
  obtain b where b: "write_encrypted_data R x = Inr b" "\<forall>rest. read_encrypted_data R (b @ rest) = (Inr x, rest)"
    by (rule codecE [OF codec_encrypted_data [OF ok(2)], of x]) (use fits [unfolded dec] buf(1) c(1) x(1) in blast)
  have rd: "fst (read_encrypted_data R b) = Inr x" "fst (read_array R (read_record R) buf) = Inr (map f rs)"
    using b(2) [rule_format, of "[]"] buf(2) [rule_format, of "[]"] by simp_all
  have "\<forall>r. \<exists>y. encrypt P J (rnd' r) r k = Inr y \<and> decrypt P J y k = Inr r"
    using encrypt_sealed [OF ok(1)] ok(5) by metis
  then obtain g where g: "\<And>r. encrypt P J (rnd' r) r k = Inr (g r) \<and> decrypt P J (g r) k = Inr r" by metis
  have "pack_blob P J E R rnd v rs k = Inr (b, map rec_id rs)"
    unfolding pack_blob_def dec using buf c x b by simp
  moreover have "unpack_records P J E R rnd' v b k = Inr (map (\<lambda>r. g (f r)) rs)"
    unfolding unpack_records_def using rd x c g by (simp add: comp_def)
  moreover have "map (\<lambda>x. decrypt P J x k) (map (\<lambda>r. g (f r)) rs) = map (\<lambda>r. decrypt P J r k) rs"
    using f g by simp
  moreover have "\<exists>e. unpack_records P J E R rnd' v' b k = Inl (UnpackDecrypt e)" if "ia_json E (view_ia v') \<noteq> ia_json E (view_ia v)" for v'
  proof -
    from x(3) that obtain e where "decrypt_sync P x (Some (ia_json E (view_ia v'))) k = Inl e" by auto
    then show ?thesis by (simp add: unpack_records_def rd)
  qed
  ultimately show ?thesis by blast
qed

definition view_1 :: PackManifestRecordView where
  "view_1 = \<lparr>view_record = Record_build 9 0 (Host_new 1) V1 Packfile 0 \<lparr>raw = [], cek = []\<rparr>, view_manifest = manifest_1\<rparr>"

text \<open>The size of the sealed blob of one small record.\<close>

lemma length_wide [simp]: "length (wide m n x) = Suc n"
  by (simp add: wide_def be_bytes_def)

lemma length_frame [simp]: "length (frame s) = 2 * length s + 1"
  by (simp add: frame_def)

lemma blob_fits:
  assumes "try_write_array msgpack (write_record msgpack) [Inr plain_record] = Inr buf"
    and "encrypt_sync clear_prims clear_entropy buf (Some (ia_json clear_env (view_ia view_1))) [42] = Inr x"
  shows "length (raw x) < 2 ^ 32 \<and> length (cek x) < 2 ^ 32"
proof -
  have "length buf < 1000"
    using assms(1) by (auto simp: try_write_array_def try_write_array_impl_def write_record_def write_uuid_def
        write_binary_array_def uuid_into_bytes_def be_bytes_def then_write_def msgpack_def plain_record_def Record_build_def
        Host_new_def split: sum.splits if_splits)
  then show ?thesis
    using assms(2) by (auto simp: encrypt_sync_def clear_prims_def clear_entropy_def cek_encrypt_def clear_env_def view_ia_def
        view_1_def Record_build_def opt_str_def bytes_str_def be_bytes_def)
qed

theorem pack_unpack_roundtrip_witness:
  "\<exists>blob xs. pack_blob clear_prims (\<lambda>ad. ad_tag ad) clear_env msgpack clear_entropy view_1 [from_row (to_row sealed_1)] [42]
       = Inr (blob, [rec_id (from_row (to_row sealed_1))])
     \<and> unpack_records clear_prims (\<lambda>ad. ad_tag ad) clear_env msgpack (\<lambda>_. clear_entropy) view_1 blob [42] = Inr xs
     \<and> map (\<lambda>x. decrypt clear_prims (\<lambda>ad. ad_tag ad) x [42]) xs = [Inr plain_record]"
proof -
  have "packable plain_record" by (simp add: packable_def plain_record_def Record_build_def Host_new_def)
  moreover have "\<forall>buf c x. try_write_array msgpack (write_record msgpack) (map (\<lambda>r. decrypt clear_prims (\<lambda>ad. ad_tag ad) r [42]) [from_row (to_row sealed_1)]) = Inr buf \<longrightarrow>
      zstd_encode clear_env buf = Inr c \<longrightarrow>
      encrypt_sync clear_prims clear_entropy c (Some (ia_json clear_env (view_ia view_1))) [42] = Inr x \<longrightarrow>
      length (raw x) < 2 ^ 32 \<and> length (cek x) < 2 ^ 32"
    using blob_fits by (auto simp: clear_env_def sealed_1_opens)
  ultimately show ?thesis
    using pack_unpack_roundtrip [OF clear_prims_ok msgpack_ok clear_env_ok, of clear_entropy "\<lambda>_. clear_entropy"
        "[from_row (to_row sealed_1)]" "\<lambda>ad. ad_tag ad" "[42]" view_1]
    by (auto simp: clear_entropy_def sealed_1_opens)
qed

text \<open>
  The end of a manifest's range is computed as \<open>end_idx + 1\<close> in 64 bits. A manifest from the
  server that ends at the largest index passes validation, but a release build then takes its
  range to be empty (a debug build panics).
\<close>

theorem manifest_range_wraps:
  assumes "pack_env_ok E" "canonical_tag (pm_tag m)" "start_idx m = 0" "end_idx m = 2 ^ 64 - 1"
  shows "\<exists>d. manifest_encode E m = Inr d
    \<and> (\<forall>r. rec_data r = d \<longrightarrow> rec_tag r = Packfile \<longrightarrow> manifest_parse E r = Inr m)
    \<and> record_count m = Inr 0 \<and> manifest_range m = (0, 0)"
proof -
  obtain j where "manifest_to_json E m = Inr j" "manifest_of_json E j = Inr m"
    using assms(1,2) by (rule pack_env_json)
  then show ?thesis
    using assms(3,4) by (auto simp: manifest_encode_def manifest_parse_def record_count_def manifest_range_def u64_add_def)
qed

theorem manifest_range_wraps_witness:
  "\<exists>d. manifest_encode clear_env \<lparr>pm_host = 1, pm_tag = History, start_idx = 0, end_idx = 2 ^ 64 - 1\<rparr> = Inr d
     \<and> record_count \<lparr>pm_host = 1, pm_tag = History, start_idx = 0, end_idx = 2 ^ 64 - 1\<rparr> = Inr 0"
  using manifest_range_wraps [OF clear_env_ok, of "\<lparr>pm_host = 1, pm_tag = History, start_idx = 0, end_idx = 2 ^ 64 - 1\<rparr>"]
  by auto

end
