(* ===== verification/Packer.thy ===== *)
theory Packer
  imports Packfile
begin

text \<open>
  The packer \<open>try_pack\<close> (\<open>atuin-client/src/packfile/packer.rs\<close>, defined in \<open>Packfile\<close>) keeps the
  manifests of a host a tiling of its history: on a store whose history and packfile series are
  contiguous, it returns, appends the manifests of all complete runs and nothing else.
\<close>

section \<open>Contiguous series\<close>

definition sorted_series :: "db_row list \<Rightarrow> series \<Rightarrow> db_row list" where
  "sorted_series rows k = sort_key row_idx (q_series rows k)"

definition contiguous :: "db_row list \<Rightarrow> series \<Rightarrow> nat \<Rightarrow> bool" where
  "contiguous rows k n \<longleftrightarrow> map row_idx (sorted_series rows k) = map int [0..<n]"

lemma contiguous_length: "contiguous rows k n \<Longrightarrow> length (sorted_series rows k) = n"
  unfolding contiguous_def by (metis length_map length_upt minus_nat.diff_0)

lemma contiguous_nth:
  assumes "contiguous rows k n" "i < n"
  shows "row_idx (sorted_series rows k ! i) = int i"
proof -
  have "map row_idx (sorted_series rows k) ! i = map int [0..<n] ! i" using assms by (simp add: contiguous_def)
  with assms show ?thesis by (simp add: contiguous_length [OF assms(1)])
qed

lemma set_sorted_series [simp]: "set (sorted_series rows k) = set (q_series rows k)"
  by (simp add: sorted_series_def)

lemma drop_contiguous:
  assumes "contiguous rows k n"
  shows "filter (\<lambda>w. int i \<le> row_idx w) (sorted_series rows k) = drop i (sorted_series rows k)"
proof -
  let ?L = "sorted_series rows k"
  note len = contiguous_length [OF assms] and nth = contiguous_nth [OF assms]
  have "\<forall>w \<in> set (take i ?L). \<not> int i \<le> row_idx w" by (auto simp: in_set_conv_nth len nth)
  moreover have "\<forall>w \<in> set (drop i ?L). int i \<le> row_idx w"
  proof
    fix w assume "w \<in> set (drop i ?L)"
    then obtain j where "w = ?L ! (i + j)" "i + j < n" by (auto simp: in_set_conv_nth len)
    then show "int i \<le> row_idx w" using nth by simp
  qed
  ultimately have "filter (\<lambda>w. int i \<le> row_idx w) (take i ?L @ drop i ?L) = drop i ?L"
    by (simp only: filter_append filter_False filter_True append_Nil)
  then show ?thesis by simp
qed

lemma q_next_contiguous:
  assumes "contiguous rows k n" "i64_range i" "i64_range l"
  shows "q_next rows k (as_i64 i) (as_i64 l) = take l (drop i (sorted_series rows k))"
  using assms(2,3) drop_contiguous [OF assms(1), of i]
  by (simp add: q_next_def sql_limit_def filter_sort [symmetric] sorted_series_def)

lemma q_last_contiguous:
  assumes "contiguous rows k n"
  shows "q_last rows k = (if n = 0 then None else Some (sorted_series rows k ! (n - 1)))"
proof (cases "n = 0")
  case True
  then have "sorted_series rows k = []" using contiguous_length [OF assms] by simp
  then have "set (q_series rows k) = {}" by (metis set_sorted_series set_empty)
  with True show ?thesis by (simp add: q_last_def)
next
  case False
  let ?S = "sort_key (\<lambda>w. - row_idx w) (q_series rows k)" and ?w = "sorted_series rows k ! (n - 1)"
  note len = contiguous_length [OF assms] and nth = contiguous_nth [OF assms]
  have w: "?w \<in> set (sorted_series rows k)" using False len by (intro nth_mem) simp
  then have "?S \<noteq> []" by (metis empty_iff list.set(1) set_sort set_sorted_series)
  then obtain v vs where S: "?S = v # vs" by (cases ?S) auto
  then have "v \<in> set (sorted_series rows k)" by (metis list.set_intros(1) set_sort set_sorted_series)
  then obtain j where j: "j < n" "v = sorted_series rows k ! j"
    by (auto simp: in_set_conv_nth len simp del: set_sorted_series)
  have "sorted (map (\<lambda>w. - row_idx w) ?S)" "?w \<in> set ?S" using w by simp_all
  then have "row_idx ?w \<le> row_idx v" using S by auto
  then have "n - 1 \<le> j" using nth j False by simp
  with j have "v = ?w" by (metis Suc_pred' le_antisym less_Suc_eq_le neq0_conv False)
  with S False show ?thesis by (simp add: q_last_def)
qed

lemma sorted_series_snoc:
  assumes "contiguous rows k n" "distinct (rows @ [w])" "row_series w = k" "row_idx w = int n"
  shows "sorted_series (rows @ [w]) k = sorted_series rows k @ [w]"
  unfolding sorted_series_def [of "rows @ [w]"]
proof (rule sort_rows_unique)
  show "distinct (q_series (rows @ [w]) k)" using assms(2) by (auto simp: q_series_def)
  show "set (q_series (rows @ [w]) k) = set (sorted_series rows k @ [w])" using assms(3) by (auto simp: q_series_def)
  have idxs: "map row_idx (sorted_series rows k @ [w]) = map int [0..<Suc n]" using assms(1,4) by (simp add: contiguous_def)
  show "sorted (map row_idx (sorted_series rows k @ [w]))" "distinct (map row_idx (sorted_series rows k @ [w]))"
    unfolding idxs
    by (auto simp: sorted_map distinct_map inj_on_def simp del: upt_Suc intro: sorted_wrt_mono_rel [OF _ sorted_upt])
qed

lemma sorted_series_other: "row_series w \<noteq> k \<Longrightarrow> sorted_series (rows @ [w]) k = sorted_series rows k"
  by (simp add: sorted_series_def q_series_def)

section \<open>Manifests of a host\<close>

abbreviation pack_series :: "HostId \<Rightarrow> series" where
  "pack_series h \<equiv> (h, ''packfile'')"

text \<open>The inclusive index ranges of the manifests, in the order of the packfile series.\<close>

definition manifest_ranges :: "pack_env \<Rightarrow> db_row list \<Rightarrow> HostId \<Rightarrow> (ParsingError + (nat \<times> nat)) list" where
  "manifest_ranges E rows h =
     map (\<lambda>w. case manifest_parse E (from_row w) of Inl e \<Rightarrow> Inl e | Inr m \<Rightarrow> Inr (start_idx m, end_idx m))
       (sorted_series rows (pack_series h))"

fun tiles :: "nat \<Rightarrow> (nat \<times> nat) list \<Rightarrow> nat \<Rightarrow> bool" where
  "tiles a [] c = (a = c)"
| "tiles a ((s, e) # ms) c = (s = a \<and> a \<le> e \<and> tiles (Suc e) ms c)"

lemma tiles_append: "tiles a ms b \<Longrightarrow> tiles b ns c \<Longrightarrow> tiles a (ms @ ns) c"
  by (induction a ms b rule: tiles.induct) auto

lemma tiles_last: "tiles a ms c \<Longrightarrow> ms \<noteq> [] \<Longrightarrow> Suc (snd (last ms)) = c"
  by (induction a ms c rule: tiles.induct) (auto split: if_splits)

definition runs :: "nat \<Rightarrow> nat \<Rightarrow> nat \<Rightarrow> (nat \<times> nat) list" where
  "runs c count k = map (\<lambda>i. (c + i * count, c + i * count + count - 1)) [0..<k]"

lemma runs_Suc: "runs c count (Suc k) = (c, c + count - 1) # runs (c + count) count k"
  by (simp add: runs_def upt_conv_Cons map_Suc_upt [symmetric] del: upt_Suc) (simp add: comp_def algebra_simps)

lemma tiles_runs: "0 < count \<Longrightarrow> tiles c (runs c count k) (c + k * count)"
proof (induction k arbitrary: c)
  case 0
  then show ?case by (simp add: runs_def)
next
  case (Suc k)
  then show ?case using Suc.IH [of "c + count"] by (simp add: runs_Suc algebra_simps)
qed

text \<open>The packer's invariant: \<open>n\<close> records of history, manifests with the ranges \<open>ms\<close>, fresh ids ahead.\<close>

definition pack_state ::
  "pack_env \<Rightarrow> (RecordIdx \<Rightarrow> RecordId \<times> nat) \<Rightarrow> RecordSeriesKey \<Rightarrow> nat \<Rightarrow> (nat \<times> nat) list \<Rightarrow> db_row list \<Rightarrow> bool" where
  "pack_state E fresh s n ms rows \<longleftrightarrow>
     store_inv rows \<and> contiguous rows (skey s) n \<and> contiguous rows (pack_series (series_host s)) (length ms)
     \<and> manifest_ranges E rows (series_host s) = map Inr ms \<and> (\<forall>i. length ms \<le> i \<longrightarrow> i < 2 ^ 63 \<longrightarrow> fst (fresh i) \<notin> row_id ` set rows)"

lemma store_inv_distinct: "store_inv rows \<Longrightarrow> distinct rows"
  by (auto simp: store_inv_def dest: distinct_of_map)

text \<open>One manifest more.\<close>

lemma pack_state_push:
  assumes E: "pack_env_ok E" and st: "pack_state E fresh s n ms rows" and fresh: "inj_on (fst \<circ> fresh) {..<2 ^ 63}"
    and s: "series_tag s \<noteq> Packfile" "canonical_tag (series_tag s)" and len: "i64_range (length ms)"
    and enc: "manifest_encode E \<lparr>pm_host = series_host s, pm_tag = series_tag s, start_idx = c, end_idx = e\<rparr> = Inr dat" "c \<le> e"
    and w: "w = to_row (Record_build (fst (fresh (length ms))) t (Host_new (series_host s)) V1 Packfile (length ms) dat)" "t < 2 ^ 64"
  shows "insert_unless store_clash rows w = rows @ [w]" "pack_state E fresh s n (ms @ [(c, e)]) (rows @ [w])"
proof -
  let ?r = "Record_build (fst (fresh (length ms))) t (Host_new (series_host s)) V1 Packfile (length ms) dat"
  have fields: "row_id w = fst (fresh (length ms))" "row_series w = pack_series (series_host s)" "row_idx w = int (length ms)"
    using len by (simp_all add: w to_row_def Record_build_def Host_new_def row_series_def)
  have "storable ?r"
    using len w(2) by (simp add: storable_def Record_build_def Host_new_def)
  then have unrow: "from_row w = ?r" by (simp add: w)
  have not_s: "row_series w \<noteq> skey s"
  proof
    assume "row_series w = skey s"
    then have "tag_as_str (series_tag s) = tag_as_str Packfile" by (simp add: fields skey_def)
    with s show False by (metis canonical_tag_inject canonical_tag_simps(6))
  qed
  have no_idx: "row_idx v \<noteq> int (length ms)" if "v \<in> set rows" "row_series v = pack_series (series_host s)" for v
  proof -
    from that have "v \<in> set (sorted_series rows (pack_series (series_host s)))" by (simp add: q_series_def)
    then show ?thesis using st contiguous_nth contiguous_length
      by (fastforce simp: pack_state_def in_set_conv_nth simp del: set_sorted_series)
  qed
  have no_id: "row_id w \<notin> row_id ` set rows" using st fields len by (auto simp: pack_state_def)
  show ins: "insert_unless store_clash rows w = rows @ [w]"
  proof -
    have "\<not> store_clash w v" if "v \<in> set rows" for v
      using that no_id no_idx [OF that] fields by (auto simp: store_clash_def row_clash_def)
    then show ?thesis by (auto simp: insert_unless_def)
  qed
  have inv: "store_inv (rows @ [w])"
    using st store_inv_insert [of rows w] ins by (simp add: pack_state_def w)
  have srt: "sorted_series (rows @ [w]) (pack_series (series_host s)) = sorted_series rows (pack_series (series_host s)) @ [w]"
    using st inv fields by (intro sorted_series_snoc [where n = "length ms"]) (auto simp: pack_state_def dest: store_inv_distinct)
  obtain j where j: "manifest_to_json E \<lparr>pm_host = series_host s, pm_tag = series_tag s, start_idx = c, end_idx = e\<rparr> = Inr j"
      "manifest_of_json E j = Inr \<lparr>pm_host = series_host s, pm_tag = series_tag s, start_idx = c, end_idx = e\<rparr>"
    using E by (rule pack_env_json [where m = "\<lparr>pm_host = series_host s, pm_tag = series_tag s, start_idx = c, end_idx = e\<rparr>"]) (simp add: s)
  with enc have "manifest_parse E ?r = Inr \<lparr>pm_host = series_host s, pm_tag = series_tag s, start_idx = c, end_idx = e\<rparr>"
    by (auto simp: manifest_encode_def manifest_parse_def record_count_def Record_build_def)
  then have "manifest_ranges E (rows @ [w]) (series_host s) = map Inr (ms @ [(c, e)])"
    using st by (simp add: manifest_ranges_def srt pack_state_def unrow)
  moreover have "contiguous (rows @ [w]) (pack_series (series_host s)) (length (ms @ [(c, e)]))"
    using st fields by (simp add: contiguous_def srt pack_state_def)
  moreover have "contiguous (rows @ [w]) (skey s) n"
    using st not_s by (simp add: contiguous_def sorted_series_other pack_state_def)
  moreover have "fst (fresh i) \<notin> row_id ` set (rows @ [w])" if "length (ms @ [(c, e)]) \<le> i" "i < 2 ^ 63" for i
  proof -
    have "fst (fresh i) \<noteq> fst (fresh (length ms))" using inj_onD [OF fresh, of i "length ms"] that len by auto
    with that st show ?thesis by (auto simp: pack_state_def fields)
  qed
  ultimately show "pack_state E fresh s n (ms @ [(c, e)]) (rows @ [w])" using inv by (simp add: pack_state_def)
qed

section \<open>The loop\<close>

lemma last_run:
  assumes "contiguous rows k n" "c + count \<le> n" "0 < count" "n \<le> 2 ^ 63"
  shows "take count (drop c (sorted_series rows k)) \<noteq> []"
    "rec_idx (last (map from_row (take count (drop c (sorted_series rows k))))) = c + count - 1"
proof -
  let ?run = "take count (drop c (sorted_series rows k))"
  have len: "length ?run = count" using assms contiguous_length [OF assms(1)] by simp
  with assms(3) show ne: "?run \<noteq> []" by auto
  then have "last ?run = sorted_series rows k ! (c + (count - 1))"
    using len assms contiguous_length [OF assms(1)] by (simp add: last_conv_nth)
  then have "row_idx (last ?run) = int (c + count - 1)"
    using contiguous_nth [OF assms(1), of "c + (count - 1)"] assms by simp
  moreover have "c + count - 1 < 2 ^ 64" using assms by simp
  ultimately show "rec_idx (last (map from_row ?run)) = c + count - 1"
    using ne as_u64_of_nat [of "c + count - 1"] by (simp add: last_map from_row_def)
qed

lemma pack_loop_runs:
  assumes E: "pack_env_ok E" and fresh: "inj_on (fst \<circ> fresh) {..<2 ^ 63}" "\<forall>i. snd (fresh i) < 2 ^ 64"
    and s: "series_tag s \<noteq> Packfile" "canonical_tag (series_tag s)" and count: "0 < count" "i64_range count"
    and n: "0 < n" "n < 2 ^ 63"
  shows "healthy d \<Longrightarrow> pack_state E fresh s n ms (tables d) \<Longrightarrow> c \<le> n \<Longrightarrow> length ms + (n - c) < 2 ^ 63 \<Longrightarrow> n - c < fuel \<Longrightarrow>
    \<exists>new. pack_loop fuel E fresh s count (n - 1) c (length ms) d = (Inr (), d\<lparr>tables := tables d @ new\<rparr>)
      \<and> length new = (n - c) div count \<and> pack_state E fresh s n (ms @ runs c count ((n - c) div count)) (tables d @ new)"
proof (induction fuel arbitrary: d ms c)
  case (Suc fuel)
  have guard: "c \<le> n - 1 \<and> u64_add (n - 1 - c) 1 \<ge> count \<longleftrightarrow> c + count \<le> n"
    using n count Suc.prems(3) by (auto simp: u64_add_def)
  show ?case
  proof (cases "c + count \<le> n")
    case False
    then have "n - c < count" using Suc.prems(3) by linarith
    then have "(n - c) div count = 0" by simp
    moreover have "pack_loop (Suc fuel) E fresh s count (n - 1) c (length ms) d = (Inr (), d)"
      unfolding pack_loop.simps guard using False by simp
    ultimately show ?thesis using Suc.prems by (intro exI [of _ "[]"]) (simp add: runs_def)
  next
    case True
    let ?run = "take count (drop c (sorted_series (tables d) (skey s)))"
    have cont: "contiguous (tables d) (skey s) n" using Suc.prems(2) by (simp add: pack_state_def)
    have fetch: "store_next s c count d = (Inr (map from_row ?run), d)"
      using Suc.prems(1,3) n count q_next_contiguous [OF cont, of c count] by (simp add: store_next_healthy)
    note run = last_run [OF cont True count(1)]
    obtain j where "manifest_to_json E \<lparr>pm_host = series_host s, pm_tag = series_tag s, start_idx = c, end_idx = c + count - 1\<rparr> = Inr j"
      using E by (rule pack_env_json [where m = "\<lparr>pm_host = series_host s, pm_tag = series_tag s, start_idx = c, end_idx = c + count - 1\<rparr>"])
        (simp add: s)
    then obtain dat where dat: "manifest_encode E \<lparr>pm_host = series_host s, pm_tag = series_tag s, start_idx = c, end_idx = c + count - 1\<rparr> = Inr dat"
      by (simp add: manifest_encode_def)
    define w where "w = to_row (Record_build (fst (fresh (length ms))) (snd (fresh (length ms))) (Host_new (series_host s)) V1 Packfile (length ms) dat)"
    note pushed = pack_state_push [OF E Suc.prems(2) fresh(1) s _ dat _ w_def]
    have ms: "i64_range (length ms)" using Suc.prems(4) by linarith
    have ins: "insert_unless store_clash (tables d) w = tables d @ [w]"
      and st: "pack_state E fresh s n (ms @ [(c, c + count - 1)]) (tables d @ [w])"
      using pushed ms count fresh(2) by simp_all
    let ?d = "d\<lparr>tables := tables d @ [w]\<rparr>"
    have "\<exists>new. pack_loop fuel E fresh s count (n - 1) (c + count) (length (ms @ [(c, c + count - 1)])) ?d = (Inr (), ?d\<lparr>tables := tables ?d @ new\<rparr>)
        \<and> length new = (n - (c + count)) div count
        \<and> pack_state E fresh s n ((ms @ [(c, c + count - 1)]) @ runs (c + count) count ((n - (c + count)) div count)) (tables ?d @ new)"
      using Suc.prems st True count by (intro Suc.IH) auto
    then obtain new where new: "pack_loop fuel E fresh s count (n - 1) (c + count) (Suc (length ms)) ?d = (Inr (), d\<lparr>tables := tables d @ w # new\<rparr>)"
        "length new = (n - (c + count)) div count"
        "pack_state E fresh s n (ms @ (c, c + count - 1) # runs (c + count) count ((n - (c + count)) div count)) (tables d @ w # new)"
      by auto
    have div: "(n - c) div count = Suc ((n - (c + count)) div count)"
      using True count by (simp add: le_div_geq)
    have "push (Record_build (fst (fresh (length ms))) (snd (fresh (length ms))) (Host_new (series_host s)) V1 Packfile (length ms) dat) d = (Inr (), ?d)"
      using Suc.prems(1) ins by (simp add: push_def push_batch_healthy w_def)
    moreover have "u64_add (c + count - 1) 1 = c + count" "u64_add (length ms) 1 = Suc (length ms)"
      using True n count ms by (simp_all add: u64_add_def)
    ultimately have "pack_loop (Suc fuel) E fresh s count (n - 1) c (length ms) d = (Inr (), d\<lparr>tables := tables d @ w # new\<rparr>)"
      unfolding pack_loop.simps guard using True run n new(1) dat by (simp add: bind_io_def map_err_def fetch Let_def)
    then show ?thesis
      using new div by (intro exI [of _ "w # new"]) (simp add: runs_Suc)
  qed
qed simp

lemma last_manifest_end:
  assumes st: "pack_state E fresh s n ms rows" and t: "tiles 0 ms c" "c < 2 ^ 64" and ne: "ms \<noteq> []"
  shows "\<exists>m. manifest_parse E (from_row (sorted_series rows (pack_series (series_host s)) ! (length ms - 1))) = Inr m
    \<and> snd (manifest_range m) = c"
proof -
  let ?L = "sorted_series rows (pack_series (series_host s))"
  have len: "length ?L = length ms" using st contiguous_length by (auto simp: pack_state_def)
  have i: "length ms - 1 < length ms" using ne by simp
  have "manifest_ranges E rows (series_host s) ! (length ms - 1) = Inr (last ms)"
    using st i ne by (simp add: pack_state_def last_conv_nth)
  then have "(case manifest_parse E (from_row (?L ! (length ms - 1))) of Inl e \<Rightarrow> Inl e | Inr m \<Rightarrow> Inr (start_idx m, end_idx m)) = Inr (last ms)"
    using i len by (simp add: manifest_ranges_def)
  then obtain m where m: "manifest_parse E (from_row (?L ! (length ms - 1))) = Inr m" "(start_idx m, end_idx m) = last ms"
    by (auto split: sum.splits)
  moreover from m(2) have "end_idx m = snd (last ms)" by (metis snd_conv)
  with tiles_last [OF t(1) ne] have "Suc (end_idx m) = c" by simp
  ultimately show ?thesis using t(2) by (auto simp: manifest_range_def)
qed

section \<open>Properties\<close>

text \<open>
  C10: on a store with \<open>n\<close> contiguous records of a series and manifests that tile its first \<open>c\<close>
  indices, \<open>try_pack\<close> returns, and appends one manifest for each complete run of \<open>count\<close> records
  that is left: the manifests then tile a longer prefix, each new one covers exactly \<open>count\<close>
  records, fewer than \<open>count\<close> records stay unpacked, and no row that was there changes. With
  fewer than \<open>count\<close> unpacked records the store stays as it is.
\<close>

theorem try_pack_tiles:
  assumes E: "pack_env_ok E" and fresh: "inj_on (fst \<circ> fresh) {..<2 ^ 63}" "\<forall>i. snd (fresh i) < 2 ^ 64"
    and s: "series_tag s \<noteq> Packfile" "canonical_tag (series_tag s)" and count: "0 < count" "i64_range count"
    and d: "healthy d" "pack_state E fresh s n ms (tables d)"
    and t: "tiles 0 ms c" "c \<le> n" "length ms + n < 2 ^ 63"
  shows "\<exists>new. try_pack E fresh s (Some count) d = (Inr (), d\<lparr>tables := tables d @ new\<rparr>)
    \<and> length new = (n - c) div count
    \<and> manifest_ranges E (tables d @ new) (series_host s) = map Inr (ms @ runs c count ((n - c) div count))
    \<and> tiles 0 (ms @ runs c count ((n - c) div count)) (c + (n - c) div count * count)
    \<and> n - (c + (n - c) div count * count) < count
    \<and> pack_state E fresh s n (ms @ runs c count ((n - c) div count)) (tables d @ new)"
proof -
  have cont: "contiguous (tables d) (skey s) n" "contiguous (tables d) (pack_series (series_host s)) (length ms)"
    using d(2) by (simp_all add: pack_state_def)
  have packs: "store_last (RecordSeriesKey_new (series_host s) Packfile) d =
      (Inr (if ms = [] then None else Some (from_row (sorted_series (tables d) (pack_series (series_host s)) ! (length ms - 1)))), d)"
    using d(1) q_last_contiguous [OF cont(2)] by (simp add: store_last_healthy skey_def RecordSeriesKey_new_def)
  have tail: "store_last s d = (Inr (if n = 0 then None else Some (from_row (sorted_series (tables d) (skey s) ! (n - 1)))), d)"
    using d(1) q_last_contiguous [OF cont(1)] by (simp add: store_last_healthy)
  have tail_idx: "rec_idx (from_row (sorted_series (tables d) (skey s) ! (n - 1))) = n - 1" if "0 < n"
    using contiguous_nth [OF cont(1), of "n - 1"] that t(3) as_u64_of_nat [of "n - 1"] by (simp add: from_row_def)
  have pack_idx: "rec_idx (from_row (sorted_series (tables d) (pack_series (series_host s)) ! (length ms - 1))) = length ms - 1" if "ms \<noteq> []"
    using contiguous_nth [OF cont(2), of "length ms - 1"] that t(3) as_u64_of_nat [of "length ms - 1"] by (simp add: from_row_def)
  have loop: "try_pack E fresh s (Some count) d =
      (if n = 0 \<or> n - 1 < c then (Inr (), d) else pack_loop (Suc (n - c)) E fresh s count (n - 1) c (length ms) d)"
  proof (cases "ms = []")
    case True
    with t(1) have "c = 0" by simp
    with True packs tail tail_idx count show ?thesis
      by (auto simp: try_pack_def bind_io_def map_err_def Let_def)
  next
    case False
    obtain m where m: "manifest_parse E (from_row (sorted_series (tables d) (pack_series (series_host s)) ! (length ms - 1))) = Inr m"
        "snd (manifest_range m) = c"
      using last_manifest_end [OF d(2) t(1) _ False] t(2,3) by auto
    have "u64_add (length ms - 1) 1 = length ms" using False t(3) by (simp add: u64_add_def)
    with False m packs tail tail_idx pack_idx count show ?thesis
      by (auto simp: try_pack_def bind_io_def map_err_def Let_def Suc_diff_le)
  qed
  have small: "n - (c + (n - c) div count * count) < count"
    using count(1) mod_less_divisor [of count "n - c"] by (metis diff_diff_left minus_div_mult_eq_mod)
  have "\<exists>new. try_pack E fresh s (Some count) d = (Inr (), d\<lparr>tables := tables d @ new\<rparr>)
      \<and> length new = (n - c) div count \<and> pack_state E fresh s n (ms @ runs c count ((n - c) div count)) (tables d @ new)"
  proof (cases "n = 0 \<or> n - 1 < c")
    case True
    with t(2) have "n = c" by auto
    with loop True d(2) show ?thesis by (intro exI [of _ "[]"]) (simp add: runs_def)
  next
    case False
    with loop pack_loop_runs [OF E fresh s count _ _ d t(2), where fuel = "Suc (n - c)"] t show ?thesis by auto
  qed
  then show ?thesis
    using small tiles_append [OF t(1) tiles_runs [OF count(1)]] by (auto simp: pack_state_def)
qed

definition packed_store :: store where
  "packed_store = \<lparr>tables = [to_row record_1, to_row record_2, to_row (record_2\<lparr>rec_id := 7, rec_idx := 2\<rparr>)], faults = []\<rparr>"

definition fresh_ids :: "RecordIdx \<Rightarrow> RecordId \<times> nat" where
  "fresh_ids i = (100 + of_nat i, 0)"

lemma unat_fresh_ids: "i < 2 ^ 63 \<Longrightarrow> unat (fst (fresh_ids i)) = 100 + i"
  by (simp add: fresh_ids_def unat_word_ariths unsigned_of_nat take_bit_eq_mod)

lemma packed_store_state: "pack_state clear_env fresh_ids (RecordSeriesKey_new 1 History) 3 [] (tables packed_store)"
proof -
  have "fst (fresh_ids i) \<notin> {5, 6, 7}" if "i < 2 ^ 63" for i
    using unat_fresh_ids [OF that] by auto
  moreover have "row_id ` set (tables packed_store) = {5, 6, 7}"
    by (simp add: packed_store_def record_1_def record_2_def Record_build_def to_row_def)
  ultimately have "\<forall>i. length [] \<le> i \<longrightarrow> i < 2 ^ 63 \<longrightarrow> fst (fresh_ids i) \<notin> row_id ` set (tables packed_store)" by simp
  then show ?thesis
    by (auto simp: pack_state_def packed_store_def record_1_def record_2_def Record_build_def to_row_def store_inv_def i64_row_def
        contiguous_def sorted_series_def q_series_def row_series_def skey_def RecordSeriesKey_new_def Host_new_def manifest_ranges_def upt_rec)
qed

theorem try_pack_tiles_witness:
  "\<exists>new. try_pack clear_env fresh_ids (RecordSeriesKey_new 1 History) (Some 2) packed_store
      = (Inr (), packed_store\<lparr>tables := tables packed_store @ new\<rparr>)
     \<and> manifest_ranges clear_env (tables packed_store @ new) 1 = [Inr (0, 1)]"
proof -
  have "inj_on (fst \<circ> fresh_ids) {..<2 ^ 63}"
    by (rule inj_onI) (metis add_left_cancel comp_apply lessThan_iff unat_fresh_ids)
  with try_pack_tiles [OF clear_env_ok _ _ _ _ _ _ _ packed_store_state, where c = 0 and count = 2]
  show ?thesis by (auto simp: fresh_ids_def packed_store_def runs_def)
qed

end
