(* ===== verification/Sync.thy ===== *)
theory Sync
  imports Server_Http Packer
begin

text \<open>
  The sync engine, \<open>atuin-client/src/record/sync/mod.rs\<close>, over the client's record store, the API
  client and the packfiles.

  The world is the local store and the remote behind the transport \<open>net\<close>. The engine's parameters
  (cryptography, serialisation, the key, the page size, the server's packfile capability, the
  randomness of an encryption) are the record \<open>engine\<close>. Downloads of packfiles, which the code
  runs concurrently, are done one after the other. Progress bars and output are left out.

  Shown, over every remote that keeps the contract \<open>remote_log\<close>: one sync makes both sides hold
  the longer prefix of every series, and a second sync then transfers nothing.
\<close>

declare split_paired_All [simp del] split_paired_Ex [simp del]

section \<open>Types\<close>

datatype PackfileDownloadError =
    PackManifest ParsingError
  | PackApi api_error
  | PackUnpack UnpackError
  | PackStoreErr store_error

fun is_permanent :: "PackfileDownloadError \<Rightarrow> bool" where
  "is_permanent (PackManifest _) = True"
| "is_permanent (PackUnpack _) = True"
| "is_permanent (PackApi _) = False"
| "is_permanent (PackStoreErr _) = False"

datatype remote_error =
    ByApi api_error
  | ByManifest ParsingError
  | ByPacking PackError
  | ByDownload PackfileDownloadError

datatype SyncError =
    LocalAheadOtherHost
  | LocalStoreError store_error
  | SyncLogicError string
  | OperationalError string
  | RemoteRequestError remote_error
  | WrongKey

datatype Operation =
    Upload (op_local: RecordIdx) (up_remote: "RecordIdx option") (op_series: RecordSeriesKey)
  | Download (op_remote: RecordIdx) (op_series: RecordSeriesKey)
  | Noop (op_series: RecordSeriesKey)

record 'r world =
  local :: store
  remote :: 'r

record 'r engine =
  e_prims :: prims
  e_ad_json :: "AdditionalData \<Rightarrow> string"
  e_pack :: pack_env
  e_rmp :: rmp
  e_api :: api_env
  e_net :: "'r http"
  e_caps :: "('r, string, nat option) io"
  e_key :: Key
  e_page_size :: nat
  e_pack_rnd :: "RecordId \<Rightarrow> entropy"
  e_record_rnd :: "DecryptedRecord \<Rightarrow> entropy"

type_synonym ('r, 'a) sync_io = "('r world, SyncError, 'a) io"

definition on_local :: "(store, 'e, 'a) io \<Rightarrow> ('r world, 'e, 'a) io" where
  "on_local m = zoom local (\<lambda>s w. w\<lparr>local := s\<rparr>) m"

definition on_remote :: "('r, 'e, 'a) io \<Rightarrow> ('r world, 'e, 'a) io" where
  "on_remote m = zoom remote (\<lambda>s w. w\<lparr>remote := s\<rparr>) m"

section \<open>Planning\<close>

definition engine_record_status :: "'r engine \<Rightarrow> ('r, RecordStatus) sync_io" where
  "engine_record_status E = map_err (\<lambda>e. RemoteRequestError (ByApi e)) (on_remote (record_status (e_api E) (e_net E)))"

definition engine_diff :: "'r engine \<Rightarrow> ('r, Diff list \<times> RecordStatus) sync_io" where
  "engine_diff E =
     bind_io (map_err LocalStoreError (on_local status)) (\<lambda>local_index.
     bind_io (engine_record_status E) (\<lambda>remote_index.
       ok_io (diff local_index remote_index, remote_index)))"

definition resolve :: "Diff \<Rightarrow> SyncError + Operation" where
  "resolve d =
     (case (diff_local d, diff_remote d) of
        (Some l, Some r) \<Rightarrow>
          Inr (if l = r then Noop (diff_series d) else if l > r then Upload l (Some r) (diff_series d) else Download r (diff_series d))
      | (None, Some r) \<Rightarrow> Inr (Download r (diff_series d))
      | (Some l, None) \<Rightarrow> Inr (Upload l None (diff_series d))
      | (None, None) \<Rightarrow> Inl (SyncLogicError ''diff has nothing for local or remote - (host, tag) does not exist''))"

fun op_key :: "Operation \<Rightarrow> nat \<times> HostId \<times> nat \<times> RecordTag" where
  "op_key (Noop s) = (0, series_host s, 0, series_tag s)"
| "op_key (Upload _ _ s) = (1, series_host s, 0, series_tag s)"
| "op_key (Download _ s) = (2, series_host s, if series_tag s = Packfile then 0 else 1, series_tag s)"

definition operations :: "Diff list \<Rightarrow> SyncError + Operation list" where
  "operations diffs =
     (case collect_results (map resolve diffs) of Inl e \<Rightarrow> Inl e | Inr ops \<Rightarrow> Inr (sort_key op_key ops))"

text \<open>The first series of the index, in its iteration order, that is not of packfiles is sampled.\<close>

definition check_key_against_index :: "'r engine \<Rightarrow> RecordStatus \<Rightarrow> 'r world \<Rightarrow> SyncError option \<times> 'r world" where
  "check_key_against_index E index w =
     (case filter (\<lambda>s. series_tag s \<noteq> Packfile)
         (concat (map (\<lambda>(h, tags). map (\<lambda>(t, _). RecordSeriesKey_new h t) tags) (hosts index))) of
        [] \<Rightarrow> (None, w)
      | s # _ \<Rightarrow>
          (case on_remote (records_one (e_net E) s) w of
             (Inr (Some r), w') \<Rightarrow>
               (case decrypt (e_prims E) (e_ad_json E) r (e_key E) of Inl _ \<Rightarrow> (Some WrongKey, w') | Inr _ \<Rightarrow> (None, w'))
           | (Inr None, w') \<Rightarrow> (None, w')
           | (Inl e, w') \<Rightarrow> (Some (RemoteRequestError (ByApi e)), w')))"

section \<open>Uploading\<close>

definition pack_manifest :: "'r engine \<Rightarrow> EncryptedRecord \<Rightarrow> ('r, RecordId \<times> RecordId list \<times> bytes) sync_io" where
  "pack_manifest E manifest =
     bind_io (lift_result (case view_new (e_pack E) manifest of Inl e \<Rightarrow> Inl (RemoteRequestError (ByManifest e)) | Inr v \<Rightarrow> Inr v)) (\<lambda>view.
     bind_io (map_err (\<lambda>e. RemoteRequestError (ByPacking e))
         (on_local (pack_records (e_prims E) (e_ad_json E) (e_pack E) (e_rmp E) (e_pack_rnd E (rec_id manifest)) view (e_key E)))) (\<lambda>r.
       ok_io (rec_id (view_record view), snd r, fst r)))"

primrec pack_all :: "'r engine \<Rightarrow> EncryptedRecord list \<Rightarrow> ('r, (RecordId \<times> RecordId list \<times> bytes) list) sync_io" where
  "pack_all E [] = ok_io []"
| "pack_all E (m # ms) = bind_io (pack_manifest E m) (\<lambda>p. bind_io (pack_all E ms) (\<lambda>ps. ok_io (p # ps)))"

definition upload_page :: "'r engine \<Rightarrow> RecordSeriesKey \<Rightarrow> EncryptedRecord list \<Rightarrow> ('r, unit) sync_io" where
  "upload_page E s rs =
     bind_io (if series_tag s = Packfile
              then bind_io (pack_all E rs) (\<lambda>packed.
                     map_err (\<lambda>e. RemoteRequestError (ByApi e)) (on_remote (upload_packfiles (e_net E) packed)))
              else ok_io ()) (\<lambda>_.
       map_err (\<lambda>e. RemoteRequestError (ByApi e)) (on_remote (post_records (e_net E) rs)))"

function upload_loop :: "'r engine \<Rightarrow> RecordSeriesKey \<Rightarrow> RecordIdx \<Rightarrow> nat \<Rightarrow> nat \<Rightarrow> ('r, nat) sync_io" where
  "upload_loop E s first_missing_remote expected progress w =
     (if \<not> progress < expected then (Inr progress, w)
      else (case map_err LocalStoreError (on_local (store_next s (u64_add first_missing_remote progress) (e_page_size E))) w of
              (Inl e, w1) \<Rightarrow> (Inl e, w1)
            | (Inr rs, w1) \<Rightarrow>
                if rs = [] then (Inr progress, w1)
                else (case upload_page E s rs w1 of
                        (Inl e, w2) \<Rightarrow> (Inl e, w2)
                      | (Inr _, w2) \<Rightarrow> upload_loop E s first_missing_remote expected (progress + length rs) w2)))"
  by pat_completeness auto

termination
  by (relation "measure (\<lambda>(E, s, first_missing_remote, expected, progress, w). expected - progress)") (auto intro!: diff_less_mono2)

declare upload_loop.simps [simp del]

definition sync_upload :: "'r engine \<Rightarrow> RecordSeriesKey \<Rightarrow> RecordIdx \<Rightarrow> RecordIdx option \<Rightarrow> ('r, nat) sync_io" where
  "sync_upload E s l r =
     (let first_missing_remote = (case r of None \<Rightarrow> 0 | Some n \<Rightarrow> u64_add n 1);
          expected = u64_sub (u64_add l 1) first_missing_remote
      in upload_loop E s first_missing_remote expected 0)"

section \<open>Downloading\<close>

definition download_packed :: "'r engine \<Rightarrow> EncryptedRecord \<Rightarrow> ('r world, PackfileDownloadError, RecordId list) io" where
  "download_packed E manifest =
     bind_io (lift_result (case view_new (e_pack E) manifest of Inl e \<Rightarrow> Inl (PackManifest e) | Inr v \<Rightarrow> Inr v)) (\<lambda>view.
     bind_io (map_err PackStoreErr (on_local (store_last (RecordSeriesKey_new (host_uuid (rec_host (view_record view))) History)))) (\<lambda>head.
       if (case head of None \<Rightarrow> False | Some h \<Rightarrow> rec_idx h \<ge> u64_sub (snd (manifest_range (view_manifest view))) 1)
       then bind_io (map_err PackStoreErr (on_local (load_encrypted_packed_records view))) (\<lambda>existing. ok_io (map rec_id existing))
       else
         bind_io (map_err PackApi (on_remote (download_packfile (e_net E) (rec_id (view_record view))))) (\<lambda>blob.
         bind_io (lift_result (case unpack_records (e_prims E) (e_ad_json E) (e_pack E) (e_rmp E) (e_record_rnd E) view blob (e_key E) of
             Inl e \<Rightarrow> Inl (PackUnpack e) | Inr rs \<Rightarrow> Inr rs)) (\<lambda>records.
         bind_io (map_err PackStoreErr (on_local (push_batch records))) (\<lambda>_. ok_io (map rec_id records))))))"

primrec expand_manifests :: "'r engine \<Rightarrow> EncryptedRecord list \<Rightarrow> ('r, RecordId list) sync_io" where
  "expand_manifests E [] = ok_io []"
| "expand_manifests E (m # ms) = (\<lambda>w. case download_packed E m w of
       (Inr ids, w1) \<Rightarrow> bind_io (expand_manifests E ms) (\<lambda>rest. ok_io (ids @ rest)) w1
     | (Inl e, w1) \<Rightarrow>
         if is_permanent e then expand_manifests E ms w1 else (Inl (RemoteRequestError (ByDownload e)), w1))"

text \<open>One page of a download, with the ids collected so far as part of the state.\<close>

definition download_page :: "'r engine \<Rightarrow> RecordSeriesKey \<Rightarrow> EncryptedRecord list \<Rightarrow> ('r world \<times> RecordId list, SyncError, unit) io" where
  "download_page E s rs = (\<lambda>(w, ret).
     case bind_io (if series_tag s = Packfile then expand_manifests E rs else ok_io []) (\<lambda>ids.
          bind_io (map_err LocalStoreError (on_local (push_batch rs))) (\<lambda>_. ok_io ids)) w of
       (Inl e, w') \<Rightarrow> (Inl e, (w', ret))
     | (Inr ids, w') \<Rightarrow> (Inr (), (w', ret @ ids @ map rec_id rs)))"

definition fetch_page :: "'r engine \<Rightarrow> RecordSeriesKey \<Rightarrow> RecordIdx \<times> RecordIdx \<Rightarrow> ('r world \<times> RecordId list, SyncError, EncryptedRecord list) io" where
  "fetch_page E s p = (\<lambda>(w, ret).
     case map_err (\<lambda>e. RemoteRequestError (ByApi e)) (on_remote (page (e_net E) s p)) w of (r, w') \<Rightarrow> (r, (w', ret)))"

definition download_pages :: "'r engine \<Rightarrow> RecordSeriesKey \<Rightarrow> Chunks \<Rightarrow> ('r, RecordId list) sync_io" where
  "download_pages E s chunks = (\<lambda>w.
     case stream_pages (fetch_page E s) (download_page E s) chunks (w, []) of
       (Inl e, (w', _)) \<Rightarrow> (Inl e, w')
     | (Inr _, (w', ret)) \<Rightarrow> (Inr ret, w'))"

definition sync_download :: "'r engine \<Rightarrow> RecordSeriesKey \<Rightarrow> RecordIdx \<Rightarrow> ('r, RecordId list) sync_io" where
  "sync_download E s r =
     bind_io (map_err LocalStoreError (on_local (first_gap s))) (\<lambda>first_missing_local.
     bind_io (map_err LocalStoreError (on_local (store_last s))) (\<lambda>_.
       let expected = u64_add r 1 - first_missing_local
       in download_pages E s (Chunks_new first_missing_local (u64_add first_missing_local expected) (e_page_size E))))"

section \<open>A full sync\<close>

primrec run_ops :: "'r engine \<Rightarrow> bool \<Rightarrow> Operation list \<Rightarrow> nat \<times> RecordId list \<Rightarrow> ('r, nat \<times> RecordId list) sync_io" where
  "run_ops E packfiles_enabled [] acc = ok_io acc"
| "run_ops E packfiles_enabled (i # is) acc =
     (case i of
        Upload l r s \<Rightarrow>
          if series_tag s = Packfile \<and> \<not> packfiles_enabled then run_ops E packfiles_enabled is acc
          else bind_io (sync_upload E s l r) (\<lambda>n. run_ops E packfiles_enabled is (fst acc + n, snd acc))
      | Download r s \<Rightarrow>
          if series_tag s = Packfile \<and> \<not> packfiles_enabled then run_ops E packfiles_enabled is acc
          else bind_io (sync_download E s r) (\<lambda>ids. run_ops E packfiles_enabled is (fst acc, snd acc @ ids))
      | Noop s \<Rightarrow> run_ops E packfiles_enabled is acc)"

definition sync_remote :: "'r engine \<Rightarrow> Operation list \<Rightarrow> ('r, nat \<times> RecordId list) sync_io" where
  "sync_remote E ops = (\<lambda>w.
     case on_remote (e_caps E) w of
       (Inr (Some n), w') \<Rightarrow> run_ops E (n > 0) ops (0, []) w'
     | (_, w') \<Rightarrow> run_ops E False ops (0, []) w')"

definition sync :: "'r engine \<Rightarrow> ('r, nat \<times> RecordId list) sync_io" where
  "sync E =
     bind_io (engine_diff E) (\<lambda>(diffs, remote_index). \<lambda>w.
       case check_key_against_index E remote_index w of
         (Some err, w') \<Rightarrow> (Inl err, w')
       | (None, w') \<Rightarrow>
           bind_io (lift_result (operations diffs)) (\<lambda>ops. sync_remote E ops) w')"

section \<open>One series\<close>

text \<open>
  What a sync is run on: a log \<open>G\<close> of all series, of which both sides hold prefixes. All its
  records are within the limits of the remote, and the key opens those that are encrypted.
\<close>

definition log_ok :: "'r engine \<Rightarrow> world_log \<Rightarrow> (EncryptedRecord \<Rightarrow> bool) \<Rightarrow> bool" where
  "log_ok E G accepts \<longleftrightarrow> world_log G \<and> 0 < e_page_size E \<and> e_page_size E < 2 ^ 62
     \<and> (\<forall>k. length (G k) < 2 ^ 62 \<and> (\<forall>w \<in> set (G k). accepts (from_row w)
         \<and> (snd k \<noteq> ''packfile'' \<longrightarrow> (\<exists>x. decrypt (e_prims E) (e_ad_json E) (from_row w) (e_key E) = Inr x))))"

lemma log_okD:
  assumes "log_ok E G accepts"
  shows "world_log G" "0 < e_page_size E" "e_page_size E < 2 ^ 62" "length (G k) < 2 ^ 62"
    "w \<in> set (G k) \<Longrightarrow> accepts (from_row w)"
    "w \<in> set (G k) \<Longrightarrow> snd k \<noteq> ''packfile'' \<Longrightarrow> \<exists>x. decrypt (e_prims E) (e_ad_json E) (from_row w) (e_key E) = Inr x"
  using assms unfolding log_ok_def by auto

lemma log_clash_store: "world_log G \<Longrightarrow> log_clash G store_clash"
  unfolding log_clash_def store_clash_def row_clash_def by (metis world_log_id world_log_set(1,4))

lemma segment_conv: "i + len \<le> length (G k) \<Longrightarrow> segment G k i len = map (\<lambda>j. G k ! j) [i..<i + len]"
  by (intro nth_equalityI) (auto simp: segment_def)

lemma holds_le: "holds G n rows \<Longrightarrow> log_ok E G accepts \<Longrightarrow> n k < 2 ^ 62"
  using holds_len [of G n rows k] log_okD(4) [of E G accepts k] by simp

lemma push_segment:
  assumes G: "world_log G" and l: "healthy l" "holds G n (tables l)" and i: "i \<le> n k" "i + len \<le> length (G k)"
  shows "\<exists>l'. push_batch (map from_row (segment G k i len)) l = (Inr (), l') \<and> healthy l'
    \<and> holds G (n(k := max (n k) (i + len))) (tables l')"
  using holds_insert_segment [OF G l(2) log_clash_store [OF G] i] l(1)
  by (simp add: push_batch_healthy insert_rows_def to_row_from_segment [OF G] del: map_map)

lemma packfile_tag: "canonical_tag t \<Longrightarrow> tag_as_str t = ''packfile'' \<longleftrightarrow> t = Packfile"
  by (metis canonical_tag_inject canonical_tag_simps(6) tag_as_str.simps(6))

section \<open>The plan\<close>

text \<open>
  What the operations of a plan are when the sides hold prefixes of lengths \<open>nL\<close> and \<open>nR\<close>, and
  what running it moves when packfiles are off.
\<close>

fun planned :: "(series \<Rightarrow> nat) \<Rightarrow> (series \<Rightarrow> nat) \<Rightarrow> Operation \<Rightarrow> bool" where
  "planned nL nR (Upload l r s) \<longleftrightarrow> canonical_tag (series_tag s) \<and> nR (skey s) < nL (skey s)
     \<and> l = nL (skey s) - 1 \<and> r = (if nR (skey s) = 0 then None else Some (nR (skey s) - 1))"
| "planned nL nR (Download r s) \<longleftrightarrow> canonical_tag (series_tag s) \<and> nL (skey s) < nR (skey s) \<and> r = nR (skey s) - 1"
| "planned nL nR (Noop s) \<longleftrightarrow> False"

definition moved :: "Operation list \<Rightarrow> series set" where
  "moved ops = (\<lambda>i. skey (op_series i)) ` {i \<in> set ops. series_tag (op_series i) \<noteq> Packfile}"

definition raised :: "series set \<Rightarrow> (series \<Rightarrow> nat) \<Rightarrow> (series \<Rightarrow> nat) \<Rightarrow> series \<Rightarrow> nat" where
  "raised K n m k = (if k \<in> K then max (n k) (m k) else n k)"

definition sent :: "(series \<Rightarrow> nat) \<Rightarrow> (series \<Rightarrow> nat) \<Rightarrow> Operation list \<Rightarrow> nat" where
  "sent nL nR ops = (\<Sum>k \<leftarrow> map (\<lambda>i. skey (op_series i)) (filter (\<lambda>i. series_tag (op_series i) \<noteq> Packfile) ops). nL k - nR k)"

definition received :: "world_log \<Rightarrow> (series \<Rightarrow> nat) \<Rightarrow> (series \<Rightarrow> nat) \<Rightarrow> Operation list \<Rightarrow> RecordId list" where
  "received G nL nR ops = concat (map (\<lambda>k. map (\<lambda>i. row_id (G k ! i)) [nL k..<nR k])
     (map (\<lambda>i. skey (op_series i)) (filter (\<lambda>i. series_tag (op_series i) \<noteq> Packfile) ops)))"

definition index_of :: "(series \<Rightarrow> nat) \<Rightarrow> RecordSeriesKey \<Rightarrow> RecordIdx option" where
  "index_of n s = (if canonical_tag (series_tag s) \<and> 0 < n (skey s) then Some (n (skey s) - 1) else None)"

definition packfiles_off :: "'r engine \<Rightarrow> 'r \<Rightarrow> bool" where
  "packfiles_off E r \<longleftrightarrow> (case e_caps E r of (Inr (Some n), r') \<Rightarrow> n = 0 \<and> r' = r | (_, r') \<Rightarrow> r' = r)"

definition synced :: "(series \<Rightarrow> nat) \<Rightarrow> (series \<Rightarrow> nat) \<Rightarrow> series \<Rightarrow> nat" where
  "synced n m k = (if snd k = ''packfile'' then n k else max (n k) (m k))"

lemma moved_plan:
  assumes "op_series ` set ops = {s. canonical_tag (series_tag s) \<and> nL (skey s) \<noteq> nR (skey s)}"
  shows "moved ops = {k. snd k \<noteq> ''packfile'' \<and> nL k \<noteq> nR k}"
proof -
  have "moved ops = skey ` {s \<in> op_series ` set ops. series_tag s \<noteq> Packfile}" by (auto simp: moved_def)
  also have "\<dots> = skey ` {s. canonical_tag (series_tag s) \<and> tag_as_str (series_tag s) \<noteq> ''packfile'' \<and> nL (skey s) \<noteq> nR (skey s)}"
    unfolding assms using packfile_tag by auto
  also have "\<dots> = {k. snd k \<noteq> ''packfile'' \<and> nL k \<noteq> nR k}"
  proof
    show "{k. snd k \<noteq> ''packfile'' \<and> nL k \<noteq> nR k}
        \<subseteq> skey ` {s. canonical_tag (series_tag s) \<and> tag_as_str (series_tag s) \<noteq> ''packfile'' \<and> nL (skey s) \<noteq> nR (skey s)}"
    proof
      fix k assume "k \<in> {k. snd k \<noteq> ''packfile'' \<and> nL k \<noteq> nR k}"
      then show "k \<in> skey ` {s. canonical_tag (series_tag s) \<and> tag_as_str (series_tag s) \<noteq> ''packfile'' \<and> nL (skey s) \<noteq> nR (skey s)}"
        by (intro image_eqI [of _ _ "RecordSeriesKey_new (fst k) (tag_from (snd k))"]) auto
    qed
  qed (auto simp: skey_def)
  finally show ?thesis .
qed

lemma raised_moved: "moved ops = {k. snd k \<noteq> ''packfile'' \<and> nL k \<noteq> nR k} \<Longrightarrow>
    raised (moved ops) nL nR = synced nL nR \<and> raised (moved ops) nR nL = synced nR nL"
  by (auto simp: raised_def synced_def fun_eq_iff)

lemma distinct_moved:
  assumes "\<forall>i \<in> set ops. planned nL nR i" "distinct (map op_series ops)"
  shows "distinct (map (\<lambda>i. skey (op_series i)) (filter (\<lambda>i. series_tag (op_series i) \<noteq> Packfile) ops))"
proof -
  have "canonical_tag (series_tag (op_series i))" if "i \<in> set ops" for i
    using assms(1) that by (cases i) auto
  with assms(2) show ?thesis by (induction ops) (auto simp: skey_inject)
qed

lemma sent_plan:
  assumes ops: "\<forall>i \<in> set ops. planned nL nR i" "distinct (map op_series ops)" "moved ops = {k. snd k \<noteq> ''packfile'' \<and> nL k \<noteq> nR k}"
  shows "sent nL nR ops = (\<Sum>k | snd k \<noteq> ''packfile'' \<and> nR k < nL k. nL k - nR k)"
proof -
  have fin: "finite (moved ops)" by (simp add: moved_def)
  have "set (map (\<lambda>i. skey (op_series i)) (filter (\<lambda>i. series_tag (op_series i) \<noteq> Packfile) ops)) = moved ops"
    by (auto simp: moved_def)
  then have "sent nL nR ops = (\<Sum>k \<in> moved ops. nL k - nR k)"
    using sum_list_distinct_conv_sum_set [OF distinct_moved [OF ops(1,2)], of "\<lambda>k. nL k - nR k"] by (simp only: sent_def)
  moreover have "(\<Sum>k \<in> moved ops. nL k - nR k) = (\<Sum>k | snd k \<noteq> ''packfile'' \<and> nR k < nL k. nL k - nR k)"
    using fin unfolding ops(3) by (intro sum.mono_neutral_right) auto
  ultimately show ?thesis by simp
qed

lemma set_received:
  assumes m: "moved ops = {k. snd k \<noteq> ''packfile'' \<and> nL k \<noteq> nR k}"
  shows "set (received G nL nR ops) = {row_id (G k ! i) | k i. snd k \<noteq> ''packfile'' \<and> nL k \<le> i \<and> i < nR k}"
proof -
  have "set (received G nL nR ops) = (\<Union>k \<in> moved ops. (\<lambda>i. row_id (G k ! i)) ` {nL k..<nR k})"
    by (simp add: received_def moved_def image_image)
  also have "\<dots> = {row_id (G k ! i) | k i. snd k \<noteq> ''packfile'' \<and> nL k \<le> i \<and> i < nR k}"
  proof (intro set_eqI iffI)
    fix x assume "x \<in> {row_id (G k ! i) | k i. snd k \<noteq> ''packfile'' \<and> nL k \<le> i \<and> i < nR k}"
    then obtain k i where "x = row_id (G k ! i)" "snd k \<noteq> ''packfile''" "nL k \<le> i" "i < nR k" by blast
    then show "x \<in> (\<Union>k \<in> moved ops. (\<lambda>i. row_id (G k ! i)) ` {nL k..<nR k})"
      unfolding m by (intro UN_I [of k]) auto
  qed (force simp: m)
  finally show ?thesis .
qed

lemma plan_diff:
  assumes wf: "wf_status a" "wf_status b" and st: "\<forall>s. get_status a s = index_of nL s" "\<forall>s. get_status b s = index_of nR s"
  obtains ops where "operations (diff a b) = Inr ops" "\<forall>i \<in> set ops. planned nL nR i" "distinct (map op_series ops)"
    "op_series ` set ops = {s. canonical_tag (series_tag s) \<and> nL (skey s) \<noteq> nR (skey s)}"
proof -
  let ?op = "\<lambda>d. case resolve d of Inr i \<Rightarrow> i"
  have mem: "d \<in> set (diff a b) \<longleftrightarrow>
      diff_local d = index_of nL (diff_series d) \<and> diff_remote d = index_of nR (diff_series d) \<and> diff_local d \<noteq> diff_remote d" for d
    using set_diff [OF wf] st by simp
  have each: "resolve d = Inr (?op d) \<and> planned nL nR (?op d) \<and> op_series (?op d) = diff_series d" if "d \<in> set (diff a b)" for d
    using that unfolding mem by (auto simp: resolve_def index_of_def split: if_splits)
  let ?ops = "sort_key op_key (map ?op (diff a b))"
  have "map resolve (diff a b) = map (\<lambda>d. Inr (?op d)) (diff a b)" using each by auto
  then have "operations (diff a b) = Inr ?ops" by (simp only: operations_def collect_results_map_Inr sum.case)
  moreover have "\<forall>i \<in> set ?ops. planned nL nR i" using each by auto
  moreover have "distinct (map op_series ?ops)"
  proof -
    have "map op_series (map ?op (diff a b)) = map diff_series (diff a b)" using each by auto
    then have "distinct (map op_series (map ?op (diff a b)))" using distinct_diff_series [OF wf] by (simp only:)
    then show ?thesis by (simp only: distinct_map distinct_sort set_sort)
  qed
  moreover have "op_series ` set ?ops = diff_series ` set (diff a b)"
    using each by (auto simp: image_image intro!: image_cong)
  moreover have "diff_series ` set (diff a b) = {s. index_of nL s \<noteq> index_of nR s}"
  proof
    show "{s. index_of nL s \<noteq> index_of nR s} \<subseteq> diff_series ` set (diff a b)"
    proof
      fix s assume "s \<in> {s. index_of nL s \<noteq> index_of nR s}"
      then have "\<lparr>diff_series = s, diff_local = index_of nL s, diff_remote = index_of nR s\<rparr> \<in> set (diff a b)" by (simp add: mem)
      then show "s \<in> diff_series ` set (diff a b)" by force
    qed
  qed (auto simp: mem)
  moreover have "{s. index_of nL s \<noteq> index_of nR s} = {s. canonical_tag (series_tag s) \<and> nL (skey s) \<noteq> nR (skey s)}"
    by (auto simp: index_of_def)
  ultimately show ?thesis using that by metis
qed

lemma set_sampled:
  assumes "wf_status st"
  shows "set (filter (\<lambda>s. series_tag s \<noteq> Packfile) (concat (map (\<lambda>(h, tags). map (\<lambda>(t, _). RecordSeriesKey_new h t) tags) (hosts st))))
    = {s. series_tag s \<noteq> Packfile \<and> get_status st s \<noteq> None}"
proof -
  have "map (\<lambda>(h, tags). map (\<lambda>(t, _). RecordSeriesKey_new h t) tags) (hosts st)
      = map (map fst) (map (\<lambda>(h, m). map (\<lambda>(t, i). (RecordSeriesKey_new h t, i)) m) (hosts st))"
    by (auto simp: comp_def)
  then have "concat (map (\<lambda>(h, tags). map (\<lambda>(t, _). RecordSeriesKey_new h t) tags) (hosts st)) = map fst (entries st)"
    by (simp only: entries_def map_concat)
  then show ?thesis using entries_get [OF assms] by force
qed

lemma q_next_first:
  assumes "\<forall>x \<in> set rows. 0 \<le> row_idx x" "k \<in> row_series ` set rows"
  shows "\<exists>x xs. q_next rows k (as_i64 0) (as_i64 1) = x # xs \<and> x \<in> set rows"
proof -
  let ?l = "sort_key row_idx (filter (\<lambda>w. as_i64 0 \<le> row_idx w) (q_series rows k))"
  have sub: "set ?l \<subseteq> set rows" by (auto simp: q_series_def)
  from assms obtain x where "x \<in> set ?l" by (auto simp: q_series_def)
  then have "?l \<noteq> []" by (metis list.set_cases list.distinct(1))
  then obtain y ys where l: "?l = y # ys" by (cases ?l) auto
  then have "y \<in> set ?l" by (simp only: list.set_intros)
  then have "y \<in> set rows" using sub by blast
  moreover have "q_next rows k (as_i64 0) (as_i64 1) = [y]" by (simp only: q_next_def sql_limit_def l) simp
  ultimately show ?thesis by blast
qed

context remote_log
begin

text \<open>Both sides hold prefixes, of lengths \<open>nL\<close> and \<open>nR\<close>.\<close>

definition at :: "world_log \<Rightarrow> (series \<Rightarrow> nat) \<Rightarrow> (series \<Rightarrow> nat) \<Rightarrow> 'r world \<Rightarrow> bool" where
  "at G nL nR w \<longleftrightarrow> healthy (local w) \<and> holds G nL (tables (local w)) \<and> ok (remote w) \<and> holds G nR (rows (remote w))"

lemma upload_page_at:
  assumes E: "log_ok E G accepts" "e_net E = net" and w: "at G nL nR w" and s: "series_tag s \<noteq> Packfile"
    and i: "i \<le> nR k" "i + len \<le> length (G k)"
  shows "\<exists>w'. upload_page E s (map from_row (segment G k i len)) w = (Inr (), w')
    \<and> at G nL (nR(k := max (nR k) (i + len))) w'"
proof -
  have "\<forall>x \<in> set (segment G k i len). accepts (from_row x)"
    using log_okD(5) [OF E(1)] set_segment by blast
  with post_log [OF log_okD(1) [OF E(1)], of "remote w" nR i k len] w i
  obtain r' where "post_records net (map from_row (segment G k i len)) (remote w) = (Inr (), r')" "ok r'"
      "holds G (nR(k := max (nR k) (i + len))) (rows r')"
    by (auto simp: at_def)
  with w s E(2) show ?thesis
    by (auto simp: upload_page_def bind_io_def map_err_def on_remote_def zoom_def at_def intro!: exI [of _ "w\<lparr>remote := r'\<rparr>"])
qed

lemma upload_loop_at:
  assumes E: "log_ok E G accepts" "e_net E = net" and s: "series_tag s \<noteq> Packfile"
  shows "at G nL nR w \<Longrightarrow> nR (skey s) = f + p \<Longrightarrow> f + expected = nL (skey s) \<Longrightarrow> p \<le> expected \<Longrightarrow>
    \<exists>w'. upload_loop E s f expected p w = (Inr expected, w') \<and> at G nL (nR(skey s := nL (skey s))) w'"
proof (induction "expected - p" arbitrary: p nR w rule: less_induct)
  case less
  let ?k = "skey s"
  note G = log_okD(1) [OF E(1)]
  have nL: "nL ?k < 2 ^ 62" "nL ?k \<le> length (G ?k)"
    using less.prems(1) holds_le [OF _ E(1), of nL "tables (local w)"] holds_len [of G nL "tables (local w)"] by (simp_all add: at_def)
  show ?case
  proof (cases "p = expected")
    case True
    with less.prems have "nR(?k := nL ?k) = nR" by auto
    with True less.prems(1) show ?thesis by (simp add: upload_loop.simps)
  next
    case False
    let ?len = "min (e_page_size E) (nL ?k - (f + p))"
    have len: "0 < ?len" "f + p + ?len \<le> nL ?k" using False less.prems(3,4) log_okD(2) [OF E(1)] by auto
    have "store_next s (f + p) (e_page_size E) (local w) = (Inr (map from_row (segment G ?k (f + p) ?len)), local w)"
      using less.prems(1,3,4) nL log_okD(3) [OF E(1)] holds_next [OF G, of nL "tables (local w)" "f + p" "e_page_size E" ?k]
      by (simp add: at_def store_next_healthy)
    moreover have "u64_add f p = f + p" using less.prems(3,4) nL by simp
    ultimately have fetch: "map_err LocalStoreError (on_local (store_next s (u64_add f p) (e_page_size E))) w
        = (Inr (map from_row (segment G ?k (f + p) ?len)), w)"
      by (simp add: map_err_def on_local_def zoom_def)
    have size: "length (segment G ?k (f + p) ?len) = ?len" using len nL by (simp add: segment_def)
    obtain w1 where w1: "upload_page E s (map from_row (segment G ?k (f + p) ?len)) w = (Inr (), w1)"
        "at G nL (nR(?k := max (nR ?k) (f + p + ?len))) w1"
      using upload_page_at [OF E less.prems(1) s, of "f + p" ?k ?len] less.prems(2) len nL by auto
    have "\<exists>w'. upload_loop E s f expected (p + ?len) w1 = (Inr expected, w')
        \<and> at G nL ((nR(?k := max (nR ?k) (f + p + ?len)))(?k := nL ?k)) w'"
      using w1(2) less.prems(2,3,4) len False by (intro less.hyps) auto
    then obtain w' where "upload_loop E s f expected (p + ?len) w1 = (Inr expected, w')" "at G nL (nR(?k := nL ?k)) w'"
      by auto
    moreover have "map from_row (segment G ?k (f + p) ?len) \<noteq> []" using size len by auto
    ultimately show ?thesis
      using False less.prems(4) fetch w1(1) size by (subst upload_loop.simps) (auto simp del: map_is_Nil_conv)
  qed
qed

lemma sync_upload_at:
  assumes E: "log_ok E G accepts" "e_net E = net" and s: "series_tag s \<noteq> Packfile" and w: "at G nL nR w"
    and l: "nR (skey s) < nL (skey s)"
  shows "\<exists>w'. sync_upload E s (nL (skey s) - 1) (if nR (skey s) = 0 then None else Some (nR (skey s) - 1)) w = (Inr (nL (skey s) - nR (skey s)), w')
    \<and> at G nL (nR(skey s := nL (skey s))) w'"
proof -
  let ?k = "skey s"
  have nL: "nL ?k < 2 ^ 62" using w holds_le [OF _ E(1), of nL "tables (local w)"] by (simp add: at_def)
  have f: "(case (if nR ?k = 0 then None else Some (nR ?k - 1)) of None \<Rightarrow> 0 | Some n \<Rightarrow> u64_add n 1) = nR ?k"
    using l nL by simp
  have x: "u64_sub (u64_add (nL ?k - 1) 1) (nR ?k) = nL ?k - nR ?k" using l nL by simp
  show ?thesis
    unfolding sync_upload_def Let_def f x
    using upload_loop_at [OF E s w, of "nR ?k" 0 "nL ?k - nR ?k"] l by auto
qed

lemma download_page_at:
  assumes E: "log_ok E G accepts" and s: "series_tag s \<noteq> Packfile" and w: "at G (nL(skey s := c)) nR w"
    and len: "c + len \<le> nR (skey s)"
  shows "\<exists>w'. download_page E s (map (\<lambda>i. from_row (G (skey s) ! i)) [c..<c + len]) (w, ret)
      = (Inr (), (w', ret @ map (\<lambda>i. row_id (G (skey s) ! i)) [c..<c + len]))
    \<and> at G (nL(skey s := c + len)) nR w'"
proof -
  let ?k = "skey s"
  have "nR ?k \<le> length (G ?k)" using w holds_len [of G nR "rows (remote w)"] by (simp add: at_def)
  then have le: "c + len \<le> length (G ?k)" using len by simp
  have rs: "map (\<lambda>i. from_row (G ?k ! i)) [c..<c + len] = map from_row (segment G ?k c len)"
    by (simp add: segment_conv [of c len G ?k] le)
  obtain l' where l': "push_batch (map from_row (segment G ?k c len)) (local w) = (Inr (), l')" "healthy l'"
      "holds G (nL(?k := c + len)) (tables l')"
    using push_segment [OF log_okD(1) [OF E], of "local w" "nL(?k := c)" c ?k len] w le by (auto simp: at_def)
  have ids: "map rec_id (map from_row (segment G ?k c len)) = map (\<lambda>i. row_id (G ?k ! i)) [c..<c + len]"
    by (simp add: segment_conv le from_row_def)
  have "download_page E s (map from_row (segment G ?k c len)) (w, ret)
      = (Inr (), (w\<lparr>local := l'\<rparr>, ret @ map rec_id (map from_row (segment G ?k c len))))"
    using s l'(1) by (simp add: download_page_def bind_io_def map_err_def on_local_def zoom_def)
  with l' w show ?thesis
    unfolding rs ids by (intro exI [of _ "w\<lparr>local := l'\<rparr>"]) (simp add: at_def)
qed

lemma sync_download_at:
  assumes E: "log_ok E G accepts" "e_net E = net" and s: "series_tag s \<noteq> Packfile" and w: "at G nL nR w"
    and l: "nL (skey s) < nR (skey s)"
  shows "\<exists>w'. sync_download E s (nR (skey s) - 1) w = (Inr (map (\<lambda>i. row_id (G (skey s) ! i)) [nL (skey s)..<nR (skey s)]), w')
    \<and> at G (nL(skey s := nR (skey s))) nR w'"
proof -
  let ?k = "skey s" and ?item = "\<lambda>i. from_row (G (skey s) ! i)"
  note G = log_okD(1) [OF E(1)]
  let ?ids = "\<lambda>a b. map (\<lambda>i. row_id (G ?k ! i)) [a..<b]"
  let ?I = "\<lambda>c (w, ret). at G (nL(?k := c)) nR w \<and> nL ?k \<le> c \<and> ret = ?ids (nL ?k) c"
  let ?ch = "Chunks_new (nL ?k) (nR ?k) (e_page_size E)"
  have small: "nR ?k < 2 ^ 62" using w holds_le [OF _ E(1), of nR "rows (remote w)"] by (simp add: at_def)
  have src: "page_source (fetch_page E s) ?item ?I (nR ?k)"
  proof -
    have "fetch_page E s (c, b) (w, ret) = (Inr (map ?item [c..<c + (b - c)]), (w, ret))"
      if "at G (nL(?k := c)) nR w" "c < b" "b \<le> nR ?k" for c b w ret
    proof -
      have "nR ?k \<le> length (G ?k)" using that(1) holds_len [of G nR "rows (remote w)"] by (simp add: at_def)
      then show ?thesis
        using that small E(2) page_log [OF G, of "remote w" nR c b s]
        by (simp add: at_def fetch_page_def map_err_def on_remote_def zoom_def segment_conv [of c "b - c" G ?k] min_absorb1)
    qed
    then show ?thesis unfolding page_source_def by (auto intro!: exI [of _ "b - c" for b c])
  qed
  have snk: "page_sink (download_page E s) ?item ?I (nR ?k)"
  proof -
    have "?ids (nL ?k) (c + len) = ?ids (nL ?k) c @ ?ids c (c + len)" if "nL ?k \<le> c" for c len
      using upt_add_eq_append [OF that, of len] by simp
    then show ?thesis
      using download_page_at [OF E(1) s] unfolding page_sink_def by fastforce
  qed
  have ch: "chunk_end ?ch = nR ?k" "chunk_cursor ?ch = nL ?k" "chunk_size ?ch = e_page_size E"
    using log_okD(2) [OF E(1)] by (simp_all add: Chunks_new_def into_nonzero_saturating_def)
  have "\<exists>w'. stream_pages (fetch_page E s) (download_page E s) ?ch (w, []) = (Inr (), w') \<and> ?I (chunk_end ?ch) w'"
    using src snk log_okD(2,3) [OF E(1)] small l w
    by (intro stream_pages_all [where item = ?item and I = ?I]) (simp_all add: ch)
  then obtain w' where w': "stream_pages (fetch_page E s) (download_page E s) ?ch (w, []) = (Inr (), (w', ?ids (nL ?k) (nR ?k)))"
      "at G (nL(?k := nR ?k)) nR w'"
    by (auto simp: ch)
  have "first_gap s (local w) = (Inr (nL ?k), local w)"
    using w holds_gap [OF G, of nL "tables (local w)" ?k] l small first_gap_healthy [of "local w" s "int (nL ?k)"] by (simp add: at_def)
  moreover have "u64_add (nL ?k) (u64_add (nR ?k - 1) 1 - nL ?k) = nR ?k" using l small by simp
  ultimately show ?thesis
    using w w' by (auto simp: sync_download_def bind_io_def map_err_def on_local_def zoom_def at_def store_last_healthy download_pages_def Let_def)
qed

lemma run_ops_at:
  assumes E: "log_ok E G accepts" "e_net E = net"
  shows "at G nL nR w \<Longrightarrow> \<forall>i \<in> set ops. planned nL0 nR0 i \<Longrightarrow> distinct (map op_series ops) \<Longrightarrow>
      \<forall>i \<in> set ops. nL (skey (op_series i)) = nL0 (skey (op_series i)) \<and> nR (skey (op_series i)) = nR0 (skey (op_series i)) \<Longrightarrow>
    \<exists>w'. run_ops E False ops acc w = (Inr (fst acc + sent nL0 nR0 ops, snd acc @ received G nL0 nR0 ops), w')
      \<and> at G (raised (moved ops) nL nR) (raised (moved ops) nR nL) w'"
proof (induction ops arbitrary: nL nR w acc)
  case Nil
  then show ?case by (simp add: moved_def raised_def [abs_def] sent_def received_def)
next
  case (Cons i ops)
  let ?k = "skey (op_series i)"
  have tags: "\<forall>j \<in> set (i # ops). canonical_tag (series_tag (op_series j))"
  proof
    fix j assume "j \<in> set (i # ops)"
    with Cons.prems(2) have "planned nL0 nR0 j" by blast
    then show "canonical_tag (series_tag (op_series j))" by (cases j) auto
  qed
  have new: "?k \<noteq> skey (op_series j)" if "j \<in> set ops" for j
  proof -
    have "op_series i \<noteq> op_series j" using Cons.prems(3) that by auto
    then show ?thesis using tags that skey_inject by (metis list.set_intros)
  qed
  have IH: "at G nL' nR' w1 \<Longrightarrow> \<forall>j \<in> set ops. nL' (skey (op_series j)) = nL (skey (op_series j)) \<and> nR' (skey (op_series j)) = nR (skey (op_series j)) \<Longrightarrow>
      \<exists>w'. run_ops E False ops acc w1 = (Inr (fst acc + sent nL0 nR0 ops, snd acc @ received G nL0 nR0 ops), w')
      \<and> at G (raised (moved ops) nL' nR') (raised (moved ops) nR' nL') w'" for nL' nR' w1 acc
    using Cons.prems(2,3,4) by (intro Cons.IH) auto
  show ?case
  proof (cases "series_tag (op_series i) = Packfile")
    case True
    then have "moved (i # ops) = moved ops" "sent nL0 nR0 (i # ops) = sent nL0 nR0 ops"
        "received G nL0 nR0 (i # ops) = received G nL0 nR0 ops"
      by (auto simp: moved_def sent_def received_def)
    moreover have "run_ops E False (i # ops) acc w = run_ops E False ops acc w"
      using True by (cases i) auto
    ultimately show ?thesis using IH [OF Cons.prems(1)] by simp
  next
    case False
    let ?nL = "nL(?k := max (nL ?k) (nR ?k))" and ?nR = "nR(?k := max (nL ?k) (nR ?k))"
    let ?acc = "(fst acc + (nL ?k - nR ?k), snd acc @ map (\<lambda>j. row_id (G ?k ! j)) [nL ?k..<nR ?k])"
    have old: "nL ?k = nL0 ?k" "nR ?k = nR0 ?k" using Cons.prems(4) by auto
    have "\<exists>w1. run_ops E False (i # ops) acc w = run_ops E False ops ?acc w1 \<and> at G ?nL ?nR w1"
    proof (cases i)
      case (Upload l r s)
      then have s: "op_series i = s" by simp
      with Upload Cons.prems(2) old have plan: "nR ?k < nL ?k" "l = nL ?k - 1" "r = (if nR ?k = 0 then None else Some (nR ?k - 1))" by auto
      then obtain w1 where "sync_upload E s l r w = (Inr (nL ?k - nR ?k), w1)" "at G nL (nR(?k := nL ?k)) w1"
        using sync_upload_at [OF E _ Cons.prems(1), of s] False unfolding s by blast
      with plan(1) False Upload show ?thesis by (intro exI [of _ w1]) (simp add: bind_io_def max_def s)
    next
      case (Download r s)
      then have s: "op_series i = s" by simp
      with Download Cons.prems(2) old have plan: "nL ?k < nR ?k" "r = nR ?k - 1" by auto
      then obtain w1 where "sync_download E s r w = (Inr (map (\<lambda>j. row_id (G ?k ! j)) [nL ?k..<nR ?k]), w1)" "at G (nL(?k := nR ?k)) nR w1"
        using sync_download_at [OF E _ Cons.prems(1), of s] False unfolding s by blast
      with plan(1) False Download show ?thesis by (intro exI [of _ w1]) (simp add: bind_io_def max_def s)
    qed (use Cons.prems(2) in simp)
    then obtain w1 where w1: "run_ops E False (i # ops) acc w = run_ops E False ops ?acc w1" "at G ?nL ?nR w1" by blast
    obtain w' where w': "run_ops E False ops ?acc w1 = (Inr (fst ?acc + sent nL0 nR0 ops, snd ?acc @ received G nL0 nR0 ops), w')"
        "at G (raised (moved ops) ?nL ?nR) (raised (moved ops) ?nR ?nL) w'"
    proof -
      have "\<forall>j \<in> set ops. ?nL (skey (op_series j)) = nL (skey (op_series j)) \<and> ?nR (skey (op_series j)) = nR (skey (op_series j))"
        using new by (metis fun_upd_other)
      from IH [OF w1(2) this, of ?acc] show thesis using that by blast
    qed
    have "moved (i # ops) = insert ?k (moved ops)" using False by (auto simp: moved_def)
    then have "raised (moved ops) ?nL ?nR = raised (moved (i # ops)) nL nR" "raised (moved ops) ?nR ?nL = raised (moved (i # ops)) nR nL"
      by (auto simp: raised_def fun_eq_iff max.commute)
    then show ?thesis
      using w1(1) w' False by (auto simp: sent_def received_def old)
  qed
qed

lemma check_key_at:
  assumes E: "log_ok E G accepts" "e_net E = net" and w: "at G nL nR w"
    and st: "wf_status st" "\<forall>s. get_status st s = index_of nR s"
  shows "check_key_against_index E st w = (None, w)"
proof -
  let ?ss = "filter (\<lambda>s. series_tag s \<noteq> Packfile) (concat (map (\<lambda>(h, tags). map (\<lambda>(t, _). RecordSeriesKey_new h t) tags) (hosts st)))"
  note set = set_sampled [OF st(1)]
  show ?thesis
  proof (cases ?ss)
    case (Cons s ss)
    then have "s \<in> {s. series_tag s \<noteq> Packfile \<and> get_status st s \<noteq> None}" unfolding set [symmetric] by simp
    then have s: "series_tag s \<noteq> Packfile" "canonical_tag (series_tag s)" "0 < nR (skey s)"
      using st(2) by (auto simp: index_of_def split: if_splits)
    then have "snd (skey s) \<noteq> ''packfile''" using packfile_tag by (simp add: skey_def)
    moreover have len: "0 < length (G (skey s))" using s(3) w holds_len [of G nR "rows (remote w)" "skey s"] by (auto simp: at_def)
    ultimately obtain x where x: "decrypt (e_prims E) (e_ad_json E) (from_row (G (skey s) ! 0)) (e_key E) = Inr x"
      using log_okD(6) [OF E(1), of "G (skey s) ! 0" "skey s"] by auto
    have "segment G (skey s) 0 1 = [G (skey s) ! 0]" using len by (cases "G (skey s)") (simp_all add: segment_def)
    then have "page net s (0, 1) (remote w) = (Inr [from_row (G (skey s) ! 0)], remote w)"
      using page_log [OF log_okD(1) [OF E(1)], of "remote w" nR 0 1 s] w s(3) by (simp add: at_def min_def)
    then show ?thesis
      using Cons x E(2) by (simp add: check_key_against_index_def records_one_def bind_io_def on_remote_def zoom_def)
  qed (simp add: check_key_against_index_def)
qed

lemma sync_run:
  assumes E: "log_ok E G accepts" "e_net E = net" "e_api E = A" and w: "at G nL nR w" and off: "packfiles_off E (remote w)"
  obtains ops where "sync E w = run_ops E False ops (0, []) w" "\<forall>i \<in> set ops. planned nL nR i" "distinct (map op_series ops)"
    "moved ops = {k. snd k \<noteq> ''packfile'' \<and> nL k \<noteq> nR k}"
proof -
  note G = log_okD(1) [OF E(1)]
  let ?a = "status_of (q_status (tables (local w)))"
  have a: "wf_status ?a" "\<forall>s. get_status ?a s = index_of nL s"
    using w holds_status [OF G, of nL "tables (local w)"] by (auto simp: at_def index_of_def)
  obtain b where b: "record_status A net (remote w) = (Inr b, remote w)" "wf_status b" "\<forall>s. get_status b s = index_of nR s"
    using w status_log [OF G, of "remote w" nR] by (auto simp: at_def index_of_def)
  obtain ops where ops: "operations (diff ?a b) = Inr ops" "\<forall>i \<in> set ops. planned nL nR i" "distinct (map op_series ops)"
      "op_series ` set ops = {s. canonical_tag (series_tag s) \<and> nL (skey s) \<noteq> nR (skey s)}"
    using plan_diff [OF a(1) b(2) a(2) b(3)] by blast
  have "engine_diff E w = (Inr (diff ?a b, b), w)"
    using w b(1) E(2,3) by (simp add: engine_diff_def engine_record_status_def bind_io_def map_err_def on_local_def on_remote_def zoom_def status_healthy at_def)
  moreover have "check_key_against_index E b w = (None, w)" using check_key_at [OF E(1,2) w b(2,3)] .
  moreover have "sync_remote E ops w = run_ops E False ops (0, []) w"
    using off by (auto simp: packfiles_off_def sync_remote_def on_remote_def zoom_def split: prod.splits sum.splits option.splits)
  ultimately have "sync E w = run_ops E False ops (0, []) w" using ops(1) by (simp add: sync_def bind_io_def)
  from that [OF this ops(2,3) moved_plan [OF ops(4)]] show thesis .
qed

lemma sync_at:
  assumes E: "log_ok E G accepts" "e_net E = net" "e_api E = A" and w: "at G nL nR w" and off: "packfiles_off E (remote w)"
  shows "\<exists>n ids w'. sync E w = (Inr (n, ids), w') \<and> at G (synced nL nR) (synced nR nL) w'
    \<and> n = (\<Sum>k | snd k \<noteq> ''packfile'' \<and> nR k < nL k. nL k - nR k)
    \<and> set ids = {row_id (G k ! i) | k i. snd k \<noteq> ''packfile'' \<and> nL k \<le> i \<and> i < nR k}"
proof -
  obtain ops where run: "sync E w = run_ops E False ops (0, []) w" and ops: "\<forall>i \<in> set ops. planned nL nR i" "distinct (map op_series ops)"
      and moved: "moved ops = {k. snd k \<noteq> ''packfile'' \<and> nL k \<noteq> nR k}"
    using assms by (rule sync_run)
  obtain w' where w': "run_ops E False ops (0, []) w = (Inr (sent nL nR ops, received G nL nR ops), w')"
      "at G (raised (moved ops) nL nR) (raised (moved ops) nR nL) w'"
    using run_ops_at [OF E(1,2) w ops, of "(0, [])"] by auto
  have "at G (synced nL nR) (synced nR nL) w'" using w'(2) raised_moved [OF moved] by simp
  with run w'(1) sent_plan [OF ops moved] set_received [OF moved] show ?thesis by auto
qed

text \<open>A sync of sides that agree off the packfiles does nothing.\<close>

lemma sync_idle:
  assumes E: "log_ok E G accepts" "e_net E = net" "e_api E = A" and w: "at G nL nR w" and off: "packfiles_off E (remote w)"
    and eq: "\<forall>k. snd k \<noteq> ''packfile'' \<longrightarrow> nL k = nR k"
  shows "sync E w = (Inr (0, []), w)"
proof -
  obtain ops where run: "sync E w = run_ops E False ops (0, []) w" "\<forall>i \<in> set ops. planned nL nR i" "distinct (map op_series ops)"
      "moved ops = {k. snd k \<noteq> ''packfile'' \<and> nL k \<noteq> nR k}"
    using E w off by (rule sync_run)
  have "moved ops = {}" unfolding run(4) using eq by blast
  then have "\<forall>i \<in> set ops. series_tag (op_series i) = Packfile" by (auto simp: moved_def)
  then have "run_ops E False ops acc w = (Inr acc, w)" for acc
  proof (induction ops)
    case (Cons i ops)
    then show ?case by (cases i) simp_all
  qed simp
  with run(1) show ?thesis by simp
qed

lemma sync_twice:
  assumes E: "log_ok E G accepts" "e_net E = net" "e_api E = A" and w: "at G nL nR w" and off: "\<forall>r. packfiles_off E r"
  shows "\<exists>x w'. sync E w = (Inr x, w') \<and> sync E w' = (Inr (0, []), w')"
proof -
  obtain n ids w' where w': "sync E w = (Inr (n, ids), w')" "at G (synced nL nR) (synced nR nL) w'"
    using sync_at [OF E w] off by blast
  have "\<forall>k. snd k \<noteq> ''packfile'' \<longrightarrow> synced nL nR k = synced nR nL k" by (simp add: synced_def max.commute)
  from sync_idle [OF E w'(2) _ this] w'(1) off show ?thesis by blast
qed

text \<open>Two devices \<open>a\<close> and \<open>b\<close> of one user meet on the remote.\<close>

lemma two_devices:
  assumes E: "log_ok E G accepts" "e_net E = net" "e_api E = A" "\<forall>r. packfiles_off E r"
    and F: "log_ok F G accepts" "e_net F = net" "e_api F = A" "\<forall>r. packfiles_off F r"
    and a: "healthy a" "holds G nA (tables a)" and b: "healthy b" "holds G nB (tables b)" and r: "ok r" "holds G nR (rows r)"
  shows "\<exists>x y z w1 w2 w3. sync E \<lparr>local = a, remote = r\<rparr> = (Inr x, w1) \<and> sync F \<lparr>local = b, remote = remote w1\<rparr> = (Inr y, w2)
    \<and> sync E \<lparr>local = local w1, remote = remote w2\<rparr> = (Inr z, w3)
    \<and> holds G (synced nA (\<lambda>k. max (nB k) (nR k))) (tables (local w3))
    \<and> holds G (synced nB (\<lambda>k. max (nA k) (nR k))) (tables (local w2))
    \<and> holds G (synced nR (\<lambda>k. max (nA k) (nB k))) (rows (remote w3))"
proof -
  have w0: "at G nA nR \<lparr>local = a, remote = r\<rparr>" using a r by (simp add: at_def)
  obtain x w1 where w1: "sync E \<lparr>local = a, remote = r\<rparr> = (Inr x, w1)" "at G (synced nA nR) (synced nR nA) w1"
    using sync_at [OF E(1-3) w0 E(4) [rule_format]] by blast
  from w1(2) b have "at G nB (synced nR nA) \<lparr>local = b, remote = remote w1\<rparr>" by (simp add: at_def)
  from sync_at [OF F(1-3) this F(4) [rule_format]] obtain y w2 where
      w2: "sync F \<lparr>local = b, remote = remote w1\<rparr> = (Inr y, w2)" "at G (synced nB (synced nR nA)) (synced (synced nR nA) nB) w2" by blast
  from w1(2) w2(2) have "at G (synced nA nR) (synced (synced nR nA) nB) \<lparr>local = local w1, remote = remote w2\<rparr>" by (simp add: at_def)
  from sync_at [OF E(1-3) this E(4) [rule_format]] obtain z w3 where
      w3: "sync E \<lparr>local = local w1, remote = remote w2\<rparr> = (Inr z, w3)"
        "at G (synced (synced nA nR) (synced (synced nR nA) nB)) (synced (synced (synced nR nA) nB) (synced nA nR)) w3" by blast
  have "synced (synced nA nR) (synced (synced nR nA) nB) k = synced nA (\<lambda>k. max (nB k) (nR k)) k"
    "synced nB (synced nR nA) k = synced nB (\<lambda>k. max (nA k) (nR k)) k"
    "synced (synced (synced nR nA) nB) (synced nA nR) k = synced nR (\<lambda>k. max (nA k) (nB k)) k" for k
    by (simp_all add: synced_def ac_simps)
  then have eqs: "synced (synced nA nR) (synced (synced nR nA) nB) = synced nA (\<lambda>k. max (nB k) (nR k))"
    "synced nB (synced nR nA) = synced nB (\<lambda>k. max (nA k) (nR k))"
    "synced (synced (synced nR nA) nB) (synced nA nR) = synced nR (\<lambda>k. max (nA k) (nB k))"
    by (simp_all only: fun_eq_iff simp_thms)
  show ?thesis
    using w1(1) w2(1) w3(1) w2(2) w3(2) unfolding eqs at_def
    by (intro exI [of _ x] exI [of _ y] exI [of _ z] exI [of _ w1] exI [of _ w2] exI [of _ w3]) simp
qed

text \<open>With a key that opens no record of the remote, the sample fails and nothing is moved.\<close>

lemma sync_wrong_key:
  assumes E: "e_net E = net" "e_api E = A" and w: "healthy (local w)" "ok (remote w)"
    and rows: "\<forall>x \<in> set (rows (remote w)). 0 \<le> row_idx x \<and> (\<exists>e. decrypt (e_prims E) (e_ad_json E) (from_row x) (e_key E) = Inl e)"
    and some: "y \<in> set (rows (remote w))" "row_tag y \<noteq> ''packfile''"
  shows "sync E w = (Inl WrongKey, w)"
proof -
  let ?rows = "rows (remote w)"
  obtain b where b: "record_status A net (remote w) = (Inr b, remote w)" "wf_status b"
      "get_status b = get_status (status_of (q_status ?rows))"
    using status_law [OF w(2)] by blast
  have get: "get_status b s \<noteq> None \<longleftrightarrow> canonical_tag (series_tag s) \<and> skey s \<in> row_series ` set ?rows" for s
    unfolding b(3) by (simp add: get_status_of distinct_q_status map_of_q_status)
  let ?ss = "filter (\<lambda>s. series_tag s \<noteq> Packfile) (concat (map (\<lambda>(h, tags). map (\<lambda>(t, _). RecordSeriesKey_new h t) tags) (hosts b)))"
  note set = set_sampled [OF b(2)]
  let ?s = "RecordSeriesKey_new (fst (row_series y)) (tag_from (snd (row_series y)))"
  have "?s \<in> set ?ss"
    unfolding set using some packfile_tag [of "series_tag ?s"] get [of ?s] by (auto simp: row_series_def)
  then obtain s ss where s: "?ss = s # ss" by (cases ?ss) auto
  then have "s \<in> set ?ss" by simp
  then have s': "canonical_tag (series_tag s)" "skey s \<in> row_series ` set ?rows" unfolding set using get by auto
  obtain x xs where x: "q_next ?rows (skey s) (as_i64 0) (as_i64 1) = x # xs" "x \<in> set ?rows"
    using q_next_first [OF _ s'(2)] rows by blast
  then obtain e where e: "decrypt (e_prims E) (e_ad_json E) (from_row x) (e_key E) = Inl e" using rows by blast
  have "page net s (0, 1) (remote w) = (Inr (map from_row (x # xs)), remote w)"
    using page_law [OF w(2), of 0 1 s] x by simp
  then have "check_key_against_index E b w = (Some WrongKey, w)"
    using s e E(1) by (simp add: check_key_against_index_def records_one_def bind_io_def on_remote_def zoom_def)
  then show ?thesis
    using w b(1) E by (simp add: sync_def engine_diff_def engine_record_status_def bind_io_def map_err_def on_local_def on_remote_def zoom_def status_healthy)
qed

end

section \<open>Properties\<close>

lemma resolve_diff:
  assumes "wf_status a" "wf_status b" "d \<in> set (diff a b)"
  shows "\<exists>i. resolve d = Inr i \<and> op_series i = diff_series d
    \<and> i = (case (get_status a (diff_series d), get_status b (diff_series d)) of
             (Some l, Some r) \<Rightarrow> if l > r then Upload l (Some r) (diff_series d) else Download r (diff_series d)
           | (None, Some r) \<Rightarrow> Download r (diff_series d)
           | (Some l, None) \<Rightarrow> Upload l None (diff_series d)
           | (None, None) \<Rightarrow> Noop (diff_series d))
    \<and> get_status a (diff_series d) \<noteq> get_status b (diff_series d)"
  using assms(3) unfolding set_diff [OF assms(1,2)] by (auto simp: resolve_def split: option.splits)

lemma resolved_diffs:
  assumes "wf_status a" "wf_status b"
  obtains ops where "collect_results (map resolve (diff a b)) = Inr ops" "length ops = length (diff a b)"
    "\<forall>j < length ops. resolve (diff a b ! j) = Inr (ops ! j)"
proof -
  have "\<forall>r \<in> set (map resolve (diff a b)). \<exists>i. r = Inr i" using resolve_diff [OF assms] by auto
  then obtain ops where ops: "collect_results (map resolve (diff a b)) = Inr ops" using collect_results_ok by blast
  then have eq: "map resolve (diff a b) = map Inr ops" by (rule collect_results_InrD)
  moreover from this have "length ops = length (diff a b)" by (metis length_map)
  moreover from this eq have "\<forall>j < length ops. resolve (diff a b ! j) = Inr (ops ! j)" by (metis nth_map)
  ultimately show thesis using ops that by blast
qed

text \<open>
  C6: planning. From the indices of the two sides every series gets exactly the operation it needs:
  an upload from behind the remote's tail if the local tail is ahead, a download if the remote's is,
  none if they agree. Planning cannot fail. All uploads come before all downloads, and among the
  downloads of one host the packfiles come first.
\<close>

theorem operations_plan:
  assumes "wf_status a" "wf_status b"
  shows "\<exists>ops. operations (diff a b) = Inr ops \<and> distinct (map op_series ops)
    \<and> (\<forall>l r s. Upload l r s \<in> set ops \<longleftrightarrow> get_status a s = Some l \<and> get_status b s = r \<and> (\<forall>x. r = Some x \<longrightarrow> x < l))
    \<and> (\<forall>r s. Download r s \<in> set ops \<longleftrightarrow> get_status b s = Some r \<and> (\<forall>x. get_status a s = Some x \<longrightarrow> x < r))
    \<and> (\<forall>s. Noop s \<notin> set ops)
    \<and> (\<forall>i j r s. i < j \<longrightarrow> j < length ops \<longrightarrow> ops ! i = Download r s \<longrightarrow>
         (\<exists>r' s'. ops ! j = Download r' s' \<and> (series_host s' = series_host s \<longrightarrow> series_tag s' = Packfile \<longrightarrow> series_tag s = Packfile)))"
proof -
  obtain ops where ops: "collect_results (map resolve (diff a b)) = Inr ops" "length ops = length (diff a b)"
      "\<forall>j < length ops. resolve (diff a b ! j) = Inr (ops ! j)"
    using assms by (rule resolved_diffs)
  define sorted_ops where "sorted_ops = sort_key op_key ops"
  have run: "operations (diff a b) = Inr sorted_ops" using ops(1) by (simp add: operations_def sorted_ops_def)
  have "map resolve (diff a b) = map Inr ops" using ops(1) by (rule collect_results_InrD)
  then have "resolve ` set (diff a b) = Inr ` set ops" by (metis set_map)
  then have "Inr i \<in> resolve ` set (diff a b) \<longleftrightarrow> (Inr i :: SyncError + Operation) \<in> Inr ` set ops" for i by (simp only:)
  then have mem: "i \<in> set sorted_ops \<longleftrightarrow> (\<exists>d \<in> set (diff a b). resolve d = Inr i)" for i
    unfolding sorted_ops_def set_sort by (metis (no_types, lifting) imageE image_eqI sum.inject(2))
  have "map op_series ops = map diff_series (diff a b)"
  proof (rule nth_equalityI)
    fix j assume "j < length (map op_series ops)"
    then have "resolve (diff a b ! j) = Inr (ops ! j)" "diff a b ! j \<in> set (diff a b)" using ops(2,3) by simp_all
    with resolve_diff [OF assms this(2)] ops(2) \<open>j < length (map op_series ops)\<close>
    show "map op_series ops ! j = map diff_series (diff a b) ! j" by auto
  qed (simp add: ops(2))
  then have "distinct (map op_series ops)" using distinct_diff_series [OF assms] by (simp only:)
  then have distinct: "distinct (map op_series sorted_ops)" by (simp only: sorted_ops_def distinct_map distinct_sort set_sort)
  let ?d = "\<lambda>s. \<lparr>diff_series = s, diff_local = get_status a s, diff_remote = get_status b s\<rparr>"
  have d: "?d s \<in> set (diff a b) \<longleftrightarrow> get_status a s \<noteq> get_status b s" for s by (simp add: set_diff [OF assms])
  have iff: "i \<in> set sorted_ops \<longleftrightarrow> get_status a (op_series i) \<noteq> get_status b (op_series i) \<and> resolve (?d (op_series i)) = Inr i" for i
  proof
    assume "i \<in> set sorted_ops"
    then obtain x where x: "x \<in> set (diff a b)" "resolve x = Inr i" unfolding mem by blast
    then have "op_series i = diff_series x" using resolve_diff [OF assms x(1)] by auto
    moreover have "x = ?d (diff_series x)" using x(1) by (simp add: set_diff [OF assms])
    moreover have "get_status a (diff_series x) \<noteq> get_status b (diff_series x)" using x(1) unfolding set_diff [OF assms] by metis
    ultimately show "get_status a (op_series i) \<noteq> get_status b (op_series i) \<and> resolve (?d (op_series i)) = Inr i"
      using x(2) by simp
  next
    assume i: "get_status a (op_series i) \<noteq> get_status b (op_series i) \<and> resolve (?d (op_series i)) = Inr i"
    then show "i \<in> set sorted_ops" unfolding mem using d [of "op_series i"] by blast
  qed
  have sorted: "op_key (sorted_ops ! i) \<le> op_key (sorted_ops ! j)" if "i < j" "j < length sorted_ops" for i j
    using that sorted_nth_mono [of "map op_key sorted_ops" i j] by (simp add: sorted_ops_def)
  have noop: "Noop s \<notin> set sorted_ops" for s
    unfolding iff by (auto simp: resolve_def split: option.splits if_splits)
  have order: "\<exists>r' s'. sorted_ops ! j = Download r' s' \<and> (series_host s' = series_host s \<longrightarrow> series_tag s' = Packfile \<longrightarrow> series_tag s = Packfile)"
    if "i < j" "j < length sorted_ops" "sorted_ops ! i = Download r s" for i j r s
    using sorted [OF that(1,2)] that(3) by (cases "sorted_ops ! j") (auto split: if_splits)
  have "Upload l r s \<in> set sorted_ops \<longleftrightarrow> get_status a s = Some l \<and> get_status b s = r \<and> (\<forall>x. r = Some x \<longrightarrow> x < l)" for l r s
    unfolding iff by (auto simp: resolve_def split: option.splits if_splits)
  moreover have "Download r s \<in> set sorted_ops \<longleftrightarrow> get_status b s = Some r \<and> (\<forall>x. get_status a s = Some x \<longrightarrow> x < r)" for r s
    unfolding iff by (auto simp: resolve_def split: option.splits if_splits)
  ultimately show ?thesis using run distinct noop order by (intro exI [of _ sorted_ops]) simp
qed

theorem operations_plan_witness:
  "\<exists>ops. operations (diff status_1 status_2) = Inr ops \<and> Download 3 (RecordSeriesKey_new 2 Kv) \<in> set ops
     \<and> (\<forall>r. Download r (RecordSeriesKey_new 1 History) \<notin> set ops)"
proof -
  have get: "get_status status_2 (RecordSeriesKey_new 2 Kv) = Some 3" "get_status status_1 (RecordSeriesKey_new 2 Kv) = Some 0"
    "get_status status_2 (RecordSeriesKey_new 1 History) = Some 4" "get_status status_1 (RecordSeriesKey_new 1 History) = Some 4"
    by (simp_all add: status_1_def status_2_def)
  obtain ops where "operations (diff status_1 status_2) = Inr ops"
      "\<forall>r s. Download r s \<in> set ops \<longleftrightarrow> get_status status_2 s = Some r \<and> (\<forall>x. get_status status_1 s = Some x \<longrightarrow> x < r)"
    using operations_plan [OF wf_status_12] by blast
  then show ?thesis using get by (intro exI [of _ ops]) simp
qed

end
