(* ===== verification/Kv.thy ===== *)
theory Kv
  imports Tagged_Store
begin

text \<open>
  The key-value store, \<open>atuin-kv\<close>: its records (\<open>store/record.rs\<close>), its table (\<open>database.rs\<close>) and the
  store over both (\<open>store.rs\<close>).

  The table of current values is a cache of the log. Shown: the rebuild, which visits the records
  from the newest to the oldest and takes the first of every key, computes the same table as
  replaying the log from the oldest on; setting and deleting keep the table equal to the replay.
  The rebuild names a key by namespace, a dot and the key, so two keys with the same such name
  shadow each other.
\<close>

declare split_paired_All [simp del] split_paired_Ex [simp del]

section \<open>Records\<close>

record KvRecord =
  kv_namespace :: string
  kv_key :: string
  kv_value :: "string option"

definition kv_serialize :: "rmp \<Rightarrow> KvRecord \<Rightarrow> EncodeError + bytes" where
  "kv_serialize R r =
     then_write (Inr (w_array_len R 4))
       (then_write (w_str R (kv_namespace r))
         (then_write (w_str R (kv_key r))
           (then_write (Inr (w_bool R (kv_value r \<noteq> None)))
             (case kv_value r of None \<Rightarrow> Inr [] | Some v \<Rightarrow> w_str R v))))"

definition kv_read_v0 :: "rmp \<Rightarrow> KvRecord reader" where
  "kv_read_v0 R =
     bind_io (r_array_len R) (\<lambda>nfields.
     bind_io (expect_fields 3 nfields) (\<lambda>_.
     bind_io (read_slice R) (\<lambda>namespace.
     bind_io (read_slice R) (\<lambda>key.
     bind_io (read_slice R) (\<lambda>val.
       ok_io \<lparr>kv_namespace = namespace, kv_key = key, kv_value = Some val\<rparr>)))))"

definition kv_read_v1 :: "rmp \<Rightarrow> KvRecord reader" where
  "kv_read_v1 R =
     bind_io (r_array_len R) (\<lambda>nfields.
     bind_io (expect_fields 4 nfields) (\<lambda>_.
     bind_io (read_slice R) (\<lambda>namespace.
     bind_io (read_slice R) (\<lambda>key.
     bind_io (r_bool R) (\<lambda>has_value.
     bind_io (if has_value then bind_io (read_slice R) (\<lambda>v. ok_io (Some v)) else ok_io None) (\<lambda>val.
       ok_io \<lparr>kv_namespace = namespace, kv_key = key, kv_value = val\<rparr>))))))"

definition kv_deserialize :: "rmp \<Rightarrow> bytes \<Rightarrow> RecordVersion \<Rightarrow> op_error + KvRecord" where
  "kv_deserialize R bs version =
     (case version of
        V0 \<Rightarrow> read_all (kv_read_v0 R) bs
      | V1 \<Rightarrow> read_all (kv_read_v1 R) bs
      | _ \<Rightarrow> Inl (Malformed ''unknown kv record version''))"

section \<open>The table\<close>

type_synonym kv_table = "((string \<times> string) \<times> string) list"

record KvEntry =
  entry_namespace :: string
  entry_key :: string
  entry_value :: string

definition kv_save_raw :: "KvEntry \<Rightarrow> (kv_table db, string, unit) io" where
  "kv_save_raw e = sql_exec (AList.update (entry_namespace e, entry_key e) (entry_value e))"

definition kv_delete_raw :: "string \<Rightarrow> string \<Rightarrow> (kv_table db, string, unit) io" where
  "kv_delete_raw namespace key = sql_exec (AList.delete (namespace, key))"

definition kv_db_save :: "KvEntry \<Rightarrow> (kv_table db, op_error, unit) io" where
  "kv_db_save e = map_err DbFailed (transaction (kv_save_raw e))"

definition kv_db_delete :: "string \<Rightarrow> string \<Rightarrow> (kv_table db, op_error, unit) io" where
  "kv_db_delete namespace key = map_err DbFailed (transaction (kv_delete_raw namespace key))"

definition to_entry :: "(string \<times> string) \<times> string \<Rightarrow> KvEntry" where
  "to_entry e = \<lparr>entry_namespace = fst (fst e), entry_key = snd (fst e), entry_value = snd e\<rparr>"

definition kv_db_load :: "string \<Rightarrow> string \<Rightarrow> (kv_table db, op_error, KvEntry option) io" where
  "kv_db_load namespace key =
     map_err DbFailed (sql_query (\<lambda>t. map_option (\<lambda>v. to_entry ((namespace, key), v)) (map_of t (namespace, key))))"

definition kv_db_list :: "string option \<Rightarrow> (kv_table db, op_error, KvEntry list) io" where
  "kv_db_list namespace =
     map_err DbFailed (sql_query (\<lambda>t. case namespace of
        Some n \<Rightarrow> map to_entry (sort_key (\<lambda>e. snd (fst e)) (filter (\<lambda>e. fst (fst e) = n) t))
      | None \<Rightarrow> map to_entry (sort_key fst t)))"

section \<open>The store\<close>

record kv_world =
  kv_records :: store
  kv_db :: "kv_table db"

type_synonym 'a kv_io = "(kv_world, op_error, 'a) io"

definition on_records :: "(store, op_error, 'a) io \<Rightarrow> 'a kv_io" where
  "on_records m = zoom kv_records (\<lambda>s w. w\<lparr>kv_records := s\<rparr>) m"

definition on_kv_db :: "(kv_table db, op_error, 'a) io \<Rightarrow> 'a kv_io" where
  "on_kv_db m = zoom kv_db (\<lambda>s w. w\<lparr>kv_db := s\<rparr>) m"

definition kv_push_record :: "client \<Rightarrow> fresh \<Rightarrow> KvRecord \<Rightarrow> (store, op_error, RecordId \<times> RecordIdx) io" where
  "kv_push_record C fr r =
     bind_io (lift_result (case kv_serialize (c_rmp C) r of Inl e \<Rightarrow> Inl (Unserializable e) | Inr b \<Rightarrow> Inr b)) (\<lambda>bs.
       append_tagged C Kv V1 fr bs)"

definition kv_set :: "client \<Rightarrow> fresh \<Rightarrow> string \<Rightarrow> string \<Rightarrow> string \<Rightarrow> unit kv_io" where
  "kv_set C fr namespace key val =
     bind_io (on_records (kv_push_record C fr \<lparr>kv_namespace = namespace, kv_key = key, kv_value = Some val\<rparr>)) (\<lambda>_.
       on_kv_db (kv_db_save \<lparr>entry_namespace = namespace, entry_key = key, entry_value = val\<rparr>))"

definition kv_get :: "string \<Rightarrow> string \<Rightarrow> string option kv_io" where
  "kv_get namespace key =
     bind_io (on_kv_db (kv_db_load namespace key)) (\<lambda>kv. ok_io (map_option entry_value kv))"

primrec kv_delete :: "client \<Rightarrow> (string \<Rightarrow> fresh) \<Rightarrow> string \<Rightarrow> string list \<Rightarrow> unit kv_io" where
  "kv_delete C fr namespace [] = ok_io ()"
| "kv_delete C fr namespace (key # keys) =
     bind_io (on_records (kv_push_record C (fr key) \<lparr>kv_namespace = namespace, kv_key = key, kv_value = None\<rparr>)) (\<lambda>_.
     bind_io (on_kv_db (kv_db_delete namespace key)) (\<lambda>_.
       kv_delete C fr namespace keys))"

definition kv_list :: "string option \<Rightarrow> KvEntry list kv_io" where
  "kv_list namespace = on_kv_db (kv_db_list namespace)"

definition kv_decode :: "client \<Rightarrow> EncryptedRecord \<Rightarrow> op_error + KvRecord" where
  "kv_decode C r =
     (if rec_version r \<in> {V0, V1}
      then (case decrypt (c_prims C) (c_json C) r (c_key C) of
              Inl e \<Rightarrow> Inl (CannotDecrypt e)
            | Inr x \<Rightarrow> kv_deserialize (c_rmp C) (rec_data x) (rec_version x))
      else Inl (Malformed ''unknown kv version''))"

definition uniq_id :: "string \<Rightarrow> string \<Rightarrow> string" where
  "uniq_id namespace key = namespace @ ''.'' @ key"

primrec kv_visit :: "client \<Rightarrow> EncryptedRecord list \<Rightarrow> string list \<Rightarrow> string list kv_io" where
  "kv_visit C [] visited = ok_io visited"
| "kv_visit C (r # rs) visited =
     (case kv_decode C r of
        Inl _ \<Rightarrow> kv_visit C rs visited
      | Inr kv \<Rightarrow>
          (if uniq_id (kv_namespace kv) (kv_key kv) \<in> set visited then kv_visit C rs visited
           else bind_io (case kv_value kv of
                    Some v \<Rightarrow> on_kv_db (kv_db_save \<lparr>entry_namespace = kv_namespace kv, entry_key = kv_key kv, entry_value = v\<rparr>)
                  | None \<Rightarrow> on_kv_db (kv_db_delete (kv_namespace kv) (kv_key kv))) (\<lambda>_.
                kv_visit C rs (uniq_id (kv_namespace kv) (kv_key kv) # visited))))"

definition kv_build :: "client \<Rightarrow> unit kv_io" where
  "kv_build C =
     bind_io (on_records (map_err StoreFailed (all_tagged Kv))) (\<lambda>tagged.
     bind_io (on_kv_db (kv_db_list None)) (\<lambda>cached.
     bind_io (kv_visit C (rev tagged) []) (\<lambda>visited.
       for_each (\<lambda>kv. if uniq_id (entry_namespace kv) (entry_key kv) \<in> set visited then ok_io ()
                      else on_kv_db (kv_db_delete (entry_namespace kv) (entry_key kv))) cached)))"

section \<open>The log of the store\<close>

definition kv_small :: "KvRecord \<Rightarrow> bool" where
  "kv_small r \<longleftrightarrow> length (kv_namespace r) < 2 ^ 32 \<and> length (kv_key r) < 2 ^ 32 \<and> pred_option (\<lambda>v. length v < 2 ^ 32) (kv_value r)"

lemma kv_roundtrip:
  assumes R: "rmp_ok R" and r: "kv_small r"
  shows "\<exists>b. kv_serialize R r = Inr b \<and> kv_deserialize R b V1 = Inr r"
proof -
  obtain bn where bn: "w_str R (kv_namespace r) = Inr bn" "\<And>rest. read_slice R (bn @ rest) = (Inr (kv_namespace r), rest)"
    using r by (auto intro: read_slice_codecE [OF R] simp: kv_small_def)
  obtain bk where bk: "w_str R (kv_key r) = Inr bk" "\<And>rest. read_slice R (bk @ rest) = (Inr (kv_key r), rest)"
    using r by (auto intro: read_slice_codecE [OF R] simp: kv_small_def)
  note [simp] = bn bk then_write_def kv_serialize_def kv_deserialize_def read_all_def kv_read_v1_def bind_io_def expect_fields_def
    rmp_okD(2) [OF R] rmp_okD(7) [OF R]
  show ?thesis
  proof (cases "kv_value r")
    case (Some v)
    then obtain bv where bv: "w_str R v = Inr bv" "\<And>rest. read_slice R (bv @ rest) = (Inr v, rest)"
      using r by (auto intro: read_slice_codecE [OF R] simp: kv_small_def)
    with Some bv(2) [of "[]"] show ?thesis by simp
  next
    case None
    then show ?thesis using rmp_okD(2) [OF R, of False "[]"] by simp
  qed
qed

interpretation kv_log: op_log "\<lambda>C. kv_serialize (c_rmp C)" kv_decode V1 Kv kv_small
proof unfold_locales
  fix C :: client and x assume "rmp_ok (c_rmp C)" "kv_small x"
  with kv_roundtrip obtain b where "kv_serialize (c_rmp C) x = Inr b" "kv_deserialize (c_rmp C) b V1 = Inr x" by blast
  then show "\<exists>b. kv_serialize (c_rmp C) x = Inr b
      \<and> (\<forall>r y. decrypt (c_prims C) (c_json C) r (c_key C) = Inr y \<longrightarrow> rec_version r = V1 \<longrightarrow> rec_version y = V1 \<longrightarrow>
          rec_data y = b \<longrightarrow> kv_decode C r = Inr x)"
    by (auto simp: kv_decode_def)
qed simp_all

abbreviation kv_ops :: "client \<Rightarrow> kv_world \<Rightarrow> KvRecord list" where
  "kv_ops C w \<equiv> replayed (kv_decode C) Kv (tables (kv_records w))"

section \<open>Replay\<close>

abbreviation kv_pair :: "KvRecord \<Rightarrow> string \<times> string" where
  "kv_pair r \<equiv> (kv_namespace r, kv_key r)"

definition kv_apply :: "(string \<times> string \<Rightarrow> string option) \<Rightarrow> KvRecord \<Rightarrow> string \<times> string \<Rightarrow> string option" where
  "kv_apply m r = m(kv_pair r := kv_value r)"

definition kv_replay :: "KvRecord list \<Rightarrow> string \<times> string \<Rightarrow> string option" where
  "kv_replay ops = foldl kv_apply Map.empty ops"

lemma kv_replay_snoc [simp]: "kv_replay (ops @ [r]) = (kv_replay ops)(kv_pair r := kv_value r)"
  by (simp add: kv_replay_def kv_apply_def)

text \<open>Replaying finds for every key what the newest record of the key says.\<close>

lemma kv_replay_newest: "kv_replay ops p = (case find (\<lambda>r. kv_pair r = p) (rev ops) of None \<Rightarrow> None | Some r \<Rightarrow> kv_value r)"
  by (induction ops rule: rev_induct) (auto simp: kv_replay_def kv_apply_def)

section \<open>The rebuild\<close>

definition kv_ready :: "kv_world \<Rightarrow> bool" where
  "kv_ready w \<longleftrightarrow> healthy (kv_records w) \<and> healthy (kv_db w)"

lemma kv_db_healthy:
  assumes "kv_ready w"
  shows "on_kv_db (kv_db_save e) w = (Inr (), w\<lparr>kv_db := (kv_db w)\<lparr>tables := AList.update (entry_namespace e, entry_key e) (entry_value e) (tables (kv_db w))\<rparr>\<rparr>)"
    "on_kv_db (kv_db_delete n k) w = (Inr (), w\<lparr>kv_db := (kv_db w)\<lparr>tables := AList.delete (n, k) (tables (kv_db w))\<rparr>\<rparr>)"
    "on_kv_db (kv_db_list None) w = (Inr (map to_entry (sort_key fst (tables (kv_db w)))), w)"
    "kv_get n k w = (Inr (map_of (tables (kv_db w)) (n, k)), w)"
  using assms
  by (simp_all add: kv_ready_def on_kv_db_def kv_db_save_def kv_db_delete_def kv_db_list_def kv_save_raw_def kv_delete_raw_def kv_get_def
      kv_db_load_def zoom_def map_err_def transaction_healthy sql_exec_healthy sql_query_healthy bind_io_def to_entry_def option.map_comp comp_def option.map_ident)

abbreviation uid :: "string \<times> string \<Rightarrow> string" where
  "uid p \<equiv> uniq_id (fst p) (snd p)"

definition kv_decoded :: "client \<Rightarrow> EncryptedRecord list \<Rightarrow> KvRecord list" where
  "kv_decoded C rs = List.map_filter (\<lambda>r. case kv_decode C r of Inl _ \<Rightarrow> None | Inr x \<Rightarrow> Some x) rs"

lemma kv_decoded_simps [simp]:
  "kv_decoded C [] = []"
  "kv_decoded C (r # rs) = (case kv_decode C r of Inl _ \<Rightarrow> kv_decoded C rs | Inr x \<Rightarrow> x # kv_decoded C rs)"
  by (simp_all add: kv_decoded_def map_filter_def split: sum.splits)

lemma kv_decoded_append [simp]: "kv_decoded C (rs @ rs') = kv_decoded C rs @ kv_decoded C rs'"
  by (simp add: kv_decoded_def map_filter_def)

lemma kv_decoded_rev: "kv_decoded C (rev rs) = rev (kv_decoded C rs)"
  by (induction rs) (auto split: sum.splits)

lemma kv_ops_decoded: "kv_ops C w = kv_decoded C (map from_row (tagged_rows Kv (tables (kv_records w))))"
proof -
  have "List.map_filter (\<lambda>w. case kv_decode C (from_row w) of Inl _ \<Rightarrow> None | Inr x \<Rightarrow> Some x) ws = kv_decoded C (map from_row ws)" for ws
    by (induction ws) (auto simp: map_filter_def split: sum.splits)
  then show ?thesis by (simp add: replayed_def)
qed

definition kv_found :: "KvRecord list \<Rightarrow> string list \<Rightarrow> kv_table \<Rightarrow> string \<times> string \<Rightarrow> string option" where
  "kv_found ops visited t p =
     (if uid p \<in> set visited then map_of t p
      else (case find (\<lambda>x. kv_pair x = p) ops of None \<Rightarrow> map_of t p | Some x \<Rightarrow> kv_value x))"

lemma kv_visit_newest:
  assumes "kv_ready w" "inj_on uid (kv_pair ` set (kv_decoded C rs))"
  shows "\<exists>t visited'. kv_visit C rs visited w = (Inr visited', w\<lparr>kv_db := (kv_db w)\<lparr>tables := t\<rparr>\<rparr>)
    \<and> set visited' = set visited \<union> uid ` kv_pair ` set (kv_decoded C rs)
    \<and> (\<forall>p. map_of t p = kv_found (kv_decoded C rs) visited (tables (kv_db w)) p)"
  using assms
proof (induction rs arbitrary: visited w)
  case Nil
  then show ?case by (auto simp: kv_found_def intro!: exI [of _ "tables (kv_db w)"])
next
  case (Cons r rs)
  show ?case
  proof (cases "kv_decode C r")
    case (Inl e)
    with Cons show ?thesis by simp
  next
    case (Inr x)
    have inj: "inj_on uid (kv_pair ` set (kv_decoded C rs))"
      using Cons.prems(2) Inr by (auto intro: inj_on_subset)
    show ?thesis
    proof (cases "uid (kv_pair x) \<in> set visited")
      case True
      have "kv_found (kv_decoded C (r # rs)) visited t p = kv_found (kv_decoded C rs) visited t p" for t p
        using True Inr by (auto simp: kv_found_def)
      moreover have "set visited \<union> uid ` kv_pair ` set (kv_decoded C (r # rs)) = set visited \<union> uid ` kv_pair ` set (kv_decoded C rs)"
        using True Inr by auto
      moreover have "kv_visit C (r # rs) visited w = kv_visit C rs visited w" using True Inr by simp
      ultimately show ?thesis using Cons.IH [OF Cons.prems(1) inj, of visited] by (simp only:)
    next
      case False
      let ?t = "case kv_value x of Some v \<Rightarrow> AList.update (kv_pair x) v (tables (kv_db w)) | None \<Rightarrow> AList.delete (kv_pair x) (tables (kv_db w))"
      let ?w = "w\<lparr>kv_db := (kv_db w)\<lparr>tables := ?t\<rparr>\<rparr>"
      have t: "map_of ?t = (map_of (tables (kv_db w)))(kv_pair x := kv_value x)"
        by (cases "kv_value x") (simp_all add: update_conv' delete_conv')
      have step: "kv_visit C (r # rs) visited w = kv_visit C rs (uid (kv_pair x) # visited) ?w"
        using Inr False kv_db_healthy(1,2) [OF Cons.prems(1)] by (cases "kv_value x") (simp_all add: bind_io_def)
      have "kv_ready ?w" using Cons.prems(1) by (simp add: kv_ready_def)
      from Cons.IH [OF this inj, of "uid (kv_pair x) # visited"] obtain t' visited' where
        IH: "kv_visit C rs (uid (kv_pair x) # visited) ?w = (Inr visited', w\<lparr>kv_db := (kv_db w)\<lparr>tables := t'\<rparr>\<rparr>)"
          "set visited' = set (uid (kv_pair x) # visited) \<union> uid ` kv_pair ` set (kv_decoded C rs)"
          "\<forall>p. map_of t' p = kv_found (kv_decoded C rs) (uid (kv_pair x) # visited) ?t p"
        by auto
      have "kv_found (kv_decoded C rs) (uid (kv_pair x) # visited) ?t p = kv_found (kv_decoded C (r # rs)) visited (tables (kv_db w)) p" for p
      proof (cases "uid p = uid (kv_pair x) \<and> p \<noteq> kv_pair x")
        case True
        have "kv_pair x \<in> kv_pair ` set (kv_decoded C (r # rs))" using Inr by simp
        then have "p \<notin> kv_pair ` set (kv_decoded C (r # rs))" using inj_onD [OF Cons.prems(2), of p "kv_pair x"] True by blast
        then have "find (\<lambda>x. kv_pair x = p) (kv_decoded C (r # rs)) = None" by (auto simp: find_None_iff)
        with True False show ?thesis by (simp add: kv_found_def t)
      next
        case same: False
        show ?thesis
        proof (cases "p = kv_pair x")
          case True
          with False show ?thesis by (simp add: kv_found_def t Inr)
        next
          case other: False
          with same have "uid p \<noteq> uid (kv_pair x)" by blast
          moreover have "\<not> kv_pair x = p" using other by blast
          ultimately show ?thesis using Inr by (simp only: kv_found_def t kv_decoded_simps sum.case find.simps list.set insert_iff if_False fun_upd_apply other simp_thms)
        qed
      qed
      moreover have "set visited' = set visited \<union> uid ` kv_pair ` set (kv_decoded C (r # rs))" unfolding IH(2) using Inr by auto
      ultimately show ?thesis using IH(1,3) step by (intro exI [of _ t'] exI [of _ visited']) (simp only: simp_thms)
    qed
  qed
qed

lemma kv_sweep:
  assumes "kv_ready w"
  shows "for_each (\<lambda>kv. if uniq_id (entry_namespace kv) (entry_key kv) \<in> set visited then ok_io ()
      else on_kv_db (kv_db_delete (entry_namespace kv) (entry_key kv))) (map to_entry es) w
    = (Inr (), w\<lparr>kv_db := (kv_db w)\<lparr>tables := fold AList.delete (filter (\<lambda>p. uid p \<notin> set visited) (map fst es)) (tables (kv_db w))\<rparr>\<rparr>)"
  using assms
proof (induction es arbitrary: w)
  case (Cons e es)
  have "kv_ready (w\<lparr>kv_db := (kv_db w)\<lparr>tables := t\<rparr>\<rparr>)" for t using Cons.prems by (simp add: kv_ready_def)
  with Cons show ?case by (simp add: bind_io_def to_entry_def kv_db_healthy(2))
qed simp

lemma map_of_fold_delete: "map_of (fold AList.delete ps t) p = (if p \<in> set ps then None else map_of t p)"
  by (induction ps arbitrary: t) (auto simp: delete_conv')

lemma kv_build_run:
  assumes w: "kv_ready w" and inj: "inj_on uid (kv_pair ` set (kv_ops C w) \<union> fst ` set (tables (kv_db w)))"
  shows "\<exists>t. kv_build C w = (Inr (), w\<lparr>kv_db := (kv_db w)\<lparr>tables := t\<rparr>\<rparr>) \<and> map_of t = kv_replay (kv_ops C w)"
proof -
  let ?rs = "map from_row (tagged_rows Kv (tables (kv_records w)))" and ?t0 = "tables (kv_db w)"
  let ?ops = "kv_ops C w"
  have ops: "kv_decoded C (rev ?rs) = rev ?ops" by (simp add: kv_decoded_rev kv_ops_decoded)
  have "inj_on uid (kv_pair ` set (kv_decoded C (rev ?rs)))" using inj by (auto simp: ops intro: inj_on_subset)
  from kv_visit_newest [OF w this, of "[]"] obtain t visited where
    visit: "kv_visit C (rev ?rs) [] w = (Inr visited, w\<lparr>kv_db := (kv_db w)\<lparr>tables := t\<rparr>\<rparr>)"
      "set visited = uid ` kv_pair ` set ?ops" "\<forall>p. map_of t p = kv_found (rev ?ops) [] ?t0 p"
    unfolding ops by auto
  let ?dead = "filter (\<lambda>p. uid p \<notin> set visited) (map fst (sort_key fst ?t0))"
  have "kv_ready (w\<lparr>kv_db := (kv_db w)\<lparr>tables := t\<rparr>\<rparr>)" using w by (simp add: kv_ready_def)
  note sweep = kv_sweep [OF this, of visited "sort_key fst ?t0"]
  have tagged: "on_records (map_err StoreFailed (all_tagged Kv)) w = (Inr ?rs, w)"
    using w by (simp add: on_records_def zoom_def map_err_def all_tagged_rows kv_ready_def)
  have "kv_build C w = (Inr (), w\<lparr>kv_db := (kv_db w)\<lparr>tables := fold AList.delete ?dead t\<rparr>\<rparr>)"
    using tagged kv_db_healthy(3) [OF w] visit(1) sweep by (simp add: kv_build_def bind_io_def)
  moreover have "map_of (fold AList.delete ?dead t) p = kv_replay ?ops p" for p
  proof (cases "p \<in> kv_pair ` set ?ops")
    case True
    then have "p \<notin> set ?dead" using visit(2) by auto
    moreover from True have "find (\<lambda>x. kv_pair x = p) (rev ?ops) \<noteq> None" by (auto simp: find_None_iff)
    ultimately show ?thesis using visit(3) by (auto simp: map_of_fold_delete kv_found_def kv_replay_newest)
  next
    case False
    then have none: "find (\<lambda>x. kv_pair x = p) (rev ?ops) = None" by (auto simp: find_None_iff)
    have "p \<in> set ?dead" if "p \<in> fst ` set ?t0"
      using that False visit(2) inj by (auto dest: inj_onD)
    moreover have "map_of ?t0 p = None" if "p \<notin> fst ` set ?t0" using that by (simp add: map_of_eq_None_iff)
    ultimately show ?thesis using none visit(3) by (auto simp: map_of_fold_delete kv_found_def kv_replay_newest)
  qed
  ultimately show ?thesis by (intro exI [of _ "fold AList.delete ?dead t"]) (simp add: fun_eq_iff)
qed

primrec visit_ops :: "KvRecord list \<Rightarrow> string list \<Rightarrow> string list kv_io" where
  "visit_ops [] visited = ok_io visited"
| "visit_ops (kv # kvs) visited =
     (if uid (kv_pair kv) \<in> set visited then visit_ops kvs visited
      else bind_io (case kv_value kv of
               Some v \<Rightarrow> on_kv_db (kv_db_save \<lparr>entry_namespace = kv_namespace kv, entry_key = kv_key kv, entry_value = v\<rparr>)
             | None \<Rightarrow> on_kv_db (kv_db_delete (kv_namespace kv) (kv_key kv))) (\<lambda>_. visit_ops kvs (uid (kv_pair kv) # visited)))"

lemma kv_visit_ops: "kv_visit C rs visited = visit_ops (kv_decoded C rs) visited"
  by (induction rs arbitrary: visited) (auto split: sum.splits)

section \<open>Properties\<close>

text \<open>What pushing a record leaves: one more operation, and room for the next.\<close>

definition kv_room :: "client \<Rightarrow> fresh \<Rightarrow> db_row list \<Rightarrow> db_row \<Rightarrow> bool" where
  "kv_room C fr rows row \<longleftrightarrow> (\<forall>fr'. fr_id fr' \<notin> insert (fr_id fr) (row_id ` set rows) \<longrightarrow> fr_time fr \<le> fr_time fr' \<longrightarrow> i64_range (fr_time fr') \<longrightarrow>
        entropy_ok (fr_rnd fr') \<longrightarrow> next_of rows (c_host C, tag_as_str Kv) < 2 ^ 63 - 1 \<longrightarrow> fits C Kv fr' (rows @ [row]))"

lemma kv_push_run:
  assumes "kv_ready w" "fits C Kv fr (tables (kv_records w))" "rmp_ok (c_rmp C)" "kv_small r"
  obtains x row where "on_records (kv_push_record C fr r) w = (Inr x, w\<lparr>kv_records := (kv_records w)\<lparr>tables := tables (kv_records w) @ [row]\<rparr>\<rparr>)"
    "replayed (kv_decode C) Kv (tables (kv_records w) @ [row]) = kv_ops C w @ [r]" "kv_room C fr (tables (kv_records w)) row"
proof -
  have h: "healthy (kv_records w)" using assms(1) by (simp add: kv_ready_def)
  from kv_log.append_op [OF h assms(2-4)] obtain b i row where
    "kv_serialize (c_rmp C) r = Inr b"
    "append_tagged C Kv V1 fr b (kv_records w) = (Inr (fr_id fr, i), (kv_records w)\<lparr>tables := tables (kv_records w) @ [row]\<rparr>)"
    "replayed (kv_decode C) Kv (tables (kv_records w) @ [row]) = kv_ops C w @ [r]" "store_inv (tables (kv_records w) @ [row])"
    "row_id row = fr_id fr" "row_timestamp row = int (fr_time fr)" "row_series row = (c_host C, tag_as_str Kv)"
    "row_idx row = int (next_of (tables (kv_records w)) (c_host C, tag_as_str Kv))"
    by metis
  then show thesis
    using fits_snoc [OF assms(2), of row]
    by (intro that [of "(fr_id fr, i)" row]) (simp_all add: on_records_def kv_push_record_def bind_io_def zoom_def kv_room_def)
qed

text \<open>
  C16: the rebuild of the key-value table, which walks the log from the newest record to the oldest
  and keeps a set of visited names, gives every key the value that replaying the log from the
  oldest record on gives it, whatever the table held before, and removes all other keys; provided
  no two keys of the log or the table have the same dotted name.
\<close>

theorem kv_build_replays:
  assumes "kv_ready w" "inj_on (\<lambda>p. uniq_id (fst p) (snd p)) ((\<lambda>r. (kv_namespace r, kv_key r)) ` set (kv_ops C w) \<union> fst ` set (tables (kv_db w)))"
  shows "\<exists>w'. kv_build C w = (Inr (), w') \<and> kv_records w' = kv_records w
    \<and> (\<forall>n k. kv_get n k w' = (Inr (kv_replay (kv_ops C w) (n, k)), w'))"
proof -
  obtain t where t: "kv_build C w = (Inr (), w\<lparr>kv_db := (kv_db w)\<lparr>tables := t\<rparr>\<rparr>)" "map_of t = kv_replay (kv_ops C w)"
    using kv_build_run [OF assms] by blast
  have "kv_ready (w\<lparr>kv_db := (kv_db w)\<lparr>tables := t\<rparr>\<rparr>)" using assms(1) by (simp add: kv_ready_def)
  from kv_db_healthy(4) [OF this] t show ?thesis by (intro exI [of _ "w\<lparr>kv_db := (kv_db w)\<lparr>tables := t\<rparr>\<rparr>"]) simp
qed

definition stale_kv :: kv_world where
  "stale_kv = \<lparr>kv_records = empty_store, kv_db = \<lparr>tables = [((''n'', ''k''), ''old'')], faults = []\<rparr>\<rparr>"

theorem kv_build_replays_witness:
  "\<exists>w'. kv_build clear_client stale_kv = (Inr (), w') \<and> kv_get ''n'' ''k'' w' = (Inr None, w')"
proof -
  have "kv_ops clear_client stale_kv = []" by (simp add: stale_kv_def empty_store_def replayed_def tagged_rows_def map_filter_def)
  with kv_build_replays [of stale_kv clear_client] show ?thesis
    by (auto simp: kv_ready_def stale_kv_def empty_store_def kv_replay_def)
qed

text \<open>
  setting a key and deleting a key keep the table equal to the replay of the log: after a set
  the key has the value and every other key is as before, after a delete it has none, and both
  append exactly one operation to the log.
\<close>

theorem kv_set_refines:
  assumes "kv_ready w" "fits C Kv fr (tables (kv_records w))" "rmp_ok (c_rmp C)"
    and "length n < 2 ^ 32" "length k < 2 ^ 32" "length v < 2 ^ 32"
    and "\<forall>p. map_of (tables (kv_db w)) p = kv_replay (kv_ops C w) p"
  shows "\<exists>w1 w2. kv_set C fr n k v w = (Inr (), w1) \<and> kv_delete C (\<lambda>_. fr) n [k] w = (Inr (), w2)
    \<and> (\<forall>p. map_of (tables (kv_db w1)) p = kv_replay (kv_ops C w1) p) \<and> (\<forall>p. map_of (tables (kv_db w2)) p = kv_replay (kv_ops C w2) p)
    \<and> kv_replay (kv_ops C w1) = (kv_replay (kv_ops C w))((n, k) \<mapsto> v) \<and> kv_replay (kv_ops C w2) = (kv_replay (kv_ops C w))((n, k) := None)"
proof -
  let ?set = "\<lparr>kv_namespace = n, kv_key = k, kv_value = Some v\<rparr>" and ?del = "\<lparr>kv_namespace = n, kv_key = k, kv_value = None\<rparr>"
  have small: "kv_small ?set" "kv_small ?del" using assms(4-6) by (simp_all add: kv_small_def)
  obtain x row where set: "on_records (kv_push_record C fr ?set) w = (Inr x, w\<lparr>kv_records := (kv_records w)\<lparr>tables := tables (kv_records w) @ [row]\<rparr>\<rparr>)"
      "replayed (kv_decode C) Kv (tables (kv_records w) @ [row]) = kv_ops C w @ [?set]"
    by (rule kv_push_run [OF assms(1-3) small(1)])
  obtain y row' where del: "on_records (kv_push_record C fr ?del) w = (Inr y, w\<lparr>kv_records := (kv_records w)\<lparr>tables := tables (kv_records w) @ [row']\<rparr>\<rparr>)"
      "replayed (kv_decode C) Kv (tables (kv_records w) @ [row']) = kv_ops C w @ [?del]"
    by (rule kv_push_run [OF assms(1-3) small(2)])
  have ready: "kv_ready (w\<lparr>kv_records := (kv_records w)\<lparr>tables := t\<rparr>\<rparr>)" for t using assms(1) by (simp add: kv_ready_def)
  have "kv_set C fr n k v w = (Inr (), w\<lparr>kv_records := (kv_records w)\<lparr>tables := tables (kv_records w) @ [row]\<rparr>,
        kv_db := (kv_db w)\<lparr>tables := AList.update (n, k) v (tables (kv_db w))\<rparr>\<rparr>)"
    using set(1) kv_db_healthy(1) [OF ready, of "\<lparr>entry_namespace = n, entry_key = k, entry_value = v\<rparr>"] by (simp add: kv_set_def bind_io_def)
  moreover have "kv_delete C (\<lambda>_. fr) n [k] w = (Inr (), w\<lparr>kv_records := (kv_records w)\<lparr>tables := tables (kv_records w) @ [row']\<rparr>,
        kv_db := (kv_db w)\<lparr>tables := AList.delete (n, k) (tables (kv_db w))\<rparr>\<rparr>)"
    using del(1) kv_db_healthy(2) [OF ready, of n k] by (simp add: bind_io_def)
  ultimately show ?thesis
    using set(2) del(2) assms(7) by (simp add: update_conv' delete_conv')
qed

definition empty_kv :: kv_world where
  "empty_kv = \<lparr>kv_records = empty_store, kv_db = \<lparr>tables = [], faults = []\<rparr>\<rparr>"

lemma empty_kv_facts:
  "kv_ready empty_kv" "kv_records empty_kv = empty_store" "tables (kv_db empty_kv) = []" "tables empty_store = []" "kv_ops clear_client empty_kv = []"
  "replayed (kv_decode clear_client) Kv [] = []"
  by (simp_all add: empty_kv_def kv_ready_def empty_store_def replayed_def tagged_rows_def map_filter_def)

theorem kv_set_refines_witness:
  "\<exists>w1. kv_set clear_client (fresh_at 1) ''n'' ''k'' ''v'' empty_kv = (Inr (), w1) \<and> kv_replay (kv_ops clear_client w1) (''n'', ''k'') = Some ''v''"
proof -
  have "\<forall>p. map_of (tables (kv_db empty_kv)) p = kv_replay (kv_ops clear_client empty_kv) p"
    by (simp add: empty_kv_facts kv_replay_def)
  with kv_set_refines [of empty_kv clear_client "fresh_at 1" "''n''" "''k''" "''v''"] clear_client_ok(1) clear_client_ok(2) [of Kv]
  show ?thesis by (auto simp: empty_kv_facts)
qed

text \<open>
  two keys that share a dotted name shadow each other on a device that rebuilds its table from
  the log. After \<open>a\<close> / \<open>b.c\<close> and then \<open>a.b\<close> / \<open>c\<close> were set, replaying the log has both, but a rebuild
  of an empty table has only the second.
\<close>

theorem kv_build_shadows:
  assumes "kv_ready w" "tables (kv_db w) = []"
    and "kv_ops C w = [\<lparr>kv_namespace = a, kv_key = b @ ''.'' @ c, kv_value = Some v\<rparr>, \<lparr>kv_namespace = a @ ''.'' @ b, kv_key = c, kv_value = Some u\<rparr>]"
  shows "\<exists>w'. kv_build C w = (Inr (), w') \<and> kv_get a (b @ ''.'' @ c) w' = (Inr None, w') \<and> kv_get (a @ ''.'' @ b) c w' = (Inr (Some u), w')
    \<and> kv_replay (kv_ops C w) (a, b @ ''.'' @ c) = Some v"
proof -
  let ?x = "\<lparr>kv_namespace = a, kv_key = b @ ''.'' @ c, kv_value = Some v\<rparr>" and ?y = "\<lparr>kv_namespace = a @ ''.'' @ b, kv_key = c, kv_value = Some u\<rparr>"
  let ?rs = "map from_row (tagged_rows Kv (tables (kv_records w)))"
  have ops: "kv_decoded C (rev ?rs) = [?y, ?x]"
    using assms(3) by (simp add: kv_decoded_rev kv_ops_decoded [symmetric] del: map_append)
  let ?w = "w\<lparr>kv_db := (kv_db w)\<lparr>tables := [((a @ ''.'' @ b, c), u)]\<rparr>\<rparr>"
  have tagged: "on_records (map_err StoreFailed (all_tagged Kv)) w = (Inr ?rs, w)"
    using assms(1) by (simp add: on_records_def zoom_def map_err_def all_tagged_rows kv_ready_def)
  have "visit_ops [?y, ?x] [] w = (Inr [(a @ ''.'' @ b) @ ''.'' @ c], ?w)"
    using kv_db_healthy(1) [OF assms(1), of "\<lparr>entry_namespace = a @ ''.'' @ b, entry_key = c, entry_value = u\<rparr>"] assms(2)
    by (simp add: bind_io_def uniq_id_def)
  then have "kv_build C w = (Inr (), ?w)"
    using tagged kv_db_healthy(3) [OF assms(1)] assms(2) by (simp add: kv_build_def bind_io_def kv_visit_ops ops)
  moreover have "kv_ready ?w" using assms(1) by (simp add: kv_ready_def)
  note kv_db_healthy(4) [OF this]
  ultimately show ?thesis using assms(3) by (simp add: kv_replay_def kv_apply_def)
qed

theorem kv_build_shadows_witness:
  "\<exists>w w'. kv_build clear_client w = (Inr (), w') \<and> kv_replay (kv_ops clear_client w) (''a'', ''b.c'') = Some ''1'' \<and> kv_get ''a'' ''b.c'' w' = (Inr None, w')"
proof -
  let ?x = "\<lparr>kv_namespace = ''a'', kv_key = ''b.c'', kv_value = Some ''1''\<rparr>" and ?y = "\<lparr>kv_namespace = ''a.b'', kv_key = ''c'', kv_value = Some ''2''\<rparr>"
  have "fits clear_client Kv (fresh_at 1) (tables (kv_records empty_kv))" using clear_client_ok(2) by (simp add: empty_kv_facts)
  then obtain p row where x: "replayed (kv_decode clear_client) Kv (tables (kv_records empty_kv) @ [row]) = kv_ops clear_client empty_kv @ [?x]"
      "kv_room clear_client (fresh_at 1) (tables (kv_records empty_kv)) row"
    by (rule kv_push_run [OF empty_kv_facts(1) _ clear_client_ok(1), of "fresh_at 1" ?x]) (simp_all add: kv_small_def)
  have two: "fits clear_client Kv (fresh_at 2) [row]"
    using x(2) by (simp add: kv_room_def empty_kv_facts fresh_at_def clear_entropy_def next_of_def q_last_def q_series_def)
  let ?w = "empty_kv\<lparr>kv_records := empty_store\<lparr>tables := [row]\<rparr>\<rparr>"
  have ready: "kv_ready ?w" using empty_kv_facts(1) by (simp add: kv_ready_def empty_store_def)
  obtain q row' where y': "replayed (kv_decode clear_client) Kv (tables (kv_records ?w) @ [row']) = kv_ops clear_client ?w @ [?y]"
    by (rule kv_push_run [OF ready _ clear_client_ok(1), of "fresh_at 2" ?y]) (simp_all add: kv_small_def two)
  have y: "replayed (kv_decode clear_client) Kv [row, row'] = [?x, ?y]" using x(1) y' by (simp add: empty_kv_facts)
  let ?w2 = "empty_kv\<lparr>kv_records := empty_store\<lparr>tables := [row, row']\<rparr>\<rparr>"
  have "kv_ready ?w2" using empty_kv_facts(1) by (simp add: kv_ready_def empty_store_def)
  with kv_build_shadows [of ?w2 clear_client "''a''" "''b''" "''c''" "''1''" "''2''"] y
  obtain w' where "kv_build clear_client ?w2 = (Inr (), w') \<and> kv_replay (kv_ops clear_client ?w2) (''a'', ''b.c'') = Some ''1'' \<and> kv_get ''a'' ''b.c'' w' = (Inr None, w')"
    by (auto simp: empty_kv_facts)
  then show ?thesis by blast
qed

end
