(* ===== verification/Dotfiles.thy ===== *)
theory Dotfiles
  imports Tagged_Store Rust_String
begin

text \<open>
  Synced dotfiles, \<open>atuin-dotfiles\<close>: the alias store (\<open>store.rs\<close>), the variable store
  (\<open>store/var.rs\<close>), and the files they generate for every shell (\<open>shell.rs\<close>, \<open>shell/*.rs\<close>).

  The state is the record store and the files of the cache directory, both with failing
  operations. Whether a character is alphanumeric, which Rust asks of Unicode, and how an error is
  printed are arguments. The shells' own quoting rules, which the generated text has to obey, are
  written out as readers of one quoted word.

  Shown: a change of an alias or a variable is in every shell's configuration afterwards; a value
  quoted for POSIX shells reads back as the value; the quoting for fish leaves a trailing backslash
  unescaped.
\<close>

declare split_paired_All [simp del] split_paired_Ex [simp del]

section \<open>Aliases and variables\<close>

record Alias =
  alias_name :: string
  alias_value :: string

record Var =
  var_name :: string
  var_value :: string
  var_export :: bool

datatype AliasRecord = AliasCreate Alias | AliasDelete string

datatype VarRecord = VarCreate Var | VarDelete string

fun alias_serialize :: "rmp \<Rightarrow> AliasRecord \<Rightarrow> EncodeError + bytes" where
  "alias_serialize R (AliasCreate a) =
     then_write (Inr (w_u8 R 0)) (then_write (Inr (w_array_len R 2)) (then_write (w_str R (alias_name a)) (w_str R (alias_value a))))"
| "alias_serialize R (AliasDelete n) =
     then_write (Inr (w_u8 R 1)) (then_write (Inr (w_array_len R 1)) (w_str R n))"

definition alias_read :: "rmp \<Rightarrow> AliasRecord reader" where
  "alias_read R =
     bind_io (r_u8 R) (\<lambda>record_type.
       if record_type = 0 then
         bind_io (r_array_len R) (\<lambda>nfields.
         bind_io (expect_fields 2 nfields) (\<lambda>_.
         bind_io (read_slice R) (\<lambda>key.
         bind_io (read_slice R) (\<lambda>val. ok_io (AliasCreate \<lparr>alias_name = key, alias_value = val\<rparr>)))))
       else if record_type = 1 then
         bind_io (r_array_len R) (\<lambda>nfields.
         bind_io (expect_fields 1 nfields) (\<lambda>_.
         bind_io (read_slice R) (\<lambda>key. ok_io (AliasDelete key))))
       else fail_io (DecodeCustom ''unknown AliasRecord type''))"

definition alias_deserialize :: "rmp \<Rightarrow> bytes \<Rightarrow> RecordVersion \<Rightarrow> op_error + AliasRecord" where
  "alias_deserialize R bs version =
     (case version of V0 \<Rightarrow> read_all (alias_read R) bs | _ \<Rightarrow> Inl (Malformed ''unknown alias record version''))"

definition var_serialize :: "rmp \<Rightarrow> Var \<Rightarrow> EncodeError + bytes" where
  "var_serialize R v =
     then_write (Inr (w_array_len R 3))
       (then_write (w_str R (var_name v)) (then_write (w_str R (var_value v)) (Inr (w_bool R (var_export v)))))"

definition expect_end :: "unit reader" where
  "expect_end bs = ((if bs = [] then Inr () else Inl (DecodeCustom ''trailing bytes'')), bs)"

definition var_read :: "rmp \<Rightarrow> Var reader" where
  "var_read R =
     bind_io (r_array_len R) (\<lambda>nfields.
     bind_io (expect_fields 3 nfields) (\<lambda>_.
     bind_io (read_slice R) (\<lambda>key.
     bind_io (read_slice R) (\<lambda>val.
     bind_io (r_bool R) (\<lambda>export.
     bind_io expect_end (\<lambda>_. ok_io \<lparr>var_name = key, var_value = val, var_export = export\<rparr>))))))"

fun var_record_serialize :: "rmp \<Rightarrow> VarRecord \<Rightarrow> EncodeError + bytes" where
  "var_record_serialize R (VarCreate v) = then_write (Inr (w_u8 R 0)) (var_serialize R v)"
| "var_record_serialize R (VarDelete n) =
     then_write (Inr (w_u8 R 1)) (then_write (Inr (w_array_len R 1)) (w_str R n))"

definition var_record_read :: "rmp \<Rightarrow> VarRecord reader" where
  "var_record_read R =
     bind_io (r_u8 R) (\<lambda>record_type.
       if record_type = 0 then bind_io (var_read R) (\<lambda>v. ok_io (VarCreate v))
       else if record_type = 1 then
         bind_io (r_array_len R) (\<lambda>nfields.
         bind_io (expect_fields 1 nfields) (\<lambda>_.
         bind_io (read_slice R) (\<lambda>key. ok_io (VarDelete key))))
       else fail_io (DecodeCustom ''unknown Dotfiles var record type''))"

definition var_record_deserialize :: "rmp \<Rightarrow> bytes \<Rightarrow> RecordVersion \<Rightarrow> op_error + VarRecord" where
  "var_record_deserialize R bs version =
     (case version of V0 \<Rightarrow> read_all (var_record_read R) bs | _ \<Rightarrow> Inl (Malformed ''unknown var record version''))"

section \<open>Generated text\<close>

abbreviation nl :: char where
  "nl \<equiv> CHR 0x0A"

abbreviation bsl :: char where
  "bsl \<equiv> CHR 0x5C"

abbreviation quot1 :: char where
  "quot1 \<equiv> CHR 0x27"

abbreviation quot2 :: char where
  "quot2 \<equiv> CHR 0x22"

abbreviation tick :: char where
  "tick \<equiv> CHR 0x60"

definition replace :: "char \<Rightarrow> string \<Rightarrow> string \<Rightarrow> string" where
  "replace c by_str s = concat (map (\<lambda>x. if x = c then by_str else [x]) s)"

definition unquote :: "string \<Rightarrow> string option" where
  "unquote s =
     (if length (chars s) < 2 then None
      else if hd s \<noteq> quot2 \<and> hd s \<noteq> quot1 \<and> hd s \<noteq> tick then Some s
      else if last s \<noteq> hd s then None
      else Some (butlast (tl s)))"

definition alias_format_posix :: "Alias list \<Rightarrow> string" where
  "alias_format_posix as = concat (map (\<lambda>a.
     ''alias '' @ alias_name a @ ''='' @ [quot1] @ (case unquote (alias_value a) of Some v \<Rightarrow> v | None \<Rightarrow> alias_value a) @ [quot1, nl]) as)"

definition alias_format_xonsh :: "Alias list \<Rightarrow> string" where
  "alias_format_xonsh as = concat (map (\<lambda>a.
     ''aliases['' @ [quot1] @ alias_name a @ [quot1] @ ''] ='' @ [quot1] @ alias_value a @ [quot1, nl]) as)"

definition secure_command :: "string \<Rightarrow> string" where
  "secure_command command = ''Invoke-Expression -ErrorAction Continue -Command '' @ [quot1] @ replace quot1 [quot1, quot1] command @ [quot1, nl]"

definition format_alias :: "Alias \<Rightarrow> string" where
  "format_alias a =
     nl # secure_command (''function '' @ alias_name a @ '' {'' @ [nl] @ ''    '' @
       (if alias_value a \<noteq> [] \<and> hd (alias_value a) \<in> {quot2, quot1} then ''& '' else []) @ alias_value a @ '' @args'' @ [nl] @ ''}'')"

definition format_var :: "Var \<Rightarrow> string" where
  "format_var v =
     secure_command (''$'' @ (if var_export v then ''env:'' else []) @ var_name v @ '' = '' @ [quot1] @ replace quot1 [quot1, quot1] (var_value v) @ [quot1])"

definition alias_format_powershell :: "Alias list \<Rightarrow> string" where
  "alias_format_powershell as = concat (map format_alias as)"

definition plain_char :: "(nat \<Rightarrow> bool) \<Rightarrow> nat \<Rightarrow> bool" where
  "plain_char alnum c \<longleftrightarrow> alnum c \<or> c = of_char CHR ''_'' \<or> c = of_char CHR ''-'' \<or> c = of_char CHR ''/'' \<or> c = of_char CHR ''.''"

definition escape_posix_value :: "(nat \<Rightarrow> bool) \<Rightarrow> string \<Rightarrow> string" where
  "escape_posix_value alnum v =
     (if list_all (plain_char alnum) (chars v) then v
      else [quot2] @ replace tick [bsl, tick] (replace CHR ''$'' [bsl, CHR ''$''] (replace quot2 [bsl, quot2] (replace bsl [bsl, bsl] v))) @ [quot2])"

definition escape_fish_value :: "(nat \<Rightarrow> bool) \<Rightarrow> string \<Rightarrow> string" where
  "escape_fish_value alnum v =
     (if list_all (plain_char alnum) (chars v) then v else [quot1] @ replace quot1 [bsl, quot1] v @ [quot1])"

definition escape_xonsh_value :: "(nat \<Rightarrow> bool) \<Rightarrow> string \<Rightarrow> string" where
  "escape_xonsh_value alnum v =
     (if list_all (plain_char alnum) (chars v) then v
      else [quot2] @ replace quot2 [bsl, quot2] (replace bsl [bsl, bsl] v) @ [quot2])"

definition var_format_xonsh :: "(nat \<Rightarrow> bool) \<Rightarrow> Var list \<Rightarrow> string" where
  "var_format_xonsh alnum vs = concat (map (\<lambda>v. ''$'' @ var_name v @ ''='' @ escape_xonsh_value alnum (var_value v) @ [nl]) vs)"

definition var_format_fish :: "(nat \<Rightarrow> bool) \<Rightarrow> Var list \<Rightarrow> string" where
  "var_format_fish alnum vs = concat (map (\<lambda>v. ''set -gx '' @ var_name v @ '' '' @ escape_fish_value alnum (var_value v) @ [nl]) vs)"

definition var_format_posix :: "(nat \<Rightarrow> bool) \<Rightarrow> Var list \<Rightarrow> string" where
  "var_format_posix alnum vs = concat (map (\<lambda>v.
     (if var_export v then ''export '' else []) @ var_name v @ ''='' @ escape_posix_value alnum (var_value v) @ [nl]) vs)"

definition var_format_powershell :: "Var list \<Rightarrow> string" where
  "var_format_powershell vs = concat (map format_var vs)"

section \<open>The stores\<close>

type_synonym files = "string \<Rightarrow> string option"

record dotfiles =
  df_store :: store
  df_files :: "files db"

record shell_env =
  sh_client :: client
  sh_alnum :: "nat \<Rightarrow> bool"
  sh_show :: "op_error \<Rightarrow> string"

type_synonym 'a dot_io = "(dotfiles, op_error, 'a) io"

definition on_df_store :: "(store, op_error, 'a) io \<Rightarrow> 'a dot_io" where
  "on_df_store m = zoom df_store (\<lambda>s w. w\<lparr>df_store := s\<rparr>) m"

definition on_df_files :: "(files db, string, 'a) io \<Rightarrow> 'a dot_io" where
  "on_df_files m = map_err FileFailed (zoom df_files (\<lambda>s w. w\<lparr>df_files := s\<rparr>) m)"

definition create_dir_all :: "unit dot_io" where
  "create_dir_all = on_df_files (sql_exec (\<lambda>fs. fs))"

definition write_file :: "string \<Rightarrow> string \<Rightarrow> unit dot_io" where
  "write_file path text = on_df_files (sql_exec (\<lambda>fs. fs(path \<mapsto> text)))"

definition read_to_string :: "string \<Rightarrow> string dot_io" where
  "read_to_string path =
     bind_io (on_df_files (sql_query (\<lambda>fs. fs path))) (\<lambda>r.
       case r of None \<Rightarrow> fail_io (FileFailed ''not found'') | Some text \<Rightarrow> ok_io text)"

definition alias_decode :: "client \<Rightarrow> EncryptedRecord \<Rightarrow> op_error + AliasRecord" where
  "alias_decode C r =
     (if rec_version r = V0
      then decrypt_then (\<lambda>bs. alias_deserialize (c_rmp C) bs V0) (c_prims C) (c_json C) (c_key C) r
      else Inl (Malformed ''unknown version''))"

fun alias_step :: "(string \<times> Alias) list \<Rightarrow> AliasRecord \<Rightarrow> (string \<times> Alias) list" where
  "alias_step build (AliasCreate a) = btree_insert (alias_name a) a build"
| "alias_step build (AliasDelete d) = btree_remove d build"

primrec alias_fold :: "client \<Rightarrow> (string \<times> Alias) list \<Rightarrow> EncryptedRecord list \<Rightarrow> (string \<times> Alias) list" where
  "alias_fold C build [] = build"
| "alias_fold C build (r # rs) =
     (case alias_decode C r of Inl _ \<Rightarrow> alias_fold C build rs | Inr ar \<Rightarrow> alias_fold C (alias_step build ar) rs)"

definition aliases :: "client \<Rightarrow> Alias list dot_io" where
  "aliases C =
     bind_io (on_df_store (map_err StoreFailed (all_tagged ConfigShellAlias))) (\<lambda>tagged.
       ok_io (map snd (alias_fold C [] tagged)))"

definition alias_posix :: "client \<Rightarrow> string dot_io" where
  "alias_posix C = bind_io (aliases C) (\<lambda>as. ok_io (alias_format_posix as))"

definition alias_xonsh :: "client \<Rightarrow> string dot_io" where
  "alias_xonsh C = bind_io (aliases C) (\<lambda>as. ok_io (alias_format_xonsh as))"

definition alias_powershell :: "client \<Rightarrow> string dot_io" where
  "alias_powershell C = bind_io (aliases C) (\<lambda>as. ok_io (alias_format_powershell as))"

definition alias_build :: "client \<Rightarrow> unit dot_io" where
  "alias_build C =
     bind_io create_dir_all (\<lambda>_.
     bind_io (aliases C) (\<lambda>as.
     bind_io (write_file ''aliases.zsh'' (alias_format_posix as)) (\<lambda>_.
     bind_io (write_file ''aliases.bash'' (alias_format_posix as)) (\<lambda>_.
     bind_io (write_file ''aliases.fish'' (alias_format_posix as)) (\<lambda>_.
     bind_io (write_file ''aliases.xsh'' (alias_format_xonsh as)) (\<lambda>_.
       write_file ''aliases.ps1'' (alias_format_powershell as)))))))"

definition push_alias :: "client \<Rightarrow> fresh \<Rightarrow> AliasRecord \<Rightarrow> unit dot_io" where
  "push_alias C fr ar =
     bind_io (lift_result (case alias_serialize (c_rmp C) ar of Inl e \<Rightarrow> Inl (Unserializable e) | Inr b \<Rightarrow> Inr b)) (\<lambda>bs.
     bind_io (on_df_store (append_tagged C ConfigShellAlias V0 fr bs)) (\<lambda>_. alias_build C))"

definition alias_set :: "client \<Rightarrow> fresh \<Rightarrow> string \<Rightarrow> string \<Rightarrow> unit dot_io" where
  "alias_set C fr name val =
     (if length name + length val > 20000 then fail_io (TooLarge 20000)
      else push_alias C fr (AliasCreate \<lparr>alias_name = name, alias_value = val\<rparr>))"

definition alias_delete :: "client \<Rightarrow> fresh \<Rightarrow> string \<Rightarrow> unit dot_io" where
  "alias_delete C fr name =
     (if length name > 20000 then fail_io (TooLarge 20000) else push_alias C fr (AliasDelete name))"

definition var_decode :: "client \<Rightarrow> EncryptedRecord \<Rightarrow> op_error + VarRecord" where
  "var_decode C r =
     (if rec_version r = V0
      then decrypt_then (\<lambda>bs. var_record_deserialize (c_rmp C) bs V0) (c_prims C) (c_json C) (c_key C) r
      else Inl (Malformed ''unknown version''))"

fun var_step :: "(string \<times> Var) list \<Rightarrow> VarRecord \<Rightarrow> (string \<times> Var) list" where
  "var_step build (VarCreate v) = btree_insert (var_name v) v build"
| "var_step build (VarDelete d) = btree_remove d build"

primrec var_fold :: "client \<Rightarrow> (string \<times> Var) list \<Rightarrow> EncryptedRecord list \<Rightarrow> (string \<times> Var) list" where
  "var_fold C build [] = build"
| "var_fold C build (r # rs) =
     (case var_decode C r of Inl _ \<Rightarrow> var_fold C build rs | Inr ar \<Rightarrow> var_fold C (var_step build ar) rs)"

definition vars :: "client \<Rightarrow> Var list dot_io" where
  "vars C =
     bind_io (on_df_store (map_err StoreFailed (all_tagged DotfilesVar))) (\<lambda>tagged.
       ok_io (map snd (var_fold C [] tagged)))"

definition var_posix :: "shell_env \<Rightarrow> string dot_io" where
  "var_posix E = bind_io (vars (sh_client E)) (\<lambda>vs. ok_io (var_format_posix (sh_alnum E) vs))"

definition var_fish :: "shell_env \<Rightarrow> string dot_io" where
  "var_fish E = bind_io (vars (sh_client E)) (\<lambda>vs. ok_io (var_format_fish (sh_alnum E) vs))"

definition var_xonsh :: "shell_env \<Rightarrow> string dot_io" where
  "var_xonsh E = bind_io (vars (sh_client E)) (\<lambda>vs. ok_io (var_format_xonsh (sh_alnum E) vs))"

definition var_powershell :: "shell_env \<Rightarrow> string dot_io" where
  "var_powershell E = bind_io (vars (sh_client E)) (\<lambda>vs. ok_io (var_format_powershell vs))"

definition var_build :: "shell_env \<Rightarrow> unit dot_io" where
  "var_build E =
     bind_io create_dir_all (\<lambda>_.
     bind_io (vars (sh_client E)) (\<lambda>vs.
     bind_io (write_file ''vars.zsh'' (var_format_posix (sh_alnum E) vs)) (\<lambda>_.
     bind_io (write_file ''vars.bash'' (var_format_posix (sh_alnum E) vs)) (\<lambda>_.
     bind_io (write_file ''vars.fish'' (var_format_fish (sh_alnum E) vs)) (\<lambda>_.
     bind_io (write_file ''vars.xsh'' (var_format_xonsh (sh_alnum E) vs)) (\<lambda>_.
       write_file ''vars.ps1'' (var_format_powershell vs)))))))"

definition push_var :: "shell_env \<Rightarrow> fresh \<Rightarrow> VarRecord \<Rightarrow> unit dot_io" where
  "push_var E fr vr =
     bind_io (lift_result (case var_record_serialize (c_rmp (sh_client E)) vr of Inl e \<Rightarrow> Inl (Unserializable e) | Inr b \<Rightarrow> Inr b)) (\<lambda>bs.
     bind_io (on_df_store (append_tagged (sh_client E) DotfilesVar V0 fr bs)) (\<lambda>_. var_build E))"

definition var_set :: "shell_env \<Rightarrow> fresh \<Rightarrow> string \<Rightarrow> string \<Rightarrow> bool \<Rightarrow> unit dot_io" where
  "var_set E fr name val export =
     (if length name + length val > 20000 then fail_io (TooLarge 20000)
      else push_var E fr (VarCreate \<lparr>var_name = name, var_value = val, var_export = export\<rparr>))"

definition var_delete :: "shell_env \<Rightarrow> fresh \<Rightarrow> string \<Rightarrow> unit dot_io" where
  "var_delete E fr name =
     (if length name > 20000 then fail_io (TooLarge 20000) else push_var E fr (VarDelete name))"

section \<open>The shells' configurations\<close>

text \<open>
  Every shell reads its file; if that fails, the text is generated on the fly; if the file is not
  there, it is built first. No error prevents the shell from starting: errors become a command that
  prints them.
\<close>

definition cached_text :: "(op_error \<Rightarrow> string) \<Rightarrow> string \<Rightarrow> string \<Rightarrow> string dot_io \<Rightarrow> dotfiles \<Rightarrow> string \<times> dotfiles" where
  "cached_text show_err what path generate w =
     (case read_to_string path w of
        (Inr text, w') \<Rightarrow> (text, w')
      | (Inl r, w') \<Rightarrow>
          (case generate w' of
             (Inr text, w'') \<Rightarrow> (text, w'')
           | (Inl e, w'') \<Rightarrow> (''echo '' @ [quot1] @ ''Atuin: failed to read and generate '' @ what @ '': '' @ [nl] @ show_err r @ [nl] @ show_err e @ [quot1], w'')))"

definition shell_config :: "(op_error \<Rightarrow> string) \<Rightarrow> string \<Rightarrow> string \<Rightarrow> unit dot_io \<Rightarrow> string dot_io \<Rightarrow> dotfiles \<Rightarrow> string \<times> dotfiles" where
  "shell_config show_err what path build generate w =
     (if tables (df_files w) path \<noteq> None then cached_text show_err what path generate w
      else (case build w of
              (Inl e, w') \<Rightarrow> (''echo '' @ [quot1] @ ''Atuin: failed to generate '' @ what @ '': '' @ show_err e @ [quot1], w')
            | (Inr _, w') \<Rightarrow> cached_text show_err what path generate w'))"

definition bash_alias_config :: "shell_env \<Rightarrow> dotfiles \<Rightarrow> string \<times> dotfiles" where
  "bash_alias_config E = shell_config (sh_show E) ''aliases'' ''aliases.bash'' (alias_build (sh_client E)) (alias_posix (sh_client E))"

definition bash_var_config :: "shell_env \<Rightarrow> dotfiles \<Rightarrow> string \<times> dotfiles" where
  "bash_var_config E = shell_config (sh_show E) ''vars'' ''vars.bash'' (var_build E) (var_posix E)"

definition zsh_alias_config :: "shell_env \<Rightarrow> dotfiles \<Rightarrow> string \<times> dotfiles" where
  "zsh_alias_config E = shell_config (sh_show E) ''aliases'' ''aliases.zsh'' (alias_build (sh_client E)) (alias_posix (sh_client E))"

definition zsh_var_config :: "shell_env \<Rightarrow> dotfiles \<Rightarrow> string \<times> dotfiles" where
  "zsh_var_config E = shell_config (sh_show E) ''aliases'' ''vars.zsh'' (var_build E) (var_posix E)"

definition fish_alias_config :: "shell_env \<Rightarrow> dotfiles \<Rightarrow> string \<times> dotfiles" where
  "fish_alias_config E = shell_config (sh_show E) ''aliases'' ''aliases.fish'' (alias_build (sh_client E)) (alias_posix (sh_client E))"

definition fish_var_config :: "shell_env \<Rightarrow> dotfiles \<Rightarrow> string \<times> dotfiles" where
  "fish_var_config E = shell_config (sh_show E) ''vars'' ''vars.fish'' (var_build E) (var_posix E)"

definition xonsh_alias_config :: "shell_env \<Rightarrow> dotfiles \<Rightarrow> string \<times> dotfiles" where
  "xonsh_alias_config E = shell_config (sh_show E) ''aliases'' ''aliases.xsh'' (alias_build (sh_client E)) (alias_xonsh (sh_client E))"

definition xonsh_var_config :: "shell_env \<Rightarrow> dotfiles \<Rightarrow> string \<times> dotfiles" where
  "xonsh_var_config E = shell_config (sh_show E) ''vars'' ''vars.xsh'' (var_build E) (var_xonsh E)"

definition powershell_alias_config :: "shell_env \<Rightarrow> dotfiles \<Rightarrow> string \<times> dotfiles" where
  "powershell_alias_config E = shell_config (sh_show E) ''aliases'' ''aliases.ps1'' (alias_build (sh_client E)) (alias_powershell (sh_client E))"

definition powershell_var_config :: "shell_env \<Rightarrow> dotfiles \<Rightarrow> string \<times> dotfiles" where
  "powershell_var_config E = shell_config (sh_show E) ''vars'' ''vars.ps1'' (var_build E) (var_powershell E)"

section \<open>The logs of the stores\<close>

fun alias_small :: "AliasRecord \<Rightarrow> bool" where
  "alias_small (AliasCreate a) \<longleftrightarrow> length (alias_name a) + length (alias_value a) \<le> 20000"
| "alias_small (AliasDelete n) \<longleftrightarrow> length n \<le> 20000"

fun var_small :: "VarRecord \<Rightarrow> bool" where
  "var_small (VarCreate v) \<longleftrightarrow> length (var_name v) + length (var_value v) \<le> 20000"
| "var_small (VarDelete n) \<longleftrightarrow> length n \<le> 20000"

lemma alias_roundtrip:
  assumes R: "rmp_ok R" and r: "alias_small r"
  shows "\<exists>b. alias_serialize R r = Inr b \<and> alias_deserialize R b V0 = Inr r"
proof -
  note rd = rmp_okD(3) [OF R] rmp_okD(7) [OF R]
  note [simp] = then_write_def alias_deserialize_def read_all_def alias_read_def bind_io_def expect_fields_def
  show ?thesis
  proof (cases r)
    case (AliasCreate a)
    obtain bn where bn: "w_str R (alias_name a) = Inr bn" "\<And>rest. read_slice R (bn @ rest) = (Inr (alias_name a), rest)"
      by (rule read_slice_codecE [OF R, of "alias_name a"]) (use r AliasCreate in simp_all)
    obtain bv where bv: "w_str R (alias_value a) = Inr bv" "\<And>rest. read_slice R (bv @ rest) = (Inr (alias_value a), rest)"
      by (rule read_slice_codecE [OF R, of "alias_value a"]) (use r AliasCreate in simp_all)
    show ?thesis using AliasCreate bn bv(1) bv(2) [of "[]"] rd by simp
  next
    case (AliasDelete n)
    obtain bn where bn: "w_str R n = Inr bn" "\<And>rest. read_slice R (bn @ rest) = (Inr n, rest)"
      by (rule read_slice_codecE [OF R, of "n"]) (use r AliasDelete in simp_all)
    show ?thesis using AliasDelete bn(1) bn(2) [of "[]"] rd by simp
  qed
qed

lemma var_roundtrip:
  assumes R: "rmp_ok R" and r: "var_small r"
  shows "\<exists>b. var_record_serialize R r = Inr b \<and> var_record_deserialize R b V0 = Inr r"
proof -
  note rd = rmp_okD(3) [OF R] rmp_okD(7) [OF R]
  note [simp] = then_write_def var_record_deserialize_def var_serialize_def read_all_def var_record_read_def var_read_def bind_io_def
    expect_fields_def expect_end_def
  show ?thesis
  proof (cases r)
    case (VarCreate a)
    obtain bn where bn: "w_str R (var_name a) = Inr bn" "\<And>rest. read_slice R (bn @ rest) = (Inr (var_name a), rest)"
      by (rule read_slice_codecE [OF R, of "var_name a"]) (use r VarCreate in simp_all)
    obtain bv where bv: "w_str R (var_value a) = Inr bv" "\<And>rest. read_slice R (bv @ rest) = (Inr (var_value a), rest)"
      by (rule read_slice_codecE [OF R, of "var_value a"]) (use r VarCreate in simp_all)
    show ?thesis using VarCreate bn bv rd rmp_okD(2) [OF R, of "var_export a" "[]"] by simp
  next
    case (VarDelete n)
    obtain bn where bn: "w_str R n = Inr bn" "\<And>rest. read_slice R (bn @ rest) = (Inr n, rest)"
      by (rule read_slice_codecE [OF R, of "n"]) (use r VarDelete in simp_all)
    show ?thesis using VarDelete bn(1) bn(2) [of "[]"] rd by simp
  qed
qed

interpretation alias_log: op_log "\<lambda>C. alias_serialize (c_rmp C)" alias_decode V0 ConfigShellAlias alias_small
proof unfold_locales
  fix C :: client and x assume "rmp_ok (c_rmp C)" "alias_small x"
  with alias_roundtrip obtain b where "alias_serialize (c_rmp C) x = Inr b" "alias_deserialize (c_rmp C) b V0 = Inr x" by blast
  then show "\<exists>b. alias_serialize (c_rmp C) x = Inr b
      \<and> (\<forall>r y. decrypt (c_prims C) (c_json C) r (c_key C) = Inr y \<longrightarrow> rec_version r = V0 \<longrightarrow> rec_version y = V0 \<longrightarrow>
          rec_data y = b \<longrightarrow> alias_decode C r = Inr x)"
    by (auto simp: alias_decode_def decrypt_then_def)
qed simp_all

interpretation var_log: op_log "\<lambda>C. var_record_serialize (c_rmp C)" var_decode V0 DotfilesVar var_small
proof unfold_locales
  fix C :: client and x assume "rmp_ok (c_rmp C)" "var_small x"
  with var_roundtrip obtain b where "var_record_serialize (c_rmp C) x = Inr b" "var_record_deserialize (c_rmp C) b V0 = Inr x" by blast
  then show "\<exists>b. var_record_serialize (c_rmp C) x = Inr b
      \<and> (\<forall>r y. decrypt (c_prims C) (c_json C) r (c_key C) = Inr y \<longrightarrow> rec_version r = V0 \<longrightarrow> rec_version y = V0 \<longrightarrow>
          rec_data y = b \<longrightarrow> var_decode C r = Inr x)"
    by (auto simp: var_decode_def decrypt_then_def)
qed simp_all

section \<open>Tables of named values\<close>

text \<open>
  What a step of either fold does to the ordered table: it puts a value under its own name or
  removes a name.
\<close>

locale named_table =
  fixes step :: "(string \<times> 'v) list \<Rightarrow> 'op \<Rightarrow> (string \<times> 'v) list" and name :: "'v \<Rightarrow> string"
    and target :: "'op \<Rightarrow> string" and result :: "'op \<Rightarrow> 'v option"
  assumes step_Some: "result x = Some v \<Longrightarrow> step t x = btree_insert (target x) v t \<and> name v = target x"
    and step_None: "result x = None \<Longrightarrow> step t x = btree_remove (target x) t"
begin

definition named :: "(string \<times> 'v) list \<Rightarrow> bool" where
  "named t \<longleftrightarrow> btree t \<and> (\<forall>e \<in> set t. name (snd e) = fst e)"

lemma set_step: "named t \<Longrightarrow> set (step t x) = (\<lambda>v. (target x, v)) ` set_option (result x) \<union> {e \<in> set t. fst e \<noteq> target x}"
proof (cases "result x")
  case None
  then show ?thesis by (auto simp: step_None btree_remove_def)
next
  case (Some v)
  assume "named t"
  then have "btree t" by (simp add: named_def)
  then have "set (btree_insert k v t) = insert (k, v) {e \<in> set t. fst e \<noteq> k}" for k
  proof (induction t)
    case (Cons e t)
    then have "btree t" "\<forall>e' \<in> set t. fst e < fst e'" by (auto simp: btree_def)
    with Cons.IH show ?case by auto
  qed simp
  with Some step_Some [OF Some] show ?thesis by simp
qed

lemma named_step: "named t \<Longrightarrow> named (step t x)"
proof (cases "result x")
  case None
  assume "named t"
  with None show ?thesis by (auto simp: named_def step_None btree_remove_def [symmetric]) (auto simp: btree_remove_def)
next
  case (Some v)
  assume t: "named t"
  then have "btree (step t x)" using step_Some [OF Some] by (simp add: named_def)
  moreover have "\<forall>e \<in> set (step t x). name (snd e) = fst e"
    unfolding set_step [OF t] using t step_Some [OF Some] Some by (auto simp: named_def)
  ultimately show ?thesis by (simp add: named_def)
qed

lemma named_foldl: "named t \<Longrightarrow> named (foldl step t ops)"
  by (induction ops arbitrary: t) (auto simp: named_step)

lemma named_Nil: "named []"
  by (simp add: named_def)

lemma values_step: "named t \<Longrightarrow> set (map snd (step t x)) = set_option (result x) \<union> {v \<in> set (map snd t). name v \<noteq> target x}"
proof -
  assume t: "named t"
  then have n: "\<And>e. e \<in> set t \<Longrightarrow> name (snd e) = fst e" by (simp add: named_def)
  have "{e \<in> set t. fst e \<noteq> target x} = {e \<in> set t. name (snd e) \<noteq> target x}" using n by auto
  then have "snd ` {e \<in> set t. fst e \<noteq> target x} = {v \<in> snd ` set t. name v \<noteq> target x}" by auto
  then show ?thesis by (simp add: set_step [OF t] image_Un image_image)
qed

lemma sorted_names: "named t \<Longrightarrow> sorted_wrt (<) (map name (map snd t))"
proof -
  assume t: "named t"
  then have "map name (map snd t) = map fst t" by (auto simp: named_def)
  with t show ?thesis by (simp only: named_def btree_def)
qed

end

fun alias_target :: "AliasRecord \<Rightarrow> string" where
  "alias_target (AliasCreate a) = alias_name a"
| "alias_target (AliasDelete n) = n"

fun alias_result :: "AliasRecord \<Rightarrow> Alias option" where
  "alias_result (AliasCreate a) = Some a"
| "alias_result (AliasDelete n) = None"

fun var_target :: "VarRecord \<Rightarrow> string" where
  "var_target (VarCreate v) = var_name v"
| "var_target (VarDelete n) = n"

fun var_result :: "VarRecord \<Rightarrow> Var option" where
  "var_result (VarCreate v) = Some v"
| "var_result (VarDelete n) = None"

interpretation alias_table: named_table alias_step alias_name alias_target alias_result
proof
  show "alias_result x = Some v \<Longrightarrow> alias_step t x = btree_insert (alias_target x) v t \<and> alias_name v = alias_target x" for x v t
    by (cases x) auto
  show "alias_result x = None \<Longrightarrow> alias_step t x = btree_remove (alias_target x) t" for x t
    by (cases x) auto
qed

interpretation var_table: named_table var_step var_name var_target var_result
proof
  show "var_result x = Some v \<Longrightarrow> var_step t x = btree_insert (var_target x) v t \<and> var_name v = var_target x" for x v t
    by (cases x) auto
  show "var_result x = None \<Longrightarrow> var_step t x = btree_remove (var_target x) t" for x t
    by (cases x) auto
qed

section \<open>Building and reading\<close>

definition df_ready :: "dotfiles \<Rightarrow> bool" where
  "df_ready w \<longleftrightarrow> healthy (df_store w) \<and> healthy (df_files w)"

abbreviation alias_ops :: "client \<Rightarrow> dotfiles \<Rightarrow> AliasRecord list" where
  "alias_ops C w \<equiv> replayed (alias_decode C) ConfigShellAlias (tables (df_store w))"

abbreviation var_ops :: "client \<Rightarrow> dotfiles \<Rightarrow> VarRecord list" where
  "var_ops C w \<equiv> replayed (var_decode C) DotfilesVar (tables (df_store w))"

lemma alias_fold_ops:
  "alias_fold C t (map from_row ws) = foldl alias_step t (List.map_filter (\<lambda>w. case alias_decode C (from_row w) of Inl _ \<Rightarrow> None | Inr x \<Rightarrow> Some x) ws)"
  by (induction ws arbitrary: t) (auto simp: map_filter_def split: sum.splits)

lemma var_fold_ops:
  "var_fold C t (map from_row ws) = foldl var_step t (List.map_filter (\<lambda>w. case var_decode C (from_row w) of Inl _ \<Rightarrow> None | Inr x \<Rightarrow> Some x) ws)"
  by (induction ws arbitrary: t) (auto simp: map_filter_def split: sum.splits)

lemma aliases_ready: "df_ready w \<Longrightarrow> aliases C w = (Inr (map snd (foldl alias_step [] (alias_ops C w))), w)"
  by (simp add: aliases_def bind_io_def on_df_store_def zoom_def map_err_def df_ready_def all_tagged_rows alias_fold_ops replayed_def)

lemma vars_ready: "df_ready w \<Longrightarrow> vars C w = (Inr (map snd (foldl var_step [] (var_ops C w))), w)"
  by (simp add: vars_def bind_io_def on_df_store_def zoom_def map_err_def df_ready_def all_tagged_rows var_fold_ops replayed_def)

lemma file_ops_ready:
  assumes "df_ready w"
  shows "create_dir_all w = (Inr (), w)"
    "write_file path text w = (Inr (), w\<lparr>df_files := (df_files w)\<lparr>tables := (tables (df_files w))(path \<mapsto> text)\<rparr>\<rparr>)"
    "tables (df_files w) path = Some text \<Longrightarrow> read_to_string path w = (Inr text, w)"
  using assms
  by (simp_all add: create_dir_all_def write_file_def read_to_string_def on_df_files_def map_err_def zoom_def bind_io_def
      sql_exec_healthy sql_query_healthy df_ready_def)

definition with_files :: "(string \<times> string) list \<Rightarrow> dotfiles \<Rightarrow> dotfiles" where
  "with_files fs w = w\<lparr>df_files := (df_files w)\<lparr>tables := tables (df_files w) ++ map_of fs\<rparr>\<rparr>"

lemma df_ready_with_files [simp]: "df_ready (with_files fs w) = df_ready w" "df_store (with_files fs w) = df_store w"
  by (simp_all add: with_files_def df_ready_def)

lemma write_file_with_files:
  "df_ready w \<Longrightarrow> write_file path text (with_files fs w) = (Inr (), with_files ((path, text) # fs) w)"
  using file_ops_ready(2) [of "with_files fs w" path "text"] df_ready_with_files(1) [of fs w] by (simp add: with_files_def)

definition alias_files :: "Alias list \<Rightarrow> (string \<times> string) list" where
  "alias_files as = [(''aliases.ps1'', alias_format_powershell as), (''aliases.xsh'', alias_format_xonsh as), (''aliases.fish'', alias_format_posix as),
     (''aliases.bash'', alias_format_posix as), (''aliases.zsh'', alias_format_posix as)]"

definition var_files :: "(nat \<Rightarrow> bool) \<Rightarrow> Var list \<Rightarrow> (string \<times> string) list" where
  "var_files alnum vs = [(''vars.ps1'', var_format_powershell vs), (''vars.xsh'', var_format_xonsh alnum vs), (''vars.fish'', var_format_fish alnum vs),
     (''vars.bash'', var_format_posix alnum vs), (''vars.zsh'', var_format_posix alnum vs)]"

lemma with_files_Nil: "with_files [] w = w"
  by (simp add: with_files_def)

lemma alias_build_ready:
  assumes "df_ready w" "aliases C w = (Inr as, w)"
  shows "alias_build C w = (Inr (), with_files (alias_files as) w)"
  using write_file_with_files [OF assms(1)] assms file_ops_ready(1) [OF assms(1)]
    write_file_with_files [OF assms(1), of _ _ "[]", unfolded with_files_Nil]
  by (simp add: alias_build_def alias_files_def bind_io_def)

lemma var_build_ready:
  assumes "df_ready w" "vars (sh_client E) w = (Inr vs, w)"
  shows "var_build E w = (Inr (), with_files (var_files (sh_alnum E) vs) w)"
  using write_file_with_files [OF assms(1)] assms file_ops_ready(1) [OF assms(1)]
    write_file_with_files [OF assms(1), of _ _ "[]", unfolded with_files_Nil]
  by (simp add: var_build_def var_files_def bind_io_def)

lemma config_ready:
  assumes "df_ready w" "tables (df_files w) path = Some text"
  shows "shell_config show_err what path build generate w = (text, w)"
  using assms file_ops_ready(3) [OF assms] by (simp add: shell_config_def cached_text_def)

text \<open>One operation pushed onto either log: the log grows by it, and the files are those of the new table.\<close>

lemma push_alias_run:
  assumes "df_ready w" "fits C ConfigShellAlias fr (tables (df_store w))" "rmp_ok (c_rmp C)" "alias_small x"
  obtains w' where "push_alias C fr x w = (Inr (), with_files (alias_files (map snd (foldl alias_step [] (alias_ops C w @ [x])))) w')"
    "df_ready w'" "alias_ops C w' = alias_ops C w @ [x]" "df_files w' = df_files w"
proof -
  have h: "healthy (df_store w)" using assms(1) by (simp add: df_ready_def)
  from alias_log.append_op [OF h assms(2-4)] obtain b i row where b: "alias_serialize (c_rmp C) x = Inr b"
    "append_tagged C ConfigShellAlias V0 fr b (df_store w) = (Inr (fr_id fr, i), (df_store w)\<lparr>tables := tables (df_store w) @ [row]\<rparr>)"
    "replayed (alias_decode C) ConfigShellAlias (tables (df_store w) @ [row]) = alias_ops C w @ [x]" by metis
  define w' where "w' = w\<lparr>df_store := (df_store w)\<lparr>tables := tables (df_store w) @ [row]\<rparr>\<rparr>"
  have w': "df_ready w'" "alias_ops C w' = alias_ops C w @ [x]" "df_files w' = df_files w"
    using assms(1) b(3) by (simp_all add: w'_def df_ready_def)
  have "push_alias C fr x w = (Inr (), with_files (alias_files (map snd (foldl alias_step [] (alias_ops C w @ [x])))) w')"
    using b alias_build_ready [OF w'(1) aliases_ready [OF w'(1)]] w'(2)
    by (simp add: push_alias_def bind_io_def on_df_store_def zoom_def w'_def)
  with w' that show thesis by blast
qed

lemma push_var_run:
  assumes "df_ready w" "fits (sh_client E) DotfilesVar fr (tables (df_store w))" "rmp_ok (c_rmp (sh_client E))" "var_small x"
  obtains w' where "push_var E fr x w = (Inr (), with_files (var_files (sh_alnum E) (map snd (foldl var_step [] (var_ops (sh_client E) w @ [x])))) w')"
    "df_ready w'" "var_ops (sh_client E) w' = var_ops (sh_client E) w @ [x]" "df_files w' = df_files w"
proof -
  let ?C = "sh_client E"
  have h: "healthy (df_store w)" using assms(1) by (simp add: df_ready_def)
  from var_log.append_op [OF h assms(2-4)] obtain b i row where b: "var_record_serialize (c_rmp ?C) x = Inr b"
    "append_tagged ?C DotfilesVar V0 fr b (df_store w) = (Inr (fr_id fr, i), (df_store w)\<lparr>tables := tables (df_store w) @ [row]\<rparr>)"
    "replayed (var_decode ?C) DotfilesVar (tables (df_store w) @ [row]) = var_ops ?C w @ [x]" by metis
  define w' where "w' = w\<lparr>df_store := (df_store w)\<lparr>tables := tables (df_store w) @ [row]\<rparr>\<rparr>"
  have w': "df_ready w'" "var_ops ?C w' = var_ops ?C w @ [x]" "df_files w' = df_files w"
    using assms(1) b(3) by (simp_all add: w'_def df_ready_def)
  have "push_var E fr x w = (Inr (), with_files (var_files (sh_alnum E) (map snd (foldl var_step [] (var_ops ?C w @ [x])))) w')"
    using b var_build_ready [OF w'(1) vars_ready [OF w'(1)]] w'(2)
    by (simp add: push_var_def bind_io_def on_df_store_def zoom_def w'_def)
  with w' that show thesis by blast
qed

section \<open>What the shells read\<close>

text \<open>
  The quoting rules of the shells: the value of the text up to the closing double quote in a POSIX
  shell, where a backslash escapes a dollar sign, a backtick, a double quote and a backslash, and up
  to the closing single quote in fish, where it escapes a single quote and a backslash. A word
  without quotes is its own value if it has no character with a meaning to the shell.
\<close>

fun posix_quoted :: "string \<Rightarrow> string option" where
  "posix_quoted [] = None"
| "posix_quoted (c # cs) =
     (if c = quot2 then (if cs = [] then Some [] else None)
      else if c = CHR ''$'' \<or> c = tick then None
      else if c = bsl then
        (case cs of
           [] \<Rightarrow> None
         | d # ds \<Rightarrow> (if d \<in> {CHR ''$'', tick, quot2, bsl} then map_option (Cons d) (posix_quoted ds)
                     else if d = nl then posix_quoted ds
                     else map_option (Cons bsl) (posix_quoted cs)))
      else map_option (Cons c) (posix_quoted cs))"

fun fish_quoted :: "string \<Rightarrow> string option" where
  "fish_quoted [] = None"
| "fish_quoted (c # cs) =
     (if c = quot1 then (if cs = [] then Some [] else None)
      else if c = bsl then
        (case cs of
           [] \<Rightarrow> None
         | d # ds \<Rightarrow> (if d \<in> {quot1, bsl} then map_option (Cons d) (fish_quoted ds) else map_option (Cons bsl) (fish_quoted cs)))
      else map_option (Cons c) (fish_quoted cs))"

definition special :: "char list" where
  "special = [quot2, quot1, bsl, tick, nl, CHR 0x09, CHR 0x20] @ ''|&;<>()$*?[]#~=%{}!^''"

definition bare_word :: "string \<Rightarrow> string option" where
  "bare_word s = (if list_all (\<lambda>c. c \<notin> set special) s then Some s else None)"

definition posix_word :: "string \<Rightarrow> string option" where
  "posix_word s = (if s \<noteq> [] \<and> hd s = quot2 then posix_quoted (tl s) else bare_word s)"

definition fish_word :: "string \<Rightarrow> string option" where
  "fish_word s = (if s \<noteq> [] \<and> hd s = quot1 then fish_quoted (tl s) else bare_word s)"

lemma of_char_ascii: "c \<in> set special \<Longrightarrow> of_char c < (128 :: nat)"
  by (auto simp: special_def)

text \<open>Unicode: no character with a meaning to the shell is a letter or a digit.\<close>

definition alnum_ok :: "(nat \<Rightarrow> bool) \<Rightarrow> bool" where
  "alnum_ok alnum \<longleftrightarrow> list_all (\<lambda>c. \<not> alnum (of_char c)) special"

lemma plain_bare:
  assumes "alnum_ok alnum" "list_all (plain_char alnum) (chars v)"
  shows "bare_word v = Some v"
proof -
  have "\<not> plain_char alnum (of_char c)" if "c \<in> set special" for c
    using assms(1) that by (auto simp: alnum_ok_def plain_char_def list_all_iff special_def)
  then have "c \<notin> set v" if "c \<in> set special" for c
    using assms(2) ascii_in_chars [of c v] of_char_ascii [OF that] that by (auto simp: list_all_iff)
  then show ?thesis by (auto simp: bare_word_def list_all_iff)
qed

lemma plain_no_quote:
  assumes "bare_word v = Some v"
  shows "v = [] \<or> hd v \<noteq> quot2 \<and> hd v \<noteq> quot1"
  using assms by (cases v) (auto simp: bare_word_def special_def split: if_splits)

definition posix_escape :: "char \<Rightarrow> string" where
  "posix_escape c = (if c \<in> {bsl, quot2, CHR ''$'', tick} then [bsl, c] else [c])"

lemma replace_simps [simp]:
  "replace c b [] = []" "replace c b (x # s) = (if x = c then b else [x]) @ replace c b s" "replace c b (s @ t) = replace c b s @ replace c b t"
  by (simp_all add: replace_def)

lemma posix_escapes: "replace tick [bsl, tick] (replace CHR ''$'' [bsl, CHR ''$''] (replace quot2 [bsl, quot2] (replace bsl [bsl, bsl] v))) = concat (map posix_escape v)"
  by (induction v) (simp_all add: posix_escape_def)

lemma posix_quoted_escape: "posix_quoted (concat (map posix_escape v) @ [quot2]) = Some v"
  by (induction v) (auto simp: posix_escape_def)

lemma fish_quoted_escape: "bsl \<notin> set v \<Longrightarrow> fish_quoted (replace quot1 [bsl, quot1] v @ s) = map_option (\<lambda>x. v @ x) (fish_quoted s)"
  by (induction v; cases "fish_quoted s") auto

section \<open>Properties\<close>

text \<open>
  C17: setting or deleting an alias takes effect in every shell. Both succeed, all other aliases stay, the
  new alias replaces an older one of the name, the list is sorted by name, and the configuration of
  bash, zsh, fish, xonsh and PowerShell is the format of exactly that list.
\<close>

theorem alias_change_everywhere:
  assumes "df_ready w" "fits C ConfigShellAlias fr (tables (df_store w))" "rmp_ok (c_rmp C)" "C = sh_client E"
    and "length n + length v \<le> 20000" "m = alias_set C fr n v \<and> put = {\<lparr>alias_name = n, alias_value = v\<rparr>} \<or> m = alias_delete C fr n \<and> put = {}"
  shows "\<exists>w' old new. aliases C w = (Inr old, w) \<and> m w = (Inr (), w') \<and> aliases C w' = (Inr new, w')
    \<and> set new = put \<union> {a \<in> set old. alias_name a \<noteq> n} \<and> sorted_wrt (<) (map alias_name new)
    \<and> bash_alias_config E w' = (alias_format_posix new, w') \<and> zsh_alias_config E w' = (alias_format_posix new, w')
    \<and> fish_alias_config E w' = (alias_format_posix new, w') \<and> xonsh_alias_config E w' = (alias_format_xonsh new, w')
    \<and> powershell_alias_config E w' = (alias_format_powershell new, w')"
proof -
  define x where "x = (if put = {} then AliasDelete n else AliasCreate \<lparr>alias_name = n, alias_value = v\<rparr>)"
  have m: "m = push_alias C fr x" "alias_small x" "put = set_option (alias_result x)" "alias_target x = n"
    using assms(5,6) by (auto simp: x_def alias_set_def alias_delete_def)
  define old where "old = foldl alias_step [] (alias_ops C w)"
  define new where "new = map snd (alias_step old x)"
  have named: "alias_table.named old" by (simp add: old_def alias_table.named_foldl alias_table.named_Nil)
  obtain w' where w': "push_alias C fr x w = (Inr (), with_files (alias_files new) w')" "df_ready w'" "alias_ops C w' = alias_ops C w @ [x]"
    by (rule push_alias_run [OF assms(1-3) m(2)]) (auto simp: new_def old_def)
  let ?w = "with_files (alias_files new) w'"
  have r: "df_ready ?w" using w'(2) by simp
  have "aliases C ?w = (Inr new, ?w)" using aliases_ready [OF r, of C] w'(3) by (simp add: new_def old_def)
  moreover have "aliases C w = (Inr (map snd old), w)" using aliases_ready [OF assms(1), of C] by (simp add: old_def)
  moreover have "set new = put \<union> {a \<in> set (map snd old). alias_name a \<noteq> n}" "sorted_wrt (<) (map alias_name new)"
    unfolding new_def m(3) using alias_table.values_step [OF named, of x] alias_table.sorted_names [OF alias_table.named_step [OF named], of x] m(4) by auto
  moreover note config_ready [OF r]
  ultimately show ?thesis using w'(1) m(1)
    by (intro exI [of _ ?w] exI [of _ "map snd old"] exI [of _ new])
      (simp add: bash_alias_config_def zsh_alias_config_def fish_alias_config_def xonsh_alias_config_def powershell_alias_config_def with_files_def alias_files_def)
qed

definition empty_dotfiles :: dotfiles where
  "empty_dotfiles = \<lparr>df_store = empty_store, df_files = \<lparr>tables = Map.empty, faults = []\<rparr>\<rparr>"

definition ascii_alnum :: "nat \<Rightarrow> bool" where
  "ascii_alnum n \<longleftrightarrow> 48 \<le> n \<and> n \<le> 57 \<or> 65 \<le> n \<and> n \<le> 90 \<or> 97 \<le> n \<and> n \<le> 122"

definition clear_shell :: shell_env where
  "clear_shell = \<lparr>sh_client = clear_client, sh_alnum = ascii_alnum, sh_show = (\<lambda>_. ''error'')\<rparr>"

lemma empty_dotfiles_ok:
  "df_ready empty_dotfiles" "fits clear_client t (fresh_at 1) (tables (df_store empty_dotfiles))" "rmp_ok (c_rmp clear_client)" "clear_client = sh_client clear_shell"
  "foldl alias_step [] (alias_ops clear_client empty_dotfiles) = []" "foldl var_step [] (var_ops clear_client empty_dotfiles) = []"
  using clear_client_ok
  by (simp_all add: empty_dotfiles_def df_ready_def empty_store_def clear_shell_def replayed_def tagged_rows_def map_filter_def)

lemma singleton_list:
  assumes "set xs = {a}" "distinct xs"
  shows "xs = [a]"
proof -
  have "length xs = 1" using distinct_card [OF assms(2)] assms(1) by simp
  with assms(1) show ?thesis by (cases xs) auto
qed

theorem alias_change_everywhere_witness:
  "\<exists>w'. alias_set clear_client (fresh_at 1) ''ll'' ''ls -l'' empty_dotfiles = (Inr (), w')
    \<and> fst (bash_alias_config clear_shell w') = ''alias ll='' @ [quot1] @ ''ls -l'' @ [quot1, nl]"
proof -
  obtain w' old new where w: "aliases clear_client empty_dotfiles = (Inr old, empty_dotfiles)"
      "alias_set clear_client (fresh_at 1) ''ll'' ''ls -l'' empty_dotfiles = (Inr (), w')"
      "set new = {\<lparr>alias_name = ''ll'', alias_value = ''ls -l''\<rparr>} \<union> {a \<in> set old. alias_name a \<noteq> ''ll''}" "sorted_wrt (<) (map alias_name new)"
      "bash_alias_config clear_shell w' = (alias_format_posix new, w')"
    using alias_change_everywhere [OF empty_dotfiles_ok(1,2,3,4), of "''ll''" "''ls -l''" "alias_set clear_client (fresh_at 1) ''ll'' ''ls -l''"
        "{\<lparr>alias_name = ''ll'', alias_value = ''ls -l''\<rparr>}"] by (simp) blast
  have "old = []" using w(1) aliases_ready [OF empty_dotfiles_ok(1), of clear_client] empty_dotfiles_ok(5) by simp
  then have "set new = {\<lparr>alias_name = ''ll'', alias_value = ''ls -l''\<rparr>}" "distinct new"
    using w(3,4) by (simp_all add: strict_sorted_iff distinct_map)
  then have "new = [\<lparr>alias_name = ''ll'', alias_value = ''ls -l''\<rparr>]" by (rule singleton_list)
  with w(2,5) show ?thesis by (simp add: alias_format_posix_def unquote_def chars_def continues_def)
qed

text \<open>
  setting or deleting a variable takes effect in every shell in the same way, exported variables
  and shell variables alike.
\<close>

theorem var_change_everywhere:
  assumes "df_ready w" "fits (sh_client E) DotfilesVar fr (tables (df_store w))" "rmp_ok (c_rmp (sh_client E))"
    and "length n + length v \<le> 20000"
    and "m = var_set E fr n v ex \<and> put = {\<lparr>var_name = n, var_value = v, var_export = ex\<rparr>} \<or> m = var_delete E fr n \<and> put = {}"
  shows "\<exists>w' old new. vars (sh_client E) w = (Inr old, w) \<and> m w = (Inr (), w') \<and> vars (sh_client E) w' = (Inr new, w')
    \<and> set new = put \<union> {a \<in> set old. var_name a \<noteq> n} \<and> sorted_wrt (<) (map var_name new)
    \<and> bash_var_config E w' = (var_format_posix (sh_alnum E) new, w') \<and> zsh_var_config E w' = (var_format_posix (sh_alnum E) new, w')
    \<and> fish_var_config E w' = (var_format_fish (sh_alnum E) new, w') \<and> xonsh_var_config E w' = (var_format_xonsh (sh_alnum E) new, w')
    \<and> powershell_var_config E w' = (var_format_powershell new, w')"
proof -
  let ?C = "sh_client E"
  define x where "x = (if put = {} then VarDelete n else VarCreate \<lparr>var_name = n, var_value = v, var_export = ex\<rparr>)"
  have m: "m = push_var E fr x" "var_small x" "put = set_option (var_result x)" "var_target x = n"
    using assms(4,5) by (auto simp: x_def var_set_def var_delete_def)
  define old where "old = foldl var_step [] (var_ops ?C w)"
  define new where "new = map snd (var_step old x)"
  have named: "var_table.named old" by (simp add: old_def var_table.named_foldl var_table.named_Nil)
  obtain w' where w': "push_var E fr x w = (Inr (), with_files (var_files (sh_alnum E) new) w')" "df_ready w'" "var_ops ?C w' = var_ops ?C w @ [x]"
    by (rule push_var_run [OF assms(1-3) m(2)]) (auto simp: new_def old_def)
  let ?w = "with_files (var_files (sh_alnum E) new) w'"
  have r: "df_ready ?w" using w'(2) by simp
  have "vars ?C ?w = (Inr new, ?w)" using vars_ready [OF r, of ?C] w'(3) by (simp add: new_def old_def)
  moreover have "vars ?C w = (Inr (map snd old), w)" using vars_ready [OF assms(1), of ?C] by (simp add: old_def)
  moreover have "set new = put \<union> {a \<in> set (map snd old). var_name a \<noteq> n}" "sorted_wrt (<) (map var_name new)"
    unfolding new_def m(3) using var_table.values_step [OF named, of x] var_table.sorted_names [OF var_table.named_step [OF named], of x] m(4) by auto
  moreover note config_ready [OF r]
  ultimately show ?thesis using w'(1) m(1)
    by (intro exI [of _ ?w] exI [of _ "map snd old"] exI [of _ new])
      (simp add: bash_var_config_def zsh_var_config_def fish_var_config_def xonsh_var_config_def powershell_var_config_def with_files_def var_files_def)
qed

theorem var_change_everywhere_witness:
  "\<exists>w' new. var_set clear_shell (fresh_at 1) ''FOO'' ''a b'' True empty_dotfiles = (Inr (), w')
    \<and> set new = {\<lparr>var_name = ''FOO'', var_value = ''a b'', var_export = True\<rparr>} \<and> fst (fish_var_config clear_shell w') = var_format_fish ascii_alnum new"
proof -
  obtain w' old new where w: "vars clear_client empty_dotfiles = (Inr old, empty_dotfiles)"
      "var_set clear_shell (fresh_at 1) ''FOO'' ''a b'' True empty_dotfiles = (Inr (), w')"
      "set new = {\<lparr>var_name = ''FOO'', var_value = ''a b'', var_export = True\<rparr>} \<union> {a \<in> set old. var_name a \<noteq> ''FOO''}"
      "fish_var_config clear_shell w' = (var_format_fish (sh_alnum clear_shell) new, w')"
    using var_change_everywhere [OF empty_dotfiles_ok(1,2,3) [unfolded empty_dotfiles_ok(4)], of "''FOO''" "''a b''"
        "var_set clear_shell (fresh_at 1) ''FOO'' ''a b'' True" True "{\<lparr>var_name = ''FOO'', var_value = ''a b'', var_export = True\<rparr>}"]
    by (simp add: empty_dotfiles_ok(4)) blast
  have "old = []" using w(1) vars_ready [OF empty_dotfiles_ok(1), of clear_client] empty_dotfiles_ok(6) by simp
  moreover have "sh_alnum clear_shell = ascii_alnum" by (simp add: clear_shell_def)
  ultimately show ?thesis using w(2-4) by auto
qed

text \<open>
  the value of a variable as it is written for bash and zsh reads back, in a POSIX shell, as
  the value, whatever bytes it has.
\<close>

theorem posix_value_reads:
  assumes "alnum_ok alnum"
  shows "posix_word (escape_posix_value alnum v) = Some v"
proof (cases "list_all (plain_char alnum) (chars v)")
  case True
  note bare = plain_bare [OF assms True]
  from bare plain_no_quote [OF bare] True show ?thesis
    by (auto simp: posix_word_def escape_posix_value_def)
next
  case False
  then show ?thesis by (simp add: posix_word_def escape_posix_value_def posix_escapes posix_quoted_escape)
qed

lemma ascii_alnum_ok: "alnum_ok ascii_alnum"
  by (simp add: alnum_ok_def special_def ascii_alnum_def)

theorem posix_value_reads_witness:
  "alnum_ok ascii_alnum \<and> posix_word (escape_posix_value ascii_alnum ''a$b'') = Some ''a$b''"
  using ascii_alnum_ok posix_value_reads [of ascii_alnum "''a$b''"] by simp

text \<open>
  the value as it is written for fish reads back if it has no backslash; a value that ends in
  a backslash is written as a word that fish never sees closed.
\<close>

theorem fish_value_reads:
  assumes "alnum_ok alnum" "CHR 0x5C \<notin> set v"
  shows "fish_word (escape_fish_value alnum v) = Some v \<and> fish_word (escape_fish_value alnum (v @ [CHR 0x5C])) = None"
proof
  show "fish_word (escape_fish_value alnum v) = Some v"
  proof (cases "list_all (plain_char alnum) (chars v)")
    case True
    note bare = plain_bare [OF assms(1) True]
    from bare plain_no_quote [OF bare] True show ?thesis
      by (auto simp: fish_word_def escape_fish_value_def)
  next
    case False
    then show ?thesis using fish_quoted_escape [OF assms(2), of "[quot1]"] by (simp add: fish_word_def escape_fish_value_def)
  qed
  have "bare_word (v @ [bsl]) \<noteq> Some (v @ [bsl])" by (simp add: bare_word_def special_def)
  with plain_bare [OF assms(1)] have "\<not> list_all (plain_char alnum) (chars (v @ [bsl]))" by blast
  then show "fish_word (escape_fish_value alnum (v @ [bsl])) = None"
    using fish_quoted_escape [OF assms(2), of "[bsl, quot1]"] by (simp add: fish_word_def escape_fish_value_def)
qed

theorem fish_value_reads_witness:
  "alnum_ok ascii_alnum \<and> fish_word (escape_fish_value ascii_alnum ''C:'') = Some ''C:'' \<and> fish_word (escape_fish_value ascii_alnum (''C:'' @ [CHR 0x5C])) = None"
  using ascii_alnum_ok fish_value_reads [of ascii_alnum "''C:''"] by simp

end
