(* ===== verification/History_Store.thy ===== *)
theory History_Store
  imports History_Entry
begin

text \<open>
  The history on top of the record store, \<open>atuin-client/src/history/store.rs\<close>, and the writes and
  simple reads of the history table, \<open>atuin-client/src/database.rs\<close>, with \<open>chunk_by_bounded\<close> of
  \<open>atuin-common/src/futures/stream.rs\<close>, the combinator that cuts the decoded records into batches.

  The state is the record store and the history table, both with failing statements. The table is
  the list of its rows in insertion order; an insert is ignored if it violates the primary key or
  the unique constraint on time, directory and command. \<open>incremental_build\<close> is a stream; the model
  runs it to its end or its first error, as its callers do, and collects the batches it yields. The
  concurrent decoding delivers in order (\<open>buffered\<close>), so it is a sequence of reads.

  Shown: a full rebuild and an incremental one give the same table; the batches of a stream are its
  items; the pages of the table are its rows.
\<close>

declare split_paired_All [simp del] split_paired_Ex [simp del]

section \<open>The history table\<close>

type_synonym hist_table = "hist_row list"

type_synonym 'a hist_db = "(hist_table db, op_error, 'a) io"

definition hist_clash :: "hist_row \<Rightarrow> hist_row \<Rightarrow> bool" where
  "hist_clash a b \<longleftrightarrow> hr_id a = hr_id b \<or> hr_timestamp a = hr_timestamp b \<and> hr_cwd a = hr_cwd b \<and> hr_command a = hr_command b"

definition insert_or_ignore :: "hist_row \<Rightarrow> hist_table \<Rightarrow> hist_table" where
  "insert_or_ignore w t = (if \<exists>v \<in> set t. hist_clash w v then t else t @ [w])"

definition hist_save_raw :: "History \<Rightarrow> (hist_table db, string, unit) io" where
  "hist_save_raw h = sql_exec (insert_or_ignore (bind_row h))"

definition delete_row_raw :: "string \<Rightarrow> (hist_table db, string, unit) io" where
  "delete_row_raw i = sql_exec (filter (\<lambda>w. hr_id w \<noteq> i))"

definition hist_save :: "History \<Rightarrow> unit hist_db" where
  "hist_save h = map_err DbFailed (transaction (hist_save_raw h))"

definition save_bulk :: "History list \<Rightarrow> unit hist_db" where
  "save_bulk hs = (if hs = [] then ok_io () else map_err DbFailed (transaction (for_each hist_save_raw hs)))"

definition delete_rows :: "string list \<Rightarrow> unit hist_db" where
  "delete_rows is = (if is = [] then ok_io () else map_err DbFailed (transaction (for_each delete_row_raw is)))"

definition hist_delete :: "History \<Rightarrow> unit hist_db" where
  "hist_delete h = delete_rows [hist_id h]"

definition hist_query :: "(hist_table \<Rightarrow> hist_row list) \<Rightarrow> History list hist_db" where
  "hist_query q = bind_io (map_err DbFailed (sql_query q)) (\<lambda>rows. ok_io (map hist_from_row rows))"

definition hist_load :: "string \<Rightarrow> History option hist_db" where
  "hist_load i = bind_io (hist_query (filter (\<lambda>w. hr_id w = i))) (\<lambda>hs. ok_io (case hs of [] \<Rightarrow> None | h # _ \<Rightarrow> Some h))"

definition hist_update :: "History \<Rightarrow> unit hist_db" where
  "hist_update h = map_err DbFailed (\<lambda>d.
     (case sql_query (\<lambda>t. \<exists>w \<in> set t. hr_id w = hist_id h \<and> (\<exists>v \<in> set t. hr_id v \<noteq> hist_id h \<and> hist_clash (bind_row h) v)) d of
        (Inl e, d') \<Rightarrow> (Inl e, d')
      | (Inr True, d') \<Rightarrow> (Inl ''UNIQUE constraint failed'', d')
      | (Inr False, d') \<Rightarrow> (Inr (), d'\<lparr>tables := map (\<lambda>w. if hr_id w = hist_id h then (bind_row h)\<lparr>hr_shell := hr_shell w\<rparr> else w) (tables d')\<rparr>)))"

text \<open>At most 500 ids go into one query.\<close>

function load_active :: "string list \<Rightarrow> History list hist_db" where
  "load_active is =
     (let chunk = take 500 is
      in if chunk = [] then ok_io []
         else bind_io (hist_query (filter (\<lambda>w. hr_id w \<in> set chunk \<and> hr_deleted_at w = None))) (\<lambda>rows.
              bind_io (load_active (drop 500 is)) (\<lambda>out. ok_io (rows @ out))))"
  by pat_completeness auto

termination
  by (relation "measure length") (auto simp: Let_def)

declare load_active.simps [simp del]

definition hist_range :: "int \<Rightarrow> int \<Rightarrow> History list hist_db" where
  "hist_range from_ts to_ts = hist_query (\<lambda>t. sort_key hr_timestamp
     (filter (\<lambda>w. as_i64 (as_u64 from_ts) \<le> hr_timestamp w \<and> hr_timestamp w \<le> as_i64 (as_u64 to_ts)) t))"

definition hist_last :: "History option hist_db" where
  "hist_last = bind_io (hist_query (\<lambda>t. take 1 (sort_key (\<lambda>w. - hr_timestamp w) (filter (\<lambda>w. 0 \<le> hr_duration w) t))))
     (\<lambda>hs. ok_io (case hs of [] \<Rightarrow> None | h # _ \<Rightarrow> Some h))"

definition hist_before :: "int \<Rightarrow> int \<Rightarrow> History list hist_db" where
  "hist_before ts count = hist_query (\<lambda>t.
     let rows = sort_key (\<lambda>w. - hr_timestamp w) (filter (\<lambda>w. hr_timestamp w < as_i64 (as_u64 ts)) t)
     in if count < 0 then rows else take (nat count) rows)"

definition history_count :: "bool \<Rightarrow> nat hist_db" where
  "history_count include_deleted =
     map_err DbFailed (sql_query (\<lambda>t. length (filter (\<lambda>w. include_deleted \<or> hr_deleted_at w = None) t)))"

text \<open>\<open>list\<close> without filters, duplicates included, as \<open>init_store\<close> calls it.\<close>

definition list_all_rows :: "bool \<Rightarrow> History list hist_db" where
  "list_all_rows include_deleted =
     hist_query (\<lambda>t. sort_key (\<lambda>w. - hr_timestamp w) (filter (\<lambda>w. include_deleted \<or> hr_deleted_at w = None) t))"

text \<open>The pager, with duplicates.\<close>

record Paged =
  page_size :: nat
  last_id :: "string option"
  include_deleted :: bool

definition paged_query :: "Paged \<Rightarrow> hist_table \<Rightarrow> hist_row list" where
  "paged_query P t = take (page_size P) (rev (sort_key hr_id
     (filter (\<lambda>w. (include_deleted P \<or> hr_deleted_at w = None) \<and> (case last_id P of None \<Rightarrow> True | Some l \<Rightarrow> hr_id w < l)) t)))"

definition paged_next :: "Paged \<Rightarrow> (History list option \<times> Paged) hist_db" where
  "paged_next P = bind_io (hist_query (paged_query P)) (\<lambda>res.
     ok_io (if res = [] then (None, P) else (Some res, P\<lparr>last_id := Some (hist_id (last res))\<rparr>)))"

section \<open>Records of the history\<close>

datatype HistoryRecord = HistCreate History | HistDelete string

fun hist_record_serialize :: "rmp \<Rightarrow> HistoryRecord \<Rightarrow> EncodeError + bytes" where
  "hist_record_serialize R (HistCreate h) =
     then_write (Inr (w_u8 R 0))
       (case history_serialize R h of Inl e \<Rightarrow> Inl e | Inr b \<Rightarrow> Inr (w_bin_len R (length b mod 2 ^ 32) @ b))"
| "hist_record_serialize R (HistDelete i) = then_write (Inr (w_u8 R 1)) (w_str R i)"

definition hist_record_deserialize :: "rmp \<Rightarrow> bytes \<Rightarrow> string \<Rightarrow> op_error + HistoryRecord" where
  "hist_record_deserialize R bs version =
     (case r_u8 R bs of
        (Inl e, _) \<Rightarrow> Inl (Undecodable e)
      | (Inr record_type, rest) \<Rightarrow>
          if record_type = 0 then
            (case r_bin_len R rest of
               (Inl e, _) \<Rightarrow> Inl (Undecodable e)
             | (Inr _, rest') \<Rightarrow> (case history_deserialize R rest' version of Inl e \<Rightarrow> Inl e | Inr h \<Rightarrow> Inr (HistCreate h)))
          else if record_type = 1 then
            (case read_slice R rest of
               (Inl e, _) \<Rightarrow> Inl (Undecodable e)
             | (Inr i, rest') \<Rightarrow> if rest' = [] then Inr (HistDelete i) else Inl (Malformed ''trailing bytes''))
          else Inl (Malformed ''unknown HistoryRecord type''))"

definition hist_decode :: "client \<Rightarrow> EncryptedRecord \<Rightarrow> op_error + HistoryRecord" where
  "hist_decode C r =
     (case version_from_name (version_as_str (rec_version r)) of
        None \<Rightarrow> Inl (Malformed ''unknown history version'')
      | Some _ \<Rightarrow> decrypt_then (\<lambda>bs. hist_record_deserialize (c_rmp C) bs (version_as_str (rec_version r))) (c_prims C) (c_json C) (c_key C) r)"

section \<open>The store\<close>

record hist_world =
  h_records :: store
  h_db :: "hist_table db"

type_synonym 'a hist_io = "(hist_world, op_error, 'a) io"

definition on_hist_records :: "(store, op_error, 'a) io \<Rightarrow> 'a hist_io" where
  "on_hist_records m = zoom h_records (\<lambda>s w. w\<lparr>h_records := s\<rparr>) m"

definition on_hist_db :: "'a hist_db \<Rightarrow> 'a hist_io" where
  "on_hist_db m = zoom h_db (\<lambda>s w. w\<lparr>h_db := s\<rparr>) m"

definition hist_push_record :: "client \<Rightarrow> fresh \<Rightarrow> HistoryRecord \<Rightarrow> (store, op_error, RecordId \<times> RecordIdx) io" where
  "hist_push_record C fr r =
     bind_io (lift_result (case hist_record_serialize (c_rmp C) r of Inl e \<Rightarrow> Inl (Unserializable e) | Inr b \<Rightarrow> Inr b)) (\<lambda>bs.
       append_tagged C History V2 fr bs)"

fun hist_seal_all :: "client \<Rightarrow> (nat \<Rightarrow> fresh) \<Rightarrow> RecordIdx \<Rightarrow> nat \<Rightarrow> HistoryRecord list \<Rightarrow> op_error + EncryptedRecord list" where
  "hist_seal_all C frs idx n [] = Inr []"
| "hist_seal_all C frs idx n (r # rs) =
     (case hist_record_serialize (c_rmp C) r of
        Inl e \<Rightarrow> Inl (Unserializable e)
      | Inr bs \<Rightarrow>
          (case build_sealed C History V2 (frs n) (u64_add idx n) bs of
             Inl e \<Rightarrow> Inl e
           | Inr x \<Rightarrow> (case hist_seal_all C frs idx (Suc n) rs of Inl e \<Rightarrow> Inl e | Inr xs \<Rightarrow> Inr (x # xs))))"

definition hist_push_batch :: "client \<Rightarrow> (nat \<Rightarrow> fresh) \<Rightarrow> HistoryRecord list \<Rightarrow> (store, op_error, unit) io" where
  "hist_push_batch C frs rs =
     bind_io (next_idx C History) (\<lambda>idx.
     bind_io (lift_result (hist_seal_all C frs idx 0 rs)) (\<lambda>xs. map_err StoreFailed (push_batch xs)))"

definition hist_push :: "client \<Rightarrow> fresh \<Rightarrow> History \<Rightarrow> (store, op_error, RecordId \<times> RecordIdx) io" where
  "hist_push C fr h = hist_push_record C fr (HistCreate h)"

definition hist_delete_id :: "client \<Rightarrow> fresh \<Rightarrow> string \<Rightarrow> (store, op_error, RecordId \<times> RecordIdx) io" where
  "hist_delete_id C fr i = hist_push_record C fr (HistDelete i)"

fun delete_entries :: "client \<Rightarrow> (nat \<Rightarrow> fresh) \<Rightarrow> nat \<Rightarrow> History list \<Rightarrow> (store, op_error, RecordId list) io" where
  "delete_entries C frs n [] = ok_io []"
| "delete_entries C frs n (h # hs) =
     bind_io (hist_delete_id C (frs n) (hist_id h)) (\<lambda>p.
     bind_io (delete_entries C frs (Suc n) hs) (\<lambda>is. ok_io (fst p # is)))"

definition hist_history :: "client \<Rightarrow> (store, op_error, HistoryRecord list) io" where
  "hist_history C =
     bind_io (map_err StoreFailed (all_tagged History)) (\<lambda>records.
       ok_io (List.map_filter (\<lambda>r. case hist_decode C r of Inl _ \<Rightarrow> None | Inr x \<Rightarrow> Some x) records))"

fun creates_of :: "HistoryRecord list \<Rightarrow> History list" where
  "creates_of [] = []"
| "creates_of (HistCreate h # rs) = h # creates_of rs"
| "creates_of (HistDelete i # rs) = creates_of rs"

fun deletes_of :: "HistoryRecord list \<Rightarrow> string list" where
  "deletes_of [] = []"
| "deletes_of (HistCreate h # rs) = deletes_of rs"
| "deletes_of (HistDelete i # rs) = i # deletes_of rs"

definition hist_build :: "client \<Rightarrow> unit hist_io" where
  "hist_build C =
     bind_io (on_hist_records (hist_history C)) (\<lambda>history.
     bind_io (on_hist_db (save_bulk (creates_of history))) (\<lambda>_.
       on_hist_db (delete_rows (deletes_of history))))"

text \<open>A record that is missing, of another tag or undecodable is no item of the stream.\<close>

definition hist_decode_id :: "client \<Rightarrow> RecordId \<Rightarrow> store \<Rightarrow> HistoryRecord option \<times> store" where
  "hist_decode_id C i d =
     (case store_get i d of
        (Inl _, d') \<Rightarrow> (None, d')
      | (Inr r, d') \<Rightarrow>
          ((if rec_tag r \<noteq> History then None else case hist_decode C r of Inl _ \<Rightarrow> None | Inr x \<Rightarrow> Some x), d'))"

primrec decode_ids :: "client \<Rightarrow> RecordId list \<Rightarrow> store \<Rightarrow> HistoryRecord list \<times> store" where
  "decode_ids C [] d = ([], d)"
| "decode_ids C (i # is) d =
     (case hist_decode_id C i d of (x, d') \<Rightarrow>
      case decode_ids C is d' of (xs, d'') \<Rightarrow> (case x of None \<Rightarrow> xs | Some r \<Rightarrow> r # xs, d''))"

text \<open>The chunk at the front of a stream, and all chunks.\<close>

fun take_chunk :: "nat \<Rightarrow> ('a \<Rightarrow> 'k) \<Rightarrow> 'k \<Rightarrow> 'a list \<Rightarrow> 'a list \<times> 'a list" where
  "take_chunk 0 key target xs = ([], xs)"
| "take_chunk (Suc n) key target [] = ([], [])"
| "take_chunk (Suc n) key target (x # xs) =
     (if key x = target then (case take_chunk n key target xs of (c, r) \<Rightarrow> (x # c, r)) else ([], x # xs))"

lemma take_chunk_append: "take_chunk n key k xs = (c, r) \<Longrightarrow> xs = c @ r"
  by (induction n key k xs arbitrary: c r rule: take_chunk.induct) (auto split: if_splits prod.splits)

lemma take_chunk_facts:
  "take_chunk n key k xs = (c, r) \<Longrightarrow> length c \<le> n \<and> (\<forall>x \<in> set c. key x = k)"
  by (induction n key k xs arbitrary: c r rule: take_chunk.induct) (auto split: if_splits prod.splits)

lemma take_chunk_head: "0 < n \<Longrightarrow> take_chunk n key (key x) (x # xs) = (c, r) \<Longrightarrow> c \<noteq> []"
  by (cases n) (auto split: prod.splits)

function chunk_by_bounded :: "nat \<Rightarrow> ('a \<Rightarrow> 'k) \<Rightarrow> 'a list \<Rightarrow> ('k \<times> 'a list) list" where
  "chunk_by_bounded m key [] = []"
| "chunk_by_bounded m key (x # xs) =
     (if m = 0 then []
      else (case take_chunk m key (key x) (x # xs) of (c, r) \<Rightarrow> (key x, c) # chunk_by_bounded m key r))"
  by pat_completeness auto

termination
proof (relation "measure (\<lambda>(m, key, xs). length xs)", simp_all, goal_cases)
  case (1 m key x xs c r)
  then have "c \<noteq> []" "x # xs = c @ r" using take_chunk_head [of m key x xs c r] take_chunk_append by (metis prod.sel neq0_conv)+
  then show ?case by (metis length_append length_greater_0_conv length_Cons less_add_same_cancel2)
qed

datatype HistoryRecordKind = CreateKind | DeleteKind

fun record_kind :: "HistoryRecord \<Rightarrow> HistoryRecordKind" where
  "record_kind (HistCreate _) = CreateKind"
| "record_kind (HistDelete _) = DeleteKind"

fun apply_chunk :: "HistoryRecordKind \<times> HistoryRecord list \<Rightarrow> History list hist_io" where
  "apply_chunk (CreateKind, chunk) = bind_io (on_hist_db (save_bulk (creates_of chunk))) (\<lambda>_. ok_io (creates_of chunk))"
| "apply_chunk (DeleteKind, chunk) = bind_io (on_hist_db (delete_rows (deletes_of chunk))) (\<lambda>_. ok_io [])"

primrec apply_chunks :: "(HistoryRecordKind \<times> HistoryRecord list) list \<Rightarrow> History list list hist_io" where
  "apply_chunks [] = ok_io []"
| "apply_chunks (c # cs) = bind_io (apply_chunk c) (\<lambda>h. bind_io (apply_chunks cs) (\<lambda>hs. ok_io (h # hs)))"

definition incremental_build :: "client \<Rightarrow> RecordId list \<Rightarrow> History list list hist_io" where
  "incremental_build C is w =
     (case decode_ids C is (h_records w) of (records, d) \<Rightarrow>
        apply_chunks (chunk_by_bounded 5000 record_kind records) (w\<lparr>h_records := d\<rparr>))"

definition build_all :: "client \<Rightarrow> RecordId list \<Rightarrow> unit hist_io" where
  "build_all C is = bind_io (incremental_build C is) (\<lambda>_. ok_io ())"

definition history_ids :: "client \<Rightarrow> (store, op_error, string set) io" where
  "history_ids C = bind_io (hist_history C) (\<lambda>history.
     ok_io (set (map (\<lambda>r. case r of HistCreate h \<Rightarrow> hist_id h | HistDelete i \<Rightarrow> i) history)))"

definition init_store :: "client \<Rightarrow> (nat \<Rightarrow> fresh) \<Rightarrow> unit hist_io" where
  "init_store C frs =
     bind_io (on_hist_db (list_all_rows True)) (\<lambda>history.
     bind_io (on_hist_records (history_ids C)) (\<lambda>store_ids.
       let records = map (\<lambda>i. if hist_deleted_at i \<noteq> None then HistDelete (hist_id i) else HistCreate i)
                       (filter (\<lambda>i. hist_id i \<notin> store_ids) history)
       in if records = [] then ok_io () else on_hist_records (hist_push_batch C frs records)))"

section \<open>The log\<close>

fun hist_rec_small :: "HistoryRecord \<Rightarrow> bool" where
  "hist_rec_small (HistCreate h) \<longleftrightarrow> hist_small h"
| "hist_rec_small (HistDelete i) \<longleftrightarrow> small_text i"

lemma hist_record_roundtrip:
  assumes R: "rmp_ok R" and r: "hist_rec_small r"
  shows "\<exists>b. hist_record_serialize R r = Inr b \<and> hist_record_deserialize R b ''v2'' = Inr r"
proof (cases r)
  case (HistCreate h)
  obtain body kind where b: "history_serialize R h = Inr (w_u16 R 2 @ w_array_len R 13 @ body @ kind)"
    "\<And>n rest. 13 \<le> n \<Longrightarrow> n < 2 ^ 32 \<Longrightarrow> history_read R Two (w_u16 R 2 @ w_array_len R n @ body @ kind @ rest) = (Inr h, rest)"
    by (rule history_layout [OF R]) (use r HistCreate in auto)
  show ?thesis
    using HistCreate b(1) b(2) [of 13 "[]"]
    by (simp add: then_write_def hist_record_deserialize_def rmp_okD(3,8) [OF R] history_deserialize_def version_from_name_def)
next
  case (HistDelete i)
  obtain b where "w_str R i = Inr b" "\<And>rest. read_slice R (b @ rest) = (Inr i, rest)"
    by (rule read_slice_codecE [OF R, of i]) (use r HistDelete in \<open>simp_all add: small_text_def\<close>)
  with \<open>\<And>rest. read_slice R (b @ rest) = (Inr i, rest)\<close> [of "[]"] show ?thesis
    using HistDelete by (simp add: then_write_def hist_record_deserialize_def rmp_okD(3) [OF R])
qed

interpretation hist_log: op_log "\<lambda>C. hist_record_serialize (c_rmp C)" hist_decode V2 History hist_rec_small
proof unfold_locales
  fix C :: client and x assume "rmp_ok (c_rmp C)" "hist_rec_small x"
  with hist_record_roundtrip obtain b where "hist_record_serialize (c_rmp C) x = Inr b" "hist_record_deserialize (c_rmp C) b ''v2'' = Inr x" by blast
  then show "\<exists>b. hist_record_serialize (c_rmp C) x = Inr b
      \<and> (\<forall>r y. decrypt (c_prims C) (c_json C) r (c_key C) = Inr y \<longrightarrow> rec_version r = V2 \<longrightarrow> rec_version y = V2 \<longrightarrow>
          rec_data y = b \<longrightarrow> hist_decode C r = Inr x)"
    by (auto simp: hist_decode_def decrypt_then_def version_from_name_def)
qed simp_all

abbreviation hist_ops :: "client \<Rightarrow> hist_world \<Rightarrow> HistoryRecord list" where
  "hist_ops C w \<equiv> replayed (hist_decode C) History (tables (h_records w))"

definition hist_ready :: "hist_world \<Rightarrow> bool" where
  "hist_ready w \<longleftrightarrow> healthy (h_records w) \<and> healthy (h_db w) \<and> store_inv (tables (h_records w))"

section \<open>Replaying one operation at a time\<close>

fun hist_step :: "hist_table \<Rightarrow> HistoryRecord \<Rightarrow> hist_table" where
  "hist_step t (HistCreate h) = insert_or_ignore (bind_row h) t"
| "hist_step t (HistDelete i) = filter (\<lambda>w. hr_id w \<noteq> i) t"

abbreviation insert_all :: "hist_table \<Rightarrow> History list \<Rightarrow> hist_table" where
  "insert_all t hs \<equiv> foldl (\<lambda>t h. insert_or_ignore (bind_row h) t) t hs"

abbreviation without :: "string list \<Rightarrow> hist_table \<Rightarrow> hist_table" where
  "without is t \<equiv> filter (\<lambda>w. hr_id w \<notin> set is) t"

text \<open>Rows that exclude each other are one entry, and no entry is created after it was deleted.\<close>

definition one_entry_each :: "hist_table \<Rightarrow> HistoryRecord list \<Rightarrow> bool" where
  "one_entry_each t ops \<longleftrightarrow>
     (\<forall>a \<in> set t \<union> bind_row ` set (creates_of ops). \<forall>b \<in> set t \<union> bind_row ` set (creates_of ops). hist_clash a b \<longrightarrow> hr_id a = hr_id b)"

fun never_recreated :: "HistoryRecord list \<Rightarrow> bool" where
  "never_recreated [] \<longleftrightarrow> True"
| "never_recreated (HistCreate h # ops) \<longleftrightarrow> never_recreated ops"
| "never_recreated (HistDelete i # ops) \<longleftrightarrow> i \<notin> hist_id ` set (creates_of ops) \<and> never_recreated ops"

lemma creates_of_append [simp]: "creates_of (xs @ ys) = creates_of xs @ creates_of ys"
  by (induction xs rule: creates_of.induct) auto

lemma deletes_of_append [simp]: "deletes_of (xs @ ys) = deletes_of xs @ deletes_of ys"
  by (induction xs rule: deletes_of.induct) auto

lemma never_recreated_snoc:
  "never_recreated (ops @ [x]) \<longleftrightarrow> never_recreated ops \<and> (\<forall>h. x = HistCreate h \<longrightarrow> hist_id h \<notin> set (deletes_of ops))"
  by (induction ops rule: never_recreated.induct; cases x) auto

lemma insert_all_subset: "set (insert_all t hs) \<subseteq> set t \<union> bind_row ` set hs"
  by (induction hs arbitrary: t) (fastforce simp: insert_or_ignore_def split: if_splits)+

lemma replay_creates_then_deletes:
  assumes "one_entry_each t ops" "never_recreated ops"
  shows "foldl hist_step t ops = without (deletes_of ops) (insert_all t (creates_of ops))"
  using assms
proof (induction ops rule: rev_induct)
  case (snoc x ops)
  have "set (creates_of ops) \<subseteq> set (creates_of (ops @ [x]))" by simp
  then have "one_entry_each t ops" using snoc.prems(1) unfolding one_entry_each_def by blast
  then have IH: "foldl hist_step t ops = without (deletes_of ops) (insert_all t (creates_of ops))"
    using snoc.IH snoc.prems(2) unfolding never_recreated_snoc by blast
  let ?X = "insert_all t (creates_of ops)" and ?D = "deletes_of ops"
  show ?case
  proof (cases x)
    case (HistDelete i)
    then have "foldl hist_step t (ops @ [x]) = filter (\<lambda>w. hr_id w \<noteq> i) (without ?D ?X)" by (simp only: foldl_append foldl.simps hist_step.simps IH)
    also have "\<dots> = without (?D @ [i]) ?X" by (auto simp: filter_filter intro!: filter_cong)
    finally show ?thesis using HistDelete by simp
  next
    case (HistCreate h)
    then have new: "hist_id h \<notin> set ?D" using snoc.prems(2) by (simp add: never_recreated_snoc)
    have id: "hr_id (bind_row h) = hist_id h" by (simp add: bind_row_def)
    have same: "hr_id v = hist_id h" if "v \<in> set ?X" "hist_clash (bind_row h) v" for v
    proof -
      have "v \<in> set t \<union> bind_row ` set (creates_of (ops @ [x]))" using that(1) insert_all_subset [of t "creates_of ops"] by auto
      moreover have "bind_row h \<in> set t \<union> bind_row ` set (creates_of (ops @ [x]))" using HistCreate by simp
      ultimately have "hr_id (bind_row h) = hr_id v" using snoc.prems(1) that(2) unfolding one_entry_each_def by blast
      with id show ?thesis by simp
    qed
    then have "(\<exists>v \<in> set (without ?D ?X). hist_clash (bind_row h) v) \<longleftrightarrow> (\<exists>v \<in> set ?X. hist_clash (bind_row h) v)"
      using new by auto
    then have "insert_or_ignore (bind_row h) (without ?D ?X) = without ?D (insert_or_ignore (bind_row h) ?X)"
      unfolding insert_or_ignore_def using new id by simp
    moreover have "foldl hist_step t (ops @ [x]) = insert_or_ignore (bind_row h) (without ?D ?X)" by (simp only: foldl_append foldl.simps HistCreate hist_step.simps IH)
    ultimately show ?thesis using HistCreate by simp
  qed
qed simp

section \<open>The writes without faults\<close>

lemma for_each_sql_healthy:
  "healthy d \<Longrightarrow> for_each (\<lambda>x. sql_exec (f x)) xs d = (Inr (), d\<lparr>tables := foldl (\<lambda>t x. f x t) (tables d) xs\<rparr>)"
  by (induction xs arbitrary: d) (simp_all add: bind_io_def sql_exec_healthy)

lemma filter_foldl: "foldl (\<lambda>t i. filter (\<lambda>w. hr_id w \<noteq> i) t) t is = without is t"
  by (induction "is" arbitrary: t) (auto intro: filter_cong)

lemma save_bulk_healthy: "healthy d \<Longrightarrow> save_bulk hs d = (Inr (), d\<lparr>tables := insert_all (tables d) hs\<rparr>)"
  using for_each_sql_healthy [of d "\<lambda>h. insert_or_ignore (bind_row h)" hs]
  by (simp add: save_bulk_def map_err_def transaction_healthy hist_save_raw_def [abs_def])

lemma delete_rows_healthy: "healthy d \<Longrightarrow> delete_rows is d = (Inr (), d\<lparr>tables := without is (tables d)\<rparr>)"
  using for_each_sql_healthy [of d "\<lambda>i. filter (\<lambda>w. hr_id w \<noteq> i)" "is"]
  by (simp add: delete_rows_def map_err_def transaction_healthy delete_row_raw_def [abs_def] filter_foldl)

section \<open>The incremental build\<close>

lemma concat_chunks: "0 < m \<Longrightarrow> concat (map snd (chunk_by_bounded m key xs)) = xs"
proof (induction m key xs rule: chunk_by_bounded.induct)
  case (2 m key x xs)
  obtain c r where cr: "take_chunk m key (key x) (x # xs) = (c, r)" by (cases "take_chunk m key (key x) (x # xs)")
  then have "concat (map snd (chunk_by_bounded m key (x # xs))) = c @ r" using 2 by (simp del: take_chunk.simps)
  with take_chunk_append [OF cr] show ?case by simp
qed simp

lemma chunk_facts:
  "(k, c) \<in> set (chunk_by_bounded m key xs) \<Longrightarrow> length c \<le> m \<and> (\<forall>x \<in> set c. key x = k)"
proof (induction m key xs rule: chunk_by_bounded.induct)
  case (2 m key x xs)
  obtain c' r where cr: "take_chunk m key (key x) (x # xs) = (c', r)" by (cases "take_chunk m key (key x) (x # xs)")
  from 2 cr take_chunk_facts [OF cr] show ?case by (auto simp del: take_chunk.simps split: if_splits)
qed simp

lemma creates_only: "\<forall>r \<in> set rs. record_kind r = CreateKind \<Longrightarrow> foldl hist_step t rs = insert_all t (creates_of rs)"
  by (induction rs arbitrary: t rule: creates_of.induct) auto

lemma deletes_only: "\<forall>r \<in> set rs. record_kind r = DeleteKind \<Longrightarrow> foldl hist_step t rs = without (deletes_of rs) t \<and> creates_of rs = []"
proof (induction rs arbitrary: t rule: deletes_of.induct)
  case (3 i rs)
  then show ?case by (auto intro!: filter_cong)
qed auto

lemma apply_chunk_healthy:
  assumes "healthy (h_db w)" "\<forall>r \<in> set c. record_kind r = k"
  shows "apply_chunk (k, c) w = (Inr (creates_of c), w\<lparr>h_db := (h_db w)\<lparr>tables := foldl hist_step (tables (h_db w)) c\<rparr>\<rparr>)"
  using assms creates_only [of c] deletes_only [of c]
  by (cases k) (simp_all add: bind_io_def on_hist_db_def zoom_def save_bulk_healthy delete_rows_healthy)

lemma apply_chunks_healthy:
  assumes "healthy (h_db w)" "\<forall>kc \<in> set cs. \<forall>r \<in> set (snd kc). record_kind r = fst kc"
  shows "apply_chunks cs w = (Inr (map (\<lambda>kc. creates_of (snd kc)) cs),
    w\<lparr>h_db := (h_db w)\<lparr>tables := foldl hist_step (tables (h_db w)) (concat (map snd cs))\<rparr>\<rparr>)"
  using assms
proof (induction cs arbitrary: w)
  case (Cons kc cs)
  note step = apply_chunk_healthy [OF Cons.prems(1), of "snd kc" "fst kc", unfolded prod.collapse]
  have run: "apply_chunk kc w = (Inr (creates_of (snd kc)), w\<lparr>h_db := (h_db w)\<lparr>tables := foldl hist_step (tables (h_db w)) (snd kc)\<rparr>\<rparr>)"
    by (rule step) (use Cons.prems(2) in simp)
  have "healthy (h_db (w\<lparr>h_db := (h_db w)\<lparr>tables := foldl hist_step (tables (h_db w)) (snd kc)\<rparr>\<rparr>))"
    using Cons.prems(1) by simp
  from Cons.IH [OF this] Cons.prems(2) run show ?case by (simp add: bind_io_def)
qed simp

lemma filter_key_unique: "distinct (map f xs) \<Longrightarrow> x \<in> set xs \<Longrightarrow> filter (\<lambda>y. f y = f x) xs = [x]"
proof (induction xs)
  case (Cons y ys)
  show ?case
  proof (cases "x = y")
    case True
    with Cons.prems(1) have "f x \<notin> f ` set ys" by simp
    then have "filter (\<lambda>y. f y = f x) ys = []" by (auto simp: filter_empty_conv image_iff)
    with True show ?thesis by simp
  next
    case False
    with Cons show ?thesis by force
  qed
qed simp

lemma decode_ids_rows:
  assumes "healthy d" "distinct (map row_id (tables d))" "set ws \<subseteq> set (tables d)" "\<forall>w \<in> set ws. row_tag w = tag_as_str History"
  shows "decode_ids C (map row_id ws) d = (List.map_filter (\<lambda>w. case hist_decode C (from_row w) of Inl _ \<Rightarrow> None | Inr x \<Rightarrow> Some x) ws, d)"
  using assms(3,4)
proof (induction ws)
  case (Cons w ws)
  have "filter (\<lambda>v. row_id v = row_id w) (tables d) = [w]"
    using Cons.prems(1) assms(2) by (intro filter_key_unique) auto
  then have get: "store_get (row_id w) d = (Inr (from_row w), d)" using assms(1) by (simp add: store_get_healthy)
  have "rec_tag (from_row w) = History" using Cons.prems(2) by (simp add: from_row_def tag_from_def)
  with get have "hist_decode_id C (row_id w) d = (case hist_decode C (from_row w) of Inl _ \<Rightarrow> None | Inr x \<Rightarrow> Some x, d)"
    by (simp add: hist_decode_id_def)
  with Cons show ?case by (simp add: map_filter_def split: sum.splits)
qed (simp add: map_filter_def)

section \<open>Paging\<close>

text \<open>The pages until the first empty one, at most \<open>n\<close> of them; \<open>None\<close> if more are left.\<close>

primrec paged_all :: "nat \<Rightarrow> Paged \<Rightarrow> History list list option hist_db" where
  "paged_all 0 P = ok_io None"
| "paged_all (Suc n) P = bind_io (paged_next P) (\<lambda>r.
     case fst r of
       None \<Rightarrow> ok_io (Some [])
     | Some page \<Rightarrow> bind_io (paged_all n (snd r)) (\<lambda>rest. ok_io (map_option (Cons page) rest)))"

definition paged_left :: "Paged \<Rightarrow> hist_table \<Rightarrow> hist_row list" where
  "paged_left P t = rev (sort_key hr_id
     (filter (\<lambda>w. (include_deleted P \<or> hr_deleted_at w = None) \<and> (case last_id P of None \<Rightarrow> True | Some l \<Rightarrow> hr_id w < l)) t))"

lemma filter_below:
  assumes "sorted_wrt (\<lambda>a b. hr_id b < hr_id a) (xs @ ys)" "xs \<noteq> []"
  shows "filter (\<lambda>w. hr_id w < hr_id (last xs)) (xs @ ys) = ys"
proof -
  have "\<forall>y \<in> set ys. hr_id y < hr_id (last xs)" using assms by (auto simp: sorted_wrt_append)
  moreover have "\<not> hr_id x < hr_id (last xs)" if x: "x \<in> set xs" for x
  proof -
    from assms(2) have "xs = butlast xs @ [last xs]" by simp
    then have "sorted_wrt (\<lambda>a b. hr_id b < hr_id a) (butlast xs @ [last xs])" "x \<in> set (butlast xs) \<or> x = last xs"
      using assms(1) x by (metis sorted_wrt_append, metis Un_iff empty_iff insert_iff list.set set_append)
    then show ?thesis by (auto simp: sorted_wrt_append)
  qed
  ultimately show ?thesis by (auto simp: filter_id_conv filter_empty_conv)
qed

lemma paged_left_step:
  assumes "sorted_wrt (\<lambda>a b. hr_id b < hr_id a) (paged_left P t)" "paged_left P t \<noteq> []" "0 < page_size P"
  shows "paged_left (P\<lparr>last_id := Some (hr_id (last (take (page_size P) (paged_left P t))))\<rparr>) t = drop (page_size P) (paged_left P t)"
proof -
  let ?L = "paged_left P t" and ?n = "page_size P"
  let ?l = "hr_id (last (take ?n ?L))"
  have "take ?n ?L \<noteq> []" using assms(2,3) by simp
  then have "last (take ?n ?L) \<in> set ?L" by (metis in_set_takeD last_in_set)
  then have bound: "case last_id P of None \<Rightarrow> True | Some l \<Rightarrow> ?l < l" by (auto simp: paged_left_def split: option.splits)
  have "paged_left (P\<lparr>last_id := Some ?l\<rparr>) t = filter (\<lambda>w. hr_id w < ?l) ?L"
    unfolding paged_left_def rev_filter [symmetric] filter_sort filter_filter
    using bound by (intro arg_cong [where f = rev] arg_cong [where f = "sort_key hr_id"] filter_cong) (auto simp: paged_left_def split: option.splits)
  also have "\<dots> = drop ?n ?L"
    using filter_below [of "take ?n ?L" "drop ?n ?L"] assms \<open>take ?n ?L \<noteq> []\<close> by simp
  finally show ?thesis .
qed

lemma paged_next_healthy:
  assumes "healthy d"
  shows "paged_next P d = (Inr (let page = take (page_size P) (paged_left P (tables d)) in
     if page = [] then (None, P) else (Some (map hist_from_row page), P\<lparr>last_id := Some (hr_id (last page))\<rparr>)), d)"
proof -
  have "hist_id (hist_from_row w) = hr_id w" for w by (simp add: hist_from_row_def Let_def)
  then show ?thesis
    using assms by (auto simp: paged_next_def hist_query_def bind_io_def map_err_def sql_query_healthy paged_query_def paged_left_def [symmetric] Let_def last_map)
qed

lemma paged_all_left:
  assumes "healthy d" "0 < page_size P" "sorted_wrt (\<lambda>a b. hr_id b < hr_id a) (paged_left P (tables d))" "length (paged_left P (tables d)) < n"
  shows "\<exists>pages. paged_all n P d = (Inr (Some pages), d) \<and> concat pages = map hist_from_row (paged_left P (tables d))
    \<and> (\<forall>p \<in> set pages. p \<noteq> [] \<and> length p \<le> page_size P)"
  using assms(2-)
proof (induction n arbitrary: P)
  case (Suc n)
  let ?L = "paged_left P (tables d)"
  define page where "page = take (page_size P) ?L"
  show ?case
  proof (cases "?L = []")
    case True
    with paged_next_healthy [OF assms(1), of P] show ?thesis by (simp add: bind_io_def)
  next
    case False
    define P' where "P' = P\<lparr>last_id := Some (hr_id (last page))\<rparr>"
    have page: "page \<noteq> []" using False Suc.prems(1) by (simp add: page_def)
    have left: "paged_left P' (tables d) = drop (page_size P) ?L"
      unfolding P'_def page_def by (rule paged_left_step [OF Suc.prems(2) False Suc.prems(1)])
    have size: "page_size P' = page_size P" by (simp add: P'_def)
    have "length (drop (page_size P) ?L) < n" using Suc.prems(1,3) False by (cases ?L) auto
    then obtain pages where rest: "paged_all n P' d = (Inr (Some pages), d)" "concat pages = map hist_from_row (drop (page_size P) ?L)"
        "\<forall>p \<in> set pages. p \<noteq> [] \<and> length p \<le> page_size P"
      using Suc.IH [of P'] Suc.prems(1,2) left size by (auto intro: sorted_wrt_drop)
    have "paged_next P d = (Inr (Some (map hist_from_row page), P'), d)"
      using paged_next_healthy [OF assms(1), of P] page by (simp add: page_def [symmetric] P'_def)
    with rest have "paged_all (Suc n) P d = (Inr (Some (map hist_from_row page # pages)), d)" by (simp add: bind_io_def)
    moreover have "concat (map hist_from_row page # pages) = map hist_from_row ?L"
      using rest(2) by (simp add: page_def map_append [symmetric] del: map_append)
    moreover have "length page \<le> page_size P" by (simp add: page_def)
    ultimately show ?thesis using rest(3) page by (intro exI [of _ "map hist_from_row page # pages"]) simp
  qed
qed simp

section \<open>Properties\<close>

text \<open>
  C24: a full rebuild of the history table, which inserts all created entries and then deletes all
  deleted ones, and the incremental build from the same records, which works through them in order
  in batches of one kind and at most 5000, succeed and end with the same table, that of applying
  the records one by one; the incremental build yields exactly the created entries, in order. It
  holds when an entry is never created again after it was deleted and rows that exclude each other
  are the same entry.
\<close>

theorem history_builds_agree:
  assumes "hist_ready w" "one_entry_each (tables (h_db w)) (hist_ops C w)" "never_recreated (hist_ops C w)"
  shows "\<exists>w' batches. hist_build C w = (Inr (), w') \<and> build_all C (map row_id (tagged_rows History (tables (h_records w)))) w = (Inr (), w')
    \<and> incremental_build C (map row_id (tagged_rows History (tables (h_records w)))) w = (Inr batches, w')
    \<and> tables (h_db w') = foldl hist_step (tables (h_db w)) (hist_ops C w) \<and> h_records w' = h_records w
    \<and> concat batches = creates_of (hist_ops C w) \<and> (\<forall>b \<in> set batches. length b \<le> 5000)"
proof -
  let ?ws = "tagged_rows History (tables (h_records w))" and ?ops = "hist_ops C w" and ?t = "tables (h_db w)"
  let ?w = "w\<lparr>h_db := (h_db w)\<lparr>tables := foldl hist_step ?t ?ops\<rparr>\<rparr>" and ?cs = "chunk_by_bounded 5000 record_kind ?ops"
  have h: "healthy (h_records w)" "healthy (h_db w)" "distinct (map row_id (tables (h_records w)))"
    using assms(1) by (simp_all add: hist_ready_def store_inv_def)
  have "List.map_filter (\<lambda>r. case hist_decode C r of Inl _ \<Rightarrow> None | Inr x \<Rightarrow> Some x) (map from_row ?ws) = ?ops"
    by (simp add: replayed_def map_filter_def filter_map comp_def)
  then have "on_hist_records (hist_history C) w = (Inr ?ops, w)"
    using h(1) by (simp add: on_hist_records_def zoom_def hist_history_def bind_io_def map_err_def all_tagged_rows)
  then have full: "hist_build C w = (Inr (), ?w)"
    using h(2) replay_creates_then_deletes [OF assms(2,3)]
    by (simp add: hist_build_def bind_io_def on_hist_db_def zoom_def save_bulk_healthy delete_rows_healthy)
  have "set ?ws \<subseteq> set (tables (h_records w))" "\<forall>w \<in> set ?ws. row_tag w = tag_as_str History" by (auto simp: tagged_rows_def)
  then have dec: "decode_ids C (map row_id ?ws) (h_records w) = (?ops, h_records w)"
    using decode_ids_rows [OF h(1,3), of ?ws C] by (simp add: replayed_def)
  have kinds: "\<forall>kc \<in> set ?cs. \<forall>r \<in> set (snd kc). record_kind r = fst kc"
    using chunk_facts [of _ _ 5000 record_kind ?ops] by (metis prod.collapse)
  have inc: "incremental_build C (map row_id ?ws) w = (Inr (map (\<lambda>kc. creates_of (snd kc)) ?cs), ?w)"
    using apply_chunks_healthy [OF h(2) kinds] dec by (simp add: incremental_build_def concat_chunks)
  have "creates_of (concat xss) = concat (map creates_of xss)" for xss by (induction xss) simp_all
  then have "concat (map (\<lambda>kc. creates_of (snd kc)) ?cs) = creates_of ?ops"
    using concat_chunks [of 5000 record_kind ?ops] by (metis (no_types, lifting) comp_apply map_eq_conv map_map zero_less_numeral)
  moreover have short: "length (creates_of rs) \<le> length rs" for rs by (induction rs rule: creates_of.induct) auto
  then have "\<forall>b \<in> set (map (\<lambda>kc. creates_of (snd kc)) ?cs). length b \<le> 5000"
    using chunk_facts [of _ _ 5000 record_kind ?ops] by (auto intro: order_trans [OF short])
  ultimately show ?thesis using full inc by (auto simp: build_all_def bind_io_def)
qed

definition empty_hist :: hist_world where
  "empty_hist = \<lparr>h_records = empty_store, h_db = \<lparr>tables = [], faults = []\<rparr>\<rparr>"

theorem history_builds_agree_witness:
  "\<exists>w w'. hist_ops clear_client w = [HistCreate example_entry] \<and> hist_build clear_client w = (Inr (), w') \<and> tables (h_db w') = [bind_row example_entry]"
proof -
  have d: "healthy empty_store" "tables empty_store = []" by (simp_all add: empty_store_def)
  have "fits clear_client History (fresh_at 1) (tables empty_store)" "hist_rec_small (HistCreate example_entry)"
    using clear_client_ok(2) d(2) example_entry_small by simp_all
  from hist_log.append_op [OF d(1) this(1) clear_client_ok(1) this(2)]
  obtain row where row': "replayed (hist_decode clear_client) History (tables empty_store @ [row])
      = replayed (hist_decode clear_client) History (tables empty_store) @ [HistCreate example_entry]" "store_inv (tables empty_store @ [row])"
    by metis
  have "replayed (hist_decode clear_client) History [] = []" by (simp add: replayed_def tagged_rows_def map_filter_def)
  with row' have row: "replayed (hist_decode clear_client) History [row] = [HistCreate example_entry]" "store_inv [row]"
    unfolding d(2) by simp_all
  let ?w = "empty_hist\<lparr>h_records := empty_store\<lparr>tables := [row]\<rparr>\<rparr>"
  have ops: "hist_ops clear_client ?w = [HistCreate example_entry]" using row(1) by simp
  have "hist_ready ?w" using row(2) d(1) by (simp add: hist_ready_def empty_hist_def)
  moreover have "tables (h_db ?w) = []" by (simp add: empty_hist_def)
  moreover have "one_entry_each [] [HistCreate example_entry]" "never_recreated [HistCreate example_entry]" by (simp_all add: one_entry_each_def)
  ultimately obtain w' where "hist_build clear_client ?w = (Inr (), w')" "tables (h_db w') = foldl hist_step [] [HistCreate example_entry]"
    using history_builds_agree [of ?w clear_client] unfolding ops by metis
  with ops show ?thesis by (intro exI [of _ ?w] exI [of _ w']) (simp add: insert_or_ignore_def)
qed

text \<open>
  the pager ends and its pages, none of them empty or longer than the page size, are together
  all live entries (or all entries, if deleted ones are asked for), each once, newest id first.
\<close>

theorem paged_covers:
  assumes "healthy d" "distinct (map hr_id (tables d))" "0 < n" "length (tables d) < fuel"
  shows "\<exists>pages. paged_all fuel \<lparr>page_size = n, last_id = None, include_deleted = del\<rparr> d = (Inr (Some pages), d)
    \<and> concat pages = map hist_from_row (rev (sort_key hr_id (filter (\<lambda>w. del \<or> hr_deleted_at w = None) (tables d))))
    \<and> (\<forall>p \<in> set pages. p \<noteq> [] \<and> length p \<le> n)"
proof -
  let ?P = "\<lparr>page_size = n, last_id = None, include_deleted = del\<rparr>" and ?rows = "filter (\<lambda>w. del \<or> hr_deleted_at w = None) (tables d)"
  have left: "paged_left ?P (tables d) = rev (sort_key hr_id ?rows)" by (simp add: paged_left_def)
  have "distinct (map hr_id ?rows)" using assms(2) by (simp add: distinct_map_filter)
  then have "distinct (map hr_id (sort_key hr_id ?rows))" unfolding distinct_map distinct_sort set_sort .
  then have "sorted_wrt (<) (map hr_id (sort_key hr_id ?rows))" unfolding strict_sorted_iff by (simp only: sorted_sort_key simp_thms)
  then have "sorted_wrt (\<lambda>a b. hr_id b < hr_id a) (paged_left ?P (tables d))" unfolding left sorted_wrt_rev by (simp add: sorted_wrt_map)
  moreover have "length (paged_left ?P (tables d)) \<le> length (tables d)" unfolding left by (simp only: length_rev length_sort length_filter_le)
  ultimately have "\<exists>pages. paged_all fuel ?P d = (Inr (Some pages), d) \<and> concat pages = map hist_from_row (paged_left ?P (tables d))
      \<and> (\<forall>p \<in> set pages. p \<noteq> [] \<and> length p \<le> page_size ?P)"
    using assms(3,4) by (intro paged_all_left [OF assms(1)]) (simp_all only: Paged.select_convs order.strict_trans1)
  then show ?thesis unfolding left by (simp only: Paged.select_convs)
qed

theorem paged_covers_witness:
  "\<exists>pages. paged_all 2 \<lparr>page_size = 1, last_id = None, include_deleted = False\<rparr> \<lparr>tables = [bind_row example_entry], faults = []\<rparr>
      = (Inr (Some pages), \<lparr>tables = [bind_row example_entry], faults = []\<rparr>) \<and> concat pages = [hist_from_row (bind_row example_entry)]"
  using paged_covers [of "\<lparr>tables = [bind_row example_entry], faults = []\<rparr>" 1 2 False]
  by (auto simp: bind_row_def example_entry_def)

end
