(* ===== verification/Ai_Tools.thy ===== *)
theory Ai_Tools
  imports History_Entry
begin

text \<open>
  The tools a model may call: \<open>atuin-ai/src/tools/mod.rs\<close> (parsing of a call, its permission rule,
  the text of an outcome) and \<open>tools/descriptor.rs\<close>, and the permission rules of
  \<open>permissions/rule.rs\<close>.

  JSON is the datatype of its values; a number is an integer or something else. Expanding a tilde
  and parsing a uuid are third-party code and arguments, as is the current directory, which may be
  unavailable. The path operations are those of a POSIX system.
\<close>

section \<open>JSON and numbers\<close>

datatype json =
    JNull
  | JBool bool
  | JInt int
  | JFloat string
  | JStr string
  | JArr "json list"
  | JObj "(string \<times> json) list"

definition j_get :: "string \<Rightarrow> json \<Rightarrow> json option" where
  "j_get k j = (case j of JObj kvs \<Rightarrow> map_of kvs k | _ \<Rightarrow> None)"

definition as_str :: "json \<Rightarrow> string option" where
  "as_str j = (case j of JStr s \<Rightarrow> Some s | _ \<Rightarrow> None)"

definition as_bool :: "json \<Rightarrow> bool option" where
  "as_bool j = (case j of JBool b \<Rightarrow> Some b | _ \<Rightarrow> None)"

definition as_array :: "json \<Rightarrow> json list option" where
  "as_array j = (case j of JArr xs \<Rightarrow> Some xs | _ \<Rightarrow> None)"

definition json_u64 :: "json \<Rightarrow> nat option" where
  "json_u64 j = (case j of JInt n \<Rightarrow> if 0 \<le> n \<and> n < 2 ^ 64 then Some (nat n) else None | _ \<Rightarrow> None)"

definition json_i64 :: "json \<Rightarrow> int option" where
  "json_i64 j = (case j of JInt n \<Rightarrow> if - (2 ^ 63) \<le> n \<and> n < 2 ^ 63 then Some n else None | _ \<Rightarrow> None)"

definition str_field :: "string \<Rightarrow> json \<Rightarrow> string option" where
  "str_field k j = Option.bind (j_get k j) as_str"

definition bool_field :: "string \<Rightarrow> json \<Rightarrow> bool option" where
  "bool_field k j = Option.bind (j_get k j) as_bool"

definition u64_field :: "string \<Rightarrow> json \<Rightarrow> nat option" where
  "u64_field k j = Option.bind (j_get k j) json_u64"

definition ok_or :: "string \<Rightarrow> 'a option \<Rightarrow> string + 'a" where
  "ok_or e v = (case v of None \<Rightarrow> Inl e | Some x \<Rightarrow> Inr x)"

definition bind_r :: "string + 'a \<Rightarrow> ('a \<Rightarrow> string + 'b) \<Rightarrow> string + 'b" where
  "bind_r r f = (case r of Inl e \<Rightarrow> Inl e | Inr x \<Rightarrow> f x)"

fun collect_r :: "(string + 'a) list \<Rightarrow> string + 'a list" where
  "collect_r [] = Inr []"
| "collect_r (r # rs) = bind_r r (\<lambda>x. bind_r (collect_r rs) (\<lambda>xs. Inr (x # xs)))"

section \<open>Calls\<close>

record ai_env =
  tilde :: "string \<Rightarrow> string"
  current_dir :: "string option"
  uuid_parse :: "string \<Rightarrow> nat option"

record ReadToolCall =
  read_path :: string
  read_offset :: nat
  read_limit :: nat

record EditToolCall =
  edit_path :: string
  old_string :: string
  new_string :: string
  replace_all :: bool

record WriteToolCall =
  write_path :: string
  write_content :: string
  write_overwrite :: bool

record ShellToolCall =
  shell_dir :: "string option"
  shell_command :: string
  shell_name :: string
  timeout_secs :: nat
  shell_description :: "string option"

datatype HistorySearchFilterMode = FGlobal | FHost | FSession | FDirectory | FWorkspace

record AtuinHistoryToolCall =
  filter_modes :: "HistorySearchFilterMode list"
  search_query :: string
  search_limit :: int
  only_failed :: bool
  search_authors :: "AuthorPattern list"

record AtuinOutputToolCall =
  output_history_id :: nat
  output_ranges :: "(int \<times> int) list"
  output_command :: "string option"

datatype ClientToolCall =
    Read ReadToolCall
  | Edit EditToolCall
  | Write WriteToolCall
  | Shell ShellToolCall
  | AtuinHistory AtuinHistoryToolCall
  | AtuinOutput AtuinOutputToolCall
  | LoadSkill string

definition read_try_from :: "ai_env \<Rightarrow> json \<Rightarrow> string + ReadToolCall" where
  "read_try_from E v =
     bind_r (ok_or ''Missing path'' (str_field ''file_path'' v)) (\<lambda>path.
       Inr \<lparr>read_path = tilde E path, read_offset = unwrap_or (u64_field ''offset'' v) 0, read_limit = min (unwrap_or (u64_field ''limit'' v) 100) 1000\<rparr>)"

definition edit_try_from :: "ai_env \<Rightarrow> json \<Rightarrow> string + EditToolCall" where
  "edit_try_from E v =
     bind_r (ok_or ''Missing file_path'' (str_field ''file_path'' v)) (\<lambda>path.
     bind_r (ok_or ''Missing old_string'' (str_field ''old_string'' v)) (\<lambda>old.
     bind_r (ok_or ''Missing new_string'' (str_field ''new_string'' v)) (\<lambda>new.
       Inr \<lparr>edit_path = tilde E path, old_string = old, new_string = new, replace_all = unwrap_or (bool_field ''replace_all'' v) False\<rparr>)))"

definition write_try_from :: "ai_env \<Rightarrow> json \<Rightarrow> string + WriteToolCall" where
  "write_try_from E v =
     bind_r (ok_or ''Missing file_path'' (str_field ''file_path'' v)) (\<lambda>path.
     bind_r (ok_or ''Missing content'' (str_field ''content'' v)) (\<lambda>content.
       Inr \<lparr>write_path = tilde E path, write_content = content, write_overwrite = unwrap_or (bool_field ''overwrite'' v) False\<rparr>))"

definition shell_try_from :: "ai_env \<Rightarrow> json \<Rightarrow> string + ShellToolCall" where
  "shell_try_from E v =
     bind_r (ok_or ''Missing command'' (str_field ''command'' v)) (\<lambda>command.
       Inr \<lparr>shell_dir = map_option (tilde E) (str_field ''dir'' v), shell_command = command, shell_name = unwrap_or (str_field ''shell'' v) ''bash'',
            timeout_secs = min (case u64_field ''timeout'' v of Some t \<Rightarrow> if t > 0 then t else 30 | None \<Rightarrow> 30) 600,
            shell_description = str_field ''description'' v\<rparr>)"

definition filter_mode_from :: "json \<Rightarrow> string + HistorySearchFilterMode" where
  "filter_mode_from v =
     bind_r (ok_or ''Invalid filter mode'' (as_str v)) (\<lambda>mode.
       if mode = ''global'' then Inr FGlobal else if mode = ''host'' then Inr FHost else if mode = ''session'' then Inr FSession
       else if mode = ''directory'' then Inr FDirectory else if mode = ''workspace'' then Inr FWorkspace
       else Inl (''Invalid filter mode: '' @ mode))"

fun pattern_key :: "AuthorPattern \<Rightarrow> nat \<times> string" where
  "pattern_key AllUser = (0, [])"
| "pattern_key AllAgent = (1, [])"
| "pattern_key (AuthorName s) = (2, s)"

text \<open>\<open>OrFilter::from_list\<close>: sorted, without duplicates; the empty list filters nothing.\<close>

definition author_filter :: "AuthorPattern list \<Rightarrow> AuthorPattern list" where
  "author_filter ps = remdups (sort_key (fst \<circ> pattern_key) (sort_key (snd \<circ> pattern_key) ps))"

definition history_try_from :: "json \<Rightarrow> string + AtuinHistoryToolCall" where
  "history_try_from v =
     bind_r (ok_or ''Missing filter_modes'' (Option.bind (j_get ''filter_modes'' v) as_array)) (\<lambda>modes.
     bind_r (collect_r (map filter_mode_from modes)) (\<lambda>modes.
     bind_r (ok_or ''Missing query'' (str_field ''query'' v)) (\<lambda>query.
     bind_r (case j_get ''authors'' v of
               Some authors \<Rightarrow>
                 bind_r (ok_or ''authors must be an array of strings'' (as_array authors)) (\<lambda>as.
                   collect_r (map (\<lambda>a. bind_r (ok_or ''authors entries must be strings'' (as_str a)) (\<lambda>s. Inr (author_pattern s))) as))
             | None \<Rightarrow> Inr []) (\<lambda>authors.
       Inr \<lparr>filter_modes = modes, search_query = query,
            search_limit = max 1 (min 50 (unwrap_or (Option.bind (j_get ''limit'' v) json_i64) 10)),
            only_failed = unwrap_or (bool_field ''only_failed'' v) False, search_authors = author_filter authors\<rparr>))))"

definition range_from :: "json \<Rightarrow> string + int \<times> int" where
  "range_from r =
     bind_r (ok_or ''Each range must be a [start, end] array''
       (case as_array r of Some [a, b] \<Rightarrow> Some (a, b) | _ \<Rightarrow> None)) (\<lambda>ab.
     bind_r (ok_or ''Range start must be an integer'' (json_i64 (fst ab))) (\<lambda>s.
     bind_r (ok_or ''Range end must be an integer'' (json_i64 (snd ab))) (\<lambda>e. Inr (s, e))))"

definition output_try_from :: "ai_env \<Rightarrow> json \<Rightarrow> string + AtuinOutputToolCall" where
  "output_try_from E v =
     bind_r (ok_or ''Missing or invalid history ID'' (Option.bind (str_field ''history_id'' v) (uuid_parse E))) (\<lambda>i.
     bind_r (collect_r (map range_from (unwrap_or (Option.bind (j_get ''ranges'' v) as_array) []))) (\<lambda>rs.
       Inr \<lparr>output_history_id = i, output_ranges = rs, output_command = None\<rparr>))"

definition skill_try_from :: "json \<Rightarrow> string + string" where
  "skill_try_from v = ok_or ''Missing skill name'' (str_field ''name'' v)"

definition tool_try_from :: "ai_env \<Rightarrow> string \<Rightarrow> json \<Rightarrow> string + ClientToolCall" where
  "tool_try_from E name v =
     (if name = ''read_file'' then bind_r (read_try_from E v) (\<lambda>c. Inr (Read c))
      else if name = ''edit_file'' then bind_r (edit_try_from E v) (\<lambda>c. Inr (Edit c))
      else if name = ''write_file'' then bind_r (write_try_from E v) (\<lambda>c. Inr (Write c))
      else if name = ''execute_shell_command'' then bind_r (shell_try_from E v) (\<lambda>c. Inr (Shell c))
      else if name = ''atuin_history'' then bind_r (history_try_from v) (\<lambda>c. Inr (AtuinHistory c))
      else if name = ''atuin_output'' then bind_r (output_try_from E v) (\<lambda>c. Inr (AtuinOutput c))
      else if name = ''load_skill'' then bind_r (skill_try_from v) (\<lambda>c. Inr (LoadSkill c))
      else Inl (''Unknown tool call: '' @ name))"

text \<open>The descriptors, \<open>descriptor.rs\<close>.\<close>

record ToolDescriptor =
  canonical_names :: "string list"
  capability :: "string option"
  display_verb :: string
  progressive_verb :: string
  past_verb :: string
  is_client :: bool

definition D_READ :: ToolDescriptor where
  "D_READ = \<lparr>canonical_names = [''read_file''], capability = Some ''client_v1_read_file'',
     display_verb = ''read'', progressive_verb = ''Reading file...'', past_verb = ''Read file'', is_client = True\<rparr>"

definition D_EDIT :: ToolDescriptor where
  "D_EDIT = \<lparr>canonical_names = [''edit_file''], capability = Some ''client_v1_edit_file'',
     display_verb = ''edit'', progressive_verb = ''Editing file...'', past_verb = ''Edited file'', is_client = True\<rparr>"

definition D_WRITE :: ToolDescriptor where
  "D_WRITE = \<lparr>canonical_names = [''write_file''], capability = Some ''client_v1_write_file'',
     display_verb = ''write to'', progressive_verb = ''Writing file...'', past_verb = ''Wrote file'', is_client = True\<rparr>"

definition D_SHELL :: ToolDescriptor where
  "D_SHELL = \<lparr>canonical_names = [''execute_shell_command''], capability = Some ''client_v1_execute_shell_command'',
     display_verb = ''run'', progressive_verb = ''Running command...'', past_verb = ''Ran command'', is_client = True\<rparr>"

definition D_ATUIN_HISTORY :: ToolDescriptor where
  "D_ATUIN_HISTORY = \<lparr>canonical_names = [''atuin_history''], capability = Some ''client_v1_atuin_history'',
     display_verb = ''search your Atuin history for'', progressive_verb = ''Searching...'', past_verb = ''Searched'', is_client = True\<rparr>"

definition D_ATUIN_OUTPUT :: ToolDescriptor where
  "D_ATUIN_OUTPUT = \<lparr>canonical_names = [''atuin_output''], capability = Some ''client_v1_atuin_output'',
     display_verb = ''view the output for command'', progressive_verb = ''Viewing output...'', past_verb = ''Viewed output'', is_client = True\<rparr>"

definition D_LOAD_SKILL :: ToolDescriptor where
  "D_LOAD_SKILL = \<lparr>canonical_names = [''load_skill''], capability = Some ''client_v1_load_skill'',
     display_verb = ''load skill'', progressive_verb = ''Loading skill...'', past_verb = ''Loaded skill'', is_client = True\<rparr>"

definition D_SERVER_SEARCH :: ToolDescriptor where
  "D_SERVER_SEARCH = \<lparr>canonical_names = [''web_search''], capability = None,
     display_verb = ''search'', progressive_verb = ''Searching...'', past_verb = ''Searched'', is_client = False\<rparr>"

definition D_SERVER_SCRAPE :: ToolDescriptor where
  "D_SERVER_SCRAPE = \<lparr>canonical_names = [''web_scrape''], capability = None,
     display_verb = ''scrape'', progressive_verb = ''Scraping...'', past_verb = ''Scraped'', is_client = False\<rparr>"

definition all_descriptors :: "ToolDescriptor list" where
  "all_descriptors = [D_READ, D_EDIT, D_WRITE, D_SHELL, D_ATUIN_HISTORY, D_ATUIN_OUTPUT, D_LOAD_SKILL, D_SERVER_SEARCH, D_SERVER_SCRAPE]"

definition by_name :: "string \<Rightarrow> ToolDescriptor option" where
  "by_name name = find (\<lambda>d. name \<in> set (canonical_names d)) all_descriptors"

fun descriptor :: "ClientToolCall \<Rightarrow> ToolDescriptor" where
  "descriptor (Read _) = D_READ"
| "descriptor (Edit _) = D_EDIT"
| "descriptor (Write _) = D_WRITE"
| "descriptor (Shell _) = D_SHELL"
| "descriptor (AtuinHistory _) = D_ATUIN_HISTORY"
| "descriptor (AtuinOutput _) = D_ATUIN_OUTPUT"
| "descriptor (LoadSkill _) = D_LOAD_SKILL"

definition tool_capability :: "ClientToolCall \<Rightarrow> string option" where
  "tool_capability c = capability (descriptor c)"

lemmas descriptor_defs = D_READ_def D_EDIT_def D_WRITE_def D_SHELL_def D_ATUIN_HISTORY_def D_ATUIN_OUTPUT_def D_LOAD_SKILL_def D_SERVER_SEARCH_def D_SERVER_SCRAPE_def

text \<open>Parsing a call and looking its name up agree on the descriptor.\<close>

lemma parsed_descriptor: "tool_try_from E name v = Inr c \<Longrightarrow> by_name name = Some (descriptor c)"
  by (auto simp: tool_try_from_def bind_r_def by_name_def all_descriptors_def descriptor_defs split: if_splits sum.splits)

fun rule_name :: "ClientToolCall \<Rightarrow> string" where
  "rule_name (Read _) = ''Read''"
| "rule_name (Edit _) = ''Write''"
| "rule_name (Write _) = ''Write''"
| "rule_name (Shell _) = ''Shell''"
| "rule_name (AtuinHistory _) = ''AtuinHistory''"
| "rule_name (AtuinOutput _) = ''AtuinOutput''"
| "rule_name (LoadSkill _) = ''LoadSkill''"

definition is_relative :: "string \<Rightarrow> bool" where
  "is_relative p \<longleftrightarrow> \<not> (p \<noteq> [] \<and> hd p = CHR ''/'')"

definition join_path :: "string \<Rightarrow> string \<Rightarrow> string" where
  "join_path base p = (if \<not> is_relative p then p else if base = [] \<or> last base = CHR ''/'' then base @ p else base @ ''/'' @ p)"

definition resolved_path :: "ai_env \<Rightarrow> string \<Rightarrow> string" where
  "resolved_path E p = (if is_relative p then (case current_dir E of Some cwd \<Rightarrow> join_path cwd p | None \<Rightarrow> p) else p)"

fun resolved_file_path :: "ai_env \<Rightarrow> ClientToolCall \<Rightarrow> string option" where
  "resolved_file_path E (Read c) = Some (resolved_path E (read_path c))"
| "resolved_file_path E (Edit c) = Some (resolved_path E (edit_path c))"
| "resolved_file_path E (Write c) = Some (resolved_path E (write_path c))"
| "resolved_file_path E _ = None"

definition is_auto_approved :: "ClientToolCall \<Rightarrow> bool" where
  "is_auto_approved c \<longleftrightarrow> (case c of LoadSkill _ \<Rightarrow> True | _ \<Rightarrow> False)"

record Rule =
  rule_tool :: string
  rule_scope :: "string option"

definition rule_display :: "Rule \<Rightarrow> string" where
  "rule_display r = (case rule_scope r of Some s \<Rightarrow> rule_tool r @ ''('' @ s @ '')'' | None \<Rightarrow> rule_tool r)"

section \<open>Outcomes\<close>

datatype InterruptReason = UserInterrupt | TimeoutInterrupt nat

record Structured =
  out_stdout :: string
  out_stderr :: string
  out_exit_code :: "int option"
  out_duration_ms :: nat
  out_interrupted :: bool

datatype ToolOutcome = Success string | OutcomeError string | StructuredOutcome Structured

abbreviation newline :: char where
  "newline \<equiv> CHR 0x0A"

fun join_str :: "string \<Rightarrow> string list \<Rightarrow> string" where
  "join_str sep [] = []"
| "join_str sep [s] = s"
| "join_str sep (s # ss) = s @ sep @ join_str sep ss"

fun format_for_llm :: "InterruptReason option \<Rightarrow> ToolOutcome \<Rightarrow> string" where
  "format_for_llm reason (Success s) = s"
| "format_for_llm reason (OutcomeError e) = e"
| "format_for_llm reason (StructuredOutcome o') =
     join_str [newline, newline]
       ((case out_exit_code o' of Some code \<Rightarrow> [''Exit code: '' @ show_int code] | None \<Rightarrow> []) @
        [''Duration: '' @ show_nat (out_duration_ms o') @ ''ms''] @
        [if out_stdout o' \<noteq> [] then ''stdout:'' @ [newline] @ out_stdout o' else ''stdout: (empty)''] @
        [if out_stderr o' \<noteq> [] then ''stderr:'' @ [newline] @ out_stderr o' else ''stderr: (empty)''] @
        (if out_interrupted o' then
           [case reason of Some (TimeoutInterrupt secs) \<Rightarrow> ''[Timed out after '' @ show_nat secs @ ''s]'' | _ \<Rightarrow> ''[Interrupted by user]'']
         else []))"

fun outcome_is_error :: "ToolOutcome \<Rightarrow> bool" where
  "outcome_is_error (OutcomeError _) \<longleftrightarrow> True"
| "outcome_is_error (StructuredOutcome o') \<longleftrightarrow> (case out_exit_code o' of Some code \<Rightarrow> code \<noteq> 0 | None \<Rightarrow> False)"
| "outcome_is_error (Success _) \<longleftrightarrow> False"

end
