(* ===== verification/Ai_Context.thy ===== *)
theory Ai_Context
  imports Ai_Tools
begin

text \<open>
  The conversation log and what of it is sent to the server: \<open>atuin-ai/src/tui/state.rs\<close>
  (\<open>ConversationEvent\<close>, \<open>events_to_messages\<close>) and \<open>atuin-ai/src/context_window.rs\<close>.

  The length of a message is that of its serialisation, third-party code and an argument.

  Shown: the turns tile the log; the window is all turns if they fit, otherwise the first turn, a
  marker, and as many of the latest turns as fit, always the very latest; it stays within the
  budget whenever the first and the latest turn do.
\<close>

section \<open>The log\<close>

datatype ConversationEvent =
    UserMessage string
  | TextEvent string
  | ToolCall string string json
  | ToolResult string string bool bool "nat option"
  | OutOfBandOutput string "string option" string
  | SystemContext string
  | SkillInvocation string "string option" string

definition is_api_content :: "ConversationEvent \<Rightarrow> bool" where
  "is_api_content e = (case e of OutOfBandOutput _ _ _ \<Rightarrow> False | SystemContext _ \<Rightarrow> False | _ \<Rightarrow> True)"

definition as_command :: "ConversationEvent \<Rightarrow> string option" where
  "as_command e = (case e of ToolCall _ name input \<Rightarrow> if name = ''suggest_command'' then str_field ''command'' input else None | _ \<Rightarrow> None)"

section \<open>Messages\<close>

definition message :: "string \<Rightarrow> json \<Rightarrow> json" where
  "message role content = JObj [(''role'', JStr role), (''content'', content)]"

definition tool_use :: "string \<Rightarrow> string \<Rightarrow> json \<Rightarrow> json" where
  "tool_use i name input = JObj [(''type'', JStr ''tool_use''), (''id'', JStr i), (''name'', JStr name), (''input'', input)]"

definition tool_result :: "string \<Rightarrow> string \<Rightarrow> bool \<Rightarrow> bool \<Rightarrow> nat option \<Rightarrow> json" where
  "tool_result i content is_error remote len =
     (if remote then
        JObj ([(''type'', JStr ''tool_result''), (''tool_use_id'', JStr i), (''remote'', JBool True), (''is_error'', JBool is_error)] @
          (case len of Some n \<Rightarrow> [(''content_length'', JInt (int n))] | None \<Rightarrow> []))
      else JObj [(''type'', JStr ''tool_result''), (''tool_use_id'', JStr i), (''content'', JStr content), (''is_error'', JBool is_error)])"

text \<open>The tool calls at the front, as content blocks, and the events after them.\<close>

fun take_calls :: "ConversationEvent list \<Rightarrow> json list \<times> ConversationEvent list" where
  "take_calls (ToolCall i name input # es) = (case take_calls es of (us, r) \<Rightarrow> (tool_use i name input # us, r))"
| "take_calls es = ([], es)"

lemma take_calls_length: "length (snd (take_calls es)) \<le> length es"
  by (induction es rule: take_calls.induct) (auto split: prod.splits)

lemma take_calls_le: "take_calls es = (us, r) \<Longrightarrow> length r \<le> length es"
  using take_calls_length [of es] by simp

definition is_call :: "ConversationEvent list \<Rightarrow> bool" where
  "is_call es = (case es of ToolCall _ _ _ # _ \<Rightarrow> True | _ \<Rightarrow> False)"

function events_to_messages :: "ConversationEvent list \<Rightarrow> json list" where
  "events_to_messages [] = []"
| "events_to_messages (UserMessage content # es) = message ''user'' (JStr content) # events_to_messages es"
| "events_to_messages (TextEvent content # es) =
     (if content = [] then events_to_messages es
      else if is_call es then
        (case take_calls es of (us, r) \<Rightarrow>
           message ''assistant'' (JArr (JObj [(''type'', JStr ''text''), (''text'', JStr content)] # us)) # events_to_messages r)
      else message ''assistant'' (JStr content) # events_to_messages es)"
| "events_to_messages (ToolCall i name input # es) =
     (case take_calls es of (us, r) \<Rightarrow> message ''assistant'' (JArr (tool_use i name input # us)) # events_to_messages r)"
| "events_to_messages (ToolResult i content is_error remote len # es) =
     message ''user'' (JArr [tool_result i content is_error remote len]) # events_to_messages es"
| "events_to_messages (OutOfBandOutput n c content # es) = events_to_messages es"
| "events_to_messages (SystemContext content # es) = message ''user'' (JStr content) # events_to_messages es"
| "events_to_messages (SkillInvocation name arguments content # es) =
     message ''user'' (JStr ((case arguments of
          Some args \<Rightarrow> ''[Loaded skill: '' @ name @ '']'' @ [newline] @ ''[Arguments: '' @ args @ '']''
        | None \<Rightarrow> ''[Loaded skill: '' @ name @ '']'') @ [newline, newline] @ content)) # events_to_messages es"
  by pat_completeness auto

termination
  by (relation "measure length") (auto dest!: take_calls_le [OF sym] simp: le_imp_less_Suc)

section \<open>Turns\<close>

definition turn_start :: "ConversationEvent \<Rightarrow> bool" where
  "turn_start e = (case e of UserMessage _ \<Rightarrow> True | SystemContext _ \<Rightarrow> True | _ \<Rightarrow> False)"

fun group_loop :: "nat \<Rightarrow> nat \<Rightarrow> ConversationEvent list \<Rightarrow> (nat \<times> nat) list" where
  "group_loop i start [] = (if start < i then [(start, i)] else [])"
| "group_loop i start (e # es) =
     (if i > start \<and> turn_start e then (start, i) # group_loop (Suc i) i es else group_loop (Suc i) start es)"

definition group_into_turns :: "ConversationEvent list \<Rightarrow> (nat \<times> nat) list" where
  "group_into_turns es = group_loop 0 0 es"

definition slice :: "'a list \<Rightarrow> nat \<times> nat \<Rightarrow> 'a list" where
  "slice xs r = take (snd r - fst r) (drop (fst r) xs)"

section \<open>The window\<close>

definition truncation_marker :: json where
  "truncation_marker = message ''user''
     (JStr ''[Earlier conversation context was omitted to fit within the context window. The conversation continues below.]'')"

definition estimate_chars :: "(json \<Rightarrow> nat) \<Rightarrow> json list \<Rightarrow> nat" where
  "estimate_chars json_len ms = sum_list (map json_len ms)"

text \<open>The turns from the end that fit, down to the prefix; the first argument counts down.\<close>

fun tail_loop :: "nat \<Rightarrow> nat list \<Rightarrow> nat \<Rightarrow> nat \<Rightarrow> nat \<Rightarrow> nat" where
  "tail_loop 0 cs p remaining tail_start = tail_start"
| "tail_loop (Suc i) cs p remaining tail_start =
     (if i < p then tail_start
      else if cs ! i \<le> remaining then tail_loop i cs p (remaining - cs ! i) i
      else tail_start)"

definition window :: "(json \<Rightarrow> nat) \<Rightarrow> nat \<Rightarrow> ConversationEvent list \<Rightarrow> json list" where
  "window json_len budget es =
     (if es = [] then []
      else
        (let turns = group_into_turns es;
             turn_messages = map (\<lambda>r. events_to_messages (slice es r)) turns;
             turn_chars = map (estimate_chars json_len) turn_messages
         in if sum_list turn_chars \<le> budget then concat turn_messages
            else
              (let prefix_count = min 1 (length turns);
                   prefix_chars = sum_list (take prefix_count turn_chars);
                   remaining = budget - (prefix_chars + estimate_chars json_len [truncation_marker]);
                   tail_start = tail_loop (length turns) turn_chars prefix_count remaining (length turns);
                   tail_start = (if tail_start \<ge> length turns \<and> length turns > prefix_count then length turns - 1 else tail_start)
               in concat (take prefix_count turn_messages) @ (if tail_start > prefix_count then [truncation_marker] else []) @
                  concat (drop tail_start turn_messages))))"

section \<open>Turns tile the log\<close>

lemma group_loop_tiles:
  assumes "i = length xs" "start \<le> i"
  shows "drop start xs @ es = concat (map (slice (xs @ es)) (group_loop i start es))"
  using assms
proof (induction es arbitrary: i start xs)
  case Nil
  then show ?case by (auto simp: slice_def)
next
  case (Cons e es)
  have step: "drop st (xs @ [e]) @ es = concat (map (slice ((xs @ [e]) @ es)) (group_loop (Suc i) st es))" if "st \<le> Suc i" for st
    using Cons.IH [of "Suc i" "xs @ [e]" st] Cons.prems(1) that by simp
  show ?case
  proof (cases "i > start \<and> turn_start e")
    case True
    have "slice (xs @ e # es) (start, i) = drop start xs" using Cons.prems by (simp add: slice_def)
    with True step [of i] Cons.prems show ?thesis by simp
  next
    case False
    with step [of start] Cons.prems show ?thesis by auto
  qed
qed

lemma turns_tile: "concat (map (slice es) (group_into_turns es)) = es"
  using group_loop_tiles [of 0 "[]" 0 es] by (simp add: group_into_turns_def)

lemma group_loop_ne: "start \<le> i \<Longrightarrow> start < i \<or> es \<noteq> [] \<Longrightarrow> group_loop i start es \<noteq> []"
  by (induction es arbitrary: i start) auto

section \<open>The tail\<close>

lemma tail_loop_le: "tail_start \<le> n \<Longrightarrow> i \<le> n \<Longrightarrow> tail_loop i cs p r tail_start \<le> n"
  by (induction i arbitrary: r tail_start) auto

lemma tail_loop_ge: "p \<le> tail_start \<Longrightarrow> p \<le> tail_loop i cs p r tail_start"
  by (induction i arbitrary: r tail_start) auto

lemma tail_loop_fits:
  assumes "i \<le> length cs" "sum_list (drop i cs) + r = b"
  shows "sum_list (drop (tail_loop i cs p r i) cs) \<le> b"
  using assms
proof (induction i arbitrary: r)
  case (Suc i)
  have "drop i cs = cs ! i # drop (Suc i) cs" using Suc.prems(1) by (simp add: Cons_nth_drop_Suc)
  with Suc show ?case by auto
qed simp

lemma tail_loop_last:
  assumes "p < length cs" "cs ! (length cs - 1) \<le> r"
  shows "tail_loop (length cs) cs p r (length cs) < length cs"
proof (cases "length cs")
  case (Suc n)
  with assms tail_loop_le [of n n n cs p "r - cs ! n"] show ?thesis by simp
qed (use assms in simp)

lemma estimate_append: "estimate_chars l (xs @ ys) = estimate_chars l xs + estimate_chars l ys"
  by (simp add: estimate_chars_def)

lemma estimate_concat: "estimate_chars l (concat xss) = sum_list (map (estimate_chars l) xss)"
  by (induction xss) (simp_all add: estimate_append, simp add: estimate_chars_def)

definition turn_list :: "ConversationEvent list \<Rightarrow> json list list" where
  "turn_list es = map (\<lambda>r. events_to_messages (slice es r)) (group_into_turns es)"

lemma window_over:
  assumes ne: "es \<noteq> []" and over: "estimate_chars l (concat (turn_list es)) > budget" and T: "turn_list es = t # ts" and ts: "ts \<noteq> []"
  obtains k where "1 \<le> k" "k < length (turn_list es)" "window l budget es = t @ (if k > 1 then [truncation_marker] else []) @ concat (drop k (turn_list es))"
    "estimate_chars l t + estimate_chars l [truncation_marker] + estimate_chars l (last ts) \<le> budget \<Longrightarrow> estimate_chars l (window l budget es) \<le> budget"
proof -
  let ?T = "turn_list es" and ?n = "length (turn_list es)"
  define cs where "cs = map (estimate_chars l) ?T"
  define r where "r = budget - (estimate_chars l t + estimate_chars l [truncation_marker])"
  define k0 where "k0 = tail_loop ?n cs 1 r ?n"
  define k where "k = (if k0 \<ge> ?n \<and> ?n > 1 then ?n - 1 else k0)"
  have n: "?n = length (group_into_turns es)" by (simp add: turn_list_def)
  have n': "length cs = ?n" "1 < ?n" using T ts by (simp_all add: cs_def)
  have first: "take 1 ?T = [t]" "sum_list (take 1 cs) = estimate_chars l t" using T by (simp_all add: cs_def)
  have k0: "1 \<le> k0" "k0 \<le> ?n" using n'(2) by (simp_all add: k0_def tail_loop_ge tail_loop_le)
  then have k: "1 \<le> k" "k < ?n" using n'(2) by (auto simp: k_def)
  have "\<not> sum_list cs \<le> budget" using over by (simp add: cs_def estimate_concat)
  then have win: "window l budget es = t @ (if k > 1 then [truncation_marker] else []) @ concat (drop k ?T)"
    using ne n n' first unfolding window_def turn_list_def [symmetric] cs_def [symmetric] n [symmetric] Let_def k_def k0_def r_def
    by (simp add: min_def)
  have small: "estimate_chars l (window l budget es) \<le> budget"
    if fit: "estimate_chars l t + estimate_chars l [truncation_marker] + estimate_chars l (last ts) \<le> budget"
  proof -
    have "cs ! (length cs - 1) = estimate_chars l (last ?T)" using n' T by (simp add: cs_def last_conv_nth)
    then have "cs ! (length cs - 1) \<le> r" using fit T ts by (simp add: r_def)
    then have "k0 < ?n" using tail_loop_last [of 1 cs r] n' by (simp add: k0_def)
    then have "k = k0" by (simp add: k_def)
    moreover have "sum_list (drop k0 cs) \<le> r" unfolding k0_def n'(1) [symmetric] by (rule tail_loop_fits) simp_all
    ultimately have "estimate_chars l (concat (drop k ?T)) \<le> r" by (simp add: estimate_concat cs_def drop_map)
    moreover have "estimate_chars l [] = 0" by (simp add: estimate_chars_def)
    ultimately show ?thesis using fit estimate_append [of l "[truncation_marker]" "concat (drop k ?T)"]
      by (cases "k > 1") (simp_all add: win estimate_append r_def)
  qed
  show thesis by (rule that [OF k win small])
qed

section \<open>Properties\<close>

text \<open>
  C23: what is sent of a conversation. The turns are the whole log, cut in order. If they fit the
  budget, all are sent. If not, what is sent is the first turn and a run of the latest turns, at
  least the very latest, with a marker in between exactly if turns are missing there; and it stays
  within the budget if the first turn, the marker and the latest turn do.
\<close>

theorem context_window:
  assumes "es \<noteq> []"
  shows "concat (map (slice es) (group_into_turns es)) = es
    \<and> (estimate_chars l (concat (turn_list es)) \<le> budget \<longrightarrow> window l budget es = concat (turn_list es))
    \<and> (estimate_chars l (concat (turn_list es)) > budget \<longrightarrow>
        (\<exists>k. 1 \<le> k \<and> window l budget es = hd (turn_list es) @ (if k > 1 then [truncation_marker] else []) @ concat (drop k (turn_list es))
          \<and> (length (turn_list es) > 1 \<longrightarrow> k < length (turn_list es)
              \<and> (estimate_chars l (hd (turn_list es)) + estimate_chars l [truncation_marker] + estimate_chars l (last (turn_list es)) \<le> budget \<longrightarrow>
                  estimate_chars l (window l budget es) \<le> budget))))"
proof -
  have "group_into_turns es \<noteq> []" using assms group_loop_ne [of 0 0 es] by (simp add: group_into_turns_def)
  then obtain t ts where T: "turn_list es = t # ts" by (cases "turn_list es") (auto simp: turn_list_def)
  have fits: "window l budget es = concat (turn_list es)" if "estimate_chars l (concat (turn_list es)) \<le> budget"
    using that assms unfolding window_def turn_list_def [symmetric] Let_def by (simp add: estimate_concat)
  have over: "\<exists>k. 1 \<le> k \<and> window l budget es = hd (turn_list es) @ (if k > 1 then [truncation_marker] else []) @ concat (drop k (turn_list es))
      \<and> (length (turn_list es) > 1 \<longrightarrow> k < length (turn_list es)
        \<and> (estimate_chars l (hd (turn_list es)) + estimate_chars l [truncation_marker] + estimate_chars l (last (turn_list es)) \<le> budget \<longrightarrow>
            estimate_chars l (window l budget es) \<le> budget))"
    if over: "estimate_chars l (concat (turn_list es)) > budget"
  proof (cases "ts = []")
    case True
    have "length (group_into_turns es) = 1" using T True by (metis length_map length_Cons list.size(3) One_nat_def turn_list_def)
    then have "window l budget es = t"
      using assms over T True unfolding window_def turn_list_def [symmetric] Let_def by (simp add: estimate_concat)
    with T True show ?thesis by (intro exI [of _ 1]) simp
  next
    case False
    obtain k where "1 \<le> k" "k < length (turn_list es)" "window l budget es = t @ (if k > 1 then [truncation_marker] else []) @ concat (drop k (turn_list es))"
      "estimate_chars l t + estimate_chars l [truncation_marker] + estimate_chars l (last ts) \<le> budget \<longrightarrow> estimate_chars l (window l budget es) \<le> budget"
      by (rule window_over [OF assms over T False]) blast
    with T False show ?thesis by (intro exI [of _ k]) simp
  qed
  show ?thesis using turns_tile fits over by blast
qed

theorem context_window_witness:
  "window (\<lambda>_. 1) 3 [UserMessage ''a'', UserMessage ''b'', UserMessage ''c''] = map (\<lambda>s. message ''user'' (JStr s)) [''a'', ''b'', ''c'']"
proof -
  let ?es = "[UserMessage ''a'', UserMessage ''b'', UserMessage ''c'']"
  have "turn_list ?es = map (\<lambda>s. [message ''user'' (JStr s)]) [''a'', ''b'', ''c'']"
    by (simp add: turn_list_def group_into_turns_def turn_start_def slice_def)
  moreover from this have "estimate_chars (\<lambda>_. 1) (concat (turn_list ?es)) \<le> 3" by (simp add: estimate_chars_def)
  ultimately show ?thesis using context_window [of ?es "\<lambda>_. 1" 3] by simp
qed

end
