(* ===== verification/Ai_Fsm.thy ===== *)
theory Ai_Fsm
  imports Ai_Context
begin

text \<open>
  The agent's state machine, \<open>atuin-ai/src/fsm/\<close>: \<open>mod.rs\<close>, \<open>events.rs\<close>, \<open>effects.rs\<close>, \<open>tools.rs\<close>.

  \<open>handle\<close> takes an event and gives the effects and the new state, or \<open>None\<close> where the code panics:
  a slice of the log past its end and an execution timeout of a tool that is no shell command. The
  code matches on the pair of state and event; the model has one function per event with the states
  as its cases. Building the request (\<open>build_messages\<close>) is \<open>window\<close> with the default budget.

  The driver's side is a step relation: it may deliver any event, but tool calls come with new ids,
  results from the server are not for tools of this client, and a timeout fires for the tool it was
  scheduled for.

  Proved here: every step of \<open>handle\<close> is a step of the tool protocol \<open>lifecycle\<close>. What follows for whole runs
  is in \<open>Ai_Runs\<close>.
\<close>

section \<open>Events and effects\<close>

datatype PermissionResponse = Allowed | DeniedResponse | Ask | SessionGranted

datatype PermissionChoice = Allow | AllowForSession | AlwaysAllowInProject | AlwaysAllow | Deny

record ModelInfo =
  model_alias :: string
  model_name :: string
  model_description :: string

record ModelList =
  default_model :: string
  model_infos :: "ModelInfo list"

record ShellPreview =
  prev_lines :: "string list"
  prev_exit_code :: "int option"
  prev_interrupted :: "InterruptReason option"

text \<open>The previews of edits and writes are only carried along.\<close>

datatype ToolPreviewData = ShellPreviewData ShellPreview | EditPreviewData string | WritePreviewData "string list" nat

datatype Event =
    UserSubmit string
  | Cancel
  | ExecuteCommand
  | InsertCommand
  | Retry
  | InterruptTools
  | SessionIdReceived string
  | StreamStarted
  | StreamChunk string
  | StreamToolCall string string json
  | StreamServerToolResult string string bool bool "nat option"
  | StreamStatusChanged string
  | StreamDone string
  | StreamError string
  | SuggestCommand string json
  | PermissionResolved string PermissionResponse
  | PermissionUserChoice string PermissionChoice
  | ToolExecutionDone string ToolOutcome "ToolPreviewData option"
  | ToolPreviewUpdate string "string list" "int option"
  | OutputCommandResolved string "string option"
  | ConfirmationTimeout nat
  | ToolExecutionTimeout nat string
  | NewSession
  | SlashCommand string string
  | OpenModelPicker
  | ModelListLoaded "string + ModelList"
  | ModelSelected string
  | RequestSkillLoad string "string option"
  | SkillLoaded string "string option" string

datatype PermissionTarget = ProjectTarget | GlobalTarget

datatype RuleDisposition = AllowRule | DenyRule

datatype TimeoutKind = Confirmation | ToolExecution string

datatype ExitAction = ExecuteAction string | InsertAction string | CancelAction

datatype Effect =
    StartStream "json list" "string option"
  | AbortStream
  | CheckPermission string ClientToolCall
  | ExecuteTool string ClientToolCall
  | AbortTool string
  | ResolveOutputCommand string nat
  | LoadSkillEffect string "string option"
  | FetchModels
  | Persist
  | WritePermissionRule PermissionTarget Rule RuleDisposition
  | CacheSessionGrant string
  | SaveModelSelection string
  | ArchiveSession
  | TurnEnded
  | ScheduleTimeout nat nat TimeoutKind
  | ExitApp ExitAction

section \<open>Tools\<close>

datatype ToolState = CheckingPermission | AwaitingPermission | Executing | Completed | Denied

record TrackedTool =
  tool_id :: string
  tool_call :: ClientToolCall
  tool_state :: ToolState
  tool_preview :: "ToolPreviewData option"
  interrupt_reason :: "InterruptReason option"

definition is_resolved :: "TrackedTool \<Rightarrow> bool" where
  "is_resolved t \<longleftrightarrow> tool_state t = Completed \<or> tool_state t = Denied"

type_synonym ToolManager = "TrackedTool list"

definition tools_insert :: "string \<Rightarrow> ClientToolCall \<Rightarrow> ToolManager \<Rightarrow> ToolManager" where
  "tools_insert i tool ts = ts @ [\<lparr>tool_id = i, tool_call = tool, tool_state = CheckingPermission, tool_preview = None, interrupt_reason = None\<rparr>]"

definition tools_get :: "string \<Rightarrow> ToolManager \<Rightarrow> TrackedTool option" where
  "tools_get i ts = find (\<lambda>t. tool_id t = i) ts"

text \<open>A write through \<open>get_mut\<close>: the first tool of the id is changed.\<close>

primrec tools_map :: "string \<Rightarrow> (TrackedTool \<Rightarrow> TrackedTool) \<Rightarrow> ToolManager \<Rightarrow> ToolManager" where
  "tools_map i f [] = []"
| "tools_map i f (t # ts) = (if tool_id t = i then f t # ts else t # tools_map i f ts)"

definition all_resolved :: "string list \<Rightarrow> ToolManager \<Rightarrow> bool" where
  "all_resolved ids ts = list_all (\<lambda>i. case tools_get i ts of None \<Rightarrow> True | Some t \<Rightarrow> is_resolved t) ids"

definition awaiting_permission :: "ToolManager \<Rightarrow> TrackedTool option" where
  "awaiting_permission ts = find (\<lambda>t. tool_state t = AwaitingPermission) ts"

definition pending_ids :: "ToolManager \<Rightarrow> string list" where
  "pending_ids ts = map tool_id (filter (\<lambda>t. \<not> is_resolved t) ts)"

definition executing_ids :: "ToolManager \<Rightarrow> string list" where
  "executing_ids ts = map tool_id (filter (\<lambda>t. tool_state t = Executing) ts)"

section \<open>The state\<close>

record PendingConfirmation =
  conf_command :: string
  conf_timeout_id :: nat

datatype StreamingStatus = Processing | Searching | Thinking | WaitingForTools

definition status_from_str :: "string \<Rightarrow> StreamingStatus" where
  "status_from_str s =
     (if s = ''processing'' then Processing else if s = ''searching'' then Searching
      else if s = ''waiting_for_tools'' then WaitingForTools else Thinking)"

datatype StreamPhase = Connecting | Streaming "StreamingStatus option" | StreamEnded

datatype AgentState = Idle "PendingConfirmation option" | Turn StreamPhase | ErrorState string

datatype ModelPicker = PickerLoading | PickerReady ModelList

record AgentFsm =
  fsm_state :: AgentState
  fsm_events :: "ConversationEvent list"
  fsm_session_id :: "string option"
  current_response :: string
  fsm_tools :: ToolManager
  current_turn_tool_ids :: "string list"
  tool_timeout_ids :: "nat \<Rightarrow> string option"
  next_timeout_id :: nat
  capabilities :: "string list"
  invocation_id :: string
  fsm_model :: "string option"
  models_cache :: "ModelList option"
  model_picker :: "ModelPicker option"
  view_start_index :: nat
  is_resumed :: bool
  last_event_time :: "int option"
  archived_events :: "ConversationEvent list"

definition from_session ::
  "ConversationEvent list \<Rightarrow> string option \<Rightarrow> string list \<Rightarrow> string \<Rightarrow> nat \<Rightarrow> bool \<Rightarrow> int option \<Rightarrow> AgentFsm" where
  "from_session evs sid caps invo start resumed last_time =
     \<lparr>fsm_state = Idle None, fsm_events = evs, fsm_session_id = sid, current_response = [], fsm_tools = [], current_turn_tool_ids = [], tool_timeout_ids = Map.empty,
      next_timeout_id = 0, capabilities = caps, invocation_id = invo, fsm_model = None, models_cache = None, model_picker = None,
      view_start_index = start, is_resumed = resumed, last_event_time = last_time, archived_events = []\<rparr>"

definition fsm_new :: "string list \<Rightarrow> string \<Rightarrow> AgentFsm" where
  "fsm_new caps invo = from_session [] None caps invo 0 False None"

record fsm_env =
  fe_tools :: ai_env
  fe_json_len :: "json \<Rightarrow> nat"

type_synonym step = "(Effect list \<times> AgentFsm) option"

definition push_event :: "ConversationEvent \<Rightarrow> AgentFsm \<Rightarrow> AgentFsm" where
  "push_event e s = s\<lparr>fsm_events := fsm_events s @ [e]\<rparr>"

definition error_result :: "string \<Rightarrow> string \<Rightarrow> ConversationEvent" where
  "error_result i content = ToolResult i content True False None"

definition set_tool :: "string \<Rightarrow> (TrackedTool \<Rightarrow> TrackedTool) \<Rightarrow> AgentFsm \<Rightarrow> AgentFsm" where
  "set_tool i f s = s\<lparr>fsm_tools := tools_map i f (fsm_tools s)\<rparr>"

definition retain_timeouts :: "string \<Rightarrow> (nat \<Rightarrow> string option) \<Rightarrow> nat \<Rightarrow> string option" where
  "retain_timeouts i m = (\<lambda>k. case m k of None \<Rightarrow> None | Some t \<Rightarrow> if t \<noteq> i then Some t else None)"

section \<open>Helpers\<close>

definition build_messages :: "fsm_env \<Rightarrow> AgentFsm \<Rightarrow> json list" where
  "build_messages E s = window (fe_json_len E) 200000 (fsm_events s)"

text \<open>Sending the log: the effect, and the state that waits for the stream.\<close>

definition send :: "fsm_env \<Rightarrow> AgentFsm \<Rightarrow> Effect list \<times> AgentFsm" where
  "send E s = ([StartStream (build_messages E s) (fsm_session_id s)], s\<lparr>fsm_state := Turn Connecting\<rparr>)"

definition start_turn :: "fsm_env \<Rightarrow> string \<Rightarrow> AgentFsm \<Rightarrow> Effect list \<times> AgentFsm" where
  "start_turn E msg s =
     send E ((push_event (UserMessage msg) (s\<lparr>model_picker := None\<rparr>))\<lparr>current_response := [], current_turn_tool_ids := []\<rparr>)"

definition commit_streaming_text :: "AgentFsm \<Rightarrow> AgentFsm" where
  "commit_streaming_text s =
     (let trimmed = trim_start (current_response s); s = s\<lparr>current_response := []\<rparr>
      in if trimmed \<noteq> [] then push_event (TextEvent trimmed) s else s)"

definition commit_streaming_text_as_cancelled :: "AgentFsm \<Rightarrow> AgentFsm" where
  "commit_streaming_text_as_cancelled s =
     (let trimmed = trim_start (current_response s); s = s\<lparr>current_response := []\<rparr>
      in if trimmed \<noteq> [] then push_event (TextEvent (trimmed @ [newline, newline] @ ''[User cancelled this generation]'')) s else s)"

definition handle_slash_command :: "string \<Rightarrow> string \<Rightarrow> AgentFsm \<Rightarrow> AgentFsm" where
  "handle_slash_command command content s = push_event (OutOfBandOutput ''System'' (Some command) content) s"

definition current_invocation_events :: "AgentFsm \<Rightarrow> ConversationEvent list" where
  "current_invocation_events s = drop (min (view_start_index s) (length (fsm_events s))) (fsm_events s)"

definition current_command :: "AgentFsm \<Rightarrow> string option" where
  "current_command s = (case List.map_filter as_command (rev (current_invocation_events s)) of [] \<Rightarrow> None | c # _ \<Rightarrow> Some c)"

definition danger_of :: "ConversationEvent \<Rightarrow> bool option" where
  "danger_of e =
     (case e of
        ToolCall _ name input \<Rightarrow>
          if name = ''suggest_command'' then
            (let danger = unwrap_or (str_field ''danger'' input) ''low'' in Some (danger = ''high'' \<or> danger = ''medium'' \<or> danger = ''med''))
          else None
      | _ \<Rightarrow> None)"

definition is_current_command_dangerous :: "AgentFsm \<Rightarrow> bool" where
  "is_current_command_dangerous s = (case List.map_filter danger_of (rev (current_invocation_events s)) of [] \<Rightarrow> False | d # _ \<Rightarrow> d)"

definition check_turn_completion :: "fsm_env \<Rightarrow> AgentFsm \<Rightarrow> Effect list \<times> AgentFsm" where
  "check_turn_completion E s =
     (if fsm_state s \<noteq> Turn StreamEnded then ([], s)
      else if \<not> all_resolved (current_turn_tool_ids s) (fsm_tools s) then ([], s)
      else if current_turn_tool_ids s \<noteq> [] then send E (s\<lparr>current_turn_tool_ids := [], current_response := []\<rparr>)
      else ([TurnEnded, Persist], s\<lparr>fsm_state := Idle None\<rparr>))"

definition refuse_call :: "string \<Rightarrow> string \<Rightarrow> json \<Rightarrow> string \<Rightarrow> AgentFsm \<Rightarrow> Effect list \<times> AgentFsm" where
  "refuse_call i name input content s =
     ([], (push_event (error_result i content) (push_event (ToolCall i name input) s))\<lparr>current_turn_tool_ids := current_turn_tool_ids s @ [i]\<rparr>)"

definition track_call :: "string \<Rightarrow> string \<Rightarrow> json \<Rightarrow> ClientToolCall \<Rightarrow> AgentFsm \<Rightarrow> Effect list \<times> AgentFsm" where
  "track_call i name input tool s =
     (let s = push_event (ToolCall i name input) (s\<lparr>fsm_tools := tools_insert i tool (fsm_tools s), current_turn_tool_ids := current_turn_tool_ids s @ [i]\<rparr>);
          s = (case fsm_state s of Turn (Streaming _) \<Rightarrow> s\<lparr>fsm_state := Turn (Streaming None)\<rparr> | _ \<Rightarrow> s)
      in ((case tool of AtuinOutput c \<Rightarrow> [ResolveOutputCommand i (output_history_id c)] | _ \<Rightarrow> []) @ [CheckPermission i tool], s))"

definition handle_stream_tool_call :: "fsm_env \<Rightarrow> string \<Rightarrow> string \<Rightarrow> json \<Rightarrow> AgentFsm \<Rightarrow> Effect list \<times> AgentFsm" where
  "handle_stream_tool_call E i name input s =
     (case tool_try_from (fe_tools E) name input of
        Inl err \<Rightarrow> refuse_call i name input (''Error: '' @ err) s
      | Inr tool \<Rightarrow>
          (case tool_capability tool of
             Some cap \<Rightarrow>
               if \<not> List.member (capabilities s) cap then
                 refuse_call i name input (''Tool not enabled: capability '' @ [CHR 0x27] @ cap @ [CHR 0x27] @ '' was not advertised by this client'') s
               else track_call i name input tool s
           | None \<Rightarrow> track_call i name input tool s))"

definition emit_execute_tool :: "string \<Rightarrow> ClientToolCall \<Rightarrow> AgentFsm \<Rightarrow> Effect list \<times> AgentFsm" where
  "emit_execute_tool i tool s =
     (case tool of
        Shell sh \<Rightarrow>
          (let t = next_timeout_id s
           in ([ExecuteTool i tool, ScheduleTimeout t (timeout_secs sh) (ToolExecution i)],
               s\<lparr>next_timeout_id := u64_add t 1, tool_timeout_ids := (tool_timeout_ids s)(t \<mapsto> i)\<rparr>))
      | _ \<Rightarrow> ([ExecuteTool i tool], s))"

definition with_state :: "ToolState \<Rightarrow> TrackedTool \<Rightarrow> TrackedTool" where
  "with_state st t = t\<lparr>tool_state := st\<rparr>"

definition execute_tracked :: "string \<Rightarrow> ClientToolCall \<Rightarrow> AgentFsm \<Rightarrow> Effect list \<times> AgentFsm" where
  "execute_tracked i tool s = emit_execute_tool i tool (set_tool i (with_state Executing) s)"

definition deny_tracked :: "fsm_env \<Rightarrow> string \<Rightarrow> string \<Rightarrow> AgentFsm \<Rightarrow> Effect list \<times> AgentFsm" where
  "deny_tracked E i content s = check_turn_completion E (push_event (error_result i content) (set_tool i (with_state Denied) s))"

definition also_emit :: "Effect list \<Rightarrow> Effect list \<times> AgentFsm \<Rightarrow> Effect list \<times> AgentFsm" where
  "also_emit es r = (fst r @ es, snd r)"

definition handle_permission_resolved :: "fsm_env \<Rightarrow> string \<Rightarrow> PermissionResponse \<Rightarrow> AgentFsm \<Rightarrow> Effect list \<times> AgentFsm" where
  "handle_permission_resolved E i response s =
     (case tools_get i (fsm_tools s) of
        None \<Rightarrow> ([], s)
      | Some t \<Rightarrow>
          if is_resolved t then ([], s)
          else (case response of
                  Allowed \<Rightarrow> execute_tracked i (tool_call t) s
                | SessionGranted \<Rightarrow> execute_tracked i (tool_call t) s
                | Ask \<Rightarrow> ([], set_tool i (with_state AwaitingPermission) s)
                | DeniedResponse \<Rightarrow> deny_tracked E i ''Permission denied on the user's system'' s))"

definition handle_permission_choice :: "fsm_env \<Rightarrow> string \<Rightarrow> PermissionChoice \<Rightarrow> AgentFsm \<Rightarrow> Effect list \<times> AgentFsm" where
  "handle_permission_choice E i choice s =
     (case tools_get i (fsm_tools s) of
        None \<Rightarrow> ([], s)
      | Some t \<Rightarrow>
          if is_resolved t then ([], s)
          else (case choice of
                  Allow \<Rightarrow> execute_tracked i (tool_call t) s
                | AllowForSession \<Rightarrow>
                    also_emit (case resolved_file_path (fe_tools E) (tool_call t) of Some path \<Rightarrow> [CacheSessionGrant path] | None \<Rightarrow> [])
                      (execute_tracked i (tool_call t) s)
                | AlwaysAllowInProject \<Rightarrow>
                    also_emit [WritePermissionRule ProjectTarget \<lparr>rule_tool = rule_name (tool_call t), rule_scope = None\<rparr> AllowRule]
                      (execute_tracked i (tool_call t) s)
                | AlwaysAllow \<Rightarrow>
                    also_emit [WritePermissionRule GlobalTarget
                        \<lparr>rule_tool = rule_name (tool_call t), rule_scope = resolved_file_path (fe_tools E) (tool_call t)\<rparr> AllowRule]
                      (execute_tracked i (tool_call t) s)
                | Deny \<Rightarrow> deny_tracked E i ''Permission denied by the user'' s))"

definition outcome_interrupted :: "ToolOutcome \<Rightarrow> bool" where
  "outcome_interrupted oc = (case oc of StructuredOutcome x \<Rightarrow> out_interrupted x | _ \<Rightarrow> False)"

definition merge_preview :: "InterruptReason option \<Rightarrow> ToolPreviewData option \<Rightarrow> ToolPreviewData option \<Rightarrow> ToolPreviewData option" where
  "merge_preview reason old new =
     (case new of
        None \<Rightarrow> old
      | Some (ShellPreviewData f) \<Rightarrow>
          (case old of
             Some (ShellPreviewData p) \<Rightarrow> Some (ShellPreviewData (p\<lparr>prev_exit_code := prev_exit_code f, prev_interrupted := reason\<rparr>))
           | _ \<Rightarrow> Some (ShellPreviewData (f\<lparr>prev_interrupted := reason\<rparr>)))
      | Some p \<Rightarrow> Some p)"

definition handle_tool_done :: "fsm_env \<Rightarrow> string \<Rightarrow> ToolOutcome \<Rightarrow> ToolPreviewData option \<Rightarrow> AgentFsm \<Rightarrow> Effect list \<times> AgentFsm" where
  "handle_tool_done E i oc preview s =
     (case tools_get i (fsm_tools s) of
        None \<Rightarrow> ([], s)
      | Some t \<Rightarrow>
          if is_resolved t then ([], s)
          else
            (let reason = or_else (interrupt_reason t) (if outcome_interrupted oc then Some UserInterrupt else None);
                 s = set_tool i (\<lambda>t. t\<lparr>tool_state := Completed, interrupt_reason := None, tool_preview := merge_preview reason (tool_preview t) preview\<rparr>) s;
                 s = s\<lparr>tool_timeout_ids := retain_timeouts i (tool_timeout_ids s)\<rparr>;
                 s = push_event (ToolResult i (format_for_llm reason oc) (outcome_is_error oc) False None) s
             in check_turn_completion E s))"

definition handle_tool_execution_timeout :: "nat \<Rightarrow> string \<Rightarrow> AgentFsm \<Rightarrow> step" where
  "handle_tool_execution_timeout timeout i s =
     (case tool_timeout_ids s timeout of
        None \<Rightarrow> Some ([], s)
      | Some _ \<Rightarrow>
          (let s = s\<lparr>tool_timeout_ids := (tool_timeout_ids s)(timeout := None)\<rparr>
           in case tools_get i (fsm_tools s) of
                None \<Rightarrow> Some ([], s)
              | Some t \<Rightarrow>
                  if is_resolved t then Some ([], s)
                  else (case tool_call t of
                          Shell sh \<Rightarrow> Some ([AbortTool i], set_tool i (\<lambda>t. t\<lparr>interrupt_reason := Some (TimeoutInterrupt (timeout_secs sh))\<rparr>) s)
                        | _ \<Rightarrow> None)))"

section \<open>Handlers, one for each event\<close>

definition on_user_submit :: "fsm_env \<Rightarrow> string \<Rightarrow> AgentFsm \<Rightarrow> Effect list \<times> AgentFsm" where
  "on_user_submit E msg s = (case fsm_state s of Idle _ \<Rightarrow> start_turn E msg s | _ \<Rightarrow> ([], s))"

definition on_execute_command :: "AgentFsm \<Rightarrow> Effect list \<times> AgentFsm" where
  "on_execute_command s =
     (case fsm_state s of
        Idle None \<Rightarrow>
          (case current_command s of
             None \<Rightarrow> ([ExitApp CancelAction], s)
           | Some cmd \<Rightarrow>
               if is_current_command_dangerous s then
                 (let t = next_timeout_id s
                  in ([ScheduleTimeout t 5 Confirmation],
                      s\<lparr>next_timeout_id := u64_add t 1, fsm_state := Idle (Some \<lparr>conf_command = cmd, conf_timeout_id = t\<rparr>)\<rparr>))
               else ([ExitApp (ExecuteAction cmd)], s))
      | Idle (Some c) \<Rightarrow> ([ExitApp (ExecuteAction (conf_command c))], s\<lparr>fsm_state := Idle None\<rparr>)
      | _ \<Rightarrow> ([], s))"

definition on_insert_command :: "AgentFsm \<Rightarrow> Effect list \<times> AgentFsm" where
  "on_insert_command s =
     (case fsm_state s of
        Idle _ \<Rightarrow> ((case current_command s of Some cmd \<Rightarrow> [ExitApp (InsertAction cmd)] | None \<Rightarrow> []), s)
      | _ \<Rightarrow> ([], s))"

text \<open>One round of the loop over the pending tools when a turn is cancelled.\<close>

definition cancel_tool :: "Effect list \<times> AgentFsm \<Rightarrow> string \<Rightarrow> Effect list \<times> AgentFsm" where
  "cancel_tool r i =
     (let s = snd r
      in (fst r @ (case tools_get i (fsm_tools s) of Some t \<Rightarrow> if tool_state t = Executing then [AbortTool i] else [] | None \<Rightarrow> []),
          push_event (error_result i ''Error: user cancelled this operation'') (set_tool i (with_state Completed) s)))"

definition cancel_turn :: "StreamPhase \<Rightarrow> AgentFsm \<Rightarrow> Effect list \<times> AgentFsm" where
  "cancel_turn phase s =
     (let pending = pending_ids (fsm_tools s);
          r = foldl cancel_tool ((if phase \<noteq> StreamEnded then [AbortStream] else []), s) pending;
          s = commit_streaming_text_as_cancelled (snd r);
          s = (if pending \<noteq> [] then
                 push_event (SystemContext ''The user cancelled the previous generation. Tool calls that were in progress have been aborted.'') s else s)
      in (fst r @ [Persist], s\<lparr>tool_timeout_ids := Map.empty, fsm_state := Idle None\<rparr>))"

definition on_cancel :: "AgentFsm \<Rightarrow> Effect list \<times> AgentFsm" where
  "on_cancel s =
     (case fsm_state s of
        Idle (Some _) \<Rightarrow> ([], s\<lparr>fsm_state := Idle None\<rparr>)
      | Idle None \<Rightarrow> if model_picker s \<noteq> None then ([], s\<lparr>model_picker := None\<rparr>) else ([ExitApp CancelAction], s)
      | Turn phase \<Rightarrow> cancel_turn phase s
      | ErrorState _ \<Rightarrow> ([ExitApp CancelAction], s))"

definition on_confirmation_timeout :: "nat \<Rightarrow> AgentFsm \<Rightarrow> Effect list \<times> AgentFsm" where
  "on_confirmation_timeout timeout s =
     (case fsm_state s of
        Idle (Some c) \<Rightarrow> ([], if conf_timeout_id c = timeout then s\<lparr>fsm_state := Idle None\<rparr> else s)
      | _ \<Rightarrow> ([], s))"

definition on_new_session :: "AgentFsm \<Rightarrow> step" where
  "on_new_session s =
     (case fsm_state s of
        Idle _ \<Rightarrow>
          if view_start_index s > length (fsm_events s) then None
          else Some ([ArchiveSession, Persist],
            (push_event (OutOfBandOutput ''System'' (Some ''/new'') ''Started a new session.'')
              (s\<lparr>archived_events := archived_events s @ drop (view_start_index s) (fsm_events s), fsm_events := [], fsm_session_id := None,
                current_turn_tool_ids := [], view_start_index := 0, is_resumed := False, model_picker := None\<rparr>))\<lparr>fsm_state := Idle None\<rparr>)
      | _ \<Rightarrow> Some ([], s))"

definition on_open_model_picker :: "AgentFsm \<Rightarrow> Effect list \<times> AgentFsm" where
  "on_open_model_picker s =
     (case fsm_state s of
        Idle _ \<Rightarrow>
          (case models_cache s of
             Some list \<Rightarrow> ([], s\<lparr>model_picker := Some (PickerReady list)\<rparr>)
           | None \<Rightarrow> ([FetchModels], s\<lparr>model_picker := Some PickerLoading\<rparr>))
      | _ \<Rightarrow> ([], s))"

definition on_model_selected :: "string \<Rightarrow> AgentFsm \<Rightarrow> Effect list \<times> AgentFsm" where
  "on_model_selected alias s =
     (case fsm_state s of
        Idle _ \<Rightarrow>
          (let found = Option.bind (models_cache s) (\<lambda>list. find (\<lambda>m. model_alias m = alias) (model_infos list));
               display = (case found of Some m \<Rightarrow> model_name m | None \<Rightarrow> alias)
           in ([SaveModelSelection alias],
               handle_slash_command ''/model'' (''Model set to '' @ display @ '' for this and future sessions.'')
                 (s\<lparr>model_picker := None, fsm_model := Some alias\<rparr>)))
      | _ \<Rightarrow> ([], s))"

definition on_skill_loaded :: "fsm_env \<Rightarrow> string \<Rightarrow> string option \<Rightarrow> string \<Rightarrow> AgentFsm \<Rightarrow> Effect list \<times> AgentFsm" where
  "on_skill_loaded E name arguments content s =
     (let s' = push_event (SkillInvocation name arguments content) s
      in case fsm_state s of
           Idle _ \<Rightarrow> send E (s'\<lparr>current_response := [], current_turn_tool_ids := []\<rparr>)
         | _ \<Rightarrow> ([], s'))"

definition on_stream_started :: "AgentFsm \<Rightarrow> Effect list \<times> AgentFsm" where
  "on_stream_started s = (case fsm_state s of Turn Connecting \<Rightarrow> ([], s\<lparr>fsm_state := Turn (Streaming None)\<rparr>) | _ \<Rightarrow> ([], s))"

definition on_stream_error :: "string \<Rightarrow> AgentFsm \<Rightarrow> Effect list \<times> AgentFsm" where
  "on_stream_error e s =
     (case fsm_state s of
        Turn Connecting \<Rightarrow> ([], s\<lparr>fsm_state := ErrorState e\<rparr>)
      | Turn (Streaming _) \<Rightarrow> (map AbortTool (executing_ids (fsm_tools s)), s\<lparr>tool_timeout_ids := Map.empty, fsm_state := ErrorState e\<rparr>)
      | _ \<Rightarrow> ([], s))"

definition on_stream_chunk :: "string \<Rightarrow> AgentFsm \<Rightarrow> Effect list \<times> AgentFsm" where
  "on_stream_chunk txt s =
     (case fsm_state s of Turn (Streaming _) \<Rightarrow> ([], s\<lparr>current_response := current_response s @ txt\<rparr>) | _ \<Rightarrow> ([], s))"

definition on_status_changed :: "string \<Rightarrow> AgentFsm \<Rightarrow> Effect list \<times> AgentFsm" where
  "on_status_changed label s =
     (case fsm_state s of Turn (Streaming _) \<Rightarrow> ([], s\<lparr>fsm_state := Turn (Streaming (Some (status_from_str label)))\<rparr>) | _ \<Rightarrow> ([], s))"

definition on_stream_tool_call :: "fsm_env \<Rightarrow> string \<Rightarrow> string \<Rightarrow> json \<Rightarrow> AgentFsm \<Rightarrow> Effect list \<times> AgentFsm" where
  "on_stream_tool_call E i name input s =
     (case fsm_state s of Turn _ \<Rightarrow> handle_stream_tool_call E i name input (commit_streaming_text s) | _ \<Rightarrow> ([], s))"

definition on_suggest_command :: "string \<Rightarrow> json \<Rightarrow> AgentFsm \<Rightarrow> Effect list \<times> AgentFsm" where
  "on_suggest_command i input s =
     (case fsm_state s of
        Turn _ \<Rightarrow> ([TurnEnded, Persist], (push_event (ToolCall i ''suggest_command'' input) (commit_streaming_text s))\<lparr>fsm_state := Idle None\<rparr>)
      | _ \<Rightarrow> ([], s))"

definition on_server_result :: "string \<Rightarrow> string \<Rightarrow> bool \<Rightarrow> bool \<Rightarrow> nat option \<Rightarrow> AgentFsm \<Rightarrow> Effect list \<times> AgentFsm" where
  "on_server_result i content is_error remote len s =
     (case fsm_state s of Turn (Streaming _) \<Rightarrow> ([], push_event (ToolResult i content is_error remote len) s) | _ \<Rightarrow> ([], s))"

definition note_session :: "string \<Rightarrow> AgentFsm \<Rightarrow> AgentFsm" where
  "note_session sid s = (if sid \<noteq> [] then s\<lparr>fsm_session_id := Some sid\<rparr> else s)"

definition on_stream_done :: "fsm_env \<Rightarrow> string \<Rightarrow> AgentFsm \<Rightarrow> Effect list \<times> AgentFsm" where
  "on_stream_done E sid s =
     (case fsm_state s of
        Turn _ \<Rightarrow> check_turn_completion E ((note_session sid (commit_streaming_text s))\<lparr>fsm_state := Turn StreamEnded\<rparr>)
      | _ \<Rightarrow> ([Persist], note_session sid s))"

definition on_preview_update :: "string \<Rightarrow> string list \<Rightarrow> int option \<Rightarrow> AgentFsm \<Rightarrow> Effect list \<times> AgentFsm" where
  "on_preview_update i lines exit_code s =
     (case fsm_state s of
        Turn _ \<Rightarrow>
          ([], set_tool i (\<lambda>t.
             if is_resolved t then
               (case tool_preview t of
                  Some (ShellPreviewData p) \<Rightarrow> t\<lparr>tool_preview := Some (ShellPreviewData (p\<lparr>prev_lines := lines\<rparr>))\<rparr>
                | _ \<Rightarrow> t)
             else t\<lparr>tool_preview := Some (ShellPreviewData \<lparr>prev_lines = lines, prev_exit_code = exit_code, prev_interrupted = None\<rparr>)\<rparr>) s)
      | _ \<Rightarrow> ([], s))"

definition interrupt_tool :: "AgentFsm \<Rightarrow> string \<Rightarrow> AgentFsm" where
  "interrupt_tool s i =
     (set_tool i (\<lambda>t. t\<lparr>interrupt_reason := Some UserInterrupt\<rparr>) s)\<lparr>tool_timeout_ids := retain_timeouts i (tool_timeout_ids s)\<rparr>"

definition on_interrupt_tools :: "AgentFsm \<Rightarrow> Effect list \<times> AgentFsm" where
  "on_interrupt_tools s =
     (case fsm_state s of
        Turn _ \<Rightarrow> (map AbortTool (executing_ids (fsm_tools s)), foldl interrupt_tool s (executing_ids (fsm_tools s)))
      | _ \<Rightarrow> ([], s))"

definition on_retry :: "fsm_env \<Rightarrow> AgentFsm \<Rightarrow> Effect list \<times> AgentFsm" where
  "on_retry E s = (case fsm_state s of ErrorState _ \<Rightarrow> send E s | _ \<Rightarrow> ([], s))"

definition on_model_list :: "string + ModelList \<Rightarrow> AgentFsm \<Rightarrow> Effect list \<times> AgentFsm" where
  "on_model_list result s =
     (case result of
        Inr list \<Rightarrow>
          (let s = s\<lparr>models_cache := Some list\<rparr>
           in ([], if model_picker s = Some PickerLoading then s\<lparr>model_picker := Some (PickerReady list)\<rparr> else s))
      | Inl e \<Rightarrow>
          ([], if model_picker s = Some PickerLoading
               then handle_slash_command ''/model'' (''Could not load the model list: '' @ e) (s\<lparr>model_picker := None\<rparr>) else s))"

definition on_output_command :: "string \<Rightarrow> string option \<Rightarrow> AgentFsm \<Rightarrow> Effect list \<times> AgentFsm" where
  "on_output_command i command s =
     ([], set_tool i (\<lambda>t. case tool_call t of AtuinOutput c \<Rightarrow> t\<lparr>tool_call := AtuinOutput (c\<lparr>output_command := command\<rparr>)\<rparr> | _ \<Rightarrow> t) s)"

definition in_turn :: "(AgentFsm \<Rightarrow> Effect list \<times> AgentFsm) \<Rightarrow> AgentFsm \<Rightarrow> Effect list \<times> AgentFsm" where
  "in_turn f s = (case fsm_state s of Turn _ \<Rightarrow> f s | _ \<Rightarrow> ([], s))"

definition received_session :: "Event \<Rightarrow> AgentFsm \<Rightarrow> AgentFsm" where
  "received_session ev s =
     (case ev of SessionIdReceived sid \<Rightarrow> s\<lparr>fsm_session_id := or_else (fsm_session_id s) (Some sid)\<rparr> | _ \<Rightarrow> s)"

definition handle :: "fsm_env \<Rightarrow> AgentFsm \<Rightarrow> Event \<Rightarrow> step" where
  "handle E s0 ev =
     (let s = received_session ev s0
      in case ev of
           UserSubmit msg \<Rightarrow> Some (on_user_submit E msg s)
         | Cancel \<Rightarrow> Some (on_cancel s)
         | ExecuteCommand \<Rightarrow> Some (on_execute_command s)
         | InsertCommand \<Rightarrow> Some (on_insert_command s)
         | Retry \<Rightarrow> Some (on_retry E s)
         | InterruptTools \<Rightarrow> Some (on_interrupt_tools s)
         | SessionIdReceived _ \<Rightarrow> Some ([], s)
         | StreamStarted \<Rightarrow> Some (on_stream_started s)
         | StreamChunk txt \<Rightarrow> Some (on_stream_chunk txt s)
         | StreamToolCall i name input \<Rightarrow> Some (on_stream_tool_call E i name input s)
         | StreamServerToolResult i content is_error remote len \<Rightarrow> Some (on_server_result i content is_error remote len s)
         | StreamStatusChanged label \<Rightarrow> Some (on_status_changed label s)
         | StreamDone sid \<Rightarrow> Some (on_stream_done E sid s)
         | StreamError e \<Rightarrow> Some (on_stream_error e s)
         | SuggestCommand i input \<Rightarrow> Some (on_suggest_command i input s)
         | PermissionResolved i response \<Rightarrow> Some (in_turn (handle_permission_resolved E i response) s)
         | PermissionUserChoice i choice \<Rightarrow> Some (in_turn (handle_permission_choice E i choice) s)
         | ToolExecutionDone i oc preview \<Rightarrow> Some (in_turn (handle_tool_done E i oc preview) s)
         | ToolPreviewUpdate i lines exit_code \<Rightarrow> Some (on_preview_update i lines exit_code s)
         | OutputCommandResolved i command \<Rightarrow> Some (on_output_command i command s)
         | ConfirmationTimeout timeout \<Rightarrow> Some (on_confirmation_timeout timeout s)
         | ToolExecutionTimeout timeout i \<Rightarrow> (case fsm_state s of Turn _ \<Rightarrow> handle_tool_execution_timeout timeout i s | _ \<Rightarrow> Some ([], s))
         | NewSession \<Rightarrow> on_new_session s
         | SlashCommand command content \<Rightarrow> Some ([], handle_slash_command command content s)
         | OpenModelPicker \<Rightarrow> Some (on_open_model_picker s)
         | ModelListLoaded result \<Rightarrow> Some (on_model_list result s)
         | ModelSelected alias \<Rightarrow> Some (on_model_selected alias s)
         | RequestSkillLoad name arguments \<Rightarrow> Some ([LoadSkillEffect name arguments], s)
         | SkillLoaded name arguments content \<Rightarrow> Some (on_skill_loaded E name arguments content s))"

section \<open>Runs and the driver\<close>

fun run :: "fsm_env \<Rightarrow> AgentFsm \<Rightarrow> Event list \<Rightarrow> ((Event \<times> Effect list) list \<times> AgentFsm) option" where
  "run E s [] = Some ([], s)"
| "run E s (ev # evs) =
     (case handle E s ev of
        None \<Rightarrow> None
      | Some (es, s') \<Rightarrow> (case run E s' evs of None \<Rightarrow> None | Some (tr, s'') \<Rightarrow> Some ((ev, es) # tr, s'')))"

definition call_of :: "string \<Rightarrow> ConversationEvent \<Rightarrow> bool" where
  "call_of i e = (case e of ToolCall j name _ \<Rightarrow> j = i \<and> name \<noteq> ''suggest_command'' | _ \<Rightarrow> False)"

definition result_of :: "string \<Rightarrow> ConversationEvent \<Rightarrow> bool" where
  "result_of i e = (case e of ToolResult j _ _ _ _ \<Rightarrow> j = i | _ \<Rightarrow> False)"

definition called :: "string \<Rightarrow> ConversationEvent list \<Rightarrow> bool" where
  "called i es = list_ex (call_of i) es"

definition results :: "string \<Rightarrow> ConversationEvent list \<Rightarrow> nat" where
  "results i es = length (filter (result_of i) es)"

text \<open>A tool that is tracked and not resolved.\<close>

definition open_tool :: "string \<Rightarrow> ToolManager \<Rightarrow> bool" where
  "open_tool i ts = (case tools_get i ts of Some t \<Rightarrow> \<not> is_resolved t | None \<Rightarrow> False)"

definition may_happen :: "AgentFsm \<Rightarrow> Event \<Rightarrow> bool" where
  "may_happen s ev =
     (case ev of
        StreamToolCall i _ _ \<Rightarrow> i \<notin> tool_id ` set (fsm_tools s) \<and> \<not> called i (fsm_events s) \<and> results i (fsm_events s) = 0
      | StreamServerToolResult i _ _ _ _ \<Rightarrow> i \<notin> tool_id ` set (fsm_tools s) \<and> \<not> called i (fsm_events s)
      | ToolExecutionTimeout k i \<Rightarrow> tool_timeout_ids s k = None \<or> tool_timeout_ids s k = Some i
      | _ \<Rightarrow> True)"

definition answered_log :: "ConversationEvent list \<Rightarrow> bool" where
  "answered_log es \<longleftrightarrow> (\<forall>i. called i es \<longrightarrow> results i es = 1)"

inductive reach :: "fsm_env \<Rightarrow> AgentFsm \<Rightarrow> bool" for E where
  start: "start \<le> length evs \<Longrightarrow> answered_log evs \<Longrightarrow> reach E (from_session evs sid caps invo start resumed last_time)"
| step: "reach E s \<Longrightarrow> may_happen s ev \<Longrightarrow> handle E s ev = Some (es, s') \<Longrightarrow> reach E s'"

section \<open>Tools\<close>

definition keeps_id :: "(TrackedTool \<Rightarrow> TrackedTool) \<Rightarrow> bool" where
  "keeps_id f \<longleftrightarrow> (\<forall>t. tool_id (f t) = tool_id t)"

lemma tools_get_map: "keeps_id f \<Longrightarrow> tools_get j (tools_map i f ts) = (if j = i then map_option f (tools_get i ts) else tools_get j ts)"
  by (induction ts) (auto simp: tools_get_def keeps_id_def)

lemma tool_ids_map [simp]: "keeps_id f \<Longrightarrow> map tool_id (tools_map i f ts) = map tool_id ts"
  by (induction ts) (auto simp: keeps_id_def)

lemma tools_get_insert:
  "tools_get j (tools_insert i tool ts) = (case tools_get j ts of Some t \<Rightarrow> Some t | None \<Rightarrow>
     if j = i then Some \<lparr>tool_id = i, tool_call = tool, tool_state = CheckingPermission, tool_preview = None, interrupt_reason = None\<rparr> else None)"
  by (induction ts) (auto simp: tools_get_def tools_insert_def)

lemma tools_get_id: "tools_get i ts = Some t \<Longrightarrow> tool_id t = i \<and> t \<in> set ts"
  by (auto simp: tools_get_def find_Some_iff)

lemma tools_get_None: "tools_get i ts = None \<longleftrightarrow> i \<notin> tool_id ` set ts"
  by (auto simp: tools_get_def find_None_iff)

definition is_shell :: "ClientToolCall \<Rightarrow> bool" where
  "is_shell c = (case c of Shell _ \<Rightarrow> True | _ \<Rightarrow> False)"

text \<open>How the tools change: none is lost, a resolved one stays resolved, a shell command stays one.\<close>

definition evolves :: "ToolManager \<Rightarrow> ToolManager \<Rightarrow> bool" where
  "evolves ts ts' \<longleftrightarrow> (\<forall>i t. tools_get i ts = Some t \<longrightarrow>
     (\<exists>t'. tools_get i ts' = Some t' \<and> (is_resolved t \<longrightarrow> is_resolved t') \<and> is_shell (tool_call t') = is_shell (tool_call t)))"

lemma evolves_refl [simp]: "evolves ts ts"
  by (auto simp: evolves_def)

lemma evolves_trans: "evolves ts ts' \<Longrightarrow> evolves ts' ts'' \<Longrightarrow> evolves ts ts''"
  unfolding evolves_def by metis

lemma evolves_insert [simp]: "evolves ts (tools_insert i tool ts)"
  by (simp add: evolves_def tools_get_insert)

definition safe_change :: "(TrackedTool \<Rightarrow> TrackedTool) \<Rightarrow> bool" where
  "safe_change f \<longleftrightarrow> keeps_id f \<and> (\<forall>t. (is_resolved t \<longrightarrow> is_resolved (f t)) \<and> is_shell (tool_call (f t)) = is_shell (tool_call t))"

lemma evolves_map: "safe_change f \<Longrightarrow> evolves ts (tools_map i f ts)"
  by (auto simp: evolves_def tools_get_map safe_change_def)

lemma evolves_map_open:
  assumes "keeps_id f" "\<forall>t. is_shell (tool_call (f t)) = is_shell (tool_call t)" "open_tool i ts"
  shows "evolves ts (tools_map i f ts)"
  using assms by (auto simp: evolves_def tools_get_map open_tool_def)

lemma with_state_facts [simp]:
  "keeps_id (with_state st)" "tool_call (with_state st t) = tool_call t" "tool_state (with_state st t) = st" "tool_id (with_state st t) = tool_id t"
  by (simp_all add: keeps_id_def with_state_def)

lemma with_state_resolved [simp]: "is_resolved (with_state st t) \<longleftrightarrow> st = Completed \<or> st = Denied"
  by (simp add: is_resolved_def)

section \<open>What the helpers change\<close>

lemmas fsm_sel = push_event_def set_tool_def Let_def

lemma push_event_sel [simp]:
  "fsm_tools (push_event e s) = fsm_tools s" "fsm_state (push_event e s) = fsm_state s" "fsm_events (push_event e s) = fsm_events s @ [e]"
  "current_turn_tool_ids (push_event e s) = current_turn_tool_ids s" "tool_timeout_ids (push_event e s) = tool_timeout_ids s"
  "view_start_index (push_event e s) = view_start_index s"
  by (simp_all add: push_event_def)

lemma set_tool_sel [simp]:
  "fsm_tools (set_tool i f s) = tools_map i f (fsm_tools s)" "fsm_state (set_tool i f s) = fsm_state s" "fsm_events (set_tool i f s) = fsm_events s"
  "current_turn_tool_ids (set_tool i f s) = current_turn_tool_ids s" "tool_timeout_ids (set_tool i f s) = tool_timeout_ids s"
  "view_start_index (set_tool i f s) = view_start_index s"
  by (simp_all add: set_tool_def)

lemma note_session_sel [simp]:
  "fsm_tools (note_session x s) = fsm_tools s" "fsm_state (note_session x s) = fsm_state s" "fsm_events (note_session x s) = fsm_events s"
  "current_turn_tool_ids (note_session x s) = current_turn_tool_ids s" "tool_timeout_ids (note_session x s) = tool_timeout_ids s"
  "view_start_index (note_session x s) = view_start_index s"
  by (simp_all add: note_session_def)

lemma received_session_sel [simp]:
  "fsm_tools (received_session x s) = fsm_tools s" "fsm_state (received_session x s) = fsm_state s" "fsm_events (received_session x s) = fsm_events s"
  "current_turn_tool_ids (received_session x s) = current_turn_tool_ids s" "tool_timeout_ids (received_session x s) = tool_timeout_ids s"
  "view_start_index (received_session x s) = view_start_index s"
  by (simp_all add: received_session_def split: Event.splits)

lemma slash_sel [simp]:
  "fsm_tools (handle_slash_command c d s) = fsm_tools s" "fsm_state (handle_slash_command c d s) = fsm_state s"
  "fsm_events (handle_slash_command c d s) = fsm_events s @ [OutOfBandOutput ''System'' (Some c) d]"
  "current_turn_tool_ids (handle_slash_command c d s) = current_turn_tool_ids s" "tool_timeout_ids (handle_slash_command c d s) = tool_timeout_ids s"
  "view_start_index (handle_slash_command c d s) = view_start_index s"
  by (simp_all add: handle_slash_command_def)

lemma send_sel [simp]:
  "fsm_tools (snd (send E s)) = fsm_tools s" "fsm_state (snd (send E s)) = Turn Connecting" "fsm_events (snd (send E s)) = fsm_events s"
  "current_turn_tool_ids (snd (send E s)) = current_turn_tool_ids s" "tool_timeout_ids (snd (send E s)) = tool_timeout_ids s"
  "view_start_index (snd (send E s)) = view_start_index s" "fst (send E s) = [StartStream (build_messages E s) (fsm_session_id s)]"
  by (simp_all add: send_def)

lemma commit_sel [simp]:
  "fsm_tools (commit_streaming_text s) = fsm_tools s" "fsm_state (commit_streaming_text s) = fsm_state s"
  "current_turn_tool_ids (commit_streaming_text s) = current_turn_tool_ids s" "tool_timeout_ids (commit_streaming_text s) = tool_timeout_ids s"
  "view_start_index (commit_streaming_text s) = view_start_index s"
  "fsm_tools (commit_streaming_text_as_cancelled s) = fsm_tools s"
  "view_start_index (commit_streaming_text_as_cancelled s) = view_start_index s"
  by (simp_all add: commit_streaming_text_def commit_streaming_text_as_cancelled_def Let_def)

lemma check_sel [simp]:
  "fsm_tools (snd (check_turn_completion E s)) = fsm_tools s" "fsm_events (snd (check_turn_completion E s)) = fsm_events s"
  "tool_timeout_ids (snd (check_turn_completion E s)) = tool_timeout_ids s" "view_start_index (snd (check_turn_completion E s)) = view_start_index s"
  by (simp_all add: check_turn_completion_def)

lemma emit_sel [simp]:
  "fsm_tools (snd (emit_execute_tool i c s)) = fsm_tools s" "fsm_events (snd (emit_execute_tool i c s)) = fsm_events s"
  "fsm_state (snd (emit_execute_tool i c s)) = fsm_state s" "view_start_index (snd (emit_execute_tool i c s)) = view_start_index s"
  "current_turn_tool_ids (snd (emit_execute_tool i c s)) = current_turn_tool_ids s"
  by (simp_all add: emit_execute_tool_def Let_def split: ClientToolCall.splits)

definition cancel_result :: "string \<Rightarrow> ConversationEvent" where
  "cancel_result i = error_result i ''Error: user cancelled this operation''"

lemma cancel_fold_sel:
  "fsm_tools (snd (foldl cancel_tool r ids)) = foldl (\<lambda>ts i. tools_map i (with_state Completed) ts) (fsm_tools (snd r)) ids"
  "fsm_events (snd (foldl cancel_tool r ids)) = fsm_events (snd r) @ map cancel_result ids"
  "view_start_index (snd (foldl cancel_tool r ids)) = view_start_index (snd r)"
  by (induction ids arbitrary: r) (simp_all add: cancel_tool_def Let_def cancel_result_def)

lemma cancel_fold_effects: "x \<in> set (fst (foldl cancel_tool r ids)) \<Longrightarrow> x \<in> set (fst r) \<or> (\<exists>i. x = AbortTool i)"
proof (induction ids arbitrary: r)
  case (Cons i ids)
  then have "x \<in> set (fst (cancel_tool r i)) \<or> (\<exists>i. x = AbortTool i)" by simp
  then show ?case by (auto simp: cancel_tool_def Let_def split: if_splits option.splits)
qed simp

lemma cancel_fold_get:
  "tools_get j (foldl (\<lambda>ts i. tools_map i (with_state Completed) ts) ts ids)
    = (if j \<in> set ids then map_option (with_state Completed) (tools_get j ts) else tools_get j ts)"
proof (induction ids arbitrary: ts)
  case (Cons i ids)
  have "with_state st (with_state st t) = with_state st t" for st t by (simp add: with_state_def)
  with Cons show ?case by (auto simp: tools_get_map option.map_comp comp_def)
qed simp

lemma cancel_turn_sel:
  "fsm_tools (snd (cancel_turn ph s)) = foldl (\<lambda>ts i. tools_map i (with_state Completed) ts) (fsm_tools s) (pending_ids (fsm_tools s))"
  "fsm_state (snd (cancel_turn ph s)) = Idle None" "tool_timeout_ids (snd (cancel_turn ph s)) = Map.empty"
  "view_start_index (snd (cancel_turn ph s)) = view_start_index s"
  by (simp_all add: cancel_turn_def Let_def cancel_fold_sel)

lemma cancel_turn_effects: "x \<in> set (fst (cancel_turn ph s)) \<Longrightarrow> x \<in> {AbortStream, Persist} \<or> (\<exists>i. x = AbortTool i)"
  using cancel_fold_effects [of x "(if ph \<noteq> StreamEnded then [AbortStream] else [], s)" "pending_ids (fsm_tools s)"]
  by (auto simp: cancel_turn_def Let_def split: if_splits)

lemma pending_open: "tools_get i ts = Some t \<Longrightarrow> \<not> is_resolved t \<Longrightarrow> i \<in> set (pending_ids ts)"
  by (auto simp: pending_ids_def dest: tools_get_id)

lemma cancel_turn_resolves:
  assumes "tools_get i (fsm_tools s) = Some t"
  shows "\<exists>t'. tools_get i (fsm_tools (snd (cancel_turn ph s))) = Some t' \<and> is_resolved t'"
  using assms pending_open [OF assms] by (auto simp: cancel_turn_sel cancel_fold_get)

lemma evolves_cancel: "evolves ts (foldl (\<lambda>ts i. tools_map i (with_state Completed) ts) ts ids)"
  by (auto simp: evolves_def cancel_fold_get)

lemma interrupt_fold_sel:
  "fsm_tools (foldl interrupt_tool s ids) = foldl (\<lambda>ts i. tools_map i (\<lambda>t. t\<lparr>interrupt_reason := Some UserInterrupt\<rparr>) ts) (fsm_tools s) ids"
  "fsm_events (foldl interrupt_tool s ids) = fsm_events s" "fsm_state (foldl interrupt_tool s ids) = fsm_state s"
  "current_turn_tool_ids (foldl interrupt_tool s ids) = current_turn_tool_ids s" "view_start_index (foldl interrupt_tool s ids) = view_start_index s"
  by (induction ids arbitrary: s) (simp_all add: interrupt_tool_def)

lemma interrupt_fold_timeouts: "tool_timeout_ids (foldl interrupt_tool s ids) k = Some i \<Longrightarrow> tool_timeout_ids s k = Some i"
proof (induction ids arbitrary: s)
  case (Cons j ids)
  then have "tool_timeout_ids (interrupt_tool s j) k = Some i" by simp
  then show ?case by (auto simp: interrupt_tool_def retain_timeouts_def split: option.splits if_splits)
qed simp

lemma keeps_id_fields [simp]:
  "keeps_id (\<lambda>t. t\<lparr>interrupt_reason := r\<rparr>)" "keeps_id (\<lambda>t. t\<lparr>tool_state := st, interrupt_reason := r, tool_preview := f t\<rparr>)"
  by (simp_all add: keeps_id_def)

lemma interrupt_fold_get:
  "tools_get j (foldl (\<lambda>ts i. tools_map i (\<lambda>t. t\<lparr>interrupt_reason := Some UserInterrupt\<rparr>) ts) ts ids)
    = (if j \<in> set ids then map_option (\<lambda>t. t\<lparr>interrupt_reason := Some UserInterrupt\<rparr>) (tools_get j ts) else tools_get j ts)"
  by (induction ids arbitrary: ts) (auto simp: tools_get_map option.map_comp comp_def)

text \<open>
  Changes of the tools that leave every tool's state: they do not matter to what is resolved.
\<close>

definition same_states :: "ToolManager \<Rightarrow> ToolManager \<Rightarrow> bool" where
  "same_states ts ts' \<longleftrightarrow> map tool_id ts' = map tool_id ts
     \<and> (\<forall>i. map_option tool_state (tools_get i ts') = map_option tool_state (tools_get i ts))
     \<and> (\<forall>i. map_option (\<lambda>t. is_shell (tool_call t)) (tools_get i ts') = map_option (\<lambda>t. is_shell (tool_call t)) (tools_get i ts))"

definition state_kept :: "(TrackedTool \<Rightarrow> TrackedTool) \<Rightarrow> bool" where
  "state_kept f \<longleftrightarrow> keeps_id f \<and> (\<forall>t. tool_state (f t) = tool_state t \<and> is_shell (tool_call (f t)) = is_shell (tool_call t))"

lemma same_states_refl [simp]: "same_states ts ts"
  by (simp add: same_states_def)

lemma same_states_map: "state_kept f \<Longrightarrow> same_states ts (tools_map i f ts)"
  by (auto simp: same_states_def state_kept_def tools_get_map option.map_comp comp_def)

lemma same_states_fold: "(\<And>i. state_kept (f i)) \<Longrightarrow> same_states ts (foldl (\<lambda>ts i. tools_map i (f i) ts) ts ids)"
proof (induction ids arbitrary: ts)
  case (Cons i ids)
  then have "same_states ts (tools_map i (f i) ts)" "same_states (tools_map i (f i) ts) (foldl (\<lambda>ts i. tools_map i (f i) ts) (tools_map i (f i) ts) ids)"
    by (simp_all add: same_states_map)
  then show ?case by (simp add: same_states_def)
qed simp

lemma same_states_open: "same_states ts ts' \<Longrightarrow> open_tool i ts' = open_tool i ts"
  unfolding same_states_def open_tool_def is_resolved_def
  by (drule conjunct2, drule conjunct1, drule spec [of _ i]) (auto split: option.splits)

lemma same_states_evolves: "same_states ts ts' \<Longrightarrow> evolves ts ts'"
  unfolding same_states_def evolves_def is_resolved_def
proof (intro allI impI)
  fix i t
  assume a: "map tool_id ts' = map tool_id ts \<and> (\<forall>i. map_option tool_state (tools_get i ts') = map_option tool_state (tools_get i ts))
     \<and> (\<forall>i. map_option (\<lambda>t. is_shell (tool_call t)) (tools_get i ts') = map_option (\<lambda>t. is_shell (tool_call t)) (tools_get i ts))"
    and t: "tools_get i ts = Some t"
  then have "map_option tool_state (tools_get i ts') = Some (tool_state t)" "map_option (\<lambda>t. is_shell (tool_call t)) (tools_get i ts') = Some (is_shell (tool_call t))"
    by simp_all
  then show "\<exists>t'. tools_get i ts' = Some t' \<and> (tool_state t = Completed \<or> tool_state t = Denied \<longrightarrow> tool_state t' = Completed \<or> tool_state t' = Denied)
      \<and> is_shell (tool_call t') = is_shell (tool_call t)"
    by auto
qed

section \<open>The life of a tool call\<close>

text \<open>
  The protocol the machine implements, on the tracked tools and the log alone: which events may
  change a tool or add a call or a result, and how. Everything else leaves the tools' states and
  appends events that are neither calls nor results.
\<close>

definition neutral :: "ConversationEvent list \<Rightarrow> bool" where
  "neutral es = list_all (\<lambda>e. (case e of ToolResult _ _ _ _ _ \<Rightarrow> False | ToolCall _ name _ \<Rightarrow> name = ''suggest_command'' | _ \<Rightarrow> True)) es"

inductive lifecycle :: "Event \<Rightarrow> ToolManager \<times> ConversationEvent list \<Rightarrow> ToolManager \<times> ConversationEvent list \<Rightarrow> bool" where
  quiet: "same_states ts ts' \<Longrightarrow> neutral xs \<Longrightarrow> lifecycle ev (ts, es) (ts', es @ xs)"
| forgotten: "neutral xs \<Longrightarrow> lifecycle NewSession (ts, es) (ts, xs)"
| refused: "neutral xs \<Longrightarrow>
    lifecycle (StreamToolCall i name input) (ts, es) (ts, es @ xs @ [ToolCall i name input, error_result i content])"
| tracked: "neutral xs \<Longrightarrow> name \<noteq> ''suggest_command'' \<Longrightarrow>
    lifecycle (StreamToolCall i name input) (ts, es) (tools_insert i tool ts, es @ xs @ [ToolCall i name input])"
| served: "lifecycle (StreamServerToolResult i content is_error remote len) (ts, es) (ts, es @ [ToolResult i content is_error remote len])"
| asked: "open_tool i ts \<Longrightarrow> lifecycle (PermissionResolved i Ask) (ts, es) (tools_map i (with_state AwaitingPermission) ts, es)"
| permitted: "open_tool i ts \<Longrightarrow> ev = PermissionResolved i Allowed \<or> ev = PermissionResolved i SessionGranted \<or> (\<exists>c. c \<noteq> Deny \<and> ev = PermissionUserChoice i c) \<Longrightarrow>
    lifecycle ev (ts, es) (tools_map i (with_state Executing) ts, es)"
| denied: "open_tool i ts \<Longrightarrow> ev = PermissionResolved i DeniedResponse \<or> ev = PermissionUserChoice i Deny \<Longrightarrow>
    lifecycle ev (ts, es) (tools_map i (with_state Denied) ts, es @ [error_result i content])"
| finished: "open_tool i ts \<Longrightarrow> lifecycle (ToolExecutionDone i oc preview) (ts, es)
    (tools_map i (\<lambda>t. t\<lparr>tool_state := Completed, interrupt_reason := None, tool_preview := f t\<rparr>) ts, es @ [ToolResult i content is_error False None])"
| cancelled: "neutral xs \<Longrightarrow> lifecycle Cancel (ts, es)
    (foldl (\<lambda>ts i. tools_map i (with_state Completed) ts) ts (pending_ids ts), es @ map cancel_result (pending_ids ts) @ xs)"

abbreviation tool_view :: "AgentFsm \<Rightarrow> ToolManager \<times> ConversationEvent list" where
  "tool_view s \<equiv> (fsm_tools s, fsm_events s)"

lemma neutral_simps [simp]: "neutral []" "neutral (xs @ ys) \<longleftrightarrow> neutral xs \<and> neutral ys" "neutral [UserMessage m]" "neutral [TextEvent m]"
  "neutral [OutOfBandOutput a b c]" "neutral [SystemContext m]" "neutral [SkillInvocation a b c]" "neutral [ToolCall i ''suggest_command'' input]"
  by (simp_all add: neutral_def)

lemma quiet_same: "neutral xs \<Longrightarrow> lifecycle ev (ts, es) (ts, es @ xs)"
  by (rule quiet) simp_all

lemma quiet_nothing: "lifecycle ev (ts, es) (ts, es)"
  using quiet_same [of "[]"] by simp

lemma quiet_tools: "same_states ts ts' \<Longrightarrow> lifecycle ev (ts, es) (ts', es)"
  using quiet [of ts ts' "[]"] by simp

lemma commit_events: "\<exists>xs. neutral xs \<and> fsm_events (commit_streaming_text s) = fsm_events s @ xs"
  by (auto simp: commit_streaming_text_def Let_def)

lemma commit_cancelled_events: "\<exists>xs. neutral xs \<and> fsm_events (commit_streaming_text_as_cancelled s) = fsm_events s @ xs"
  by (auto simp: commit_streaming_text_as_cancelled_def Let_def)

lemma cancel_turn_events: "\<exists>xs. neutral xs \<and> fsm_events (snd (cancel_turn ph s)) = fsm_events s @ map cancel_result (pending_ids (fsm_tools s)) @ xs"
proof -
  let ?r = "foldl cancel_tool (if ph \<noteq> StreamEnded then [AbortStream] else [], s) (pending_ids (fsm_tools s))"
  obtain xs where "neutral xs" "fsm_events (commit_streaming_text_as_cancelled (snd ?r)) = fsm_events (snd ?r) @ xs"
    using commit_cancelled_events by blast
  then show ?thesis
    by (auto simp: cancel_turn_def Let_def cancel_fold_sel)
qed

lemma track_call_view [simp]:
  "fsm_tools (snd (track_call i name input tool s)) = tools_insert i tool (fsm_tools s)"
  "fsm_events (snd (track_call i name input tool s)) = fsm_events s @ [ToolCall i name input]"
  "view_start_index (snd (track_call i name input tool s)) = view_start_index s"
  "tool_timeout_ids (snd (track_call i name input tool s)) = tool_timeout_ids s"
  "current_turn_tool_ids (snd (track_call i name input tool s)) = current_turn_tool_ids s @ [i]"
  "fst (track_call i name input tool s) = (case tool of AtuinOutput c \<Rightarrow> [ResolveOutputCommand i (output_history_id c)] | _ \<Rightarrow> []) @ [CheckPermission i tool]"
  by (simp_all add: track_call_def Let_def split: AgentState.splits StreamPhase.splits)

lemma tool_call_lifecycle:
  assumes "handle_stream_tool_call E i name input s = (es, s')"
  shows "lifecycle (StreamToolCall i name input) (fsm_tools s, fsm_events s) (tool_view s') \<and> (\<exists>content.
    s' = (push_event (error_result i content) (push_event (ToolCall i name input) s))\<lparr>current_turn_tool_ids := current_turn_tool_ids s @ [i]\<rparr> \<and> es = []
    \<or> (\<exists>tool. track_call i name input tool s = (es, s') \<and> name \<noteq> ''suggest_command''))"
proof -
  have name: "name \<noteq> ''suggest_command''" if "tool_try_from (fe_tools E) name input = Inr tool" for tool
    using that by (auto simp: tool_try_from_def)
  have refused: "lifecycle (StreamToolCall i name input) (tool_view s) (tool_view (snd (refuse_call i name input c s)))" for c
    using lifecycle.refused [of "[]" i name input "fsm_tools s" "fsm_events s" c] by (simp add: refuse_call_def)
  have tracked: "lifecycle (StreamToolCall i name input) (tool_view s) (tool_view (snd (track_call i name input tool s)))" if "name \<noteq> ''suggest_command''" for tool
    using lifecycle.tracked [of "[]" name i input "fsm_tools s" "fsm_events s" tool] that by simp
  from assms consider (r) c where "refuse_call i name input c s = (es, s')" | (t) tool where "track_call i name input tool s = (es, s')" "name \<noteq> ''suggest_command''"
    using name by (auto simp: handle_stream_tool_call_def split: sum.splits option.splits if_splits)
  then show ?thesis
  proof cases
    case r
    with refused [of c] show ?thesis by (auto simp: refuse_call_def)
  next
    case t
    with tracked [of tool] show ?thesis by (metis snd_conv)
  qed
qed

lemma open_toolI: "tools_get i ts = Some t \<Longrightarrow> \<not> is_resolved t \<Longrightarrow> open_tool i ts"
  by (simp add: open_tool_def)

lemma execute_tracked_view [simp]:
  "tool_view (snd (execute_tracked i c s)) = (tools_map i (with_state Executing) (fsm_tools s), fsm_events s)"
  "fsm_state (snd (execute_tracked i c s)) = fsm_state s" "view_start_index (snd (execute_tracked i c s)) = view_start_index s"
  "current_turn_tool_ids (snd (execute_tracked i c s)) = current_turn_tool_ids s"
  by (simp_all add: execute_tracked_def)

lemma deny_tracked_view [simp]:
  "tool_view (snd (deny_tracked E i c s)) = (tools_map i (with_state Denied) (fsm_tools s), fsm_events s @ [error_result i c])"
  by (simp add: deny_tracked_def)

lemma also_emit_snd [simp]: "snd (also_emit es r) = snd r" "fst (also_emit es r) = fst r @ es"
  by (simp_all add: also_emit_def)

lemma permission_lifecycle:
  "lifecycle (PermissionResolved i r) (tool_view s) (tool_view (snd (handle_permission_resolved E i r s)))"
  "lifecycle (PermissionUserChoice i c) (tool_view s) (tool_view (snd (handle_permission_choice E i c s)))"
proof -
  show "lifecycle (PermissionResolved i r) (tool_view s) (tool_view (snd (handle_permission_resolved E i r s)))"
  proof (cases "open_tool i (fsm_tools s)")
    case True
    then obtain t where t: "tools_get i (fsm_tools s) = Some t" "\<not> is_resolved t" by (auto simp: open_tool_def split: option.splits)
    with True show ?thesis
      by (cases r) (auto simp: handle_permission_resolved_def intro: permitted asked denied)
  next
    case False
    then have "snd (handle_permission_resolved E i r s) = s" by (auto simp: handle_permission_resolved_def open_tool_def split: option.splits)
    then show ?thesis by (simp add: quiet_nothing)
  qed
  show "lifecycle (PermissionUserChoice i c) (tool_view s) (tool_view (snd (handle_permission_choice E i c s)))"
  proof (cases "open_tool i (fsm_tools s)")
    case True
    then obtain t where t: "tools_get i (fsm_tools s) = Some t" "\<not> is_resolved t" by (auto simp: open_tool_def split: option.splits)
    with True show ?thesis
      by (cases c) (auto simp: handle_permission_choice_def intro: permitted denied)
  next
    case False
    then have "snd (handle_permission_choice E i c s) = s" by (auto simp: handle_permission_choice_def open_tool_def split: option.splits)
    then show ?thesis by (simp add: quiet_nothing)
  qed
qed

lemma done_lifecycle: "lifecycle (ToolExecutionDone i oc pv) (tool_view s) (tool_view (snd (handle_tool_done E i oc pv s)))"
proof (cases "open_tool i (fsm_tools s)")
  case True
  then obtain t where t: "tools_get i (fsm_tools s) = Some t" "\<not> is_resolved t" by (auto simp: open_tool_def split: option.splits)
  let ?reason = "or_else (interrupt_reason t) (if outcome_interrupted oc then Some UserInterrupt else None)"
  show ?thesis
    using finished [OF True, of oc pv "fsm_events s" "\<lambda>t. merge_preview ?reason (tool_preview t) pv" "format_for_llm ?reason oc" "outcome_is_error oc"] t
    by (simp add: handle_tool_done_def Let_def)
next
  case False
  then have "snd (handle_tool_done E i oc pv s) = s" by (auto simp: handle_tool_done_def open_tool_def split: option.splits)
  then show ?thesis by (simp add: quiet_nothing)
qed

lemma state_kept_changes:
  "state_kept (\<lambda>t. t\<lparr>interrupt_reason := r\<rparr>)"
  "state_kept (\<lambda>t. if is_resolved t then (case tool_preview t of
       Some (ShellPreviewData p) \<Rightarrow> t\<lparr>tool_preview := Some (ShellPreviewData (p\<lparr>prev_lines := lines\<rparr>))\<rparr> | _ \<Rightarrow> t)
     else t\<lparr>tool_preview := Some (ShellPreviewData \<lparr>prev_lines = lines, prev_exit_code = code, prev_interrupted = None\<rparr>)\<rparr>)"
  "state_kept (\<lambda>t. case tool_call t of AtuinOutput c \<Rightarrow> t\<lparr>tool_call := AtuinOutput (c\<lparr>output_command := command\<rparr>)\<rparr> | _ \<Rightarrow> t)"
  by (auto simp: state_kept_def keeps_id_def is_shell_def split: option.splits ToolPreviewData.splits ClientToolCall.splits)

lemma quiet_map: "state_kept f \<Longrightarrow> lifecycle ev (ts, es) (tools_map i f ts, es)"
  by (rule quiet_tools) (rule same_states_map)

lemmas quiet_changes = quiet_map [OF state_kept_changes(1)] quiet_map [OF state_kept_changes(2)] quiet_map [OF state_kept_changes(3)]

lemma stream_tool_call_lifecycle:
  assumes "handle E s (StreamToolCall i name input) = Some (es, s')"
  shows "lifecycle (StreamToolCall i name input) (tool_view s) (tool_view s')"
proof -
  obtain xs where xs: "neutral xs" "fsm_events (commit_streaming_text s) = fsm_events s @ xs" using commit_events by blast
  show ?thesis
  proof (cases "fsm_state s")
    case (Turn ph)
    then have "handle_stream_tool_call E i name input (commit_streaming_text s) = (es, s')"
      using assms by (simp add: handle_def on_stream_tool_call_def received_session_def)
    note view = track_call_view(1,2) [of i name input _ "commit_streaming_text s"]
    from tool_call_lifecycle [OF \<open>handle_stream_tool_call E i name input (commit_streaming_text s) = (es, s')\<close>] consider
      (r) content where "fsm_tools s' = fsm_tools s" "fsm_events s' = fsm_events s @ xs @ [ToolCall i name input, error_result i content]"
      | (t) tool where "name \<noteq> ''suggest_command''" "fsm_tools s' = tools_insert i tool (fsm_tools s)" "fsm_events s' = fsm_events s @ xs @ [ToolCall i name input]"
      using xs(2) by (elim conjE exE disjE) (simp_all, metis append.assoc commit_sel(1) snd_conv view)
    then show ?thesis using xs(1) by cases (simp_all add: lifecycle.refused lifecycle.tracked)
  qed (use assms in \<open>simp_all add: handle_def on_stream_tool_call_def received_session_def quiet_nothing\<close>)
qed

lemma suggest_command_lifecycle:
  assumes "handle E s (SuggestCommand i input) = Some (es, s')"
  shows "lifecycle (SuggestCommand i input) (tool_view s) (tool_view s')"
proof -
  obtain xs where xs: "neutral xs" "fsm_events (commit_streaming_text s) = fsm_events s @ xs" using commit_events by blast
  then have "lifecycle (SuggestCommand i input) (tool_view s) (fsm_tools s, fsm_events s @ (xs @ [ToolCall i ''suggest_command'' input]))" by (intro quiet_same) simp
  then show ?thesis using assms xs(2)
    by (auto simp: handle_def on_suggest_command_def received_session_def quiet_nothing split: AgentState.splits)
qed

lemma stream_done_lifecycle:
  assumes "handle E s (StreamDone sid) = Some (es, s')"
  shows "lifecycle (StreamDone sid) (tool_view s) (tool_view s')"
proof -
  obtain xs where xs: "neutral xs" "fsm_events (commit_streaming_text s) = fsm_events s @ xs" using commit_events by blast
  let ?s = "(note_session sid (commit_streaming_text s))\<lparr>fsm_state := Turn StreamEnded\<rparr>"
  have v: "tool_view (snd (check_turn_completion E ?s)) = (fsm_tools s, fsm_events s @ xs)" using xs(2) by simp
  show ?thesis
  proof (cases "fsm_state s")
    case (Turn ph)
    then have "s' = snd (check_turn_completion E ?s)" using assms by (simp add: handle_def on_stream_done_def received_session_def)
    with v show ?thesis using quiet_same [OF xs(1)] by simp
  qed (use assms in \<open>auto simp: handle_def on_stream_done_def received_session_def quiet_nothing\<close>)
qed

lemma cancel_lifecycle:
  assumes "handle E s Cancel = Some (es, s')"
  shows "lifecycle Cancel (tool_view s) (tool_view s')"
proof -
  show ?thesis
  proof (cases "fsm_state s")
    case (Turn ph)
    then have "s' = snd (cancel_turn ph s)" using assms by (simp add: handle_def on_cancel_def received_session_def)
    moreover obtain xs where "neutral xs" "fsm_events (snd (cancel_turn ph s)) = fsm_events s @ map cancel_result (pending_ids (fsm_tools s)) @ xs"
      using cancel_turn_events by blast
    ultimately show ?thesis by (simp add: cancel_turn_sel lifecycle.cancelled)
  qed (use assms in \<open>auto simp: handle_def on_cancel_def received_session_def quiet_nothing split: option.splits if_splits\<close>)
qed

text \<open>The machine follows the protocol.\<close>

lemma handle_lifecycle:
  assumes "handle E s ev = Some (es, s')"
  shows "lifecycle ev (tool_view s) (tool_view s')"
proof (cases ev)
  case (StreamToolCall i name input)
  then show ?thesis using assms stream_tool_call_lifecycle by simp
next
  case (SuggestCommand i input)
  then show ?thesis using assms suggest_command_lifecycle by simp
next
  case (StreamDone sid)
  then show ?thesis using assms stream_done_lifecycle by simp
next
  case Cancel
  then show ?thesis using assms cancel_lifecycle by simp
next
  case (PermissionResolved i r)
  then show ?thesis using assms permission_lifecycle(1) [of i r s E]
    by (auto simp: handle_def in_turn_def received_session_def quiet_nothing split: AgentState.splits)
next
  case (PermissionUserChoice i c)
  then show ?thesis using assms permission_lifecycle(2) [of i c s E]
    by (auto simp: handle_def in_turn_def received_session_def quiet_nothing split: AgentState.splits)
next
  case (ToolExecutionDone i oc pv)
  then show ?thesis using assms done_lifecycle [of i oc pv s E]
    by (auto simp: handle_def in_turn_def received_session_def quiet_nothing split: AgentState.splits)
next
  case (ToolPreviewUpdate i lines code)
  then show ?thesis using assms
    by (auto simp: handle_def on_preview_update_def received_session_def quiet_nothing quiet_changes split: AgentState.splits)
next
  case (OutputCommandResolved i command)
  then show ?thesis using assms
    by (auto simp: handle_def on_output_command_def received_session_def quiet_changes)
next
  case InterruptTools
  have "same_states (fsm_tools s) (fsm_tools (foldl interrupt_tool s (executing_ids (fsm_tools s))))"
    unfolding interrupt_fold_sel by (rule same_states_fold) (rule state_kept_changes)
  then show ?thesis using assms InterruptTools
    by (auto simp: handle_def on_interrupt_tools_def received_session_def interrupt_fold_sel quiet_nothing intro: quiet_tools split: AgentState.splits)
next
  case (ToolExecutionTimeout k i)
  then show ?thesis using assms
    by (auto simp: handle_def handle_tool_execution_timeout_def received_session_def Let_def quiet_nothing quiet_changes
        split: AgentState.splits option.splits if_splits ClientToolCall.splits)
next
  case NewSession
  then show ?thesis using assms
    by (auto simp: handle_def on_new_session_def received_session_def quiet_nothing intro!: forgotten split: AgentState.splits if_splits)
next
  case (StreamServerToolResult i content is_error remote len)
  then show ?thesis using assms
    by (auto simp: handle_def on_server_result_def received_session_def quiet_nothing intro: served split: AgentState.splits StreamPhase.splits)
next
  case (SkillLoaded name arguments content)
  then show ?thesis using assms
    by (auto simp: handle_def on_skill_loaded_def received_session_def send_def Let_def intro!: quiet_same split: AgentState.splits)
next
  case (UserSubmit msg)
  then show ?thesis using assms
    by (auto simp: handle_def on_user_submit_def start_turn_def received_session_def send_def Let_def quiet_nothing intro!: quiet_same split: AgentState.splits)
qed (use assms in \<open>auto simp: handle_def received_session_def on_execute_command_def on_insert_command_def on_retry_def send_def on_stream_started_def
    on_stream_chunk_def on_status_changed_def on_stream_error_def on_confirmation_timeout_def on_open_model_picker_def on_model_list_def on_model_selected_def
    Let_def quiet_nothing intro!: quiet_same split: AgentState.splits StreamPhase.splits option.splits if_splits sum.splits\<close>)

end
