(* ===== verification/Ai_Runs.thy ===== *)
theory Ai_Runs
  imports Ai_Fsm
begin

text \<open>
  What holds of the agent's machine in every run, over the model of \<open>Ai_Fsm\<close>: the tool protocol
  \<open>lifecycle\<close>, which every step of \<open>handle\<close> follows, gives the accounting of calls and results; the effects
  of a step show when a tool is executed; two invariants of the reachable states exclude the panics of the
  code; and a turn whose stream has ended waits for a tool. The last theorem is about a retry after an
  error, where that tool's end has already been delivered.
\<close>

section \<open>Every call is answered once\<close>

definition answered :: "ToolManager \<times> ConversationEvent list \<Rightarrow> bool" where
  "answered v \<longleftrightarrow> distinct (map tool_id (fst v)) \<and> (\<forall>i. called i (snd v) \<longrightarrow> results i (snd v) = (if open_tool i (fst v) then 0 else 1))"

text \<open>The driver's promise for an event, as far as it concerns the tools and the log.\<close>

definition fresh_event :: "ToolManager \<times> ConversationEvent list \<Rightarrow> Event \<Rightarrow> bool" where
  "fresh_event v ev =
     (case ev of
        StreamToolCall i _ _ \<Rightarrow> i \<notin> tool_id ` set (fst v) \<and> \<not> called i (snd v) \<and> results i (snd v) = 0
      | StreamServerToolResult i _ _ _ _ \<Rightarrow> i \<notin> tool_id ` set (fst v) \<and> \<not> called i (snd v)
      | _ \<Rightarrow> True)"

lemma log_append [simp]:
  "called i (es @ xs) \<longleftrightarrow> called i es \<or> called i xs" "results i (es @ xs) = results i es + results i xs" "\<not> called i []" "results i [] = 0"
  by (simp_all add: called_def results_def)

lemma log_singles [simp]:
  "called i [ToolCall j name input] \<longleftrightarrow> j = i \<and> name \<noteq> ''suggest_command''" "results i [ToolCall j name input] = 0"
  "\<not> called i [ToolResult j c e r l]" "results i [ToolResult j c e r l] = (if j = i then 1 else 0)"
  "\<not> called i [error_result j c]" "results i [error_result j c] = (if j = i then 1 else 0)"
  "called i [ToolCall j name input, error_result k c] \<longleftrightarrow> j = i \<and> name \<noteq> ''suggest_command''"
  "results i [ToolCall j name input, error_result k c] = (if k = i then 1 else 0)"
  by (simp_all add: called_def results_def call_of_def result_of_def error_result_def)

lemma neutral_log: "neutral xs \<Longrightarrow> \<not> called i xs" "neutral xs \<Longrightarrow> results i xs = 0"
  by (auto simp: neutral_def called_def results_def call_of_def result_of_def list_all_iff list_ex_iff filter_empty_conv split: ConversationEvent.splits)

lemma open_insert: "i \<notin> tool_id ` set ts \<Longrightarrow> open_tool j (tools_insert i tool ts) \<longleftrightarrow> j = i \<or> open_tool j ts"
  using tools_get_None [of i ts] by (auto simp: open_tool_def tools_get_insert is_resolved_def split: option.splits)

lemma open_map: "keeps_id f \<Longrightarrow> open_tool i ts \<Longrightarrow> (\<And>t. is_resolved (f t) = r) \<Longrightarrow> open_tool j (tools_map i f ts) \<longleftrightarrow> (if j = i then \<not> r else open_tool j ts)"
  by (auto simp: open_tool_def tools_get_map split: option.splits)

lemma pending_is_open: "distinct (map tool_id ts) \<Longrightarrow> i \<in> set (pending_ids ts) \<longleftrightarrow> open_tool i ts"
  by (induction ts) (auto simp: pending_ids_def open_tool_def tools_get_def image_iff split: option.splits dest: find_Some_iff [THEN iffD1])

lemma cancel_log: "\<not> called i (map cancel_result ids)" "distinct ids \<Longrightarrow> results i (map cancel_result ids) = (if i \<in> set ids then 1 else 0)"
  by (induction ids) (auto simp: called_def results_def call_of_def result_of_def error_result_def cancel_result_def filter_map comp_def)

lemma lifecycle_ids: "lifecycle ev v w \<Longrightarrow> fresh_event v ev \<Longrightarrow> distinct (map tool_id (fst v)) \<Longrightarrow> distinct (map tool_id (fst w))"
proof (induction rule: lifecycle.induct)
  case (cancelled xs ts es)
  have "map tool_id (foldl (\<lambda>ts i. tools_map i (with_state Completed) ts) ts ids) = map tool_id ts" for ids
    by (induction ids arbitrary: ts) simp_all
  with cancelled show ?case by simp
qed (auto simp: same_states_def tools_insert_def fresh_event_def)

lemma lifecycle_open:
  assumes "lifecycle ev v w" "fresh_event v ev" "answered v"
  shows "called i (snd w) \<longrightarrow> results i (snd w) = (if open_tool i (fst w) then 0 else 1)"
  using assms
proof (induction rule: lifecycle.induct)
  case (quiet ts ts' xs ev es)
  then show ?case by (auto simp: answered_def neutral_log same_states_open)
next
  case (refused xs j name input ts es content)
  then have "\<not> open_tool j ts" by (auto simp: fresh_event_def open_tool_def split: option.splits dest: tools_get_id)
  with refused show ?case by (auto simp: answered_def neutral_log fresh_event_def)
next
  case (cancelled xs ts es)
  then have d: "distinct (map tool_id ts)" by (simp add: answered_def)
  then have "distinct (pending_ids ts)" by (simp add: pending_ids_def distinct_map_filter)
  moreover have "\<not> open_tool i (foldl (\<lambda>ts i. tools_map i (with_state Completed) ts) ts (pending_ids ts))"
    using pending_is_open [OF d, of i] by (auto simp: open_tool_def cancel_fold_get split: option.splits)
  ultimately show ?case using cancelled pending_is_open [OF d, of i] by (auto simp: answered_def neutral_log cancel_log)
qed (auto simp: answered_def neutral_log fresh_event_def open_insert open_map [where r = False] open_map [where r = True] is_resolved_def)

lemma lifecycle_answered: "lifecycle ev v w \<Longrightarrow> fresh_event v ev \<Longrightarrow> answered v \<Longrightarrow> answered w"
  using lifecycle_ids lifecycle_open unfolding answered_def by metis

lemma may_happen_fresh: "may_happen s ev \<Longrightarrow> fresh_event (tool_view s) ev"
  by (auto simp: may_happen_def fresh_event_def split: Event.splits)

lemma reach_answered: "reach E s \<Longrightarrow> answered (tool_view s)"
proof (induction rule: reach.induct)
  case (start start evs sid caps invo resumed last_time)
  then show ?case by (simp add: answered_def answered_log_def from_session_def open_tool_def tools_get_def)
next
  case (step s ev es s')
  then show ?case using handle_lifecycle lifecycle_answered may_happen_fresh by blast
qed

section \<open>What is executed\<close>

text \<open>The events that permit a tool.\<close>

definition grants :: "string \<Rightarrow> Event \<Rightarrow> bool" where
  "grants i ev =
     (case ev of
        PermissionResolved j r \<Rightarrow> j = i \<and> (r = Allowed \<or> r = SessionGranted)
      | PermissionUserChoice j c \<Rightarrow> j = i \<and> c \<noteq> Deny
      | _ \<Rightarrow> False)"

definition executes :: "string \<Rightarrow> Effect list \<Rightarrow> bool" where
  "executes i es = list_ex (\<lambda>e. case e of ExecuteTool j _ \<Rightarrow> j = i | _ \<Rightarrow> False) es"

definition checks :: "string \<Rightarrow> Effect list \<Rightarrow> bool" where
  "checks i es = list_ex (\<lambda>e. case e of CheckPermission j _ \<Rightarrow> j = i | _ \<Rightarrow> False) es"

lemma executes_append [simp]: "executes i (es @ fs) \<longleftrightarrow> executes i es \<or> executes i fs" "\<not> executes i []"
  by (simp_all add: executes_def)

lemma checks_append [simp]: "checks i (es @ fs) \<longleftrightarrow> checks i es \<or> checks i fs" "\<not> checks i []" "checks i [CheckPermission j c] \<longleftrightarrow> j = i"
  by (simp_all add: checks_def)

lemma no_execution [simp]:
  "\<not> executes i [CheckPermission j c]" "\<not> executes i [ResolveOutputCommand j n]" "\<not> executes i [StartStream ms sid]" "\<not> executes i (map AbortTool ids)"
  "\<not> executes i [Persist]" "\<not> executes i [TurnEnded, Persist]" "\<not> executes i [ArchiveSession, Persist]" "\<not> executes i [ExitApp a]" "\<not> executes i [ScheduleTimeout n m k]"
  "\<not> executes i [AbortTool j]" "\<not> executes i [CacheSessionGrant p]" "\<not> executes i [WritePermissionRule tg r d]" "\<not> executes i [FetchModels]"
  "\<not> executes i [SaveModelSelection p]" "\<not> executes i [LoadSkillEffect p q]"
  by (simp_all add: executes_def list_ex_iff)

lemma send_executes [simp]: "\<not> executes i (fst (send E s))"
  by simp

lemma check_executes [simp]: "\<not> executes i (fst (check_turn_completion E s))"
  by (simp add: check_turn_completion_def)

lemma deny_executes [simp]: "\<not> executes i (fst (deny_tracked E j c s))"
  by (simp add: deny_tracked_def)

lemma execute_tracked_executes [simp]: "executes i (fst (execute_tracked j c s)) \<longleftrightarrow> j = i"
  by (simp add: execute_tracked_def emit_execute_tool_def executes_def Let_def split: ClientToolCall.splits)

lemma cancel_executes [simp]: "\<not> executes i (fst (cancel_turn ph s))"
  using cancel_turn_effects [of _ ph s] by (fastforce simp: executes_def list_ex_iff split: Effect.splits)

lemma tool_call_executes [simp]: "\<not> executes i (fst (handle_stream_tool_call E j name input s))"
  by (auto simp: handle_stream_tool_call_def refuse_call_def split: sum.splits option.splits ClientToolCall.splits)

lemma permission_executes:
  "executes i (fst (handle_permission_resolved E j r s)) \<Longrightarrow> open_tool i (fsm_tools s) \<and> grants i (PermissionResolved j r)"
  "executes i (fst (handle_permission_choice E j c s)) \<Longrightarrow> open_tool i (fsm_tools s) \<and> grants i (PermissionUserChoice j c)"
  by (auto simp: handle_permission_resolved_def handle_permission_choice_def grants_def open_tool_def
      split: option.splits if_splits PermissionResponse.splits PermissionChoice.splits)

lemma done_executes [simp]: "\<not> executes i (fst (handle_tool_done E j oc pv s))"
  by (simp add: handle_tool_done_def Let_def split: option.splits)

lemma handle_executes:
  assumes "handle E s ev = Some (es, s')" "executes i es"
  shows "grants i ev \<and> open_tool i (fsm_tools s)"
proof (cases ev)
  case (PermissionResolved j r)
  then show ?thesis using assms permission_executes(1) [of i E j r s]
    by (auto simp: handle_def in_turn_def received_session_def split: AgentState.splits)
next
  case (PermissionUserChoice j c)
  then show ?thesis using assms permission_executes(2) [of i E j c s]
    by (auto simp: handle_def in_turn_def received_session_def split: AgentState.splits)
next
  case (ToolExecutionDone j oc pv)
  then have "es = [] \<or> es = fst (handle_tool_done E j oc pv s)" using assms(1)
    by (auto simp: handle_def in_turn_def received_session_def split: AgentState.splits)
  then show ?thesis using assms(2) by auto
next
  case (StreamToolCall j name input)
  then have "es = [] \<or> es = fst (handle_stream_tool_call E j name input (commit_streaming_text s))" using assms(1)
    by (auto simp: handle_def on_stream_tool_call_def received_session_def split: AgentState.splits)
  then show ?thesis using assms(2) by auto
next
  case (StreamDone sid)
  then have "es = [Persist] \<or> es = fst (check_turn_completion E ((note_session sid (commit_streaming_text s))\<lparr>fsm_state := Turn StreamEnded\<rparr>))" using assms(1)
    by (auto simp: handle_def on_stream_done_def received_session_def split: AgentState.splits)
  then show ?thesis using assms(2) by auto
next
  case Cancel
  then have "es = [] \<or> es = [ExitApp CancelAction] \<or> (\<exists>ph. es = fst (cancel_turn ph s))" using assms(1)
    by (auto simp: handle_def on_cancel_def received_session_def split: AgentState.splits option.splits if_splits) (metis fst_conv)
  then show ?thesis using assms(2) by auto
next
  case (ToolExecutionTimeout k j)
  then show ?thesis using assms
    by (auto simp: handle_def handle_tool_execution_timeout_def received_session_def Let_def split: AgentState.splits option.splits if_splits ClientToolCall.splits)
qed (use assms in \<open>auto simp: handle_def received_session_def on_user_submit_def start_turn_def on_execute_command_def on_insert_command_def on_retry_def send_def
    on_stream_started_def on_interrupt_tools_def on_suggest_command_def on_server_result_def on_preview_update_def on_output_command_def on_new_session_def
    on_skill_loaded_def on_stream_chunk_def on_status_changed_def on_stream_error_def on_confirmation_timeout_def on_open_model_picker_def on_model_list_def
    on_model_selected_def Let_def split: AgentState.splits StreamPhase.splits option.splits if_splits sum.splits\<close>)

lemma lifecycle_evolves: "lifecycle ev v w \<Longrightarrow> evolves (fst v) (fst w)"
  by (induction rule: lifecycle.induct) (auto simp: same_states_evolves evolves_map_open evolves_cancel)

lemma handle_evolves: "handle E s ev = Some (es, s') \<Longrightarrow> evolves (fsm_tools s) (fsm_tools s')"
  using handle_lifecycle lifecycle_evolves by fastforce

lemma run_evolves: "run E s evs = Some (tr, s') \<Longrightarrow> evolves (fsm_tools s) (fsm_tools s')"
  by (induction evs arbitrary: s tr) (fastforce split: option.splits prod.splits dest: handle_evolves intro: evolves_trans)+

definition resolved_tool :: "string \<Rightarrow> ToolManager \<Rightarrow> bool" where
  "resolved_tool i ts = (case tools_get i ts of Some t \<Rightarrow> is_resolved t | None \<Rightarrow> False)"

lemma resolved_evolves: "evolves ts ts' \<Longrightarrow> resolved_tool i ts \<Longrightarrow> resolved_tool i ts'"
  unfolding evolves_def resolved_tool_def by (auto split: option.splits dest: spec [of _ i])

lemma resolved_not_run: "run E s evs = Some (tr, s') \<Longrightarrow> resolved_tool i (fsm_tools s) \<Longrightarrow> (ev, es) \<in> set tr \<Longrightarrow> \<not> executes i es"
proof (induction evs arbitrary: s tr)
  case (Cons ev0 evs)
  from Cons.prems(1) obtain es0 s0 tr0 where h: "handle E s ev0 = Some (es0, s0)" "run E s0 evs = Some (tr0, s')" "tr = (ev0, es0) # tr0"
    by (auto split: option.splits prod.splits)
  have "\<not> executes i es0" using handle_executes [OF h(1), of i] Cons.prems(2) by (auto simp: open_tool_def resolved_tool_def split: option.splits)
  with Cons.IH [OF h(2)] resolved_evolves [OF handle_evolves [OF h(1)] Cons.prems(2)] Cons.prems(3) h(3) show ?case by auto
qed simp

text \<open>The events that end a tool call in a turn.\<close>

definition ends_tool :: "string \<Rightarrow> Event \<Rightarrow> bool" where
  "ends_tool i ev =
     (case ev of
        Cancel \<Rightarrow> True
      | PermissionResolved j r \<Rightarrow> j = i \<and> r = DeniedResponse
      | PermissionUserChoice j c \<Rightarrow> j = i \<and> c = Deny
      | ToolExecutionDone j _ _ \<Rightarrow> j = i
      | _ \<Rightarrow> False)"

lemma map_resolves: "keeps_id f \<Longrightarrow> (\<And>t. is_resolved (f t)) \<Longrightarrow> tools_get i ts \<noteq> None \<Longrightarrow> resolved_tool i (tools_map i f ts)"
  by (auto simp: resolved_tool_def tools_get_map)

lemma ends_tool_resolves:
  assumes "handle E s ev = Some (es, s')" "ends_tool i ev" "fsm_state s = Turn ph" "tools_get i (fsm_tools s) \<noteq> None"
  shows "resolved_tool i (fsm_tools s')"
proof -
  have denied: "tools_get i (fsm_tools s) = Some t \<Longrightarrow> is_resolved t \<Longrightarrow> resolved_tool i (fsm_tools s)" for t by (simp add: resolved_tool_def)
  have d: "resolved_tool i (fsm_tools (snd (deny_tracked E i c s)))" for c
    using assms(4) map_resolves [of "with_state Denied"] by (simp add: deny_tracked_def)
  from assms(2) consider "ev = Cancel" | "ev = PermissionResolved i DeniedResponse" | "ev = PermissionUserChoice i Deny" | oc pv where "ev = ToolExecutionDone i oc pv"
    by (auto simp: ends_tool_def split: Event.splits)
  then show ?thesis
  proof cases
    case 1
    with assms have "s' = snd (cancel_turn ph s)" by (simp add: handle_def on_cancel_def received_session_def)
    with assms(4) cancel_turn_resolves [of i s _ ph] show ?thesis by (auto simp: resolved_tool_def)
  next
    case 2
    with assms have "s' = snd (handle_permission_resolved E i DeniedResponse s)" by (simp add: handle_def in_turn_def received_session_def)
    with assms(4) d denied show ?thesis by (auto simp: handle_permission_resolved_def)
  next
    case 3
    with assms have "s' = snd (handle_permission_choice E i Deny s)" by (simp add: handle_def in_turn_def received_session_def)
    with assms(4) d denied show ?thesis by (auto simp: handle_permission_choice_def)
  next
    case 4
    with assms have "s' = snd (handle_tool_done E i oc pv s)" by (simp add: handle_def in_turn_def received_session_def)
    with assms(4) denied show ?thesis by (auto simp: handle_tool_done_def Let_def is_resolved_def intro!: map_resolves)
  qed
qed

text \<open>Only a call that is checked for permission becomes a tracked tool.\<close>

lemma get_map_None: "keeps_id f \<Longrightarrow> tools_get j (tools_map i f ts) = None \<longleftrightarrow> tools_get j ts = None"
  by (simp add: tools_get_map)

lemma lifecycle_new_tool:
  assumes "lifecycle ev v w" "tools_get i (fst w) \<noteq> None" "tools_get i (fst v) = None"
  shows "\<exists>name input. ev = StreamToolCall i name input"
  using assms
proof (induction rule: lifecycle.induct)
  case (quiet ts ts' xs ev es)
  then have "map_option tool_state (tools_get i ts') = map_option tool_state (tools_get i ts)" by (simp add: same_states_def)
  with quiet show ?case by auto
next
  case (tracked xs name j input ts es tool)
  then show ?case by (auto simp: tools_get_insert split: if_splits)
qed (auto simp: get_map_None tools_get_map cancel_fold_get split: if_splits)

lemma handle_new_tool:
  assumes "handle E s ev = Some (es, s')" "tools_get i (fsm_tools s') \<noteq> None" "tools_get i (fsm_tools s) = None"
  shows "checks i es"
proof -
  obtain name input where ev: "ev = StreamToolCall i name input" using lifecycle_new_tool [OF handle_lifecycle [OF assms(1)], of i] assms(2,3) by auto
  have "s' \<noteq> s" using assms(2,3) by auto
  then have h: "handle_stream_tool_call E i name input (commit_streaming_text s) = (es, s')"
    using assms(1) ev by (auto simp: handle_def on_stream_tool_call_def received_session_def split: AgentState.splits)
  then have "fsm_tools s' = fsm_tools s \<or> (\<exists>tool. track_call i name input tool (commit_streaming_text s) = (es, s'))"
    using tool_call_lifecycle [OF h] by auto
  then obtain tool where "track_call i name input tool (commit_streaming_text s) = (es, s')" using assms(2,3) by auto
  then show ?thesis using track_call_view(6) [of i name input tool "commit_streaming_text s"] by auto
qed

text \<open>The start of a run, without tools, and the trace up to a step.\<close>

lemma run_checked:
  assumes "run E s evs = Some (tr, s')" "tr = pre @ (ev, es) # post" "executes i es"
  shows "grants i ev \<and> (tools_get i (fsm_tools s) \<noteq> None \<or> (\<exists>(ev', es') \<in> set pre. checks i es'))"
  using assms
proof (induction evs arbitrary: s tr pre)
  case (Cons ev0 evs)
  from Cons.prems(1) obtain es0 s0 tr0 where h: "handle E s ev0 = Some (es0, s0)" "run E s0 evs = Some (tr0, s')" "tr = (ev0, es0) # tr0"
    by (auto split: option.splits prod.splits)
  show ?case
  proof (cases pre)
    case Nil
    with Cons.prems h have "grants i ev0 \<and> open_tool i (fsm_tools s)" using handle_executes by auto
    with Nil Cons.prems(2) h(3) show ?thesis by (auto simp: open_tool_def split: option.splits)
  next
    case (Cons p pre')
    with Cons.prems(2) h(3) have p: "p = (ev0, es0)" "tr0 = pre' @ (ev, es) # post" by auto
    note ih = Cons.IH [OF h(2) p(2) Cons.prems(3)]
    with handle_new_tool [OF h(1), of i] p(1) Cons show ?thesis by auto
  qed
qed simp

section \<open>No panic\<close>

text \<open>
  The invariant behind it: the view starts inside the log, and every scheduled timeout belongs to a
  shell command that is tracked.
\<close>

definition timeouts_shell :: "AgentFsm \<Rightarrow> bool" where
  "timeouts_shell s \<longleftrightarrow> (\<forall>k i. tool_timeout_ids s k = Some i \<longrightarrow> (\<exists>t. tools_get i (fsm_tools s) = Some t \<and> is_shell (tool_call t)))"

lemma retain_Some: "retain_timeouts i m k = Some j \<Longrightarrow> m k = Some j"
  by (simp add: retain_timeouts_def split: option.splits if_splits)

lemma execute_timeouts:
  assumes "tools_get i (fsm_tools s) = Some t" "tool_timeout_ids (snd (execute_tracked i (tool_call t) s)) k = Some j"
  shows "tool_timeout_ids s k = Some j \<or> (\<exists>t. tools_get j (fsm_tools s) = Some t \<and> is_shell (tool_call t))"
proof (cases "is_shell (tool_call t)")
  case True
  with assms show ?thesis by (auto simp: execute_tracked_def emit_execute_tool_def Let_def split: ClientToolCall.splits if_splits)
next
  case False
  with assms show ?thesis by (auto simp: execute_tracked_def emit_execute_tool_def is_shell_def split: ClientToolCall.splits)
qed

lemma permission_timeouts:
  assumes "tool_timeout_ids (snd r) k = Some j" "r = handle_permission_resolved E i resp s \<or> r = handle_permission_choice E i ch s"
  shows "tool_timeout_ids s k = Some j \<or> (\<exists>t. tools_get j (fsm_tools s) = Some t \<and> is_shell (tool_call t))"
proof (cases "open_tool i (fsm_tools s)")
  case True
  then obtain t where t: "tools_get i (fsm_tools s) = Some t" "\<not> is_resolved t" by (auto simp: open_tool_def split: option.splits)
  have "tool_timeout_ids (snd r) = tool_timeout_ids s \<or> snd r = snd (execute_tracked i (tool_call t) s)"
    using assms(2) t by (cases resp; cases ch) (auto simp: handle_permission_resolved_def handle_permission_choice_def deny_tracked_def)
  then show ?thesis using assms(1) execute_timeouts [OF t(1)] by metis
next
  case False
  then have "snd r = s" using assms(2)
    by (auto simp: handle_permission_resolved_def handle_permission_choice_def open_tool_def split: option.splits)
  with assms(1) show ?thesis by simp
qed

lemma tool_call_sel:
  assumes "handle_stream_tool_call E i name input s = (es, s')"
  shows "tool_timeout_ids s' = tool_timeout_ids s" "view_start_index s' = view_start_index s"
proof -
  from tool_call_lifecycle [OF assms] consider
    (r) content where "s' = (push_event (error_result i content) (push_event (ToolCall i name input) s))\<lparr>current_turn_tool_ids := current_turn_tool_ids s @ [i]\<rparr>"
    | (t) tool where "snd (track_call i name input tool s) = s'" by (metis snd_conv)
  then have "tool_timeout_ids s' = tool_timeout_ids s \<and> view_start_index s' = view_start_index s"
    by cases (simp, use track_call_view(3,4) [of i name input _ s] in metis)
  then show "tool_timeout_ids s' = tool_timeout_ids s" "view_start_index s' = view_start_index s" by simp_all
qed

lemma handle_timeouts:
  assumes "handle E s ev = Some (es, s')" "tool_timeout_ids s' k = Some j"
  shows "tool_timeout_ids s k = Some j \<or> (\<exists>t. tools_get j (fsm_tools s) = Some t \<and> is_shell (tool_call t))"
proof (cases ev)
  case (PermissionResolved i r)
  then have "s' = s \<or> s' = snd (handle_permission_resolved E i r s)" using assms(1)
    by (auto simp: handle_def in_turn_def received_session_def split: AgentState.splits)
  then show ?thesis using assms(2) permission_timeouts by metis
next
  case (PermissionUserChoice i c)
  then have "s' = s \<or> s' = snd (handle_permission_choice E i c s)" using assms(1)
    by (auto simp: handle_def in_turn_def received_session_def split: AgentState.splits)
  then show ?thesis using assms(2) permission_timeouts by metis
next
  case (ToolExecutionDone i oc pv)
  then have "s' = s \<or> s' = snd (handle_tool_done E i oc pv s)" using assms(1)
    by (auto simp: handle_def in_turn_def received_session_def split: AgentState.splits)
  then show ?thesis using assms(2) by (auto simp: handle_tool_done_def Let_def split: option.splits if_splits dest: retain_Some)
next
  case (StreamToolCall i name input)
  then have "s' = s \<or> handle_stream_tool_call E i name input (commit_streaming_text s) = (es, s')" using assms(1)
    by (auto simp: handle_def on_stream_tool_call_def received_session_def split: AgentState.splits)
  then show ?thesis using assms(2) by (auto dest!: tool_call_sel(1))
next
  case (StreamDone sid)
  then have "s' = note_session sid s \<or> s' = snd (check_turn_completion E ((note_session sid (commit_streaming_text s))\<lparr>fsm_state := Turn StreamEnded\<rparr>))" using assms(1)
    by (auto simp: handle_def on_stream_done_def received_session_def split: AgentState.splits)
  then show ?thesis using assms(2) by auto
next
  case Cancel
  then have "tool_timeout_ids s' = tool_timeout_ids s \<or> (\<exists>ph. s' = snd (cancel_turn ph s))" using assms(1)
    by (auto simp: handle_def on_cancel_def received_session_def split: AgentState.splits option.splits if_splits) (metis snd_conv)
  then show ?thesis using assms(2) by (auto simp: cancel_turn_sel)
next
  case InterruptTools
  then have "s' = s \<or> s' = foldl interrupt_tool s (executing_ids (fsm_tools s))" using assms(1)
    by (auto simp: handle_def on_interrupt_tools_def received_session_def split: AgentState.splits)
  then show ?thesis using assms(2) interrupt_fold_timeouts by metis
next
  case (ToolExecutionTimeout n i)
  then show ?thesis using assms
    by (auto simp: handle_def handle_tool_execution_timeout_def received_session_def Let_def
        split: AgentState.splits option.splits if_splits ClientToolCall.splits)
next
  case ExecuteCommand
  then have "tool_timeout_ids s' = tool_timeout_ids s" using assms(1)
    by (auto simp: handle_def on_execute_command_def received_session_def Let_def split: AgentState.splits option.splits if_splits)
  with assms(2) show ?thesis by simp
next
  case (ModelListLoaded r)
  then have "tool_timeout_ids s' = tool_timeout_ids s" using assms(1)
    by (auto simp: handle_def on_model_list_def received_session_def Let_def split: sum.splits if_splits)
  with assms(2) show ?thesis by simp
next
  case NewSession
  then show ?thesis using assms by (auto simp: handle_def on_new_session_def received_session_def split: AgentState.splits if_splits)
qed (use assms in \<open>auto simp: handle_def received_session_def on_user_submit_def start_turn_def on_execute_command_def on_insert_command_def on_retry_def send_def
    on_stream_started_def on_suggest_command_def on_server_result_def on_preview_update_def on_output_command_def
    on_skill_loaded_def on_stream_chunk_def on_status_changed_def on_stream_error_def on_confirmation_timeout_def on_open_model_picker_def on_model_list_def
    on_model_selected_def Let_def split: AgentState.splits StreamPhase.splits option.splits if_splits sum.splits\<close>)

lemma handle_timeouts_shell: "handle E s ev = Some (es, s') \<Longrightarrow> timeouts_shell s \<Longrightarrow> timeouts_shell s'"
  using handle_timeouts [of E s ev es s'] handle_evolves [of E s ev es s'] unfolding timeouts_shell_def evolves_def by metis

lemma permission_view:
  "view_start_index (snd (handle_permission_resolved E i r s)) = view_start_index s"
  "view_start_index (snd (handle_permission_choice E i c s)) = view_start_index s"
  "view_start_index (snd (handle_tool_done E i oc pv s)) = view_start_index s"
  by (simp_all add: handle_permission_resolved_def handle_permission_choice_def handle_tool_done_def deny_tracked_def Let_def
      split: option.splits PermissionResponse.splits PermissionChoice.splits)

lemma handle_view:
  assumes "handle E s ev = Some (es, s')" "ev \<noteq> NewSession"
  shows "view_start_index s' = view_start_index s"
proof (cases ev)
  case (StreamToolCall i name input)
  then have "s' = s \<or> handle_stream_tool_call E i name input (commit_streaming_text s) = (es, s')" using assms(1)
    by (auto simp: handle_def on_stream_tool_call_def received_session_def split: AgentState.splits)
  then show ?thesis by (auto dest!: tool_call_sel(2))
next
  case Cancel
  then show ?thesis using assms(1)
    by (auto simp: handle_def on_cancel_def received_session_def split: AgentState.splits option.splits if_splits) (metis cancel_turn_sel(4) snd_conv)
next
  case (ToolExecutionTimeout n i)
  then show ?thesis using assms(1)
    by (auto simp: handle_def handle_tool_execution_timeout_def received_session_def Let_def
        split: AgentState.splits option.splits if_splits ClientToolCall.splits)
next
  case (PermissionResolved i r)
  then show ?thesis using assms(1) permission_view(1) [of E i r s] by (auto simp: handle_def in_turn_def received_session_def split: AgentState.splits)
next
  case (PermissionUserChoice i c)
  then show ?thesis using assms(1) permission_view(2) [of E i c s] by (auto simp: handle_def in_turn_def received_session_def split: AgentState.splits)
next
  case (ToolExecutionDone i oc pv)
  then show ?thesis using assms(1) permission_view(3) [of E i oc pv s] by (auto simp: handle_def in_turn_def received_session_def split: AgentState.splits)
next
  case (StreamDone sid)
  then have "s' = note_session sid s \<or> s' = snd (check_turn_completion E ((note_session sid (commit_streaming_text s))\<lparr>fsm_state := Turn StreamEnded\<rparr>))" using assms(1)
    by (auto simp: handle_def on_stream_done_def received_session_def split: AgentState.splits)
  then show ?thesis by auto
qed (use assms in \<open>auto simp: handle_def received_session_def on_user_submit_def start_turn_def on_execute_command_def on_insert_command_def on_retry_def send_def
    on_stream_started_def on_suggest_command_def on_server_result_def on_preview_update_def on_output_command_def on_interrupt_tools_def interrupt_fold_sel
    on_skill_loaded_def on_stream_chunk_def on_status_changed_def on_stream_error_def on_confirmation_timeout_def on_open_model_picker_def on_model_list_def
    on_model_selected_def Let_def split: AgentState.splits StreamPhase.splits option.splits if_splits sum.splits\<close>)

lemma lifecycle_log: "lifecycle ev v w \<Longrightarrow> ev \<noteq> NewSession \<Longrightarrow> length (snd v) \<le> length (snd w)"
  by (induction rule: lifecycle.induct) simp_all

lemma handle_view_inside:
  assumes h: "handle E s ev = Some (es, s')" and v: "view_start_index s \<le> length (fsm_events s)"
  shows "view_start_index s' \<le> length (fsm_events s')"
proof (cases "ev = NewSession")
  case True
  then show ?thesis using h v by (auto simp: handle_def on_new_session_def received_session_def split: AgentState.splits if_splits)
next
  case False
  have "length (fsm_events s) \<le> length (fsm_events s')" using lifecycle_log [OF handle_lifecycle [OF h] False] by simp
  then show ?thesis using v handle_view [OF h False] by simp
qed

lemma reach_safe: "reach E s \<Longrightarrow> timeouts_shell s \<and> view_start_index s \<le> length (fsm_events s)"
proof (induction rule: reach.induct)
  case (start start evs sid caps invo resumed last_time)
  then show ?case by (simp add: timeouts_shell_def from_session_def)
next
  case (step s ev es s')
  then show ?case using handle_timeouts_shell handle_view_inside by blast
qed

lemma timeout_no_panic: "timeouts_shell s \<Longrightarrow> tool_timeout_ids s k = None \<or> tool_timeout_ids s k = Some i \<Longrightarrow> handle_tool_execution_timeout k i s \<noteq> None"
proof (cases "tool_timeout_ids s k")
  case (Some j)
  moreover assume "timeouts_shell s" "tool_timeout_ids s k = None \<or> tool_timeout_ids s k = Some i"
  ultimately obtain t where "tools_get i (fsm_tools s) = Some t" "is_shell (tool_call t)" by (auto simp: timeouts_shell_def)
  with Some show ?thesis by (auto simp: handle_tool_execution_timeout_def is_shell_def Let_def split: ClientToolCall.splits)
qed (simp add: handle_tool_execution_timeout_def)

lemma handle_no_panic:
  assumes "timeouts_shell s" "view_start_index s \<le> length (fsm_events s)" "may_happen s ev"
  shows "handle E s ev \<noteq> None"
proof (cases ev)
  case (ToolExecutionTimeout k i)
  with assms(3) have "tool_timeout_ids s k = None \<or> tool_timeout_ids s k = Some i" by (simp add: may_happen_def)
  with ToolExecutionTimeout timeout_no_panic [OF assms(1)] show ?thesis by (auto simp: handle_def received_session_def split: AgentState.splits)
next
  case NewSession
  with assms(2) show ?thesis by (auto simp: handle_def on_new_session_def received_session_def split: AgentState.splits)
qed (simp_all add: handle_def Let_def)

section \<open>Waiting\<close>

text \<open>A turn whose stream has ended waits for a tool of the turn that is not resolved.\<close>

definition waits :: "AgentFsm \<Rightarrow> bool" where
  "waits s \<longleftrightarrow> (fsm_state s = Turn StreamEnded \<longrightarrow> list_ex (\<lambda>i. open_tool i (fsm_tools s)) (current_turn_tool_ids s))"

lemma not_all_resolved: "\<not> all_resolved ids ts \<longleftrightarrow> list_ex (\<lambda>i. open_tool i ts) ids"
  by (auto simp: all_resolved_def open_tool_def list_all_iff list_ex_iff split: option.splits)

lemma check_waits [simp]: "waits (snd (check_turn_completion E s))"
  using not_all_resolved [of "current_turn_tool_ids s" "fsm_tools s"] by (auto simp: waits_def check_turn_completion_def)

lemma open_evolves_open: "open_tool i (tools_insert j tool ts) \<longleftrightarrow> open_tool i ts \<or> tools_get i ts = None \<and> i = j"
  by (auto simp: open_tool_def tools_get_insert is_resolved_def split: option.splits)

lemma waits_mono:
  assumes "waits s" "fsm_state s' = Turn StreamEnded \<longrightarrow> fsm_state s = Turn StreamEnded" "set (current_turn_tool_ids s) \<subseteq> set (current_turn_tool_ids s')"
    "\<And>i. open_tool i (fsm_tools s) \<Longrightarrow> open_tool i (fsm_tools s')"
  shows "waits s'"
  using assms by (auto simp: waits_def list_ex_iff)

lemma waits_not_ended: "fsm_state s \<noteq> Turn StreamEnded \<Longrightarrow> waits s"
  by (simp add: waits_def)

lemma permission_waits:
  assumes "waits s"
  shows "waits (snd (handle_permission_resolved E i r s))" "waits (snd (handle_permission_choice E i c s))"
proof -
  have go: "waits (snd (execute_tracked i c s))" for c
    using assms by (rule waits_mono) (auto simp: execute_tracked_def open_tool_def tools_get_map is_resolved_def split: option.splits if_splits)
  have ask: "waits (set_tool i (with_state AwaitingPermission) s)"
    using assms by (rule waits_mono) (auto simp: open_tool_def tools_get_map is_resolved_def split: option.splits if_splits)
  have no: "waits (snd (deny_tracked E i c s))" for c by (simp add: deny_tracked_def)
  show "waits (snd (handle_permission_resolved E i r s))"
    using assms go ask no by (simp add: handle_permission_resolved_def split: option.splits PermissionResponse.splits)
  show "waits (snd (handle_permission_choice E i c s))"
    using assms go no by (simp add: handle_permission_choice_def split: option.splits PermissionChoice.splits)
qed

lemma waits_same:
  assumes "waits s" "fsm_state s' = fsm_state s" "current_turn_tool_ids s' = current_turn_tool_ids s" "same_states (fsm_tools s) (fsm_tools s')"
  shows "waits s'"
  using assms same_states_open [OF assms(4)] by (auto simp: waits_def list_ex_iff)

lemma tool_call_waits:
  assumes "handle_stream_tool_call E i name input s = (es, s')" "waits s"
  shows "waits s'"
proof -
  have r: "waits ((push_event (error_result i content) (push_event (ToolCall i name input) s))\<lparr>current_turn_tool_ids := current_turn_tool_ids s @ [i]\<rparr>)" for content
    using assms(2) by (rule waits_mono) auto
  have t: "waits (snd (track_call i name input tool s))" for tool
    using assms(2) by (rule waits_mono) (auto simp: open_evolves_open track_call_def Let_def split: AgentState.splits StreamPhase.splits)
  show ?thesis using tool_call_lifecycle [OF assms(1)] r t by (metis snd_conv)
qed

lemma handle_waits:
  assumes "handle E s ev = Some (es, s')" "waits s"
  shows "waits s'"
proof (cases ev)
  case (StreamToolCall i name input)
  have "waits (commit_streaming_text s)" using assms(2) by (rule waits_same) simp_all
  moreover have "s' = s \<or> handle_stream_tool_call E i name input (commit_streaming_text s) = (es, s')" using assms(1) StreamToolCall
    by (auto simp: handle_def on_stream_tool_call_def received_session_def split: AgentState.splits)
  ultimately show ?thesis using assms(2) tool_call_waits by metis
next
  case (PermissionResolved i r)
  then have "s' = s \<or> s' = snd (handle_permission_resolved E i r s)" using assms(1)
    by (auto simp: handle_def in_turn_def received_session_def split: AgentState.splits)
  then show ?thesis using assms(2) permission_waits by metis
next
  case (PermissionUserChoice i c)
  then have "s' = s \<or> s' = snd (handle_permission_choice E i c s)" using assms(1)
    by (auto simp: handle_def in_turn_def received_session_def split: AgentState.splits)
  then show ?thesis using assms(2) permission_waits by metis
next
  case (ToolExecutionDone i oc pv)
  then have "s' = s \<or> s' = snd (handle_tool_done E i oc pv s)" using assms(1)
    by (auto simp: handle_def in_turn_def received_session_def split: AgentState.splits)
  then show ?thesis using assms(2) by (auto simp: handle_tool_done_def Let_def split: option.splits)
next
  case (StreamDone sid)
  have "waits (note_session sid s)" using assms(2) by (rule waits_same) simp_all
  moreover have "s' = note_session sid s \<or> s' = snd (check_turn_completion E ((note_session sid (commit_streaming_text s))\<lparr>fsm_state := Turn StreamEnded\<rparr>))"
    using assms(1) StreamDone by (auto simp: handle_def on_stream_done_def received_session_def split: AgentState.splits)
  ultimately show ?thesis by auto
next
  case Cancel
  then have "s' = s \<or> fsm_state s' \<noteq> Turn StreamEnded" using assms(1)
    by (auto simp: handle_def on_cancel_def received_session_def cancel_turn_sel split: AgentState.splits option.splits if_splits dest!: arg_cong [where f = snd, of "cancel_turn _ _"])
  then show ?thesis using assms(2) waits_not_ended by blast
next
  case (ToolPreviewUpdate i lines code)
  have "waits s'" if "s' = set_tool i f s" "state_kept f" for f using assms(2) by (rule waits_same) (simp_all add: that same_states_map)
  then show ?thesis using assms ToolPreviewUpdate state_kept_changes(2)
    by (auto simp: handle_def on_preview_update_def received_session_def split: AgentState.splits)
next
  case (OutputCommandResolved i command)
  have "waits s'" if "s' = set_tool i f s" "state_kept f" for f using assms(2) by (rule waits_same) (simp_all add: that same_states_map)
  then show ?thesis using assms OutputCommandResolved state_kept_changes(3) by (auto simp: handle_def on_output_command_def received_session_def)
next
  case (ToolExecutionTimeout k i)
  have "waits s'" if "fsm_state s' = fsm_state s" "current_turn_tool_ids s' = current_turn_tool_ids s" "fsm_tools s' = tools_map i (\<lambda>t. t\<lparr>interrupt_reason := r\<rparr>) (fsm_tools s)" for r
    using assms(2) by (rule waits_same) (simp_all add: that same_states_map state_kept_changes)
  moreover have "waits s'" if "fsm_state s' = fsm_state s" "current_turn_tool_ids s' = current_turn_tool_ids s" "fsm_tools s' = fsm_tools s"
    using assms(2) by (rule waits_same) (simp_all add: that)
  ultimately show ?thesis using assms(1) ToolExecutionTimeout
    by (auto simp: handle_def handle_tool_execution_timeout_def received_session_def Let_def split: AgentState.splits option.splits if_splits ClientToolCall.splits)
next
  case InterruptTools
  have "same_states (fsm_tools s) (fsm_tools (foldl interrupt_tool s (executing_ids (fsm_tools s))))"
    unfolding interrupt_fold_sel by (rule same_states_fold) (rule state_kept_changes)
  then have "waits (foldl interrupt_tool s (executing_ids (fsm_tools s)))" by (intro waits_same [OF assms(2)]) (simp_all add: interrupt_fold_sel)
  then show ?thesis using assms InterruptTools by (auto simp: handle_def on_interrupt_tools_def received_session_def split: AgentState.splits)
qed (use assms in \<open>auto simp: waits_def handle_def received_session_def on_user_submit_def start_turn_def on_execute_command_def on_insert_command_def on_retry_def send_def
    on_stream_started_def on_suggest_command_def on_server_result_def on_new_session_def
    on_skill_loaded_def on_stream_chunk_def on_status_changed_def on_stream_error_def on_confirmation_timeout_def on_open_model_picker_def on_model_list_def
    on_model_selected_def Let_def split: AgentState.splits StreamPhase.splits option.splits if_splits sum.splits\<close>)

lemma reach_waits: "reach E s \<Longrightarrow> waits s"
proof (induction rule: reach.induct)
  case start
  then show ?case by (simp add: waits_def from_session_def)
next
  case (step s ev es s')
  then show ?case using handle_waits by blast
qed

section \<open>The properties\<close>

definition fsm_example_env :: fsm_env where
  "fsm_example_env = \<lparr>fe_tools = \<lparr>tilde = id, current_dir = None, uuid_parse = (\<lambda>_. None)\<rparr>, fe_json_len = (\<lambda>_. 1)\<rparr>"

abbreviation "fsm_example_start \<equiv> from_session [] None [''client_v1_execute_shell_command''] ''inv'' 0 False None"

abbreviation "fsm_example_call \<equiv>
  [UserSubmit ''list'', StreamStarted, StreamToolCall ''t1'' ''execute_shell_command'' (JObj [(''command'', JStr ''ls'')])]"

lemma trim_start_Nil: "trim_start [] = []"
  by (simp add: trim_start_def of_bytes_def)

abbreviation "fsm_example_shell \<equiv>
  \<lparr>shell_dir = None, shell_command = ''ls'', shell_name = ''bash'', timeout_secs = 30, shell_description = None\<rparr>"

lemma fsm_example_parse:
  "tool_try_from \<lparr>tilde = id, current_dir = None, uuid_parse = (\<lambda>_. None)\<rparr> ''execute_shell_command'' (JObj [(''command'', JStr ''ls'')]) = Inr (Shell fsm_example_shell)"
  by (simp add: tool_try_from_def shell_try_from_def bind_r_def ok_or_def str_field_def u64_field_def j_get_def as_str_def unwrap_or_def)

lemmas fsm_example_simps = fsm_example_env_def tool_capability_def D_SHELL_def from_session_def handle_def received_session_def on_user_submit_def start_turn_def send_def push_event_def
  on_stream_started_def on_stream_tool_call_def commit_streaming_text_def fsm_example_parse trim_start_Nil handle_stream_tool_call_def
  track_call_def tools_insert_def tools_get_def in_turn_def handle_permission_resolved_def handle_permission_choice_def deny_tracked_def
  check_turn_completion_def execute_tracked_def emit_execute_tool_def set_tool_def with_state_def is_resolved_def Let_def
  executes_def call_of_def result_of_def may_happen_def called_def results_def on_stream_done_def note_session_def all_resolved_def open_tool_def

text \<open>
  C18: In every run of the agent from the start of a session, a tool is executed only in answer to an event that
  permits exactly this tool (the permission check allowed it, or the user did), and after the
  permission check for it was requested.
\<close>

theorem executed_with_permission:
  assumes "run E (from_session evs0 sid caps invo start resumed last_time) evs = Some (tr, s')"
    and "tr = before @ (ev, es) # after" and "executes i es"
  shows "grants i ev \<and> (\<exists>(ev', es') \<in> set before. checks i es')"
  using run_checked [OF assms] by (simp add: from_session_def tools_get_def)

lemma run_at:
  assumes "map_option (\<lambda>r. map (\<lambda>x. executes i (snd x)) (fst r)) (run E s evs) = Some (bs @ [True])"
  shows "\<exists>before ev es s'. run E s evs = Some (before @ [(ev, es)], s') \<and> executes i es"
proof -
  from assms obtain tr s' where r: "run E s evs = Some (tr, s')" "map (\<lambda>x. executes i (snd x)) tr = bs @ [True]" by auto
  then have "tr \<noteq> []" by auto
  with r(2) have "executes i (snd (last tr))" by (metis last_map last_snoc)
  with r(1) \<open>tr \<noteq> []\<close> show ?thesis by (metis append_butlast_last_id prod.collapse)
qed

theorem executed_with_permission_witness:
  "\<exists>before ev es s'. run fsm_example_env fsm_example_start (fsm_example_call @ [PermissionResolved ''t1'' Allowed]) = Some (before @ [(ev, es)], s')
    \<and> executes ''t1'' es \<and> grants ''t1'' ev \<and> (\<exists>(ev', es') \<in> set before. checks ''t1'' es')"
proof -
  have "map_option (\<lambda>r. map (\<lambda>x. executes ''t1'' (snd x)) (fst r)) (run fsm_example_env fsm_example_start (fsm_example_call @ [PermissionResolved ''t1'' Allowed]))
    = Some ([False, False, False] @ [True])" by (simp add: fsm_example_simps)
  from run_at [OF this] obtain before ev es s' where
    r: "run fsm_example_env fsm_example_start (fsm_example_call @ [PermissionResolved ''t1'' Allowed]) = Some (before @ [(ev, es)], s')" "executes ''t1'' es" by blast
  from executed_with_permission [OF r(1) refl r(2)] r show ?thesis by blast
qed

text \<open>
  C19: Once a tracked call has been denied, cancelled with its turn, or finished, no later event makes the agent execute
  it: whatever follows, late permission answers and repeated calls of the same id included, no effect executes it again.
\<close>

theorem ended_never_executed:
  assumes "fsm_state s = Turn phase" and "tools_get i (fsm_tools s) \<noteq> None" and "ends_tool i ev"
    and "run E s (ev # evs) = Some (tr, s')" and "(ev', es') \<in> set tr"
  shows "\<not> executes i es'"
proof -
  from assms(4) obtain es0 s0 tr0 where h: "handle E s ev = Some (es0, s0)" "run E s0 evs = Some (tr0, s')" "tr = (ev, es0) # tr0"
    by (auto split: option.splits prod.splits)
  have "\<not> executes i es0" using handle_executes [OF h(1), of i] assms(3) by (auto simp: grants_def ends_tool_def split: Event.splits)
  moreover have "resolved_tool i (fsm_tools s0)" using ends_tool_resolves [OF h(1) assms(3,1,2)] .
  ultimately show ?thesis using resolved_not_run [OF h(2)] assms(5) h(3) by auto
qed

abbreviation "example_denied \<equiv> [PermissionUserChoice ''t1'' Deny, PermissionResolved ''t1'' Allowed, PermissionUserChoice ''t1'' AlwaysAllow]"

theorem ended_never_executed_witness:
  "\<exists>tr0 s tr s'. run fsm_example_env fsm_example_start fsm_example_call = Some (tr0, s) \<and> run fsm_example_env s example_denied = Some (tr, s')
    \<and> length tr = 3 \<and> list_all (\<lambda>x. \<not> executes ''t1'' (snd x)) tr"
proof -
  have "map_option (\<lambda>r. (fsm_state (snd r), tools_get ''t1'' (fsm_tools (snd r)) \<noteq> None, map_option (\<lambda>r. length (fst r)) (run fsm_example_env (snd r) example_denied)))
      (run fsm_example_env fsm_example_start fsm_example_call) = Some (Turn (Streaming None), True, Some 3)" by (simp add: fsm_example_simps)
  then obtain tr0 s tr s' where r: "run fsm_example_env fsm_example_start fsm_example_call = Some (tr0, s)" "fsm_state s = Turn (Streaming None)"
    "tools_get ''t1'' (fsm_tools s) \<noteq> None" "run fsm_example_env s example_denied = Some (tr, s')" "length tr = 3" by auto
  have "ends_tool ''t1'' (PermissionUserChoice ''t1'' Deny)" by (simp add: ends_tool_def)
  from ended_never_executed [OF r(2,3) this r(4)] r show ?thesis by (auto simp: list_all_iff)
qed

primrec legal :: "fsm_env \<Rightarrow> AgentFsm \<Rightarrow> Event list \<Rightarrow> bool" where
  "legal E s [] = True"
| "legal E s (ev # evs) = (may_happen s ev \<and> (case handle E s ev of None \<Rightarrow> False | Some (_, s') \<Rightarrow> legal E s' evs))"

lemma legal_reach: "reach E s \<Longrightarrow> legal E s evs \<Longrightarrow> \<exists>tr s'. run E s evs = Some (tr, s') \<and> reach E s'"
proof (induction evs arbitrary: s)
  case (Cons ev evs)
  then obtain es s0 where h: "may_happen s ev" "handle E s ev = Some (es, s0)" "legal E s0 evs" by (auto split: option.splits)
  from Cons.IH [OF reach.step [OF Cons.prems(1) h(1,2)] h(3)] h(2) show ?case by auto
qed simp

lemma fsm_example_reach:
  assumes "legal fsm_example_env fsm_example_start evs"
  shows "\<exists>tr s. run fsm_example_env fsm_example_start evs = Some (tr, s) \<and> reach fsm_example_env s"
proof -
  have "reach fsm_example_env fsm_example_start" by (rule reach.start) (simp_all add: answered_log_def)
  then show ?thesis using legal_reach assms by blast
qed



text \<open>
  C21: From every reachable state the machine handles every event the driver may deliver without panicking, and reaches a state for which
  this holds again: the slice of the log on a new session is in range, and a tool's timeout finds a shell command.
\<close>

theorem handle_never_panics:
  assumes "reach E s" and "may_happen s ev"
  shows "\<exists>es s'. handle E s ev = Some (es, s') \<and> reach E s'"
proof -
  have "handle E s ev \<noteq> None" using handle_no_panic reach_safe [OF assms(1)] assms(2) by blast
  then obtain es s' where "handle E s ev = Some (es, s')" by auto
  then show ?thesis using reach.step [OF assms] by blast
qed

theorem handle_never_panics_witness:
  "\<exists>tr s es s'. run fsm_example_env fsm_example_start (fsm_example_call @ [PermissionResolved ''t1'' Allowed]) = Some (tr, s)
    \<and> tool_timeout_ids s 0 = Some ''t1'' \<and> handle fsm_example_env s (ToolExecutionTimeout 0 ''t1'') = Some (es, s')"
proof -
  let ?r = "run fsm_example_env fsm_example_start (fsm_example_call @ [PermissionResolved ''t1'' Allowed])"
  have "legal fsm_example_env fsm_example_start (fsm_example_call @ [PermissionResolved ''t1'' Allowed])" by (simp add: fsm_example_simps)
  then obtain tr s where r: "?r = Some (tr, s)" "reach fsm_example_env s" using fsm_example_reach by blast
  have "map_option (\<lambda>r. tool_timeout_ids (snd r) 0) ?r = Some (Some ''t1'')" by (simp add: fsm_example_simps)
  with r(1) have t: "tool_timeout_ids s 0 = Some ''t1''" by simp
  then have "may_happen s (ToolExecutionTimeout 0 ''t1'')" by (simp add: may_happen_def)
  from handle_never_panics [OF r(2) this] r(1) t show ?thesis by blast
qed

text \<open>
  A turn whose stream has ended never waits for nothing: in every reachable state with \<open>Turn StreamEnded\<close> one of the
  turn's tools is still open, so that the turn goes on when the last one is resolved.
\<close>

theorem turn_waits_for_a_tool:
  assumes "reach E s" and "fsm_state s = Turn StreamEnded"
  shows "\<exists>i \<in> set (current_turn_tool_ids s). open_tool i (fsm_tools s)"
  using reach_waits [OF assms(1)] assms(2) by (auto simp: waits_def list_ex_iff)

theorem turn_waits_for_a_tool_witness:
  "\<exists>tr s. run fsm_example_env fsm_example_start (fsm_example_call @ [StreamDone ''s'']) = Some (tr, s) \<and> fsm_state s = Turn StreamEnded
    \<and> (\<exists>i \<in> set (current_turn_tool_ids s). open_tool i (fsm_tools s))"
proof -
  let ?r = "run fsm_example_env fsm_example_start (fsm_example_call @ [StreamDone ''s''])"
  have "legal fsm_example_env fsm_example_start (fsm_example_call @ [StreamDone ''s''])" by (simp add: fsm_example_simps)
  then obtain tr s where r: "?r = Some (tr, s)" "reach fsm_example_env s" using fsm_example_reach by blast
  have "map_option (\<lambda>r. fsm_state (snd r)) ?r = Some (Turn StreamEnded)" by (simp add: fsm_example_simps)
  with r(1) have "fsm_state s = Turn StreamEnded" by simp
  with turn_waits_for_a_tool [OF r(2)] r(1) show ?thesis by blast
qed

text \<open>
  C22: When the stream fails while a tool runs, the end of the aborted tool is ignored in the error state; after a retry
  the turn is stuck: its stream has ended, it still waits for this tool, and the log sent to the server has no result for its call.
\<close>

theorem retry_waits_for_aborted_tool:
  assumes "fsm_state s = Turn (Streaming st)" and "tools_get i (fsm_tools s) = Some t" and "tool_state t = Executing"
    and "i \<in> set (current_turn_tool_ids s)"
  shows "\<exists>tr s'. run E s [StreamError e, ToolExecutionDone i oc preview, Retry, StreamStarted, StreamDone sid] = Some (tr, s')
    \<and> fsm_state s' = Turn StreamEnded \<and> tools_get i (fsm_tools s') = Some t \<and> results i (fsm_events s') = results i (fsm_events s)"
proof -
  let ?s = "s\<lparr>tool_timeout_ids := Map.empty, fsm_state := Turn (Streaming None)\<rparr>"
  let ?d = "(note_session sid (commit_streaming_text ?s))\<lparr>fsm_state := Turn StreamEnded\<rparr>"
  obtain xs where xs: "neutral xs" "fsm_events (commit_streaming_text ?s) = fsm_events s @ xs" using commit_events [of ?s] by auto
  have "\<not> all_resolved (current_turn_tool_ids s) (fsm_tools s)"
    using assms not_all_resolved [of "current_turn_tool_ids s" "fsm_tools s"] by (auto simp: list_ex_iff open_tool_def is_resolved_def intro!: bexI [of _ i])
  then have c: "check_turn_completion E ?d = ([], ?d)" by (simp add: check_turn_completion_def)
  have "\<exists>tr. run E s [StreamError e, ToolExecutionDone i oc preview, Retry, StreamStarted, StreamDone sid] = Some (tr, ?d)"
    using assms(1) c by (simp add: handle_def received_session_def on_stream_error_def in_turn_def on_retry_def send_def on_stream_started_def on_stream_done_def)
  then show ?thesis using assms(2) xs by (auto simp: neutral_log)
qed

theorem retry_waits_for_aborted_tool_witness:
  "\<exists>tr0 s tr s' t. run fsm_example_env fsm_example_start (fsm_example_call @ [PermissionResolved ''t1'' Allowed]) = Some (tr0, s)
    \<and> run fsm_example_env s [StreamError ''lost'', ToolExecutionDone ''t1'' (Success ''ok'') None, Retry, StreamStarted, StreamDone ''s''] = Some (tr, s')
    \<and> fsm_state s' = Turn StreamEnded \<and> tools_get ''t1'' (fsm_tools s') = Some t \<and> tool_state t = Executing"
proof -
  let ?r = "run fsm_example_env fsm_example_start (fsm_example_call @ [PermissionResolved ''t1'' Allowed])"
  have "map_option (\<lambda>r. (fsm_state (snd r), map_option tool_state (tools_get ''t1'' (fsm_tools (snd r))), current_turn_tool_ids (snd r))) ?r
    = Some (Turn (Streaming None), Some Executing, [''t1''])" by (simp add: fsm_example_simps)
  then obtain tr0 s t where r: "?r = Some (tr0, s)" "fsm_state s = Turn (Streaming None)" "tools_get ''t1'' (fsm_tools s) = Some t" "tool_state t = Executing"
    "''t1'' \<in> set (current_turn_tool_ids s)" by auto
  from retry_waits_for_aborted_tool [OF r(2-5), of fsm_example_env "''lost''" "Success ''ok''" None "''s''"] r show ?thesis by blast
qed

end
