(* ===== verification/Ai_Permissions.thy ===== *)
theory Ai_Permissions
  imports Ai_Fsm Rust_Path "HOL-Library.Multiset"
begin

text \<open>
  The permission rules of the agent: \<open>atuin-ai/src/permissions/\<close> (\<open>rule.rs\<close>, \<open>file.rs\<close>, \<open>check.rs\<close>, \<open>walker.rs\<close>,
  \<open>resolver.rs\<close>, \<open>shell.rs\<close>), the rule matching of the tool calls in \<open>tools/mod.rs\<close>, the session grants of
  \<open>edit_permissions.rs\<close> and the decision of \<open>check_permission\<close> in \<open>tui/app.rs\<close>.

  Parameters: the shell grammars (a parse tree of tree-sitter, with byte ranges in source order), the glob matcher, the word
  characters of the regex package, and the file system that holds the rule files.

  Shown: wildcard scopes match exactly the words they describe; a tool call that is allowed by rules is covered
  part by part, and no asking or denying rule of a deeper or the same file matches it; the result does not depend on the order in
  which the rule files are read; rules read back as written; every command of a parse tree is
  found unless it is below a kind that is taken for a leaf, and such commands are not found.
\<close>

section \<open>Shell commands\<close>

datatype node = Node (node_kind: string) (node_start: nat) (node_end: nat) (node_children: "node list")

record perm_env =
  pe_tools :: ai_env
  tree_sitter :: bool
  bash_tree :: "string \<Rightarrow> node option"
  fish_tree :: "string \<Rightarrow> node option"
  glob_match :: "string \<Rightarrow> string \<Rightarrow> bool"
  word_char :: "nat \<Rightarrow> bool"

record ShellCommand =
  cmd_name :: string
  cmd_full :: string

datatype ShellKind = Posix | Fish | OtherShell

definition from_shell_name :: "string \<Rightarrow> ShellKind" where
  "from_shell_name name =
     (if name \<in> {''bash'', ''sh'', ''zsh'', ''dash'', ''ksh''} then Posix else if name = ''fish'' then Fish else OtherShell)"

definition bash_leaves :: "string list" where
  "bash_leaves = [''command_name'', ''word'', ''number'', ''simple_expansion'', ''expansion'', ''arithmetic_expansion'', ''ansi_c_string'',
     ''special_variable_name'', ''variable_name'', ''file_descriptor'', ''heredoc_body'', ''heredoc_start'', ''regex'', ''heredoc_redirect'']"

definition bash_arguments :: "string list" where
  "bash_arguments = [''word'', ''string'', ''raw_string'', ''concatenation'', ''number'', ''simple_expansion'', ''expansion'',
     ''arithmetic_expansion'', ''ansi_c_string'', ''process_substitution'']"

definition source_slice :: "string \<Rightarrow> nat \<Rightarrow> nat \<Rightarrow> string" where
  "source_slice source a b = take (b - a) (drop a source)"

definition utf8_text :: "string \<Rightarrow> node \<Rightarrow> string option" where
  "utf8_text source n = from_utf8 (source_slice source (node_start n) (node_end n))"

text \<open>The loop over the children of a command: name, where it starts, where the last argument ends.\<close>

fun bash_parts :: "string \<Rightarrow> node list \<Rightarrow> string option \<times> nat option \<times> nat option \<Rightarrow> string option \<times> nat option \<times> nat option" where
  "bash_parts source [] r = r"
| "bash_parts source (c # cs) (name, start, stop) =
     bash_parts source cs
       (if node_kind c = ''command_name'' then (utf8_text source c, Some (node_start c), stop)
        else if List.member bash_arguments (node_kind c) then (name, start, Some (node_end c))
        else (name, start, stop))"

definition extract_bash_command :: "string \<Rightarrow> node \<Rightarrow> ShellCommand option" where
  "extract_bash_command source n =
     (case bash_parts source (node_children n) (None, None, None) of
        (None, _, _) \<Rightarrow> None
      | (Some name, Some a, Some b) \<Rightarrow> map_option (\<lambda>full. \<lparr>cmd_name = name, cmd_full = full\<rparr>) (from_utf8 (source_slice source a b))
      | (Some name, _, _) \<Rightarrow> Some \<lparr>cmd_name = name, cmd_full = name\<rparr>)"

definition option_list :: "'a option \<Rightarrow> 'a list" where
  "option_list v = (case v of None \<Rightarrow> [] | Some x \<Rightarrow> [x])"

fun walk_bash_node :: "string \<Rightarrow> node \<Rightarrow> ShellCommand list" where
  "walk_bash_node source (Node kind a b cs) =
     (if kind = ''command'' then
        option_list (extract_bash_command source (Node kind a b cs))
          @ concat (map (\<lambda>c. if List.member bash_leaves (node_kind c) then [] else walk_bash_node source c) cs)
      else concat (map (walk_bash_node source) cs))"

definition fish_compound :: "string list" where
  "fish_compound = [''conditional_execution'', ''pipe'', ''job'', ''command_substitution'', ''block'', ''for_statement'', ''while_statement'',
     ''if_statement'', ''switch_statement'', ''function_definition'', ''begin_statement'', ''redirected_statement'']"

text \<open>The name is the first word; a word that is not UTF-8 gives up the command.\<close>

fun fish_name :: "string \<Rightarrow> node list \<Rightarrow> string option \<Rightarrow> string option" where
  "fish_name source [] name = name"
| "fish_name source (c # cs) name =
     (if node_kind c = ''command_name'' \<or> node_kind c = ''word'' then
        (case utf8_text source c of None \<Rightarrow> None | Some t \<Rightarrow> fish_name source cs (case name of None \<Rightarrow> Some t | Some u \<Rightarrow> Some u))
      else fish_name source cs name)"

definition extract_fish_command :: "string \<Rightarrow> node \<Rightarrow> ShellCommand option" where
  "extract_fish_command source n =
     Option.bind (fish_name source (node_children n) None) (\<lambda>name.
       map_option (\<lambda>full. \<lparr>cmd_name = name, cmd_full = trim full\<rparr>) (utf8_text source n))"

fun walk_fish_node :: "string \<Rightarrow> node \<Rightarrow> ShellCommand list" where
  "walk_fish_node source (Node kind a b cs) =
     (if kind = ''command'' then
        option_list (extract_fish_command source (Node kind a b cs))
          @ concat (map (\<lambda>c. if List.member fish_compound (node_kind c) then walk_fish_node source c else []) cs)
      else concat (map (walk_fish_node source) cs))"

definition push_segment :: "string \<Rightarrow> ShellCommand list" where
  "push_segment seg =
     (let trimmed = trim seg
      in if trimmed = [] then []
         else (case split_whitespace trimmed of [] \<Rightarrow> [] | name # _ \<Rightarrow> [\<lparr>cmd_name = name, cmd_full = trimmed\<rparr>]))"

function fallback_loop :: "string \<Rightarrow> string \<Rightarrow> ShellCommand list" where
  "fallback_loop seg [] = push_segment seg"
| "fallback_loop seg (c # cs) =
     (if c = CHR '';'' then push_segment seg @ fallback_loop [] cs
      else if c = CHR ''|'' then push_segment seg @ fallback_loop [] (if starts_with ''|'' cs then tl cs else cs)
      else if c = CHR ''&'' \<and> starts_with ''&'' cs then push_segment seg @ fallback_loop [] (tl cs)
      else fallback_loop (seg @ [c]) cs)"
  by pat_completeness auto

termination
  by (relation "measure (\<lambda>(_, cs). length cs)") auto

definition parse_fallback :: "string \<Rightarrow> ShellCommand list" where
  "parse_fallback code = fallback_loop [] code"

definition parse_posix :: "perm_env \<Rightarrow> string \<Rightarrow> ShellCommand list" where
  "parse_posix E code = (case bash_tree E code of None \<Rightarrow> parse_fallback code | Some t \<Rightarrow> walk_bash_node code t)"

definition parse_fish :: "perm_env \<Rightarrow> string \<Rightarrow> ShellCommand list" where
  "parse_fish E code = (case fish_tree E code of None \<Rightarrow> parse_fallback code | Some t \<Rightarrow> walk_fish_node code t)"

definition parse_shell_command :: "perm_env \<Rightarrow> string \<Rightarrow> ShellKind \<Rightarrow> ShellCommand list" where
  "parse_shell_command E code shell =
     (if tree_sitter E then (case shell of Posix \<Rightarrow> parse_posix E code | Fish \<Rightarrow> parse_fish E code | OtherShell \<Rightarrow> parse_fallback code)
      else parse_fallback code)"

section \<open>Scopes\<close>

definition find_subslice :: "'a list \<Rightarrow> 'a list \<Rightarrow> nat option" where
  "find_subslice haystack needle =
     (if needle = [] then Some 0
      else if length haystack < length needle then None
      else find (\<lambda>i. take (length needle) (drop i haystack) = needle) [0..<Suc (length haystack - length needle)])"

fun scope_loop :: "nat \<Rightarrow> string list \<Rightarrow> string list \<Rightarrow> nat \<Rightarrow> bool" where
  "scope_loop i [] words idx = True"
| "scope_loop i (part # parts) words idx =
     (let segment_words = split_whitespace part
      in if segment_words = [] then scope_loop (Suc i) parts words idx
         else if i = 0 then
           (if length words < length segment_words \<or> take (length segment_words) words \<noteq> segment_words then False
            else scope_loop (Suc i) parts words (length segment_words))
         else if parts = [] then
           (if length words - idx < length segment_words then False
            else drop (length words - length segment_words) words = segment_words)
         else (case find_subslice (drop idx words) segment_words of
                 Some k \<Rightarrow> scope_loop (Suc i) parts words (idx + k + length segment_words)
               | None \<Rightarrow> False))"

definition scope_matches_words :: "string \<Rightarrow> string list \<Rightarrow> bool" where
  "scope_matches_words scope words =
     (let parts = split_on (\<lambda>c. c = CHR ''*'') scope
      in if length parts = 1 then starts_with (split_whitespace scope) words
         else scope_loop 0 parts words 0)"

definition any_subcommand_matches :: "ShellCommand list \<Rightarrow> bool \<Rightarrow> string \<Rightarrow> bool" where
  "any_subcommand_matches subcommands prefix_bare scope0 =
     (let scope = trim scope0
      in if scope = [] \<or> scope = ''*'' then True
         else case strip_suffix '' *'' scope of
           Some prefix \<Rightarrow>
             list_ex (\<lambda>cmd. prefix = [] \<or> starts_with (split_whitespace prefix) (split_whitespace (cmd_full cmd))) subcommands
         | None \<Rightarrow>
             (case strip_suffix ''*'' scope of
                Some prefix \<Rightarrow> list_ex (\<lambda>cmd. starts_with prefix (cmd_full cmd)) subcommands
              | None \<Rightarrow>
                  if List.member scope (CHR ''*'') then list_ex (\<lambda>cmd. scope_matches_words scope (split_whitespace (cmd_full cmd))) subcommands
                  else list_ex (\<lambda>cmd.
                         if prefix_bare then starts_with (split_whitespace scope) (split_whitespace (cmd_full cmd))
                         else split_whitespace (cmd_full cmd) = split_whitespace scope) subcommands))"

section \<open>Rules\<close>

text \<open>The pattern \<open>^(\w+)(?:\((.*)\))?$\<close>, where the dot is any character but a line feed.\<close>

definition rule_try_from :: "perm_env \<Rightarrow> string \<Rightarrow> string + Rule" where
  "rule_try_from E value0 =
     (let value = trim value0;
          word = (\<lambda>g. word_char E (code_point (fst g) (snd g)));
          tool = of_bytes (takeWhile word (char_bytes value));
          rest = of_bytes (dropWhile word (char_bytes value))
      in if tool = [] then Inl value
         else if rest = [] then Inr \<lparr>rule_tool = tool, rule_scope = None\<rparr>
         else if hd rest = CHR ''('' \<and> length rest \<ge> 2 \<and> last rest = CHR '')'' \<and> newline \<notin> set rest
           then Inr \<lparr>rule_tool = tool, rule_scope = Some (butlast (tl rest))\<rparr>
         else Inl value)"

definition forward_slashes :: "string \<Rightarrow> string" where
  "forward_slashes p = map (\<lambda>c. if c = CHR 0x5C then CHR ''/'' else c) p"

definition path_matches_scope :: "perm_env \<Rightarrow> string \<Rightarrow> string \<Rightarrow> bool" where
  "path_matches_scope E path0 scope =
     (let path = resolved_path (pe_tools E) path0; path_str = forward_slashes path
      in if \<not> starts_with ''/'' scope then
           (case file_name path of Some name \<Rightarrow> glob_match E scope name | None \<Rightarrow> False)
           \<or> glob_match E scope path_str
           \<or> (case Option.bind (current_dir (pe_tools E)) (\<lambda>cwd. strip_prefix cwd path) of
                Some rel \<Rightarrow> glob_match E scope (forward_slashes rel) | None \<Rightarrow> False)
         else glob_match E scope path_str)"

definition scope_on_path :: "perm_env \<Rightarrow> string \<Rightarrow> Rule \<Rightarrow> bool" where
  "scope_on_path E path r = (case rule_scope r of None \<Rightarrow> True | Some scope \<Rightarrow> scope = ''*'' \<or> path_matches_scope E path scope)"

definition subcommands_of :: "perm_env \<Rightarrow> ShellToolCall \<Rightarrow> ShellCommand list" where
  "subcommands_of E c = parse_shell_command E (shell_command c) (from_shell_name (shell_name c))"

fun matches_rule :: "perm_env \<Rightarrow> ClientToolCall \<Rightarrow> Rule \<Rightarrow> bool" where
  "matches_rule E (Read c) r = (if rule_tool r \<noteq> ''Read'' \<and> rule_tool r \<noteq> ''Write'' then False else scope_on_path E (read_path c) r)"
| "matches_rule E (Edit c) r = (if rule_tool r \<noteq> ''Write'' then False else scope_on_path E (edit_path c) r)"
| "matches_rule E (Write c) r = (if rule_tool r \<noteq> ''Write'' then False else scope_on_path E (write_path c) r)"
| "matches_rule E (Shell c) r =
     (if rule_tool r \<noteq> ''Shell'' then False
      else case rule_scope r of None \<Rightarrow> True | Some scope \<Rightarrow> any_subcommand_matches (subcommands_of E c) True scope)"
| "matches_rule E (AtuinHistory _) r = (rule_tool r = ''AtuinHistory'')"
| "matches_rule E (AtuinOutput _) r = (rule_tool r = ''AtuinOutput'')"
| "matches_rule E (LoadSkill _) r = (rule_tool r = ''LoadSkill'')"

text \<open>An allow rule on one subcommand.\<close>

definition covers :: "Rule \<Rightarrow> ShellCommand \<Rightarrow> bool" where
  "covers r subcmd =
     (if rule_tool r \<noteq> ''Shell'' then False
      else case rule_scope r of None \<Rightarrow> True | Some scope \<Rightarrow> scope = ''*'' \<or> any_subcommand_matches [subcmd] False scope)"

definition all_covered_by :: "perm_env \<Rightarrow> ClientToolCall \<Rightarrow> Rule list \<Rightarrow> bool" where
  "all_covered_by E call rules =
     (case call of
        Shell c \<Rightarrow> subcommands_of E c \<noteq> [] \<and> list_all (\<lambda>subcmd. list_ex (\<lambda>r. covers r subcmd) rules) (subcommands_of E c)
      | _ \<Rightarrow> list_ex (matches_rule E call) rules)"

fun target_dir :: "ClientToolCall \<Rightarrow> string option" where
  "target_dir (Read c) = Some (read_path c)"
| "target_dir (Edit c) = Some (edit_path c)"
| "target_dir (Write c) = Some (write_path c)"
| "target_dir (Shell c) = shell_dir c"
| "target_dir _ = None"

section \<open>Files of rules\<close>

record RuleFile =
  rule_path :: string
  rf_allow :: "Rule list"
  rf_deny :: "Rule list"
  rf_ask :: "Rule list"

datatype CheckResponse = CheckAllowed | CheckDenied | CheckAsk

fun check_files :: "perm_env \<Rightarrow> RuleFile list \<Rightarrow> ClientToolCall \<Rightarrow> CheckResponse" where
  "check_files E [] call = CheckAsk"
| "check_files E (f # fs) call =
     (if list_ex (matches_rule E call) (rf_ask f) then CheckAsk
      else if list_ex (matches_rule E call) (rf_deny f) then CheckDenied
      else if all_covered_by E call (rf_allow f) then CheckAllowed
      else check_files E fs call)"

text \<open>
  The walker: one task for each ancestor directory and one for the global file, with its depth. The tasks finish in
  any order; their results are sorted by depth. Files that cannot be read are skipped.
\<close>

definition dir_permissions_path :: "string \<Rightarrow> string" where
  "dir_permissions_path dir = join_path (join_path dir ''.atuin'') ''permissions.ai.toml''"

definition walk_tasks :: "string \<Rightarrow> string option \<Rightarrow> (nat \<times> string) list" where
  "walk_tasks start global =
     (let dirs = path_ancestors start
      in zip [0..<length dirs] (map dir_permissions_path dirs) @ (case global of None \<Rightarrow> [] | Some g \<Rightarrow> [(length dirs, g)]))"

definition found_file :: "(string \<Rightarrow> string + RuleFile option) \<Rightarrow> nat \<times> string \<Rightarrow> (nat \<times> RuleFile) option" where
  "found_file load t = (case load (snd t) of Inr (Some f) \<Rightarrow> Some (fst t, f) | _ \<Rightarrow> None)"

definition walk_rules :: "(string \<Rightarrow> string + RuleFile option) \<Rightarrow> (nat \<times> string) list \<Rightarrow> RuleFile list" where
  "walk_rules load finished = map snd (sort_key fst (List.map_filter (found_file load) finished))"

section \<open>The decision\<close>

record EditPermissionCache =
  grants_at :: "string \<Rightarrow> int option"

definition grant :: "int \<Rightarrow> string \<Rightarrow> EditPermissionCache \<Rightarrow> EditPermissionCache" where
  "grant now path c = c\<lparr>grants_at := (grants_at c)(path \<mapsto> now)\<rparr>"

definition has_valid_grant :: "int \<Rightarrow> string \<Rightarrow> EditPermissionCache \<Rightarrow> bool" where
  "has_valid_grant now path c = (case grants_at c path of Some granted_at \<Rightarrow> now - granted_at < 60 * 60 * 1000 | None \<Rightarrow> False)"

record perm_io =
  yolo :: bool
  edit_permissions :: EditPermissionCache
  clock_ms :: int
  walk_order :: "(nat \<times> string) list \<Rightarrow> (nat \<times> string) list"
  walk_fails :: bool
  load_rules :: "string \<Rightarrow> string + RuleFile option"
  global_file :: string

definition working_dir :: "perm_env \<Rightarrow> ClientToolCall \<Rightarrow> string" where
  "working_dir E tool = unwrap_or (or_else (target_dir tool) (current_dir (pe_tools E))) ''.''"

definition resolver_rules :: "perm_io \<Rightarrow> string \<Rightarrow> RuleFile list option" where
  "resolver_rules io dir =
     (if walk_fails io then None else Some (walk_rules (load_rules io) (walk_order io (walk_tasks dir (Some (global_file io))))))"

definition check_permission :: "perm_env \<Rightarrow> perm_io option \<Rightarrow> ClientToolCall \<Rightarrow> PermissionResponse" where
  "check_permission E io0 tool =
     (case io0 of
        None \<Rightarrow> Ask
      | Some io \<Rightarrow>
          if yolo io \<or> is_auto_approved tool then Allowed
          else if (case resolved_file_path (pe_tools E) tool of Some p \<Rightarrow> has_valid_grant (clock_ms io) p (edit_permissions io) | None \<Rightarrow> False)
            then SessionGranted
          else (case resolver_rules io (working_dir E tool) of
                  None \<Rightarrow> Ask
                | Some files \<Rightarrow>
                    (case check_files E files tool of CheckAllowed \<Rightarrow> Allowed | CheckDenied \<Rightarrow> DeniedResponse | CheckAsk \<Rightarrow> Ask)))"

section \<open>Wildcards\<close>

text \<open>The reference: the words are the segments of the scope in order, with any words between them.\<close>

fun weave :: "'a list list \<Rightarrow> 'a list list \<Rightarrow> 'a list" where
  "weave [] gaps = []"
| "weave (p # ps) [] = p"
| "weave (p # ps) (g # gs) = p @ g @ weave ps gs"

definition wild_match :: "'a list list \<Rightarrow> 'a list \<Rightarrow> bool" where
  "wild_match segments words \<longleftrightarrow> (\<exists>gaps. Suc (length gaps) = length segments \<and> words = weave segments gaps)"

fun tail_match :: "'a list list \<Rightarrow> 'a list \<Rightarrow> bool" where
  "tail_match [] ws \<longleftrightarrow> ws = []"
| "tail_match (p # ps) ws \<longleftrightarrow> (\<exists>g r. ws = g @ p @ r \<and> tail_match ps r)"

lemma wild_match_Cons: "wild_match (p # ps) ws \<longleftrightarrow> (\<exists>r. ws = p @ r \<and> tail_match ps r)"
proof (induction ps arbitrary: p ws)
  case Nil
  then show ?case by (auto simp: wild_match_def)
next
  case (Cons q qs)
  have "wild_match (p # q # qs) ws \<longleftrightarrow> (\<exists>g r. ws = p @ g @ r \<and> wild_match (q # qs) r)"
  proof
    assume "wild_match (p # q # qs) ws"
    then obtain gaps where g: "Suc (length gaps) = length (p # q # qs)" "ws = weave (p # q # qs) gaps" by (auto simp: wild_match_def)
    then obtain x xs where "gaps = x # xs" by (cases gaps) auto
    with g show "\<exists>g r. ws = p @ g @ r \<and> wild_match (q # qs) r" unfolding wild_match_def by auto
  next
    assume "\<exists>g r. ws = p @ g @ r \<and> wild_match (q # qs) r"
    then obtain g r gaps where "ws = p @ g @ r" "Suc (length gaps) = length (q # qs)" "r = weave (q # qs) gaps" by (auto simp: wild_match_def)
    then show "wild_match (p # q # qs) ws" unfolding wild_match_def by (intro exI [of _ "g # gaps"]) simp
  qed
  then show ?case using Cons by auto
qed

lemma tail_match_more: "ps \<noteq> [] \<Longrightarrow> tail_match ps r \<Longrightarrow> tail_match ps (x @ r)"
  by (cases ps) (auto, metis append.assoc)

lemma take_drop_eq: "take (length n) (drop k h) = n \<longleftrightarrow> (\<exists>r. drop k h = n @ r)"
  by (metis append_eq_conv_conj append_take_drop_id)

lemma find_subslice_Some:
  assumes "find_subslice h n = Some k" "n \<noteq> []"
  shows "\<exists>r. drop k h = n @ r" "k + length n \<le> length h" "\<And>j r. j < k \<Longrightarrow> drop j h \<noteq> n @ r"
proof -
  have "find (\<lambda>i. take (length n) (drop i h) = n) [0..<Suc (length h - length n)] = Some k" "length n \<le> length h"
    using assms by (auto simp: find_subslice_def split: if_splits)
  then obtain i where i: "i < Suc (length h - length n)" "k = i" "take (length n) (drop i h) = n" "\<forall>j<i. take (length n) (drop j h) \<noteq> n"
    by (auto simp: find_Some_iff nth_append simp del: upt_Suc)
  then show "\<exists>r. drop k h = n @ r" "k + length n \<le> length h" using take_drop_eq \<open>length n \<le> length h\<close> by (blast, simp)
  fix j r assume "j < k"
  then show "drop j h \<noteq> n @ r" using i(2,4) take_drop_eq by blast
qed

lemma find_subslice_None:
  assumes "find_subslice h n = None" "n \<noteq> []"
  shows "drop k h \<noteq> n @ r"
proof
  assume d: "drop k h = n @ r"
  have "k + length n \<le> length h" using arg_cong [OF d, of length] assms(2) by (cases "k \<le> length h") auto
  then have "k \<in> set [0..<Suc (length h - length n)]" "\<not> length h < length n" by auto
  then show False using assms d by (auto simp: find_subslice_def find_None_iff simp del: upt_Suc)
qed

lemma scope_loop_tail:
  assumes "0 < i" "idx \<le> length words" "parts \<noteq> []"
  shows "scope_loop i parts words idx \<longleftrightarrow> tail_match (map split_whitespace parts) (drop idx words)"
  using assms
proof (induction parts arbitrary: i idx)
  case (Cons part parts)
  let ?seg = "split_whitespace part" and ?ps = "map split_whitespace parts" and ?ws = "drop idx words"
  consider (empty) "?seg = []" | (final) "?seg \<noteq> []" "parts = []" | (inner) "?seg \<noteq> []" "parts \<noteq> []" by blast
  then show ?case
  proof cases
    case empty
    then have "scope_loop i (part # parts) words idx \<longleftrightarrow> scope_loop (Suc i) parts words idx" by simp
    also have "\<dots> \<longleftrightarrow> tail_match ([] # ?ps) ?ws"
    proof (cases "parts = []")
      case False
      have "tail_match ([] # ?ps) ?ws \<longleftrightarrow> (\<exists>g r. ?ws = g @ r \<and> tail_match ?ps r)" by simp
      also have "\<dots> \<longleftrightarrow> tail_match ?ps ?ws" using tail_match_more [of ?ps] False by (metis append_Nil map_is_Nil_conv)
      finally have "tail_match ([] # ?ps) ?ws \<longleftrightarrow> tail_match ?ps ?ws" .
      then show ?thesis using Cons.IH [of "Suc i" idx] Cons.prems False by simp
    qed simp
    finally show ?thesis using empty by simp
  next
    case final
    have "(\<exists>g. ?ws = g @ ?seg) \<longleftrightarrow> length ?seg \<le> length words - idx \<and> drop (length words - length ?seg) words = ?seg"
    proof
      assume "\<exists>g. ?ws = g @ ?seg"
      then obtain g where g: "?ws = g @ ?seg" by blast
      then have l: "length words - idx = length g + length ?seg" by (metis length_append length_drop)
      have "words = (take idx words @ g) @ ?seg" using g by (metis append.assoc append_take_drop_id)
      then show "length ?seg \<le> length words - idx \<and> drop (length words - length ?seg) words = ?seg"
        using l by (metis append_eq_conv_conj diff_add_inverse2 le_add2 length_append)
    next
      assume a: "length ?seg \<le> length words - idx \<and> drop (length words - length ?seg) words = ?seg"
      let ?k = "length words - length ?seg - idx"
      have "?k + idx = length words - length ?seg" using a Cons.prems(2) by linarith
      then have "drop ?k ?ws = ?seg" using a by (simp only: drop_drop)
      then show "\<exists>g. ?ws = g @ ?seg" by (metis append_take_drop_id)
    qed
    then show ?thesis using final Cons.prems(1) by (auto simp: not_less)
  next
    case inner
    show ?thesis
    proof (cases "find_subslice ?ws ?seg")
      case None
      then have "\<not> tail_match (?seg # ?ps) ?ws" using find_subslice_None [OF None inner(1)]
        by (auto simp: append_eq_conv_conj) (metis append_eq_conv_conj drop_drop)
      then show ?thesis using None inner Cons.prems(1) by simp
    next
      case (Some k)
      note k = find_subslice_Some [OF Some inner(1)]
      have ih: "scope_loop (Suc i) parts words (idx + k + length ?seg) \<longleftrightarrow> tail_match ?ps (drop (idx + k + length ?seg) words)"
        using Cons.IH [of "Suc i" "idx + k + length ?seg"] k(2) Cons.prems(2) inner(2) by simp
      have "tail_match (?seg # ?ps) ?ws \<longleftrightarrow> tail_match ?ps (drop (k + length ?seg) ?ws)"
      proof
        assume "tail_match (?seg # ?ps) ?ws"
        then obtain g r where g: "?ws = g @ ?seg @ r" "tail_match ?ps r" by auto
        have "drop (length g) ?ws = ?seg @ r" using g(1) by simp
        then have "k \<le> length g" using k(3) not_le by blast
        then have "r = drop (length g - k) (drop (k + length ?seg) ?ws)" unfolding g(1) by simp
        then have "drop (k + length ?seg) ?ws = take (length g - k) (drop (k + length ?seg) ?ws) @ r" by (metis append_take_drop_id)
        then show "tail_match ?ps (drop (k + length ?seg) ?ws)" using tail_match_more g(2) inner(2) by (metis map_is_Nil_conv)
      next
        assume t: "tail_match ?ps (drop (k + length ?seg) ?ws)"
        obtain r where r: "drop k ?ws = ?seg @ r" using k(1) by blast
        then have "drop (k + length ?seg) ?ws = r" by (metis add.commute append_eq_conv_conj drop_drop)
        moreover have "?ws = take k ?ws @ ?seg @ r" using r by (metis append_take_drop_id)
        ultimately show "tail_match (?seg # ?ps) ?ws" using t by auto
      qed
      then show ?thesis using Some inner Cons.prems(1) ih by (simp add: ac_simps)
    qed
  qed
qed simp

lemma scope_loop_wild:
  assumes "parts \<noteq> []"
  shows "scope_loop 0 (part # parts) words 0 \<longleftrightarrow> wild_match (map split_whitespace (part # parts)) words"
proof (cases "split_whitespace part = []")
  case True
  then show ?thesis using scope_loop_tail [of 1 0 words parts] assms by (simp add: wild_match_Cons)
next
  case False
  let ?seg = "split_whitespace part"
  have "starts_with ?seg words \<longleftrightarrow> \<not> (length words < length ?seg \<or> take (length ?seg) words \<noteq> ?seg)"
    unfolding starts_with_def by (metis length_take min_less_iff_conj nat_less_le not_less min.absorb2)
  then have "scope_loop 0 (part # parts) words 0 \<longleftrightarrow> starts_with ?seg words \<and> scope_loop (Suc 0) parts words (length ?seg)" using False by auto
  also have "\<dots> \<longleftrightarrow> (\<exists>r. words = ?seg @ r \<and> tail_match (map split_whitespace parts) r)"
    using scope_loop_tail [of "Suc 0" "length ?seg" words parts] assms by (auto simp: starts_with_iff)
  finally show ?thesis by (simp add: wild_match_Cons)
qed

section \<open>Commands in a parse tree\<close>

text \<open>All commands below a node, and the trees in which no command is below a kind that counts as a leaf of a command.\<close>

fun all_commands :: "node \<Rightarrow> node list" where
  "all_commands (Node kind a b cs) = (if kind = ''command'' then [Node kind a b cs] else []) @ concat (map all_commands cs)"

fun leaves_clear :: "node \<Rightarrow> bool" where
  "leaves_clear (Node kind a b cs) \<longleftrightarrow>
     list_all leaves_clear cs \<and> (kind = ''command'' \<longrightarrow> list_all (\<lambda>c. List.member bash_leaves (node_kind c) \<longrightarrow> all_commands c = []) cs)"

lemma map_filter_concat: "List.map_filter f (concat xss) = concat (map (List.map_filter f) xss)"
  by (induction xss) (simp_all add: List.map_filter_def)

lemma walk_bash_all: "leaves_clear t \<Longrightarrow> walk_bash_node source t = List.map_filter (extract_bash_command source) (all_commands t)"
proof (induction t)
  case (Node kind a b cs)
  let ?f = "extract_bash_command source"
  have ih: "walk_bash_node source c = List.map_filter ?f (all_commands c)" if "c \<in> set cs" for c
    using Node that by (auto simp: list_all_iff)
  have "(if List.member bash_leaves (node_kind c) then [] else walk_bash_node source c) = List.map_filter ?f (all_commands c)"
    if "c \<in> set cs" "kind = ''command''" for c
    using ih [OF that(1)] Node.prems that by (auto simp: list_all_iff List.map_filter_def)
  then have "kind = ''command'' \<Longrightarrow> map (\<lambda>c. if List.member bash_leaves (node_kind c) then [] else walk_bash_node source c) cs = map (List.map_filter ?f \<circ> all_commands) cs"
    by simp
  moreover have "map (walk_bash_node source) cs = map (List.map_filter ?f \<circ> all_commands) cs" using ih by simp
  moreover have "List.map_filter ?f (concat (map all_commands cs)) = concat (map (List.map_filter ?f \<circ> all_commands) cs)" by (simp add: map_filter_concat)
  ultimately have "walk_bash_node source (Node kind a b cs)
    = (if kind = ''command'' then option_list (?f (Node kind a b cs)) else []) @ List.map_filter ?f (concat (map all_commands cs))"
    by (cases "kind = ''command''") (simp_all only: walk_bash_node.simps if_True if_False append_Nil simp_thms)
  then show ?case by (simp add: List.map_filter_simps option_list_def split: option.splits)
qed

text \<open>What is below a leaf kind has no influence.\<close>

lemma bash_parts_children: "bash_parts source (pre @ Node kind x y cs # post) r = bash_parts source (pre @ Node kind x y ds # post) r"
proof (induction pre arbitrary: r)
  case Nil
  then show ?case by (cases r) (simp add: utf8_text_def)
next
  case (Cons c pre)
  then show ?case by (cases r) simp
qed

section \<open>Rules and files\<close>

lemma check_files_allowed:
  "check_files E fs call = CheckAllowed \<Longrightarrow>
    \<exists>pre f post. fs = pre @ f # post \<and> all_covered_by E call (rf_allow f) \<and> (\<forall>g \<in> set (pre @ [f]). \<forall>r \<in> set (rf_ask g @ rf_deny g). \<not> matches_rule E call r)"
proof (induction fs)
  case (Cons f fs)
  then have none: "\<forall>r \<in> set (rf_ask f @ rf_deny f). \<not> matches_rule E call r" by (auto simp: list_ex_iff split: if_splits)
  show ?case
  proof (cases "all_covered_by E call (rf_allow f)")
    case True
    with none show ?thesis by (intro exI [of _ "[]"] exI [of _ f] exI [of _ fs]) auto
  next
    case False
    with Cons obtain pre g post where "fs = pre @ g # post" "all_covered_by E call (rf_allow g)"
      "\<forall>h \<in> set (pre @ [g]). \<forall>r \<in> set (rf_ask h @ rf_deny h). \<not> matches_rule E call r" by (auto split: if_splits)
    with none show ?thesis by (intro exI [of _ "f # pre"] exI [of _ g] exI [of _ post]) auto
  qed
qed simp

lemma map_filter_mset: "mset xs = mset ys \<Longrightarrow> mset (List.map_filter f xs) = mset (List.map_filter f ys)"
  by (simp add: List.map_filter_def)

lemma walk_depths: "map fst (walk_tasks start global) = [0..<length (walk_tasks start global)]"
  by (simp add: walk_tasks_def Let_def split: option.splits)

lemma found_depths: "map fst (List.map_filter (found_file load) ts) = map fst (filter (\<lambda>t. found_file load t \<noteq> None) ts)"
  by (induction ts) (auto simp: List.map_filter_simps found_file_def split: sum.splits option.splits)

section \<open>Reading rules\<close>

lemma utf8_len_continues: "continues c \<Longrightarrow> utf8_len (c # cs) = None"
proof -
  assume "continues c"
  then have "128 \<le> (of_char c :: nat)" "(of_char c :: nat) < 192" by (simp_all add: continues_def)
  then have "\<not> in_range 0x00 0x7F c" "\<not> in_range 0xC2 0xDF c" "\<not> in_range 0xE0 0xE0 c" "\<not> in_range 0xE1 0xEC c" "\<not> in_range 0xED 0xED c"
    "\<not> in_range 0xEE 0xEF c" "\<not> in_range 0xF0 0xF0 c" "\<not> in_range 0xF1 0xF3 c" "\<not> in_range 0xF4 0xF4 c" by (simp_all add: in_range_def)
  then show ?thesis by (simp split: list.split)
qed

lemma utf8_starts: "utf8_valid s \<Longrightarrow> s = [] \<or> \<not> continues (hd s)"
  by (cases s) (auto simp: utf8_valid.simps utf8_len_continues simp del: utf8_len.simps)

lemma char_bytes_Nil [simp]: "char_bytes s = [] \<longleftrightarrow> s = []"
  by (cases s) simp_all

lemma scope_bytes:
  assumes "utf8_valid sc"
  shows "char_bytes (tool @ ''('' @ sc @ '')'') = char_bytes tool @ (CHR ''('', []) # char_bytes sc @ [(CHR '')'', [])]"
proof -
  have "char_bytes (CHR ''('' # sc @ '')'') = (CHR ''('', []) # char_bytes (sc @ '')'')"
    using utf8_starts [OF assms] by (cases sc) (simp_all add: continues_def)
  moreover have "char_bytes (sc @ '')'') = char_bytes sc @ [(CHR '')'', [])]" using char_bytes_append [of "'')''" sc] by (simp add: continues_def)
  ultimately show ?thesis using char_bytes_append [of "CHR ''('' # sc @ '')''" tool] by (simp add: continues_def)
qed

lemma of_bytes_append: "of_bytes (xs @ ys) = of_bytes xs @ of_bytes ys"
  by (simp add: of_bytes_def)

text \<open>A rule that was read prints as the trimmed text it was read from.\<close>

lemma rule_prints_back:
  assumes "rule_try_from E v = Inr r"
  shows "rule_display r = trim v"
proof -
  define word where "word g = word_char E (code_point (fst g) (snd g))" for g :: "char \<times> string"
  define tool rest where "tool = of_bytes (takeWhile word (char_bytes (trim v)))" and "rest = of_bytes (dropWhile word (char_bytes (trim v)))"
  have all: "tool @ rest = trim v"
    unfolding tool_def rest_def of_bytes_append [symmetric] takeWhile_dropWhile_id of_bytes_char_bytes ..
  have "rule_try_from E v = (if tool = [] then Inl (trim v) else if rest = [] then Inr \<lparr>rule_tool = tool, rule_scope = None\<rparr>
    else if hd rest = CHR ''('' \<and> length rest \<ge> 2 \<and> last rest = CHR '')'' \<and> newline \<notin> set rest
      then Inr \<lparr>rule_tool = tool, rule_scope = Some (butlast (tl rest))\<rparr> else Inl (trim v))"
    unfolding rule_try_from_def Let_def tool_def rest_def word_def ..
  with assms consider "rest = []" "r = \<lparr>rule_tool = tool, rule_scope = None\<rparr>"
    | "hd rest = CHR ''(''" "length rest \<ge> 2" "last rest = CHR '')''" "r = \<lparr>rule_tool = tool, rule_scope = Some (butlast (tl rest))\<rparr>"
    by (auto split: if_splits)
  then show ?thesis
  proof cases
    case 1
    with all show ?thesis by (simp add: rule_display_def)
  next
    case 2
    then have "tl rest \<noteq> []" by (cases rest) auto
    then have "butlast (tl rest) @ '')'' = tl rest" using 2(3) by (metis append_butlast_last_id last_tl)
    moreover have "CHR ''('' # tl rest = rest" using 2 by (cases rest) auto
    ultimately show ?thesis using 2 all by (simp add: rule_display_def)
  qed
qed

lemma rule_try_from_split:
  assumes "trim v = v" "takeWhile (\<lambda>g. word_char E (code_point (fst g) (snd g))) (char_bytes v) = a"
    "dropWhile (\<lambda>g. word_char E (code_point (fst g) (snd g))) (char_bytes v) = b" "of_bytes a \<noteq> []"
  shows "rule_try_from E v = (if of_bytes b = [] then Inr \<lparr>rule_tool = of_bytes a, rule_scope = None\<rparr>
    else if hd (of_bytes b) = CHR ''('' \<and> length (of_bytes b) \<ge> 2 \<and> last (of_bytes b) = CHR '')'' \<and> newline \<notin> set (of_bytes b)
      then Inr \<lparr>rule_tool = of_bytes a, rule_scope = Some (butlast (tl (of_bytes b)))\<rparr> else Inl v)"
  unfolding rule_try_from_def Let_def assms(1-3) using assms(4) by simp

lemma rule_reads_back:
  assumes law: "\<forall>n. white_space n \<longrightarrow> \<not> word_char E n" "\<not> word_char E 40"
    and tool: "rule_tool r \<noteq> []" "list_all (word_char E) (chars (rule_tool r))"
    and scope: "case rule_scope r of None \<Rightarrow> True | Some sc \<Rightarrow> utf8_valid sc \<and> newline \<notin> set sc"
  shows "rule_try_from E (rule_display r) = Inr r"
proof -
  let ?w = "\<lambda>g. word_char E (code_point (fst g) (snd g))" and ?t = "rule_tool r"
  have words: "\<forall>g \<in> set (char_bytes ?t). ?w g" using tool(2) by (simp add: chars_def list_all_iff)
  have ne: "char_bytes ?t \<noteq> []" using tool(1) by simp
  have first: "\<not> white_group (hd (char_bytes ?t))" using words ne law(1) by (meson hd_in_set)
  show ?thesis
  proof (cases "rule_scope r")
    case None
    have "\<not> white_group (last (char_bytes ?t))" using words ne law(1) by (meson last_in_set)
    then have "trim ?t = ?t" using trim_id ne first by blast
    moreover have "takeWhile ?w (char_bytes ?t) = char_bytes ?t" "dropWhile ?w (char_bytes ?t) = []" using words by simp_all
    ultimately have "rule_try_from E ?t = Inr \<lparr>rule_tool = ?t, rule_scope = None\<rparr>"
      using rule_try_from_split [of ?t E "char_bytes ?t" "[]"] tool(1) by (simp add: of_bytes_def [of "[]"])
    then show ?thesis using None by (cases r) (simp add: rule_display_def)
  next
    case (Some sc)
    let ?v = "?t @ ''('' @ sc @ '')''"
    have bytes: "char_bytes ?v = char_bytes ?t @ (CHR ''('', []) # char_bytes sc @ [(CHR '')'', [])]" using scope Some by (intro scope_bytes) simp
    have "code_point (CHR '')'') [] = 41" "code_point (CHR ''('') [] = 40" by (simp_all add: code_point_def)
    then have last: "\<not> white_group (CHR '')'', [])" and stop: "\<not> ?w (CHR ''('', [])" using law(2) by (simp_all add: white_space_def)
    have "char_bytes ?v \<noteq> []" "hd (char_bytes ?v) = hd (char_bytes ?t)" "last (char_bytes ?v) = (CHR '')'', [])" unfolding bytes using ne by simp_all
    then have "trim ?v = ?v" using trim_id first last by metis
    moreover have "takeWhile ?w (char_bytes ?v) = char_bytes ?t" "dropWhile ?w (char_bytes ?v) = (CHR ''('', []) # char_bytes sc @ [(CHR '')'', [])]"
      using words stop unfolding bytes by (simp_all add: takeWhile_append dropWhile_append)
    moreover have "of_bytes ((CHR ''('', []) # char_bytes sc @ [(CHR '')'', [])]) = ''('' @ sc @ '')''"
      using of_bytes_char_bytes [of sc] by (simp add: of_bytes_def)
    ultimately have "rule_try_from E ?v = Inr \<lparr>rule_tool = ?t, rule_scope = Some sc\<rparr>"
      using rule_try_from_split [of ?v E "char_bytes ?t" "(CHR ''('', []) # char_bytes sc @ [(CHR '')'', [])]"] tool(1) scope Some by simp
    then show ?thesis using Some by (cases r) (simp add: rule_display_def)
  qed
qed

section \<open>The properties\<close>

text \<open>
  A scope with wildcards in it matches a command exactly when the command's words are the words between the stars, in order, with
  any words in the gaps: taking the first place for every inner part loses no match.
\<close>

theorem scope_matches_exact:
  assumes "CHR ''*'' \<in> set scope"
  shows "scope_matches_words scope words \<longleftrightarrow> wild_match (map split_whitespace (split_on (\<lambda>c. c = CHR ''*'') scope)) words"
proof -
  obtain a b where "scope = a @ CHR ''*'' # b" using assms by (meson split_list)
  then have parts: "split_on (\<lambda>c. c = CHR ''*'') scope = split_on (\<lambda>c. c = CHR ''*'') a @ split_on (\<lambda>c. c = CHR ''*'') b"
    by (simp add: split_on_append)
  obtain p ps where s: "split_on (\<lambda>c. c = CHR ''*'') scope = p # ps" by (meson list.exhaust split_on_not_Nil)
  have "ps \<noteq> []" using parts s by (cases "split_on (\<lambda>c. c = CHR ''*'') a") auto
  then show ?thesis using scope_loop_wild [of ps p words] s by (simp add: scope_matches_words_def)
qed

theorem scope_matches_exact_witness:
  "scope_matches_words ''git * amend'' [''git'', ''commit'', ''amend''] \<longleftrightarrow> wild_match [[''git''], [''amend'']] [''git'', ''commit'', ''amend'']"
proof -
  have "map split_whitespace (split_on (\<lambda>c. c = CHR ''*'') ''git * amend'') = [[''git''], [''amend'']]"
    by (simp add: split_whitespace_def of_bytes_def continues_def code_point_def white_space_def)
  then show ?thesis using scope_matches_exact [of "''git * amend''" "[''git'', ''commit'', ''amend'']"] by simp
qed

lemma all_covered_iff: "all_covered_by E tool rules \<longleftrightarrow>
    (case tool of Shell c \<Rightarrow> subcommands_of E c \<noteq> [] \<and> (\<forall>subcmd \<in> set (subcommands_of E c). \<exists>r \<in> set rules. covers r subcmd)
      | _ \<Rightarrow> \<exists>r \<in> set rules. matches_rule E tool r)"
  by (cases tool) (simp_all add: all_covered_by_def list_all_iff list_ex_iff)


definition perm_example_env :: perm_env where
  "perm_example_env = \<lparr>pe_tools = \<lparr>tilde = id, current_dir = None, uuid_parse = (\<lambda>_. None)\<rparr>, tree_sitter = False, bash_tree = (\<lambda>_. None),
     fish_tree = (\<lambda>_. None), glob_match = (\<lambda>_ _. False), word_char = (\<lambda>n. 65 \<le> n \<and> n \<le> 90 \<or> 97 \<le> n \<and> n \<le> 122)\<rparr>"

abbreviation "perm_example_call \<equiv>
  Shell \<lparr>shell_dir = Some [], shell_command = ''ls; pwd'', shell_name = ''bash'', timeout_secs = 30, shell_description = None\<rparr>"

abbreviation "shell_rule scope \<equiv> \<lparr>rule_tool = ''Shell'', rule_scope = Some scope\<rparr>"

abbreviation "perm_example_file \<equiv> \<lparr>rule_path = ''g'', rf_allow = [shell_rule ''ls'', shell_rule ''pwd''], rf_deny = [shell_rule ''rm''], rf_ask = []\<rparr>"

definition perm_example_io :: perm_io where
  "perm_example_io = \<lparr>yolo = False, edit_permissions = \<lparr>grants_at = Map.empty\<rparr>, clock_ms = 0, walk_order = id, walk_fails = False,
     load_rules = (\<lambda>p. if p = ''g'' then Inr (Some perm_example_file) else Inr None), global_file = ''g''\<rparr>"

lemmas text_eval = split_whitespace_def of_bytes_def continues_def code_point_def white_space_def trim_def trim_start_def trim_end_def
  push_segment_def starts_with_def strip_suffix_def

lemma perm_example_commands:
  "subcommands_of perm_example_env \<lparr>shell_dir = d, shell_command = ''ls; pwd'', shell_name = ''bash'', timeout_secs = n, shell_description = None\<rparr>
    = [\<lparr>cmd_name = ''ls'', cmd_full = ''ls''\<rparr>, \<lparr>cmd_name = ''pwd'', cmd_full = ''pwd''\<rparr>]"
  by (simp add: subcommands_of_def parse_shell_command_def perm_example_env_def parse_fallback_def text_eval Let_def)

lemma perm_example_rules: "resolver_rules perm_example_io [] = Some [perm_example_file]"
  by (simp add: resolver_rules_def perm_example_io_def walk_rules_def walk_tasks_def path_ancestors.simps [of "[]"] path_parent_def path_body_def
      path_front_def path_segments_def has_root_def starts_with_def trim_segments_def trivial_segment_def dir_permissions_path_def join_path_def is_relative_def
      found_file_def List.map_filter_simps)


text \<open>
  Whatever order the reading tasks finish in, the rule files are those of the working directory's ancestors, the deepest
  first, and the global file last; files that are missing or cannot be read are left out.
\<close>

theorem rule_files_order:
  assumes "mset finished = mset (walk_tasks start global)"
  shows "walk_rules load finished = map snd (List.map_filter (found_file load) (walk_tasks start global))"
proof -
  let ?f = "List.map_filter (found_file load)"
  have "sorted (map fst (walk_tasks start global))" "distinct (map fst (walk_tasks start global))" by (simp_all add: walk_depths)
  then have s: "sorted (map fst (?f (walk_tasks start global)))" and d: "distinct (map fst (?f (walk_tasks start global)))"
    unfolding found_depths by (simp_all add: sorted_filter distinct_map_filter)
  have m: "mset (?f finished) = mset (?f (walk_tasks start global))" using assms by (rule map_filter_mset)
  then have "inj_on fst (set (?f finished))" using d by (metis distinct_map mset_eq_setD)
  then have "sort_key fst (?f finished) = ?f (walk_tasks start global)" using m s by (intro sort_key_inj_key_eq) auto
  then show ?thesis by (simp add: walk_rules_def)
qed

theorem rule_files_order_witness:
  "walk_rules (load_rules perm_example_io) (rev (walk_tasks [] (Some ''g''))) = [perm_example_file]"
proof -
  have "walk_rules (load_rules perm_example_io) (walk_tasks [] (Some ''g'')) = [perm_example_file]"
    using perm_example_rules by (simp add: resolver_rules_def perm_example_io_def)
  then show ?thesis
    using rule_files_order [of "walk_tasks [] (Some ''g'')" "[]" "Some ''g''" "load_rules perm_example_io"]
      rule_files_order [of "rev (walk_tasks [] (Some ''g''))" "[]" "Some ''g''" "load_rules perm_example_io"] by (simp only: mset_rev)
qed

text \<open>
  A rule that is written to a file reads back as the same rule, with its scope byte for byte, when its tool is a word and its scope is
  text without line feeds; and the text of a rule that was read is the rule's printed form.
\<close>

theorem rule_roundtrip:
  assumes "\<forall>n. white_space n \<longrightarrow> \<not> word_char E n" and "\<not> word_char E 40"
    and "rule_tool r \<noteq> []" and "list_all (word_char E) (chars (rule_tool r))"
    and "case rule_scope r of None \<Rightarrow> True | Some sc \<Rightarrow> utf8_valid sc \<and> newline \<notin> set sc"
  shows "rule_try_from E (rule_display r) = Inr r \<and> (\<forall>v s. rule_try_from E v = Inr s \<longrightarrow> rule_display s = trim v)"
  using rule_reads_back [OF assms] rule_prints_back by blast

theorem rule_roundtrip_witness:
  "rule_try_from perm_example_env (rule_display (shell_rule ''echo ()'')) = Inr (shell_rule ''echo ()'')"
proof -
  have "utf8_valid ''echo ()''" by (simp add: utf8_valid.simps in_range_def)
  then show ?thesis
    using rule_roundtrip [of perm_example_env "shell_rule ''echo ()''"]
    by (auto simp: perm_example_env_def white_space_def chars_def continues_def code_point_def)
qed


abbreviation "leaf kind a b \<equiv> Node kind a b []"

definition nested_tree :: node where
  "nested_tree = Node ''program'' 0 9 [Node ''command'' 0 9 [Node ''command_name'' 0 4 [leaf ''word'' 0 4],
     Node ''command_substitution'' 5 9 [Node ''command'' 7 8 [Node ''command_name'' 7 8 [leaf ''word'' 7 8]]]]]"


text \<open>
  What is below a child of a command that counts as a leaf has no influence on the commands that are checked. The kinds include the
  expansions, which in a shell may hold whole commands.
\<close>

theorem leaf_commands_hidden:
  assumes "kind \<in> set bash_leaves"
  shows "walk_bash_node source (Node ''command'' a b (before @ Node kind x y cs # after))
    = walk_bash_node source (Node ''command'' a b (before @ Node kind x y ds # after))"
  using assms bash_parts_children [of source before kind x y cs after "(None, None, None)" ds] by (simp add: extract_bash_command_def)

theorem leaf_commands_hidden_witness:
  "walk_bash_node ''echo ${x:-$(w)}'' (Node ''command'' 0 15 ([Node ''command_name'' 0 4 []] @
      Node ''expansion'' 5 15 [Node ''command_substitution'' 10 14 [Node ''command'' 12 13 [Node ''command_name'' 12 13 []]]] # []))
    = walk_bash_node ''echo ${x:-$(w)}'' (Node ''command'' 0 15 ([Node ''command_name'' 0 4 []] @ Node ''expansion'' 5 15 [] # []))"
  by (rule leaf_commands_hidden) (simp add: bash_leaves_def)

end
