(* ===== verification/Ai_Files.thy ===== *)
theory Ai_Files
  imports Ai_Fsm Rust_Path
begin

text \<open>
  The agent's file tools: reading, editing and writing (\<open>execute\<close> of the three calls in \<open>atuin-ai/src/tools/mod.rs\<close>), the
  tracker of what was read (\<open>file_tracker.rs\<close>), the backup snapshots (\<open>snapshots.rs\<close>) and how \<open>execute_tool\<close> in \<open>tui/app.rs\<close>
  puts them together.

  The file system is a list of entries with the clock and a schedule of faults: every read, stat and
  write may fail. Between two tool executions other programs may change any entry; one execution is not interrupted.
  The content hash is a parameter.

  Shown: an edit changes exactly the file it names, only when it was read and not modified since, to the text with the occurrences
  replaced, and leaves the files alone in every other case; after an edit the file counts as read; the snapshots of different files have
  different names, so that the first content of every edited file is kept; except that one file's snapshot has the name of the
  snapshots' own manifest.
\<close>

section \<open>Files\<close>

datatype entry = FsFile string int | FsDir int

record filesystem =
  fs_entries :: "(string \<times> entry) list"
  fs_clock :: int
  fs_faults :: "bool list"

type_synonym 'a fs_io = "filesystem \<Rightarrow> (string + 'a) \<times> filesystem"

definition fs_get :: "string \<Rightarrow> filesystem \<Rightarrow> entry option" where
  "fs_get p s = map_of (fs_entries s) p"

fun fs_put :: "string \<Rightarrow> entry \<Rightarrow> (string \<times> entry) list \<Rightarrow> (string \<times> entry) list" where
  "fs_put p e [] = [(p, e)]"
| "fs_put p e ((q, d) # xs) = (if q = p then (p, e) # xs else (q, d) # fs_put p e xs)"

text \<open>One fallible step: the next fault of the schedule decides.\<close>

definition fallible :: "'a fs_io \<Rightarrow> 'a fs_io" where
  "fallible f s =
     (let s' = s\<lparr>fs_faults := tl (fs_faults s)\<rparr>
      in if fs_faults s \<noteq> [] \<and> hd (fs_faults s) then (Inl ''i/o error'', s') else f s')"

definition fs_read :: "string \<Rightarrow> string fs_io" where
  "fs_read p =
     fallible (\<lambda>s. (case fs_get p s of Some (FsFile c _) \<Rightarrow> Inr c | Some (FsDir _) \<Rightarrow> Inl ''is a directory'' | None \<Rightarrow> Inl ''not found'', s))"

definition fs_modified :: "string \<Rightarrow> int fs_io" where
  "fs_modified p =
     fallible (\<lambda>s. (case fs_get p s of Some (FsFile _ m) \<Rightarrow> Inr m | Some (FsDir m) \<Rightarrow> Inr m | None \<Rightarrow> Inl ''not found'', s))"

definition fs_exists :: "string \<Rightarrow> filesystem \<Rightarrow> bool" where
  "fs_exists p s \<longleftrightarrow> fs_get p s \<noteq> None"

definition fs_is_dir :: "string \<Rightarrow> filesystem \<Rightarrow> bool" where
  "fs_is_dir p s = (case fs_get p s of Some (FsDir _) \<Rightarrow> True | _ \<Rightarrow> False)"

definition create_dir_all :: "string \<Rightarrow> unit fs_io" where
  "create_dir_all dir =
     fallible (\<lambda>s.
       let missing = filter (\<lambda>d. d \<noteq> [] \<and> fs_get d s = None) (path_ancestors dir)
       in if list_ex (\<lambda>d. d \<noteq> [] \<and> fs_get d s \<noteq> None \<and> \<not> fs_is_dir d s) (path_ancestors dir) then (Inl ''not a directory'', s)
          else (Inr (), s\<lparr>fs_entries := foldr (\<lambda>d. fs_put d (FsDir (fs_clock s))) missing (fs_entries s)\<rparr>))"

text \<open>Write to a temporary file beside the target, then rename; the temporary file goes away when a step fails.\<close>

definition atomic_write_file :: "string \<Rightarrow> string \<Rightarrow> unit fs_io" where
  "atomic_write_file target content =
     (case path_parent target of
        None \<Rightarrow> (\<lambda>s. (Inl ''target path has no parent directory'', s))
      | Some dir \<Rightarrow>
          (\<lambda>s. case create_dir_all dir s of
             (Inl e, s1) \<Rightarrow> (Inl e, s1)
           | (Inr _, s1) \<Rightarrow>
               (case fallible (\<lambda>s. (Inr (), s)) s1 of
                  (Inl e, s2) \<Rightarrow> (Inl e, s2)
                | (Inr _, s2) \<Rightarrow>
                    fallible (\<lambda>s. if fs_is_dir target s then (Inl ''failed to persist atomic write'', s)
                      else (Inr (), s\<lparr>fs_entries := fs_put target (FsFile content (fs_clock s)) (fs_entries s)\<rparr>)) s2)))"

section \<open>The tracker\<close>

record FileReadState =
  content_hash :: nat
  mtime_ms :: int

type_synonym FileReadTracker = "string \<Rightarrow> FileReadState option"

datatype FreshnessCheck = Fresh | NotRead | Stale

text \<open>Times are nanoseconds since the epoch.\<close>

definition system_time_to_ms :: "int \<Rightarrow> int" where
  "system_time_to_ms t = (if t < 0 then 0 else t div 1000000)"

definition record_read :: "(string \<Rightarrow> nat) \<Rightarrow> string \<Rightarrow> string \<Rightarrow> int \<Rightarrow> FileReadTracker \<Rightarrow> FileReadTracker" where
  "record_read hash path content mtime tr = tr(path \<mapsto> \<lparr>content_hash = hash content, mtime_ms = system_time_to_ms mtime\<rparr>)"

definition update_after_edit :: "(string \<Rightarrow> nat) \<Rightarrow> string \<Rightarrow> string \<Rightarrow> int \<Rightarrow> FileReadTracker \<Rightarrow> FileReadTracker" where
  "update_after_edit hash path content mtime tr = tr(path \<mapsto> \<lparr>content_hash = hash content, mtime_ms = system_time_to_ms mtime\<rparr>)"

definition check_freshness :: "(string \<Rightarrow> nat) \<Rightarrow> FileReadTracker \<Rightarrow> string \<Rightarrow> FreshnessCheck fs_io" where
  "check_freshness hash tr path s =
     (case tr path of
        None \<Rightarrow> (Inr NotRead, s)
      | Some st \<Rightarrow>
          (case fs_modified path s of
             (Inl _, s1) \<Rightarrow> (Inr Stale, s1)
           | (Inr m, s1) \<Rightarrow>
               if system_time_to_ms m = mtime_ms st then (Inr Fresh, s1)
               else (case fs_read path s1 of
                       (Inl e, s2) \<Rightarrow> (Inl e, s2)
                     | (Inr c, s2) \<Rightarrow> (Inr (if hash c = content_hash st then Fresh else Stale), s2))))"

section \<open>Edits\<close>

text \<open>\<open>str::matches\<close>, \<open>replace\<close> and \<open>replacen\<close>: the pieces between the matches that do not overlap, from the left.\<close>

function str_pieces :: "string \<Rightarrow> string \<Rightarrow> string list" where
  "str_pieces pat s =
     (if pat \<noteq> [] \<and> starts_with pat s then [] # str_pieces pat (drop (length pat) s)
      else case s of
        [] \<Rightarrow> [[]]
      | c # cs \<Rightarrow> (case str_pieces pat cs of [] \<Rightarrow> [[c]] | p # ps \<Rightarrow> (c # p) # ps))"
  by pat_completeness auto

termination
  by (relation "measure (\<lambda>(_, s). length s)") (auto simp: starts_with_iff)

declare str_pieces.simps [simp del]

definition match_count :: "string \<Rightarrow> string \<Rightarrow> nat" where
  "match_count pat s = length (str_pieces pat s) - 1"

definition str_replace :: "string \<Rightarrow> string \<Rightarrow> string \<Rightarrow> string" where
  "str_replace pat new s = join_with new (str_pieces pat s)"

definition str_replace_first :: "string \<Rightarrow> string \<Rightarrow> string \<Rightarrow> string" where
  "str_replace_first pat new s =
     (case str_pieces pat s of p # q # ps \<Rightarrow> p @ new @ join_with pat (q # ps) | _ \<Rightarrow> s)"

definition edit_execute ::
  "(string \<Rightarrow> nat) \<Rightarrow> EditToolCall \<Rightarrow> string \<Rightarrow> FileReadTracker \<Rightarrow> filesystem \<Rightarrow> (ToolOutcome \<times> string option) \<times> filesystem" where
  "edit_execute hash c path tr s =
     (if \<not> fs_exists path s then ((OutcomeError (''Error: file does not exist: '' @ path), None), s)
      else if fs_is_dir path s then ((OutcomeError (''Error: path is a directory, not a file: '' @ path), None), s)
      else if old_string c = [] then
        ((OutcomeError ''old_string must not be empty. To create a new file, use write_file instead.'', None), s)
      else (case check_freshness hash tr path s of
        (Inl e, s1) \<Rightarrow> ((OutcomeError (''Error checking file state: '' @ e), None), s1)
      | (Inr NotRead, s1) \<Rightarrow> ((OutcomeError ''File has not been read yet. Read it first before editing.'', None), s1)
      | (Inr Stale, s1) \<Rightarrow>
          ((OutcomeError ''File has been modified since read, either by the user or by a linter. Read it again before attempting to edit it.'', None), s1)
      | (Inr Fresh, s1) \<Rightarrow>
          (case fs_read path s1 of
             (Inl e, s2) \<Rightarrow> ((OutcomeError (''Error reading file: '' @ e), None), s2)
           | (Inr content, s2) \<Rightarrow>
               if \<not> utf8_valid content then ((OutcomeError ''Error reading file: stream did not contain valid UTF-8'', None), s2)
               else
                 (let n = match_count (old_string c) content
                  in if n = 0 then
                       ((OutcomeError (''old_string not found in '' @ path @ ''. Make sure it matches exactly, including whitespace and indentation.''), None), s2)
                     else if n > 1 \<and> \<not> replace_all c then
                       ((OutcomeError (''Found '' @ show_nat n @ '' matches of old_string in '' @ path @
                          '', but replace_all is false. Either provide more context to make the match unique, or set replace_all to true.''), None), s2)
                     else
                       (let new_content = (if replace_all c then str_replace (old_string c) (new_string c) content
                                           else str_replace_first (old_string c) (new_string c) content)
                        in case atomic_write_file path new_content s2 of
                             (Inl e, s3) \<Rightarrow> ((OutcomeError (''Error writing file: '' @ e), None), s3)
                           | (Inr _, s3) \<Rightarrow>
                               ((Success (''Edited '' @ path @ '': replaced '' @ show_nat n @ '' '' @ (if n = 1 then ''occurrence'' else ''occurrences'') @
                                  '' of old_string with new_string.''), Some new_content), s3))))))"

section \<open>Writes and reads\<close>

definition line_count :: "string \<Rightarrow> nat" where
  "line_count s = (let ls = split_on (\<lambda>c. c = newline) s in if last ls = [] then length ls - 1 else length ls)"

definition write_execute :: "WriteToolCall \<Rightarrow> string \<Rightarrow> filesystem \<Rightarrow> (ToolOutcome \<times> string option) \<times> filesystem" where
  "write_execute c path s =
     (if fs_is_dir path s then ((OutcomeError (''Error: path is a directory, not a file: '' @ path), None), s)
      else if fs_exists path s \<and> \<not> write_overwrite c then
        ((OutcomeError (''File already exists: '' @ path @ ''. Set overwrite to true to replace it, or use edit_file to make targeted changes.''), None), s)
      else
        (let existed = fs_exists path s
         in case atomic_write_file path (write_content c) s of
              (Inl e, s1) \<Rightarrow> ((OutcomeError (''Error writing file: '' @ e), None), s1)
            | (Inr _, s1) \<Rightarrow>
                ((Success ((if existed then ''Overwrote'' else ''Created'') @ '' '' @ path @ '' ('' @ show_nat (line_count (write_content c)) @ '' lines).''),
                  Some (write_content c)), s1)))"

text \<open>\<open>BufRead::lines\<close>: without the line end; a line that is not UTF-8 is an error.\<close>

definition strip_cr :: "string \<Rightarrow> string" where
  "strip_cr l = (if l \<noteq> [] \<and> last l = CHR 0x0D then butlast l else l)"

definition buf_lines :: "string \<Rightarrow> (string + string) list" where
  "buf_lines s =
     (let ls = split_on (\<lambda>c. c = newline) s; ended = map strip_cr (butlast ls);
          ls = (if last ls = [] then ended else ended @ [last ls])
      in map (\<lambda>l. if utf8_valid l then Inr l else Inl ''stream did not contain valid UTF-8'') ls)"

definition pad_left :: "nat \<Rightarrow> string \<Rightarrow> string" where
  "pad_left width s = replicate (width - length s) (CHR '' '') @ s"

fun number_lines :: "nat \<Rightarrow> nat \<Rightarrow> string list \<Rightarrow> string list" where
  "number_lines width n [] = []"
| "number_lines width n (l # ls) = (pad_left width (show_nat n) @ [CHR 0x09] @ l) # number_lines width (u64_add n 1) ls"

definition read_dir :: "string \<Rightarrow> filesystem \<Rightarrow> string list" where
  "read_dir path s = List.map_filter (\<lambda>(q, _). if path_parent q = Some path then file_name q else None) (fs_entries s)"

definition read_execute :: "ReadToolCall \<Rightarrow> string \<Rightarrow> filesystem \<Rightarrow> ToolOutcome \<times> filesystem" where
  "read_execute c path s =
     (if \<not> fs_exists path s then (OutcomeError (''Error: file does not exist: '' @ path), s)
      else if fs_is_dir path s then
        (case fallible (\<lambda>s. (Inr (), s)) s of
           (Inl _, s1) \<Rightarrow> (OutcomeError (''Error: could not read directory: '' @ path), s1)
         | (Inr _, s1) \<Rightarrow> (Success (''Directory contents:'' @ [newline] @ join_with [newline] (read_dir path s1)), s1))
      else (case fs_read path s of
        (Inl e, s1) \<Rightarrow> (OutcomeError (''Error opening file: '' @ e), s1)
      | (Inr content, s1) \<Rightarrow>
          (case collect_r (take (read_limit c) (drop (read_offset c) (buf_lines content))) of
             Inl e \<Rightarrow> (OutcomeError (''Error reading file: '' @ e), s1)
           | Inr lines \<Rightarrow>
               (let first_line_no = u64_add (read_offset c) 1; last_line_no = u64_add first_line_no (length lines - 1);
                    width = length (show_nat (max last_line_no 1));
                    numbered = join_with [newline] (number_lines width first_line_no lines)
                in if length numbered > 100000 then
                     (OutcomeError (''Error: file is too large to read ('' @ show_nat (length numbered) @ '' bytes in '' @ show_nat (length lines) @
                        '' lines); use view_range to read a subset of the file''), s1)
                   else (Success numbered, s1)))))"

section \<open>Snapshots\<close>

record SnapshotEntry =
  original_path :: string
  snapshot_at :: string
  size_bytes :: nat

record SnapshotStore =
  session_dir :: string
  snap_files :: "string \<Rightarrow> SnapshotEntry option"

definition ascii_alphabetic :: "char \<Rightarrow> bool" where
  "ascii_alphabetic c \<longleftrightarrow> (of_char c :: nat) \<in> {65..90} \<union> {97..122}"

definition sanitize_path :: "string \<Rightarrow> string" where
  "sanitize_path p =
     (let s = (case p of
          c # cs \<Rightarrow> if c = CHR ''/'' then cs
            else if length p \<ge> 3 \<and> ascii_alphabetic (p ! 0) \<and> p ! 1 = CHR '':'' \<and> (p ! 2 = CHR 0x5C \<or> p ! 2 = CHR ''/'') then drop 3 p else p
        | [] \<Rightarrow> [])
      in str_replace [CHR 0x5C] ''%5C'' (str_replace ''/'' ''%2F'' (str_replace ''%'' ''%25'' s)))"

text \<open>The manifest's text and the time are parameters; a failing write leaves the manifest in memory with the new entry.\<close>

definition ensure_snapshot ::
  "(SnapshotStore \<Rightarrow> string) \<Rightarrow> string \<Rightarrow> string \<Rightarrow> string \<Rightarrow> SnapshotStore \<times> filesystem \<Rightarrow> (string + bool) \<times> SnapshotStore \<times> filesystem" where
  "ensure_snapshot manifest_json now path content st =
     (let (store, s) = st; filename = sanitize_path path
      in if snap_files store filename \<noteq> None then (Inr False, store, s)
         else (case create_dir_all (session_dir store) s of
           (Inl e, s1) \<Rightarrow> (Inl e, store, s1)
         | (Inr _, s1) \<Rightarrow>
             (case atomic_write_file (join_path (session_dir store) filename) content s1 of
                (Inl e, s2) \<Rightarrow> (Inl e, store, s2)
              | (Inr _, s2) \<Rightarrow>
                  (let store = store\<lparr>snap_files := (snap_files store)(filename \<mapsto> \<lparr>original_path = path, snapshot_at = now, size_bytes = length content\<rparr>)\<rparr>
                   in case atomic_write_file (join_path (session_dir store) ''manifest.json'') (manifest_json store) s2 of
                        (Inl e, s3) \<Rightarrow> (Inl e, store, s3)
                      | (Inr _, s3) \<Rightarrow> (Inr True, store, s3)))))"

section \<open>Executing a call\<close>

record file_env =
  fl_hash :: "string \<Rightarrow> nat"
  fl_manifest :: "SnapshotStore \<Rightarrow> string"
  fl_now :: string
  fl_tools :: ai_env

record file_world =
  fw_fs :: filesystem
  fw_tracker :: FileReadTracker
  fw_snapshots :: "SnapshotStore option"

text \<open>The snapshot before a change: a failure is only logged.\<close>

definition snapshot_before :: "file_env \<Rightarrow> string \<Rightarrow> file_world \<Rightarrow> file_world" where
  "snapshot_before E path w =
     (case fs_read path (fw_fs w) of
        (Inl _, s1) \<Rightarrow> w\<lparr>fw_fs := s1\<rparr>
      | (Inr content, s1) \<Rightarrow>
          (case fw_snapshots w of
             None \<Rightarrow> w\<lparr>fw_fs := s1\<rparr>
           | Some store \<Rightarrow>
               (case ensure_snapshot (fl_manifest E) (fl_now E) path content (store, s1) of
                  (_, store', s2) \<Rightarrow> w\<lparr>fw_fs := s2, fw_snapshots := Some store'\<rparr>)))"

definition track_change :: "file_env \<Rightarrow> string \<Rightarrow> string option \<Rightarrow> file_world \<Rightarrow> file_world" where
  "track_change E path new w =
     (case new of
        None \<Rightarrow> w
      | Some content \<Rightarrow>
          (case fs_modified path (fw_fs w) of
             (Inl _, s1) \<Rightarrow> w\<lparr>fw_fs := s1\<rparr>
           | (Inr m, s1) \<Rightarrow> w\<lparr>fw_fs := s1, fw_tracker := update_after_edit (fl_hash E) path content m (fw_tracker w)\<rparr>))"

definition run_edit :: "file_env \<Rightarrow> EditToolCall \<Rightarrow> file_world \<Rightarrow> ToolOutcome \<times> file_world" where
  "run_edit E c w =
     (let path = resolved_path (fl_tools E) (edit_path c); w = snapshot_before E path w
      in case edit_execute (fl_hash E) c path (fw_tracker w) (fw_fs w) of
           ((oc, new), s) \<Rightarrow> (oc, track_change E path new (w\<lparr>fw_fs := s\<rparr>)))"

definition run_write :: "file_env \<Rightarrow> WriteToolCall \<Rightarrow> file_world \<Rightarrow> ToolOutcome \<times> file_world" where
  "run_write E c w =
     (let path = resolved_path (fl_tools E) (write_path c); w = snapshot_before E path w
      in case write_execute c path (fw_fs w) of
           ((oc, new), s) \<Rightarrow> (oc, track_change E path new (w\<lparr>fw_fs := s\<rparr>)))"

definition fs_is_file :: "string \<Rightarrow> filesystem \<Rightarrow> bool" where
  "fs_is_file p s = (case fs_get p s of Some (FsFile _ _) \<Rightarrow> True | _ \<Rightarrow> False)"

definition run_read :: "file_env \<Rightarrow> ReadToolCall \<Rightarrow> file_world \<Rightarrow> ToolOutcome \<times> file_world" where
  "run_read E c w =
     (let path = resolved_path (fl_tools E) (read_path c)
      in case read_execute c path (fw_fs w) of
           (oc, s) \<Rightarrow>
             (oc, if outcome_is_error oc \<or> \<not> fs_is_file path s then w\<lparr>fw_fs := s\<rparr>
                  else (case fs_read path s of
                          (Inl _, s1) \<Rightarrow> w\<lparr>fw_fs := s1\<rparr>
                        | (Inr content, s1) \<Rightarrow>
                            (case fs_modified path s1 of
                               (Inl _, s2) \<Rightarrow> w\<lparr>fw_fs := s2\<rparr>
                             | (Inr m, s2) \<Rightarrow> w\<lparr>fw_fs := s2, fw_tracker := record_read (fl_hash E) path content m (fw_tracker w)\<rparr>))))"

text \<open>The three file calls, as the match of \<open>execute_tool\<close> runs them.\<close>

fun run_file_call :: "file_env \<Rightarrow> ClientToolCall \<Rightarrow> file_world \<Rightarrow> file_world" where
  "run_file_call E (Edit c) w = snd (run_edit E c w)"
| "run_file_call E (Write c) w = snd (run_write E c w)"
| "run_file_call E (Read c) w = snd (run_read E c w)"
| "run_file_call E _ w = w"

section \<open>What the operations change\<close>

lemma map_of_fs_put [simp]: "map_of (fs_put p e xs) q = (if q = p then Some e else map_of xs q)"
  by (induction p e xs rule: fs_put.induct) auto

text \<open>No file is changed; at most new directories appear.\<close>

definition keeps_files :: "filesystem \<Rightarrow> filesystem \<Rightarrow> bool" where
  "keeps_files s s' \<longleftrightarrow> (\<forall>q. fs_get q s' = fs_get q s \<or> fs_get q s = None \<and> (\<exists>m. fs_get q s' = Some (FsDir m)))"

lemma keeps_files_refl [simp]: "keeps_files s s"
  by (simp add: keeps_files_def)

lemma keeps_files_trans: "keeps_files s t \<Longrightarrow> keeps_files t u \<Longrightarrow> keeps_files s u"
  unfolding keeps_files_def by (metis option.distinct(1))

lemma keeps_filesD: "keeps_files s s' \<Longrightarrow> fs_get q s = Some e \<Longrightarrow> fs_get q s' = Some e"
  unfolding keeps_files_def by (metis option.distinct(1))

lemma fs_get_faults [simp]: "fs_get p (s\<lparr>fs_faults := xs\<rparr>) = fs_get p s"
  by (simp add: fs_get_def)

lemma fs_read_facts:
  assumes "fs_read p s = (r, s')"
  shows "fs_get q s' = fs_get q s" "fs_clock s' = fs_clock s" "r = Inr c \<Longrightarrow> \<exists>m. fs_get p s = Some (FsFile c m)"
  using assms by (auto simp: fs_read_def fallible_def Let_def split: if_splits option.splits entry.splits)

lemma fs_modified_facts:
  assumes "fs_modified p s = (r, s')"
  shows "fs_get q s' = fs_get q s" "fs_clock s' = fs_clock s" "r = Inr m \<Longrightarrow> fs_get p s = Some (FsDir m) \<or> (\<exists>c. fs_get p s = Some (FsFile c m))"
  using assms by (auto simp: fs_modified_def fallible_def Let_def split: if_splits option.splits entry.splits)

lemma same_keeps: "(\<And>q. fs_get q s' = fs_get q s) \<Longrightarrow> keeps_files s s'"
  by (simp add: keeps_files_def)

lemma map_of_put_dirs: "map_of (foldr (\<lambda>d. fs_put d e) ds xs) q = (if q \<in> set ds then Some e else map_of xs q)"
  by (induction ds) auto

lemma create_dir_keeps: "create_dir_all d s = (r, s') \<Longrightarrow> keeps_files s s' \<and> fs_clock s' = fs_clock s"
  by (auto simp: create_dir_all_def fallible_def Let_def keeps_files_def fs_get_def map_of_put_dirs split: if_splits)

lemma fallible_step: "fallible (\<lambda>s. (Inr (), s)) s = (r, s') \<Longrightarrow> (\<forall>q. fs_get q s' = fs_get q s) \<and> fs_clock s' = fs_clock s"
  by (auto simp: fallible_def Let_def split: if_splits)

lemma persist_facts:
  assumes "fallible (\<lambda>s. if fs_is_dir target s then (Inl e0, s)
      else (Inr (), s\<lparr>fs_entries := fs_put target (FsFile content (fs_clock s)) (fs_entries s)\<rparr>)) s = (r, s')"
  shows "fs_clock s' = fs_clock s" "r = Inl e \<Longrightarrow> fs_get q s' = fs_get q s"
    "r = Inr u \<Longrightarrow> fs_get q s' = (if q = target then Some (FsFile content (fs_clock s)) else fs_get q s)"
  using assms by (auto simp: fallible_def Let_def fs_get_def split: if_splits)

lemma atomic_write_facts:
  assumes "atomic_write_file target content s = (r, s')"
  shows "fs_clock s' = fs_clock s" "r = Inl e \<Longrightarrow> keeps_files s s'"
    "r = Inr u \<Longrightarrow> \<exists>t. keeps_files s t \<and> (\<forall>q. fs_get q s' = (if q = target then Some (FsFile content (fs_clock s)) else fs_get q t))"
proof -
  have "fs_clock s' = fs_clock s \<and> (case r of Inl _ \<Rightarrow> keeps_files s s'
    | Inr _ \<Rightarrow> \<exists>t. keeps_files s t \<and> (\<forall>q. fs_get q s' = (if q = target then Some (FsFile content (fs_clock s)) else fs_get q t)))"
  proof (cases "path_parent target")
    case None
    then show ?thesis using assms by (auto simp: atomic_write_file_def)
  next
    case (Some dir)
    obtain r1 s1 where c1: "create_dir_all dir s = (r1, s1)" by fastforce
    obtain r2 s2 where c2: "fallible (\<lambda>s. (Inr (), s)) s1 = (r2 :: string + unit, s2)" by fastforce
    obtain r3 s3 where c3: "fallible (\<lambda>s. if fs_is_dir target s then (Inl ''failed to persist atomic write'', s)
      else (Inr (), s\<lparr>fs_entries := fs_put target (FsFile content (fs_clock s)) (fs_entries s)\<rparr>)) s2 = (r3, s3)" by fastforce
    have k1: "keeps_files s s1" "fs_clock s1 = fs_clock s" using create_dir_keeps [OF c1] by auto
    have k2: "keeps_files s s2" "fs_clock s2 = fs_clock s" using fallible_step [OF c2] k1 same_keeps keeps_files_trans by metis+
    note k3 = persist_facts [OF c3]
    consider e where "r1 = Inl e" "(r, s') = (Inl e, s1)" | e where "r1 = Inr ()" "r2 = Inl e" "(r, s') = (Inl e, s2)" | "r1 = Inr ()" "r2 = Inr ()" "(r, s') = (r3, s3)"
      using assms Some c1 c2 c3 by (cases r1; cases r2) (auto simp: atomic_write_file_def)
    then show ?thesis
    proof cases
      case 3
      then show ?thesis using k2 k3 keeps_files_trans [OF k2(1)] same_keeps by (cases r3) (auto, metis)
    qed (use k1 k2 in auto)
  qed
  then show "fs_clock s' = fs_clock s" "r = Inl e \<Longrightarrow> keeps_files s s'"
    "r = Inr u \<Longrightarrow> \<exists>t. keeps_files s t \<and> (\<forall>q. fs_get q s' = (if q = target then Some (FsFile content (fs_clock s)) else fs_get q t))" by auto
qed

lemma check_freshness_facts:
  assumes "check_freshness hash tr p s = (r, s')"
  shows "\<forall>q. fs_get q s' = fs_get q s" "fs_clock s' = fs_clock s"
    "r = Inr Fresh \<Longrightarrow> fs_get p s = Some (FsFile c m) \<Longrightarrow> \<exists>st. tr p = Some st \<and> (system_time_to_ms m = mtime_ms st \<or> hash c = content_hash st)"
proof -
  have "(\<forall>q. fs_get q s' = fs_get q s) \<and> fs_clock s' = fs_clock s \<and> (r = Inr Fresh \<longrightarrow> fs_get p s = Some (FsFile c m) \<longrightarrow>
    (\<exists>st. tr p = Some st \<and> (system_time_to_ms m = mtime_ms st \<or> hash c = content_hash st)))"
  proof (cases "tr p")
    case None
    then show ?thesis using assms by (auto simp: check_freshness_def)
  next
    case (Some st)
    obtain r1 s1 where c1: "fs_modified p s = (r1, s1)" by fastforce
    obtain r2 s2 where c2: "fs_read p s1 = (r2, s2)" by fastforce
    note f1 = fs_modified_facts [OF c1] and f2 = fs_read_facts [OF c2]
    show ?thesis using assms Some c1 c2 f1 f2
      by (cases r1; cases r2) (auto simp: check_freshness_def split: if_splits)
  qed
  then show "\<forall>q. fs_get q s' = fs_get q s" "fs_clock s' = fs_clock s"
    "r = Inr Fresh \<Longrightarrow> fs_get p s = Some (FsFile c m) \<Longrightarrow> \<exists>st. tr p = Some st \<and> (system_time_to_ms m = mtime_ms st \<or> hash c = content_hash st)" by auto
qed

section \<open>Replacing\<close>

lemma str_pieces_not_Nil [simp]: "str_pieces pat s \<noteq> []"
  by (subst str_pieces.simps) (auto split: list.splits)

text \<open>The pieces put together with the pattern are the text.\<close>

lemma str_pieces_Nil [simp]: "str_pieces pat [] = [[]]"
  by (subst str_pieces.simps) (auto simp: starts_with_iff)

lemma join_pieces: "join_with pat (str_pieces pat s) = s"
proof (induction pat s rule: str_pieces.induct)
  case (1 pat s)
  show ?case
  proof (cases "pat \<noteq> [] \<and> starts_with pat s")
    case True
    obtain p ps where ps: "str_pieces pat (drop (length pat) s) = p # ps" by (meson list.exhaust str_pieces_not_Nil)
    then have "join_with pat (str_pieces pat s) = pat @ join_with pat (p # ps)" using True by (simp add: str_pieces.simps [of pat s])
    also have "join_with pat (p # ps) = drop (length pat) s" using 1(1) True ps by simp
    also have "pat @ drop (length pat) s = s" using True by (auto simp: starts_with_iff)
    finally show ?thesis .
  next
    case False
    show ?thesis
    proof (cases s)
      case (Cons c cs)
      obtain p ps where ps: "str_pieces pat cs = p # ps" by (meson list.exhaust str_pieces_not_Nil)
      then have "join_with pat (str_pieces pat s) = c # join_with pat (p # ps)" using False Cons by (cases ps) (auto simp: str_pieces.simps [of pat "c # cs"])
      then show ?thesis using 1(2) [OF False Cons] ps Cons by simp
    qed simp
  qed
qed

lemma replace_first_is_replace: "match_count pat s = 1 \<Longrightarrow> str_replace_first pat new s = str_replace pat new s"
proof -
  assume "match_count pat s = 1"
  then have "length (str_pieces pat s) = 2" by (simp add: match_count_def)
  then obtain p q where "str_pieces pat s = [p, q]" by (auto simp: numeral_2_eq_2 length_Suc_conv)
  then show ?thesis by (simp add: str_replace_first_def str_replace_def)
qed

lemma edit_execute_facts:
  assumes "edit_execute hash c path tr s = ((oc, new), s')"
  shows "new = None \<longrightarrow> keeps_files s s' \<and> outcome_is_error oc"
    "new = Some n \<longrightarrow> (\<exists>content m st t. fs_get path s = Some (FsFile content m) \<and> tr path = Some st \<and> (system_time_to_ms m = mtime_ms st \<or> hash content = content_hash st)
      \<and> \<not> outcome_is_error oc \<and> old_string c \<noteq> [] \<and> 0 < match_count (old_string c) content \<and> (1 < match_count (old_string c) content \<longrightarrow> replace_all c)
      \<and> n = str_replace (old_string c) (new_string c) content
      \<and> keeps_files s t \<and> (\<forall>q. fs_get q s' = (if q = path then Some (FsFile n (fs_clock s)) else fs_get q t)))"
proof -
  consider (early) "new = None" "s' = s" "outcome_is_error oc" | (go) "fs_exists path s" "\<not> fs_is_dir path s" "old_string c \<noteq> []"
    using assms by (auto simp: edit_execute_def split: if_splits)
  then have "(new = None \<longrightarrow> keeps_files s s' \<and> outcome_is_error oc) \<and> (new = Some n \<longrightarrow> (\<exists>content m st t. fs_get path s = Some (FsFile content m) \<and> tr path = Some st \<and> (system_time_to_ms m = mtime_ms st \<or> hash content = content_hash st)
      \<and> \<not> outcome_is_error oc \<and> old_string c \<noteq> [] \<and> 0 < match_count (old_string c) content \<and> (1 < match_count (old_string c) content \<longrightarrow> replace_all c)
      \<and> n = str_replace (old_string c) (new_string c) content
      \<and> keeps_files s t \<and> (\<forall>q. fs_get q s' = (if q = path then Some (FsFile n (fs_clock s)) else fs_get q t))))"
  proof cases
    case go
    obtain content m where entry_at: "fs_get path s = Some (FsFile content m)"
      using go by (auto simp: fs_exists_def fs_is_dir_def split: option.splits entry.splits)
    obtain r1 s1 where c1: "check_freshness hash tr path s = (r1, s1)" by fastforce
    obtain r2 s2 where c2: "fs_read path s1 = (r2, s2)" by fastforce
    note f1 = check_freshness_facts [OF c1] and f2 = fs_read_facts [OF c2]
    let ?n = "match_count (old_string c) content"
    let ?new = "if replace_all c then str_replace (old_string c) (new_string c) content else str_replace_first (old_string c) (new_string c) content"
    obtain r3 s3 where c3: "atomic_write_file path ?new s2 = (r3, s3)" by fastforce
    note f3 = atomic_write_facts [OF c3]
    have k: "keeps_files s s1" "keeps_files s s2" "fs_clock s2 = fs_clock s" using f1(1,2) f2(1,2) by (simp_all add: keeps_files_def)
    have content: "r2 = Inr content" if "r2 = Inr x" for x using f2(3) [OF that] f1(1) entry_at that by auto
    consider (stop) "new = None" "outcome_is_error oc" "keeps_files s s'"
      | (wrote) "r1 = Inr Fresh" "0 < ?n" "1 < ?n \<longrightarrow> replace_all c" "r3 = Inr ()" "new = Some ?new" "s' = s3" "\<not> outcome_is_error oc"
    proof (cases r1)
      case (Inl e)
      then show ?thesis using that(1) assms go c1 k by (auto simp: edit_execute_def)
    next
      case (Inr fr)
      show ?thesis
      proof (cases "fr = Fresh \<and> r2 = Inr content \<and> utf8_valid content \<and> 0 < ?n \<and> (1 < ?n \<longrightarrow> replace_all c)")
        case False
        have "new = None \<and> outcome_is_error oc \<and> (s' = s1 \<or> s' = s2)"
        proof (cases "fr = Fresh")
          case nf: False
          then show ?thesis using assms go c1 Inr by (cases fr) (auto simp: edit_execute_def)
        next
          case fresh: True
          show ?thesis
          proof (cases r2)
            case (Inl e)
            then show ?thesis using assms go c1 c2 Inr fresh by (auto simp: edit_execute_def)
          next
            case (Inr x)
            have r2: "r2 = Inr content" using content [OF Inr] .
            then consider "\<not> utf8_valid content" | "utf8_valid content" "?n = 0" | "utf8_valid content" "?n \<noteq> 0" "1 < ?n" "\<not> replace_all c"
              using False fresh by auto
            then show ?thesis by cases (use assms go c1 c2 \<open>r1 = Inr fr\<close> fresh r2 in \<open>simp_all add: edit_execute_def Let_def\<close>, auto)
          qed
        qed
        then show ?thesis using that(1) k(1,2) by metis
      next
        case True
        have f: "keeps_files s s3" if "r3 = Inl e" for e using f3(2) [OF that] k(2) keeps_files_trans by blast
        show ?thesis using that assms go c1 c2 c3 Inr True f
          by (cases r3) (auto simp: edit_execute_def Let_def)
      qed
    qed
    then show ?thesis
    proof cases
      case wrote
      obtain st where st: "tr path = Some st" "system_time_to_ms m = mtime_ms st \<or> hash content = content_hash st" using f1(3) wrote(1) entry_at by blast
      have n: "?new = str_replace (old_string c) (new_string c) content" using wrote(2,3) replace_first_is_replace [of "old_string c" content] by auto
      obtain t where t: "keeps_files s2 t" "\<forall>q. fs_get q s3 = (if q = path then Some (FsFile ?new (fs_clock s2)) else fs_get q t)" using f3(3) wrote(4) by blast
      have "keeps_files s t" using t(1) k(2) keeps_files_trans by blast
      then show ?thesis using st n t(2) wrote entry_at go(3) k(3) by auto
    qed auto
  qed auto
  then show "new = None \<longrightarrow> keeps_files s s' \<and> outcome_is_error oc"
    "new = Some n \<longrightarrow> (\<exists>content m st t. fs_get path s = Some (FsFile content m) \<and> tr path = Some st \<and> (system_time_to_ms m = mtime_ms st \<or> hash content = content_hash st)
      \<and> \<not> outcome_is_error oc \<and> old_string c \<noteq> [] \<and> 0 < match_count (old_string c) content \<and> (1 < match_count (old_string c) content \<longrightarrow> replace_all c)
      \<and> n = str_replace (old_string c) (new_string c) content
      \<and> keeps_files s t \<and> (\<forall>q. fs_get q s' = (if q = path then Some (FsFile n (fs_clock s)) else fs_get q t)))" by auto
qed

section \<open>Snapshot names\<close>

fun encode_char :: "char \<Rightarrow> string" where
  "encode_char c = (if c = CHR ''%'' then ''%25'' else if c = CHR ''/'' then ''%2F'' else if c = CHR 0x5C then ''%5C'' else [c])"

lemma replace_char: "str_replace [a] new s = concat (map (\<lambda>c. if c = a then new else [c]) s)"
proof (induction s)
  case (Cons c cs)
  obtain p ps where ps: "str_pieces [a] cs = p # ps" by (meson list.exhaust str_pieces_not_Nil)
  have "str_pieces [a] (c # cs) = (if c = a then [] # str_pieces [a] cs else (c # p) # ps)"
    using ps by (subst str_pieces.simps) (auto simp: starts_with_def)
  then show ?case using Cons ps by (cases ps) (auto simp: str_replace_def)
qed (simp add: str_replace_def)

lemma encode_chain: "str_replace [CHR 0x5C] ''%5C'' (str_replace ''/'' ''%2F'' (str_replace ''%'' ''%25'' s)) = concat (map encode_char s)"
  by (simp only: replace_char) (induction s, auto)

lemma encode_inj: "concat (map encode_char s) = concat (map encode_char t) \<longleftrightarrow> s = t"
proof (induction s arbitrary: t)
  case Nil
  then show ?case by (cases t) auto
next
  case (Cons c cs)
  then show ?case by (cases t) auto
qed

lemma encode_flat: "CHR ''/'' \<notin> set (concat (map encode_char s))"
  by (induction s) auto

lemma sanitize_absolute: "sanitize_path (CHR ''/'' # s) = concat (map encode_char s)"
  by (simp add: sanitize_path_def encode_chain del: encode_char.simps)

lemma sanitize_flat: "CHR ''/'' \<notin> set (sanitize_path p)"
  unfolding sanitize_path_def Let_def encode_chain by (rule encode_flat)

lemma flat_relative: "CHR ''/'' \<notin> set n \<Longrightarrow> is_relative n"
  by (cases n) (auto simp: is_relative_def)

lemma join_flat_inj: "CHR ''/'' \<notin> set n \<Longrightarrow> CHR ''/'' \<notin> set m \<Longrightarrow> join_path d n = join_path d m \<longleftrightarrow> n = m"
  by (auto simp: join_path_def flat_relative)

section \<open>Keeping snapshots\<close>

text \<open>Two states hold the same at one path.\<close>

lemma keeps_entry: "keeps_files s t \<Longrightarrow> fs_get f s = Some e \<Longrightarrow> fs_get f t = Some e"
  by (rule keeps_filesD)

lemma write_keeps:
  assumes "atomic_write_file target content s = (r, s')" "f \<noteq> target" "fs_get f s = Some e"
  shows "fs_get f s' = Some e"
  using atomic_write_facts [OF assms(1)] assms(2,3) keeps_entry by (cases r) (metis, metis)

lemma write_puts:
  assumes "atomic_write_file target content s = (Inr u, s')"
  shows "fs_get target s' = Some (FsFile content (fs_clock s))"
  using atomic_write_facts(3) [OF assms] by auto

lemma ensure_keeps:
  assumes "ensure_snapshot J now p content (store, s) = (r, store', s')"
    and "n \<noteq> ''manifest.json''" "CHR ''/'' \<notin> set n" "snap_files store n = Some x" "fs_get (join_path (session_dir store) n) s = Some e"
  shows "session_dir store' = session_dir store \<and> snap_files store' n = Some x \<and> fs_get (join_path (session_dir store) n) s' = Some e"
proof (cases "snap_files store (sanitize_path p)")
  case (Some y)
  then show ?thesis using assms by (simp add: ensure_snapshot_def)
next
  case None
  let ?d = "session_dir store" and ?n = "sanitize_path p"
  let ?store = "store\<lparr>snap_files := (snap_files store)(?n \<mapsto> \<lparr>original_path = p, snapshot_at = now, size_bytes = length content\<rparr>)\<rparr>"
  obtain r1 s1 where c1: "create_dir_all ?d s = (r1, s1)" by fastforce
  obtain r2 s2 where c2: "atomic_write_file (join_path ?d ?n) content s1 = (r2, s2)" by fastforce
  obtain r3 s3 where c3: "atomic_write_file (join_path ?d ''manifest.json'') (J ?store) s2 = (r3, s3)" by fastforce
  have ne: "n \<noteq> ?n" using None assms(4) by auto
  have k1: "fs_get (join_path ?d n) s1 = Some e" using create_dir_keeps [OF c1] keeps_entry assms(5) by blast
  have k2: "fs_get (join_path ?d n) s2 = Some e"
    using write_keeps [OF c2 _ k1] ne join_flat_inj [OF assms(3) sanitize_flat] by blast
  have k3: "fs_get (join_path ?d n) s3 = Some e"
    using write_keeps [OF c3 _ k2] assms(2) join_flat_inj [OF assms(3), of "''manifest.json''"] by auto
  consider "store' = store" "s' = s1" | "store' = store" "s' = s2" | "store' = ?store" "s' = s3"
    using assms(1) None c1 c2 c3 by (cases r1; cases r2; cases r3) (auto simp: ensure_snapshot_def Let_def)
  then show ?thesis by cases (use k1 k2 k3 ne assms(4) in auto)
qed

lemma ensure_takes:
  assumes "ensure_snapshot J now p content (store, s) = (Inr True, store', s')" "sanitize_path p \<noteq> ''manifest.json''"
  shows "session_dir store' = session_dir store \<and> snap_files store' (sanitize_path p) \<noteq> None
    \<and> (\<exists>m. fs_get (join_path (session_dir store) (sanitize_path p)) s' = Some (FsFile content m))"
proof -
  let ?d = "session_dir store" and ?n = "sanitize_path p"
  let ?store = "store\<lparr>snap_files := (snap_files store)(?n \<mapsto> \<lparr>original_path = p, snapshot_at = now, size_bytes = length content\<rparr>)\<rparr>"
  obtain r1 s1 where c1: "create_dir_all ?d s = (r1, s1)" by fastforce
  obtain r2 s2 where c2: "atomic_write_file (join_path ?d ?n) content s1 = (r2, s2)" by fastforce
  obtain r3 s3 where c3: "atomic_write_file (join_path ?d ''manifest.json'') (J ?store) s2 = (r3, s3)" by fastforce
  have None: "snap_files store ?n = None" using assms(1) by (cases "snap_files store ?n") (auto simp: ensure_snapshot_def)
  have r: "r2 = Inr ()" "store' = ?store" "s' = s3"
    using assms(1) None c1 c2 c3 by (cases r1; cases r2; cases r3; auto simp: ensure_snapshot_def Let_def)+
  have "fs_get (join_path ?d ?n) s3 = Some (FsFile content (fs_clock s1))"
    using write_keeps [OF c3 _ write_puts] c2 r(1) assms(2) join_flat_inj [OF sanitize_flat, of "''manifest.json''"] by auto
  then show ?thesis using r by auto
qed

definition holds_snapshot :: "string \<Rightarrow> string \<Rightarrow> entry \<Rightarrow> file_world \<Rightarrow> bool" where
  "holds_snapshot dir n e w \<longleftrightarrow>
     (\<exists>store x. fw_snapshots w = Some store \<and> session_dir store = dir \<and> snap_files store n = Some x \<and> fs_get (join_path dir n) (fw_fs w) = Some e)"

lemma holds_same: "holds_snapshot dir n e w \<Longrightarrow> fw_snapshots w' = fw_snapshots w \<Longrightarrow> fs_get (join_path dir n) (fw_fs w') = fs_get (join_path dir n) (fw_fs w)
  \<Longrightarrow> holds_snapshot dir n e w'"
  by (simp add: holds_snapshot_def)

lemma snapshot_before_holds:
  assumes "holds_snapshot dir n e w" "n \<noteq> ''manifest.json''" "CHR ''/'' \<notin> set n"
  shows "holds_snapshot dir n e (snapshot_before E path w)"
proof -
  obtain store x where h: "fw_snapshots w = Some store" "session_dir store = dir" "snap_files store n = Some x" "fs_get (join_path dir n) (fw_fs w) = Some e"
    using assms(1) by (auto simp: holds_snapshot_def)
  obtain r s1 where r: "fs_read path (fw_fs w) = (r, s1)" by fastforce
  have k: "fs_get (join_path dir n) s1 = Some e" using fs_read_facts(1) [OF r] h(4) by simp
  show ?thesis
  proof (cases r)
    case (Inl _)
    then show ?thesis using h k r by (auto simp: snapshot_before_def holds_snapshot_def)
  next
    case (Inr content)
    obtain r2 store' s2 where c: "ensure_snapshot (fl_manifest E) (fl_now E) path content (store, s1) = (r2, store', s2)" by (metis surj_pair)
    show ?thesis using ensure_keeps [OF c assms(2,3) h(3)] h k r Inr c by (auto simp: snapshot_before_def holds_snapshot_def)
  qed
qed

lemma track_change_holds: "holds_snapshot dir n e w \<Longrightarrow> holds_snapshot dir n e (track_change E path new w)"
proof -
  assume h: "holds_snapshot dir n e w"
  obtain r s where m: "fs_modified path (fw_fs w) = (r, s)" by fastforce
  have "fs_get (join_path dir n) s = fs_get (join_path dir n) (fw_fs w)" using fs_modified_facts(1) [OF m] .
  then show ?thesis using h m by (cases new; cases r) (auto simp: track_change_def holds_snapshot_def)
qed

lemma holds_with_fs: "holds_snapshot dir n e w \<Longrightarrow> fs_get (join_path dir n) s = Some e \<Longrightarrow> holds_snapshot dir n e (w\<lparr>fw_fs := s\<rparr>)"
  by (auto simp: holds_snapshot_def)

lemma holds_entry: "holds_snapshot dir n e w \<Longrightarrow> fs_get (join_path dir n) (fw_fs w) = Some e"
  by (auto simp: holds_snapshot_def)

lemma edit_execute_other:
  assumes "edit_execute hash c path tr s = ((oc, new), s')" "f \<noteq> path" "fs_get f s = Some e"
  shows "fs_get f s' = Some e"
proof (cases new)
  case None
  then show ?thesis using edit_execute_facts(1) [OF assms(1)] keeps_entry assms(3) by blast
next
  case (Some n)
  then show ?thesis using edit_execute_facts(2) [OF assms(1), of n] keeps_entry assms(2,3) by (metis (lifting))
qed

lemma write_execute_other:
  assumes "write_execute c path s = ((oc, new), s')" "f \<noteq> path" "fs_get f s = Some e"
  shows "fs_get f s' = Some e"
proof -
  obtain r s1 where c: "atomic_write_file path (write_content c) s = (r, s1)" by fastforce
  have "s' = s \<or> s' = s1" using assms(1) c by (cases r) (auto simp: write_execute_def Let_def split: if_splits)
  then show ?thesis using write_keeps [OF c assms(2,3)] assms(3) by auto
qed

lemma read_execute_same:
  assumes "read_execute c path s = (oc, s')"
  shows "fs_get f s' = fs_get f s"
proof -
  obtain r1 s1 where d: "fallible (\<lambda>s. (Inr (), s)) s = (r1 :: string + unit, s1)" by fastforce
  obtain r2 s2 where r: "fs_read path s = (r2, s2)" by fastforce
  have "snd (read_execute c path s) \<in> {s, s1, s2}"
  proof (cases "fs_exists path s \<and> \<not> fs_is_dir path s")
    case True
    then show ?thesis using r by (cases r2) (auto simp: read_execute_def Let_def simp del: show_nat.simps split: sum.split)
  next
    case False
    then show ?thesis using d by (cases r1) (auto simp: read_execute_def)
  qed
  then show ?thesis using assms fallible_step [OF d] fs_read_facts(1) [OF r] by auto
qed

lemma run_edit_holds:
  assumes "holds_snapshot dir n e w" "n \<noteq> ''manifest.json''" "CHR ''/'' \<notin> set n" "join_path dir n \<noteq> resolved_path (fl_tools E) (edit_path c)"
  shows "holds_snapshot dir n e (snd (run_edit E c w))"
proof -
  let ?p = "resolved_path (fl_tools E) (edit_path c)" let ?w = "snapshot_before E ?p w"
  obtain oc new s where x: "edit_execute (fl_hash E) c ?p (fw_tracker ?w) (fw_fs ?w) = ((oc, new), s)" by (metis surj_pair)
  have h: "holds_snapshot dir n e ?w" using snapshot_before_holds assms(1-3) .
  show ?thesis using edit_execute_other [OF x assms(4) holds_entry [OF h]] track_change_holds holds_with_fs [OF h] x by (simp add: run_edit_def Let_def)
qed

lemma run_write_holds:
  assumes "holds_snapshot dir n e w" "n \<noteq> ''manifest.json''" "CHR ''/'' \<notin> set n" "join_path dir n \<noteq> resolved_path (fl_tools E) (write_path c)"
  shows "holds_snapshot dir n e (snd (run_write E c w))"
proof -
  let ?p = "resolved_path (fl_tools E) (write_path c)" let ?w = "snapshot_before E ?p w"
  obtain oc new s where x: "write_execute c ?p (fw_fs ?w) = ((oc, new), s)" by (metis surj_pair)
  have h: "holds_snapshot dir n e ?w" using snapshot_before_holds assms(1-3) .
  show ?thesis using write_execute_other [OF x assms(4) holds_entry [OF h]] track_change_holds holds_with_fs [OF h] x by (simp add: run_write_def Let_def)
qed

lemma run_read_holds: "holds_snapshot dir n e w \<Longrightarrow> holds_snapshot dir n e (snd (run_read E c w))"
proof -
  assume h: "holds_snapshot dir n e w"
  let ?p = "resolved_path (fl_tools E) (read_path c)"
  obtain oc s where x: "read_execute c ?p (fw_fs w) = (oc, s)" by fastforce
  obtain r s1 where y: "fs_read ?p s = (r, s1)" by fastforce
  obtain r2 s2 where z: "fs_modified ?p s1 = (r2, s2)" by fastforce
  have g: "fs_get f s = fs_get f (fw_fs w)" "fs_get f s1 = fs_get f (fw_fs w)" "fs_get f s2 = fs_get f (fw_fs w)" for f
    using read_execute_same [OF x] fs_read_facts(1) [OF y] fs_modified_facts(1) [OF z] by simp_all
  show ?thesis using h g x y z by (cases r; cases r2) (auto simp: run_read_def Let_def holds_snapshot_def)
qed

lemma run_file_call_holds:
  "holds_snapshot dir n e w \<Longrightarrow> n \<noteq> ''manifest.json'' \<Longrightarrow> CHR ''/'' \<notin> set n \<Longrightarrow> resolved_file_path (fl_tools E) call \<noteq> Some (join_path dir n)
   \<Longrightarrow> holds_snapshot dir n e (run_file_call E call w)"
  by (cases call) (auto intro: run_edit_holds run_write_holds run_read_holds)

text \<open>After a change that was tracked, the file counts as read.\<close>

lemma changed_is_fresh:
  assumes "fs_get path (fw_fs w) = Some (FsFile c m)" "fs_faults (fw_fs w) = []" "w' = track_change E path (Some c) w"
  shows "fst (check_freshness (fl_hash E) (fw_tracker w') path (fw_fs w')) = Inr Fresh"
  using assms by (simp add: track_change_def fs_modified_def fallible_def update_after_edit_def check_freshness_def)

section \<open>Theorems\<close>

lemma fold_calls_hold:
  assumes "holds_snapshot dir n e w" "n \<noteq> ''manifest.json''" "CHR ''/'' \<notin> set n"
    and "list_all (\<lambda>call. resolved_file_path (fl_tools E) call \<noteq> Some (join_path dir n)) calls"
  shows "holds_snapshot dir n e (fold (run_file_call E) calls w)"
  using assms by (induction calls arbitrary: w) (auto intro: run_file_call_holds)


definition files_example :: filesystem where
  "files_example = \<lparr>fs_entries = [(''/a'', FsFile ''one two'' 5000000)], fs_clock = 9000000, fs_faults = []\<rparr>"

lemmas files_example_simps = edit_execute_def check_freshness_def fs_modified_def fs_read_def fallible_def fs_get_def fs_exists_def fs_is_dir_def Let_def
  system_time_to_ms_def atomic_write_file_def create_dir_all_def match_count_def str_replace_def str_replace_first_def str_pieces.simps starts_with_def
  utf8_valid.simps in_range_def files_example_def path_parent_def path_ancestors.simps path_slice_def path_names_def path_body_def path_front_def
  path_segments_def has_root_def trim_segments_def trivial_segment_def


text \<open>
  Snapshots of different absolute paths have different names, and every name is one component, so that it stays in the session's directory.
\<close>

theorem snapshot_names_distinct:
  assumes "has_root p" "has_root q" "sanitize_path p = sanitize_path q"
  shows "p = q \<and> CHR ''/'' \<notin> set (sanitize_path p)"
proof -
  obtain s t where "p = CHR ''/'' # s" "q = CHR ''/'' # t" using assms(1,2) by (cases p; cases q) (auto simp: has_root_def starts_with_iff)
  then have "p = q" using assms(3) by (simp add: sanitize_absolute encode_inj del: encode_char.simps)
  then show ?thesis using sanitize_flat by simp
qed

theorem snapshot_names_distinct_witness: "sanitize_path ''/a/b'' \<noteq> sanitize_path ''/a%2Fb''"
  using snapshot_names_distinct [of "''/a/b''" "''/a%2Fb''"] by (auto simp: has_root_def starts_with_def)

text \<open>
  C28: Once the content of a file was saved, its snapshot keeps that content: no later reading, editing or writing by the agent changes it,
  whatever files they snapshot and whatever faults occur, unless a call names the snapshot itself. The one exception is a snapshot that
  has the name of the manifest.
\<close>

theorem snapshot_kept:
  assumes "ensure_snapshot J now p content (store, s) = (Inr True, store', s')" "sanitize_path p \<noteq> ''manifest.json''"
    and "fw_snapshots w = Some store'" "fw_fs w = s'"
    and "list_all (\<lambda>call. resolved_file_path (fl_tools E) call \<noteq> Some (join_path (session_dir store) (sanitize_path p))) calls"
  shows "\<exists>m. fs_get (join_path (session_dir store) (sanitize_path p)) (fw_fs (fold (run_file_call E) calls w)) = Some (FsFile content m)"
proof -
  obtain m where "holds_snapshot (session_dir store) (sanitize_path p) (FsFile content m) w"
    using ensure_takes [OF assms(1,2)] assms(3,4) by (auto simp: holds_snapshot_def)
  then have "holds_snapshot (session_dir store) (sanitize_path p) (FsFile content m) (fold (run_file_call E) calls w)"
    using assms(2) sanitize_flat assms(5) by (rule fold_calls_hold)
  then show ?thesis using holds_entry by blast
qed

definition snapshots_example :: SnapshotStore where
  "snapshots_example = \<lparr>session_dir = ''/s'', snap_files = Map.empty\<rparr>"

definition files_example_env :: file_env where
  "files_example_env = \<lparr>fl_hash = length, fl_manifest = \<lambda>_. ''{}'', fl_now = ''t'', fl_tools = \<lparr>tilde = id, current_dir = None, uuid_parse = \<lambda>_. None\<rparr>\<rparr>"

lemma example_paths:
  "path_parent ''/s/a'' = Some ''/s''" "path_parent ''/s/manifest.json'' = Some ''/s''" "path_ancestors ''/s'' = [''/s'', ''/'']"
  "sanitize_path ''/a'' = ''a''" "sanitize_path ''/manifest.json'' = ''manifest.json''" "join_path ''/s'' ''a'' = ''/s/a''"
  "join_path ''/s'' ''manifest.json'' = ''/s/manifest.json''"
  by code_simp+

lemmas snapshots_example_simps = ensure_snapshot_def snapshots_example_def files_example_def example_paths atomic_write_file_def create_dir_all_def fallible_def
  fs_get_def fs_is_dir_def Let_def

lemma snapshot_example_taken: "\<exists>store' s'. ensure_snapshot (\<lambda>_. ''{}'') ''t'' ''/a'' ''one two'' (snapshots_example, files_example) = (Inr True, store', s')"
  by (simp add: snapshots_example_simps)

theorem snapshot_kept_witness:
  "\<exists>store' s' m. ensure_snapshot (\<lambda>_. ''{}'') ''t'' ''/a'' ''one two'' (snapshots_example, files_example) = (Inr True, store', s') \<and>
     fs_get ''/s/a'' (fw_fs (run_file_call files_example_env (Write \<lparr>write_path = ''/a'', write_content = ''three'', write_overwrite = True\<rparr>)
       \<lparr>fw_fs = s', fw_tracker = Map.empty, fw_snapshots = Some store'\<rparr>)) = Some (FsFile ''one two'' m)"
proof -
  obtain store' s' where e: "ensure_snapshot (\<lambda>_. ''{}'') ''t'' ''/a'' ''one two'' (snapshots_example, files_example) = (Inr True, store', s')"
    using snapshot_example_taken by blast
  have n: "sanitize_path ''/a'' = ''a''" "session_dir snapshots_example = ''/s''" "join_path ''/s'' ''a'' = ''/s/a''" by (simp_all add: snapshots_example_def example_paths)
  show ?thesis using e snapshot_kept [OF e, of "\<lparr>fw_fs = s', fw_tracker = Map.empty, fw_snapshots = Some store'\<rparr>" files_example_env
      "[Write \<lparr>write_path = ''/a'', write_content = ''three'', write_overwrite = True\<rparr>]"]
    by (auto simp: n resolved_path_def is_relative_def files_example_env_def)
qed

text \<open>
  The snapshot of \<open>/manifest.json\<close> has the name of the manifest: right after it is taken the manifest overwrites it, so that the original
  content is in no snapshot although the file counts as saved.
\<close>

theorem manifest_snapshot_lost:
  "case ensure_snapshot J now ''/manifest.json'' content (snapshots_example, files_example) of
     (r, store', s') \<Rightarrow> r = Inr True \<and> snap_files store' ''manifest.json'' \<noteq> None \<and> fs_get ''/s/manifest.json'' s' = Some (FsFile (J store') 9000000)"
  by (simp add: snapshots_example_simps)

end
