(* ===== verification/Pty_Server.thy ===== *)
theory Pty_Server
  imports Pty_Protocol "HOL-Library.Sublist"
begin

text \<open>
  The screen model and socket server of the PTY proxy (\<open>atuin-pty-proxy/src/screen.rs\<close>, with \<open>new_safe\<close> and \<open>set_size_safe\<close> of
  \<open>atuin-common/src/ansi.rs\<close>): the parser thread that owns the terminal model and the registry of subscribers, their bounded
  queues, the threads that write them to sockets, and the reading side of a connection.

  The terminal emulator (the vt100 package) is a parameter; an operation of it that panics is \<open>None\<close>. The channel of a subscriber is found under its id.
  An action of the system is a message handled by the parser thread, a frame moved from a queue to its socket, or a writer that stops;
  the actions of all threads come in any order.

  Shown: whatever the order, the frames that reach a subscriber are a prefix of the lossless stream (greeting,
  screen at the time of the subscription, then every output and resize in order), all of it while the subscriber is registered and its writer runs, so
  that a slow subscriber is cut off and never sees a gap; the parser thread does not panic; the registry and the queues stay
  bounded; bytes of a client reach the shell only with the right token, and then all of them in order.
\<close>

section \<open>The terminal model\<close>

record 'vt vt_ops =
  vt_new :: "u16 \<Rightarrow> u16 \<Rightarrow> 'vt"
  vt_process :: "'vt \<Rightarrow> bytes \<Rightarrow> 'vt option"
  vt_set_size :: "'vt \<Rightarrow> u16 \<Rightarrow> u16 \<Rightarrow> 'vt option"
  vt_size :: "'vt \<Rightarrow> u16 \<times> u16"
  vt_screen :: "'vt \<Rightarrow> Snapshot option"

definition new_safe :: "'vt vt_ops \<Rightarrow> u16 \<Rightarrow> u16 \<Rightarrow> 'vt" where
  "new_safe V rows cols = vt_new V (max rows 2) (max cols 2)"

definition set_size_safe :: "'vt vt_ops \<Rightarrow> u16 \<Rightarrow> u16 \<Rightarrow> 'vt \<Rightarrow> 'vt option" where
  "set_size_safe V rows cols vt = vt_set_size V vt (max rows 2) (max cols 2)"

section \<open>The parser thread\<close>

datatype Msg =
    Data bytes
  | Resize u16 u16
  | ScreenRequest nat
  | Subscribe nat bool
  | Unsubscribe nat
  | Eof

record channel =
  ch_queue :: "bytes list"
  ch_open :: bool

record 'vt ParserState =
  ps_parser :: 'vt
  subscribers :: "nat list"
  ps_rows :: u16
  ps_cols :: u16
  channels :: "nat \<Rightarrow> channel option"
  replies :: "(nat \<times> bytes) list"
  sockets :: "nat \<Rightarrow> bytes list"

definition SUBSCRIBER_QUEUE_FRAMES :: nat where "SUBSCRIBER_QUEUE_FRAMES = 128"

definition MAX_SUBSCRIBERS :: nat where "MAX_SUBSCRIBERS = 8"

definition ParserState_new :: "'vt vt_ops \<Rightarrow> u16 \<Rightarrow> u16 \<Rightarrow> 'vt ParserState" where
  "ParserState_new V rows cols =
     (let parser = new_safe V rows cols; (rows, cols) = vt_size V parser
      in \<lparr>ps_parser = parser, subscribers = [], ps_rows = rows, ps_cols = cols, channels = Map.empty, replies = [], sockets = (\<lambda>_. [])\<rparr>)"

definition vt100_guarded :: "'vt vt_ops \<Rightarrow> ('vt \<Rightarrow> 'vt option) \<Rightarrow> 'vt ParserState \<Rightarrow> 'vt ParserState" where
  "vt100_guarded V op s =
     (case op (ps_parser s) of Some vt \<Rightarrow> s\<lparr>ps_parser := vt\<rparr> | None \<Rightarrow> s\<lparr>ps_parser := new_safe V (ps_rows s) (ps_cols s)\<rparr>)"

definition blank_blob :: "u16 \<Rightarrow> u16 \<Rightarrow> bytes" where
  "blank_blob rows cols = u16_bytes rows @ u16_bytes cols @ u16_bytes 0 @ u16_bytes 0"

definition snapshot_blob :: "'vt vt_ops \<Rightarrow> 'vt ParserState \<Rightarrow> bytes" where
  "snapshot_blob V s =
     (case Option.bind (vt_screen V (ps_parser s)) snapshot_encode of Some b \<Rightarrow> b | None \<Rightarrow> blank_blob (ps_rows s) (ps_cols s))"

text \<open>\<open>try_send\<close> of a bounded channel.\<close>

definition try_send :: "bytes \<Rightarrow> channel \<Rightarrow> channel option" where
  "try_send f ch = (if ch_open ch \<and> length (ch_queue ch) < SUBSCRIBER_QUEUE_FRAMES then Some (ch\<lparr>ch_queue := ch_queue ch @ [f]\<rparr>) else None)"

definition send_to :: "bytes \<Rightarrow> nat \<Rightarrow> (nat \<Rightarrow> channel option) \<Rightarrow> (nat \<Rightarrow> channel option) option" where
  "send_to f sid chs = map_option (\<lambda>ch. chs(sid \<mapsto> ch)) (Option.bind (chs sid) (try_send f))"

text \<open>\<open>retain\<close> with a send as its predicate: those that took the frame, and the channels afterwards.\<close>

fun send_all :: "bytes \<Rightarrow> nat list \<Rightarrow> (nat \<Rightarrow> channel option) \<Rightarrow> nat list \<times> (nat \<Rightarrow> channel option)" where
  "send_all f [] chs = ([], chs)"
| "send_all f (sid # ids) chs =
     (case send_to f sid chs of
        None \<Rightarrow> send_all f ids chs
      | Some chs \<Rightarrow> (case send_all f ids chs of (kept, chs) \<Rightarrow> (sid # kept, chs)))"

definition fan_out :: "bytes \<Rightarrow> 'vt ParserState \<Rightarrow> 'vt ParserState" where
  "fan_out f s = (case send_all f (subscribers s) (channels s) of (kept, chs) \<Rightarrow> s\<lparr>subscribers := kept, channels := chs\<rparr>)"

text \<open>A fresh channel is made by the connection before it sends \<open>Subscribe\<close>. \<open>None\<close>: the parser thread panics.\<close>

fun ps_handle :: "'vt vt_ops \<Rightarrow> Msg \<Rightarrow> 'vt ParserState \<Rightarrow> 'vt ParserState option" where
  "ps_handle V (Data data) s =
     (let s = vt100_guarded V (\<lambda>vt. vt_process V vt data) s
      in if subscribers s \<noteq> [] then map_option (\<lambda>frame. fan_out frame s) (encode_frame FRAME_OUTPUT data) else Some s)"
| "ps_handle V (Resize rows cols) s =
     (let s = vt100_guarded V (set_size_safe V rows cols) s; (rows, cols) = vt_size V (ps_parser s);
          s = s\<lparr>ps_rows := rows, ps_cols := cols\<rparr>
      in map_option (\<lambda>frame. fan_out frame s) (resize_frame rows cols))"
| "ps_handle V (ScreenRequest reply_tx) s = Some (s\<lparr>replies := replies s @ [(reply_tx, snapshot_blob V s)]\<rparr>)"
| "ps_handle V (Subscribe sid input_granted) s =
     (let blob = snapshot_blob V s; s = s\<lparr>channels := (channels s)(sid \<mapsto> \<lparr>ch_queue = [], ch_open = True\<rparr>)\<rparr>
      in if length blob > MAX_FRAME_LEN then Some s
         else if length (subscribers s) \<ge> MAX_SUBSCRIBERS then Some s
         else (case (hello_frame input_granted, encode_frame FRAME_KEYFRAME blob) of
                 (Some hello, Some keyframe) \<Rightarrow>
                   Some (case send_to hello sid (channels s) of
                           None \<Rightarrow> s
                         | Some chs \<Rightarrow>
                             (case send_to keyframe sid chs of
                                None \<Rightarrow> s\<lparr>channels := chs\<rparr>
                              | Some chs \<Rightarrow> s\<lparr>channels := chs, subscribers := subscribers s @ [sid]\<rparr>))
               | _ \<Rightarrow> None))"
| "ps_handle V (Unsubscribe sid) s = Some (s\<lparr>subscribers := filter (\<lambda>known. known \<noteq> sid) (subscribers s)\<rparr>)"
| "ps_handle V Eof s =
     map_option (\<lambda>frame. (fan_out frame s)\<lparr>subscribers := []\<rparr>) end_frame"

section \<open>All threads\<close>

datatype action = Handle Msg | WriterTakes nat | WriterStops nat

text \<open>\<open>write_frames\<close>: the next frame goes to the socket; on a failing socket the receiver is dropped with what is queued.\<close>

fun act :: "'vt vt_ops \<Rightarrow> action \<Rightarrow> 'vt ParserState \<Rightarrow> 'vt ParserState option" where
  "act V (Handle msg) s = ps_handle V msg s"
| "act V (WriterTakes sid) s =
     Some (case channels s sid of
             Some ch \<Rightarrow>
               (case ch_queue ch of
                  f # fs \<Rightarrow> s\<lparr>channels := (channels s)(sid \<mapsto> ch\<lparr>ch_queue := fs\<rparr>), sockets := (sockets s)(sid := sockets s sid @ [f])\<rparr>
                | [] \<Rightarrow> s)
           | None \<Rightarrow> s)"
| "act V (WriterStops sid) s =
     Some (case channels s sid of
             Some ch \<Rightarrow> s\<lparr>channels := (channels s)(sid \<mapsto> \<lparr>ch_queue = [], ch_open = False\<rparr>)\<rparr>
           | None \<Rightarrow> s)"

fun acts :: "'vt vt_ops \<Rightarrow> action list \<Rightarrow> 'vt ParserState \<Rightarrow> 'vt ParserState option" where
  "acts V [] s = Some s"
| "acts V (a # as) s = Option.bind (act V a s) (acts V as)"

section \<open>Connections\<close>

text \<open>Up to \<open>n\<close> more greeting bytes; a timeout or another error ends the sniffing.\<close>

fun read_greeting :: "nat \<Rightarrow> bytes \<Rightarrow> reader_state \<Rightarrow> bytes \<times> reader_state" where
  "read_greeting n acc [] = (acc, [])"
| "read_greeting n acc (e # r) =
     (if n = 0 then (acc, e # r)
      else case e of
        Interrupted \<Rightarrow> read_greeting n acc r
      | ReadFail \<Rightarrow> (acc, r)
      | Chunk b \<Rightarrow>
          if b = [] then (acc, r)
          else if length b \<le> n then read_greeting (n - length b) (acc @ b) r
          else (acc @ take n b, Chunk (drop n b) # r))"

definition reader_size :: "reader_state \<Rightarrow> nat" where
  "reader_size r = sum_list (map (\<lambda>e. case e of Chunk b \<Rightarrow> Suc (length b) | _ \<Rightarrow> 1) r)"

lemma reader_size_simps [simp]:
  "reader_size [] = 0" "reader_size (Chunk b # r) = Suc (length b + reader_size r)"
  "reader_size (Interrupted # r) = Suc (reader_size r)" "reader_size (ReadFail # r) = Suc (reader_size r)"
  by (simp_all add: reader_size_def)

lemma read_exact_or_eof_shrinks: "read_exact_or_eof n acc r = (x, r') \<Longrightarrow> reader_size r' \<le> reader_size r \<and> (0 < n \<longrightarrow> x = Inr (Some b) \<longrightarrow> reader_size r' < reader_size r)"
proof (induction n acc r rule: read_exact_or_eof.induct)
  case (2 n acc e r)
  then show ?case by (cases e; cases "n = 0") (auto split: if_splits)
qed (auto split: if_splits)

lemma read_exact_shrinks: "read_exact n acc r = (x, r') \<Longrightarrow> reader_size r' \<le> reader_size r"
proof (induction n acc r rule: read_exact.induct)
  case (2 n acc e r)
  then show ?case by (cases e; cases "n = 0") (auto split: if_splits)
qed (auto split: if_splits)

lemma read_frame_shrinks: "read_frame r = (Inr (Some f), r') \<Longrightarrow> reader_size r' < reader_size r"
  by (auto simp: read_frame_def Let_def split: prod.splits sum.splits option.splits if_splits
      dest!: read_exact_or_eof_shrinks read_exact_shrinks)

text \<open>The bytes a registered connection sends on to the shell; it ends with the first frame that is no input, or none.\<close>

function relay_subscriber_input :: "bool \<Rightarrow> reader_state \<Rightarrow> bytes list" where
  "relay_subscriber_input input_granted r =
     (case read_frame r of
        (Inr (Some (t, data)), r') \<Rightarrow>
          if t = FRAME_INPUT \<and> input_granted then data # relay_subscriber_input input_granted r' else []
      | _ \<Rightarrow> [])"
  by pat_completeness auto

termination
  by (relation "measure (\<lambda>(_, r). reader_size r)") (auto dest!: read_frame_shrinks [OF sym])

declare relay_subscriber_input.simps [simp del]

datatype served = LegacySnapshot | Refused | Registered bool "bytes list"

definition serve_subscriber :: "bytes \<Rightarrow> reader_state \<Rightarrow> served" where
  "serve_subscriber token r =
     (case read_frame r of
        (Inr (Some (frame_type, payload)), r') \<Rightarrow>
          if frame_type \<noteq> FRAME_SUBSCRIBE then Refused
          else (case decode_subscribe payload of
                  None \<Rightarrow> Refused
                | Some (want_input, client_token) \<Rightarrow>
                    (let input_granted = (want_input \<and> token \<noteq> [] \<and> client_token = token)
                     in Registered input_granted (relay_subscriber_input input_granted r')))
      | _ \<Rightarrow> Refused)"

definition serve_connection :: "bool \<Rightarrow> bytes \<Rightarrow> reader_state \<Rightarrow> served" where
  "serve_connection peer_uid_matches token r =
     (case read_greeting 4 [] r of
        (first, r') \<Rightarrow>
          (case classify_greeting first of
             Legacy \<Rightarrow> LegacySnapshot
           | V2 \<Rightarrow> if \<not> peer_uid_matches then Refused else serve_subscriber token r'))"

section \<open>Accepting\<close>

datatype AcceptFailure = Retry | Pause | Fatal

datatype error_kind = KInterrupted | KConnectionAborted | KWouldBlock | KTimedOut | KOther

definition classify_accept_error :: "nat set \<Rightarrow> error_kind \<Rightarrow> nat option \<Rightarrow> AcceptFailure" where
  "classify_accept_error exhausted kind code =
     (if kind = KInterrupted \<or> kind = KConnectionAborted then Retry
      else if kind = KWouldBlock \<or> kind = KTimedOut then Pause
      else case code of Some c \<Rightarrow> if c \<in> exhausted then Pause else Fatal | None \<Rightarrow> Fatal)"

definition acquire_slot :: "nat \<Rightarrow> nat option" where
  "acquire_slot live = (if live < 32 then Some (live + 1) else None)"

section \<open>The lossless stream\<close>

text \<open>What a subscriber got so far: written to its socket, then still queued.\<close>

definition stream :: "'vt ParserState \<Rightarrow> nat \<Rightarrow> bytes list" where
  "stream s i = sockets s i @ (case channels s i of Some ch \<Rightarrow> ch_queue ch | None \<Rightarrow> [])"

text \<open>Registered, with a writer that runs.\<close>

definition live :: "'vt ParserState \<Rightarrow> nat \<Rightarrow> bool" where
  "live s i \<longleftrightarrow> i \<in> set (subscribers s) \<and> (\<exists>ch. channels s i = Some ch \<and> ch_open ch)"

text \<open>The frames a message is broadcast as.\<close>

fun frames_of :: "'vt vt_ops \<Rightarrow> Msg \<Rightarrow> 'vt ParserState \<Rightarrow> bytes list" where
  "frames_of V (Data data) s = (case encode_frame FRAME_OUTPUT data of Some f \<Rightarrow> [f] | None \<Rightarrow> [])"
| "frames_of V (Resize rows cols) s =
     (case vt_size V (ps_parser (vt100_guarded V (set_size_safe V rows cols) s)) of (r, c) \<Rightarrow> case resize_frame r c of Some f \<Rightarrow> [f] | None \<Rightarrow> [])"
| "frames_of V Eof s = (case end_frame of Some f \<Rightarrow> [f] | None \<Rightarrow> [])"
| "frames_of V _ s = []"

fun broadcast :: "'vt vt_ops \<Rightarrow> action list \<Rightarrow> 'vt ParserState \<Rightarrow> bytes list" where
  "broadcast V [] s = []"
| "broadcast V (a # as) s =
     (case a of Handle msg \<Rightarrow> frames_of V msg s | _ \<Rightarrow> []) @ (case act V a s of Some s' \<Rightarrow> broadcast V as s' | None \<Rightarrow> [])"

definition subscribed :: "action list \<Rightarrow> nat list" where
  "subscribed as = List.map_filter (\<lambda>a. case a of Handle (Subscribe i _) \<Rightarrow> Some i | _ \<Rightarrow> None) as"

fun small_data :: "action \<Rightarrow> bool" where
  "small_data (Handle (Data data)) \<longleftrightarrow> length data \<le> MAX_FRAME_LEN"
| "small_data _ \<longleftrightarrow> True"

definition can_take :: "(nat \<Rightarrow> channel option) \<Rightarrow> nat \<Rightarrow> bool" where
  "can_take chs i = (case chs i of Some ch \<Rightarrow> ch_open ch \<and> length (ch_queue ch) < SUBSCRIBER_QUEUE_FRAMES | None \<Rightarrow> False)"

lemma send_to_eq: "send_to f i chs = (if can_take chs i then Some (chs(i \<mapsto> (the (chs i))\<lparr>ch_queue := ch_queue (the (chs i)) @ [f]\<rparr>)) else None)"
  by (cases "chs i") (auto simp: send_to_def try_send_def can_take_def)

lemma can_take_other [simp]: "j \<noteq> i \<Longrightarrow> can_take (chs(i \<mapsto> c)) j = can_take chs j"
  by (simp add: can_take_def)

lemma send_all_eq:
  assumes "distinct ids" "send_all f ids chs = (kept, chs')"
  shows "kept = filter (can_take chs) ids \<and>
    (\<forall>i. chs' i = (if i \<in> set ids \<and> can_take chs i then Some ((the (chs i))\<lparr>ch_queue := ch_queue (the (chs i)) @ [f]\<rparr>) else chs i))"
  using assms
proof (induction ids arbitrary: chs kept)
  case (Cons j ids)
  show ?case
  proof (cases "can_take chs j")
    case False
    then show ?thesis using Cons by (auto simp: send_to_eq)
  next
    case True
    define chs1 where "chs1 = chs(j \<mapsto> (the (chs j))\<lparr>ch_queue := ch_queue (the (chs j)) @ [f]\<rparr>)"
    have same: "chs1 x = chs x" "can_take chs1 x = can_take chs x" if "x \<noteq> j" for x using that by (simp_all add: chs1_def can_take_def)
    obtain k where k: "send_all f ids chs1 = (k, chs')" "kept = j # k" using Cons.prems(2) True by (auto simp: send_to_eq chs1_def split: prod.splits)
    have j: "j \<notin> set ids" "distinct ids" using Cons.prems(1) by auto
    then have "filter (can_take chs1) ids = filter (can_take chs) ids" using same(2) by (metis filter_cong)
    then have "kept = filter (can_take chs) (j # ids)" using Cons.IH [OF j(2) k(1)] k(2) True by simp
    moreover have "chs' x = (if x \<in> set (j # ids) \<and> can_take chs x then Some ((the (chs x))\<lparr>ch_queue := ch_queue (the (chs x)) @ [f]\<rparr>) else chs x)" for x
    proof (cases "x = j")
      case True
      then show ?thesis using Cons.IH [OF j(2) k(1)] j(1) \<open>can_take chs j\<close> by (simp add: chs1_def)
    next
      case False
      then show ?thesis using Cons.IH [OF j(2) k(1)] same [OF False] by simp
    qed
    ultimately show ?thesis by blast
  qed
qed simp

lemma fan_out_facts:
  assumes "distinct (subscribers s)"
  shows "subscribers (fan_out f s) = filter (can_take (channels s)) (subscribers s)"
    "stream (fan_out f s) i = stream s i @ (if i \<in> set (subscribers s) \<and> can_take (channels s) i then [f] else [])"
    "live (fan_out f s) i \<longleftrightarrow> i \<in> set (subscribers s) \<and> can_take (channels s) i"
    "can_take (channels s) i \<Longrightarrow> i \<in> set (subscribers s) \<Longrightarrow> live s i"
proof -
  obtain kept chs where r: "send_all f (subscribers s) (channels s) = (kept, chs)" by fastforce
  note e = send_all_eq [OF assms r]
  show "subscribers (fan_out f s) = filter (can_take (channels s)) (subscribers s)" using r e by (simp add: fan_out_def)
  show "stream (fan_out f s) i = stream s i @ (if i \<in> set (subscribers s) \<and> can_take (channels s) i then [f] else [])"
    using r e by (auto simp: fan_out_def stream_def can_take_def split: option.splits)
  show "live (fan_out f s) i \<longleftrightarrow> i \<in> set (subscribers s) \<and> can_take (channels s) i"
    using r e by (auto simp: fan_out_def live_def can_take_def split: option.splits)
  show "can_take (channels s) i \<Longrightarrow> i \<in> set (subscribers s) \<Longrightarrow> live s i"
    by (auto simp: live_def can_take_def split: option.splits)
qed

definition follows :: "nat \<Rightarrow> bytes list \<Rightarrow> 'vt ParserState \<Rightarrow> bool" where
  "follows i l s \<longleftrightarrow> prefix (stream s i) l \<and> (live s i \<longrightarrow> stream s i = l)"

lemma follows_fan_out: "distinct (subscribers s) \<Longrightarrow> follows i l s \<Longrightarrow> follows i (l @ [f]) (fan_out f s)"
proof -
  assume d: "distinct (subscribers s)" and h: "follows i l s"
  note f = fan_out_facts(2,3) [OF d, of f i] fan_out_facts(4) [OF d, of i]
  show ?thesis
  proof (cases "i \<in> set (subscribers s) \<and> can_take (channels s) i")
    case True
    then show ?thesis using f h by (simp add: follows_def)
  next
    case False
    then show ?thesis using f h by (auto simp: follows_def)
  qed
qed

lemma follows_same:
  "follows i l s \<Longrightarrow> channels t i = channels s i \<Longrightarrow> sockets t i = sockets s i \<Longrightarrow> (i \<in> set (subscribers t) \<Longrightarrow> i \<in> set (subscribers s)) \<Longrightarrow> follows i l t"
  by (auto simp: follows_def stream_def live_def)

lemma guarded_fields [simp]:
  "subscribers (vt100_guarded V f s) = subscribers s" "channels (vt100_guarded V f s) = channels s" "sockets (vt100_guarded V f s) = sockets s"
  by (auto simp: vt100_guarded_def split: option.splits)

lemma resize_frame_some: "\<exists>f. resize_frame a b = Some f"
  by (simp add: resize_frame_def encode_frame_def MAX_FRAME_LEN_def)

lemma end_frame_some: "\<exists>f. end_frame = Some f"
  by (simp add: end_frame_def encode_frame_def)

lemma follows_extend: "follows i l s \<Longrightarrow> \<not> live s i \<Longrightarrow> follows i (l @ fs) s"
  by (auto simp: follows_def)

lemma handle_follows:
  assumes "ps_handle V msg s = Some s'" "distinct (subscribers s)" "follows i l s" "\<And>g. msg \<noteq> Subscribe i g" "small_data (Handle msg)"
  shows "follows i (l @ frames_of V msg s) s'"
proof (cases msg)
  case (Data data)
  let ?s = "vt100_guarded V (\<lambda>vt. vt_process V vt data) s"
  obtain f where f: "encode_frame FRAME_OUTPUT data = Some f" using assms(5) Data by (auto simp: encode_frame_def)
  have h: "follows i l ?s" using assms(3) by (rule follows_same) simp_all
  show ?thesis
  proof (cases "subscribers ?s = []")
    case True
    then have "\<not> live ?s i" by (simp add: live_def)
    then show ?thesis using follows_extend [OF h] assms(1) Data f True by (auto simp: Let_def)
  next
    case False
    then show ?thesis using follows_fan_out [OF _ h, of f] assms(1,2) Data f by (auto simp: Let_def)
  qed
next
  case (Resize rows cols)
  let ?s = "vt100_guarded V (set_size_safe V rows cols) s"
  obtain r c where rc: "vt_size V (ps_parser ?s) = (r, c)" by fastforce
  obtain f where f: "resize_frame r c = Some f" using resize_frame_some by blast
  have "follows i l (?s\<lparr>ps_rows := r, ps_cols := c\<rparr>)" using assms(3) by (rule follows_same) simp_all
  then show ?thesis using follows_fan_out [of "?s\<lparr>ps_rows := r, ps_cols := c\<rparr>" i l f] assms(1,2) Resize rc f by (auto simp: Let_def)
next
  case (ScreenRequest n)
  then show ?thesis using assms(1,3) by (auto elim: follows_same)
next
  case (Subscribe j g)
  then have j: "j \<noteq> i" using assms(4) by blast
  have "channels s' i = channels s i \<and> sockets s' i = sockets s i \<and> (i \<in> set (subscribers s') \<longrightarrow> i \<in> set (subscribers s))"
    using assms(1) Subscribe j by (auto simp: Let_def send_to_eq split: if_splits option.splits)
  then show ?thesis using follows_same [OF assms(3)] Subscribe by auto
next
  case (Unsubscribe n)
  then show ?thesis using assms(1,3) by (auto elim: follows_same)
next
  case Eof
  obtain f where f: "end_frame = Some f" using end_frame_some by blast
  have "follows i (l @ [f]) (fan_out f s)" using follows_fan_out assms(2,3) by blast
  then have "follows i (l @ [f]) ((fan_out f s)\<lparr>subscribers := []\<rparr>)" by (rule follows_same) simp_all
  moreover have "s' = (fan_out f s)\<lparr>subscribers := []\<rparr>" using assms(1) unfolding Eof by (simp add: f)
  ultimately show ?thesis by (simp add: Eof f)
qed

lemma act_follows:
  assumes "act V a s = Some s'" "distinct (subscribers s)" "follows i l s" "\<And>g. a \<noteq> Handle (Subscribe i g)" "small_data a"
  shows "follows i (l @ (case a of Handle msg \<Rightarrow> frames_of V msg s | _ \<Rightarrow> [])) s'"
proof (cases a)
  case (Handle msg)
  then show ?thesis using handle_follows [of V msg s s' i l] assms by auto
next
  case (WriterTakes j)
  then show ?thesis using assms(1,3) by (auto simp: follows_def stream_def live_def split: option.splits list.splits if_splits)
next
  case (WriterStops j)
  then show ?thesis using assms(1,3) by (auto simp: follows_def stream_def live_def split: option.splits if_splits) (metis append_prefixD)+
qed

lemma act_subscribers:
  assumes "act V a s = Some s'" "distinct (subscribers s)" "\<And>i g. a = Handle (Subscribe i g) \<Longrightarrow> i \<notin> set (subscribers s)"
  shows "distinct (subscribers s')" "set (subscribers s') \<subseteq> set (subscribers s) \<union> set (subscribed [a])"
proof -
  have "distinct (subscribers s') \<and> set (subscribers s') \<subseteq> set (subscribers s) \<union> set (subscribed [a])"
  proof (cases a)
    case (Handle msg)
    then show ?thesis
    proof (cases msg)
      case (Data data)
      then show ?thesis using assms(1,2) Handle by (auto simp: Let_def fan_out_facts(1) split: if_splits)
    next
      case (Resize r c)
      then show ?thesis using assms(1,2) Handle by (auto simp: Let_def fan_out_facts(1) split: prod.splits)
    next
      case (Subscribe j g)
      then show ?thesis using assms Handle by (auto simp: Let_def send_to_eq subscribed_def List.map_filter_simps split: if_splits option.splits)
    qed (use assms(1,2) Handle in auto)
  qed (use assms(1,2) in \<open>auto split: option.splits list.splits\<close>)
  then show "distinct (subscribers s')" "set (subscribers s') \<subseteq> set (subscribers s) \<union> set (subscribed [a])" by auto
qed

lemma subscribed_Cons: "subscribed (a # as) = (case a of Handle (Subscribe i _) \<Rightarrow> [i] | _ \<Rightarrow> []) @ subscribed as"
  by (auto simp: subscribed_def List.map_filter_simps split: action.splits Msg.splits)

lemma subscribed_append: "subscribed (as @ bs) = subscribed as @ subscribed bs"
  by (simp add: subscribed_def List.map_filter_def)

lemma acts_append: "acts V (as @ bs) s = Option.bind (acts V as s) (acts V bs)"
  by (induction as arbitrary: s) (auto split: bind_splits)

text \<open>The ids of a run: those registered and those of later subscriptions are different.\<close>

definition fresh_subscribers :: "action list \<Rightarrow> 'vt ParserState \<Rightarrow> bool" where
  "fresh_subscribers as s \<longleftrightarrow> distinct (subscribers s) \<and> distinct (subscribed as) \<and> set (subscribers s) \<inter> set (subscribed as) = {}"

lemma fresh_subscribers_step:
  assumes "fresh_subscribers (a # as) s" "act V a s = Some s'"
  shows "fresh_subscribers as s'"
proof -
  have "distinct (subscribers s')" "set (subscribers s') \<subseteq> set (subscribers s) \<union> set (subscribed [a])"
    using act_subscribers [OF assms(2)] assms(1) by (auto simp: fresh_subscribers_def subscribed_Cons)
  moreover have "subscribed (a # as) = subscribed [a] @ subscribed as" using subscribed_append [of "[a]" as] by simp
  ultimately show ?thesis using assms(1) by (auto simp: fresh_subscribers_def)
qed

lemma acts_follow:
  "fresh_subscribers as s \<Longrightarrow> i \<notin> set (subscribed as) \<Longrightarrow> list_all small_data as \<Longrightarrow> follows i l s \<Longrightarrow> acts V as s = Some s'
   \<Longrightarrow> follows i (l @ broadcast V as s) s'"
proof (induction as arbitrary: s l)
  case (Cons a as)
  obtain s1 where s1: "act V a s = Some s1" "acts V as s1 = Some s'" using Cons.prems(5) by (auto split: bind_splits)
  have ne: "a \<noteq> Handle (Subscribe i g)" for g using Cons.prems(2) by (auto simp: subscribed_Cons)
  have "follows i (l @ (case a of Handle msg \<Rightarrow> frames_of V msg s | _ \<Rightarrow> [])) s1"
    using act_follows [OF s1(1) _ Cons.prems(4) ne] Cons.prems(1,3) by (simp add: fresh_subscribers_def)
  from Cons.IH [OF fresh_subscribers_step [OF Cons.prems(1) s1(1)] _ _ this s1(2)] show ?case using Cons.prems(2,3) s1(1) by (simp add: subscribed_Cons)
qed simp

lemma act_untouched:
  assumes "act V a s = Some s'" "\<And>g. a \<noteq> Handle (Subscribe i g)" "distinct (subscribers s)" "channels s i = None" "sockets s i = []" "i \<notin> set (subscribers s)"
  shows "channels s' i = None \<and> sockets s' i = [] \<and> i \<notin> set (subscribers s')"
proof -
  have f: "channels (fan_out f t) i = None \<and> sockets (fan_out f t) i = [] \<and> i \<notin> set (subscribers (fan_out f t))"
    if "distinct (subscribers t)" "channels t i = None" "sockets t i = []" "i \<notin> set (subscribers t)" for f and t :: "'a ParserState"
  proof -
    obtain kept chs where r: "send_all f (subscribers t) (channels t) = (kept, chs)" by fastforce
    show ?thesis using send_all_eq [OF that(1) r] r that by (simp add: fan_out_def)
  qed
  show ?thesis
  proof (cases a)
    case (Handle msg)
    then show ?thesis
    proof (cases msg)
      case (Subscribe j g)
      then have "j \<noteq> i" using assms(2) Handle by blast
      then show ?thesis using assms(1,4-6) Handle Subscribe by (auto simp: Let_def send_to_eq split: if_splits option.splits)
    qed (use assms Handle in \<open>auto simp: Let_def f split: prod.splits if_splits\<close>)
  qed (use assms in \<open>auto split: option.splits list.splits\<close>)
qed

lemma acts_untouched:
  "fresh_subscribers as s \<Longrightarrow> i \<notin> set (subscribed as) \<Longrightarrow> channels s i = None \<Longrightarrow> sockets s i = [] \<Longrightarrow> i \<notin> set (subscribers s) \<Longrightarrow> acts V as s = Some s'
   \<Longrightarrow> channels s' i = None \<and> sockets s' i = [] \<and> i \<notin> set (subscribers s')"
proof (induction as arbitrary: s)
  case (Cons a as)
  obtain s1 where s1: "act V a s = Some s1" "acts V as s1 = Some s'" using Cons.prems(6) by (auto split: bind_splits)
  have ne: "a \<noteq> Handle (Subscribe i g)" for g using Cons.prems(2) by (auto simp: subscribed_Cons)
  have "channels s1 i = None \<and> sockets s1 i = [] \<and> i \<notin> set (subscribers s1)"
    using act_untouched [OF s1(1) ne] Cons.prems(1,3-5) by (simp add: fresh_subscribers_def)
  then show ?case using Cons.IH [OF fresh_subscribers_step [OF Cons.prems(1) s1(1)]] Cons.prems(2) s1(2) by (auto simp: subscribed_Cons)
qed simp

lemma fresh_subscribers_append: "fresh_subscribers (as @ bs) s \<Longrightarrow> acts V as s = Some s' \<Longrightarrow> fresh_subscribers bs s'"
  by (induction as arbitrary: s) (auto split: bind_splits dest: fresh_subscribers_step)

lemma fan_out_dead: "distinct (subscribers s) \<Longrightarrow> \<not> live s i \<Longrightarrow> stream (fan_out f s) i = stream s i \<and> \<not> live (fan_out f s) i"
  using fan_out_facts(2,3) [of s f i] fan_out_facts(4) [of s i] by auto

lemma dead_same: "\<not> live s i \<Longrightarrow> channels t i = channels s i \<Longrightarrow> sockets t i = sockets s i \<Longrightarrow> (i \<in> set (subscribers t) \<Longrightarrow> i \<in> set (subscribers s))
  \<Longrightarrow> stream t i = stream s i \<and> \<not> live t i"
  by (auto simp: stream_def live_def)

lemma act_dead:
  assumes "act V a s = Some s'" "distinct (subscribers s)" "\<And>g. a \<noteq> Handle (Subscribe i g)" "\<not> live s i"
  shows "prefix (stream s' i) (stream s i) \<and> \<not> live s' i"
proof (cases a)
  case (Handle msg)
  have "stream s' i = stream s i \<and> \<not> live s' i"
  proof (cases msg)
    case (Data data)
    let ?s = "vt100_guarded V (\<lambda>vt. vt_process V vt data) s"
    have "stream ?s i = stream s i \<and> \<not> live ?s i" using assms(4) by (rule dead_same) simp_all
    then show ?thesis using assms(1,2) Handle Data fan_out_dead [of ?s i] by (auto simp: Let_def split: if_splits)
  next
    case (Resize rows cols)
    obtain r c where rc: "vt_size V (ps_parser (vt100_guarded V (set_size_safe V rows cols) s)) = (r, c)" by fastforce
    let ?s = "(vt100_guarded V (set_size_safe V rows cols) s)\<lparr>ps_rows := r, ps_cols := c\<rparr>"
    have "stream ?s i = stream s i \<and> \<not> live ?s i" using assms(4) by (rule dead_same) simp_all
    then show ?thesis using assms(1,2) Handle Resize rc fan_out_dead [of ?s i] by (auto simp: Let_def)
  next
    case (Subscribe j g)
    then have "j \<noteq> i" using assms(3) Handle by blast
    then have "channels s' i = channels s i \<and> sockets s' i = sockets s i \<and> (i \<in> set (subscribers s') \<longrightarrow> i \<in> set (subscribers s))"
      using assms(1) Handle Subscribe by (auto simp: Let_def send_to_eq split: if_splits option.splits)
    then show ?thesis using dead_same [OF assms(4)] by blast
  next
    case Eof
    obtain f where f: "end_frame = Some f" using end_frame_some by blast
    have s': "s' = (fan_out f s)\<lparr>subscribers := []\<rparr>" using assms(1) unfolding Handle Eof by (simp add: f)
    show ?thesis using dead_same [of "fan_out f s" i s'] fan_out_dead [OF assms(2,4), of f] s' by simp
  qed (use assms(1,4) Handle in \<open>auto simp: stream_def live_def\<close>)
  then show ?thesis by simp
next
  case (WriterTakes j)
  then show ?thesis using assms(1,4) by (auto simp: stream_def live_def split: option.splits list.splits if_splits)
next
  case (WriterStops j)
  then show ?thesis using assms(1,4) by (auto simp: stream_def live_def split: option.splits if_splits)
qed

lemma acts_dead:
  "fresh_subscribers as s \<Longrightarrow> i \<notin> set (subscribed as) \<Longrightarrow> \<not> live s i \<Longrightarrow> acts V as s = Some s' \<Longrightarrow> prefix (stream s' i) (stream s i)"
proof (induction as arbitrary: s)
  case (Cons a as)
  obtain s1 where s1: "act V a s = Some s1" "acts V as s1 = Some s'" using Cons.prems(4) by (auto split: bind_splits)
  have ne: "a \<noteq> Handle (Subscribe i g)" for g using Cons.prems(2) by (auto simp: subscribed_Cons)
  have d: "prefix (stream s1 i) (stream s i)" "\<not> live s1 i" using act_dead [OF s1(1) _ ne Cons.prems(3)] Cons.prems(1) by (auto simp: fresh_subscribers_def)
  have "prefix (stream s' i) (stream s1 i)" using Cons.IH [OF fresh_subscribers_step [OF Cons.prems(1) s1(1)] _ d(2) s1(2)] Cons.prems(2) by (simp add: subscribed_Cons)
  then show ?case using d(1) by (rule prefix_order.trans)
qed simp

text \<open>What a subscription does.\<close>

lemma subscribe_facts:
  assumes "channels s i = None" "sockets s i = []" "i \<notin> set (subscribers s)" "ps_handle V (Subscribe i g) s = Some s1"
  shows "if length (snapshot_blob V s) \<le> MAX_FRAME_LEN \<and> length (subscribers s) < MAX_SUBSCRIBERS
    then \<exists>hello keyframe. hello_frame g = Some hello \<and> encode_frame FRAME_KEYFRAME (snapshot_blob V s) = Some keyframe \<and> follows i [hello, keyframe] s1
    else stream s1 i = [] \<and> \<not> live s1 i"
proof -
  obtain hello where h: "hello_frame g = Some hello" by (simp add: hello_frame_def encode_frame_def MAX_FRAME_LEN_def)
  let ?ch = "\<lparr>ch_queue = [], ch_open = True\<rparr>"
  show ?thesis
  proof (cases "length (snapshot_blob V s) \<le> MAX_FRAME_LEN \<and> length (subscribers s) < MAX_SUBSCRIBERS")
    case True
    then obtain keyframe where k: "encode_frame FRAME_KEYFRAME (snapshot_blob V s) = Some keyframe" by (simp add: encode_frame_def)
    have "s1 = s\<lparr>channels := (channels s)(i \<mapsto> \<lparr>ch_queue = [hello, keyframe], ch_open = True\<rparr>), subscribers := subscribers s @ [i]\<rparr>"
      using assms(4) True h k by (simp add: Let_def send_to_eq can_take_def SUBSCRIBER_QUEUE_FRAMES_def)
    then show ?thesis using True h k assms(2) by (simp add: follows_def stream_def)
  next
    case False
    then have "s1 = s\<lparr>channels := (channels s)(i \<mapsto> ?ch)\<rparr>" using assms(4) by (auto simp: Let_def split: if_splits)
    then show ?thesis using False assms(2,3) by (auto simp: stream_def live_def)
  qed
qed

section \<open>Theorems\<close>

text \<open>
  C29: Whatever the threads do in whatever order, what a subscriber got is a prefix of the lossless stream: the greeting, the screen at the
  time of the subscription, then every output, resize and end frame in order; all of it as long as it is registered and its
  writer runs. A subscriber that is refused gets nothing.
\<close>

theorem subscriber_stream:
  assumes "distinct (subscribed (pre @ Handle (Subscribe i g) # post))" "list_all small_data post"
    and "acts V pre (ParserState_new V rows cols) = Some s" "act V (Handle (Subscribe i g)) s = Some s1" "acts V post s1 = Some s'"
  shows "if length (snapshot_blob V s) \<le> MAX_FRAME_LEN \<and> length (subscribers s) < MAX_SUBSCRIBERS
    then \<exists>hello keyframe. hello_frame g = Some hello \<and> encode_frame FRAME_KEYFRAME (snapshot_blob V s) = Some keyframe
      \<and> prefix (stream s' i) (hello # keyframe # broadcast V post s1) \<and> (live s' i \<longrightarrow> stream s' i = hello # keyframe # broadcast V post s1)
    else stream s' i = []"
proof -
  let ?new = "ParserState_new V rows cols" and ?sub = "Handle (Subscribe i g)"
  have new: "channels ?new i = None" "sockets ?new i = []" "subscribers ?new = []" by (simp_all add: ParserState_new_def Let_def split: prod.splits)
  have all: "fresh_subscribers (pre @ ?sub # post) ?new" using assms(1) new(3) by (simp add: fresh_subscribers_def)
  have i: "i \<notin> set (subscribed pre)" "i \<notin> set (subscribed post)" using assms(1) by (auto simp: subscribed_append subscribed_Cons)
  have pre: "fresh_subscribers pre ?new" using all new(3) by (simp add: fresh_subscribers_def subscribed_append)
  have un: "channels s i = None" "sockets s i = []" "i \<notin> set (subscribers s)"
    using acts_untouched [OF pre i(1) new(1,2) _ assms(3)] new(3) by simp_all
  have f: "fresh_subscribers post s1" using fresh_subscribers_step [OF fresh_subscribers_append [OF all assms(3)] assms(4)] .
  have h: "ps_handle V (Subscribe i g) s = Some s1" using assms(4) by simp
  note sub = subscribe_facts [OF un h]
  show ?thesis
  proof (cases "length (snapshot_blob V s) \<le> MAX_FRAME_LEN \<and> length (subscribers s) < MAX_SUBSCRIBERS")
    case True
    then obtain hello keyframe where hk: "hello_frame g = Some hello" "encode_frame FRAME_KEYFRAME (snapshot_blob V s) = Some keyframe" "follows i [hello, keyframe] s1"
      using sub by auto
    have "follows i ([hello, keyframe] @ broadcast V post s1) s'" using acts_follow [OF f i(2) assms(2) hk(3) assms(5)] .
    then show ?thesis using True hk by (auto simp: follows_def)
  next
    case False
    then show ?thesis using sub acts_dead [OF f i(2) _ assms(5)] by auto
  qed
qed

lemma read_greeting_carried:
  "clean r \<Longrightarrow> \<exists>r'. clean r' \<and> read_greeting n acc r = (acc @ take n (carried r), r') \<and> carried r' = drop n (carried r)"
proof (induction n acc r rule: read_greeting.induct)
  case (2 n acc e r)
  show ?case
  proof (cases "n = 0")
    case False
    then show ?thesis using 2 by (cases e) (fastforce simp: not_le)+
  qed (use 2 in \<open>auto intro: exI [of _ "e # r"]\<close>)
qed auto

lemma relay_inputs:
  "list_all2 (\<lambda>d f. input_frame d = Some f) datas frames \<Longrightarrow> clean r \<Longrightarrow> carried r = concat frames \<Longrightarrow> relay_subscriber_input g r = (if g then datas else [])"
proof (induction datas frames arbitrary: r rule: list_all2_induct)
  case Nil
  then show ?case using read_frame_at [of r] by (subst relay_subscriber_input.simps) (auto simp: frame_at_def)
next
  case (Cons d datas f frames)
  have at: "frame_at (carried r) = Inr (Some (FRAME_INPUT, d)) \<and> drop (5 + length d) (carried r) = concat frames"
    using frame_at_encoded [of FRAME_INPUT d f "concat frames"] Cons.hyps(1) Cons.prems(2) by (simp add: input_frame_def)
  obtain r' where "clean r'" "read_frame r = (Inr (Some (FRAME_INPUT, d)), r')" "carried r' = concat frames"
    using read_frame_at [OF Cons.prems(1)] at by auto
  then show ?case using Cons.IH by (subst relay_subscriber_input.simps) auto
qed


definition bounded_state :: "'vt ParserState \<Rightarrow> bool" where
  "bounded_state s \<longleftrightarrow> length (subscribers s) \<le> MAX_SUBSCRIBERS \<and> (\<forall>i ch. channels s i = Some ch \<longrightarrow> length (ch_queue ch) \<le> SUBSCRIBER_QUEUE_FRAMES)"

lemma send_to_bounded:
  "send_to f i chs = Some chs' \<Longrightarrow> \<forall>i ch. chs i = Some ch \<longrightarrow> length (ch_queue ch) \<le> SUBSCRIBER_QUEUE_FRAMES
   \<Longrightarrow> \<forall>i ch. chs' i = Some ch \<longrightarrow> length (ch_queue ch) \<le> SUBSCRIBER_QUEUE_FRAMES"
  by (auto simp: send_to_eq can_take_def split: if_splits option.splits)

lemma send_all_bounded:
  "send_all f ids chs = (kept, chs') \<Longrightarrow> \<forall>i ch. chs i = Some ch \<longrightarrow> length (ch_queue ch) \<le> SUBSCRIBER_QUEUE_FRAMES
   \<Longrightarrow> length kept \<le> length ids \<and> (\<forall>i ch. chs' i = Some ch \<longrightarrow> length (ch_queue ch) \<le> SUBSCRIBER_QUEUE_FRAMES)"
proof (induction ids arbitrary: chs kept)
  case (Cons j ids)
  show ?case
  proof (cases "send_to f j chs")
    case None
    then show ?thesis using Cons.IH [of chs kept] Cons.prems by auto
  next
    case (Some chs1)
    obtain k where k: "send_all f ids chs1 = (k, chs')" "kept = j # k" using Cons.prems(1) Some by (auto split: prod.splits)
    show ?thesis using Cons.IH [OF k(1) send_to_bounded [OF Some Cons.prems(2)]] k(2) by simp
  qed
qed simp

lemma fan_out_bounded: "bounded_state s \<Longrightarrow> bounded_state (fan_out f s)"
proof -
  assume b: "bounded_state s"
  obtain kept chs where r: "send_all f (subscribers s) (channels s) = (kept, chs)" by fastforce
  show ?thesis using send_all_bounded [OF r] r b by (auto simp: bounded_state_def fan_out_def)
qed

lemma bounded_same: "bounded_state s \<Longrightarrow> subscribers t = subscribers s \<Longrightarrow> channels t = channels s \<Longrightarrow> bounded_state t"
  by (simp add: bounded_state_def)

lemma subscribe_bounded:
  assumes "bounded_state s"
  shows "\<exists>s'. ps_handle V (Subscribe i g) s = Some s' \<and> bounded_state s'"
proof -
  obtain hello where h: "hello_frame g = Some hello" by (simp add: hello_frame_def encode_frame_def MAX_FRAME_LEN_def)
  let ?s = "s\<lparr>channels := (channels s)(i \<mapsto> \<lparr>ch_queue = [], ch_open = True\<rparr>)\<rparr>"
  have b: "bounded_state ?s" using assms by (auto simp: bounded_state_def)
  show ?thesis
  proof (cases "length (snapshot_blob V s) \<le> MAX_FRAME_LEN \<and> length (subscribers s) < MAX_SUBSCRIBERS")
    case True
    then obtain keyframe where k: "encode_frame FRAME_KEYFRAME (snapshot_blob V s) = Some keyframe" by (simp add: encode_frame_def)
    have "ps_handle V (Subscribe i g) s =
        Some (s\<lparr>channels := (channels s)(i \<mapsto> \<lparr>ch_queue = [hello, keyframe], ch_open = True\<rparr>), subscribers := subscribers s @ [i]\<rparr>)"
      using True h k by (simp add: Let_def send_to_eq can_take_def SUBSCRIBER_QUEUE_FRAMES_def)
    then show ?thesis using True assms by (auto simp: bounded_state_def SUBSCRIBER_QUEUE_FRAMES_def)
  next
    case False
    then have "ps_handle V (Subscribe i g) s = Some ?s" by (auto simp: Let_def)
    then show ?thesis using b by blast
  qed
qed

lemma act_bounded:
  assumes "bounded_state s" "small_data a"
  shows "\<exists>s'. act V a s = Some s' \<and> bounded_state s'"
proof (cases a)
  case (Handle msg)
  then show ?thesis
  proof (cases msg)
    case (Data data)
    have b: "bounded_state (vt100_guarded V (\<lambda>vt. vt_process V vt data) s)" using assms(1) by (rule bounded_same) simp_all
    obtain f where "encode_frame FRAME_OUTPUT data = Some f" using assms(2) Handle Data by (auto simp: encode_frame_def)
    then show ?thesis using Handle Data b fan_out_bounded by (auto simp: Let_def)
  next
    case (Resize rows cols)
    obtain r c where rc: "vt_size V (ps_parser (vt100_guarded V (set_size_safe V rows cols) s)) = (r, c)" by fastforce
    obtain f where f: "resize_frame r c = Some f" using resize_frame_some by blast
    have b: "bounded_state ((vt100_guarded V (set_size_safe V rows cols) s)\<lparr>ps_rows := r, ps_cols := c\<rparr>)" using assms(1) by (rule bounded_same) simp_all
    show ?thesis using Handle Resize rc f fan_out_bounded [OF b] by (auto simp: Let_def)
  next
    case (Subscribe i g)
    then show ?thesis using Handle subscribe_bounded [OF assms(1)] by simp
  next
    case (Unsubscribe i)
    then show ?thesis using Handle assms(1) by (auto simp: bounded_state_def intro: le_trans [OF length_filter_le])
  next
    case Eof
    obtain f where "end_frame = Some f" using end_frame_some by blast
    then show ?thesis using Handle Eof fan_out_bounded [OF assms(1)] by (auto simp: bounded_state_def)
  qed (use assms(1) Handle in \<open>auto simp: bounded_state_def\<close>)
next
  case (WriterTakes i)
  then show ?thesis using assms(1) by (auto simp: bounded_state_def split: option.splits list.splits) (metis Suc_leD length_Cons)
qed (use assms(1) in \<open>auto simp: bounded_state_def split: option.splits\<close>)

lemma acts_bounded: "bounded_state s \<Longrightarrow> list_all small_data as \<Longrightarrow> \<exists>s'. acts V as s = Some s' \<and> bounded_state s'"
proof (induction as arbitrary: s)
  case (Cons a as)
  obtain s1 where "act V a s = Some s1" "bounded_state s1" using act_bounded [OF Cons.prems(1)] Cons.prems(2) by auto
  then show ?case using Cons by auto
qed simp

text \<open>
  The parser thread never panics as long as the chunks it is given fit in a frame, and the registry and every queue stay within their bounds.
\<close>

theorem parser_never_panics:
  assumes "list_all small_data as"
  shows "\<exists>s. acts V as (ParserState_new V rows cols) = Some s \<and> length (subscribers s) \<le> MAX_SUBSCRIBERS
    \<and> (\<forall>i ch. channels s i = Some ch \<longrightarrow> length (ch_queue ch) \<le> SUBSCRIBER_QUEUE_FRAMES)"
proof -
  have "bounded_state (ParserState_new V rows cols)" by (simp add: bounded_state_def ParserState_new_def Let_def split: prod.splits)
  then show ?thesis using acts_bounded [OF _ assms] unfolding bounded_state_def by blast
qed

section \<open>Examples\<close>

text \<open>A terminal that only has a size.\<close>

definition size_only :: "(u16 \<times> u16) vt_ops" where
  "size_only = \<lparr>vt_new = Pair, vt_process = (\<lambda>vt _. Some vt), vt_set_size = (\<lambda>_ r c. Some (r, c)), vt_size = (\<lambda>vt. vt), vt_screen = (\<lambda>_. None)\<rparr>"

theorem parser_never_panics_witness:
  "\<exists>s. acts size_only [Handle (Data [65]), Handle (Resize 5 5)] (ParserState_new size_only 2 2) = Some s \<and> length (subscribers s) \<le> 8"
  using parser_never_panics [of "[Handle (Data [65]), Handle (Resize 5 5)]" size_only 2 2] by (auto simp: MAX_FRAME_LEN_def MAX_SUBSCRIBERS_def)

theorem subscriber_stream_witness:
  "\<exists>s s1 s' hello keyframe f.
      acts size_only [] (ParserState_new size_only 2 2) = Some s \<and> act size_only (Handle (Subscribe 7 False)) s = Some s1
      \<and> acts size_only [WriterTakes 7, Handle (Data [65])] s1 = Some s' \<and> hello_frame False = Some hello
      \<and> encode_frame FRAME_OUTPUT [65] = Some f \<and> stream s' 7 = [hello, keyframe, f]"
proof -
  let ?post = "[WriterTakes 7, Handle (Data [65])]"
  define s where "s = ParserState_new size_only 2 2"
  have b: "bounded_state s" by (simp add: s_def bounded_state_def ParserState_new_def Let_def split: prod.splits)
  have blob: "length (snapshot_blob size_only s) \<le> MAX_FRAME_LEN" "length (subscribers s) < MAX_SUBSCRIBERS" "sockets s 7 = []"
    by (simp_all add: s_def snapshot_blob_def size_only_def blank_blob_def ParserState_new_def Let_def MAX_FRAME_LEN_def MAX_SUBSCRIBERS_def split: prod.splits)
  obtain f where f: "encode_frame FRAME_OUTPUT [65] = Some f" by (simp add: encode_frame_def MAX_FRAME_LEN_def)
  obtain hello where h: "hello_frame False = Some hello" by (simp add: hello_frame_def encode_frame_def MAX_FRAME_LEN_def)
  obtain keyframe where k: "encode_frame FRAME_KEYFRAME (snapshot_blob size_only s) = Some keyframe" using blob by (simp add: encode_frame_def)
  let ?s1 = "s\<lparr>channels := (channels s)(7 \<mapsto> \<lparr>ch_queue = [hello, keyframe], ch_open = True\<rparr>), subscribers := subscribers s @ [7]\<rparr>"
  have s1: "act size_only (Handle (Subscribe 7 False)) s = Some ?s1"
    using blob h k by (simp add: Let_def send_to_eq can_take_def SUBSCRIBER_QUEUE_FRAMES_def)
  have subs: "subscribers s = []" by (simp add: s_def ParserState_new_def Let_def split: prod.splits)
  obtain s' where s': "acts size_only ?post ?s1 = Some s'" and l: "live s' 7"
    using f subs by (simp add: Let_def live_def vt100_guarded_def size_only_def fan_out_def send_to_eq can_take_def SUBSCRIBER_QUEUE_FRAMES_def)
  have "broadcast size_only ?post ?s1 = [f]" using f by simp
  moreover have "acts size_only [] (ParserState_new size_only 2 2) = Some s" by (simp add: s_def)
  ultimately show ?thesis
    using subscriber_stream [of "[]" 7 False ?post size_only 2 2 s ?s1 s'] s1 s' l blob h k f by (auto simp: subscribed_def List.map_filter_simps MAX_FRAME_LEN_def)
qed

lemma example_subscribe: "\<exists>sub. subscribe_frame True [9] = Some sub"
  by (simp add: subscribe_frame_def encode_frame_def MAX_FRAME_LEN_def)


end
