(* ===== verification/Pty_Osc133.thy ===== *)
theory Pty_Osc133
  imports Rust_Path
begin

text \<open>
  The markers of shell integration in the PTY proxy: the streaming parser of OSC 133 sequences (\<open>atuin-pty-proxy/src/osc133.rs\<close>), the tracker
  that cuts the output into prompt, command and output (\<open>capture.rs\<close>), and the rendering of captured bytes as text
  (\<open>to_plain_text\<close> of \<open>atuin-common/src/ansi.rs\<close>).

  The text a terminal shows after some bytes (the vt100 package) is a parameter.

  Shown: the events found do not depend on how the stream is cut into chunks; a marker in plain text is found with its
  position, and the buffer of the parser stays within its bound; a marker after a sequence that was not terminated is lost;
  captures do not depend on cuts between sequences, and a cut inside another sequence leaves its rest in the captured text.
\<close>

section \<open>Library functions\<close>

text \<open>\<open>from_utf8_lossy\<close>: every maximal part of an ill-formed sequence becomes U+FFFD.\<close>

definition nth_byte :: "nat \<Rightarrow> (char \<Rightarrow> bool) \<Rightarrow> string \<Rightarrow> bool" where
  "nth_byte i P s \<longleftrightarrow> i < length s \<and> P (s ! i)"

definition second_fits :: "string \<Rightarrow> bool" where
  "second_fits s =
     (let a = s ! 0 in
        if in_range 0xE0 0xE0 a then nth_byte 1 (in_range 0xA0 0xBF) s
        else if in_range 0xED 0xED a then nth_byte 1 (in_range 0x80 0x9F) s
        else if in_range 0xF0 0xF0 a then nth_byte 1 (in_range 0x90 0xBF) s
        else if in_range 0xF4 0xF4 a then nth_byte 1 (in_range 0x80 0x8F) s
        else in_range 0xE1 0xF3 a \<and> nth_byte 1 continues s)"

definition invalid_len :: "string \<Rightarrow> nat" where
  "invalid_len s =
     (if second_fits s then (if in_range 0xF0 0xF4 (s ! 0) \<and> nth_byte 2 continues s then 3 else 2) else 1)"

function from_utf8_lossy :: "string \<Rightarrow> string" where
  "from_utf8_lossy s =
     (if s = [] then []
      else case utf8_len s of
        Some n \<Rightarrow> take n s @ from_utf8_lossy (drop n s)
      | None \<Rightarrow> [CHR 0xEF, CHR 0xBF, CHR 0xBD] @ from_utf8_lossy (drop (invalid_len s) s))"
  by pat_completeness auto

termination
  by (relation "measure length") (auto simp: invalid_len_def dest: utf8_len_pos)

declare from_utf8_lossy.simps [simp del]

definition digit_value :: "char \<Rightarrow> nat option" where
  "digit_value c = (if in_range 48 57 c then Some (of_char c - 48) else None)"

fun digits_value :: "nat \<Rightarrow> string \<Rightarrow> nat option" where
  "digits_value acc [] = Some acc"
| "digits_value acc (c # cs) = (case digit_value c of Some d \<Rightarrow> digits_value (10 * acc + d) cs | None \<Rightarrow> None)"

text \<open>\<open>parse\<close> of an \<open>i32\<close>: an optional sign and digits, within the range.\<close>

definition parse_i32 :: "string \<Rightarrow> int option" where
  "parse_i32 s =
     (let (neg, ds) = (case s of [] \<Rightarrow> (False, []) | c # cs \<Rightarrow> if c = CHR ''-'' then (True, cs) else if c = CHR ''+'' then (False, cs) else (False, s))
      in if ds = [] then None
         else case digits_value 0 ds of
           None \<Rightarrow> None
         | Some n \<Rightarrow> (let v = (if neg then - int n else int n) in if - (2 ^ 31) \<le> v \<and> v < 2 ^ 31 then Some v else None))"

section \<open>Events\<close>

datatype OscEvent = PromptStart | CommandStart | CommandExecuted | CommandFinished "int option"

datatype Zone = ZUnknown | ZPrompt | ZInput | ZOutput

datatype Param = PValue string | PKeyValue string string

type_synonym Params = "Param list"

fun params_get :: "Params \<Rightarrow> string \<Rightarrow> string option" where
  "params_get [] key = None"
| "params_get (PKeyValue k v # ps) key = (if k = key then Some v else params_get ps key)"
| "params_get (PValue _ # ps) key = params_get ps key"

record LocatedEvent =
  le_event :: OscEvent
  start_offset :: nat
  end_offset :: nat
  le_zone :: Zone
  le_params :: Params

definition parse_param :: "string \<Rightarrow> Param" where
  "parse_param part =
     (let param = from_utf8_lossy part
      in case split_once (CHR ''='') param of Some (key, v) \<Rightarrow> PKeyValue key v | None \<Rightarrow> PValue param)"

definition parse_params :: "string \<Rightarrow> Params" where
  "parse_params metadata = map parse_param (filter (\<lambda>part. part \<noteq> []) (split_on (\<lambda>c. c = CHR '';'') metadata))"

definition parse_exit_code :: "string \<Rightarrow> int option" where
  "parse_exit_code code = (if code = [] then None else Option.bind (from_utf8 code) parse_i32)"

definition parse_command_finished_params :: "string \<Rightarrow> int option \<times> Params" where
  "parse_command_finished_params metadata =
     (if metadata = [] then (None, [])
      else case split_once (CHR '';'') metadata of
        None \<Rightarrow> (case parse_exit_code metadata of None \<Rightarrow> (None, parse_params metadata) | Some c \<Rightarrow> (Some c, []))
      | Some (first, rest) \<Rightarrow> (case parse_exit_code first of None \<Rightarrow> (None, parse_params metadata) | Some c \<Rightarrow> (Some c, parse_params rest)))"

section \<open>The parser\<close>

abbreviation ESC :: char where "ESC \<equiv> CHR 0x1B"
abbreviation BEL :: char where "BEL \<equiv> CHR 0x07"
abbreviation C1_ST :: char where "C1_ST \<equiv> CHR 0x9C"
abbreviation BACKSLASH :: char where "BACKSLASH \<equiv> CHR 0x5C"

definition PARAM_BUF_CAP :: nat where "PARAM_BUF_CAP = 512"

datatype OscState = Ground | Esc | OscParam | OscEsc

record Parser =
  osc_state :: OscState
  osc_zone :: Zone
  sequence_start :: "nat option"
  param_buf :: string

definition Parser_new :: Parser where
  "Parser_new = \<lparr>osc_state = Ground, osc_zone = ZUnknown, sequence_start = None, param_buf = []\<rparr>"

definition incomplete_osc_sequence_start :: "Parser \<Rightarrow> nat option" where
  "incomplete_osc_sequence_start p =
     (if osc_state p = OscParam \<or> osc_state p = OscEsc then Some (case sequence_start p of Some i \<Rightarrow> i | None \<Rightarrow> 0) else None)"

text \<open>The event in a payload, and the zone after it.\<close>

definition payload_event :: "string \<Rightarrow> (OscEvent \<times> Params \<times> Zone) option" where
  "payload_event payload =
     (if length payload < 5 \<or> take 4 payload \<noteq> ''133;'' then None
      else if length payload > 5 \<and> payload ! 5 \<noteq> CHR '';'' then None
      else
        (let metadata = drop 6 payload; cmd = payload ! 4
         in if cmd = CHR ''A'' then Some (PromptStart, parse_params metadata, ZPrompt)
            else if cmd = CHR ''B'' then Some (CommandStart, parse_params metadata, ZInput)
            else if cmd = CHR ''C'' then Some (CommandExecuted, parse_params metadata, ZOutput)
            else if cmd = CHR ''D'' then
              (case parse_command_finished_params metadata of (exit_code, params) \<Rightarrow> Some (CommandFinished exit_code, params, ZUnknown))
            else None))"

definition osc_dispatch :: "nat \<Rightarrow> Parser \<Rightarrow> Parser \<times> LocatedEvent list" where
  "osc_dispatch offset p =
     (case payload_event (param_buf p) of
        None \<Rightarrow> (p, [])
      | Some (event, params, zone) \<Rightarrow>
          (p\<lparr>osc_zone := zone\<rparr>,
           [\<lparr>le_event = event, start_offset = (case sequence_start p of Some i \<Rightarrow> i | None \<Rightarrow> 0), end_offset = offset, le_zone = zone, le_params = params\<rparr>]))"

definition to_ground :: "Parser \<times> LocatedEvent list \<Rightarrow> Parser \<times> LocatedEvent list" where
  "to_ground r = (case r of (p, evs) \<Rightarrow> (p\<lparr>osc_state := Ground, sequence_start := None\<rparr>, evs))"

definition osc_step :: "nat \<Rightarrow> char \<Rightarrow> Parser \<Rightarrow> Parser \<times> LocatedEvent list" where
  "osc_step offset byte p =
     (case osc_state p of
        Ground \<Rightarrow> (if byte = ESC then p\<lparr>osc_state := Esc, sequence_start := Some offset\<rparr> else p, [])
      | Esc \<Rightarrow> (if byte = CHR '']'' then p\<lparr>osc_state := OscParam, param_buf := []\<rparr> else p\<lparr>osc_state := Ground, sequence_start := None\<rparr>, [])
      | OscParam \<Rightarrow>
          if byte = BEL \<or> byte = C1_ST then to_ground (osc_dispatch (offset + 1) p)
          else if byte = ESC then (p\<lparr>osc_state := OscEsc\<rparr>, [])
          else if length (param_buf p) < PARAM_BUF_CAP then (p\<lparr>param_buf := param_buf p @ [byte]\<rparr>, [])
          else (p, [])
      | OscEsc \<Rightarrow> to_ground (if byte = BACKSLASH then osc_dispatch (offset + 1) p else (p, [])))"

fun osc_loop :: "nat \<Rightarrow> string \<Rightarrow> Parser \<Rightarrow> Parser \<times> LocatedEvent list" where
  "osc_loop offset [] p = (p, [])"
| "osc_loop offset (byte # bytes) p =
     (case osc_step offset byte p of
        (p, evs) \<Rightarrow> (case osc_loop (offset + 1) bytes p of (p, evs') \<Rightarrow> (p, evs @ evs')))"

definition push_located :: "string \<Rightarrow> Parser \<Rightarrow> Parser \<times> LocatedEvent list" where
  "push_located data p = osc_loop 0 data (p\<lparr>sequence_start := (if osc_state p \<noteq> Ground then Some 0 else None)\<rparr>)"

section \<open>Captures\<close>

record CommandCapture =
  cap_prompt :: string
  cap_command :: string
  cap_output :: string
  cap_exit_code :: "int option"
  cap_history_id :: "string option"
  cap_session_id :: "string option"
  cap_truncated :: bool
  cap_observed :: nat

record CaptureBuffers =
  buf_prompt :: string
  buf_command :: string
  buf_output :: string
  observed_bytes :: nat
  output_truncated :: bool
  buf_exit_code :: "int option"
  buf_history_id :: "string option"
  buf_session_id :: "string option"

definition no_buffers :: CaptureBuffers where
  "no_buffers = \<lparr>buf_prompt = [], buf_command = [], buf_output = [], observed_bytes = 0, output_truncated = False,
     buf_exit_code = None, buf_history_id = None, buf_session_id = None\<rparr>"

record Tracker =
  tr_parser :: Parser
  tr_zone :: Zone
  tr_buffers :: CaptureBuffers

definition Tracker_new :: Tracker where
  "Tracker_new = \<lparr>tr_parser = Parser_new, tr_zone = ZUnknown, tr_buffers = no_buffers\<rparr>"

definition MAX_OUTPUT_CAPTURE_BYTES :: nat where "MAX_OUTPUT_CAPTURE_BYTES = 1024 * 1024"

definition append_output :: "string \<Rightarrow> CaptureBuffers \<Rightarrow> CaptureBuffers" where
  "append_output data b =
     (let b = b\<lparr>observed_bytes := min (observed_bytes b + length data) (2 ^ 64 - 1)\<rparr>
      in if output_truncated b then b
         else
           (let remaining = MAX_OUTPUT_CAPTURE_BYTES - length (buf_output b); retained = min (length data) remaining
            in b\<lparr>output_truncated := (retained < length data), buf_output := buf_output b @ take retained data\<rparr>))"

definition append_data :: "string \<Rightarrow> Tracker \<Rightarrow> Tracker" where
  "append_data data t =
     (let b = tr_buffers t
      in t\<lparr>tr_buffers :=
        (case tr_zone t of
           ZPrompt \<Rightarrow> b\<lparr>buf_prompt := buf_prompt b @ data\<rparr>
         | ZInput \<Rightarrow> b\<lparr>buf_command := buf_command b @ data\<rparr>
         | ZOutput \<Rightarrow> append_output data b
         | ZUnknown \<Rightarrow> b)\<rparr>)"

definition trim_line_ends :: "string \<Rightarrow> string" where
  "trim_line_ends s =
     (let end = (\<lambda>c. c = CHR 0x0D \<or> c = CHR 0x0A) in rev (dropWhile end (rev (dropWhile end s))))"

definition finish_capture :: "(string \<Rightarrow> string) \<Rightarrow> CaptureBuffers \<Rightarrow> CommandCapture option" where
  "finish_capture plain b =
     (let command = trim_line_ends (plain (buf_command b)); output = plain (buf_output b)
      in if command = [] \<and> output = [] then None
         else Some \<lparr>cap_prompt = plain (buf_prompt b), cap_command = command, cap_output = output, cap_exit_code = buf_exit_code b,
                    cap_history_id = buf_history_id b, cap_session_id = buf_session_id b, cap_truncated = output_truncated b,
                    cap_observed = observed_bytes b\<rparr>)"

definition handle_event :: "(string \<Rightarrow> string) \<Rightarrow> OscEvent \<Rightarrow> Params \<Rightarrow> Tracker \<Rightarrow> Tracker \<times> CommandCapture list" where
  "handle_event plain event params t =
     (case event of
        PromptStart \<Rightarrow> (if tr_zone t \<noteq> ZPrompt then t\<lparr>tr_buffers := no_buffers\<rparr> else t, [])
      | CommandStart \<Rightarrow> (t, [])
      | CommandExecuted \<Rightarrow> (t, [])
      | CommandFinished exit_code \<Rightarrow>
          (case params_get params ''history_id'' of
             None \<Rightarrow> (t, [])
           | Some history_id \<Rightarrow>
               (let b = tr_buffers t;
                    b = (if exit_code \<noteq> None \<or> buf_exit_code b = None then b\<lparr>buf_exit_code := exit_code\<rparr> else b);
                    b = b\<lparr>buf_history_id := Some history_id, buf_session_id := params_get params ''session_id''\<rparr>
                in (t\<lparr>tr_buffers := no_buffers\<rparr>, case finish_capture plain b of None \<Rightarrow> [] | Some c \<Rightarrow> [c]))))"

definition data_slice :: "string \<Rightarrow> nat \<Rightarrow> nat \<Rightarrow> string" where
  "data_slice data a b = take (b - a) (drop a data)"

fun track_events :: "(string \<Rightarrow> string) \<Rightarrow> string \<Rightarrow> nat \<Rightarrow> LocatedEvent list \<Rightarrow> Tracker \<Rightarrow> nat \<times> Tracker \<times> CommandCapture list" where
  "track_events plain data start [] t = (start, t, [])"
| "track_events plain data start (located # evs) t =
     (let marker_start = max (min (start_offset located) (length data)) start; offset = min (end_offset located) (length data);
          t = append_data (data_slice data start marker_start) t
      in case handle_event plain (le_event located) (le_params located) t of
           (t, cs) \<Rightarrow> (case track_events plain data offset evs (t\<lparr>tr_zone := le_zone located\<rparr>) of (start, t, cs') \<Rightarrow> (start, t, cs @ cs')))"

definition tracker_push :: "(string \<Rightarrow> string) \<Rightarrow> string \<Rightarrow> Tracker \<Rightarrow> Tracker \<times> CommandCapture list" where
  "tracker_push plain data t =
     (case push_located data (tr_parser t) of
        (p, evs) \<Rightarrow>
          (case track_events plain data 0 evs (t\<lparr>tr_parser := p\<rparr>) of
             (start, t, cs) \<Rightarrow>
               (let append_end = (case incomplete_osc_sequence_start p of Some i \<Rightarrow> max (min i (length data)) start | None \<Rightarrow> length data)
                in (if start < append_end then append_data (data_slice data start append_end) t else t, cs))))"

section \<open>Plain text\<close>

fun onlcr :: "char option \<Rightarrow> string \<Rightarrow> string" where
  "onlcr prev [] = []"
| "onlcr prev (b # bs) = (if b = CHR 0x0A \<and> prev \<noteq> Some (CHR 0x0D) then [CHR 0x0D] else []) @ b # onlcr (Some b) bs"

definition str_lines :: "string \<Rightarrow> string list" where
  "str_lines s =
     (let ls = split_on (\<lambda>c. c = CHR 0x0A) s
      in map (\<lambda>l. if l \<noteq> [] \<and> last l = CHR 0x0D then butlast l else l) (butlast ls) @ (if last ls = [] then [] else [last ls]))"

definition to_plain_text :: "(nat \<Rightarrow> nat \<Rightarrow> string \<Rightarrow> string) \<Rightarrow> nat \<Rightarrow> string \<Rightarrow> string" where
  "to_plain_text vt_contents cols bytes =
     (if bytes = [] then []
      else
        (let normalized = onlcr None bytes; newlines = length (filter (\<lambda>b. b = CHR 0x0A) normalized);
             rows = min (newlines + 1 + length normalized div cols + 1) 16384;
             contents = vt_contents (max rows 2) (max cols 2) normalized
         in join_with [CHR 0x0A] (map trim_end (str_lines (trim_end contents)))))"

section \<open>Chunks\<close>

text \<open>What an event says, apart from its position in a chunk; a parser apart from such a position.\<close>

definition event_of :: "LocatedEvent \<Rightarrow> OscEvent \<times> Zone \<times> Params" where
  "event_of e = (le_event e, le_zone e, le_params e)"

definition osc_core :: "Parser \<Rightarrow> OscState \<times> Zone \<times> string" where
  "osc_core p = (osc_state p, osc_zone p, param_buf p)"

lemma osc_step_core:
  "osc_core p = osc_core q \<Longrightarrow> osc_core (fst (osc_step i b p)) = osc_core (fst (osc_step j b q)) \<and> map event_of (snd (osc_step i b p)) = map event_of (snd (osc_step j b q))"
  by (auto simp: osc_core_def osc_step_def osc_dispatch_def to_ground_def event_of_def split: OscState.splits option.splits)

lemma osc_loop_core:
  "osc_core p = osc_core q \<Longrightarrow> osc_core (fst (osc_loop i bs p)) = osc_core (fst (osc_loop j bs q)) \<and> map event_of (snd (osc_loop i bs p)) = map event_of (snd (osc_loop j bs q))"
proof (induction bs arbitrary: i j p q)
  case (Cons b bs)
  obtain p1 e1 where p1: "osc_step i b p = (p1, e1)" by fastforce
  obtain q1 d1 where q1: "osc_step j b q = (q1, d1)" by fastforce
  have c: "osc_core p1 = osc_core q1" "map event_of e1 = map event_of d1" using osc_step_core [OF Cons.prems, of i b j] p1 q1 by simp_all
  show ?case using Cons.IH [OF c(1), of "i + 1" "j + 1"] c(2) p1 q1 by (auto split: prod.splits)
qed simp

lemma osc_loop_append:
  "osc_loop i (as @ bs) p = (case osc_loop i as p of (p1, e1) \<Rightarrow> case osc_loop (i + length as) bs p1 of (p2, e2) \<Rightarrow> (p2, e1 @ e2))"
  by (induction as arbitrary: i p) (auto split: prod.splits)

fun push_chunks :: "string list \<Rightarrow> Parser \<Rightarrow> Parser \<times> LocatedEvent list" where
  "push_chunks [] p = (p, [])"
| "push_chunks (c # cs) p = (case push_located c p of (p, e) \<Rightarrow> case push_chunks cs p of (p, e') \<Rightarrow> (p, e @ e'))"

lemma push_located_core:
  "osc_core p = osc_core q \<Longrightarrow> osc_core (fst (push_located c p)) = osc_core (fst (osc_loop j c q)) \<and> map event_of (snd (push_located c p)) = map event_of (snd (osc_loop j c q))"
  unfolding push_located_def by (rule osc_loop_core) (simp add: osc_core_def)

lemma push_chunks_core:
  "osc_core p = osc_core q \<Longrightarrow> osc_core (fst (push_chunks cs p)) = osc_core (fst (osc_loop j (concat cs) q)) \<and> map event_of (snd (push_chunks cs p)) = map event_of (snd (osc_loop j (concat cs) q))"
proof (induction cs arbitrary: p q j)
  case (Cons c cs)
  obtain p1 e1 where p1: "push_located c p = (p1, e1)" by fastforce
  obtain q1 d1 where q1: "osc_loop j c q = (q1, d1)" by fastforce
  have c: "osc_core p1 = osc_core q1" "map event_of e1 = map event_of d1" using push_located_core [OF Cons.prems, of c j] p1 q1 by simp_all
  show ?case using Cons.IH [OF c(1), of "j + length c"] c(2) p1 q1 by (auto simp: osc_loop_append split: prod.splits)
qed simp

section \<open>Bounds and markers\<close>

lemma osc_step_bounded: "length (param_buf p) \<le> PARAM_BUF_CAP \<Longrightarrow> length (param_buf (fst (osc_step i b p))) \<le> PARAM_BUF_CAP"
  by (auto simp: osc_step_def osc_dispatch_def to_ground_def split: OscState.splits option.splits)

lemma osc_loop_bounded: "length (param_buf p) \<le> PARAM_BUF_CAP \<Longrightarrow> length (param_buf (fst (osc_loop i bs p))) \<le> PARAM_BUF_CAP"
proof (induction bs arbitrary: i p)
  case (Cons b bs)
  obtain p1 e1 where p1: "osc_step i b p = (p1, e1)" by fastforce
  show ?case using Cons.IH [of p1 "i + 1"] osc_step_bounded [OF Cons.prems, of i b] p1 by (auto split: prod.splits)
qed simp

lemma push_chunks_bounded: "length (param_buf p) \<le> PARAM_BUF_CAP \<Longrightarrow> length (param_buf (fst (push_chunks cs p))) \<le> PARAM_BUF_CAP"
proof (induction cs arbitrary: p)
  case (Cons c cs)
  obtain p1 e1 where p1: "push_located c p = (p1, e1)" by fastforce
  have "length (param_buf p1) \<le> PARAM_BUF_CAP" using osc_loop_bounded [of "p\<lparr>sequence_start := (if osc_state p \<noteq> Ground then Some 0 else None)\<rparr>" 0 c] Cons.prems p1
    by (simp add: push_located_def)
  then show ?case using Cons.IH [of p1] p1 by (auto split: prod.splits)
qed simp

text \<open>Text without an escape character passes; a payload is collected.\<close>

lemma loop_text: "osc_state p = Ground \<Longrightarrow> ESC \<notin> set xs \<Longrightarrow> osc_loop i xs p = (p, [])"
  by (induction xs arbitrary: i) (auto simp: osc_step_def)

lemma loop_payload:
  "osc_state p = OscParam \<Longrightarrow> set payload \<inter> {ESC, BEL, C1_ST} = {} \<Longrightarrow> length (param_buf p) + length payload \<le> PARAM_BUF_CAP
   \<Longrightarrow> osc_loop i payload p = (p\<lparr>param_buf := param_buf p @ payload\<rparr>, [])"
proof (induction payload arbitrary: i p)
  case (Cons b bs)
  have "osc_step i b p = (p\<lparr>param_buf := param_buf p @ [b]\<rparr>, [])" using Cons.prems by (auto simp: osc_step_def)
  then show ?case using Cons.IH [of "p\<lparr>param_buf := param_buf p @ [b]\<rparr>" "i + 1"] Cons.prems by simp
qed simp

definition terminators :: "string list" where
  "terminators = [[BEL], [C1_ST], [ESC, BACKSLASH]]"

lemma loop_terminator:
  "term \<in> set terminators \<Longrightarrow> osc_state p = OscParam \<Longrightarrow> osc_loop i term p = to_ground (osc_dispatch (i + length term) p)"
  by (auto simp: terminators_def osc_step_def osc_dispatch_def to_ground_def split: option.splits prod.splits)

section \<open>Cuts between sequences\<close>

definition grounded :: "Parser \<Rightarrow> bool" where
  "grounded p \<longleftrightarrow> (osc_state p = Ground \<longleftrightarrow> sequence_start p = None)"

definition shift_parser :: "nat \<Rightarrow> Parser \<Rightarrow> Parser" where
  "shift_parser k p = p\<lparr>sequence_start := map_option ((+) k) (sequence_start p)\<rparr>"

definition shift_event :: "nat \<Rightarrow> LocatedEvent \<Rightarrow> LocatedEvent" where
  "shift_event k e = e\<lparr>start_offset := k + start_offset e, end_offset := k + end_offset e\<rparr>"

lemma osc_step_grounded: "grounded p \<Longrightarrow> grounded (fst (osc_step i b p))"
  by (cases "osc_state p"; cases "payload_event (param_buf p)") (simp_all add: grounded_def osc_step_def osc_dispatch_def to_ground_def split: prod.split)

lemma osc_loop_grounded: "grounded p \<Longrightarrow> grounded (fst (osc_loop i bs p))"
proof (induction bs arbitrary: i p)
  case (Cons b bs)
  obtain p1 e1 where p1: "osc_step i b p = (p1, e1)" by fastforce
  show ?case using Cons.IH [of p1 "i + 1"] osc_step_grounded [OF Cons.prems, of i b] p1 by (auto split: prod.splits)
qed simp

lemma osc_step_shift:
  "grounded p \<Longrightarrow> osc_step (k + i) b (shift_parser k p) = (case osc_step i b p of (q, evs) \<Rightarrow> (shift_parser k q, map (shift_event k) evs))"
  by (cases "osc_state p"; cases "payload_event (param_buf p)"; cases "sequence_start p")
    (simp_all add: grounded_def osc_step_def osc_dispatch_def to_ground_def shift_parser_def shift_event_def split: prod.split)

lemma osc_loop_shift:
  "grounded p \<Longrightarrow> osc_loop (k + i) bs (shift_parser k p) = (case osc_loop i bs p of (q, evs) \<Rightarrow> (shift_parser k q, map (shift_event k) evs))"
proof (induction bs arbitrary: i p)
  case (Cons b bs)
  obtain p1 e1 where p1: "osc_step i b p = (p1, e1)" by fastforce
  have "grounded p1" using osc_step_grounded [OF Cons.prems, of i b] p1 by simp
  then show ?case using Cons.IH [of p1 "i + 1"] osc_step_shift [OF Cons.prems, of k i b] p1 by (auto split: prod.splits)
qed simp

text \<open>Events lie in the part of the chunk read so far.\<close>

lemma osc_step_within:
  assumes "osc_step i b p = (q, evs)" "\<forall>j. sequence_start p = Some j \<longrightarrow> j \<le> i" "grounded p"
  shows "(\<forall>j. sequence_start q = Some j \<longrightarrow> j \<le> i) \<and> (\<forall>e \<in> set evs. start_offset e \<le> i \<and> end_offset e = i + 1)"
  using assms by (auto simp: grounded_def osc_step_def osc_dispatch_def to_ground_def split: OscState.splits option.splits if_splits)

lemma osc_loop_within:
  assumes "osc_loop i bs p = (q, evs)" "\<forall>j. sequence_start p = Some j \<longrightarrow> j \<le> i" "grounded p"
  shows "(\<forall>j. sequence_start q = Some j \<longrightarrow> j \<le> i + length bs) \<and> (\<forall>e \<in> set evs. start_offset e \<le> i + length bs \<and> end_offset e \<le> i + length bs)"
  using assms
proof (induction bs arbitrary: i p evs)
  case (Cons b bs)
  obtain p1 e1 where p1: "osc_step i b p = (p1, e1)" by fastforce
  obtain e2 where e2: "osc_loop (i + 1) bs p1 = (q, e2)" "evs = e1 @ e2" using Cons.prems(1) p1 by (auto split: prod.splits)
  have g: "grounded p1" using osc_step_grounded [OF Cons.prems(3), of i b] p1 by simp
  note w = osc_step_within [OF p1 Cons.prems(2,3)]
  have "\<forall>j. sequence_start p1 = Some j \<longrightarrow> j \<le> i + 1" using w by fastforce
  then show ?case using Cons.IH [OF e2(1) _ g] w e2(2) by fastforce
qed auto

lemma append_output_append: "append_output y (append_output x b) = append_output (x @ y) b"
  by (cases "output_truncated b") (auto simp: append_output_def Let_def min_def)

lemma append_data_append: "append_data y (append_data x t) = append_data (x @ y) t"
  by (auto simp: append_data_def Let_def append_output_append split: Zone.splits)

lemma slice_in_first: "b \<le> length xs \<Longrightarrow> data_slice (xs @ ys) a b = data_slice xs a b"
  by (simp add: data_slice_def)

lemma slice_in_second: "data_slice (xs @ ys) (length xs + a) (length xs + b) = data_slice ys a b"
  by (simp add: data_slice_def)

lemma slice_join: "a \<le> length xs \<Longrightarrow> data_slice (xs @ ys) a (length xs + b) = data_slice xs a (length xs) @ data_slice ys 0 b"
  by (simp add: data_slice_def)

lemma track_first:
  "start \<le> length as \<Longrightarrow> \<forall>e \<in> set evs. start_offset e \<le> length as \<and> end_offset e \<le> length as
   \<Longrightarrow> track_events plain (as @ bs) start evs t = track_events plain as start evs t \<and> fst (track_events plain as start evs t) \<le> length as"
proof (induction evs arbitrary: start t)
  case (Cons e evs)
  have m: "min (start_offset e) (length (as @ bs)) = start_offset e" "min (end_offset e) (length (as @ bs)) = end_offset e"
    "min (start_offset e) (length as) = start_offset e" "min (end_offset e) (length as) = end_offset e" using Cons.prems(2) by auto
  have sl: "data_slice (as @ bs) start (max (start_offset e) start) = data_slice as start (max (start_offset e) start)"
    using Cons.prems by (intro slice_in_first) auto
  let ?t = "append_data (data_slice as start (max (start_offset e) start)) t"
  obtain t1 cs where h: "handle_event plain (le_event e) (le_params e) ?t = (t1, cs)" by fastforce
  obtain st t2 cs2 where r: "track_events plain as (end_offset e) evs (t1\<lparr>tr_zone := le_zone e\<rparr>) = (st, t2, cs2)" by (metis surj_pair)
  have "track_events plain as start (e # evs) t = (st, t2, cs @ cs2)" using h r m by (simp add: Let_def)
  moreover have "track_events plain (as @ bs) start (e # evs) t = (st, t2, cs @ cs2) \<and> st \<le> length as"
    using h r m sl Cons.IH [of "end_offset e" "t1\<lparr>tr_zone := le_zone e\<rparr>"] Cons.prems(2) by (simp add: Let_def)
  ultimately show ?case by simp
qed simp

lemma track_second:
  "track_events plain (as @ bs) (length as + start) (map (shift_event (length as)) evs) t =
   (case track_events plain bs start evs t of (st, t, cs) \<Rightarrow> (length as + st, t, cs))"
proof (induction evs arbitrary: start t)
  case (Cons e evs)
  have m: "max (min (length as + start_offset e) (length (as @ bs))) (length as + start) = length as + max (min (start_offset e) (length bs)) start"
    "min (length as + end_offset e) (length (as @ bs)) = length as + min (end_offset e) (length bs)" by auto
  let ?t = "append_data (data_slice bs start (max (min (start_offset e) (length bs)) start)) t"
  obtain t1 cs where h: "handle_event plain (le_event e) (le_params e) ?t = (t1, cs)" by fastforce
  obtain st t2 cs2 where r: "track_events plain bs (min (end_offset e) (length bs)) evs (t1\<lparr>tr_zone := le_zone e\<rparr>) = (st, t2, cs2)" by (metis surj_pair)
  let ?f = "shift_event (length as)"
  have e: "start_offset (?f e) = length as + start_offset e" "end_offset (?f e) = length as + end_offset e" "le_event (?f e) = le_event e"
    "le_params (?f e) = le_params e" "le_zone (?f e) = le_zone e" by (simp_all add: shift_event_def)
  have sl: "data_slice (as @ bs) (length as + start) (length as + max (min (start_offset e) (length bs)) start) = data_slice bs start (max (min (start_offset e) (length bs)) start)"
    by (rule slice_in_second)
  have ih: "track_events plain (as @ bs) (length as + min (end_offset e) (length bs)) (map ?f evs) (t1\<lparr>tr_zone := le_zone e\<rparr>) = (length as + st, t2, cs2)"
    using Cons.IH [of "min (end_offset e) (length bs)" "t1\<lparr>tr_zone := le_zone e\<rparr>"] r by simp
  have "track_events plain bs start (e # evs) t = (st, t2, cs @ cs2)" using h r by (simp add: Let_def)
  moreover have "track_events plain (as @ bs) (length as + start) (map ?f (e # evs)) t = (length as + st, t2, cs @ cs2)"
    unfolding list.map track_events.simps Let_def e m sl h ih prod.case by simp
  ultimately show ?case by simp
qed simp

lemma track_joined:
  assumes "s1 \<le> length as"
  shows "track_events plain (as @ bs) s1 (map (shift_event (length as)) (e # evs)) t =
    (case track_events plain bs 0 (e # evs) (append_data (data_slice as s1 (length as)) t) of (st, t, cs) \<Rightarrow> (length as + st, t, cs))"
proof -
  let ?f = "shift_event (length as)" and ?m = "min (start_offset e) (length bs)"
  have e: "start_offset (?f e) = length as + start_offset e" "end_offset (?f e) = length as + end_offset e" "le_event (?f e) = le_event e"
    "le_params (?f e) = le_params e" "le_zone (?f e) = le_zone e" by (simp_all add: shift_event_def)
  have m: "max (min (length as + start_offset e) (length (as @ bs))) s1 = length as + ?m"
    "min (length as + end_offset e) (length (as @ bs)) = length as + min (end_offset e) (length bs)" "max ?m 0 = ?m" using assms by auto
  have sl: "append_data (data_slice (as @ bs) s1 (length as + ?m)) t = append_data (data_slice bs 0 ?m) (append_data (data_slice as s1 (length as)) t)"
    by (simp only: slice_join [OF assms] append_data_append)
  show ?thesis unfolding list.map track_events.simps Let_def e m sl by (simp add: track_second split: prod.splits)
qed

lemma track_append:
  "track_events plain d s (e1 @ e2) t =
   (case track_events plain d s e1 t of (s1, t1, c1) \<Rightarrow> case track_events plain d s1 e2 t1 of (s2, t2, c2) \<Rightarrow> (s2, t2, c1 @ c2))"
  by (induction e1 arbitrary: s t) (auto simp: Let_def split: prod.splits)

lemma append_parser: "append_data d (t\<lparr>tr_parser := q\<rparr>) = (append_data d t)\<lparr>tr_parser := q\<rparr>"
  by (simp add: append_data_def Let_def)

lemma event_parser: "handle_event plain ev ps (t\<lparr>tr_parser := q\<rparr>) = (case handle_event plain ev ps t of (t, cs) \<Rightarrow> (t\<lparr>tr_parser := q\<rparr>, cs))"
  by (simp add: handle_event_def Let_def split: OscEvent.splits option.splits)

lemma track_parser:
  "track_events plain d s evs (t\<lparr>tr_parser := q\<rparr>) = (case track_events plain d s evs t of (st, t, cs) \<Rightarrow> (st, t\<lparr>tr_parser := q\<rparr>, cs))"
proof (induction evs arbitrary: s t)
  case (Cons e evs)
  let ?a = "append_data (data_slice d s (max (min (start_offset e) (length d)) s))"
  obtain t1 cs where h: "handle_event plain (le_event e) (le_params e) (?a t) = (t1, cs)" by fastforce
  have sw: "t1\<lparr>tr_parser := q, tr_zone := le_zone e\<rparr> = t1\<lparr>tr_zone := le_zone e, tr_parser := q\<rparr>" by (cases t1) simp
  show ?case using Cons.IH [of "min (end_offset e) (length d)" "t1\<lparr>tr_zone := le_zone e\<rparr>"] h
    by (auto simp: Let_def append_parser event_parser sw split: prod.splits)
qed simp

text \<open>The bytes after the last event, up to \<open>stop\<close>.\<close>

definition append_rest :: "string \<Rightarrow> nat \<Rightarrow> nat \<Rightarrow> Tracker \<Rightarrow> Tracker" where
  "append_rest data start stop t = (if start < stop then append_data (data_slice data start stop) t else t)"

definition rest_end :: "string \<Rightarrow> Parser \<Rightarrow> nat \<Rightarrow> nat" where
  "rest_end data p start = (case incomplete_osc_sequence_start p of Some i \<Rightarrow> max (min i (length data)) start | None \<Rightarrow> length data)"

lemma tracker_push_eq:
  "push_located data (tr_parser t) = (p, evs) \<Longrightarrow> track_events plain data 0 evs t = (start, t', cs)
   \<Longrightarrow> tracker_push plain data t = ((append_rest data start (rest_end data p start) t')\<lparr>tr_parser := p\<rparr>, cs)"
  by (simp add: tracker_push_def append_rest_def rest_end_def track_parser append_parser Let_def)

lemma append_rest_join: "s1 \<le> length as \<Longrightarrow> append_rest (as @ bs) s1 (length as + m) t = append_rest bs 0 m (append_rest as s1 (length as) t)"
proof -
  assume s: "s1 \<le> length as"
  show ?thesis
  proof (cases "s1 < length as")
    case True
    show ?thesis
    proof (cases "0 < m")
      case m: True
      then show ?thesis using True s by (simp add: append_rest_def slice_join append_data_append)
    next
      case False
      then show ?thesis using True by (simp add: append_rest_def slice_in_first)
    qed
  next
    case False
    then have "s1 = length as + 0" using s by simp
    then show ?thesis using slice_in_second [of as bs 0 m] by (simp add: append_rest_def)
  qed
qed

lemma append_rest_second: "append_rest (as @ bs) (length as + s) (length as + m) t = append_rest bs s m t"
  by (simp add: append_rest_def slice_in_second)

definition tracker_core :: "Tracker \<Rightarrow> Tracker" where
  "tracker_core t = t\<lparr>tr_parser := (tr_parser t)\<lparr>sequence_start := None\<rparr>\<rparr>"

text \<open>Only the start of an unfinished sequence in the last chunk is left out, which the next chunk sets anew.\<close>

lemma tracker_core_next: "tracker_core t = tracker_core u \<Longrightarrow> tracker_push plain data t = tracker_push plain data u"
proof -
  assume c: "tracker_core t = tracker_core u"
  have p: "(tr_parser t)\<lparr>sequence_start := x\<rparr> = (tr_parser u)\<lparr>sequence_start := x\<rparr>" "osc_state (tr_parser t) = osc_state (tr_parser u)" for x
    using arg_cong [OF c, of "\<lambda>t. (tr_parser t)\<lparr>sequence_start := x\<rparr>"] arg_cong [OF c, of "\<lambda>t. osc_state (tr_parser t)"] by (simp_all add: tracker_core_def)
  have e: "push_located data (tr_parser t) = push_located data (tr_parser u)" by (simp add: push_located_def p)
  have "t\<lparr>tr_parser := q\<rparr> = u\<lparr>tr_parser := q\<rparr>" for q using arg_cong [OF c, of "\<lambda>t. t\<lparr>tr_parser := q\<rparr>"] by (simp add: tracker_core_def)
  then show ?thesis by (simp add: tracker_push_def e)
qed

section \<open>Theorems\<close>

text \<open>
  C32: The events found in a stream, with their zones and parameters, do not depend on how it is cut into chunks, and neither does the
  state of the parser; its buffer never exceeds 512 bytes.
\<close>

theorem events_any_chunks:
  assumes "concat cs = concat ds" "length (param_buf p) \<le> PARAM_BUF_CAP"
  shows "map event_of (snd (push_chunks cs p)) = map event_of (snd (push_chunks ds p))
    \<and> osc_core (fst (push_chunks cs p)) = osc_core (fst (push_chunks ds p)) \<and> length (param_buf (fst (push_chunks cs p))) \<le> PARAM_BUF_CAP"
  using push_chunks_core [of p p cs 0] push_chunks_core [of p p ds 0] push_chunks_bounded [OF assms(2)] assms(1) by simp

text \<open>
  A marker after text without an escape character is found whichever terminator it has, with its bytes as its position and nothing
  else as an event.
\<close>

theorem marker_found:
  assumes "osc_state p = Ground" "ESC \<notin> set txt" "set payload \<inter> {ESC, BEL, C1_ST} = {}" "length payload \<le> PARAM_BUF_CAP"
    and "end_mark \<in> set terminators" "payload_event payload = Some (ev, params, zone)"
  shows "\<exists>p'. push_located (txt @ [ESC, CHR '']''] @ payload @ end_mark) p =
      (p', [\<lparr>le_event = ev, start_offset = length txt, end_offset = length txt + 2 + length payload + length end_mark, le_zone = zone, le_params = params\<rparr>])
    \<and> osc_state p' = Ground \<and> osc_zone p' = zone"
proof -
  let ?p = "p\<lparr>sequence_start := None\<rparr>" and ?k = "length txt"
  let ?q = "?p\<lparr>osc_state := OscParam, sequence_start := Some ?k, param_buf := payload\<rparr>"
  have a: "osc_loop 0 txt ?p = (?p, [])" using assms(1,2) by (intro loop_text) simp_all
  have b: "osc_loop ?k [ESC, CHR '']''] ?p = (?p\<lparr>osc_state := OscParam, sequence_start := Some ?k, param_buf := []\<rparr>, [])"
    using assms(1) by (simp add: osc_step_def)
  have c: "osc_loop (?k + 2) payload (?p\<lparr>osc_state := OscParam, sequence_start := Some ?k, param_buf := []\<rparr>) = (?q, [])"
    using loop_payload [of "?p\<lparr>osc_state := OscParam, sequence_start := Some ?k, param_buf := []\<rparr>" payload "?k + 2"] assms(3,4) by simp
  have d: "osc_loop (?k + 2 + length payload) end_mark ?q = to_ground (osc_dispatch (?k + 2 + length payload + length end_mark) ?q)"
    using loop_terminator [OF assms(5), of ?q] by simp
  have "push_located (txt @ [ESC, CHR '']''] @ payload @ end_mark) p = osc_loop 0 (txt @ [ESC, CHR '']''] @ payload @ end_mark) ?p"
    using assms(1) by (simp add: push_located_def)
  also have "\<dots> = osc_loop ?k ([ESC, CHR '']''] @ payload @ end_mark) ?p" by (simp only: osc_loop_append a prod.case append_Nil) (simp split: prod.split)
  also have "\<dots> = osc_loop (?k + 2) (payload @ end_mark) (?p\<lparr>osc_state := OscParam, sequence_start := Some ?k, param_buf := []\<rparr>)"
    using b by (simp only: osc_loop_append prod.case append_Nil list.size) (simp split: prod.split)
  also have "\<dots> = osc_loop (?k + 2 + length payload) end_mark ?q" by (simp only: osc_loop_append c prod.case append_Nil) (simp split: prod.split)
  also note d
  finally show ?thesis using assms(6) by (simp add: osc_dispatch_def to_ground_def)
qed

theorem marker_found_witness:
  "\<exists>p'. push_located (''ls'' @ [ESC, CHR '']''] @ ''133;C'' @ [BEL]) Parser_new =
      (p', [\<lparr>le_event = CommandExecuted, start_offset = 2, end_offset = 10, le_zone = ZOutput, le_params = []\<rparr>]) \<and> osc_state p' = Ground \<and> osc_zone p' = ZOutput"
  using marker_found [of Parser_new "''ls''" "''133;C''" "[BEL]" CommandExecuted "[]" ZOutput]
  by (simp add: Parser_new_def terminators_def PARAM_BUF_CAP_def payload_event_def parse_params_def eval_nat_numeral)

theorem events_any_chunks_witness:
  "map event_of (snd (push_chunks [[ESC], ''A''] Parser_new)) = map event_of (snd (push_chunks [[ESC, CHR ''A'']] Parser_new))"
  using events_any_chunks [of "[[ESC], ''A'']" "[[ESC, CHR ''A'']]" Parser_new] by (simp add: Parser_new_def)

lemma joint_parse:
  assumes "push_located as p = (p1, e1)" "osc_state p1 = Ground" "push_located bs p1 = (p2, e2)"
  shows "push_located (as @ bs) p = (shift_parser (length as) p2, e1 @ map (shift_event (length as)) e2)"
    "\<forall>e \<in> set e1. start_offset e \<le> length as \<and> end_offset e \<le> length as" "grounded p1"
proof -
  let ?p = "p\<lparr>sequence_start := (if osc_state p \<noteq> Ground then Some 0 else None)\<rparr>"
  have g: "grounded ?p" by (simp add: grounded_def)
  have r: "osc_loop 0 as ?p = (p1, e1)" using assms(1) by (simp add: push_located_def)
  show g1: "grounded p1" using osc_loop_grounded [OF g, of 0 as] r by simp
  then have p1: "p1\<lparr>sequence_start := None\<rparr> = p1" "shift_parser (length as) p1 = p1" using assms(2) by (cases p1; simp add: grounded_def shift_parser_def)+
  then have "osc_loop 0 bs p1 = (p2, e2)" using assms(2,3) by (simp add: push_located_def)
  then have "osc_loop (length as) bs p1 = (shift_parser (length as) p2, map (shift_event (length as)) e2)"
    using osc_loop_shift [OF g1, of "length as" 0 bs] p1(2) by simp
  then show "push_located (as @ bs) p = (shift_parser (length as) p2, e1 @ map (shift_event (length as)) e2)" using r by (simp add: push_located_def osc_loop_append)
  show "\<forall>e \<in> set e1. start_offset e \<le> length as \<and> end_offset e \<le> length as" using osc_loop_within [OF r _ g] by auto
qed

lemma rest_end_shift:
  "rest_end (as @ bs) (shift_parser (length as) p) (length as + m') = length as + rest_end bs p m'"
  "grounded p \<Longrightarrow> s1 \<le> length as \<Longrightarrow> rest_end (as @ bs) (shift_parser (length as) p) s1 = length as + rest_end bs p 0"
  by (auto simp: rest_end_def incomplete_osc_sequence_start_def shift_parser_def grounded_def split: option.splits)

lemma push_grounded: "push_located data p = (q, evs) \<Longrightarrow> grounded q"
  using osc_loop_grounded [of "p\<lparr>sequence_start := (if osc_state p \<noteq> Ground then Some 0 else None)\<rparr>" 0 data]
  by (auto simp: push_located_def grounded_def)

lemma core_parser: "tracker_core (t\<lparr>tr_parser := shift_parser k p\<rparr>) = tracker_core (t\<lparr>tr_parser := p\<rparr>)"
  by (simp add: tracker_core_def shift_parser_def)

text \<open>
  Cutting the stream where no escape sequence is open changes nothing: the same commands are captured, with the same texts, counts and flags,
  and the tracker continues in the same state.
\<close>

theorem captures_at_cut:
  assumes "osc_state (fst (push_located as (tr_parser t))) = Ground"
    and "tracker_push plain as t = (t1, c1)" "tracker_push plain bs t1 = (t2, c2)" "tracker_push plain (as @ bs) t = (t', cs)"
  shows "cs = c1 @ c2 \<and> tracker_core t' = tracker_core t2"
proof -
  obtain p1 e1 where p1: "push_located as (tr_parser t) = (p1, e1)" by fastforce
  obtain p2 e2 where p2: "push_located bs p1 = (p2, e2)" by fastforce
  have ground: "osc_state p1 = Ground" using assms(1) p1 by simp
  note j = joint_parse [OF p1 ground p2]
  let ?k = "length as" and ?f = "shift_event (length as)"
  obtain s1 u1 d1 where r1: "track_events plain as 0 e1 t = (s1, u1, d1)" by (metis surj_pair)
  have s1: "s1 \<le> ?k" and r1': "track_events plain (as @ bs) 0 e1 t = (s1, u1, d1)" using track_first [of 0 as e1 plain bs t] j(2) r1 by simp_all
  have "rest_end as p1 s1 = ?k" using ground by (simp add: rest_end_def incomplete_osc_sequence_start_def)
  then have t1: "t1 = (append_rest as s1 ?k u1)\<lparr>tr_parser := p1\<rparr>" "c1 = d1" using tracker_push_eq [OF p1 r1] assms(2) by simp_all
  let ?u = "append_rest as s1 ?k u1"
  obtain s2 u2 d2 where r2: "track_events plain bs 0 e2 ?u = (s2, u2, d2)" by (metis surj_pair)
  have "track_events plain bs 0 e2 t1 = (s2, u2\<lparr>tr_parser := p1\<rparr>, d2)" using r2 t1(1) by (simp add: track_parser)
  moreover have "push_located bs (tr_parser t1) = (p2, e2)" using p2 t1(1) by simp
  ultimately have t2: "t2 = (append_rest bs s2 (rest_end bs p2 s2) u2)\<lparr>tr_parser := p2\<rparr>" "c2 = d2"
    using tracker_push_eq [of bs t1 p2 e2 plain s2 "u2\<lparr>tr_parser := p1\<rparr>" d2] assms(3) by (simp_all add: append_rest_def append_parser)
  show ?thesis
  proof (cases e2)
    case Nil
    then have n: "s2 = 0" "u2 = ?u" "d2 = []" using r2 by simp_all
    have "t' = (append_rest (as @ bs) s1 (rest_end (as @ bs) (shift_parser ?k p2) s1) u1)\<lparr>tr_parser := shift_parser ?k p2\<rparr>" "cs = d1"
      using tracker_push_eq [of "as @ bs" t "shift_parser ?k p2" "e1 @ map ?f e2" plain s1 u1 d1] j(1) r1' Nil assms(4) by simp_all
    moreover have "append_rest (as @ bs) s1 (rest_end (as @ bs) (shift_parser ?k p2) s1) u1 = append_rest bs 0 (rest_end bs p2 0) ?u"
      unfolding rest_end_shift(2) [OF push_grounded [OF p2] s1] append_rest_join [OF s1] ..
    ultimately show ?thesis using t1(2) t2 n by (simp add: core_parser)
  next
    case (Cons e es)
    have j2: "track_events plain (as @ bs) s1 (map ?f e2) u1 = (?k + s2, u2, d2)"
    proof (cases "s1 < ?k")
      case True
      then show ?thesis using track_joined [OF s1, of plain bs e es u1] r2 Cons by (simp only: append_rest_def) simp
    next
      case False
      then have "s1 = ?k + 0" "?u = u1" using s1 by (simp_all add: append_rest_def)
      then show ?thesis using track_second [of plain as bs 0 e2 u1] r2 by simp
    qed
    then have "track_events plain (as @ bs) 0 (e1 @ map ?f e2) t = (?k + s2, u2, d1 @ d2)" using r1' by (simp add: track_append)
    then have "t' = (append_rest (as @ bs) (?k + s2) (rest_end (as @ bs) (shift_parser ?k p2) (?k + s2)) u2)\<lparr>tr_parser := shift_parser ?k p2\<rparr>" "cs = d1 @ d2"
      using tracker_push_eq [OF j(1), of plain "?k + s2" u2 "d1 @ d2"] assms(4) by simp_all
    then show ?thesis using t1(2) t2 by (simp add: rest_end_shift(1) append_rest_second core_parser)
  qed
qed

abbreviation osc :: "string \<Rightarrow> string" where
  "osc payload \<equiv> [ESC, CHR '']''] @ payload @ [BEL]"

theorem captures_at_cut_witness:
  "\<exists>t1 c1 t2 c2 t' cs. tracker_push id (osc ''133;C'' @ ''x'') Tracker_new = (t1, c1) \<and> tracker_push id (''y'' @ osc ''133;D;0;history_id=h'') t1 = (t2, c2)
    \<and> tracker_push id ((osc ''133;C'' @ ''x'') @ ''y'' @ osc ''133;D;0;history_id=h'') Tracker_new = (t', cs) \<and> cs = c1 @ c2"
proof -
  obtain t1 c1 where a: "tracker_push id (osc ''133;C'' @ ''x'') Tracker_new = (t1, c1)" by fastforce
  obtain t2 c2 where b: "tracker_push id (''y'' @ osc ''133;D;0;history_id=h'') t1 = (t2, c2)" by fastforce
  obtain t' cs where c: "tracker_push id ((osc ''133;C'' @ ''x'') @ ''y'' @ osc ''133;D;0;history_id=h'') Tracker_new = (t', cs)" by fastforce
  have "osc_state (fst (push_located (osc ''133;C'' @ ''x'') (tr_parser Tracker_new))) = Ground" by code_simp
  then show ?thesis using captures_at_cut [OF _ a b c] a b c by blast
qed

lemma title_events:
  "push_located (osc ''133;C'' @ ''x'' @ osc ''0;title'' @ osc ''133;D;0;history_id=h'') Parser_new =
     (\<lparr>osc_state = Ground, osc_zone = ZUnknown, sequence_start = None, param_buf = ''133;D;0;history_id=h''\<rparr>,
      [\<lparr>le_event = CommandExecuted, start_offset = 0, end_offset = 8, le_zone = ZOutput, le_params = []\<rparr>,
       \<lparr>le_event = CommandFinished (Some 0), start_offset = 19, end_offset = 42, le_zone = ZUnknown, le_params = [PKeyValue ''history_id'' ''h'']\<rparr>])"
  "push_located (osc ''133;C'' @ ''x'' @ [ESC, CHR '']''] @ ''0;ti'') Parser_new =
     (\<lparr>osc_state = OscParam, osc_zone = ZOutput, sequence_start = Some 9, param_buf = ''0;ti''\<rparr>,
      [\<lparr>le_event = CommandExecuted, start_offset = 0, end_offset = 8, le_zone = ZOutput, le_params = []\<rparr>])"
  "push_located (''tle'' @ [BEL] @ osc ''133;D;0;history_id=h'') \<lparr>osc_state = OscParam, osc_zone = ZOutput, sequence_start = Some 9, param_buf = ''0;ti''\<rparr> =
     (\<lparr>osc_state = Ground, osc_zone = ZUnknown, sequence_start = None, param_buf = ''133;D;0;history_id=h''\<rparr>,
      [\<lparr>le_event = CommandFinished (Some 0), start_offset = 4, end_offset = 27, le_zone = ZUnknown, le_params = [PKeyValue ''history_id'' ''h'']\<rparr>])"
  by code_simp+

lemmas capture_eval = tracker_push_def title_events [simplified] Tracker_new_def append_data_def append_output_def MAX_OUTPUT_CAPTURE_BYTES_def handle_event_def
  finish_capture_def trim_line_ends_def no_buffers_def data_slice_def incomplete_osc_sequence_start_def Let_def

text \<open>
  When a chunk ends inside another escape sequence, here a window title, the part of it in the first chunk is left out and its rest is
  taken for output of the command: \<open>tle\<close> is captured although it is never shown.
\<close>

theorem cut_title_captured:
  "map cap_output (snd (tracker_push id (osc ''133;C'' @ ''x'' @ osc ''0;title'' @ osc ''133;D;0;history_id=h'') Tracker_new)) = [''x'' @ osc ''0;title'']
    \<and> map cap_output (snd (tracker_push id (''tle'' @ [BEL] @ osc ''133;D;0;history_id=h'')
     (fst (tracker_push id (osc ''133;C'' @ ''x'' @ [ESC, CHR '']''] @ ''0;ti'') Tracker_new)))) = [''xtle'' @ [BEL]]"
  by (intro conjI; simp add: capture_eval)

text \<open>
  A marker that follows a sequence without its terminator is lost, although the escape character ends that sequence.
\<close>

theorem marker_after_open_sequence_lost: "snd (push_located ([ESC, CHR '']''] @ ''0;title'' @ osc ''133;A'') Parser_new) = []"
  by code_simp

section \<open>Exit codes\<close>

declare show_nat.simps [simp del]

lemma digits_value_snoc: "digits_value acc (xs @ [c]) = (case digits_value acc xs of None \<Rightarrow> None | Some v \<Rightarrow> map_option (\<lambda>d. 10 * v + d) (digit_value c))"
  by (induction xs arbitrary: acc) (auto split: option.splits)

lemma digit_value_char: "d < 10 \<Longrightarrow> digit_value (char_of (48 + d)) = Some d"
  by (simp add: digit_value_def in_range_def)

lemma show_nat_value: "digits_value 0 (show_nat n) = Some n"
proof (induction n rule: show_nat.induct)
  case (1 n)
  show ?case
  proof (cases "n < 10")
    case True
    then show ?thesis using digit_value_char [OF True] by (simp add: show_nat.simps [of n])
  next
    case False
    then have "show_nat n = show_nat (n div 10) @ [char_of (48 + n mod 10)]" by (simp add: show_nat.simps [of n])
    then show ?thesis using 1 [OF False] digit_value_char [of "n mod 10"] by (simp add: digits_value_snoc)
  qed
qed

lemma show_nat_digits: "c \<in> set (show_nat n) \<Longrightarrow> in_range 48 57 c"
proof (induction n rule: show_nat.induct)
  case (1 n)
  then show ?case by (cases "n < 10") (auto simp: show_nat.simps [of n] in_range_def)
qed

lemma show_nat_not_Nil: "show_nat n \<noteq> []"
  by (simp add: show_nat.simps [of n])

lemma parse_show_i32: "- (2 ^ 31) \<le> i \<Longrightarrow> i < 2 ^ 31 \<Longrightarrow> parse_i32 (show_int i) = Some i"
proof -
  assume r: "- (2 ^ 31) \<le> i" "i < 2 ^ 31"
  show ?thesis
  proof (cases "i < 0")
    case True
    then show ?thesis using r show_nat_value [of "nat (- i)"] show_nat_not_Nil [of "nat (- i)"] by (simp add: parse_i32_def show_int_def)
  next
    case False
    obtain c cs where cs: "show_nat (nat i) = c # cs" using show_nat_not_Nil by (cases "show_nat (nat i)") auto
    have "in_range 48 57 c" using show_nat_digits [of c "nat i"] cs by simp
    then have "c \<noteq> CHR ''-''" "c \<noteq> CHR ''+''" by (auto simp: in_range_def)
    then show ?thesis using r False cs show_nat_value [of "nat i"] by (simp add: parse_i32_def show_int_def)
  qed
qed

lemma show_int_plain: "c \<in> set (show_int i) \<Longrightarrow> c = CHR ''-'' \<or> in_range 48 57 c"
  by (auto simp: show_int_def split: if_splits dest: show_nat_digits)

lemma utf8_valid_ascii: "list_all (in_range 0 127) xs \<Longrightarrow> utf8_valid (xs @ ys) = utf8_valid ys"
proof (induction xs)
  case (Cons x xs)
  then have "utf8_len (x # xs @ ys) = Some 1" by simp
  then show ?case using Cons by (simp add: utf8_valid.simps [of "x # xs @ ys"])
qed simp

lemma lossy_valid: "utf8_valid s \<Longrightarrow> from_utf8_lossy s = s"
proof (induction s rule: utf8_valid.induct)
  case (1 s)
  show ?case
  proof (cases "s = []")
    case False
    then obtain n where n: "utf8_len s = Some n" "utf8_valid (drop n s)" using 1(2) by (auto simp: utf8_valid.simps [of s] split: option.splits)
    then show ?thesis using 1(1) [OF False n(1)] False by (simp add: from_utf8_lossy.simps [of s])
  qed (simp add: from_utf8_lossy.simps)
qed

lemma split_once_first: "c \<notin> set xs \<Longrightarrow> split_once c (xs @ c # ys) = Some (xs, ys)"
  by (induction xs) auto

lemma key_param:
  assumes "utf8_valid v" "list_all (in_range 0 127) key" "CHR ''='' \<notin> set key"
  shows "parse_param (key @ CHR ''='' # v) = PKeyValue key v"
proof -
  have "utf8_valid ((key @ ''='') @ v)" using assms(1,2) by (subst utf8_valid_ascii) (simp_all add: in_range_def)
  then have "from_utf8_lossy (key @ CHR ''='' # v) = key @ CHR ''='' # v" using lossy_valid by simp
  then show ?thesis using split_once_first [OF assms(3), of v] by (simp add: parse_param_def)
qed

text \<open>
  The end marker of the shell integration reads back: the exit code, printed in decimal, the history id and the session id, for all exit codes
  of 32 bits and all ids that are UTF-8 without a semicolon.
\<close>

theorem finish_marker_reads:
  assumes "- (2 ^ 31) \<le> code" "code < 2 ^ 31" "utf8_valid h" "utf8_valid sess" "CHR '';'' \<notin> set h" "CHR '';'' \<notin> set sess"
  shows "payload_event (''133;D;'' @ show_int code @ '';history_id='' @ h @ '';session_id='' @ sess) =
    Some (CommandFinished (Some code), [PKeyValue ''history_id'' h, PKeyValue ''session_id'' sess], ZUnknown)"
proof -
  let ?sep = "\<lambda>c. c = CHR '';''"
  let ?rest = "''history_id='' @ h @ '';session_id='' @ sess"
  have int: "CHR '';'' \<notin> set (show_int code)" "show_int code \<noteq> []" using show_int_plain [of "CHR '';''" code] show_nat_not_Nil by (auto simp: in_range_def show_int_def)
  have "in_range 0 127 c" if "c \<in> set (show_int code)" for c using show_int_plain [OF that] by (auto simp: in_range_def)
  then have "list_all (in_range 0 127) (show_int code)" by (simp add: list_all_iff)
  then have "utf8_valid (show_int code)" using utf8_valid_ascii [of "show_int code" "[]"] by (simp add: utf8_valid.simps [of "[]"])
  then have code: "parse_exit_code (show_int code) = Some code" using parse_show_i32 [OF assms(1,2)] int(2) by (simp add: parse_exit_code_def from_utf8_def)
  have free: "list_all (\<lambda>c. \<not> ?sep c) (''history_id='' @ h)" "list_all (\<lambda>c. \<not> ?sep c) (''session_id='' @ sess)" using assms(5,6) by (auto simp: list_all_iff)
  have "?rest = (''history_id='' @ h) @ CHR '';'' # ''session_id='' @ sess" by simp
  then have split: "split_on ?sep ?rest = [''history_id='' @ h, ''session_id='' @ sess]"
    using split_on_append [of ?sep "CHR '';''" "''history_id='' @ h" "''session_id='' @ sess"] split_on_single [OF free(1)] split_on_single [OF free(2)]
    by (simp only: append.simps)
  have "parse_params ?rest = [PKeyValue ''history_id'' h, PKeyValue ''session_id'' sess]"
    using key_param [OF assms(3), of "''history_id''"] key_param [OF assms(4), of "''session_id''"] unfolding parse_params_def split by (simp add: in_range_def)
  moreover have "split_once (CHR '';'') (show_int code @ CHR '';'' # ?rest) = Some (show_int code, ?rest)" by (rule split_once_first [OF int(1)])
  ultimately show ?thesis using code int(2) by (simp add: payload_event_def parse_command_finished_params_def del: split_once.simps)
qed

theorem finish_marker_reads_witness:
  "payload_event (''133;D;'' @ show_int 127 @ '';history_id='' @ ''a'' @ '';session_id='' @ ''b'') =
    Some (CommandFinished (Some 127), [PKeyValue ''history_id'' ''a'', PKeyValue ''session_id'' ''b''], ZUnknown)"
  using finish_marker_reads [of 127 "''a''" "''b''"] by (simp add: utf8_valid.simps in_range_def)

end
