(* ===== verification/Scripts.thy ===== *)
theory Scripts
  imports Tagged_Store
begin

text \<open>
  Stored scripts, \<open>atuin-scripts\<close>: scripts and their encoding (\<open>store/script.rs\<close>), the records of the log (\<open>store/record.rs\<close>), the
  tables (\<open>database.rs\<close> with its migrations) and the store over both (\<open>store.rs\<close>).

  The text form of an id (the uuid package) is a parameter. Decoding a script unwraps its reads, so that a
  malformed script is a panic, told apart from an error.

  Shown: scripts and log records read back, with the tags in order; appending an operation appends it to the log that is replayed; a rebuild of the tables
  is the replay of the log as long as names do not collide; when a log renames a script to a name in use, as two hosts can
  do independently, the rebuild fails there and leaves the tables half built; one malformed script in the log makes every rebuild panic.
\<close>

section \<open>Scripts\<close>

record uuid_env =
  uuid_show :: "uuid \<Rightarrow> string"
  uuid_read :: "string \<Rightarrow> uuid option"

record script =
  script_id :: uuid
  script_name :: string
  script_description :: string
  script_shebang :: string
  script_tags :: "string list"
  script_body :: string

datatype script_failure = Skips op_error | Panics

definition script_serialize :: "rmp \<Rightarrow> uuid_env \<Rightarrow> script \<Rightarrow> EncodeError + bytes" where
  "script_serialize R U s =
     (let tags = sort (script_tags s)
      in then_write (Inr (w_array_len R 6))
           (then_write (w_str R (uuid_show U (script_id s)))
             (then_write (w_str R (script_name s))
               (then_write (w_str R (script_description s))
                 (then_write (w_str R (script_shebang s))
                   (then_write (Inr (w_array_len R (length (script_tags s) mod 2 ^ 32)))
                     (foldr (\<lambda>tag rest. then_write (w_str R tag) rest) tags (w_str R (script_body s)))))))))"

text \<open>A read that is unwrapped.\<close>

definition unwrapped :: "'a reader \<Rightarrow> ('a \<Rightarrow> bytes \<Rightarrow> script_failure + 'b) \<Rightarrow> bytes \<Rightarrow> script_failure + 'b" where
  "unwrapped read k bs = (case read bs of (Inl _, _) \<Rightarrow> Inl Panics | (Inr x, rest) \<Rightarrow> k x rest)"

definition script_deserialize :: "rmp \<Rightarrow> uuid_env \<Rightarrow> bytes \<Rightarrow> script_failure + script" where
  "script_deserialize R U =
     unwrapped (r_array_len R) (\<lambda>nfields bs.
       if nfields \<noteq> 6 then Inl (Skips (Malformed ''too many entries in v0 script record''))
       else unwrapped (read_slice R) (\<lambda>sid. unwrapped (read_slice R) (\<lambda>name. unwrapped (read_slice R) (\<lambda>description. unwrapped (read_slice R) (\<lambda>shebang.
         unwrapped (r_array_len R) (\<lambda>tags_len. unwrapped (read_n tags_len (read_slice R)) (\<lambda>tags. unwrapped (read_slice R) (\<lambda>body bs.
           if bs \<noteq> [] then Inl (Skips (Malformed ''trailing bytes in encoded script record. malformed''))
           else (case uuid_read U sid of
                   None \<Rightarrow> Inl Panics
                 | Some i \<Rightarrow> Inr \<lparr>script_id = i, script_name = name, script_description = description, script_shebang = shebang,
                     script_tags = tags, script_body = body\<rparr>)))))))) bs)"

section \<open>Records\<close>

datatype ScriptRecord = CreateScript script | UpdateScript script | DeleteScript uuid

definition write_bin :: "rmp \<Rightarrow> bytes \<Rightarrow> bytes" where
  "write_bin R bs = w_bin_len R (length bs mod 2 ^ 32) @ bs"

definition script_record_serialize :: "rmp \<Rightarrow> uuid_env \<Rightarrow> ScriptRecord \<Rightarrow> EncodeError + bytes" where
  "script_record_serialize R U r =
     (case r of
        CreateScript s \<Rightarrow> then_write (Inr (w_u8 R 0)) (case script_serialize R U s of Inl e \<Rightarrow> Inl e | Inr bs \<Rightarrow> Inr (write_bin R bs))
      | DeleteScript i \<Rightarrow> then_write (Inr (w_u8 R 1)) (w_str R (uuid_show U i))
      | UpdateScript s \<Rightarrow> then_write (Inr (w_u8 R 2)) (case script_serialize R U s of Inl e \<Rightarrow> Inl e | Inr bs \<Rightarrow> Inr (write_bin R bs)))"

definition read_script :: "rmp \<Rightarrow> uuid_env \<Rightarrow> bytes \<Rightarrow> script_failure + script" where
  "read_script R U bs = (case r_bin_len R bs of (Inl e, _) \<Rightarrow> Inl (Skips (Undecodable e)) | (Inr _, rest) \<Rightarrow> script_deserialize R U rest)"

definition script_record_deserialize :: "rmp \<Rightarrow> uuid_env \<Rightarrow> bytes \<Rightarrow> RecordVersion \<Rightarrow> script_failure + ScriptRecord" where
  "script_record_deserialize R U bs version =
     (if version \<noteq> V0 then Inl (Skips (Malformed ''unknown script record version''))
      else (case r_u8 R bs of
        (Inl e, _) \<Rightarrow> Inl (Skips (Undecodable e))
      | (Inr record_type, rest) \<Rightarrow>
          if record_type = 0 then map_sum id CreateScript (read_script R U rest)
          else if record_type = 1 then
            (case read_slice R rest of
               (Inl e, _) \<Rightarrow> Inl (Skips (Undecodable e))
             | (Inr sid, _) \<Rightarrow> (case uuid_read U sid of None \<Rightarrow> Inl (Skips (Malformed ''invalid uuid'')) | Some i \<Rightarrow> Inr (DeleteScript i)))
          else if record_type = 2 then map_sum id UpdateScript (read_script R U rest)
          else Inl (Skips (Malformed ''unknown script record type''))))"

section \<open>The tables\<close>

record script_row =
  sr_id :: string
  sr_name :: string
  sr_description :: string
  sr_shebang :: string
  sr_script :: string

record script_tables =
  t_scripts :: "script_row list"
  t_tags :: "(string \<times> string) list"

type_synonym 'a script_db_io = "(script_tables db, string, 'a) io"

definition script_row_of :: "uuid_env \<Rightarrow> script \<Rightarrow> script_row" where
  "script_row_of U s =
     \<lparr>sr_id = uuid_show U (script_id s), sr_name = script_name s, sr_description = script_description s, sr_shebang = script_shebang s,
      sr_script = script_body s\<rparr>"

text \<open>A statement that may violate a constraint.\<close>

definition sql_checked :: "('t \<Rightarrow> string + 't) \<Rightarrow> ('t db, string, unit) io" where
  "sql_checked f = bind_io (sql (\<lambda>t. case f t of Inl e \<Rightarrow> (Inl e, t) | Inr t' \<Rightarrow> (Inr (), t'))) lift_result"

definition insert_script :: "script_row \<Rightarrow> script_tables \<Rightarrow> script_tables" where
  "insert_script row t =
     (if list_ex (\<lambda>r. sr_id r = sr_id row \<or> sr_name r = sr_name row) (t_scripts t) then t else t\<lparr>t_scripts := t_scripts t @ [row]\<rparr>)"

definition insert_tag :: "string \<Rightarrow> string \<Rightarrow> script_tables \<Rightarrow> script_tables" where
  "insert_tag sid tag t = (if List.member (t_tags t) (sid, tag) then t else t\<lparr>t_tags := t_tags t @ [(sid, tag)]\<rparr>)"

definition update_script :: "script_row \<Rightarrow> script_tables \<Rightarrow> string + script_tables" where
  "update_script row t =
     (if list_ex (\<lambda>r. sr_id r = sr_id row) (t_scripts t) \<and> list_ex (\<lambda>r. sr_id r \<noteq> sr_id row \<and> sr_name r = sr_name row) (t_scripts t)
      then Inl ''UNIQUE constraint failed: scripts.name''
      else Inr (t\<lparr>t_scripts := map (\<lambda>r. if sr_id r = sr_id row then row else r) (t_scripts t)\<rparr>))"

definition sdb_save_raw :: "uuid_env \<Rightarrow> script \<Rightarrow> unit script_db_io" where
  "sdb_save_raw U s =
     bind_io (sql_exec (insert_script (script_row_of U s))) (\<lambda>_.
       for_each (\<lambda>tag. sql_exec (insert_tag (uuid_show U (script_id s)) tag)) (script_tags s))"

definition sdb_save :: "uuid_env \<Rightarrow> script \<Rightarrow> unit script_db_io" where
  "sdb_save U s = transaction (sdb_save_raw U s)"

definition sdb_save_bulk :: "uuid_env \<Rightarrow> script list \<Rightarrow> unit script_db_io" where
  "sdb_save_bulk U ss = (if ss = [] then ok_io () else transaction (for_each (sdb_save_raw U) ss))"

definition sdb_clear :: "unit script_db_io" where
  "sdb_clear = bind_io (sql_exec (\<lambda>t. t\<lparr>t_tags := []\<rparr>)) (\<lambda>_. sql_exec (\<lambda>t. t\<lparr>t_scripts := []\<rparr>))"

definition sdb_delete :: "string \<Rightarrow> unit script_db_io" where
  "sdb_delete sid =
     bind_io (sql_exec (\<lambda>t. t\<lparr>t_scripts := filter (\<lambda>r. sr_id r \<noteq> sid) (t_scripts t)\<rparr>)) (\<lambda>_.
       sql_exec (\<lambda>t. t\<lparr>t_tags := filter (\<lambda>(i, _). i \<noteq> sid) (t_tags t)\<rparr>))"

definition sdb_update :: "uuid_env \<Rightarrow> script \<Rightarrow> unit script_db_io" where
  "sdb_update U s =
     transaction
       (bind_io (sql_checked (update_script (script_row_of U s))) (\<lambda>_.
        bind_io (sql_exec (\<lambda>t. t\<lparr>t_tags := filter (\<lambda>(i, _). i \<noteq> uuid_show U (script_id s)) (t_tags t)\<rparr>)) (\<lambda>_.
          for_each (\<lambda>tag. sql_exec (insert_tag (uuid_show U (script_id s)) tag)) (script_tags s))))"

definition tags_of_row :: "script_tables \<Rightarrow> string \<Rightarrow> string list" where
  "tags_of_row t sid = map snd (filter (\<lambda>(i, _). i = sid) (t_tags t))"

text \<open>A row with a text that is no id is an error of the query.\<close>

definition script_from_row :: "uuid_env \<Rightarrow> script_row \<Rightarrow> string list \<Rightarrow> string + script" where
  "script_from_row U r tags =
     (case uuid_read U (sr_id r) of
        None \<Rightarrow> Inl ''invalid id''
      | Some i \<Rightarrow> Inr \<lparr>script_id = i, script_name = sr_name r, script_description = sr_description r, script_shebang = sr_shebang r,
          script_tags = tags, script_body = sr_script r\<rparr>)"

primrec read_rows :: "uuid_env \<Rightarrow> script_row list \<Rightarrow> string + script list" where
  "read_rows U [] = Inr []"
| "read_rows U (r # rs) =
     (case script_from_row U r [] of
        Inl e \<Rightarrow> Inl e
      | Inr s \<Rightarrow> (case read_rows U rs of Inl e \<Rightarrow> Inl e | Inr ss \<Rightarrow> Inr (s # ss)))"

definition with_tags :: "uuid_env \<Rightarrow> script \<Rightarrow> script script_db_io" where
  "with_tags U s = bind_io (sql_query (\<lambda>t. tags_of_row t (uuid_show U (script_id s)))) (\<lambda>tags. ok_io (s\<lparr>script_tags := tags\<rparr>))"

definition sdb_get_by_name :: "uuid_env \<Rightarrow> string \<Rightarrow> script option script_db_io" where
  "sdb_get_by_name U name =
     bind_io (sql_query (\<lambda>t. find (\<lambda>r. sr_name r = name) (t_scripts t))) (\<lambda>row.
       case row of
         None \<Rightarrow> ok_io None
       | Some r \<Rightarrow> bind_io (lift_result (script_from_row U r [])) (\<lambda>s. bind_io (with_tags U s) (\<lambda>s. ok_io (Some s))))"

primrec collect_scripts :: "uuid_env \<Rightarrow> script list \<Rightarrow> script list script_db_io" where
  "collect_scripts U [] = ok_io []"
| "collect_scripts U (s # ss) = bind_io (with_tags U s) (\<lambda>s. bind_io (collect_scripts U ss) (\<lambda>ss. ok_io (s # ss)))"

definition sdb_list :: "uuid_env \<Rightarrow> script list script_db_io" where
  "sdb_list U = bind_io (sql_query t_scripts) (\<lambda>rows. bind_io (lift_result (read_rows U rows)) (collect_scripts U))"

section \<open>The store\<close>

record script_world =
  sw_records :: store
  sw_db :: "script_tables db"

type_synonym 'a script_io = "(script_world, op_error, 'a) io"

definition script_push_record :: "client \<Rightarrow> uuid_env \<Rightarrow> fresh \<Rightarrow> ScriptRecord \<Rightarrow> (store, op_error, RecordId \<times> RecordIdx) io" where
  "script_push_record C U fr r =
     bind_io (lift_result (case script_record_serialize (c_rmp C) U r of Inl e \<Rightarrow> Inl (Unserializable e) | Inr b \<Rightarrow> Inr b)) (\<lambda>bs.
       append_tagged C Script V0 fr bs)"

definition script_create :: "client \<Rightarrow> uuid_env \<Rightarrow> fresh \<Rightarrow> script \<Rightarrow> (store, op_error, unit) io" where
  "script_create C U fr s = bind_io (script_push_record C U fr (CreateScript s)) (\<lambda>_. ok_io ())"

definition script_update :: "client \<Rightarrow> uuid_env \<Rightarrow> fresh \<Rightarrow> script \<Rightarrow> (store, op_error, unit) io" where
  "script_update C U fr s = bind_io (script_push_record C U fr (UpdateScript s)) (\<lambda>_. ok_io ())"

definition script_delete :: "client \<Rightarrow> uuid_env \<Rightarrow> fresh \<Rightarrow> uuid \<Rightarrow> (store, op_error, unit) io" where
  "script_delete C U fr i = bind_io (script_push_record C U fr (DeleteScript i)) (\<lambda>_. ok_io ())"

definition script_decode :: "uuid_env \<Rightarrow> client \<Rightarrow> EncryptedRecord \<Rightarrow> script_failure + ScriptRecord" where
  "script_decode U C r =
     (if rec_version r = V0
      then (case decrypt (c_prims C) (c_json C) r (c_key C) of
              Inl e \<Rightarrow> Inl (Skips (CannotDecrypt e))
            | Inr x \<Rightarrow> script_record_deserialize (c_rmp C) U (rec_data x) V0)
      else Inl (Skips (Malformed ''unknown script version'')))"

text \<open>The decoded records; \<open>None\<close>: a panic.\<close>

fun decode_all :: "uuid_env \<Rightarrow> client \<Rightarrow> EncryptedRecord list \<Rightarrow> ScriptRecord list option" where
  "decode_all U C [] = Some []"
| "decode_all U C (r # rs) =
     (case script_decode U C r of
        Inl Panics \<Rightarrow> None
      | Inl (Skips _) \<Rightarrow> decode_all U C rs
      | Inr x \<Rightarrow> map_option (\<lambda>xs. x # xs) (decode_all U C rs))"

definition script_records :: "client \<Rightarrow> uuid_env \<Rightarrow> (store, op_error, ScriptRecord list option) io" where
  "script_records C U = bind_io (map_err StoreFailed (all_tagged Script)) (\<lambda>records. ok_io (decode_all U C records))"

fun apply_script :: "uuid_env \<Rightarrow> ScriptRecord \<Rightarrow> unit script_db_io" where
  "apply_script U (CreateScript s) = sdb_save U s"
| "apply_script U (UpdateScript s) = sdb_update U s"
| "apply_script U (DeleteScript i) = sdb_delete (uuid_show U i)"

definition on_script_db :: "'a script_db_io \<Rightarrow> 'a script_io" where
  "on_script_db m = zoom sw_db (\<lambda>s w. w\<lparr>sw_db := s\<rparr>) (map_err DbFailed m)"

definition script_build :: "client \<Rightarrow> uuid_env \<Rightarrow> unit option script_io" where
  "script_build C U =
     bind_io (on_script_db sdb_clear) (\<lambda>_.
     bind_io (zoom sw_records (\<lambda>s w. w\<lparr>sw_records := s\<rparr>) (script_records C U)) (\<lambda>scripts.
       case scripts of
         None \<Rightarrow> ok_io None
       | Some ops \<Rightarrow> bind_io (on_script_db (for_each (apply_script U) ops)) (\<lambda>_. ok_io (Some ()))))"

section \<open>The log reads back\<close>

definition uuid_ok :: "uuid_env \<Rightarrow> bool" where
  "uuid_ok U \<longleftrightarrow> (\<forall>u. uuid_read U (uuid_show U u) = Some u \<and> length (uuid_show U u) < 2 ^ 32)"

definition script_small :: "script \<Rightarrow> bool" where
  "script_small s \<longleftrightarrow> length (script_name s) < 2 ^ 32 \<and> length (script_description s) < 2 ^ 32 \<and> length (script_shebang s) < 2 ^ 32
     \<and> length (script_body s) < 2 ^ 32 \<and> length (script_tags s) < 2 ^ 32 \<and> (\<forall>tag \<in> set (script_tags s). length tag < 2 ^ 32)"

lemma uuid_showD: "uuid_ok U \<Longrightarrow> uuid_read U (uuid_show U u) = Some u" "uuid_ok U \<Longrightarrow> length (uuid_show U u) < 2 ^ 32"
  by (auto simp: uuid_ok_def)

lemma uuid_show_inj: "uuid_ok U \<Longrightarrow> uuid_show U a = uuid_show U b \<longleftrightarrow> a = b"
  by (metis option.inject uuid_showD(1))

lemma then_write_Inr: "then_write (Inr a) (Inr b) = Inr (a @ b)"
  by (simp add: then_write_def)

lemma write_tags:
  assumes "rmp_ok R" "\<forall>tag \<in> set tags. length tag < 2 ^ 32"
  shows "\<exists>b. foldr (\<lambda>tag rest. then_write (w_str R tag) rest) tags (Inr fin) = Inr (b @ fin)
    \<and> (\<forall>rest. read_n (length tags) (read_slice R) (b @ rest) = (Inr tags, rest))"
  using assms(2)
proof (induction tags)
  case (Cons tag tags)
  obtain bt where bt: "w_str R tag = Inr bt" "\<And>rest. read_slice R (bt @ rest) = (Inr tag, rest)"
    using Cons.prems by (auto intro: read_slice_codecE [OF assms(1)])
  obtain b where b: "foldr (\<lambda>tag rest. then_write (w_str R tag) rest) tags (Inr fin) = Inr (b @ fin)"
    "\<forall>rest. read_n (length tags) (read_slice R) (b @ rest) = (Inr tags, rest)" using Cons by auto
  then show ?case using bt by (intro exI [of _ "bt @ b"]) (simp add: then_write_def bind_io_def ok_io_def)
qed (simp add: ok_io_def)

lemma script_roundtrip:
  assumes R: "rmp_ok R" and U: "uuid_ok U" and s: "script_small s"
  shows "\<exists>b. script_serialize R U s = Inr b \<and> script_deserialize R U b = Inr (s\<lparr>script_tags := sort (script_tags s)\<rparr>)"
proof -
  obtain bi where bi: "w_str R (uuid_show U (script_id s)) = Inr bi" "\<And>rest. read_slice R (bi @ rest) = (Inr (uuid_show U (script_id s)), rest)"
    using read_slice_codec [OF R uuid_showD(2) [OF U]] by blast
  obtain bn where bn: "w_str R (script_name s) = Inr bn" "\<And>rest. read_slice R (bn @ rest) = (Inr (script_name s), rest)"
    using s by (auto intro: read_slice_codecE [OF R] simp: script_small_def)
  obtain bd where bd: "w_str R (script_description s) = Inr bd" "\<And>rest. read_slice R (bd @ rest) = (Inr (script_description s), rest)"
    using s by (auto intro: read_slice_codecE [OF R] simp: script_small_def)
  obtain bh where bh: "w_str R (script_shebang s) = Inr bh" "\<And>rest. read_slice R (bh @ rest) = (Inr (script_shebang s), rest)"
    using s by (auto intro: read_slice_codecE [OF R] simp: script_small_def)
  obtain bb where bb: "w_str R (script_body s) = Inr bb" "\<And>rest. read_slice R (bb @ rest) = (Inr (script_body s), rest)"
    using s by (auto intro: read_slice_codecE [OF R] simp: script_small_def)
  obtain bt where bt: "foldr (\<lambda>tag rest. then_write (w_str R tag) rest) (sort (script_tags s)) (Inr bb) = Inr (bt @ bb)"
    "\<forall>rest. read_n (length (script_tags s)) (read_slice R) (bt @ rest) = (Inr (sort (script_tags s)), rest)"
    using write_tags [OF R, of "sort (script_tags s)" bb] s by (auto simp: script_small_def)
  have len: "length (script_tags s) mod 4294967296 = length (script_tags s)" "length (script_tags s) < 4294967296" using s by (simp_all add: script_small_def)
  note w = bi bn bd bh bb bt
  let ?b = "w_array_len R 6 @ bi @ bn @ bd @ bh @ w_array_len R (length (script_tags s)) @ bt @ bb"
  have "script_serialize R U s = Inr ?b" using w by (simp add: script_serialize_def then_write_Inr Let_def len)
  moreover have "read_slice R bb = (Inr (script_body s), [])" using bb(2) [of "[]"] by simp
  then have "script_deserialize R U ?b = Inr (s\<lparr>script_tags := sort (script_tags s)\<rparr>)"
    using w uuid_showD(1) [OF U] by (simp add: script_deserialize_def unwrapped_def rmp_okD(7) [OF R] len(2))
  ultimately show ?thesis by blast
qed

fun ordered_tags :: "ScriptRecord \<Rightarrow> ScriptRecord" where
  "ordered_tags (CreateScript s) = CreateScript (s\<lparr>script_tags := sort (script_tags s)\<rparr>)"
| "ordered_tags (UpdateScript s) = UpdateScript (s\<lparr>script_tags := sort (script_tags s)\<rparr>)"
| "ordered_tags (DeleteScript i) = DeleteScript i"

fun record_small :: "ScriptRecord \<Rightarrow> bool" where
  "record_small (CreateScript s) \<longleftrightarrow> script_small s"
| "record_small (UpdateScript s) \<longleftrightarrow> script_small s"
| "record_small (DeleteScript i) \<longleftrightarrow> True"

lemma record_roundtrip:
  assumes R: "rmp_ok R" and U: "uuid_ok U" and r: "record_small r"
  shows "\<exists>b. script_record_serialize R U r = Inr b \<and> script_record_deserialize R U b V0 = Inr (ordered_tags r)"
proof -
  have bin: "r_bin_len R (w_bin_len R (length b mod 2 ^ 32) @ b) = (Inr (length b mod 2 ^ 32), b)" for b using rmp_okD(8) [OF R, of "length b mod 2 ^ 32" b] by simp
  have u8: "r_u8 R (w_u8 R n @ rest) = (Inr n, rest)" if "n < 3" for n rest using rmp_okD(3) [OF R, of n rest] that by simp
  show ?thesis
  proof (cases r)
    case (CreateScript s)
    obtain b where b: "script_serialize R U s = Inr b" "script_deserialize R U b = Inr (s\<lparr>script_tags := sort (script_tags s)\<rparr>)"
      using script_roundtrip [OF R U, of s] r CreateScript by auto
    then show ?thesis using CreateScript u8 [of 0] bin [of b]
      by (simp add: script_record_serialize_def then_write_def write_bin_def script_record_deserialize_def read_script_def)
  next
    case (UpdateScript s)
    obtain b where b: "script_serialize R U s = Inr b" "script_deserialize R U b = Inr (s\<lparr>script_tags := sort (script_tags s)\<rparr>)"
      using script_roundtrip [OF R U, of s] r UpdateScript by auto
    then show ?thesis using UpdateScript u8 [of 2] bin [of b]
      by (simp add: script_record_serialize_def then_write_def write_bin_def script_record_deserialize_def read_script_def)
  next
    case (DeleteScript i)
    obtain b where b: "w_str R (uuid_show U i) = Inr b" "\<And>rest. read_slice R (b @ rest) = (Inr (uuid_show U i), rest)"
      using read_slice_codec [OF R uuid_showD(2) [OF U]] by blast
    then show ?thesis using DeleteScript u8 [of 1] b(2) [of "[]"] uuid_showD(1) [OF U]
      by (simp add: script_record_serialize_def then_write_def script_record_deserialize_def)
  qed
qed

interpretation script_log: op_log "\<lambda>C. script_record_serialize (c_rmp C) U" "script_decode U" V0 Script
    "\<lambda>r. uuid_ok U \<and> record_small r \<and> ordered_tags r = r" for U
proof unfold_locales
  fix C :: client and x assume "rmp_ok (c_rmp C)" "uuid_ok U \<and> record_small x \<and> ordered_tags x = x"
  then obtain b where "script_record_serialize (c_rmp C) U x = Inr b" "script_record_deserialize (c_rmp C) U b V0 = Inr x"
    using record_roundtrip by metis
  then show "\<exists>b. script_record_serialize (c_rmp C) U x = Inr b
      \<and> (\<forall>r y. decrypt (c_prims C) (c_json C) r (c_key C) = Inr y \<longrightarrow> rec_version r = V0 \<longrightarrow> rec_version y = V0 \<longrightarrow>
          rec_data y = b \<longrightarrow> script_decode U C r = Inr x)"
    by (auto simp: script_decode_def)
qed simp_all

section \<open>Replay\<close>

type_synonym script_map = "uuid \<Rightarrow> script option"

fun script_apply :: "ScriptRecord \<Rightarrow> script_map \<Rightarrow> script_map" where
  "script_apply (CreateScript s) m = m(script_id s \<mapsto> s)"
| "script_apply (UpdateScript s) m = m(script_id s \<mapsto> s)"
| "script_apply (DeleteScript i) m = m(i := None)"

definition name_used :: "script_map \<Rightarrow> uuid \<Rightarrow> string \<Rightarrow> bool" where
  "name_used m i name \<longleftrightarrow> (\<exists>j s. j \<noteq> i \<and> m j = Some s \<and> script_name s = name)"

text \<open>An operation whose script and name fit in.\<close>

fun script_fits :: "ScriptRecord \<Rightarrow> script_map \<Rightarrow> bool" where
  "script_fits (CreateScript s) m \<longleftrightarrow> m (script_id s) = None \<and> \<not> name_used m (script_id s) (script_name s)"
| "script_fits (UpdateScript s) m \<longleftrightarrow> m (script_id s) \<noteq> None \<and> \<not> name_used m (script_id s) (script_name s)"
| "script_fits (DeleteScript i) m \<longleftrightarrow> True"

fun all_fit :: "ScriptRecord list \<Rightarrow> script_map \<Rightarrow> bool" where
  "all_fit [] m \<longleftrightarrow> True"
| "all_fit (r # rs) m \<longleftrightarrow> script_fits r m \<and> all_fit rs (script_apply r m)"

abbreviation script_replay :: "ScriptRecord list \<Rightarrow> script_map \<Rightarrow> script_map" where
  "script_replay rs m \<equiv> fold script_apply rs m"

text \<open>The scripts a map holds, each under its own id.\<close>

definition held :: "script_map \<Rightarrow> script \<Rightarrow> bool" where
  "held m s \<longleftrightarrow> m (script_id s) = Some s"

definition well_keyed :: "script_map \<Rightarrow> bool" where
  "well_keyed m \<longleftrightarrow> (\<forall>i s. m i = Some s \<longrightarrow> script_id s = i)
     \<and> (\<forall>s s'. held m s \<longrightarrow> held m s' \<longrightarrow> script_name s = script_name s' \<longrightarrow> s = s')"

text \<open>The tables hold the scripts of a map.\<close>

definition script_rep :: "uuid_env \<Rightarrow> script_tables \<Rightarrow> script_map \<Rightarrow> bool" where
  "script_rep U t m \<longleftrightarrow> (\<forall>r. r \<in> set (t_scripts t) \<longleftrightarrow> (\<exists>s. held m s \<and> r = script_row_of U s))
     \<and> (\<forall>i tag. (i, tag) \<in> set (t_tags t) \<longleftrightarrow> (\<exists>s. held m s \<and> i = uuid_show U (script_id s) \<and> tag \<in> set (script_tags s)))"

lemma held_simps [simp]:
  "held Map.empty s \<longleftrightarrow> False"
  "held (m(script_id x \<mapsto> x)) s \<longleftrightarrow> s = x \<or> script_id s \<noteq> script_id x \<and> held m s"
  "held (m(i := None)) s \<longleftrightarrow> script_id s \<noteq> i \<and> held m s"
  by (auto simp: held_def)

lemma held_unique: "held m s \<Longrightarrow> held m s' \<Longrightarrow> script_id s' = script_id s \<Longrightarrow> s' = s"
  by (simp add: held_def)

lemma script_row_of_sel [simp]:
  "sr_id (script_row_of U s) = uuid_show U (script_id s)" "sr_name (script_row_of U s) = script_name s"
  by (simp_all add: script_row_of_def)

lemma name_used_held: "well_keyed m \<Longrightarrow> name_used m i name \<longleftrightarrow> (\<exists>s. held m s \<and> script_id s \<noteq> i \<and> script_name s = name)"
  by (auto simp: name_used_def well_keyed_def held_def)

lemma well_keyed_apply: "well_keyed m \<Longrightarrow> script_fits r m \<Longrightarrow> well_keyed (script_apply r m)"
proof (cases r)
  case (CreateScript s)
  assume m: "well_keyed m" "script_fits r m"
  then have "\<forall>x. held m x \<longrightarrow> script_id x \<noteq> script_id s \<longrightarrow> script_name x \<noteq> script_name s"
    using CreateScript name_used_held [OF m(1)] by auto
  with m(1) CreateScript show ?thesis by (simp add: well_keyed_def) metis
next
  case (UpdateScript s)
  assume m: "well_keyed m" "script_fits r m"
  then have "\<forall>x. held m x \<longrightarrow> script_id x \<noteq> script_id s \<longrightarrow> script_name x \<noteq> script_name s"
    using UpdateScript name_used_held [OF m(1)] by auto
  with m(1) UpdateScript show ?thesis by (simp add: well_keyed_def) metis
qed (simp add: well_keyed_def)

lemma insert_tags_set:
  "healthy d \<Longrightarrow> \<exists>t. for_each (\<lambda>tag. sql_exec (insert_tag i tag)) tags d = (Inr (), d\<lparr>tables := t\<rparr>)
     \<and> t_scripts t = t_scripts (tables d) \<and> set (t_tags t) = set (t_tags (tables d)) \<union> {i} \<times> set tags"
proof (induction tags arbitrary: d)
  case (Cons tag tags)
  let ?d = "d\<lparr>tables := insert_tag i tag (tables d)\<rparr>"
  obtain t where t: "for_each (\<lambda>tag. sql_exec (insert_tag i tag)) tags ?d = (Inr (), ?d\<lparr>tables := t\<rparr>)"
    "t_scripts t = t_scripts (tables ?d)" "set (t_tags t) = set (t_tags (tables ?d)) \<union> {i} \<times> set tags"
    using Cons.IH [of ?d] Cons.prems by auto
  have "set (t_tags (insert_tag i tag (tables d))) = insert (i, tag) (set (t_tags (tables d)))" "t_scripts (insert_tag i tag (tables d)) = t_scripts (tables d)"
    by (auto simp: insert_tag_def)
  then show ?case using t Cons.prems by (auto simp: bind_io_def sql_exec_healthy)
next
  case Nil
  then show ?case by (intro exI [of _ "tables d"]) (simp add: ok_io_def)
qed

lemma apply_create:
  assumes U: "uuid_ok U" and d: "healthy d" "script_rep U (tables d) m" "well_keyed m" and f: "script_fits (CreateScript s) m"
  shows "\<exists>t. sdb_save U s d = (Inr (), d\<lparr>tables := t\<rparr>) \<and> script_rep U t (script_apply (CreateScript s) m)"
proof -
  let ?i = "uuid_show U (script_id s)" and ?d = "d\<lparr>tables := insert_script (script_row_of U s) (tables d)\<rparr>"
  have other: "script_id x \<noteq> script_id s" "script_name x \<noteq> script_name s" if "held m x" for x
    using that f name_used_held [OF d(3)] by (auto simp: held_def)
  then have new: "\<not> list_ex (\<lambda>r. sr_id r = ?i \<or> sr_name r = script_name s) (t_scripts (tables d))"
    using d(2) by (auto simp: list_ex_iff script_rep_def uuid_show_inj [OF U])
  obtain t where t: "for_each (\<lambda>tag. sql_exec (insert_tag ?i tag)) (script_tags s) ?d = (Inr (), ?d\<lparr>tables := t\<rparr>)"
    "t_scripts t = t_scripts (tables ?d)" "set (t_tags t) = set (t_tags (tables ?d)) \<union> {?i} \<times> set (script_tags s)"
    using insert_tags_set [of ?d ?i "script_tags s"] d(1) by auto
  have "sdb_save_raw U s d = (Inr (), d\<lparr>tables := t\<rparr>)" using t(1) d(1) by (simp add: sdb_save_raw_def bind_io_def sql_exec_healthy)
  then have "sdb_save U s d = (Inr (), d\<lparr>tables := t\<rparr>)" unfolding sdb_save_def using d(1) by (intro transaction_healthy) simp_all
  moreover have "script_rep U t (m(script_id s \<mapsto> s))"
    using d(2) t(2,3) new other by (auto simp: script_rep_def insert_script_def)
  ultimately show ?thesis by auto
qed

lemma apply_update:
  assumes U: "uuid_ok U" and d: "healthy d" "script_rep U (tables d) m" "well_keyed m" and f: "script_fits (UpdateScript s) m"
  shows "\<exists>t. sdb_update U s d = (Inr (), d\<lparr>tables := t\<rparr>) \<and> script_rep U t (script_apply (UpdateScript s) m)"
proof -
  let ?i = "uuid_show U (script_id s)"
  let ?t = "(tables d)\<lparr>t_scripts := map (\<lambda>r. if sr_id r = ?i then script_row_of U s else r) (t_scripts (tables d))\<rparr>"
  let ?d = "d\<lparr>tables := ?t\<lparr>t_tags := filter (\<lambda>(i, _). i \<noteq> ?i) (t_tags (tables d))\<rparr>\<rparr>"
  have other: "script_name x \<noteq> script_name s" if "held m x" "script_id x \<noteq> script_id s" for x
    using that f name_used_held [OF d(3)] by auto
  then have upd: "update_script (script_row_of U s) (tables d) = Inr ?t"
    using d(2) by (auto simp: update_script_def list_ex_iff script_rep_def uuid_show_inj [OF U])
  obtain t where t: "for_each (\<lambda>tag. sql_exec (insert_tag ?i tag)) (script_tags s) ?d = (Inr (), ?d\<lparr>tables := t\<rparr>)"
    "t_scripts t = t_scripts (tables ?d)" "set (t_tags t) = set (t_tags (tables ?d)) \<union> {?i} \<times> set (script_tags s)"
    using insert_tags_set [of ?d ?i "script_tags s"] d(1) by auto
  have "sdb_update U s d = (Inr (), d\<lparr>tables := t\<rparr>)" unfolding sdb_update_def
    using d(1) t(1) upd by (intro transaction_healthy) (simp_all add: sql_checked_def bind_io_def sql_exec_healthy sql_healthy)
  moreover obtain x where x: "held m x" "script_id x = script_id s" using f d(3) by (auto simp: well_keyed_def held_def)
  have "script_rep U t (m(script_id s \<mapsto> s))"
    using d(2) t(2,3) x by (auto simp: script_rep_def uuid_show_inj [OF U] image_iff)
  ultimately show ?thesis by auto
qed

lemma apply_delete:
  assumes U: "uuid_ok U" and d: "healthy d" "script_rep U (tables d) m"
  shows "\<exists>t. sdb_delete (uuid_show U i) d = (Inr (), d\<lparr>tables := t\<rparr>) \<and> script_rep U t (script_apply (DeleteScript i) m)"
proof -
  let ?t = "(tables d)\<lparr>t_scripts := filter (\<lambda>r. sr_id r \<noteq> uuid_show U i) (t_scripts (tables d)),
    t_tags := filter (\<lambda>(j, _). j \<noteq> uuid_show U i) (t_tags (tables d))\<rparr>"
  have "sdb_delete (uuid_show U i) d = (Inr (), d\<lparr>tables := ?t\<rparr>)" using d(1) by (simp add: sdb_delete_def bind_io_def sql_exec_healthy)
  moreover have "script_rep U ?t (script_apply (DeleteScript i) m)" using d(2) by (auto simp: script_rep_def uuid_show_inj [OF U])
  ultimately show ?thesis by blast
qed

lemma apply_fits:
  assumes "uuid_ok U" "healthy d" "script_rep U (tables d) m" "well_keyed m" "script_fits r m"
  shows "\<exists>t. apply_script U r d = (Inr (), d\<lparr>tables := t\<rparr>) \<and> script_rep U t (script_apply r m)"
  using assms apply_create apply_update apply_delete by (cases r) (simp_all del: script_fits.simps script_apply.simps)

lemma apply_all:
  assumes "uuid_ok U" "healthy d" "script_rep U (tables d) m" "well_keyed m" "all_fit ops m"
  shows "\<exists>t. for_each (apply_script U) ops d = (Inr (), d\<lparr>tables := t\<rparr>) \<and> script_rep U t (script_replay ops m) \<and> well_keyed (script_replay ops m)"
  using assms(2-5)
proof (induction ops arbitrary: d m)
  case (Cons r ops)
  obtain t where t: "apply_script U r d = (Inr (), d\<lparr>tables := t\<rparr>)" "script_rep U t (script_apply r m)"
    using apply_fits [OF assms(1)] Cons.prems by (metis all_fit.simps(2))
  with Cons.IH [of "d\<lparr>tables := t\<rparr>" "script_apply r m"] Cons.prems well_keyed_apply show ?case by (auto simp: bind_io_def)
next
  case Nil
  then show ?case by (intro exI [of _ "tables d"]) (simp add: ok_io_def)
qed

section \<open>Rebuilding\<close>

definition script_ready :: "script_world \<Rightarrow> bool" where
  "script_ready w \<longleftrightarrow> healthy (sw_records w) \<and> healthy (sw_db w)"

text \<open>The operations of the log, oldest first; \<open>None\<close>: decoding them panics.\<close>

definition script_ops :: "client \<Rightarrow> uuid_env \<Rightarrow> script_world \<Rightarrow> ScriptRecord list option" where
  "script_ops C U w = decode_all U C (map from_row (tagged_rows Script (tables (sw_records w))))"

lemma build_run:
  assumes "script_ready w"
  shows "script_build C U w = (let w0 = w\<lparr>sw_db := (sw_db w)\<lparr>tables := \<lparr>t_scripts = [], t_tags = []\<rparr>\<rparr>\<rparr>
    in (case script_ops C U w of
          None \<Rightarrow> (Inr None, w0)
        | Some ops \<Rightarrow> bind_io (on_script_db (for_each (apply_script U) ops)) (\<lambda>_. ok_io (Some ())) w0))"
proof -
  have "on_script_db sdb_clear w = (Inr (), w\<lparr>sw_db := (sw_db w)\<lparr>tables := \<lparr>t_scripts = [], t_tags = []\<rparr>\<rparr>\<rparr>)"
    using assms by (simp add: on_script_db_def zoom_def map_err_def sdb_clear_def bind_io_def sql_exec_healthy script_ready_def)
  then show ?thesis using assms
    by (simp add: script_build_def bind_io_def zoom_def script_records_def map_err_def all_tagged_rows script_ready_def script_ops_def ok_io_def
        split: option.splits)
qed

lemma script_rep_empty: "script_rep U \<lparr>t_scripts = [], t_tags = []\<rparr> Map.empty" "well_keyed Map.empty"
  by (simp_all add: script_rep_def well_keyed_def)

lemma with_tags_rep:
  assumes U: "uuid_ok U" and d: "healthy d" "script_rep U (tables d) m" "well_keyed m" and s: "held m s"
  shows "\<exists>tags. with_tags U (s\<lparr>script_tags := []\<rparr>) d = (Inr (s\<lparr>script_tags := tags\<rparr>), d) \<and> set tags = set (script_tags s)"
proof -
  have "(uuid_show U (script_id s), tag) \<in> set (t_tags (tables d)) \<longleftrightarrow> tag \<in> set (script_tags s)" for tag
    using d(2) s unfolding script_rep_def by (metis held_unique uuid_show_inj [OF U])
  then have tags: "set (tags_of_row (tables d) (uuid_show U (script_id s))) = set (script_tags s)"
    by (force simp: tags_of_row_def)
  have "with_tags U (s\<lparr>script_tags := []\<rparr>) d = (Inr (s\<lparr>script_tags := tags_of_row (tables d) (uuid_show U (script_id s))\<rparr>), d)"
    using d(1) by (simp add: with_tags_def bind_io_def sql_query_healthy ok_io_def)
  with tags show ?thesis by blast
qed

lemma get_by_name_rep:
  assumes U: "uuid_ok U" and d: "healthy d" "script_rep U (tables d) m" "well_keyed m"
  shows "held m s \<Longrightarrow> \<exists>tags. sdb_get_by_name U (script_name s) d = (Inr (Some (s\<lparr>script_tags := tags\<rparr>)), d) \<and> set tags = set (script_tags s)"
    and "(\<And>s. held m s \<Longrightarrow> script_name s \<noteq> name) \<Longrightarrow> sdb_get_by_name U name d = (Inr None, d)"
proof -
  assume s: "held m s"
  then have "script_row_of U s \<in> set (t_scripts (tables d))" using d(2) by (auto simp: script_rep_def)
  then obtain r where r: "find (\<lambda>r. sr_name r = script_name s) (t_scripts (tables d)) = Some r"
    using find_None_iff [of "\<lambda>r. sr_name r = script_name s" "t_scripts (tables d)"] script_row_of_sel(2)
    by (cases "find (\<lambda>r. sr_name r = script_name s) (t_scripts (tables d))") metis+
  then have "r \<in> set (t_scripts (tables d))" "sr_name r = script_name s" by (auto simp: find_Some_iff)
  then have "r = script_row_of U s" using d(2,3) s by (auto simp: script_rep_def well_keyed_def)
  moreover have "script_from_row U (script_row_of U s) [] = Inr (s\<lparr>script_tags := []\<rparr>)"
    using uuid_showD(1) [OF U] by (simp add: script_from_row_def script_row_of_def)
  moreover obtain tags where "with_tags U (s\<lparr>script_tags := []\<rparr>) d = (Inr (s\<lparr>script_tags := tags\<rparr>), d)" "set tags = set (script_tags s)"
    using with_tags_rep [OF U d s] by blast
  ultimately show "\<exists>tags. sdb_get_by_name U (script_name s) d = (Inr (Some (s\<lparr>script_tags := tags\<rparr>)), d) \<and> set tags = set (script_tags s)"
    using r d(1) by (auto simp: sdb_get_by_name_def bind_io_def sql_query_healthy lift_result_def ok_io_def)
next
  assume none: "\<And>s. held m s \<Longrightarrow> script_name s \<noteq> name"
  then have "find (\<lambda>r. sr_name r = name) (t_scripts (tables d)) = None" using d(2) unfolding find_None_iff script_rep_def by (metis script_row_of_sel(2))
  then show "sdb_get_by_name U name d = (Inr None, d)" using d(1) by (simp add: sdb_get_by_name_def bind_io_def sql_query_healthy ok_io_def)
qed

lemma for_each_fails:
  "for_each f xs s = (Inr (), s') \<Longrightarrow> f x s' = (Inl e, s'') \<Longrightarrow> for_each f (xs @ x # ys) s = (Inl e, s'')"
  by (induction xs arbitrary: s) (auto simp: bind_io_def ok_io_def split: sum.splits prod.splits)

lemma update_collides:
  assumes U: "uuid_ok U" and d: "healthy d" "script_rep U (tables d) m" "well_keyed m"
    and s: "m (script_id s) \<noteq> None" "name_used m (script_id s) (script_name s)"
  shows "sdb_update U s d = (Inl ''UNIQUE constraint failed: scripts.name'', d)"
proof -
  obtain y where "held m y" "script_id y \<noteq> script_id s" "script_name y = script_name s"
    using s(2) name_used_held [OF d(3)] by auto
  moreover obtain x where "held m x" "script_id x = script_id s" using s(1) d(3) by (auto simp: well_keyed_def held_def)
  ultimately have "update_script (script_row_of U s) (tables d) = Inl ''UNIQUE constraint failed: scripts.name''"
    using d(2) by (simp add: update_script_def list_ex_iff script_rep_def) (metis script_row_of_sel uuid_show_inj [OF U])
  then show ?thesis using d(1)
    by (simp add: sdb_update_def transaction_def bind_io_def sql_exec_healthy sql_checked_def sql_healthy lift_result_def)
qed

section \<open>Every list of operations is the log of a store\<close>

lemma next_of_le:
  assumes "\<forall>w \<in> set (q_series rows k). 0 \<le> row_idx w \<and> row_idx w < int n" "n < 2 ^ 63"
  shows "next_of rows k \<le> n"
proof (cases "q_last rows k")
  case (Some p)
  then have "p \<in> set (q_series rows k)" by (auto simp: q_last_def split: list.splits) (metis list.set_intros(1) set_sort)
  then have "0 \<le> row_idx p" "row_idx p < int n" using assms(1) by auto
  then show ?thesis using assms(2) Some by (simp add: next_of_def from_row_def as_u64_def)
qed (simp add: next_of_def)

text \<open>A store filled by appending at the times 1, 2, ...\<close>

definition filled :: "client \<Rightarrow> RecordTag \<Rightarrow> nat \<Rightarrow> db_row list \<Rightarrow> bool" where
  "filled C t n rows \<longleftrightarrow> store_inv rows \<and> (\<forall>w \<in> set rows. row_id w \<in> of_nat ` {1..n} \<and> row_timestamp w \<le> int n
     \<and> (row_series w = (c_host C, tag_as_str t) \<longrightarrow> 0 \<le> row_idx w \<and> row_idx w < int n))"

lemma of_nat_Suc_image: "of_nat (Suc n) \<in> of_nat ` {Suc 0..Suc n}"
  by (rule imageI) simp

lemma filled_fits:
  assumes "filled C t n rows" "n < 1000" "prims_ok (c_prims C)"
  shows "fits C t (fresh_at (Suc n)) rows" "next_of rows (c_host C, tag_as_str t) \<le> n"
proof -
  have "of_nat (Suc n) \<notin> (of_nat ` {1..n} :: 128 word set)"
  proof
    assume "of_nat (Suc n) \<in> (of_nat ` {1..n} :: 128 word set)"
    then obtain k where "k \<le> n" "(of_nat (Suc n) :: 128 word) = of_nat k" by auto
    with assms(2) have "Suc n = k" unfolding word_of_nat_eq_iff by (simp add: take_bit_eq_mod del: of_nat_Suc)
    with \<open>k \<le> n\<close> show False by simp
  qed
  then have "\<forall>w \<in> set rows. row_id w \<noteq> of_nat (Suc n)" using assms(1) unfolding filled_def by metis
  then show "fits C t (fresh_at (Suc n)) rows"
    using assms by (auto simp: filled_def fits_def fresh_at_def clear_entropy_def q_series_def)
  show "next_of rows (c_host C, tag_as_str t) \<le> n"
    using assms(1,2) by (intro next_of_le) (auto simp: filled_def q_series_def)
qed

context op_log
begin

lemma log_of_ops:
  assumes "rmp_ok (c_rmp C)" "prims_ok (c_prims C)" "length ops < 1000" "\<forall>x \<in> set ops. dom x"
  shows "\<exists>rows. filled C tag (length ops) rows \<and> replayed (dec C) tag rows = ops \<and> (\<forall>w \<in> set rows. \<exists>x. dec C (from_row w) = Inr x)"
  using assms(3,4)
proof (induction ops rule: rev_induct)
  case (snoc x ops)
  then obtain rows where rows: "filled C tag (length ops) rows" "replayed (dec C) tag rows = ops" "\<forall>w \<in> set rows. \<exists>x. dec C (from_row w) = Inr x"
    by auto
  let ?d = "empty_store\<lparr>tables := rows\<rparr>"
  note fits = filled_fits [OF rows(1) _ assms(2)]
  obtain w where w: "replayed (dec C) tag (rows @ [w]) = ops @ [x]" "store_inv (rows @ [w])" "dec C (from_row w) = Inr x" "row_id w = of_nat (Suc (length ops))"
      "row_timestamp w = int (Suc (length ops))" "row_series w = (c_host C, tag_as_str tag)" "row_idx w = int (next_of rows (c_host C, tag_as_str tag))"
    using append_op [of ?d C "fresh_at (Suc (length ops))" x] fits(1) snoc.prems assms(1) rows(2) by (auto simp: empty_store_def fresh_at_def)
  have "filled C tag (length (ops @ [x])) (rows @ [w])"
    using rows(1) w fits(2) snoc.prems(1) of_nat_Suc_image [of "length ops"] by (auto simp: filled_def)
  with w(1,3) rows(3) show ?case by (intro exI [of _ "rows @ [w]"]) auto
qed (auto simp: filled_def store_inv_def replayed_def tagged_rows_def map_filter_def)

end

lemma decode_all_replayed:
  "\<forall>w \<in> set ws. \<exists>x. script_decode U C (from_row w) = Inr x \<Longrightarrow>
     decode_all U C (map from_row ws) = Some (List.map_filter (\<lambda>w. case script_decode U C (from_row w) of Inl _ \<Rightarrow> None | Inr x \<Rightarrow> Some x) ws)"
  by (induction ws) (auto simp: map_filter_def)

lemma script_world_of_ops:
  assumes "rmp_ok (c_rmp C)" "prims_ok (c_prims C)" "length ops < 1000" "\<forall>r \<in> set ops. uuid_ok U \<and> record_small r \<and> ordered_tags r = r"
  shows "\<exists>w. script_ready w \<and> script_ops C U w = Some ops"
proof -
  obtain rows where rows: "replayed (script_decode U C) Script rows = ops" "\<forall>w \<in> set rows. \<exists>x. script_decode U C (from_row w) = Inr x"
    using script_log.log_of_ops [OF assms] by blast
  let ?w = "\<lparr>sw_records = empty_store\<lparr>tables := rows\<rparr>, sw_db = \<lparr>tables = \<lparr>t_scripts = [], t_tags = []\<rparr>, faults = []\<rparr>\<rparr>"
  have "set (tagged_rows Script rows) \<subseteq> set rows" by (auto simp: tagged_rows_def)
  then have "script_ops C U ?w = Some ops"
    using rows by (auto simp: script_ops_def decode_all_replayed replayed_def subset_eq)
  moreover have "script_ready ?w" by (simp add: script_ready_def empty_store_def)
  ultimately show ?thesis by blast
qed

section \<open>Properties\<close>

text \<open>
  C33: rebuilding the script tables replays the log: when every operation of the log fits (a created id and name are new, an update's
  script exists and its name is free), the rebuild succeeds whatever the tables held before and leaves the log alone, and afterwards a name finds the
  script that the replay of the log has under it, with the same tags, and finds nothing when no script of the replay has it.
\<close>

theorem scripts_build_replays:
  assumes "uuid_ok U" "script_ready w" "script_ops C U w = Some ops" "all_fit ops Map.empty"
  shows "\<exists>w'. script_build C U w = (Inr (Some ()), w') \<and> sw_records w' = sw_records w
    \<and> (\<forall>i s. script_replay ops Map.empty i = Some s \<longrightarrow>
         (\<exists>tags. sdb_get_by_name U (script_name s) (sw_db w') = (Inr (Some (s\<lparr>script_tags := tags\<rparr>)), sw_db w') \<and> set tags = set (script_tags s)))
    \<and> (\<forall>name. (\<nexists>i s. script_replay ops Map.empty i = Some s \<and> script_name s = name) \<longrightarrow> sdb_get_by_name U name (sw_db w') = (Inr None, sw_db w'))"
proof -
  let ?d = "(sw_db w)\<lparr>tables := \<lparr>t_scripts = [], t_tags = []\<rparr>\<rparr>" and ?m = "script_replay ops Map.empty"
  have d: "healthy ?d" "script_rep U (tables ?d) Map.empty" using assms(2) script_rep_empty(1) by (simp_all add: script_ready_def)
  obtain t where t: "for_each (apply_script U) ops ?d = (Inr (), ?d\<lparr>tables := t\<rparr>)" "script_rep U t ?m" "well_keyed ?m"
    using apply_all [OF assms(1) d script_rep_empty(2) assms(4)] by blast
  let ?w = "w\<lparr>sw_db := ?d\<lparr>tables := t\<rparr>\<rparr>"
  have "script_build C U w = (Inr (Some ()), ?w)"
    using t(1) by (simp add: build_run [OF assms(2)] assms(3) bind_io_def on_script_db_def zoom_def map_err_def ok_io_def)
  moreover have h: "healthy (sw_db ?w)" "script_rep U (tables (sw_db ?w)) ?m" using d t(2) by simp_all
  note get = get_by_name_rep [OF assms(1) h t(3)]
  have "held ?m s" if "?m i = Some s" for i s using that t(3) by (auto simp: well_keyed_def held_def)
  moreover have "?m (script_id s) = Some s" if "held ?m s" for s using that by (simp add: held_def)
  ultimately show ?thesis using get by (intro exI [of _ ?w]) (simp, blast)
qed

text \<open>Ids as their bits, for the examples.\<close>

definition bit_uuid :: uuid_env where
  "bit_uuid = \<lparr>uuid_show = (\<lambda>u. map (\<lambda>i. if bit u i then CHR ''1'' else CHR ''0'') [0..<128]),
     uuid_read = (\<lambda>s. Some (horner_sum of_bool 2 (map (\<lambda>c. c = CHR ''1'') s)))\<rparr>"

lemma bit_uuid_ok: "uuid_ok bit_uuid"
proof -
  have "map (\<lambda>c. c = CHR ''1'') (map (\<lambda>i. if bit u i then CHR ''1'' else CHR ''0'') [0..<128]) = map (bit u) [0..<128]" for u :: uuid
    by simp
  then show ?thesis
    using horner_sum_bit_eq_take_bit [of _ 128, where ?'a = "128 word"] by (simp add: uuid_ok_def bit_uuid_def take_bit_word_eq_self del: map_map)
qed

definition script_at :: "uuid \<Rightarrow> string \<Rightarrow> script" where
  "script_at i name = \<lparr>script_id = i, script_name = name, script_description = [], script_shebang = ''#!/bin/sh'', script_tags = [''t''], script_body = ''ls''\<rparr>"

lemma script_at_world:
  assumes "length ops < 1000" "\<forall>r \<in> set ops. record_small r \<and> ordered_tags r = r"
  shows "\<exists>w. script_ready w \<and> script_ops clear_client bit_uuid w = Some ops"
proof (rule script_world_of_ops)
  show "\<forall>r \<in> set ops. uuid_ok bit_uuid \<and> record_small r \<and> ordered_tags r = r"
    using assms(2) bit_uuid_ok by blast
qed (simp_all add: clear_client_ok clear_client_def msgpack_ok clear_prims_ok assms(1))

theorem scripts_build_replays_witness:
  "\<exists>w w'. script_build clear_client bit_uuid w = (Inr (Some ()), w') \<and> sdb_get_by_name bit_uuid ''c'' (sw_db w') = (Inr None, sw_db w')
    \<and> script_ops clear_client bit_uuid w = Some [CreateScript (script_at 1 ''a''), UpdateScript (script_at 1 ''b''), CreateScript (script_at 2 ''a''), DeleteScript 2]"
proof -
  let ?ops = "[CreateScript (script_at 1 ''a''), UpdateScript (script_at 1 ''b''), CreateScript (script_at 2 ''a''), DeleteScript 2]"
  have "\<exists>w. script_ready w \<and> script_ops clear_client bit_uuid w = Some ?ops"
    by (rule script_at_world) (simp_all add: script_at_def script_small_def)
  then obtain w where w: "script_ready w" "script_ops clear_client bit_uuid w = Some ?ops" by blast
  have fit: "all_fit ?ops Map.empty" by (simp add: script_at_def name_used_def)
  have none: "\<nexists>i s. script_replay ?ops Map.empty i = Some s \<and> script_name s = ''c''" by (simp add: script_at_def split: if_splits)
  show ?thesis using scripts_build_replays [OF bit_uuid_ok w fit]
    by (elim exE conjE) (rule exI [of _ w], rule exI, intro conjI, assumption, erule allE, erule mp, rule none, rule w(2))
qed

text \<open>
  one rename can stop every rebuild: when the operations of the log before it fit and an update then gives a script a name that another script has, which two
  devices do when one creates a script and the other renames one to the same name, the rebuild fails with a constraint violation. The tables are left with what the log held
  before that operation, and nothing after it is applied.
\<close>

theorem rename_collision_fails:
  assumes "uuid_ok U" "script_ready w" "script_ops C U w = Some (ops @ UpdateScript s # later)" "all_fit ops Map.empty"
    and "script_replay ops Map.empty (script_id s) \<noteq> None" "name_used (script_replay ops Map.empty) (script_id s) (script_name s)"
  shows "\<exists>w'. script_build C U w = (Inl (DbFailed ''UNIQUE constraint failed: scripts.name''), w')
    \<and> script_rep U (tables (sw_db w')) (script_replay ops Map.empty)"
proof -
  let ?d = "(sw_db w)\<lparr>tables := \<lparr>t_scripts = [], t_tags = []\<rparr>\<rparr>" and ?m = "script_replay ops Map.empty"
  have d: "healthy ?d" "script_rep U (tables ?d) Map.empty" using assms(2) script_rep_empty(1) by (simp_all add: script_ready_def)
  obtain t where t: "for_each (apply_script U) ops ?d = (Inr (), ?d\<lparr>tables := t\<rparr>)" "script_rep U t ?m" "well_keyed ?m"
    using apply_all [OF assms(1) d script_rep_empty(2) assms(4)] by blast
  have "healthy (?d\<lparr>tables := t\<rparr>)" "script_rep U (tables (?d\<lparr>tables := t\<rparr>)) ?m" using d t(2) by simp_all
  from update_collides [OF assms(1) this t(3) assms(5,6)]
  have "for_each (apply_script U) (ops @ UpdateScript s # later) ?d = (Inl ''UNIQUE constraint failed: scripts.name'', ?d\<lparr>tables := t\<rparr>)"
    using t(1) by (intro for_each_fails) simp_all
  then have "script_build C U w = (Inl (DbFailed ''UNIQUE constraint failed: scripts.name''), w\<lparr>sw_db := ?d\<lparr>tables := t\<rparr>\<rparr>)"
    by (simp add: build_run [OF assms(2)] assms(3) bind_io_def on_script_db_def zoom_def map_err_def)
  then show ?thesis using t(2) by simp
qed

theorem rename_collision_fails_witness:
  "\<exists>w w'. script_build clear_client bit_uuid w = (Inl (DbFailed ''UNIQUE constraint failed: scripts.name''), w')
    \<and> script_ops clear_client bit_uuid w = Some [CreateScript (script_at 1 ''a''), CreateScript (script_at 2 ''b''), UpdateScript (script_at 1 ''b''), DeleteScript 2]"
proof -
  let ?pre = "[CreateScript (script_at 1 ''a''), CreateScript (script_at 2 ''b'')]"
  have "\<exists>w. script_ready w \<and> script_ops clear_client bit_uuid w = Some (?pre @ UpdateScript (script_at 1 ''b'') # [DeleteScript 2])"
    by (rule script_at_world) (simp_all add: script_at_def script_small_def)
  then obtain w where w: "script_ready w" "script_ops clear_client bit_uuid w = Some (?pre @ UpdateScript (script_at 1 ''b'') # [DeleteScript 2])" by blast
  have "all_fit ?pre Map.empty" "script_replay ?pre Map.empty (script_id (script_at 1 ''b'')) \<noteq> None"
      "name_used (script_replay ?pre Map.empty) (script_id (script_at 1 ''b'')) (script_name (script_at 1 ''b''))"
    by (simp_all add: script_at_def name_used_def) (rule exI [of _ 2], simp)
  from rename_collision_fails [OF bit_uuid_ok w this] w(2) show ?thesis by auto
qed

text \<open>
  one script that does not decode makes the rebuild panic: the tables are emptied first, so that none of the readable scripts is there afterwards.
\<close>

theorem malformed_script_panics:
  assumes "script_ready w" "r \<in> set (tagged_rows Script (tables (sw_records w)))" "script_decode U C (from_row r) = Inl Panics"
  shows "script_build C U w = (Inr None, w\<lparr>sw_db := (sw_db w)\<lparr>tables := \<lparr>t_scripts = [], t_tags = []\<rparr>\<rparr>\<rparr>)"
proof -
  have "decode_all U C rs = None" if "x \<in> set rs" "script_decode U C x = Inl Panics" for x rs
    using that by (induction rs) (auto split: sum.splits script_failure.splits)
  from this [of "from_row r"] assms(2,3) have "script_ops C U w = None" by (simp add: script_ops_def)
  then show ?thesis by (simp add: build_run [OF assms(1)])
qed

theorem malformed_script_panics_witness:
  "\<exists>w w'. script_build clear_client bit_uuid w = (Inr None, w') \<and> t_scripts (tables (sw_db w)) \<noteq> [] \<and> t_scripts (tables (sw_db w')) = []"
proof -
  let ?bs = "w_u8 msgpack 0 @ write_bin msgpack []"
  have e: "healthy empty_store" "fits clear_client Script (fresh_at 1) (tables empty_store)" using clear_client_ok(2) by (simp_all add: empty_store_def)
  obtain r where r: "row_tag r = tag_as_str Script" "rec_version (from_row r) = V0"
      "\<exists>x. decrypt (c_prims clear_client) (c_json clear_client) (from_row r) (c_key clear_client) = Inr x \<and> rec_data x = ?bs \<and> rec_version x = V0"
    by (rule append_tagged_row [OF e, of V0 ?bs]) simp_all
  have "script_record_deserialize msgpack bit_uuid ?bs V0 = Inl Panics"
    using rmp_okD(3) [OF msgpack_ok, of 0 "w_bin_len msgpack 0"] rmp_okD(8) [OF msgpack_ok, of 0 "[]"]
    by (simp add: script_record_deserialize_def write_bin_def read_script_def script_deserialize_def unwrapped_def)
      (simp add: msgpack_def read_wide_def)
  then have p: "script_decode bit_uuid clear_client (from_row r) = Inl Panics" using r(2,3) by (auto simp: script_decode_def clear_client_def)
  let ?w = "\<lparr>sw_records = empty_store\<lparr>tables := [r]\<rparr>, sw_db = \<lparr>tables = \<lparr>t_scripts = [script_row_of bit_uuid (script_at 1 ''a'')], t_tags = []\<rparr>, faults = []\<rparr>\<rparr>"
  have "script_ready ?w" "r \<in> set (tagged_rows Script (tables (sw_records ?w)))" using r(1) by (simp_all add: script_ready_def empty_store_def tagged_rows_def)
  from malformed_script_panics [OF this p] show ?thesis by (intro exI [of _ ?w] exI [of _ "?w\<lparr>sw_db := (sw_db ?w)\<lparr>tables := \<lparr>t_scripts = [], t_tags = []\<rparr>\<rparr>\<rparr>"]) simp
qed

end
