(* ===== verification/Spec2Isabelle.thy ===== *)
theory Spec2Isabelle
  imports Tui_Popup Sync Kv Dotfiles History_Store Ai_Runs Ai_Permissions Ai_Files Pty_Server Pty_Osc133 Scripts
begin

text \<open>
  A verification of Atuin, the shell history that is recorded, searched and synchronised between
  machines with end-to-end encryption.

  The parts and how they interact. Every change a user makes (a command run, a key-value pair, an alias, a
  variable) becomes a sealed record of an append-only series, one per host and tag, in the client's record
  store. The sync engine compares the store's status index with the server's and moves the missing
  suffixes of every series in both directions, through the API client, the server's handlers and its
  database. The tagged stores (history, key-value, dotfiles) replay their series into tables. Packfiles
  bundle runs of records into blobs. The AI agent is separate: a state machine that turns
  streamed answers of a model into permission checks and tool executions. The interactive search reads keys into an input line, queries the
  history and draws the results, in the terminal or in a popup over a terminal of the PTY proxy.

  Theories, with the code under \<open>src/crates/\<close> they model:

  \<^item> \<open>Prelude\<close>, \<open>Ordered_Map\<close>, \<open>Rust_String\<close>: the effects (state, failing SQL statements, transactions, errors as sums),
    machine arithmetic, ordered maps, and the parts of Rust's strings the code uses. \<open>normalize_optional_string\<close> is in
    \<open>atuin-common/src/utils.rs\<close>.
  \<^item> \<open>Paseto\<close>: sealing of records with a content key wrapped by the user's key (\<open>atuin-common/src/encryption/paseto_v4.rs\<close>),
    over abstract cryptographic primitives with the laws of authenticated encryption.
  \<^item> \<open>Domain_Record\<close>: records, tags, versions, status indices and their difference (\<open>atuin-domain/src/record/\<close>).
  \<^item> \<open>Range_Chunks\<close>: the chunk iterator on 64-bit ranges (\<open>atuin-common/src/range/chunks.rs\<close>).
  \<^item> \<open>Record_Log\<close>, \<open>Sqlite_Store\<close>: the client's record store (\<open>atuin-client/src/record/sqlite_store.rs\<close>); \<open>Record_Log\<close> is its
    abstract specification as a locale, interpreted in \<open>Sqlite_Store\<close> and by both servers.
  \<^item> \<open>Rmp_Codec\<close>, \<open>Packfile\<close>, \<open>Packer\<close>: MessagePack wrappers (\<open>atuin-common/src/rmp/\<close>), manifests and blobs, and packing
    (\<open>atuin-client/src/packfile/\<close>).
  \<^item> \<open>Server_Db\<close>, \<open>Server_Postgres\<close>: the \<open>Database\<close> trait with its SQLite and Postgres implementations
    (\<open>atuin-server-database\<close>, \<open>atuin-server-sqlite\<close>, \<open>atuin-server-postgres\<close>).
  \<^item> \<open>Server_Handlers\<close>, \<open>Server_Http\<close>: authentication, accounts, record handlers, routing (\<open>atuin-server/src/\<close>).
  \<^item> \<open>Api_Client\<close>: the requests of the client and its page streams (\<open>atuin-client/src/api_client.rs\<close>).
  \<^item> \<open>Sync\<close>: planning, key check, uploads, downloads, packfile expansion (\<open>atuin-client/src/record/sync/mod.rs\<close>).
  \<^item> \<open>Tagged_Store\<close>, \<open>Kv\<close>, \<open>Dotfiles\<close>: the series-backed stores of \<open>atuin-kv\<close> and \<open>atuin-dotfiles\<close>, with the generated
    shell configurations.
  \<^item> \<open>History_Entry\<close>, \<open>History_Store\<close>: history entries, their builders and codec, the history database and its rebuild from the
    series (\<open>atuin-client/src/history.rs\<close>, \<open>history/\<close>, \<open>database.rs\<close>).
  \<^item> \<open>Ai_Tools\<close>, \<open>Ai_Context\<close>, \<open>Ai_Fsm\<close>, \<open>Ai_Runs\<close>: tool calls, the context window, the agent's machine with the driver as a step
    relation, and its runs (\<open>atuin-ai/src/tools/\<close>, \<open>context_window.rs\<close>, \<open>tui/state.rs\<close>, \<open>fsm/\<close>).
  \<^item> \<open>Rust_Path\<close>, \<open>Ai_Permissions\<close>: paths as \<open>std::path\<close> treats them; permission rules, their files and matching, the commands
    found in a shell line, grants and the decision (\<open>atuin-ai/src/permissions/\<close>, \<open>edit_permissions.rs\<close>, \<open>check_permission\<close> of \<open>tui/app.rs\<close>).
  \<^item> \<open>Ai_Files\<close>: the agent's file tools with the tracker of what was read and the snapshots (\<open>tools/mod.rs\<close>, \<open>file_tracker.rs\<close>,
    \<open>snapshots.rs\<close>, \<open>execute_tool\<close> of \<open>tui/app.rs\<close>), over a file system whose operations may fail.
  \<^item> \<open>Pty_Protocol\<close>, \<open>Pty_Server\<close>, \<open>Pty_Osc133\<close>: the terminal proxy's socket protocol, its parser thread with the subscribers and connections,
    and the semantic prompt markers with the capture of commands (\<open>atuin-pty-proxy/src/protocol.rs\<close>, \<open>screen.rs\<close>, \<open>osc133.rs\<close>, \<open>capture.rs\<close>,
    \<open>atuin-common/src/ansi.rs\<close>); the terminal emulator is a parameter that may panic.
  \<^item> \<open>Scripts\<close>: stored scripts, their log and tables (\<open>atuin-scripts/src/\<close>).
  \<^item> \<open>Tui_Cursor\<close>, \<open>Tui_Conditions\<close>, \<open>Tui_Keys\<close>: the input line of the interactive search, the conditions of key bindings, key names, actions,
    keymaps with their defaults and overrides (\<open>cursor.rs\<close> and \<open>keybindings/\<close> of \<open>atuin/src/command/client/search/\<close>, the keys in \<open>settings.rs\<close>).
  \<^item> \<open>Tui_Search\<close>, \<open>Tui_Popup\<close>: the state of the interactive search, its events, the scrolled list, the loop that draws, reads events and queries
    again, and the popup drawn over a terminal of the proxy (\<open>interactive.rs\<close>, \<open>engines.rs\<close>, \<open>history_list.rs\<close>); the engines are parameters.
  State and effects. A store or database is a list of rows in insertion order; every SQL statement may fail, decided by
  a schedule that is an argument of the model, and a failing statement inside a transaction restores the rows.
  Network calls are functions of the server's state. Errors are values of sums. Where the code could panic, the
  model returns \<open>None\<close> or an error of its own, and the theorems say when that cannot happen.

  What is shown. This theory composes the components: one sync makes the two sides equal to the longer prefix of
  every series (against SQLite and Postgres), two devices agree after three syncs, a second sync moves nothing,
  and a wrong key moves nothing. The component theories show what each contributes: the plan is complete and ordered,
  batches are atomic, the difference of indices is exact, rekeying keeps contents, sealed records open again, packing
  tiles a prefix, users are isolated, streams have no gaps, rebuilds agree with replays, and an agent executes
  only permitted tools, answers every call once and does not panic; a permission has a ground in a rule or grant, an edit changes one file
  that was read before, and a saved file stays saved; the interactive search edits whole characters, reads back the names of keys and
  conditions, does not panic where each event is drawn before the next, returns an entry that was shown, and leaves the screen as it was. Where the code does not do what it means to,
  a theorem states the behaviour.

  Bounds. Indices, sizes and timeouts are natural numbers with the wrap-around at 64 bits written out where the code
  adds to them; text is a list of bytes in UTF-8. The loops are total functions with a measure, except these: packing takes fuel,
  and the theorem on packing shows that more steps than records are left suffice; the end of the page stream is a theorem.
  The parser of key conditions and the deletion of a word take fuel from the length of their text, and theorems show that it suffices.

  Parameters. Cryptographic primitives, the MessagePack, JSON and zstd packages, UUID generation, clocks, password
  hashing, regular expressions, file globbing, the search engines, the width of text on a screen and the process environment are arguments of the definitions that use them; the laws assumed of
  them are hypotheses or locale assumptions with a concrete instance in the witnesses.

  Not modelled: the text of dynamically built SQL (search and filters of \<open>database.rs\<close>) and of migrations; configuration loading;
  the drawing of text in the terminal interfaces, the inspector's view, themes and command line; the daemon's gRPC services; the PTY proxy's terminal emulation;
  the importers of other shells' files; live sharing over the network; the execution of shell commands and of
  HTTP itself. They are rendering, operating-system interaction or thin layers over packages whose code is not here.
\<close>

declare split_paired_All [simp del] split_paired_Ex [simp del]

section \<open>A small world\<close>

definition example_api :: api_env where
  "example_api = \<lparr>header_str = (\<lambda>b. Some (if b = [1] then ''Token t0'' else ''18.13.0'')), semver_major = (\<lambda>_. Inr 18), atuin_major = 18, version_header = []\<rparr>"

definition example_token :: bytes where
  "example_token = [1]"

definition example_engine :: "'r http \<Rightarrow> 'r engine" where
  "example_engine net = \<lparr>e_prims = clear_prims, e_ad_json = (\<lambda>ad. ad_tag ad), e_pack = clear_env, e_rmp = msgpack, e_api = example_api,
     e_net = net, e_caps = (\<lambda>r. (Inr None, r)), e_key = [42], e_page_size = 100, e_pack_rnd = (\<lambda>_. clear_entropy), e_record_rnd = (\<lambda>_. clear_entropy)\<rparr>"

abbreviation example_settings :: Settings where
  "example_settings \<equiv> \<lparr>open_registration = True, max_record_size = 0\<rparr>"

definition example_log :: world_log where
  "example_log k = (if k = (1, ''history'') then [to_row sealed_1] else [])"

abbreviation one_each :: "series \<Rightarrow> nat" where
  "one_each k \<equiv> length (example_log k)"

definition alice_session :: Session where
  "alice_session = \<lparr>session_id = 1, session_user = 1, session_token = ''t0''\<rparr>"

definition alice_server :: "server_tables db" where
  "alice_server = server_empty\<lparr>tables := (tables server_empty)\<lparr>users := [alice], sessions := [alice_session]\<rparr>\<rparr>"

definition alice_pg :: "pg_tables db" where
  "alice_pg = pg_empty\<lparr>tables := (tables pg_empty)\<lparr>users := [alice], sessions := [alice_session]\<rparr>\<rparr>"

lemma sealed_1_row: "skey (series_key sealed_1) = (1, ''history'')" "row_idx (to_row sealed_1) = 0" "i64_row (to_row sealed_1)"
  "row_id (to_row sealed_1) = 5" "rec_idx (from_row (to_row sealed_1)) = 0"
proof -
  obtain x where x: "encrypt clear_prims (\<lambda>ad. ad_tag ad) clear_entropy plain_record [42] = Inr x"
    using encrypt_sealed [OF clear_prims_ok, of clear_entropy "\<lambda>ad. ad_tag ad" plain_record "[42]"]
    by (auto simp: clear_entropy_def)
  then have "\<exists>y. x = with_data y plain_record" by (auto simp: encrypt_def split: sum.splits)
  with x show "skey (series_key sealed_1) = (1, ''history'')" "row_idx (to_row sealed_1) = 0" "i64_row (to_row sealed_1)"
      "row_id (to_row sealed_1) = 5" "rec_idx (from_row (to_row sealed_1)) = 0"
    by (auto simp: sealed_1_def skey_def to_row_def from_row_def plain_record_def Record_build_def i64_row_def Host_new_def as_u64_def)
qed

lemma example_log_ok:
  "e_prims E = clear_prims \<Longrightarrow> e_ad_json E = (\<lambda>ad. ad_tag ad) \<Longrightarrow> e_key E = [42] \<Longrightarrow> e_page_size E = 100 \<Longrightarrow>
    accepts (from_row (to_row sealed_1)) \<Longrightarrow> log_ok E example_log accepts"
  using sealed_1_opens by (simp add: log_ok_def world_log_def example_log_def sealed_1_row)

lemma example_holds:
  "holds example_log one_each [to_row sealed_1]" "holds example_log (\<lambda>_. 0) []"
  by (auto simp: holds_def example_log_def)

lemma example_ready:
  "version_ok example_api" "healthy alice_server" "authed example_api (Some example_token) alice (tables alice_server)"
  "healthy alice_pg" "authed example_api (Some example_token) alice (tables alice_pg)" "cache_inv (tables alice_pg)"
  "sqlite_rows alice_server 1 = []" "sqlite_rows alice_pg 1 = []" "user_id alice = 1"
  by (simp_all add: version_ok_def example_api_def alice_server_def alice_pg_def authed_def example_token_def server_empty_def pg_empty_def
      cache_inv_def session_join_def alice_def alice_session_def user_rows_def q_status_def)

abbreviation sqlite_engine :: "server_tables db engine" where
  "sqlite_engine \<equiv> example_engine (serve example_api example_settings sqlite_database (Some example_token))"

abbreviation pg_engine :: "pg_tables db engine" where
  "pg_engine \<equiv> example_engine (serve example_api example_settings (pg_database \<lparr>pg_lower = id, pg_chars = length\<rparr> True) (Some example_token))"

lemma example_engine_facts:
  "e_net (example_engine net) = net" "e_api (example_engine net) = example_api" "packfiles_off (example_engine net) r"
  "accepts (from_row (to_row sealed_1)) \<Longrightarrow> log_ok (example_engine net) example_log accepts"
  by (simp_all add: example_engine_def packfiles_off_def example_log_ok)

lemma example_stores:
  "healthy sealed_store" "holds example_log one_each (tables sealed_store)" "healthy empty_store" "holds example_log (\<lambda>_. 0) (tables empty_store)"
  "holds example_log (\<lambda>_. 0) (sqlite_rows alice_server (user_id alice))" "holds example_log (\<lambda>_. 0) (sqlite_rows alice_pg (user_id alice))"
  using example_holds by (simp_all add: sealed_store_def empty_store_def example_ready)

lemma example_counts:
  "(\<Sum>k | snd k \<noteq> ''packfile'' \<and> 0 < one_each k. one_each k - 0) = 1"
  "holds example_log (synced (\<lambda>_. 0) one_each) rows \<Longrightarrow> set rows = {to_row sealed_1}"
proof -
  have "{k. snd k \<noteq> ''packfile'' \<and> 0 < one_each k} = {(1, ''history'')}" by (auto simp: example_log_def)
  then show "(\<Sum>k | snd k \<noteq> ''packfile'' \<and> 0 < one_each k. one_each k - 0) = 1" by (simp add: example_log_def)
  show "set rows = {to_row sealed_1}" if "holds example_log (synced (\<lambda>_. 0) one_each) rows"
    using holds_set [OF that] by (auto simp: synced_def example_log_def split: if_splits)
qed

section \<open>Convergence\<close>

text \<open>
  C1: one sync against the SQLite server makes both sides hold the same history. If the local store
  and the user's rows on the server hold prefixes of the series of one log (of any lengths, for any
  number of hosts and tags), the server knows the session, no statement fails and packfiles are off,
  then the sync succeeds, both sides afterwards hold the longer prefix of every series other than the
  packfiles, the number of uploads is the number of records the server was missing, and the ids
  returned are those of the records that were missing locally.
\<close>

theorem sync_converges:
  assumes "log_ok E G (\<lambda>r. length (raw (rec_data r)) \<le> max_record_size S \<or> max_record_size S = 0)"
    and "e_net E = serve A S sqlite_database authz" "e_api E = A"
    and "sqlite_ready A authz u (remote w)" "healthy (local w)" "packfiles_off E (remote w)"
    and "holds G nL (tables (local w))" "holds G nR (sqlite_rows (remote w) (user_id u))"
  shows "\<exists>n ids w'. sync E w = (Inr (n, ids), w')
    \<and> holds G (synced nL nR) (tables (local w')) \<and> holds G (synced nR nL) (sqlite_rows (remote w') (user_id u))
    \<and> n = (\<Sum>k | snd k \<noteq> ''packfile'' \<and> nR k < nL k. nL k - nR k)
    \<and> set ids = {row_id (G k ! i) | k i. snd k \<noteq> ''packfile'' \<and> nL k \<le> i \<and> i < nR k}"
proof -
  have "sqlite_http.served.at u A authz G nL nR w" unfolding sqlite_http.served.at_def using assms(4,5,7,8) by blast
  from sqlite_http.served.sync_at [OF _ assms(2,3) this assms(6)] assms(1) show ?thesis
    unfolding sqlite_http.served.at_def by simp blast
qed

theorem sync_converges_witness:
  "\<exists>ids w'. sync sqlite_engine \<lparr>local = sealed_store, remote = alice_server\<rparr> = (Inr (1, ids), w')
     \<and> set (sqlite_rows (remote w') 1) = {to_row sealed_1}"
proof -
  let ?w = "\<lparr>local = sealed_store, remote = alice_server\<rparr>"
  have "\<exists>n ids w'. sync sqlite_engine ?w = (Inr (n, ids), w')
    \<and> holds example_log (synced one_each (\<lambda>_. 0)) (tables (local w')) \<and> holds example_log (synced (\<lambda>_. 0) one_each) (sqlite_rows (remote w') (user_id alice))
    \<and> n = (\<Sum>k | snd k \<noteq> ''packfile'' \<and> 0 < one_each k. one_each k - 0)
    \<and> set ids = {row_id (example_log k ! i) | k i. snd k \<noteq> ''packfile'' \<and> one_each k \<le> i \<and> i < 0}"
    by (rule sync_converges [where S = example_settings and A = example_api and authz = "Some example_token"])
      (simp_all add: example_engine_facts example_ready(1-3) example_stores)
  then show ?thesis unfolding example_counts(1) example_ready(9) using example_counts(2) by blast
qed



text \<open>
  C4: a sync that follows a sync does nothing: it succeeds with no upload and no download, and the
  local store and the server are as before.
\<close>

theorem sync_idempotent:
  assumes "log_ok E G (\<lambda>r. length (raw (rec_data r)) \<le> max_record_size S \<or> max_record_size S = 0)"
    and "e_net E = serve A S sqlite_database authz" "e_api E = A"
    and "sqlite_ready A authz u (remote w)" "healthy (local w)" "\<forall>r. packfiles_off E r"
    and "holds G nL (tables (local w))" "holds G nR (sqlite_rows (remote w) (user_id u))"
  shows "\<exists>x w'. sync E w = (Inr x, w') \<and> sync E w' = (Inr (0, []), w')"
proof -
  have "sqlite_http.served.at u A authz G nL nR w" unfolding sqlite_http.served.at_def using assms(4,5,7,8) by blast
  from sqlite_http.served.sync_twice [OF _ assms(2,3) this assms(6)] assms(1) show ?thesis by simp
qed

theorem sync_idempotent_witness:
  "\<exists>x w'. sync sqlite_engine \<lparr>local = sealed_store, remote = alice_server\<rparr> = (Inr x, w') \<and> sync sqlite_engine w' = (Inr (0, []), w')"
  by (rule sync_idempotent [where S = example_settings and A = example_api and authz = "Some example_token" and u = alice
        and G = example_log and nL = one_each and nR = "\<lambda>_. 0"])
    (simp_all add: example_engine_facts example_ready(1-3) example_stores)

text \<open>
  C2: two devices of a user, with their own stores and their own settings but the same session, end
  up with the same history: after the first syncs, the second syncs and the first syncs again, both
  stores and the server hold the longest of the three prefixes of every series but the packfiles.
\<close>

theorem two_devices_converge:
  assumes "log_ok E G (\<lambda>r. length (raw (rec_data r)) \<le> max_record_size S \<or> max_record_size S = 0)"
    and "e_net E = serve A S sqlite_database authz" "e_api E = A" "\<forall>r. packfiles_off E r"
    and "log_ok F G (\<lambda>r. length (raw (rec_data r)) \<le> max_record_size S \<or> max_record_size S = 0)"
    and "e_net F = serve A S sqlite_database authz" "e_api F = A" "\<forall>r. packfiles_off F r"
    and "healthy a" "holds G nA (tables a)" "healthy b" "holds G nB (tables b)"
    and "sqlite_ready A authz u r" "holds G nR (sqlite_rows r (user_id u))"
  shows "\<exists>x y z w1 w2 w3. sync E \<lparr>local = a, remote = r\<rparr> = (Inr x, w1) \<and> sync F \<lparr>local = b, remote = remote w1\<rparr> = (Inr y, w2)
    \<and> sync E \<lparr>local = local w1, remote = remote w2\<rparr> = (Inr z, w3)
    \<and> holds G (synced nA (\<lambda>k. max (nB k) (nR k))) (tables (local w3))
    \<and> holds G (synced nB (\<lambda>k. max (nA k) (nR k))) (tables (local w2))
    \<and> holds G (synced nR (\<lambda>k. max (nA k) (nB k))) (sqlite_rows (remote w3) (user_id u))"
  by (rule sqlite_http.served.two_devices [where S = S and A = A and authz = authz and u = u]) (use assms in simp_all)

theorem two_devices_converge_witness:
  "\<exists>x y z w1 w2 w3. sync sqlite_engine \<lparr>local = sealed_store, remote = alice_server\<rparr> = (Inr x, w1)
    \<and> sync sqlite_engine \<lparr>local = empty_store, remote = remote w1\<rparr> = (Inr y, w2)
    \<and> sync sqlite_engine \<lparr>local = local w1, remote = remote w2\<rparr> = (Inr z, w3)
    \<and> set (tables (local w2)) = {to_row sealed_1}"
proof -
  have eq: "synced (\<lambda>_. 0) (\<lambda>k. max (one_each k) 0) = synced (\<lambda>_. 0) one_each" by simp
  have "\<exists>x y z w1 w2 w3. sync sqlite_engine \<lparr>local = sealed_store, remote = alice_server\<rparr> = (Inr x, w1)
    \<and> sync sqlite_engine \<lparr>local = empty_store, remote = remote w1\<rparr> = (Inr y, w2)
    \<and> sync sqlite_engine \<lparr>local = local w1, remote = remote w2\<rparr> = (Inr z, w3)
    \<and> holds example_log (synced one_each (\<lambda>k. max 0 0)) (tables (local w3))
    \<and> holds example_log (synced (\<lambda>_. 0) (\<lambda>k. max (one_each k) 0)) (tables (local w2))
    \<and> holds example_log (synced (\<lambda>_. 0) (\<lambda>k. max (one_each k) 0)) (sqlite_rows (remote w3) (user_id alice))"
    by (rule two_devices_converge [where S = example_settings and A = example_api and authz = "Some example_token"])
      (simp_all add: example_engine_facts example_ready(1-3) example_stores)
  then show ?thesis unfolding eq using example_counts(2) by blast
qed

text \<open>
  C3: a wrong key is found before anything moves. If the server has a record that is not a packfile
  manifest, and the key opens none of the user's records, the sync fails with \<open>WrongKey\<close> and leaves
  the local store and the server as they were.
\<close>

theorem wrong_key_moves_nothing:
  assumes "e_net E = serve A S sqlite_database authz" "e_api E = A"
    and "healthy (local w)" "sqlite_ready A authz u (remote w)"
    and "\<forall>x \<in> set (sqlite_rows (remote w) (user_id u)). 0 \<le> row_idx x
      \<and> (\<exists>e. decrypt (e_prims E) (e_ad_json E) (from_row x) (e_key E) = Inl e)"
    and "y \<in> set (sqlite_rows (remote w) (user_id u))" "row_tag y \<noteq> ''packfile''"
  shows "sync E w = (Inl WrongKey, w)"
  using sqlite_http.served.sync_wrong_key [OF assms(1-7)] .

definition synced_server :: "server_tables db" where
  "synced_server = alice_server\<lparr>tables := (tables alice_server)\<lparr>user_store := [(1, to_row sealed_1)]\<rparr>\<rparr>"

lemma sealed_1_closed: "\<exists>e. decrypt clear_prims (\<lambda>ad. ad_tag ad) (from_row (to_row sealed_1)) [43] = Inl e"
proof -
  obtain y where y: "encrypt_sync clear_prims clear_entropy [1, 2, 3] (Some ''history'') [42] = Inr y"
      "\<forall>k' a'. key_id clear_prims k' \<noteq> key_id clear_prims [42] \<longrightarrow>
        decrypt_sync clear_prims y a' k' = Inl (CekDec (MismatchedKey (key_id clear_prims [42]) (key_id clear_prims k')))"
    by (rule encrypt_sync_sealed [OF clear_prims_ok, of clear_entropy "[1, 2, 3]" "Some ''history''" "[42]"]) (auto simp: clear_entropy_def)
  have "key_id clear_prims [43] \<noteq> key_id clear_prims [42]" by (simp add: clear_prims_def)
  with y(2) have closed: "decrypt_sync clear_prims y a [43] = Inl (CekDec (MismatchedKey (key_id clear_prims [42]) (key_id clear_prims [43])))" for a
    by blast
  have eq: "sealed_1 = with_data y plain_record"
    using y(1) by (simp add: sealed_1_def encrypt_def additional_data_def plain_record_def Record_build_def)
  have "rec_data sealed_1 = y" unfolding eq by simp
  then have "rec_data (from_row (to_row sealed_1)) = y" by (simp add: to_row_def from_row_def)
  then show ?thesis by (simp add: decrypt_def closed)
qed

theorem wrong_key_moves_nothing_witness:
  "sync (sqlite_engine\<lparr>e_key := [43]\<rparr>) \<lparr>local = empty_store, remote = synced_server\<rparr>
     = (Inl WrongKey, \<lparr>local = empty_store, remote = synced_server\<rparr>)"
proof (rule wrong_key_moves_nothing [where S = example_settings and A = example_api and authz = "Some example_token" and u = alice and y = "to_row sealed_1"])
  have rows: "sqlite_rows synced_server (user_id alice) = [to_row sealed_1]"
    by (simp add: synced_server_def user_rows_def example_ready(9))
  show "\<forall>x \<in> set (sqlite_rows (remote \<lparr>local = empty_store, remote = synced_server\<rparr>) (user_id alice)). 0 \<le> row_idx x
      \<and> (\<exists>e. decrypt (e_prims (sqlite_engine\<lparr>e_key := [43]\<rparr>)) (e_ad_json (sqlite_engine\<lparr>e_key := [43]\<rparr>)) (from_row x) (e_key (sqlite_engine\<lparr>e_key := [43]\<rparr>)) = Inl e)"
    using sealed_1_closed sealed_1_row(2) by (simp add: rows example_engine_def)
  show "row_tag (to_row sealed_1) \<noteq> ''packfile''" using sealed_1_row(1) by (simp add: skey_def to_row_def)
  show "sqlite_ready example_api (Some example_token) alice (remote \<lparr>local = empty_store, remote = synced_server\<rparr>)"
    using example_ready(1-3) by (simp add: synced_server_def)
qed (simp_all add: example_engine_def example_stores synced_server_def user_rows_def example_ready(9))

end
